(* ===== verification/Prelude.thy ===== *)
theory Prelude
  imports Main "HOL-Library.Word" "HOL-Library.Multiset"
begin

text \<open>
  Shared ground of the development: the machine types of the C sources, the ways a C
  statement can go wrong as values of \<open>fault\<close>, sequencing of fallible statements
  (\<open>bindE\<close>), counted loops (\<open>forE\<close>) with their proof rule, reads and writes of a heap
  array, and the few facts on words and lists that several components use.
\<close>

section \<open>Machine types\<close>

type_synonym size_t = "64 word"

text \<open>Conversion of a \<open>size_t\<close> to \<open>int\<close>: the low 32 bits, read in two's complement.\<close>

definition to_int :: "size_t \<Rightarrow> int" where
  "to_int w = sint (ucast w :: 32 word)"

definition INT_MIN :: int where "INT_MIN = - (2 ^ 31)"
definition INT_MAX :: int where "INT_MAX = 2 ^ 31 - 1"

section \<open>Faults and sequencing\<close>

text \<open>
  What stops a C function before it returns. \<open>Assert_Fail\<close> is a failed \<open>assert\<close>;
  \<open>Null_Deref\<close>, \<open>Out_Of_Bounds\<close>, \<open>Uninit_Read\<close> and \<open>Int_Overflow\<close> are undefined
  behaviour; \<open>Use_After_Free\<close> is the use or the freeing of a block that is not allocated;
  \<open>Nonterminating\<close> is a loop that never ends; \<open>Exit n\<close> is \<open>exit(n)\<close>.
\<close>

datatype fault =
    Assert_Fail
  | Null_Deref
  | Out_Of_Bounds
  | Uninit_Read
  | Int_Overflow
  | Use_After_Free
  | Nonterminating
  | Exit int

type_synonym 'a res = "fault + 'a"

abbreviation OK :: "'a \<Rightarrow> 'a res" where "OK \<equiv> Inr"
abbreviation Fault :: "fault \<Rightarrow> 'a res" where "Fault \<equiv> Inl"

definition bindE :: "'e + 'a \<Rightarrow> ('a \<Rightarrow> 'e + 'b) \<Rightarrow> 'e + 'b" where
  "bindE m f = (case m of Inl e \<Rightarrow> Inl e | Inr x \<Rightarrow> f x)"

lemma bindE_simps [simp]: "bindE (Inl e) f = Inl e" "bindE (Inr x) f = f x"
  by (simp_all add: bindE_def)

lemma bindE_eq_OK: "bindE m f = Inr y \<longleftrightarrow> (\<exists>x. m = Inr x \<and> f x = Inr y)"
  by (cases m) simp_all

lemma bindE_OK_E:
  assumes "bindE m f = Inr y" obtains x where "m = Inr x" "f x = Inr y"
  using assms by (auto simp: bindE_eq_OK)

lemma bindE_assoc: "bindE (bindE m f) g = bindE m (\<lambda>x. bindE (f x) g)"
  by (cases m) simp_all

definition assertE :: "bool \<Rightarrow> unit res" where
  "assertE b = (if b then OK () else Fault Assert_Fail)"

lemma assertE_simps [simp]: "assertE True = OK ()" "assertE False = Fault Assert_Fail"
  by (simp_all add: assertE_def)

text \<open>The value of a signed \<open>int\<close> expression: outside the range of the type it overflows.\<close>

definition c_int :: "int \<Rightarrow> int res" where
  "c_int x = (if INT_MIN \<le> x \<and> x \<le> INT_MAX then OK x else Fault Int_Overflow)"

lemma c_int_OK [simp]: "INT_MIN \<le> x \<Longrightarrow> x \<le> INT_MAX \<Longrightarrow> c_int x = OK x"
  by (simp add: c_int_def)

text \<open>A loop that may run forever is a \<open>partial_function\<close> with an optional result.\<close>

definition returns :: "'a res option \<Rightarrow> 'a res" where
  "returns r = (case r of None \<Rightarrow> Fault Nonterminating | Some x \<Rightarrow> x)"

lemma returns_Some [simp]: "returns (Some r) = r"
  by (simp add: returns_def)

section \<open>Counted loops\<close>

text \<open>
  \<open>forE is body s\<close> runs \<open>body\<close> for each index of \<open>is\<close> in order and stops at the first
  fault: \<open>for (i = a; i < b; i++)\<close> is the loop over \<open>[a..<b]\<close>, and a loop that counts down
  is the loop over the reversed list. The bound of such a loop does not change in its body.
\<close>

primrec forE :: "'i list \<Rightarrow> ('i \<Rightarrow> 's \<Rightarrow> 'e + 's) \<Rightarrow> 's \<Rightarrow> 'e + 's" where
  "forE [] body s = Inr s"
| "forE (i # is) body s = bindE (body i s) (forE is body)"

lemma forE_append: "forE (is @ js) body s = bindE (forE is body s) (forE js body)"
proof (induction "is" arbitrary: s)
  case (Cons i "is")
  then show ?case by (cases "body i s") simp_all
qed simp

lemma forE_cong:
  assumes "\<And>i s. i \<in> set is \<Longrightarrow> body i s = body' i s"
  shows "forE is body s = forE is body' s"
  using assms
proof (induction "is" arbitrary: s)
  case (Cons i "is")
  then show ?case by (cases "body' i s") simp_all
qed simp

text \<open>
  The loop rule: a property of the number of finished iterations and the state that every
  iteration carries on. It gives total correctness: the loop returns.
\<close>

lemma forE_rule:
  assumes "P 0 s"
    and "\<And>k s. k < length is \<Longrightarrow> P k s \<Longrightarrow> \<exists>s'. body (is ! k) s = Inr s' \<and> P (Suc k) s'"
  shows "\<exists>s'. forE is body s = Inr s' \<and> P (length is) s'"
  using assms
proof (induction "is" arbitrary: s P)
  case (Cons i "is")
  from Cons.prems(2) [of 0 s] Cons.prems(1)
  obtain s1 where s1: "body i s = Inr s1" "P (Suc 0) s1" by auto
  have "\<exists>s'. forE is body s1 = Inr s' \<and> P (Suc (length is)) s'"
    by (rule Cons.IH [where P = "\<lambda>k. P (Suc k)"]) (use s1 Cons.prems(2) in fastforce)+
  then show ?case using s1 by simp
qed auto

lemma forE_map: "forE (map f is) body s = forE is (\<lambda>i. body (f i)) s"
proof (induction "is" arbitrary: s)
  case (Cons i "is")
  then show ?case by (cases "body (f i) s") simp_all
qed simp

section \<open>Heap arrays\<close>

text \<open>
  An array of pointers on the heap is the list of its cells. A cell that was allocated and
  never written is \<open>None\<close>; reading it, or reaching outside the array, is a fault.
\<close>

definition rd :: "'a option list \<Rightarrow> nat \<Rightarrow> 'a res" where
  "rd arr i = (if i < length arr
     then (case arr ! i of None \<Rightarrow> Fault Uninit_Read | Some x \<Rightarrow> OK x)
     else Fault Out_Of_Bounds)"

definition wr :: "'a option list \<Rightarrow> nat \<Rightarrow> 'a \<Rightarrow> 'a option list res" where
  "wr arr i x = (if i < length arr then OK (arr[i := Some x]) else Fault Out_Of_Bounds)"

lemma rd_Some [simp]: "i < length arr \<Longrightarrow> arr ! i = Some x \<Longrightarrow> rd arr i = OK x"
  by (simp add: rd_def)

lemma rd_oob [simp]: "length arr \<le> i \<Longrightarrow> rd arr i = Fault Out_Of_Bounds"
  by (simp add: rd_def)

lemma wr_OK [simp]: "i < length arr \<Longrightarrow> wr arr i x = OK (arr[i := Some x])"
  by (simp add: wr_def)

text \<open>\<open>realloc\<close>: the first cells are kept, further ones are indeterminate.\<close>

definition realloc_cells :: "'a option list \<Rightarrow> nat \<Rightarrow> 'a option list" where
  "realloc_cells arr n = take n arr @ replicate (n - length arr) None"

lemma length_realloc_cells [simp]: "length (realloc_cells arr n) = n"
  by (simp add: realloc_cells_def)

lemma nth_realloc_cells [simp]:
  "i < n \<Longrightarrow> i < length arr \<Longrightarrow> realloc_cells arr n ! i = arr ! i"
  by (simp add: realloc_cells_def nth_append)

lemma take_realloc_cells [simp]:
  "k \<le> n \<Longrightarrow> k \<le> length arr \<Longrightarrow> take k (realloc_cells arr n) = take k arr"
  by (simp add: realloc_cells_def)

section \<open>Words\<close>

lemma unat_plus_one:
  fixes w :: "'a::len word"
  assumes "unat w + 1 < 2 ^ LENGTH('a)"
  shows "unat (w + 1) = unat w + 1"
  using assms by (simp add: unat_word_ariths)

lemma unat_minus_one_nat:
  fixes w :: "'a::len word"
  assumes "w \<noteq> 0"
  shows "unat (w - 1) = unat w - 1"
  using assms by (rule unat_minus_one)

lemma unat_add_size_t:
  fixes a b :: size_t
  assumes "unat a + unat b < 2 ^ 64"
  shows "unat (a + b) = unat a + unat b"
  using assms by (simp add: unat_word_ariths)

lemma unat_mult_size_t:
  fixes a b :: size_t
  assumes "unat a * unat b < 2 ^ 64"
  shows "unat (a * b) = unat a * unat b"
  using assms by (simp add: unat_word_ariths)

lemma unat_of_nat_size_t:
  assumes "n < 2 ^ 64"
  shows "unat (of_nat n :: size_t) = n"
  using assms by (simp add: unat_of_nat)

lemma unat_of_nat_plus_one:
  assumes "n + 1 < 2 ^ 64"
  shows "unat (of_nat n + 1 :: size_t) = n + 1"
  using unat_of_nat_size_t [OF assms] by (simp only: of_nat_add of_nat_1)

lemma unat_2p_size_t: "j < 64 \<Longrightarrow> unat (2 ^ j :: size_t) = 2 ^ j"
proof -
  assume "j < 64"
  then have "(2::nat) ^ j < 2 ^ 64" by (rule power_strict_increasing) simp
  from unat_of_nat_size_t [OF this] show ?thesis by simp
qed

lemma to_int_small:
  assumes "unat w < 2 ^ 31"
  shows "to_int w = int (unat w)"
proof -
  have "int (unat w) < int (2 ^ 31)" using assms by (simp only: of_nat_less_iff)
  then have lt: "uint w < 2 ^ 31" by simp
  have "to_int w = signed_take_bit (LENGTH(32) - Suc 0) (uint w)"
    unfolding to_int_def by (rule signed_ucast_eq)
  also have "LENGTH(32) - Suc 0 = 31" by simp
  also have "signed_take_bit 31 (uint w) = uint w"
  proof (rule signed_take_bit_int_eq_self [OF _ lt])
    have "- (2 ^ 31) \<le> (0::int)" by simp
    then show "- (2 ^ 31) \<le> uint w" using uint_ge_0 [of w] by linarith
  qed
  finally show ?thesis by simp
qed

section \<open>Lists\<close>

lemma take_list_update_Suc:
  "k < length xs \<Longrightarrow> take (Suc k) (xs[k := x]) = take k xs @ [x]"
  by (simp add: take_Suc_conv_app_nth)

lemma map_the_Some: "(\<And>i. i < length xs \<Longrightarrow> xs ! i \<noteq> None) \<Longrightarrow> map Some (map the xs) = xs"
  by (rule nth_equalityI) auto

lemma mset_update_exchange:
  "p < length xs \<Longrightarrow> add_mset (xs ! p) (mset (xs[p := y])) = add_mset y (mset xs)"
  by (simp add: mset_update nth_mem)

lemma upt_add_Suc: "[a..<Suc (a + n)] = a # [Suc a..<Suc (a + n)]"
  by (subst upt_conv_Cons) simp_all

lemma upto_nat: "[int a..int b - 1] = map int [a..<b]"
proof (induction b)
  case (Suc b)
  show ?case
  proof (cases "a \<le> b")
    case True
    then have "[int a..int (Suc b) - 1] = [int a..int b - 1] @ [int b]"
      by (simp add: upto_rec2)
    then show ?thesis using Suc True by simp
  qed simp
qed simp

end
