(* ===== verification/C_String.thy ===== *)
theory C_String
  imports Prelude
begin

text \<open>
  The C strings and the functions of \<open>string.h\<close> and \<open>stdio.h\<close> the sources call. A C string is
  the list of its characters before the terminating NUL; \<open>cstr\<close> reads one out of a buffer. A
  file is its content; \<open>getline\<close> and \<open>fprintf\<close> work on that.
\<close>

section \<open>Definitions\<close>

definition NUL :: char where "NUL = CHR 0x00"
definition NL :: char where "NL = CHR 0x0A"

definition cstr :: "char list \<Rightarrow> string" where
  "cstr buf = takeWhile (\<lambda>c. c \<noteq> NUL) buf"

text \<open>\<open>strstr\<close>: the offset of the first occurrence of the needle.\<close>

primrec strstr :: "string \<Rightarrow> string \<Rightarrow> nat option" where
  "strstr [] needle = (if needle = [] then Some 0 else None)"
| "strstr (c # cs) needle =
     (if take (length needle) (c # cs) = needle then Some 0
      else map_option Suc (strstr cs needle))"

text \<open>
  \<open>strtok\<close> with one delimiter: leading delimiters are skipped, the token ends before the next
  one, and the saved position is behind that delimiter.
\<close>

definition strtok :: "char \<Rightarrow> string \<Rightarrow> (string \<times> string) option" where
  "strtok d s = (let s' = dropWhile (\<lambda>c. c = d) s in
     if s' = [] then None
     else Some (takeWhile (\<lambda>c. c \<noteq> d) s', drop 1 (dropWhile (\<lambda>c. c \<noteq> d) s')))"

lemma strtok_shorter: "strtok d s = Some (t, rest) \<Longrightarrow> length rest < length s"
proof -
  assume "strtok d s = Some (t, rest)"
  then have "rest = drop 1 (dropWhile (\<lambda>c. c \<noteq> d) (dropWhile (\<lambda>c. c = d) s))"
    "dropWhile (\<lambda>c. c = d) s \<noteq> []"
    by (auto simp: strtok_def Let_def split: if_splits)
  moreover have "length (dropWhile (\<lambda>c. c = d) s) \<le> length s" by (rule length_dropWhile_le)
  moreover have "length (dropWhile (\<lambda>c. c \<noteq> d) (dropWhile (\<lambda>c. c = d) s))
      \<le> length (dropWhile (\<lambda>c. c = d) s)" by (rule length_dropWhile_le)
  moreover have "s \<noteq> []" using calculation(2) by auto
  ultimately show ?thesis by (cases s) auto
qed

text \<open>All tokens, in the order the loop \<open>while ((t = strtok(...)))\<close> sees them.\<close>

function strtok_all :: "char \<Rightarrow> string \<Rightarrow> string list" where
  "strtok_all d s = (case strtok d s of None \<Rightarrow> [] | Some (t, rest) \<Rightarrow> t # strtok_all d rest)"
  by pat_completeness auto
termination by (relation "measure (\<lambda>(d, s). length s)") (auto dest: strtok_shorter)

text \<open>\<open>strsep\<close> with one delimiter: the field before it, and the rest or the null pointer.\<close>

definition strsep :: "char \<Rightarrow> string \<Rightarrow> string \<times> string option" where
  "strsep d s = (takeWhile (\<lambda>c. c \<noteq> d) s,
     case dropWhile (\<lambda>c. c \<noteq> d) s of [] \<Rightarrow> None | _ # rest \<Rightarrow> Some rest)"

lemma strsep_shorter: "strsep d s = (f, Some rest) \<Longrightarrow> length rest < length s"
  using length_dropWhile_le [of "\<lambda>c. c \<noteq> d" s]
  by (auto simp: strsep_def split: list.splits)

text \<open>The loop \<open>while (ptr) { s = strsep(&ptr, d); ... }\<close>.\<close>

function strsep_all :: "char \<Rightarrow> string \<Rightarrow> string list" where
  "strsep_all d s = (case strsep d s of
      (f, None) \<Rightarrow> [f]
    | (f, Some rest) \<Rightarrow> f # strsep_all d rest)"
  by pat_completeness auto
termination
  by (relation "measure (\<lambda>(d, s). length s)") (auto dest: strsep_shorter [OF sym] strsep_shorter)

text \<open>\<open>getline\<close>: the next line with its newline, if the content has one; \<open>None\<close> at the end.\<close>

definition getline :: "string \<Rightarrow> (string \<times> string) option" where
  "getline content = (if content = [] then None
     else case dropWhile (\<lambda>c. c \<noteq> NL) content of
         [] \<Rightarrow> Some (content, [])
       | _ # rest \<Rightarrow> Some (takeWhile (\<lambda>c. c \<noteq> NL) content @ [NL], rest))"

lemma getline_shorter: "getline content = Some (l, rest) \<Longrightarrow> length rest < length content"
  using length_dropWhile_le [of "\<lambda>c. c \<noteq> NL" content]
  by (auto simp: getline_def split: if_splits list.splits)

function getlines :: "string \<Rightarrow> string list" where
  "getlines content = (case getline content of None \<Rightarrow> [] | Some (l, rest) \<Rightarrow> l # getlines rest)"
  by pat_completeness auto
termination by (relation "measure length") (auto dest: getline_shorter)

declare strtok_all.simps [simp del] strsep_all.simps [simp del] getlines.simps [simp del]

text \<open>\<open>if (line[read - 1] == '\n') line[read - 1] = '\0';\<close> the line as a C string.\<close>

definition chomp :: "string \<Rightarrow> string" where
  "chomp line = cstr (if line \<noteq> [] \<and> last line = NL then butlast line else line)"

text \<open>The removal of the newline and of a carriage return before it, written out where it is needed.\<close>

definition CR :: char where "CR = CHR 0x0D"

definition strip_line :: "string \<Rightarrow> string" where
  "strip_line line = cstr (if line \<noteq> [] \<and> last line = NL then
       (if butlast line \<noteq> [] \<and> last (butlast line) = CR then butlast (butlast line)
        else butlast line)
     else line)"

section \<open>Searching\<close>

lemma strstr_Some_iff:
  "strstr s t = Some i \<longleftrightarrow> i + length t \<le> length s \<and> take (length t) (drop i s) = t \<and>
     (\<forall>j < i. take (length t) (drop j s) \<noteq> t)"
proof (induction s arbitrary: i)
  case (Cons c s)
  show ?case
  proof (cases "take (length t) (c # s) = t")
    case True
    then have "length t \<le> length (c # s)" by (metis length_take min.absorb_iff2)
    with True show ?thesis by (auto intro: gr0I)
  next
    case False
    show ?thesis
    proof (cases i)
      case 0
      then show ?thesis using False by auto
    next
      case (Suc k)
      have "(\<forall>j < Suc k. take (length t) (drop j (c # s)) \<noteq> t) \<longleftrightarrow>
          (\<forall>j < k. take (length t) (drop j s) \<noteq> t)"
        using False by (auto simp: less_Suc_eq_0_disj)
      then show ?thesis using False Suc Cons.IH [of k] by auto
    qed
  qed
qed auto

lemma strstr_None_iff:
  "strstr s t = None \<longleftrightarrow> (\<forall>j \<le> length s. take (length t) (drop j s) \<noteq> t)"
proof (induction s)
  case (Cons c s)
  have split: "(\<forall>j \<le> Suc n. P j) \<longleftrightarrow> P 0 \<and> (\<forall>j \<le> n. P (Suc j))" for P n
    by (metis Suc_le_mono le0 not0_implies_Suc)
  show ?case
    using Cons.IH split [of "length s" "\<lambda>j. take (length t) (drop j (c # s)) \<noteq> t"] by simp
qed auto

lemma strstr_bound: "strstr s t = Some i \<Longrightarrow> i + length t \<le> length s"
  by (simp add: strstr_Some_iff)


section \<open>Tokens, fields and lines\<close>

lemma span_delim [simp]:
  assumes "d \<notin> set f"
  shows "takeWhile (\<lambda>c. c \<noteq> d) (f @ d # rest) = f" "dropWhile (\<lambda>c. c \<noteq> d) (f @ d # rest) = d # rest"
    "takeWhile (\<lambda>c. c \<noteq> d) f = f" "dropWhile (\<lambda>c. c \<noteq> d) f = []"
  using assms by (induction f) auto

lemma strtok_step:
  assumes "t \<noteq> []" "d \<notin> set t"
  shows "strtok d (t @ d # rest) = Some (t, rest)" "strtok d t = Some (t, [])"
proof -
  obtain c cs where t: "t = c # cs" "c \<noteq> d" using assms by (cases t) auto
  show "strtok d (t @ d # rest) = Some (t, rest)"
    using t assms span_delim(1,2) [of d t rest] by (simp add: strtok_def)
  show "strtok d t = Some (t, [])"
    using t assms span_delim(3,4) [of d t] by (simp add: strtok_def)
qed

lemma strtok_all_Nil [simp]: "strtok_all d [] = []"
  by (simp add: strtok_all.simps strtok_def)

lemma strtok_all_delim: "strtok_all d (d # s) = strtok_all d s"
  by (simp add: strtok_all.simps [of d "d # s"] strtok_all.simps [of d s] strtok_def)

lemma strtok_all_step:
  assumes "t \<noteq> []" "d \<notin> set t"
  shows "strtok_all d (t @ d # rest) = t # strtok_all d rest" "strtok_all d t = [t]"
  using strtok_step [OF assms]
  by (simp_all add: strtok_all.simps [of d "t @ d # rest"] strtok_all.simps [of d t])

text \<open>The tokens of a string are non-empty and free of the delimiter.\<close>

lemma strtok_all_tokens: "t \<in> set (strtok_all d s) \<Longrightarrow> t \<noteq> [] \<and> d \<notin> set t"
proof (induction d s rule: strtok_all.induct)
  case (1 d s)
  show ?case
  proof (cases "strtok d s")
    case None
    with "1.prems" show ?thesis by (simp add: strtok_all.simps)
  next
    case (Some p)
    then obtain u rest where p: "strtok d s = Some (u, rest)" by (cases p) simp
    then have u: "u = takeWhile (\<lambda>c. c \<noteq> d) (dropWhile (\<lambda>c. c = d) s)"
      "dropWhile (\<lambda>c. c = d) s \<noteq> []"
      by (auto simp: strtok_def Let_def split: if_splits)
    then have "u \<noteq> [] \<and> d \<notin> set u"
      using hd_dropWhile [OF u(2)] by (cases "dropWhile (\<lambda>c. c = d) s") (auto dest: set_takeWhileD)
    with p "1.prems" "1.IH" [OF p refl] show ?thesis by (auto simp: strtok_all.simps [of d s])
  qed
qed

lemma strsep_all_nodelim: "d \<notin> set s \<Longrightarrow> strsep_all d s = [s]"
  by (simp add: strsep_all.simps [of d s] strsep_def)

lemma strsep_all_step: "d \<notin> set f \<Longrightarrow> strsep_all d (f @ d # rest) = f # strsep_all d rest"
  by (simp add: strsep_all.simps [of d "f @ d # rest"] strsep_def)

lemma strsep_all_nonempty [simp]: "strsep_all d s \<noteq> []"
proof (cases "strsep d s")
  case (Pair f r)
  then show ?thesis by (cases r) (simp_all add: strsep_all.simps [of d s])
qed

lemma getlines_Nil [simp]: "getlines [] = []"
  by (simp add: getlines.simps getline_def)

lemma getlines_step: "NL \<notin> set l \<Longrightarrow> getlines (l @ NL # rest) = (l @ [NL]) # getlines rest"
  by (simp add: getlines.simps [of "l @ NL # rest"] getline_def)

lemma getlines_last: "NL \<notin> set l \<Longrightarrow> l \<noteq> [] \<Longrightarrow> getlines l = [l]"
  by (simp add: getlines.simps [of l] getline_def)

text \<open>A file of whole lines reads back as those lines.\<close>

lemma getlines_concat:
  "(\<And>l. l \<in> set ls \<Longrightarrow> NL \<notin> set l) \<Longrightarrow> getlines (concat (map (\<lambda>l. l @ [NL]) ls)) = map (\<lambda>l. l @ [NL]) ls"
  by (induction ls) (simp_all add: getlines_step)

lemma cstr_id [simp]: "NUL \<notin> set s \<Longrightarrow> cstr s = s"
  by (auto simp: cstr_def takeWhile_eq_all_conv)

lemma chomp_line: "NUL \<notin> set l \<Longrightarrow> chomp (l @ [NL]) = l"
  by (simp add: chomp_def)

section \<open>Buffers\<close>

text \<open>Writing bytes into a buffer at an offset.\<close>

definition overwrite :: "char list \<Rightarrow> nat \<Rightarrow> string \<Rightarrow> char list" where
  "overwrite b at d = take at b @ d @ drop (at + length d) b"

lemma length_overwrite [simp]: "at + length d \<le> length b \<Longrightarrow> length (overwrite b at d) = length b"
  by (simp add: overwrite_def)

lemma take_overwrite:
  "at + length d \<le> length b \<Longrightarrow> take (at + length d) (overwrite b at d) = take at b @ d"
  by (simp add: overwrite_def)

end
