(* ===== verification/Vector.thy ===== *)
theory Vector
  imports Prelude
begin

text \<open>
  The dynamic array of \<open>vector/vector.c\<close>: the struct, the capacity loop, every operation,
  and their refinement to lists. The fields \<open>constructed\<close> and \<open>destructed\<close> record the
  results of the constructor callbacks and the arguments of the destructor callback, in
  order; no operation reads them.
\<close>

section \<open>The model\<close>

text \<open>
  Two cells of the struct are callbacks that return a value; the third, the destructor, has
  an effect only, which is its entry in \<open>destructed\<close>. A pointer whose object was destroyed
  is indeterminate, so its cell becomes \<open>None\<close>.
\<close>

record 'a vector =
  copy_constructor :: "'a \<Rightarrow> 'a"
  default_constructor :: "unit \<Rightarrow> 'a"
  array :: "'a option list"
  vsize :: size_t
  capacity :: size_t
  constructed :: "'a list"
  destructed :: "'a list"

definition INITIAL_CAPACITY :: size_t where "INITIAL_CAPACITY = 8"
definition GROWTH_FACTOR :: size_t where "GROWTH_FACTOR = 2"

text \<open>\<open>sizeof(void*)\<close>\<close>

definition PTR_SIZE :: size_t where "PTR_SIZE = 8"

partial_function (option) capacity_loop :: "size_t \<Rightarrow> size_t \<Rightarrow> size_t option" where
  "capacity_loop new_capacity target =
     (if new_capacity < target then capacity_loop (new_capacity * GROWTH_FACTOR) target
      else Some new_capacity)"

definition get_new_capacity :: "size_t \<Rightarrow> size_t option" where
  "get_new_capacity target = capacity_loop 1 target"

definition vector_create :: "('a \<Rightarrow> 'a) \<Rightarrow> (unit \<Rightarrow> 'a) \<Rightarrow> 'a vector" where
  "vector_create copy dflt =
     \<lparr>copy_constructor = copy, default_constructor = dflt,
      array = replicate (unat (PTR_SIZE * INITIAL_CAPACITY) div unat PTR_SIZE) None,
      vsize = 0, capacity = INITIAL_CAPACITY, constructed = [], destructed = []\<rparr>"

text \<open>\<open>this->destructor(*(this->array + i))\<close>\<close>

definition destroy_at :: "'a vector \<Rightarrow> nat \<Rightarrow> 'a vector res" where
  "destroy_at v i = bindE (rd (array v) i) (\<lambda>x.
     OK (v\<lparr>array := (array v)[i := None], destructed := destructed v @ [x]\<rparr>))"

text \<open>\<open>*(this->array + i) = this->copy_constructor(element)\<close>, and the default constructor.\<close>

definition construct_at :: "'a vector \<Rightarrow> nat \<Rightarrow> 'a \<Rightarrow> 'a vector res" where
  "construct_at v i y = bindE (wr (array v) i y) (\<lambda>a.
     OK (v\<lparr>array := a, constructed := constructed v @ [y]\<rparr>))"

text \<open>\<open>*(this->array + i) = *(this->array + j)\<close>\<close>

definition move_cell :: "'a vector \<Rightarrow> nat \<Rightarrow> nat \<Rightarrow> 'a vector res" where
  "move_cell v i j = bindE (rd (array v) j) (\<lambda>x. bindE (wr (array v) i x) (\<lambda>a.
     OK (v\<lparr>array := a\<rparr>)))"

text \<open>
  The reallocation step that \<open>vector_resize\<close>, \<open>vector_reserve\<close>, \<open>vector_push_back\<close> and
  \<open>vector_insert\<close> share. The byte count \<open>new_capacity * sizeof(void*)\<close> wraps around.
\<close>

definition vector_grow :: "'a vector \<Rightarrow> size_t \<Rightarrow> 'a vector res" where
  "vector_grow v n = (if n > capacity v then
     (case get_new_capacity n of
        None \<Rightarrow> Fault Nonterminating
      | Some new_capacity \<Rightarrow>
          OK (v\<lparr>array := realloc_cells (array v)
                             (unat (new_capacity * PTR_SIZE) div unat PTR_SIZE),
                 capacity := new_capacity\<rparr>))
     else OK v)"

definition vector_destroy :: "'a vector \<Rightarrow> 'a vector res" where
  "vector_destroy v = bindE (forE [0..<unat (vsize v)] (\<lambda>i v. destroy_at v i) v)
     (\<lambda>v. OK (v\<lparr>array := []\<rparr>))"

text \<open>The functions that return a place in the array return its index.\<close>

definition vector_begin :: "'a vector \<Rightarrow> size_t" where "vector_begin v = 0"
definition vector_end :: "'a vector \<Rightarrow> size_t" where "vector_end v = vsize v"
definition vector_size :: "'a vector \<Rightarrow> size_t" where "vector_size v = vsize v"

definition vector_resize :: "'a vector \<Rightarrow> size_t \<Rightarrow> 'a vector res" where
  "vector_resize v n =
     (if vsize v > n then
        bindE (c_int (to_int (vsize v) - 1)) (\<lambda>hi.
        bindE (forE (rev [to_int n..hi])
                 (\<lambda>i v. if i < 0 then Fault Out_Of_Bounds else destroy_at v (nat i)) v) (\<lambda>v.
        OK (v\<lparr>vsize := n\<rparr>)))
      else if vsize v < n then
        bindE (vector_grow v n) (\<lambda>v1.
        bindE (forE [unat (vsize v)..<unat n]
                 (\<lambda>i v. construct_at v i (default_constructor v ())) v1) (\<lambda>v.
        OK (v\<lparr>vsize := n\<rparr>)))
      else OK (v\<lparr>vsize := n\<rparr>))"

definition vector_capacity :: "'a vector \<Rightarrow> size_t" where "vector_capacity v = capacity v"
definition vector_empty :: "'a vector \<Rightarrow> bool" where
  "vector_empty v = (if vsize v \<noteq> 0 then False else True)"

definition vector_reserve :: "'a vector \<Rightarrow> size_t \<Rightarrow> 'a vector res" where
  "vector_reserve v n = vector_grow v n"

definition vector_at :: "'a vector \<Rightarrow> size_t \<Rightarrow> size_t" where "vector_at v position = position"

definition vector_set :: "'a vector \<Rightarrow> size_t \<Rightarrow> 'a \<Rightarrow> 'a vector res" where
  "vector_set v position element = bindE (destroy_at v (unat position)) (\<lambda>v.
     construct_at v (unat position) (copy_constructor v element))"

definition vector_get :: "'a vector \<Rightarrow> size_t \<Rightarrow> 'a res" where
  "vector_get v position = rd (array v) (unat position)"

definition vector_front :: "'a vector \<Rightarrow> size_t" where "vector_front v = 0"
definition vector_back :: "'a vector \<Rightarrow> size_t" where "vector_back v = vsize v - 1"

definition vector_push_back :: "'a vector \<Rightarrow> 'a \<Rightarrow> 'a vector res" where
  "vector_push_back v element =
     bindE (vector_grow (v\<lparr>vsize := vsize v + 1\<rparr>) (vsize v + 1)) (\<lambda>v.
     construct_at v (unat (vsize v - 1)) (copy_constructor v element))"

definition vector_pop_back :: "'a vector \<Rightarrow> 'a vector res" where
  "vector_pop_back v = destroy_at (v\<lparr>vsize := vsize v - 1\<rparr>) (unat (vsize v - 1))"

definition vector_insert :: "'a vector \<Rightarrow> size_t \<Rightarrow> 'a \<Rightarrow> 'a vector res" where
  "vector_insert v position element =
     bindE (vector_grow (v\<lparr>vsize := vsize v + 1\<rparr>) (vsize v + 1)) (\<lambda>v.
     bindE (forE (rev [Suc (unat position)..<Suc (unat (vsize v - 1))])
              (\<lambda>i v. move_cell v i (i - 1)) v) (\<lambda>v.
     construct_at v (unat position) (copy_constructor v element)))"

definition vector_erase :: "'a vector \<Rightarrow> size_t \<Rightarrow> 'a vector res" where
  "vector_erase v position = bindE (assertE (position < vector_size v)) (\<lambda>_.
     bindE (destroy_at v (unat position)) (\<lambda>v.
     bindE (forE [unat position..<unat (vsize v - 1)] (\<lambda>i v. move_cell v i (i + 1)) v) (\<lambda>v.
     OK (v\<lparr>vsize := vsize v - 1\<rparr>))))"

definition vector_clear :: "'a vector \<Rightarrow> 'a vector res" where
  "vector_clear v = bindE (forE [0..<unat (vsize v)] (\<lambda>i v. destroy_at v i) v)
     (\<lambda>v. OK (v\<lparr>vsize := 0\<rparr>))"

text \<open>
  The vectors for a given element type: each constructor passes the callbacks of its type,
  which are declared elsewhere and are a parameter here. A C string is the list of its
  characters before the terminator. All the strings' clients rely on is that the copy
  constructor copies.
\<close>

type_synonym 'a callbacks = "('a \<Rightarrow> 'a) \<times> (unit \<Rightarrow> 'a)"

definition typed_vector_create :: "'a callbacks \<Rightarrow> 'a vector" where
  "typed_vector_create cb = vector_create (fst cb) (snd cb)"

definition string_vector_create :: "string callbacks \<Rightarrow> string vector" where
  "string_vector_create cb = typed_vector_create cb"

definition copies :: "'a callbacks \<Rightarrow> bool" where
  "copies cb \<longleftrightarrow> fst cb = (\<lambda>x. x)"

definition strdup_callbacks :: "string callbacks" where
  "strdup_callbacks = (\<lambda>s. s, \<lambda>_. [])"

section \<open>Specification\<close>

text \<open>
  Up to \<open>MAX_CELLS\<close> cells the byte count of the array fits a \<open>size_t\<close>. \<open>vec_rep v xs\<close>
  says that \<open>v\<close> is well formed and holds exactly \<open>xs\<close>, and that every element ever
  constructed is either held or was destroyed, once.
\<close>

definition MAX_CELLS :: nat where "MAX_CELLS = 2 ^ 60"

definition vec_rep :: "'a vector \<Rightarrow> 'a list \<Rightarrow> bool" where
  "vec_rep v xs \<longleftrightarrow> take (length xs) (array v) = map Some xs \<and>
     unat (vsize v) = length xs \<and> length xs \<le> length (array v) \<and>
     length (array v) = unat (capacity v) \<and> unat (capacity v) \<le> MAX_CELLS \<and>
     mset (constructed v) = mset (destructed v) + mset xs"

definition same_callbacks :: "'a vector \<Rightarrow> 'a vector \<Rightarrow> bool" where
  "same_callbacks v v' \<longleftrightarrow> copy_constructor v' = copy_constructor v \<and>
     default_constructor v' = default_constructor v"

text \<open>
  Whole histories of a vector: the operations that change it, what each does to the list of
  its elements, and when a caller may use it.
\<close>

datatype 'a vec_op =
    Push 'a | Pop | Insert size_t 'a | Erase size_t | Set size_t 'a
  | Resize size_t | Reserve size_t | Clear

fun vec_exec :: "'a vec_op \<Rightarrow> 'a vector \<Rightarrow> 'a vector res" where
  "vec_exec (Push x) v = vector_push_back v x"
| "vec_exec Pop v = vector_pop_back v"
| "vec_exec (Insert p x) v = vector_insert v p x"
| "vec_exec (Erase p) v = vector_erase v p"
| "vec_exec (Set p x) v = vector_set v p x"
| "vec_exec (Resize n) v = vector_resize v n"
| "vec_exec (Reserve n) v = vector_reserve v n"
| "vec_exec Clear v = vector_clear v"

fun list_exec :: "('a \<Rightarrow> 'a) \<Rightarrow> 'a \<Rightarrow> 'a vec_op \<Rightarrow> 'a list \<Rightarrow> 'a list" where
  "list_exec cp d (Push x) xs = xs @ [cp x]"
| "list_exec cp d Pop xs = butlast xs"
| "list_exec cp d (Insert p x) xs = take (unat p) xs @ cp x # drop (unat p) xs"
| "list_exec cp d (Erase p) xs = take (unat p) xs @ drop (Suc (unat p)) xs"
| "list_exec cp d (Set p x) xs = xs[unat p := cp x]"
| "list_exec cp d (Resize n) xs = take (unat n) xs @ replicate (unat n - length xs) d"
| "list_exec cp d (Reserve n) xs = xs"
| "list_exec cp d Clear xs = []"

fun vec_op_ok :: "'a vec_op \<Rightarrow> 'a list \<Rightarrow> bool" where
  "vec_op_ok (Push x) xs \<longleftrightarrow> length xs < MAX_CELLS"
| "vec_op_ok Pop xs \<longleftrightarrow> xs \<noteq> []"
| "vec_op_ok (Insert p x) xs \<longleftrightarrow> length xs < MAX_CELLS \<and> unat p \<le> length xs"
| "vec_op_ok (Erase p) xs \<longleftrightarrow> unat p < length xs"
| "vec_op_ok (Set p x) xs \<longleftrightarrow> unat p < length xs"
| "vec_op_ok (Resize n) xs \<longleftrightarrow> length xs < 2 ^ 31 \<and> unat n \<le> MAX_CELLS"
| "vec_op_ok (Reserve n) xs \<longleftrightarrow> unat n \<le> MAX_CELLS"
| "vec_op_ok Clear xs \<longleftrightarrow> True"

fun list_run :: "('a \<Rightarrow> 'a) \<Rightarrow> 'a \<Rightarrow> 'a vec_op list \<Rightarrow> 'a list \<Rightarrow> 'a list" where
  "list_run cp d [] xs = xs"
| "list_run cp d (op # ops) xs = list_run cp d ops (list_exec cp d op xs)"

fun vec_ops_ok :: "('a \<Rightarrow> 'a) \<Rightarrow> 'a \<Rightarrow> 'a vec_op list \<Rightarrow> 'a list \<Rightarrow> bool" where
  "vec_ops_ok cp d [] xs \<longleftrightarrow> True"
| "vec_ops_ok cp d (op # ops) xs \<longleftrightarrow>
     vec_op_ok op xs \<and> vec_ops_ok cp d ops (list_exec cp d op xs)"

section \<open>The capacity loop\<close>

lemma double_pow:
  assumes "nc = 0 \<or> (\<exists>j < 64. nc = 2 ^ j)"
  shows "nc * GROWTH_FACTOR = 0 \<or> (\<exists>j < 64. nc * GROWTH_FACTOR = 2 ^ j)"
proof (cases "nc = 0")
  case False
  with assms obtain j where j: "j < 64" "nc = 2 ^ j" by blast
  show ?thesis
  proof (cases "j = 63")
    case True
    then show ?thesis using j by (simp add: GROWTH_FACTOR_def)
  next
    case False
    then have "Suc j < 64" "nc * GROWTH_FACTOR = 2 ^ Suc j"
      using j by (simp_all add: GROWTH_FACTOR_def mult.commute)
    then show ?thesis by blast
  qed
qed simp

lemma capacity_loop_pow:
  assumes "unat target \<le> 2 ^ 63" "j \<le> 63"
  shows "\<exists>k. j \<le> k \<and> k \<le> 63 \<and> capacity_loop (2 ^ j) target = Some (2 ^ k) \<and>
    unat target \<le> 2 ^ k \<and> (k = j \<or> 2 ^ (k - 1) < unat target)"
  using assms
proof (induction "63 - j" arbitrary: j)
  case 0
  then have "j = 63" by simp
  have "\<not> (2 ^ j :: size_t) < target"
    using 0 \<open>j = 63\<close> by (simp add: word_less_nat_alt unat_2p_size_t)
  then have "capacity_loop (2 ^ j) target = Some (2 ^ j)" by (simp add: capacity_loop.simps)
  then show ?case using 0 \<open>j = 63\<close> by blast
next
  case (Suc m)
  show ?case
  proof (cases "2 ^ j < unat target")
    case False
    then have "\<not> (2 ^ j :: size_t) < target"
      using Suc by (simp add: word_less_nat_alt unat_2p_size_t)
    then have "capacity_loop (2 ^ j) target = Some (2 ^ j)" by (simp add: capacity_loop.simps)
    then show ?thesis using False Suc.prems by (intro exI [of _ j]) simp
  next
    case True
    then have "(2 ^ j :: size_t) < target"
      using Suc by (simp add: word_less_nat_alt unat_2p_size_t)
    then have step: "capacity_loop (2 ^ j) target = capacity_loop (2 ^ Suc j) target"
      by (subst capacity_loop.simps) (simp add: GROWTH_FACTOR_def mult.commute)
    have "m = 63 - Suc j" "Suc j \<le> 63" using Suc by auto
    from Suc.hyps(1) [OF this(1) Suc.prems(1) this(2)] obtain k where k: "Suc j \<le> k" "k \<le> 63"
      "capacity_loop (2 ^ Suc j) target = Some (2 ^ k)" "unat target \<le> 2 ^ k"
      "k = Suc j \<or> 2 ^ (k - 1) < unat target" by blast
    then have "2 ^ (k - 1) < unat target" using True by auto
    with k step show ?thesis by (intro exI [of _ k]) simp
  qed
qed

lemma capacity_loop_stops:
  assumes "capacity_loop nc target = Some r" and "nc = 0 \<or> (\<exists>j < 64. nc = 2 ^ j)"
  shows "unat target \<le> 2 ^ 63"
proof -
  have "(nc = 0 \<or> (\<exists>j < 64. nc = 2 ^ j)) \<longrightarrow> unat r \<le> 2 ^ 63 \<and> \<not> r < target"
  proof (rule capacity_loop.raw_induct [OF _ assms(1)])
    fix f nc target r
    assume IH: "\<And>nc target r. f nc target = Some r \<Longrightarrow>
        (nc = 0 \<or> (\<exists>j < 64. nc = 2 ^ j)) \<longrightarrow> unat r \<le> 2 ^ 63 \<and> \<not> r < target"
      and eq: "(if nc < target then f (nc * GROWTH_FACTOR) target else Some nc) = Some r"
    show "(nc = 0 \<or> (\<exists>j < 64. nc = 2 ^ j)) \<longrightarrow> unat r \<le> 2 ^ 63 \<and> \<not> r < target"
    proof
      assume pow: "nc = 0 \<or> (\<exists>j < 64. nc = 2 ^ j)"
      show "unat r \<le> 2 ^ 63 \<and> \<not> r < target"
      proof (cases "nc < target")
        case True
        have "nc * GROWTH_FACTOR = 0 \<or> (\<exists>j < 64. nc * GROWTH_FACTOR = 2 ^ j)"
          using pow by (rule double_pow)
        moreover have "f (nc * GROWTH_FACTOR) target = Some r" using eq True by simp
        ultimately show ?thesis using IH by blast
      next
        case False
        moreover have "unat nc \<le> 2 ^ 63"
        proof -
          have "j < 64 \<Longrightarrow> (2::nat) ^ j \<le> 2 ^ 63" for j by (rule power_increasing) auto
          then show ?thesis using pow by (auto simp: unat_2p_size_t)
        qed
        ultimately show ?thesis using eq by simp
      qed
    qed
  qed
  with assms(2) have "unat r \<le> 2 ^ 63" "\<not> r < target" by auto
  then show ?thesis by (simp add: word_less_nat_alt)
qed

lemma get_new_capacity_eq:
  "get_new_capacity target =
     (if unat target \<le> 2 ^ 63 then Some (2 ^ (LEAST k. unat target \<le> 2 ^ k)) else None)"
proof (cases "unat target \<le> 2 ^ 63")
  case True
  then obtain k where k: "capacity_loop (2 ^ 0) target = Some (2 ^ k)" "unat target \<le> 2 ^ k"
    "k = 0 \<or> 2 ^ (k - 1) < unat target"
    using capacity_loop_pow [of target 0] by auto
  have "(LEAST k. unat target \<le> 2 ^ k) = k"
  proof (rule Least_equality)
    show "unat target \<le> 2 ^ k" by (rule k(2))
    fix l assume l: "unat target \<le> 2 ^ l"
    show "k \<le> l"
    proof (rule ccontr)
      assume "\<not> k \<le> l"
      then have "(2::nat) ^ l \<le> 2 ^ (k - 1)" by (intro power_increasing) auto
      moreover have "2 ^ (k - 1) < unat target" using k(3) \<open>\<not> k \<le> l\<close> by auto
      ultimately show False using l by linarith
    qed
  qed
  with k(1) True show ?thesis by (simp add: get_new_capacity_def)
next
  case False
  then have "capacity_loop 1 target = None"
    using capacity_loop_stops [of 1 target] by (cases "capacity_loop 1 target") (force intro: exI [of _ 0])+
  with False show ?thesis by (simp add: get_new_capacity_def)
qed

section \<open>Refinement to lists\<close>

lemma get_new_capacity_bounded:
  assumes "unat n \<le> MAX_CELLS"
  obtains c where "get_new_capacity n = Some c" "unat n \<le> unat c" "unat c \<le> MAX_CELLS"
proof -
  define k where "k = (LEAST k. unat n \<le> 2 ^ k)"
  have "unat n \<le> 2 ^ k" unfolding k_def
    by (rule LeastI [of _ 60]) (use assms in \<open>simp add: MAX_CELLS_def\<close>)
  moreover have "k \<le> 60" unfolding k_def
    by (rule Least_le) (use assms in \<open>simp add: MAX_CELLS_def\<close>)
  moreover from \<open>k \<le> 60\<close> have "unat (2 ^ k :: size_t) = 2 ^ k" by (simp add: unat_2p_size_t)
  moreover from \<open>k \<le> 60\<close> have "(2::nat) ^ k \<le> 2 ^ 60" by (rule power_increasing) simp
  moreover have "unat n \<le> 2 ^ 63" using assms by (simp add: MAX_CELLS_def)
  ultimately show thesis using get_new_capacity_eq [of n] that [of "2 ^ k"]
    by (simp add: k_def MAX_CELLS_def)
qed

lemma MAX_CELLS_64: "n \<le> MAX_CELLS \<Longrightarrow> n + 1 < 2 ^ 64"
  by (simp add: MAX_CELLS_def)

lemma vector_grow_spec:
  assumes "length (array v) = unat (capacity v)" "unat (capacity v) \<le> MAX_CELLS"
    and "unat n \<le> MAX_CELLS"
  obtains a c where "vector_grow v n = OK (v\<lparr>array := a, capacity := c\<rparr>)"
    "length a = unat c" "unat n \<le> unat c" "unat c \<le> MAX_CELLS"
    "length (array v) \<le> length a" "take (length (array v)) a = array v"
proof (cases "n > capacity v")
  case True
  obtain c where c: "get_new_capacity n = Some c" "unat n \<le> unat c" "unat c \<le> MAX_CELLS"
    using get_new_capacity_bounded [OF assms(3)] by blast
  have "unat (c * PTR_SIZE) = unat c * 8"
    using c(3) by (subst unat_mult_size_t) (simp_all add: PTR_SIZE_def MAX_CELLS_def)
  then have cells: "unat (c * PTR_SIZE) div unat PTR_SIZE = unat c" by (simp add: PTR_SIZE_def)
  have le: "length (array v) \<le> unat c"
    using True c(2) assms(1) by (simp add: word_less_nat_alt)
  show thesis
    by (rule that [of c "realloc_cells (array v) (unat c)"])
      (use True c cells le in \<open>simp_all add: vector_grow_def\<close>)
next
  case False
  then show thesis using assms that [of "capacity v" "array v"]
    by (simp add: vector_grow_def word_less_nat_alt)
qed

lemma vec_repI:
  assumes "array v = map Some xs @ rest" "unat (vsize v) = length xs"
    "length (array v) = unat (capacity v)" "unat (capacity v) \<le> MAX_CELLS"
    "mset (constructed v) = mset (destructed v) + mset xs"
  shows "vec_rep v xs"
  using assms by (simp add: vec_rep_def)

lemma vec_repE:
  assumes "vec_rep v xs"
  obtains rest where "array v = map Some xs @ rest" "unat (vsize v) = length xs"
    "length (array v) = unat (capacity v)" "unat (capacity v) \<le> MAX_CELLS"
    "mset (constructed v) = mset (destructed v) + mset xs"
  using assms that [of "drop (length xs) (array v)"] append_take_drop_id [of "length xs" "array v"]
  by (simp add: vec_rep_def)

lemma array_update_id: "array v = a \<Longrightarrow> v\<lparr>array := a\<rparr> = v"
  by (cases v) simp

subsection \<open>The loops over the array\<close>

lemma destroy_at_step:
  "array v = pre @ Some x # rest \<Longrightarrow> destroy_at v (length pre) =
     OK (v\<lparr>array := pre @ None # rest, destructed := destructed v @ [x]\<rparr>)"
  by (simp add: destroy_at_def rd_def list_update_append)

lemma construct_at_step:
  "array v = pre @ c # rest \<Longrightarrow> construct_at v (length pre) y =
     OK (v\<lparr>array := pre @ Some y # rest, constructed := constructed v @ [y]\<rparr>)"
  by (simp add: construct_at_def wr_def list_update_append)

lemma destroy_up:
  "array v = pre @ map Some ys @ rest \<Longrightarrow>
   forE [length pre..<length pre + length ys] (\<lambda>i v. destroy_at v i) v =
     OK (v\<lparr>array := pre @ replicate (length ys) None @ rest, destructed := destructed v @ ys\<rparr>)"
proof (induction ys arbitrary: v pre)
  case (Cons y ys)
  let ?v = "v\<lparr>array := (pre @ [None]) @ map Some ys @ rest, destructed := destructed v @ [y]\<rparr>"
  have "destroy_at v (length pre) = OK ?v" using Cons.prems by (simp add: destroy_at_step)
  moreover have "[length pre..<length pre + length (y # ys)] =
      length pre # [length (pre @ [None])..<length (pre @ [None]) + length ys]"
    by (simp add: upt_add_Suc del: upt_Suc)
  ultimately show ?case using Cons.IH [of ?v "pre @ [None]"] by simp
qed simp

lemma destroy_down:
  "array v = pre @ map Some ys @ rest \<Longrightarrow>
   forE (rev [length pre..<length pre + length ys]) (\<lambda>i v. destroy_at v i) v =
     OK (v\<lparr>array := pre @ replicate (length ys) None @ rest, destructed := destructed v @ rev ys\<rparr>)"
proof (induction ys arbitrary: v rest rule: rev_induct)
  case (snoc y ys)
  let ?v = "v\<lparr>array := pre @ map Some ys @ None # rest, destructed := destructed v @ [y]\<rparr>"
  have "destroy_at v (length (pre @ map Some ys)) = OK ?v"
    using snoc.prems by (subst destroy_at_step) simp_all
  then show ?case using snoc.IH [of ?v "None # rest"]
    by (simp add: replicate_append_same flip: replicate_append_same)
qed simp

lemma construct_defaults:
  "array v = pre @ cells @ rest \<Longrightarrow>
   forE [length pre..<length pre + length cells]
     (\<lambda>i v. construct_at v i (default_constructor v ())) v =
     OK (v\<lparr>array := pre @ replicate (length cells) (Some (default_constructor v ())) @ rest,
            constructed := constructed v @ replicate (length cells) (default_constructor v ())\<rparr>)"
proof (induction cells arbitrary: v pre)
  case (Cons c cells)
  let ?d = "default_constructor v ()"
  let ?v = "v\<lparr>array := (pre @ [Some ?d]) @ cells @ rest, constructed := constructed v @ [?d]\<rparr>"
  have "construct_at v (length pre) ?d = OK ?v" using Cons.prems by (simp add: construct_at_step)
  moreover have "[length pre..<length pre + length (c # cells)] =
      length pre # [length (pre @ [Some ?d])..<length (pre @ [Some ?d]) + length cells]"
    by (simp add: upt_add_Suc del: upt_Suc)
  ultimately show ?case using Cons.IH [of ?v "pre @ [Some ?d]"] by simp
qed simp

lemma shift_right:
  "array v = map Some as @ map Some bs @ c # rest \<Longrightarrow>
   \<exists>c'. forE (rev [Suc (length as)..<Suc (length as + length bs)]) (\<lambda>i v. move_cell v i (i - 1)) v
     = OK (v\<lparr>array := map Some as @ c' # map Some bs @ rest\<rparr>)"
proof (induction bs arbitrary: v c rest rule: rev_induct)
  case (snoc b bs)
  let ?v = "v\<lparr>array := map Some as @ map Some bs @ Some b # Some b # rest\<rparr>"
  have "move_cell v (Suc (length as + length bs)) (length as + length bs) = OK ?v"
    using snoc.prems by (simp add: move_cell_def rd_def wr_def nth_append list_update_append)
  then show ?case using snoc.IH [of ?v "Some b" "Some b # rest"] by simp
next
  case Nil
  then show ?case by (intro exI [of _ c]) (simp add: array_update_id)
qed

lemma shift_left:
  "array v = map Some as @ c # map Some bs @ rest \<Longrightarrow>
   \<exists>c'. forE [length as..<length as + length bs] (\<lambda>i v. move_cell v i (i + 1)) v
     = OK (v\<lparr>array := map Some as @ map Some bs @ c' # rest\<rparr>)"
proof (induction bs arbitrary: v as c)
  case (Cons b bs)
  let ?v = "v\<lparr>array := map Some (as @ [b]) @ Some b # map Some bs @ rest\<rparr>"
  have "move_cell v (length as) (length as + 1) = OK ?v"
    using Cons.prems by (simp add: move_cell_def rd_def wr_def nth_append list_update_append)
  moreover have "[length as..<length as + length (b # bs)] =
      length as # [length (as @ [b])..<length (as @ [b]) + length bs]"
    by (simp add: upt_add_Suc del: upt_Suc)
  ultimately show ?case using Cons.IH [of ?v "as @ [b]" "Some b"] by simp
next
  case Nil
  then show ?case by (intro exI [of _ c]) (simp add: array_update_id)
qed


subsection \<open>Each operation refines its list operation\<close>

lemma vec_rep_length: "vec_rep v xs \<Longrightarrow> unat (vsize v) = length xs \<and> length xs \<le> MAX_CELLS"
  by (simp add: vec_rep_def)

lemma vector_create_rep: "vec_rep (vector_create cp d) []"
  by (simp add: vec_rep_def vector_create_def PTR_SIZE_def INITIAL_CAPACITY_def MAX_CELLS_def)

lemma vector_size_rep: "vec_rep v xs \<Longrightarrow> unat (vector_size v) = length xs"
  by (simp add: vec_rep_def vector_size_def)

lemma vector_get_rep: "vec_rep v xs \<Longrightarrow> unat p < length xs \<Longrightarrow> vector_get v p = OK (xs ! unat p)"
  by (erule vec_repE) (simp add: vector_get_def nth_append rd_def)

lemma vector_set_rep:
  assumes "vec_rep v xs" "unat p < length xs"
  shows "\<exists>v'. vector_set v p x = OK v' \<and> vec_rep v' (xs[unat p := copy_constructor v x]) \<and>
    same_callbacks v v'"
proof -
  from assms(1) obtain rest where r: "array v = map Some xs @ rest" "unat (vsize v) = length xs"
    "length (array v) = unat (capacity v)" "unat (capacity v) \<le> MAX_CELLS"
    "mset (constructed v) = mset (destructed v) + mset xs" by (rule vec_repE)
  let ?y = "copy_constructor v x"
  let ?v = "v\<lparr>array := map Some (xs[unat p := ?y]) @ rest, constructed := constructed v @ [?y],
    destructed := destructed v @ [xs ! unat p]\<rparr>"
  have "vector_set v p x = OK ?v"
    using assms(2) r(1)
    by (simp add: vector_set_def destroy_at_def construct_at_def rd_def wr_def nth_append
        list_update_append map_update)
  moreover have "vec_rep ?v (xs[unat p := ?y])"
    by (rule vec_repI [of _ _ rest])
      (use r mset_update_exchange [OF assms(2), of ?y] in \<open>simp_all flip: mset_update_exchange\<close>)
  ultimately show ?thesis by (auto simp: same_callbacks_def)
qed

lemma vector_grow_incremented:
  assumes "vec_rep v xs" "length xs < MAX_CELLS"
  obtains a c rest where
    "vector_grow (v\<lparr>vsize := vsize v + 1\<rparr>) (vsize v + 1) =
       OK (v\<lparr>vsize := vsize v + 1, array := a, capacity := c\<rparr>)"
    "unat (vsize v + 1) = Suc (length xs)" "vsize v + 1 - 1 = vsize v"
    "length a = unat c" "unat c \<le> MAX_CELLS" "a = map Some xs @ rest" "rest \<noteq> []"
proof -
  from assms(1) obtain rest where r: "array v = map Some xs @ rest" "unat (vsize v) = length xs"
    "length (array v) = unat (capacity v)" "unat (capacity v) \<le> MAX_CELLS"
    "mset (constructed v) = mset (destructed v) + mset xs" by (rule vec_repE)
  let ?v = "v\<lparr>vsize := vsize v + 1\<rparr>"
  have s: "unat (vsize v + 1) = Suc (length xs)"
    using r(2) assms(2) MAX_CELLS_64 [of "length xs"] by (simp add: unat_plus_one)
  have pre: "length (array ?v) = unat (capacity ?v)" "unat (capacity ?v) \<le> MAX_CELLS"
    "unat (vsize v + 1) \<le> MAX_CELLS" using r assms(2) s by simp_all
  obtain a c where g: "vector_grow ?v (vsize v + 1) = OK (?v\<lparr>array := a, capacity := c\<rparr>)"
    "length a = unat c" "unat (vsize v + 1) \<le> unat c" "unat c \<le> MAX_CELLS"
    "length (array ?v) \<le> length a" "take (length (array ?v)) a = array ?v"
    using vector_grow_spec [OF pre] by blast
  have "take (length xs) a = map Some xs"
    using arg_cong [OF g(6), of "take (length xs)"] r(1) by (simp add: min_def split: if_splits)
  then have "a = map Some xs @ drop (length xs) a" by (metis append_take_drop_id)
  moreover have "drop (length xs) a \<noteq> []" using g(2,3) s by simp
  ultimately show thesis using that [of c a "drop (length xs) a"] g s by simp
qed

lemma vector_push_back_rep:
  assumes "vec_rep v xs" "length xs < MAX_CELLS"
  shows "\<exists>v'. vector_push_back v x = OK v' \<and> vec_rep v' (xs @ [copy_constructor v x]) \<and>
    same_callbacks v v'"
proof -
  obtain a c rest where g: "vector_grow (v\<lparr>vsize := vsize v + 1\<rparr>) (vsize v + 1) =
       OK (v\<lparr>vsize := vsize v + 1, array := a, capacity := c\<rparr>)"
    "unat (vsize v + 1) = Suc (length xs)" "vsize v + 1 - 1 = vsize v"
    "length a = unat c" "unat c \<le> MAX_CELLS" "a = map Some xs @ rest" "rest \<noteq> []"
    using vector_grow_incremented [OF assms] by blast
  let ?v = "v\<lparr>vsize := vsize v + 1, array := a, capacity := c\<rparr>"
  let ?y = "copy_constructor v x"
  obtain r0 rest' where "rest = r0 # rest'" using g(7) by (cases rest) auto
  then have "construct_at ?v (length xs) ?y = OK (?v\<lparr>array := map Some xs @ Some ?y # rest',
      constructed := constructed v @ [?y]\<rparr>)"
    using construct_at_step [of ?v "map Some xs" r0 rest' ?y] g(6) by simp
  then have "vector_push_back v x = OK (?v\<lparr>array := map Some xs @ Some ?y # rest',
      constructed := constructed v @ [?y]\<rparr>)"
    using g assms(1) by (simp add: vector_push_back_def vec_rep_def)
  moreover have "vec_rep (?v\<lparr>array := map Some xs @ Some ?y # rest',
      constructed := constructed v @ [?y]\<rparr>) (xs @ [?y])"
    by (rule vec_repI [of _ _ rest'])
      (use g assms(1) \<open>rest = r0 # rest'\<close> in \<open>simp_all add: vec_rep_def\<close>)
  ultimately show ?thesis by (auto simp: same_callbacks_def)
qed


lemma vector_pop_back_rep:
  assumes "vec_rep v (xs @ [x])"
  shows "\<exists>v'. vector_pop_back v = OK v' \<and> vec_rep v' xs \<and> same_callbacks v v'"
proof -
  from assms obtain rest where r: "array v = map Some (xs @ [x]) @ rest"
    "unat (vsize v) = length (xs @ [x])" "length (array v) = unat (capacity v)"
    "unat (capacity v) \<le> MAX_CELLS" "mset (constructed v) = mset (destructed v) + mset (xs @ [x])"
    by (rule vec_repE)
  have s: "unat (vsize v - 1) = length xs" using r(2) unat_minus_one_nat [of "vsize v"] by force
  let ?v = "v\<lparr>vsize := vsize v - 1, array := map Some xs @ None # rest,
    destructed := destructed v @ [x]\<rparr>"
  have "vector_pop_back v = OK ?v"
    using r(1) s destroy_at_step [of "v\<lparr>vsize := vsize v - 1\<rparr>" "map Some xs" x rest]
    by (simp add: vector_pop_back_def)
  moreover have "vec_rep ?v xs" by (rule vec_repI [of _ _ "None # rest"]) (use r s in simp_all)
  ultimately show ?thesis by (auto simp: same_callbacks_def)
qed

lemma vector_insert_rep:
  assumes "vec_rep v xs" "length xs < MAX_CELLS" "unat p \<le> length xs"
  shows "\<exists>v'. vector_insert v p x = OK v' \<and>
    vec_rep v' (take (unat p) xs @ copy_constructor v x # drop (unat p) xs) \<and> same_callbacks v v'"
proof -
  obtain a c rest where g: "vector_grow (v\<lparr>vsize := vsize v + 1\<rparr>) (vsize v + 1) =
       OK (v\<lparr>vsize := vsize v + 1, array := a, capacity := c\<rparr>)"
    "unat (vsize v + 1) = Suc (length xs)" "vsize v + 1 - 1 = vsize v"
    "length a = unat c" "unat c \<le> MAX_CELLS" "a = map Some xs @ rest" "rest \<noteq> []"
    using vector_grow_incremented [OF assms(1,2)] by blast
  let ?v = "v\<lparr>vsize := vsize v + 1, array := a, capacity := c\<rparr>"
  let ?y = "copy_constructor v x" and ?as = "take (unat p) xs" and ?bs = "drop (unat p) xs"
  obtain r0 rest' where rest: "rest = r0 # rest'" using g(7) by (cases rest) auto
  have len: "length ?as = unat p" "length ?as + length ?bs = length xs" using assms(3) by simp_all
  have arr: "array ?v = map Some ?as @ map Some ?bs @ r0 # rest'"
    using g(6) rest by (simp flip: map_append append_assoc)
  obtain c' where
    sh: "forE (rev [Suc (unat p)..<Suc (length xs)]) (\<lambda>i v. move_cell v i (i - 1)) ?v =
      OK (?v\<lparr>array := map Some ?as @ c' # map Some ?bs @ rest'\<rparr>)"
    using shift_right [OF arr, unfolded len(2), unfolded len(1)] by blast
  let ?w = "?v\<lparr>array := map Some ?as @ Some ?y # map Some ?bs @ rest',
    constructed := constructed v @ [?y]\<rparr>"
  have "construct_at (?v\<lparr>array := map Some ?as @ c' # map Some ?bs @ rest'\<rparr>) (unat p) ?y = OK ?w"
    using construct_at_step [of "?v\<lparr>array := map Some ?as @ c' # map Some ?bs @ rest'\<rparr>"
        "map Some ?as" c' "map Some ?bs @ rest'" ?y] assms(3) by simp
  then have "vector_insert v p x = OK ?w"
    using g(1,2,3) sh assms(1) by (simp add: vector_insert_def vec_rep_def del: upt_Suc)
  moreover have "vec_rep ?w (?as @ ?y # ?bs)"
  proof (rule vec_repI [of _ _ rest'])
    have "mset xs = mset ?as + mset ?bs" by (simp flip: mset_append)
    then show "mset (constructed ?w) = mset (destructed ?w) + mset (?as @ ?y # ?bs)"
      using assms(1) by (simp add: vec_rep_def)
  qed (use g rest assms(3) in simp_all)
  ultimately show ?thesis by (auto simp: same_callbacks_def)
qed

lemma vector_erase_rep:
  assumes "vec_rep v xs" "unat p < length xs"
  shows "\<exists>v'. vector_erase v p = OK v' \<and>
    vec_rep v' (take (unat p) xs @ drop (Suc (unat p)) xs) \<and> same_callbacks v v'"
proof -
  from assms(1) obtain rest where r: "array v = map Some xs @ rest" "unat (vsize v) = length xs"
    "length (array v) = unat (capacity v)" "unat (capacity v) \<le> MAX_CELLS"
    "mset (constructed v) = mset (destructed v) + mset xs" by (rule vec_repE)
  let ?as = "take (unat p) xs" and ?x = "xs ! unat p" and ?bs = "drop (Suc (unat p)) xs"
  have xs: "xs = ?as @ ?x # ?bs" using assms(2) by (simp add: id_take_nth_drop)
  have arr: "array v = map Some ?as @ Some ?x # map Some ?bs @ rest"
    using r(1) xs by (metis append_Cons append_assoc list.simps(9) map_append)
  have len: "length ?as = unat p" "length ?as + length ?bs = unat (vsize v - 1)"
    using assms(2) r(2) unat_minus_one_nat [of "vsize v"] by force+
  let ?v = "v\<lparr>array := map Some ?as @ None # map Some ?bs @ rest, destructed := destructed v @ [?x]\<rparr>"
  have d: "destroy_at v (unat p) = OK ?v"
    using destroy_at_step [of v "map Some ?as" ?x "map Some ?bs @ rest"] arr assms(2) by simp
  from shift_left [of ?v ?as None ?bs rest] obtain c' where
    sh: "forE [unat p..<unat (vsize v - 1)] (\<lambda>i v. move_cell v i (i + 1)) ?v =
      OK (?v\<lparr>array := map Some ?as @ map Some ?bs @ c' # rest\<rparr>)"
    unfolding len(2) using len(1) by auto
  let ?w = "?v\<lparr>array := map Some ?as @ map Some ?bs @ c' # rest, vsize := vsize v - 1\<rparr>"
  have "vector_erase v p = OK ?w"
    using d sh assms(2) r(2) by (simp add: vector_erase_def vector_size_def word_less_nat_alt)
  moreover have "vec_rep ?w (?as @ ?bs)"
  proof (rule vec_repI [of _ _ "c' # rest"])
    have "mset xs = add_mset ?x (mset ?as + mset ?bs)"
      using arg_cong [OF xs, of mset] by simp
    then show "mset (constructed ?w) = mset (destructed ?w) + mset (?as @ ?bs)"
      using r(5) by simp
    show "length (array ?w) = unat (capacity ?w)" using r(3) arr by simp
  qed (use r(4) len in simp_all)
  ultimately show ?thesis by (auto simp: same_callbacks_def)
qed


lemma vector_clear_rep:
  assumes "vec_rep v xs"
  shows "\<exists>v'. vector_clear v = OK v' \<and> vec_rep v' [] \<and> same_callbacks v v'"
proof -
  from assms obtain rest where r: "array v = map Some xs @ rest" "unat (vsize v) = length xs"
    "length (array v) = unat (capacity v)" "unat (capacity v) \<le> MAX_CELLS"
    "mset (constructed v) = mset (destructed v) + mset xs" by (rule vec_repE)
  let ?v = "v\<lparr>array := replicate (length xs) None @ rest, destructed := destructed v @ xs, vsize := 0\<rparr>"
  have "vector_clear v = OK ?v"
    using destroy_up [of v "[]" xs rest] r(1,2) by (simp add: vector_clear_def)
  moreover have "vec_rep ?v []" using r by (simp add: vec_rep_def)
  ultimately show ?thesis by (auto simp: same_callbacks_def)
qed

lemma vector_destroy_rep:
  assumes "vec_rep v xs"
  shows "\<exists>v'. vector_destroy v = OK v' \<and> mset (constructed v') = mset (destructed v') \<and>
    destructed v' = destructed v @ xs"
proof -
  from assms obtain rest where r: "array v = map Some xs @ rest" "unat (vsize v) = length xs"
    "length (array v) = unat (capacity v)" "unat (capacity v) \<le> MAX_CELLS"
    "mset (constructed v) = mset (destructed v) + mset xs" by (rule vec_repE)
  show ?thesis using destroy_up [of v "[]" xs rest] r by (simp add: vector_destroy_def)
qed

lemma vector_reserve_rep:
  assumes "vec_rep v xs" "unat n \<le> MAX_CELLS"
  shows "\<exists>v'. vector_reserve v n = OK v' \<and> vec_rep v' xs \<and> same_callbacks v v' \<and>
    unat n \<le> unat (capacity v')"
proof -
  from assms(1) obtain rest where r: "array v = map Some xs @ rest" "unat (vsize v) = length xs"
    "length (array v) = unat (capacity v)" "unat (capacity v) \<le> MAX_CELLS"
    "mset (constructed v) = mset (destructed v) + mset xs" by (rule vec_repE)
  obtain a c where g: "vector_grow v n = OK (v\<lparr>array := a, capacity := c\<rparr>)"
    "length a = unat c" "unat n \<le> unat c" "unat c \<le> MAX_CELLS"
    "length (array v) \<le> length a" "take (length (array v)) a = array v"
    using vector_grow_spec [OF r(3,4) assms(2)] by blast
  have "a = map Some xs @ rest @ drop (length (array v)) a"
    using append_take_drop_id [of "length (array v)" a] g(6) r(1) by (metis append_assoc)
  then have "vec_rep (v\<lparr>array := a, capacity := c\<rparr>) xs"
    using r g by (intro vec_repI [of _ _ "rest @ drop (length (array v)) a"]) simp_all
  with g show ?thesis by (simp add: vector_reserve_def same_callbacks_def)
qed

text \<open>
  \<open>vector_resize\<close> counts down in \<open>int\<close>, so its shrinking branch is right for sizes below
  \<open>2 ^ 31\<close>.
\<close>

lemma vector_resize_shrink_rep:
  assumes "vec_rep v xs" "unat n < length xs" "length xs < 2 ^ 31"
  shows "\<exists>v'. vector_resize v n = OK v' \<and> vec_rep v' (take (unat n) xs) \<and> same_callbacks v v'"
proof -
  from assms(1) obtain rest where r: "array v = map Some xs @ rest" "unat (vsize v) = length xs"
    "length (array v) = unat (capacity v)" "unat (capacity v) \<le> MAX_CELLS"
    "mset (constructed v) = mset (destructed v) + mset xs" by (rule vec_repE)
  let ?as = "take (unat n) xs" and ?bs = "drop (unat n) xs"
  have arr: "array v = map Some ?as @ map Some ?bs @ rest"
    using r(1) by (simp flip: map_append append_assoc)
  have ints: "to_int n = int (unat n)" "to_int (vsize v) = int (length xs)"
    using to_int_small [of n] to_int_small [of "vsize v"] assms r(2) by simp_all
  have hi: "c_int (to_int (vsize v) - 1) = OK (int (length xs) - 1)"
    using assms(3) ints(2) by (simp add: c_int_def INT_MIN_def INT_MAX_def)
  have idx: "[to_int n..int (length xs) - 1] = map int [unat n..<length xs]"
    unfolding ints(1) by (rule upto_nat)
  let ?v = "v\<lparr>array := map Some ?as @ replicate (length ?bs) None @ rest,
    destructed := destructed v @ rev ?bs\<rparr>"
  have "forE (rev [to_int n..int (length xs) - 1])
      (\<lambda>i v. if i < 0 then Fault Out_Of_Bounds else destroy_at v (nat i)) v = OK ?v"
    using destroy_down [OF arr] assms(2) unfolding idx by (simp add: rev_map forE_map)
  then have "vector_resize v n = OK (?v\<lparr>vsize := n\<rparr>)"
    using hi r(2) assms(2) by (simp add: vector_resize_def word_less_nat_alt)
  moreover have "vec_rep (?v\<lparr>vsize := n\<rparr>) ?as"
  proof (rule vec_repI)
    have "mset xs = mset ?as + mset ?bs" by (simp flip: mset_append)
    then show "mset (constructed (?v\<lparr>vsize := n\<rparr>)) = mset (destructed (?v\<lparr>vsize := n\<rparr>)) + mset ?as"
      using r(5) by simp
    show "length (array (?v\<lparr>vsize := n\<rparr>)) = unat (capacity (?v\<lparr>vsize := n\<rparr>))" using r(3) arr by simp
  qed (use r(4) assms(2) in simp_all)
  ultimately show ?thesis by (auto simp: same_callbacks_def)
qed

lemma vector_resize_extend_rep:
  assumes "vec_rep v xs" "length xs \<le> unat n" "unat n \<le> MAX_CELLS"
  shows "\<exists>v'. vector_resize v n = OK v' \<and> same_callbacks v v' \<and>
    vec_rep v' (xs @ replicate (unat n - length xs) (default_constructor v ()))"
proof (cases "length xs = unat n")
  case True
  then have "vsize v = n" using assms(1) by (simp add: vec_rep_def word_unat_eq_iff)
  then have "vector_resize v n = OK (v\<lparr>vsize := n\<rparr>)" by (simp add: vector_resize_def)
  then show ?thesis using True assms(1) \<open>vsize v = n\<close> by (simp add: vec_rep_def same_callbacks_def)
next
  case False
  obtain v1 where g: "vector_grow v n = OK v1" "vec_rep v1 xs" "same_callbacks v v1"
    "unat n \<le> unat (capacity v1)"
    using vector_reserve_rep [OF assms(1,3)] by (auto simp: vector_reserve_def)
  from g(2) obtain rest where r: "array v1 = map Some xs @ rest" "unat (vsize v1) = length xs"
    "length (array v1) = unat (capacity v1)" "unat (capacity v1) \<le> MAX_CELLS"
    "mset (constructed v1) = mset (destructed v1) + mset xs" by (rule vec_repE)
  let ?m = "unat n - length xs" and ?d = "default_constructor v ()"
  have m: "length (take ?m rest) = ?m" using r(1,3) g(4) by simp
  have arr: "array v1 = map Some xs @ take ?m rest @ drop ?m rest" using r(1) by simp
  have d: "default_constructor v1 = default_constructor v" using g(3) by (simp add: same_callbacks_def)
  let ?v = "v1\<lparr>array := map Some xs @ replicate ?m (Some ?d) @ drop ?m rest,
    constructed := constructed v1 @ replicate ?m ?d\<rparr>"
  have "forE [length xs..<unat n] (\<lambda>i v. construct_at v i (default_constructor v ())) v1 = OK ?v"
    using construct_defaults [OF arr] m assms(2) d by simp
  moreover have "unat (vsize v) = length xs" using assms(1) by (simp add: vec_rep_def)
  ultimately have "vector_resize v n = OK (?v\<lparr>vsize := n\<rparr>)"
    using g(1) False assms(2) by (simp add: vector_resize_def word_less_nat_alt)
  moreover have "vec_rep (?v\<lparr>vsize := n\<rparr>) (xs @ replicate ?m ?d)"
    by (rule vec_repI [of _ _ "drop ?m rest"]) (use r m assms(2) in simp_all)
  ultimately show ?thesis using g(3) by (auto simp: same_callbacks_def)
qed



lemma vec_exec_rep:
  assumes "vec_rep v xs" "vec_op_ok op xs" "copy_constructor v = cp" "default_constructor v () = d"
  shows "\<exists>v'. vec_exec op v = OK v' \<and> vec_rep v' (list_exec cp d op xs) \<and> same_callbacks v v'"
proof (cases op)
  case (Resize n)
  show ?thesis
  proof (cases "unat n < length xs")
    case True
    then show ?thesis using vector_resize_shrink_rep [OF assms(1), of n] assms Resize by simp
  next
    case False
    then show ?thesis using vector_resize_extend_rep [OF assms(1), of n] assms Resize by auto
  qed
next
  case Pop
  then obtain ys y where "xs = ys @ [y]" using assms(2) by (cases xs rule: rev_cases) auto
  then show ?thesis using vector_pop_back_rep [of v ys y] assms Pop by simp
qed (use assms vector_push_back_rep vector_insert_rep vector_erase_rep vector_set_rep
    vector_reserve_rep vector_clear_rep in fastforce)+

lemma vec_run_rep:
  assumes "vec_rep v xs" "vec_ops_ok cp d ops xs"
    "copy_constructor v = cp" "default_constructor v () = d"
  shows "\<exists>v'. forE ops vec_exec v = OK v' \<and> vec_rep v' (list_run cp d ops xs)"
  using assms
proof (induction ops arbitrary: v xs)
  case (Cons op ops)
  then obtain v1 where v1: "vec_exec op v = OK v1" "vec_rep v1 (list_exec cp d op xs)"
    "same_callbacks v v1"
    using vec_exec_rep [of v xs op cp d] by auto
  with Cons.IH [OF v1(2)] Cons.prems show ?case by (simp add: same_callbacks_def)
qed auto

section \<open>The interface of the vector\<close>

text \<open>
  What the clients of a vector (the document, the string splitters, the shell) rely on: the
  operations they call and the effect of each on the list of elements. The clients' loops over
  these operations are proved here once, from the laws alone.
\<close>

locale seq_store =
  fixes rep :: "'v \<Rightarrow> 'a list \<Rightarrow> bool"
    and maxlen :: nat
    and size_op :: "'v \<Rightarrow> size_t"
    and get_op :: "'v \<Rightarrow> size_t \<Rightarrow> 'a res"
    and set_op :: "'v \<Rightarrow> size_t \<Rightarrow> 'a \<Rightarrow> 'v res"
    and push_op :: "'v \<Rightarrow> 'a \<Rightarrow> 'v res"
    and insert_op :: "'v \<Rightarrow> size_t \<Rightarrow> 'a \<Rightarrow> 'v res"
    and erase_op :: "'v \<Rightarrow> size_t \<Rightarrow> 'v res"
  assumes maxlen_small: "maxlen < 2 ^ 64"
    and size_law: "rep v xs \<Longrightarrow> unat (size_op v) = length xs"
    and get_law: "rep v xs \<Longrightarrow> unat p < length xs \<Longrightarrow> get_op v p = OK (xs ! unat p)"
    and set_law: "rep v xs \<Longrightarrow> unat p < length xs \<Longrightarrow>
      \<exists>v'. set_op v p x = OK v' \<and> rep v' (xs[unat p := x])"
    and push_law: "rep v xs \<Longrightarrow> length xs < maxlen \<Longrightarrow>
      \<exists>v'. push_op v x = OK v' \<and> rep v' (xs @ [x])"
    and insert_law: "rep v xs \<Longrightarrow> length xs < maxlen \<Longrightarrow> unat p \<le> length xs \<Longrightarrow>
      \<exists>v'. insert_op v p x = OK v' \<and> rep v' (take (unat p) xs @ x # drop (unat p) xs)"
    and erase_law: "rep v xs \<Longrightarrow> unat p < length xs \<Longrightarrow>
      \<exists>v'. erase_op v p = OK v' \<and> rep v' (take (unat p) xs @ drop (Suc (unat p)) xs)"
begin

lemma push_all:
  assumes "rep v xs" "length xs + length ys \<le> maxlen"
  shows "\<exists>v'. forE ys (\<lambda>y v. push_op v y) v = OK v' \<and> rep v' (xs @ ys)"
  using assms
proof (induction ys arbitrary: v xs)
  case (Cons y ys)
  then obtain v1 where "push_op v y = OK v1" "rep v1 (xs @ [y])"
    using push_law [of v xs y] by auto
  with Cons.IH [of v1 "xs @ [y]"] Cons.prems show ?case by simp
qed auto

lemma pad:
  assumes "rep v xs" "length xs \<le> n" "n \<le> maxlen"
  shows "\<exists>v'. forE [length xs..<n] (\<lambda>i v. insert_op v (of_nat i) x) v = OK v' \<and>
    rep v' (xs @ replicate (n - length xs) x)"
proof -
  let ?P = "\<lambda>k v. rep v (xs @ replicate k x)"
  have "\<exists>v'. forE [length xs..<n] (\<lambda>i v. insert_op v (of_nat i) x) v = OK v' \<and>
    ?P (length [length xs..<n]) v'"
  proof (rule forE_rule)
    fix k w assume k: "k < length [length xs..<n]" and w: "?P k w"
    have p: "unat (of_nat (length xs + k) :: size_t) = length xs + k"
      using k assms(3) maxlen_small by (intro unat_of_nat_size_t) simp
    have "\<exists>v'. insert_op w (of_nat (length xs + k)) x = OK v' \<and>
      rep v' (take (length xs + k) (xs @ replicate k x) @ x #
              drop (length xs + k) (xs @ replicate k x))"
      using insert_law [OF w, of "of_nat (length xs + k)" x] k assms(3) unfolding p by simp
    then show "\<exists>v'. insert_op w (of_nat ([length xs..<n] ! k)) x = OK v' \<and> ?P (Suc k) v'"
      using k by (simp add: replicate_append_same)
  qed (use assms(1) in simp)
  then show ?thesis by simp
qed

end

text \<open>A vector whose copy constructor copies provides the interface.\<close>

definition copying_rep :: "'a vector \<Rightarrow> 'a list \<Rightarrow> bool" where
  "copying_rep v xs \<longleftrightarrow> vec_rep v xs \<and> copy_constructor v = (\<lambda>x. x)"

lemma string_vector_create_rep: "copies cb \<Longrightarrow> copying_rep (string_vector_create cb) []"
  by (simp add: copying_rep_def string_vector_create_def typed_vector_create_def copies_def
      vector_create_rep) (simp add: vector_create_def)

lemma strdup_copies [simp]: "copies strdup_callbacks"
  by (simp add: copies_def strdup_callbacks_def)

interpretation vec: seq_store copying_rep MAX_CELLS vector_size vector_get vector_set
  vector_push_back vector_insert vector_erase
proof
  show "MAX_CELLS < 2 ^ 64" by (simp add: MAX_CELLS_def)
qed (use vector_set_rep vector_push_back_rep vector_insert_rep vector_erase_rep in
    \<open>fastforce simp: copying_rep_def same_callbacks_def vector_size_rep vector_get_rep\<close>)+

section \<open>Properties\<close>

text \<open>
  C40: \<open>get_new_capacity\<close> returns exactly for targets up to \<open>2 ^ 63\<close>, and then the least
  power of two that is at least the target; for a larger target its loop never ends.
\<close>

theorem get_new_capacity_least_power:
  "get_new_capacity target =
     (if unat target \<le> 2 ^ 63 then Some (2 ^ (LEAST k. unat target \<le> 2 ^ k)) else None)"
  by (rule get_new_capacity_eq)

text \<open>
  C38: any history of permitted operations on a new vector runs without a fault and leaves
  exactly the elements the list operations give, and destroying the vector then has
  destroyed every element its constructors made exactly once.
\<close>

theorem vector_history_refines:
  assumes "vec_ops_ok cp (d ()) ops []"
  shows "\<exists>v v'. forE ops vec_exec (vector_create cp d) = OK v \<and>
    vec_rep v (list_run cp (d ()) ops []) \<and>
    vector_destroy v = OK v' \<and> mset (constructed v') = mset (destructed v')"
proof -
  obtain v where v: "forE ops vec_exec (vector_create cp d) = OK v"
    "vec_rep v (list_run cp (d ()) ops [])"
    using vec_run_rep [OF vector_create_rep assms] by (auto simp: vector_create_def)
  with vector_destroy_rep [OF v(2)] show ?thesis by blast
qed

theorem vector_history_refines_witness:
  "\<exists>v v'. forE [Push 5, Insert 0 7, Push 1, Erase 1, Set 0 9, Resize 4, Pop, Resize 1, Reserve 20]
       vec_exec (vector_create (\<lambda>x. x) (\<lambda>_. 3 :: nat)) = OK v \<and>
    vec_rep v [9] \<and> vector_destroy v = OK v' \<and> mset (constructed v') = mset (destructed v')"
proof -
  let ?ops = "[Push 5, Insert 0 7, Push 1, Erase 1, Set 0 9, Resize 4, Pop, Resize 1, Reserve 20]
    :: nat vec_op list"
  have "vec_ops_ok (\<lambda>x. x) ((\<lambda>_. 3) ()) ?ops []" by (simp add: MAX_CELLS_def)
  moreover have "list_run (\<lambda>x. x) ((\<lambda>_. 3) ()) ?ops [] = [9]" by simp
  ultimately show ?thesis using vector_history_refines [of "\<lambda>x. x" "\<lambda>_. 3" ?ops] by simp
qed

end
