(* ===== verification/Sstring.thy ===== *)
theory Sstring
  imports C_String Vector
begin

text \<open>
  The counted string of \<open>vector/sstring.c\<close>: a heap string and its length. The buffers the
  functions allocate have the sizes the code asks for, and a copy that does not fit is a fault.
\<close>

section \<open>The model\<close>

record sstring =
  source :: string
  len :: size_t

definition strlen :: "string \<Rightarrow> size_t" where
  "strlen s = of_nat (length s)"

definition cstr_to_sstring :: "string \<Rightarrow> sstring" where
  "cstr_to_sstring input = \<lparr>source = input, len = strlen input\<rparr>"

text \<open>The argument may be the null pointer.\<close>

definition sstring_to_cstr :: "sstring option \<Rightarrow> string option" where
  "sstring_to_cstr input = (case input of None \<Rightarrow> None | Some s \<Rightarrow> Some (source s))"

definition sstring_append :: "sstring \<Rightarrow> sstring \<Rightarrow> (sstring \<times> int) res" where
  "sstring_append this addition =
     (if length (source this) + length (source addition) + 1
           \<le> unat (len this + len addition + 1) then
        let this' = \<lparr>source = source this @ source addition, len = len this + len addition\<rparr>
        in OK (this', to_int (len this'))
      else Fault Out_Of_Bounds)"

definition sstring_split :: "string callbacks \<Rightarrow> sstring \<Rightarrow> char \<Rightarrow> string vector res" where
  "sstring_split cb this delimiter =
     forE (strtok_all delimiter (source this)) (\<lambda>token v. vector_push_back v token)
       (string_vector_create cb)"

text \<open>
  \<open>part1\<close> and \<open>part2\<close> are \<open>int\<close> and size the arrays \<open>b\<close> and \<open>c\<close> on the stack.
\<close>

definition sstring_substitute ::
  "sstring \<Rightarrow> size_t \<Rightarrow> string \<Rightarrow> string \<Rightarrow> (sstring \<times> int) res" where
  "sstring_substitute this offset target substitution =
     (if unat offset > length (source this) then Fault Out_Of_Bounds
      else case strstr (drop (unat offset) (source this)) target of
        None \<Rightarrow> OK (this, -1)
      | Some k \<Rightarrow>
          let a = unat offset + k;
              part1 = to_int (of_nat a);
              part2 = to_int (of_nat (length (source this) - a - length target));
              b = take (nat part1) (source this);
              c = drop (a + length target) (source this);
              len' = len this - strlen target + strlen substitution
          in if part1 < 0 \<or> part2 < 0 \<or> nat part2 < length c \<or>
                unat (len' + 1) < length b + length substitution + length c + 1
             then Fault Out_Of_Bounds
             else OK (\<lparr>source = b @ substitution @ c, len = len'\<rparr>, 0))"

definition sstring_slice :: "sstring \<Rightarrow> int \<Rightarrow> int \<Rightarrow> string res" where
  "sstring_slice this start end' = bindE (c_int (end' - start)) (\<lambda>n.
     if start < 0 \<or> n < 0 \<or> nat start > length (source this) then Fault Out_Of_Bounds
     else OK (take (nat n) (drop (nat start) (source this))))"

section \<open>Specification\<close>

text \<open>The length field agrees with the string, and both stay in the range of an \<open>int\<close>.\<close>

definition sstring_ok :: "sstring \<Rightarrow> bool" where
  "sstring_ok s \<longleftrightarrow> len s = strlen (source s) \<and> length (source s) < 2 ^ 31"

section \<open>Lemmas\<close>

lemma unat_strlen: "length s < 2 ^ 64 \<Longrightarrow> unat (strlen s) = length s"
  by (simp add: strlen_def unat_of_nat_size_t)

lemma to_int_of_nat: "n < 2 ^ 31 \<Longrightarrow> to_int (of_nat n) = int n"
  using to_int_small [of "of_nat n"] by (simp add: unat_of_nat_size_t)

lemma cstr_to_sstring_ok: "length input < 2 ^ 31 \<Longrightarrow> sstring_ok (cstr_to_sstring input)"
  by (simp add: sstring_ok_def cstr_to_sstring_def)

lemma sstring_slice_OK:
  assumes "0 \<le> start" "start \<le> end'" "nat start \<le> length (source s)" "end' \<le> INT_MAX"
  shows "sstring_slice s start end' = OK (take (nat (end' - start)) (drop (nat start) (source s)))"
proof -
  have "c_int (end' - start) = OK (end' - start)"
    using assms by (intro c_int_OK) (simp_all add: INT_MIN_def INT_MAX_def)
  then show ?thesis using assms by (simp add: sstring_slice_def)
qed

lemma sstring_slice_prefix:
  assumes "unat i < 2 ^ 31"
  shows "sstring_slice (cstr_to_sstring l) 0 (to_int i) = OK (take (unat i) l)"
proof -
  have "int (unat i) < int (2 ^ 31)" using assms by (simp only: of_nat_less_iff)
  then have "int (unat i) \<le> INT_MAX" by (simp add: INT_MAX_def)
  then show ?thesis
    using sstring_slice_OK [of 0 "int (unat i)" "cstr_to_sstring l"]
    unfolding to_int_small [OF assms] by (simp add: cstr_to_sstring_def)
qed

lemma sstring_append_OK:
  assumes "sstring_ok s" "sstring_ok a" "length (source s) + length (source a) < 2 ^ 31"
  shows "\<exists>s'. sstring_append s a = OK (s', int (length (source s @ source a))) \<and>
    sstring_ok s' \<and> source s' = source s @ source a"
proof -
  have l: "len s + len a = of_nat (length (source s @ source a))"
    using assms(1,2) by (simp add: sstring_ok_def strlen_def)
  have "unat (len s + len a + 1) = length (source s @ source a) + 1"
    unfolding l using assms(3) by (intro unat_of_nat_plus_one) simp
  then show ?thesis
    using assms(3) to_int_of_nat [of "length (source s @ source a)"] l
    by (simp add: sstring_append_def sstring_ok_def strlen_def)
qed

lemma strtok_all_join:
  assumes "ts \<noteq> []" "\<And>t. t \<in> set ts \<Longrightarrow> t \<noteq> [] \<and> d \<notin> set t"
  shows "strtok_all d (concat (map (\<lambda>t. t @ [d]) (butlast ts)) @ last ts) = ts"
  using assms
proof (induction ts)
  case (Cons t ts)
  then show ?case by (cases "ts = []") (auto simp: strtok_all_step)
qed simp

lemma sstring_split_rep:
  assumes "copies cb" "length (strtok_all d (source s)) \<le> MAX_CELLS"
  shows "\<exists>v. sstring_split cb s d = OK v \<and> copying_rep v (strtok_all d (source s))"
  using vec.push_all [OF string_vector_create_rep, of cb "strtok_all d (source s)"] assms
  by (simp add: sstring_split_def)

lemma sstring_substitute_found:
  assumes "sstring_ok s" "unat offset \<le> length (source s)"
    and k: "strstr (drop (unat offset) (source s)) target = Some k"
    and small: "length (source s) + length substitution < 2 ^ 31"
  shows "\<exists>s'. sstring_substitute s offset target substitution = OK (s', 0) \<and> sstring_ok s' \<and>
    source s' = take (unat offset + k) (source s) @ substitution @
                drop (unat offset + k + length target) (source s)"
proof -
  let ?n = "length (source s)" and ?a = "unat offset + k"
  have a: "?a + length target \<le> ?n" using strstr_bound [OF k] assms(2) by simp
  let ?s = "take ?a (source s) @ substitution @ drop (?a + length target) (source s)"
  have n: "length ?s = ?n - length target + length substitution" using a by simp
  have l: "len s - strlen target + strlen substitution = of_nat (length ?s)"
    using assms(1) a by (simp add: sstring_ok_def strlen_def n)
  have u: "unat (of_nat (length ?s) + 1 :: size_t) = length ?s + 1"
    using small n a by (intro unat_of_nat_plus_one) simp
  have p: "to_int (of_nat ?a) = int ?a"
    "to_int (of_nat (?n - ?a - length target)) = int (?n - ?a - length target)"
    using small a by (intro to_int_of_nat; simp)+
  have "sstring_substitute s offset target substitution = OK (\<lparr>source = ?s, len = of_nat (length ?s)\<rparr>, 0)"
    using assms(2) a n unfolding sstring_substitute_def k option.case Let_def l p nat_int u
    by (simp del: of_nat_add of_nat_diff)
  then show ?thesis using small n a by (simp add: sstring_ok_def strlen_def)
qed

section \<open>Properties\<close>

text \<open>
  \<open>sstring_substitute\<close> at an offset inside the string replaces the first occurrence of the
  target at or after the offset and keeps the length field right; it returns -1 and changes
  nothing exactly when there is no occurrence.
\<close>

theorem sstring_substitute_first_occurrence:
  assumes "sstring_ok s" "unat offset \<le> length (source s)"
    "length (source s) + length substitution < 2 ^ 31"
  shows "case strstr (drop (unat offset) (source s)) target of
      None \<Rightarrow> sstring_substitute s offset target substitution = OK (s, -1)
    | Some k \<Rightarrow> (\<exists>s'. sstring_substitute s offset target substitution = OK (s', 0) \<and> sstring_ok s' \<and>
        source s' = take (unat offset + k) (source s) @ substitution @
                    drop (unat offset + k + length target) (source s))"
  using assms sstring_substitute_found [OF assms(1,2) _ assms(3), of target]
  by (auto simp: sstring_substitute_def split: option.split)

theorem sstring_substitute_first_occurrence_witness:
  "\<exists>s'. sstring_substitute (cstr_to_sstring ''This is a {verb} day'') 5 ''{verb}'' ''fine''
      = OK (s', 0) \<and> sstring_ok s' \<and> source s' = ''This is a fine day''"
proof -
  let ?s = "cstr_to_sstring ''This is a {verb} day''"
  have "sstring_ok ?s" by (rule cstr_to_sstring_ok) simp
  moreover have "source ?s = ''This is a {verb} day''" by (simp add: cstr_to_sstring_def)
  ultimately show ?thesis
    using sstring_substitute_first_occurrence [of ?s 5 "''fine''" "''{verb}''"] by simp
qed

text \<open>
  Splitting on a delimiter undoes joining with it: from the join of non-empty strings
  without the delimiter, \<open>sstring_split\<close> returns a vector of exactly those strings.
\<close>

theorem sstring_split_join:
  assumes "copies cb" "ts \<noteq> []" "list_all (\<lambda>t. t \<noteq> [] \<and> d \<notin> set t) ts" "length ts \<le> MAX_CELLS"
  shows "\<exists>v. sstring_split cb (cstr_to_sstring (concat (map (\<lambda>t. t @ [d]) (butlast ts)) @ last ts)) d
      = OK v \<and> vec_rep v ts"
proof -
  let ?s = "cstr_to_sstring (concat (map (\<lambda>t. t @ [d]) (butlast ts)) @ last ts)"
  have "strtok_all d (source ?s) = ts"
    using strtok_all_join [of ts d] assms by (auto simp: cstr_to_sstring_def list_all_iff)
  then show ?thesis using sstring_split_rep [of cb d ?s] assms(1,4) by (auto simp: copying_rep_def)
qed

theorem sstring_split_join_witness:
  "\<exists>v. sstring_split strdup_callbacks (cstr_to_sstring ''ab:c:def'') (CHR '':'') = OK v \<and>
     vec_rep v [''ab'', ''c'', ''def'']"
  using sstring_split_join [of strdup_callbacks "[''ab'', ''c'', ''def'']" "CHR '':''"]
  by (simp add: MAX_CELLS_def)

end
