(* ===== verification/Document.thy ===== *)
theory Document
  imports Sstring
begin

text \<open>
  The document of \<open>text_editor/document.c\<close>: a string vector of lines, with its operations and
  its file format. Lines are numbered from 1. The lemmas rest on the vector's interface only.
\<close>

section \<open>The model\<close>

record document =
  vector :: "string vector"

text \<open>The files the program sees, and those it may open for writing.\<close>

record file_system =
  files :: "string \<rightharpoonup> string"
  writable :: "string \<Rightarrow> bool"

definition document_create :: "string callbacks \<Rightarrow> document" where
  "document_create cb = \<lparr>vector = string_vector_create cb\<rparr>"

text \<open>When \<open>open\<close> fails its result is not checked: every \<open>dprintf\<close> fails and is ignored.\<close>

definition document_write_to_file :: "document \<Rightarrow> string \<Rightarrow> file_system \<Rightarrow> file_system res" where
  "document_write_to_file this path fs =
     bindE (forE [0..to_int (vector_size (vector this)) - 1]
              (\<lambda>i out. bindE (vector_get (vector this) (of_int i)) (\<lambda>line.
                 OK (out @ line @ [NL]))) []) (\<lambda>out.
     OK (if writable fs path then fs\<lparr>files := (files fs)(path \<mapsto> out)\<rparr> else fs))"

definition document_create_from_file ::
  "string callbacks \<Rightarrow> string \<Rightarrow> file_system \<Rightarrow> document res" where
  "document_create_from_file cb path fs = (case files fs path of
      None \<Rightarrow> OK (document_create cb)
    | Some content \<Rightarrow>
        bindE (forE (getlines content) (\<lambda>line v. vector_push_back v (chomp line))
                 (vector (document_create cb))) (\<lambda>v. OK \<lparr>vector = v\<rparr>))"

definition document_destroy :: "document \<Rightarrow> document res" where
  "document_destroy this = bindE (vector_destroy (vector this)) (\<lambda>v. OK \<lparr>vector = v\<rparr>)"

definition document_size :: "document \<Rightarrow> size_t" where
  "document_size this = vector_size (vector this)"

definition document_set_line :: "document \<Rightarrow> size_t \<Rightarrow> string \<Rightarrow> document res" where
  "document_set_line this line_number str =
     bindE (vector_set (vector this) (line_number - 1) str) (\<lambda>v. OK \<lparr>vector = v\<rparr>)"

definition document_get_line :: "document \<Rightarrow> size_t \<Rightarrow> string res" where
  "document_get_line this line_number = bindE (assertE (line_number > 0)) (\<lambda>_.
     vector_get (vector this) (line_number - 1))"

definition document_insert_line :: "document \<Rightarrow> size_t \<Rightarrow> string \<Rightarrow> document res" where
  "document_insert_line this line_number str =
     bindE (if line_number > vector_size (vector this) then
              forE [unat (vector_size (vector this))..<unat (line_number - 1)]
                (\<lambda>i v. vector_insert v (of_nat i) []) (vector this)
            else OK (vector this)) (\<lambda>v.
     bindE (vector_insert v (line_number - 1) str) (\<lambda>v. OK \<lparr>vector = v\<rparr>))"

definition document_delete_line :: "document \<Rightarrow> size_t \<Rightarrow> document res" where
  "document_delete_line this line_number = bindE (assertE (line_number > 0)) (\<lambda>_.
     bindE (vector_erase (vector this) (line_number - 1)) (\<lambda>v. OK \<lparr>vector = v\<rparr>))"

section \<open>Specification\<close>

text \<open>\<open>doc_rep d ls\<close>: the document is well formed and its lines are \<open>ls\<close>.\<close>

definition doc_rep :: "document \<Rightarrow> string list \<Rightarrow> bool" where
  "doc_rep d ls \<longleftrightarrow> copying_rep (vector d) ls"

text \<open>The lines, extended with empty ones to at least \<open>n\<close>.\<close>

definition pad_lines :: "nat \<Rightarrow> string list \<Rightarrow> string list" where
  "pad_lines n ls = ls @ replicate (n - length ls) []"

definition insert_at :: "nat \<Rightarrow> 'a \<Rightarrow> 'a list \<Rightarrow> 'a list" where
  "insert_at p x xs = take p xs @ x # drop p xs"

definition plain_line :: "string \<Rightarrow> bool" where
  "plain_line l \<longleftrightarrow> NL \<notin> set l \<and> NUL \<notin> set l"

section \<open>Lemmas\<close>

lemma line_index: "0 < n \<Longrightarrow> unat (n - 1 :: size_t) = unat n - 1"
  by (rule unat_minus_one_nat) auto

lemma pad_lines_id [simp]: "n \<le> length ls \<Longrightarrow> pad_lines n ls = ls"
  by (simp add: pad_lines_def)

lemma length_pad_lines [simp]: "length (pad_lines n ls) = max n (length ls)"
  by (simp add: pad_lines_def)

lemma document_create_rep: "copies cb \<Longrightarrow> doc_rep (document_create cb) []"
  by (simp add: doc_rep_def document_create_def string_vector_create_rep)

lemma document_size_rep: "doc_rep d ls \<Longrightarrow> unat (document_size d) = length ls"
  by (simp add: doc_rep_def document_size_def vec.size_law)

lemma doc_rep_bound: "doc_rep d ls \<Longrightarrow> length ls \<le> MAX_CELLS"
  by (auto simp: doc_rep_def copying_rep_def vec_rep_def)

lemma line_index_less:
  assumes "0 < n" "unat n \<le> k"
  shows "unat (n - 1 :: size_t) < k" "unat (n - 1) = unat n - 1" "unat n \<noteq> 0"
proof -
  show 0: "unat n \<noteq> 0" using assms(1) by (simp add: unat_eq_zero word_gt_0)
  show 1: "unat (n - 1) = unat n - 1" using assms(1) by (rule line_index)
  show "unat (n - 1) < k" using 0 assms(2) unfolding 1 by linarith
qed

lemma document_get_line_rep:
  assumes "doc_rep d ls" "0 < n" "unat n \<le> length ls"
  shows "document_get_line d n = OK (ls ! (unat n - 1))"
  using vec.get_law [of "vector d" ls "n - 1"] line_index_less [OF assms(2,3)] assms(1,2)
  by (simp add: document_get_line_def doc_rep_def)

lemma document_set_line_rep:
  assumes "doc_rep d ls" "0 < n" "unat n \<le> length ls"
  shows "\<exists>d'. document_set_line d n s = OK d' \<and> doc_rep d' (ls[unat n - 1 := s])"
proof -
  note n = line_index_less [OF assms(2,3)]
  obtain v where "vector_set (vector d) (n - 1) s = OK v" "copying_rep v (ls[unat n - 1 := s])"
    using vec.set_law [OF _ n(1), of "vector d" s] assms(1) n(2) by (auto simp: doc_rep_def)
  then show ?thesis by (simp add: document_set_line_def doc_rep_def)
qed

lemma document_delete_line_rep:
  assumes "doc_rep d ls" "0 < n" "unat n \<le> length ls"
  shows "\<exists>d'. document_delete_line d n = OK d' \<and>
    doc_rep d' (take (unat n - 1) ls @ drop (unat n) ls)"
proof -
  note n = line_index_less [OF assms(2,3)]
  obtain v where "vector_erase (vector d) (n - 1) = OK v"
    "copying_rep v (take (unat n - 1) ls @ drop (unat n) ls)"
    using vec.erase_law [OF _ n(1), of "vector d"] assms(1) n(2,3) by (auto simp: doc_rep_def)
  then show ?thesis using assms(2) by (simp add: document_delete_line_def doc_rep_def)
qed

lemma document_insert_line_rep:
  assumes "doc_rep d ls" "0 < n" "unat n \<le> MAX_CELLS" "length ls < MAX_CELLS"
  shows "\<exists>d'. document_insert_line d n s = OK d' \<and>
    doc_rep d' (insert_at (unat n - 1) s (pad_lines (unat n - 1) ls))"
proof -
  let ?p = "unat n - 1" and ?ls = "pad_lines (unat n - 1) ls"
  have n0: "unat n \<noteq> 0" using assms(2) by (simp add: unat_eq_zero word_gt_0)
  have rep: "copying_rep (vector d) ls" using assms(1) by (simp add: doc_rep_def)
  have size: "unat (vector_size (vector d)) = length ls" using rep by (rule vec.size_law)
  have "\<exists>v. (if n > vector_size (vector d) then
              forE [unat (vector_size (vector d))..<unat (n - 1)]
                (\<lambda>i v. vector_insert v (of_nat i) []) (vector d)
            else OK (vector d)) = OK v \<and> copying_rep v ?ls"
  proof (cases "unat n > length ls")
    case True
    then show ?thesis using vec.pad [OF rep, of ?p "[]"] assms size line_index [of n]
      by (simp add: word_less_nat_alt pad_lines_def)
  next
    case False
    then show ?thesis using rep size by (simp add: word_less_nat_alt)
  qed
  then obtain v where v: "(if n > vector_size (vector d) then
              forE [unat (vector_size (vector d))..<unat (n - 1)]
                (\<lambda>i v. vector_insert v (of_nat i) []) (vector d)
            else OK (vector d)) = OK v" "copying_rep v ?ls" by blast
  have "\<exists>v'. vector_insert v (n - 1) s = OK v' \<and> copying_rep v' (insert_at ?p s ?ls)"
    using vec.insert_law [OF v(2), of "n - 1" s] assms n0 line_index [of n]
    by (simp add: insert_at_def)
  then show ?thesis using v(1) by (auto simp: document_insert_line_def doc_rep_def)
qed

lemma write_loop:
  assumes "doc_rep d ls" "length ls < 2 ^ 31"
  shows "forE [0..to_int (vector_size (vector d)) - 1]
    (\<lambda>i out. bindE (vector_get (vector d) (of_int i)) (\<lambda>line. OK (out @ line @ [NL]))) []
    = OK (concat (map (\<lambda>l. l @ [NL]) ls))"
proof -
  let ?body = "\<lambda>i out. bindE (vector_get (vector d) (of_int i)) (\<lambda>line. OK (out @ line @ [NL]))"
  have u: "unat (vector_size (vector d)) = length ls"
    using document_size_rep [OF assms(1)] by (simp add: document_size_def)
  have size: "to_int (vector_size (vector d)) = int (length ls)"
    using to_int_small [of "vector_size (vector d)", unfolded u] assms(2) by simp
  have idx: "[0..to_int (vector_size (vector d)) - 1] = map int [0..<length ls]"
    unfolding size using upto_nat [of 0 "length ls"] by simp
  have get: "vector_get (vector d) (of_nat k) = OK (ls ! k)" if "k < length ls" for k
    using vec.get_law [of "vector d" ls "of_nat k"] that assms
    by (simp add: doc_rep_def unat_of_nat_size_t)
  let ?P = "\<lambda>k out. out = concat (map (\<lambda>l. l @ [NL]) (take k ls))"
  have "\<exists>out. forE [0..<length ls] (\<lambda>i. ?body (int i)) [] = OK out \<and> ?P (length [0..<length ls]) out"
  proof (rule forE_rule [where P = ?P])
    fix k out assume "k < length [0..<length ls]" "?P k out"
    then show "\<exists>out'. ?body (int ([0..<length ls] ! k)) out = OK out' \<and> ?P (Suc k) out'"
      using get [of k] by (simp add: take_Suc_conv_app_nth)
  qed simp
  then show ?thesis unfolding idx forE_map by simp
qed

lemma read_loop:
  assumes "copies cb" "list_all plain_line ls" "length ls \<le> MAX_CELLS"
  shows "\<exists>v. forE (getlines (concat (map (\<lambda>l. l @ [NL]) ls)))
      (\<lambda>line v. vector_push_back v (chomp line)) (vector (document_create cb)) = OK v \<and>
    copying_rep v ls"
proof -
  have lines: "getlines (concat (map (\<lambda>l. l @ [NL]) ls)) = map (\<lambda>l. l @ [NL]) ls"
    using assms(2) by (intro getlines_concat) (auto simp: list_all_iff plain_line_def)
  have "forE (map (\<lambda>l. l @ [NL]) ls) (\<lambda>line v. vector_push_back v (chomp line))
      (vector (document_create cb)) = forE ls (\<lambda>l v. vector_push_back v l) (string_vector_create cb)"
    unfolding forE_map document_create_def document.select_convs
    by (rule forE_cong) (use assms(2) in \<open>auto simp: list_all_iff plain_line_def chomp_line\<close>)
  then show ?thesis unfolding lines
    using vec.push_all [OF string_vector_create_rep [OF assms(1)], of ls] assms(3) by simp
qed

section \<open>Properties\<close>

text \<open>
  C39: saving a document to a writable file and reading that file gives a document with the
  same lines, for lines without a newline or a NUL and fewer than \<open>2 ^ 31\<close> of them.
\<close>

theorem document_file_roundtrip:
  assumes "copies cb" "doc_rep d ls" "list_all plain_line ls" "length ls < 2 ^ 31" "writable fs path"
  shows "\<exists>fs' d'. document_write_to_file d path fs = OK fs' \<and>
    document_create_from_file cb path fs' = OK d' \<and> doc_rep d' ls"
proof -
  let ?fs = "fs\<lparr>files := (files fs)(path \<mapsto> concat (map (\<lambda>l. l @ [NL]) ls))\<rparr>"
  have "document_write_to_file d path fs = OK ?fs"
    using write_loop [OF assms(2,4)] assms(5) by (simp add: document_write_to_file_def)
  moreover obtain v where "document_create_from_file cb path ?fs = OK \<lparr>vector = v\<rparr>" "copying_rep v ls"
    using read_loop [OF assms(1,3)] doc_rep_bound [OF assms(2)]
    by (auto simp: document_create_from_file_def)
  ultimately show ?thesis by (auto simp: doc_rep_def)
qed

text \<open>
  Inserting at line \<open>n\<close> puts the text there: within the document the later lines move
  down by one, past its end the gap is filled with empty lines.
\<close>

theorem document_insert_line_pads:
  assumes "doc_rep d ls" "0 < n" "unat n \<le> MAX_CELLS" "length ls < MAX_CELLS"
  shows "\<exists>d'. document_insert_line d n s = OK d' \<and>
    doc_rep d' (if unat n \<le> length ls + 1
                then take (unat n - 1) ls @ s # drop (unat n - 1) ls
                else ls @ replicate (unat n - 1 - length ls) [] @ [s])"
  using document_insert_line_rep [OF assms, of s]
  by (auto simp: insert_at_def pad_lines_def)

theorem document_insert_line_pads_witness:
  "\<exists>d'. document_insert_line (document_create strdup_callbacks) 3 ''x'' = OK d' \<and> doc_rep d' [[], [], ''x'']"
proof -
  have two: "replicate 2 ([] :: string) = [[], []]" by (simp add: numeral_2_eq_2)
  show ?thesis
    using document_insert_line_pads [OF document_create_rep [OF strdup_copies], of 3 "''x''"]
    by (simp add: MAX_CELLS_def two)
qed

theorem document_file_roundtrip_witness:
  "\<exists>d fs' d'. document_insert_line (document_create strdup_callbacks) 2 ''hello'' = OK d \<and>
    document_write_to_file d ''f'' \<lparr>files = Map.empty, writable = (\<lambda>_. True)\<rparr> = OK fs' \<and>
    document_create_from_file strdup_callbacks ''f'' fs' = OK d' \<and> doc_rep d' [[], ''hello'']"
proof -
  obtain d where d: "document_insert_line (document_create strdup_callbacks) 2 ''hello'' = OK d" "doc_rep d [[], ''hello'']"
    using document_insert_line_rep [OF document_create_rep [OF strdup_copies], of 2 "''hello''"]
    by (auto simp: MAX_CELLS_def insert_at_def pad_lines_def)
  have "list_all plain_line [[], ''hello'']" by (simp add: plain_line_def NL_def NUL_def)
  from document_file_roundtrip [OF strdup_copies d(2) this, of "\<lparr>files = Map.empty, writable = (\<lambda>_. True)\<rparr>" "''f''"] d(1)
  show ?thesis by auto
qed

end
