(* ===== verification/Editor.thy ===== *)
theory Editor
  imports Document
begin

text \<open>
  The command handlers of \<open>text_editor/editor.c\<close> over a document: display, insert, append,
  write, delete, search, merge, split and save. The two handlers that process escape
  sequences do so differently, one into a second buffer and one in place; they are shown to
  compute the same text.
\<close>

section \<open>The model\<close>

record location =
  line_no :: size_t
  idx :: size_t

record editor =
  edoc :: document
  filename :: string

definition BACKSLASH :: char where "BACKSLASH = CHR 0x5C"

text \<open>What the display command prints, through \<open>format.h\<close>.\<close>

datatype display_event = Document_Empty_Error | Print_Line size_t size_t size_t

definition get_filename :: "nat \<Rightarrow> string list \<Rightarrow> string res" where
  "get_filename argc argv =
     (if 1 \<le> argc \<and> argc \<le> length argv then OK (argv ! (argc - 1)) else Fault Out_Of_Bounds)"

definition handle_create_string :: sstring where
  "handle_create_string = cstr_to_sstring []"

definition handle_create_document :: "string callbacks \<Rightarrow> string \<Rightarrow> file_system \<Rightarrow> document res" where
  "handle_create_document cb path fs = document_create_from_file cb path fs"

definition handle_cleanup :: "editor \<Rightarrow> document res" where
  "handle_cleanup e = document_destroy (edoc e)"

text \<open>\<open>max_lines\<close> and \<open>max_cols\<close> are \<open>ssize_t\<close>: their bit patterns, where -1 is all ones.\<close>

definition handle_display_command ::
  "editor \<Rightarrow> size_t \<Rightarrow> size_t \<Rightarrow> size_t \<Rightarrow> size_t \<Rightarrow> display_event list" where
  "handle_display_command e start_line max_lines start_col_index max_cols =
     (let dsize = document_size (edoc e) in
      if dsize = 0 then [Document_Empty_Error]
      else if max_lines = -1 then
        map (\<lambda>i. Print_Line (of_nat i) start_col_index max_cols)
          [unat start_line..<Suc (unat dsize)]
      else
        map (\<lambda>i. Print_Line (of_nat i) start_col_index max_cols)
          [unat start_line..<min (unat (start_line + max_lines)) (Suc (unat dsize))])"

text \<open>Storing the result of a document operation in the editor.\<close>

definition with_doc :: "editor \<Rightarrow> document res \<Rightarrow> editor res" where
  "with_doc e m = bindE m (\<lambda>d. OK (e\<lparr>edoc := d\<rparr>))"

definition handle_insert_command :: "editor \<Rightarrow> location \<Rightarrow> string \<Rightarrow> editor res" where
  "handle_insert_command e loc line = bindE (assertE (1 \<le> line_no loc)) (\<lambda>_.
     if document_size (edoc e) < line_no loc
     then with_doc e (document_insert_line (edoc e) (line_no loc) line)
     else bindE (document_get_line (edoc e) (line_no loc)) (\<lambda>tmp.
       if unat (idx loc) > length tmp then Fault Out_Of_Bounds
       else with_doc e (document_set_line (edoc e) (line_no loc)
              (take (unat (idx loc)) tmp @ line @ drop (unat (idx loc)) tmp))))"

text \<open>The escape loop of \<open>handle_append_command\<close>: from \<open>line\<close> into a new buffer.\<close>

fun append_unescape :: "string \<Rightarrow> string" where
  "append_unescape [] = []"
| "append_unescape [c] = (if c = BACKSLASH then [] else [c])"
| "append_unescape (c # d # ds) =
     (if c = BACKSLASH then
        if d = CHR ''n'' then NL # append_unescape ds else d # append_unescape ds
      else c # append_unescape (d # ds))"

text \<open>
  The last loop of the append and write handlers: the fields after the first go into new
  lines below \<open>line_no\<close>, which counts up.
\<close>

definition insert_fields :: "document \<Rightarrow> size_t \<Rightarrow> string vector \<Rightarrow> document res" where
  "insert_fields d n v = bindE (forE [1..<unat (vector_size v)]
     (\<lambda>i (d, n). bindE (vector_get v (of_nat i)) (\<lambda>s.
        bindE (document_insert_line d (n + 1) s) (\<lambda>d. OK (d, n + 1)))) (d, n))
     (\<lambda>(d, n). OK d)"

definition fields_vector :: "string callbacks \<Rightarrow> string \<Rightarrow> string vector res" where
  "fields_vector cb str =
     forE (strsep_all NL str) (\<lambda>s v. vector_push_back v s) (string_vector_create cb)"

definition handle_append_command :: "string callbacks \<Rightarrow> editor \<Rightarrow> size_t \<Rightarrow> string \<Rightarrow> editor res" where
  "handle_append_command cb e n line = bindE (assertE (n > 0)) (\<lambda>_.
     bindE (if n > document_size (edoc e) then document_insert_line (edoc e) n []
            else OK (edoc e)) (\<lambda>d.
     bindE (fields_vector cb (append_unescape line)) (\<lambda>v.
     bindE (vector_get v (vector_front v)) (\<lambda>first.
     bindE (document_get_line d n) (\<lambda>origin.
     bindE (document_set_line d n (origin @ first)) (\<lambda>d.
     bindE (insert_fields d n v) (\<lambda>d.
     bindE (vector_destroy v) (\<lambda>_. OK (e\<lparr>edoc := d\<rparr>)))))))))"

text \<open>The escape loop of \<open>handle_write_command\<close>: in place, in the copy \<open>temp\<close> of the line.\<close>

definition memmove :: "'a list \<Rightarrow> nat \<Rightarrow> nat \<Rightarrow> nat \<Rightarrow> 'a list res" where
  "memmove buf dst src n =
     (if dst + n \<le> length buf \<and> src + n \<le> length buf
      then OK (take dst buf @ take n (drop src buf) @ drop (dst + n) buf)
      else Fault Out_Of_Bounds)"

definition shift_tail :: "char list \<Rightarrow> nat \<Rightarrow> char list res" where
  "shift_tail temp j =
     (if length (cstr temp) < j then Fault Out_Of_Bounds
      else memmove temp j (j + 1) (length (cstr temp) - j))"

definition write_unescape_step :: "nat \<Rightarrow> char list \<Rightarrow> char list res" where
  "write_unescape_step j temp =
     (if length temp \<le> j then Fault Out_Of_Bounds
      else if temp ! j = BACKSLASH then
        if length temp \<le> j + 1 then Fault Out_Of_Bounds
        else if temp ! (j + 1) \<noteq> CHR ''n'' then shift_tail temp j
        else shift_tail (temp[j + 1 := NL]) j
      else OK temp)"

definition write_unescape :: "string \<Rightarrow> string res" where
  "write_unescape line =
     bindE (forE [0..<length line] write_unescape_step (line @ [NUL])) (\<lambda>temp. OK (cstr temp))"

definition handle_write_command :: "string callbacks \<Rightarrow> editor \<Rightarrow> size_t \<Rightarrow> string \<Rightarrow> editor res" where
  "handle_write_command cb e n line = bindE (assertE (n > 0)) (\<lambda>_.
     bindE (if n > document_size (edoc e) then document_insert_line (edoc e) n []
            else OK (edoc e)) (\<lambda>d.
     bindE (write_unescape line) (\<lambda>temp.
     bindE (fields_vector cb temp) (\<lambda>v.
     bindE (vector_get v (vector_front v)) (\<lambda>first.
     bindE (document_set_line d n first) (\<lambda>d.
     bindE (insert_fields d n v) (\<lambda>d.
     bindE (vector_destroy v) (\<lambda>_. OK (e\<lparr>edoc := d\<rparr>)))))))))"

text \<open>
  \<open>loc.idx\<close> is passed to \<open>sstring_slice\<close> as an \<open>int\<close>; \<open>loc.idx + num_chars\<close> and the size given
  to \<open>realloc\<close> are \<open>size_t\<close> expressions.
\<close>

definition handle_delete_command :: "editor \<Rightarrow> location \<Rightarrow> size_t \<Rightarrow> editor res" where
  "handle_delete_command e loc num_chars =
     (if line_no loc > document_size (edoc e) then OK e
      else bindE (document_get_line (edoc e) (line_no loc)) (\<lambda>line.
        let mystr = cstr_to_sstring line in
        if idx loc + num_chars \<ge> strlen line then
          bindE (sstring_slice mystr 0 (to_int (idx loc))) (\<lambda>s.
            with_doc e (document_set_line (edoc e) (line_no loc) s))
        else
          bindE (sstring_slice mystr 0 (to_int (idx loc))) (\<lambda>temp.
            let rest = drop (unat (num_chars + idx loc)) line in
            if unat (strlen line - num_chars + 1) < length temp + length rest + 1
            then Fault Out_Of_Bounds
            else with_doc e (document_set_line (edoc e) (line_no loc) (temp @ rest)))))"

definition handle_delete_line :: "editor \<Rightarrow> size_t \<Rightarrow> editor res" where
  "handle_delete_line e n =
     (if n > document_size (edoc e) then OK e else with_doc e (document_delete_line (edoc e) n))"

text \<open>The loop of \<open>handle_search_command\<close> over its index \<open>i\<close>; \<open>index\<close> is carried along.\<close>

primrec search_loop :: "document \<Rightarrow> size_t \<Rightarrow> string \<Rightarrow> nat list \<Rightarrow> int \<Rightarrow> location res" where
  "search_loop d start search_str [] index = OK \<lparr>line_no = 0, idx = 0\<rparr>"
| "search_loop d start search_str (i # is) index =
     (let dsize = unat (document_size d); j = (if i > dsize then i - dsize else i) in
      bindE (document_get_line d (of_nat j)) (\<lambda>curr.
        let index1 = (if index \<ge> to_int (strlen curr) then -1 else index);
            index2 = (if i > unat start then -1 else index1)
        in if index2 + 1 < 0 \<or> nat (index2 + 1) > length curr then Fault Out_Of_Bounds
           else case strstr (drop (nat (index2 + 1)) curr) search_str of
               Some k \<Rightarrow> OK \<lparr>line_no = of_nat j, idx = of_nat (nat (index2 + 1) + k)\<rparr>
             | None \<Rightarrow> search_loop d start search_str is index2))"

definition handle_search_command :: "editor \<Rightarrow> location \<Rightarrow> string \<Rightarrow> location res" where
  "handle_search_command e loc search_str =
     (if search_str = [] then OK \<lparr>line_no = 0, idx = 0\<rparr>
      else search_loop (edoc e) (line_no loc) search_str
             [unat (line_no loc)..<unat (line_no loc + document_size (edoc e))]
             (to_int (idx loc)))"

definition handle_merge_line :: "editor \<Rightarrow> size_t \<Rightarrow> editor res" where
  "handle_merge_line e n = bindE (assertE (n < document_size (edoc e))) (\<lambda>_.
     bindE (document_get_line (edoc e) n) (\<lambda>temp.
     bindE (document_get_line (edoc e) (n + 1)) (\<lambda>next.
     bindE (document_set_line (edoc e) n (temp @ next)) (\<lambda>d.
     with_doc e (document_delete_line d (n + 1))))))"

definition handle_split_line :: "editor \<Rightarrow> location \<Rightarrow> editor res" where
  "handle_split_line e loc = bindE (document_get_line (edoc e) (line_no loc)) (\<lambda>temp.
     if idx loc \<ge> strlen temp then OK e
     else bindE (document_insert_line (edoc e) (line_no loc + 1) (drop (unat (idx loc)) temp)) (\<lambda>d.
          bindE (sstring_slice (cstr_to_sstring temp) 0 (to_int (idx loc))) (\<lambda>s.
          with_doc e (document_set_line d (line_no loc) s))))"

definition handle_save_command :: "editor \<Rightarrow> file_system \<Rightarrow> file_system res" where
  "handle_save_command e fs = document_write_to_file (edoc e) (filename e) fs"

section \<open>Specification\<close>

text \<open>A document with at least \<open>n\<close> lines in which line \<open>n\<close> is replaced by the lines \<open>fs\<close>.\<close>

definition replace_line :: "nat \<Rightarrow> string list \<Rightarrow> string list \<Rightarrow> string list" where
  "replace_line n fs ls = take (n - 1) (pad_lines n ls) @ fs @ drop n (pad_lines n ls)"

definition occurs_at :: "string \<Rightarrow> nat \<Rightarrow> string \<Rightarrow> bool" where
  "occurs_at t k s \<longleftrightarrow> k + length t \<le> length s \<and> take (length t) (drop k s) = t"

section \<open>Escape sequences\<close>

lemma append_unescape_Cons [simp]:
  "c \<noteq> BACKSLASH \<Longrightarrow> append_unescape (c # cs) = c # append_unescape cs"
  by (cases cs) simp_all

lemma cstr_padded [simp]: "NUL \<notin> set s \<Longrightarrow> cstr (s @ replicate (Suc z) NUL) = s"
  using span_delim(1) [of NUL s] by (simp add: cstr_def)

lemma shift_tail_drop:
  assumes "NUL \<notin> set (a @ b # c)"
  shows "shift_tail (a @ b # c @ replicate (Suc z) NUL) (length a) =
    OK (a @ c @ replicate (Suc (Suc z)) NUL)"
proof -
  have "cstr (a @ b # c @ replicate (Suc z) NUL) = a @ b # c"
    using cstr_padded [OF assms, of z] by simp
  then show ?thesis
    by (simp add: shift_tail_def memmove_def)
qed

definition write_inv :: "string \<Rightarrow> nat \<Rightarrow> char list \<Rightarrow> bool" where
  "write_inv line j temp \<longleftrightarrow> (\<exists>out rest z. temp = out @ rest @ replicate (Suc z) NUL \<and>
     length temp = Suc (length line) \<and> NUL \<notin> set out \<and> NUL \<notin> set rest \<and>
     (if rest = [] then length out \<le> j else length out = j) \<and>
     out @ append_unescape rest = append_unescape line)"

lemma write_invI:
  assumes "temp = out @ rest @ replicate (Suc z) NUL" "length temp = Suc (length line)"
    "NUL \<notin> set (out @ rest)" "length out = j" "out @ append_unescape rest = append_unescape line"
  shows "write_inv line j temp"
  unfolding write_inv_def using assms by (intro exI [of _ out] exI [of _ rest] exI [of _ z]) simp

lemma write_inv_doneI:
  assumes "temp = out @ replicate (Suc z) NUL" "length temp = Suc (length line)"
    "NUL \<notin> set out" "length out \<le> j" "out = append_unescape line"
  shows "write_inv line j temp"
  unfolding write_inv_def using assms by (intro exI [of _ out] exI [of _ "[]"] exI [of _ z]) simp

lemma write_unescape_step_inv:
  assumes "write_inv line j temp" "j < length line"
  shows "\<exists>temp'. write_unescape_step j temp = OK temp' \<and> write_inv line (Suc j) temp'"
proof -
  from assms(1) obtain out rest z where t: "temp = out @ rest @ replicate (Suc z) NUL"
    "length temp = Suc (length line)" "NUL \<notin> set out" "NUL \<notin> set rest"
    "if rest = [] then length out \<le> j else length out = j"
    "out @ append_unescape rest = append_unescape line"
    unfolding write_inv_def by blast
  show ?thesis
  proof (cases rest)
    case Nil
    then have "temp ! j = NUL" using t assms(2) by (simp add: nth_append nth_replicate del: replicate.simps)
    then have "write_unescape_step j temp = OK temp"
      using t(2) assms(2) by (simp add: write_unescape_step_def NUL_def BACKSLASH_def)
    moreover have "write_inv line (Suc j) temp"
      by (rule write_inv_doneI [of _ out z]) (use t Nil in auto)
    ultimately show ?thesis by blast
  next
    case (Cons c cs)
    then have j: "length out = j" "temp ! j = c" using t by auto
    show ?thesis
    proof (cases "c = BACKSLASH")
      case False
      then have "write_unescape_step j temp = OK temp"
        using t(2) assms(2) j by (simp add: write_unescape_step_def)
      moreover have "write_inv line (Suc j) temp"
        by (rule write_invI [of _ "out @ [c]" cs z]) (use t Cons j False in auto)
      ultimately show ?thesis by blast
    next
      case bs: True
      show ?thesis
      proof (cases cs)
        case Nil
        have "write_unescape_step j temp = shift_tail temp j"
          using t(1,2) assms(2) j bs Cons Nil by (auto simp: write_unescape_step_def NUL_def nth_append)
        also have "\<dots> = OK (out @ replicate (Suc (Suc z)) NUL)"
          using shift_tail_drop [of out c "[]" z] t Cons Nil j by simp
        finally have "write_unescape_step j temp = OK (out @ replicate (Suc (Suc z)) NUL)" .
        moreover have "write_inv line (Suc j) (out @ replicate (Suc (Suc z)) NUL)"
          by (rule write_inv_doneI [of _ out "Suc z"]) (use t Cons Nil bs j in simp_all)
        ultimately show ?thesis by blast
      next
        case ds: (Cons d ds)
        let ?d = "if d = CHR ''n'' then NL else d"
        have "write_unescape_step j temp = shift_tail (out @ c # (?d # ds) @ replicate (Suc z) NUL) j"
          using t(1,2) assms(2) j bs Cons ds
          by (auto simp: write_unescape_step_def nth_append list_update_append)
        also have "\<dots> = OK (out @ (?d # ds) @ replicate (Suc (Suc z)) NUL)"
          using shift_tail_drop [of out c "?d # ds" z] t Cons ds j by (auto simp: NL_def NUL_def)
        finally have "write_unescape_step j temp =
          OK (out @ (?d # ds) @ replicate (Suc (Suc z)) NUL)" .
        moreover have "write_inv line (Suc j) (out @ (?d # ds) @ replicate (Suc (Suc z)) NUL)"
          by (rule write_invI [of _ "out @ [?d]" ds "Suc z"])
            (use t Cons ds bs j in \<open>auto simp: NL_def NUL_def\<close>)
        ultimately show ?thesis by blast
      qed
    qed
  qed
qed


lemma write_unescape_eq:
  assumes "NUL \<notin> set line"
  shows "write_unescape line = OK (append_unescape line)"
proof -
  have "\<exists>temp. forE [0..<length line] write_unescape_step (line @ [NUL]) = OK temp \<and>
      write_inv line (length [0..<length line]) temp"
  proof (rule forE_rule [where P = "write_inv line"])
    show "write_inv line 0 (line @ [NUL])"
      by (rule write_invI [of _ "[]" line 0]) (use assms in simp_all)
  qed (use write_unescape_step_inv in auto)
  then obtain temp where temp: "forE [0..<length line] write_unescape_step (line @ [NUL]) = OK temp"
    "write_inv line (length line) temp" by auto
  then obtain out rest z where t: "temp = out @ rest @ replicate (Suc z) NUL"
    "length temp = Suc (length line)" "NUL \<notin> set out"
    "if rest = [] then length out \<le> length line else length out = length line"
    "out @ append_unescape rest = append_unescape line"
    unfolding write_inv_def by blast
  then have "rest = []" by (auto split: if_splits)
  then have "cstr temp = append_unescape line" using t cstr_padded [OF t(3), of z] by simp
  then show ?thesis using temp(1) by (simp add: write_unescape_def)
qed

lemma length_append_unescape: "length (append_unescape line) \<le> length line"
proof (induction line rule: append_unescape.induct)
  case (3 c d ds)
  then show ?case by (cases "c = BACKSLASH"; cases "d = CHR ''n''") auto
qed auto

lemma append_unescape_plain: "BACKSLASH \<notin> set line \<Longrightarrow> append_unescape line = line"
  by (induction line rule: append_unescape.induct) auto

lemma append_unescape_NUL: "NUL \<notin> set line \<Longrightarrow> NUL \<notin> set (append_unescape line)"
  by (induction line rule: append_unescape.induct) (auto simp: NL_def NUL_def)

section \<open>Lines\<close>

lemma fields_vector_rep:
  assumes "copies cb" "length (strsep_all NL str) \<le> MAX_CELLS"
  shows "\<exists>v. fields_vector cb str = OK v \<and> copying_rep v (strsep_all NL str)"
  using vec.push_all [OF string_vector_create_rep, of cb "strsep_all NL str"] assms
  by (simp add: fields_vector_def)

lemma insert_fields_rep:
  assumes d: "doc_rep d ls" and v: "copying_rep v (f # fs)"
    and n: "0 < n" "unat n \<le> length ls" and small: "length ls + length fs \<le> MAX_CELLS"
  shows "\<exists>d'. insert_fields d n v = OK d' \<and> doc_rep d' (take (unat n) ls @ fs @ drop (unat n) ls)"
proof -
  let ?body = "\<lambda>i (d, n). bindE (vector_get v (of_nat i)) (\<lambda>s.
    bindE (document_insert_line d (n + 1) s) (\<lambda>d. OK (d, n + 1)))"
  let ?P = "\<lambda>k (d, m). unat m = unat n + k \<and>
    doc_rep d (take (unat n) ls @ take k fs @ drop (unat n) ls)"
  have size: "unat (vector_size v) = Suc (length fs)" using vec.size_law [OF v] by simp
  have big: "MAX_CELLS < 2 ^ 64" by (simp add: MAX_CELLS_def)
  have "\<exists>s'. forE [1..<Suc (length fs)] ?body (d, n) = OK s' \<and> ?P (length [1..<Suc (length fs)]) s'"
  proof (rule forE_rule [where P = ?P])
    fix k and s :: "document \<times> size_t"
    assume k: "k < length [1..<Suc (length fs)]" and s: "?P k s"
    obtain d1 m where s_eq: "s = (d1, m)" by (cases s)
    from s have m: "unat m = unat n + k" and
      d1: "doc_rep d1 (take (unat n) ls @ take k fs @ drop (unat n) ls)" by (simp_all add: s_eq)
    have i: "[1..<Suc (length fs)] ! k = Suc k" using k by (simp del: upt_Suc)
    have kf: "k < length fs" using k by (simp del: upt_Suc)
    have get: "vector_get v (of_nat (Suc k)) = OK (fs ! k)"
    proof -
      have "unat (of_nat (Suc k) :: size_t) = Suc k"
        using kf small big by (intro unat_of_nat_size_t) simp
      then show ?thesis using vec.get_law [OF v, of "of_nat (Suc k)"] kf by simp
    qed
    have m1: "unat (m + 1) = unat n + k + 1" "0 < m + 1"
    proof -
      show u: "unat (m + 1) = unat n + k + 1"
        using m kf n small big by (subst unat_plus_one) simp_all
      show "0 < m + 1" using u by (metis add_is_0 unat_0 word_gt_0 zero_neq_one)
    qed
    have len: "length (take (unat n) ls @ take k fs @ drop (unat n) ls) = length ls + k"
      using n kf by simp
    have "\<exists>d2. document_insert_line d1 (m + 1) (fs ! k) = OK d2 \<and>
      doc_rep d2 (insert_at (unat (m + 1) - 1) (fs ! k)
        (pad_lines (unat (m + 1) - 1) (take (unat n) ls @ take k fs @ drop (unat n) ls)))"
      by (rule document_insert_line_rep [OF d1 m1(2)]) (use m1 len n kf small in simp_all)
    moreover have "insert_at (unat n + k) (fs ! k)
        (pad_lines (unat n + k) (take (unat n) ls @ take k fs @ drop (unat n) ls)) =
      take (unat n) ls @ take (Suc k) fs @ drop (unat n) ls"
      using n kf len by (simp add: insert_at_def take_Suc_conv_app_nth)
    ultimately show "\<exists>s'. ?body ([1..<Suc (length fs)] ! k) s = OK s' \<and> ?P (Suc k) s'"
      using get m1 unfolding i s_eq by auto
  qed (use d in simp)
  then show ?thesis unfolding insert_fields_def size by (auto simp del: upt_Suc)
qed


lemma pad_to_line_rep:
  assumes "doc_rep d ls" "0 < n" "unat n \<le> MAX_CELLS" "length ls < MAX_CELLS"
  shows "\<exists>d'. (if n > document_size d then document_insert_line d n [] else OK d) = OK d' \<and>
    doc_rep d' (pad_lines (unat n) ls)"
proof (cases "unat n > length ls")
  case True
  have 0: "unat n \<noteq> 0" using assms(2) by (simp add: unat_eq_zero word_gt_0)
  have "unat n - length ls = Suc (unat n - 1 - length ls)" using True by linarith
  then have "insert_at (unat n - 1) [] (pad_lines (unat n - 1) ls) = pad_lines (unat n) ls"
    using True 0 by (simp add: insert_at_def pad_lines_def replicate_append_same del: replicate_Suc)
      (simp add: replicate_append_same)
  then show ?thesis
    using document_insert_line_rep [OF assms, of "[]"] True document_size_rep [OF assms(1)]
    by (simp add: word_less_nat_alt)
next
  case False
  then show ?thesis using assms(1) document_size_rep [OF assms(1)] by (simp add: word_less_nat_alt)
qed

text \<open>Both text commands set the line and insert the further fields below it.\<close>

lemma set_and_insert_rep:
  assumes d: "doc_rep d ls" and n: "0 < n" "unat n \<le> length ls" and v: "copying_rep v (f # fs)"
    and small: "length ls + length fs \<le> MAX_CELLS"
  shows "\<exists>d'. bindE (document_set_line d n s) (\<lambda>d. bindE (insert_fields d n v) (\<lambda>d.
      bindE (vector_destroy v) (\<lambda>_. OK (e\<lparr>edoc := d\<rparr>)))) = OK (e\<lparr>edoc := d'\<rparr>) \<and>
    doc_rep d' (take (unat n - 1) ls @ (s # fs) @ drop (unat n) ls)"
proof -
  have 0: "unat n \<noteq> 0" using n(1) by (simp add: unat_eq_zero word_gt_0)
  obtain d1 where d1: "document_set_line d n s = OK d1" "doc_rep d1 (ls[unat n - 1 := s])"
    using document_set_line_rep [OF d n] by blast
  have "\<exists>d2. insert_fields d1 n v = OK d2 \<and>
    doc_rep d2 (take (unat n) (ls[unat n - 1 := s]) @ fs @ drop (unat n) (ls[unat n - 1 := s]))"
    by (rule insert_fields_rep [OF d1(2) v n(1)]) (use n small in simp_all)
  then obtain d2 where d2: "insert_fields d1 n v = OK d2"
    "doc_rep d2 (take (unat n) (ls[unat n - 1 := s]) @ fs @ drop (unat n) (ls[unat n - 1 := s]))"
    by blast
  have "unat n = Suc (unat n - 1)" using 0 by simp
  then have "take (unat n) (ls[unat n - 1 := s]) = take (unat n - 1) ls @ [s]"
    using take_list_update_Suc [of "unat n - 1" ls s] n(2) 0 by simp
  moreover obtain v' where "vector_destroy v = OK v'"
    using vector_destroy_rep [of v "f # fs"] v by (auto simp: copying_rep_def)
  ultimately show ?thesis using d1(1) d2 0 by (intro exI [of _ d2]) simp
qed


lemma text_command_rep:
  assumes cb: "copies cb" and d: "doc_rep d ls" and n: "0 < n" "unat n \<le> MAX_CELLS"
    and small: "length ls < MAX_CELLS" "max (unat n) (length ls) + length (strsep_all NL str) \<le> MAX_CELLS"
  obtains d1 v f fs where
    "(if n > document_size d then document_insert_line d n [] else OK d) = OK d1"
    "doc_rep d1 (pad_lines (unat n) ls)" "unat n \<le> length (pad_lines (unat n) ls)"
    "fields_vector cb str = OK v" "copying_rep v (f # fs)" "strsep_all NL str = f # fs"
    "vector_get v (vector_front v) = OK f" "length (pad_lines (unat n) ls) + length fs \<le> MAX_CELLS"
proof -
  obtain d1 where d1: "(if n > document_size d then document_insert_line d n [] else OK d) = OK d1"
    "doc_rep d1 (pad_lines (unat n) ls)"
    using pad_to_line_rep [OF d n small(1)] by blast
  obtain v where v: "fields_vector cb str = OK v" "copying_rep v (strsep_all NL str)"
    using fields_vector_rep [of cb str] cb small(2) by auto
  obtain f fs where f: "strsep_all NL str = f # fs" by (cases "strsep_all NL str") auto
  have "vector_get v (vector_front v) = OK f"
    using vec.get_law [OF v(2), of 0] f by (simp add: vector_front_def)
  then show thesis using that [of d1 v f fs] d1 v f small(2) by simp
qed

lemma handle_write_command_rep:
  assumes cb: "copies cb" and d: "doc_rep (edoc e) ls" and n: "0 < n" "unat n \<le> MAX_CELLS" and l: "NUL \<notin> set line"
    and small: "length ls < MAX_CELLS"
      "max (unat n) (length ls) + length (strsep_all NL (append_unescape line)) \<le> MAX_CELLS"
  shows "\<exists>d'. handle_write_command cb e n line = OK (e\<lparr>edoc := d'\<rparr>) \<and>
    doc_rep d' (replace_line (unat n) (strsep_all NL (append_unescape line)) ls)"
proof -
  obtain d1 v f fs where t:
    "(if n > document_size (edoc e) then document_insert_line (edoc e) n [] else OK (edoc e)) = OK d1"
    "doc_rep d1 (pad_lines (unat n) ls)" "unat n \<le> length (pad_lines (unat n) ls)"
    "fields_vector cb (append_unescape line) = OK v" "copying_rep v (f # fs)"
    "strsep_all NL (append_unescape line) = f # fs" "vector_get v (vector_front v) = OK f"
    "length (pad_lines (unat n) ls) + length fs \<le> MAX_CELLS"
    by (rule text_command_rep [OF cb d n small])
  show ?thesis
    using set_and_insert_rep [OF t(2) n(1) t(3) t(5) t(8), of f e] t n(1)
    by (simp add: handle_write_command_def write_unescape_eq [OF l] replace_line_def)
qed

lemma handle_append_command_rep:
  assumes cb: "copies cb" and d: "doc_rep (edoc e) ls" and n: "0 < n" "unat n \<le> MAX_CELLS"
    and small: "length ls < MAX_CELLS"
      "max (unat n) (length ls) + length (strsep_all NL (append_unescape line)) \<le> MAX_CELLS"
  shows "\<exists>d'. handle_append_command cb e n line = OK (e\<lparr>edoc := d'\<rparr>) \<and>
    (case strsep_all NL (append_unescape line) of f # fs \<Rightarrow>
       doc_rep d' (replace_line (unat n) ((pad_lines (unat n) ls ! (unat n - 1) @ f) # fs) ls))"
proof -
  obtain d1 v f fs where t:
    "(if n > document_size (edoc e) then document_insert_line (edoc e) n [] else OK (edoc e)) = OK d1"
    "doc_rep d1 (pad_lines (unat n) ls)" "unat n \<le> length (pad_lines (unat n) ls)"
    "fields_vector cb (append_unescape line) = OK v" "copying_rep v (f # fs)"
    "strsep_all NL (append_unescape line) = f # fs" "vector_get v (vector_front v) = OK f"
    "length (pad_lines (unat n) ls) + length fs \<le> MAX_CELLS"
    by (rule text_command_rep [OF cb d n small])
  have "document_get_line d1 n = OK (pad_lines (unat n) ls ! (unat n - 1))"
    by (rule document_get_line_rep [OF t(2) n(1) t(3)])
  then show ?thesis
    using set_and_insert_rep [OF t(2) n(1) t(3) t(5) t(8),
        of "pad_lines (unat n) ls ! (unat n - 1) @ f" e] t n(1)
    by (simp add: handle_append_command_def replace_line_def)
qed

lemma handle_split_line_rep:
  assumes d: "doc_rep (edoc e) ls" and n: "0 < line_no loc" "unat (line_no loc) \<le> length ls"
    and small: "length ls < MAX_CELLS"
    and i: "unat (idx loc) < length (ls ! (unat (line_no loc) - 1))"
      "length (ls ! (unat (line_no loc) - 1)) < 2 ^ 31"
  shows "\<exists>d'. handle_split_line e loc = OK (e\<lparr>edoc := d'\<rparr>) \<and>
    doc_rep d' (take (unat (line_no loc) - 1) ls @
      [take (unat (idx loc)) (ls ! (unat (line_no loc) - 1)),
       drop (unat (idx loc)) (ls ! (unat (line_no loc) - 1))] @ drop (unat (line_no loc)) ls)"
proof -
  let ?n = "unat (line_no loc)" and ?i = "unat (idx loc)"
  let ?l = "ls ! (?n - 1)"
  have n0: "?n \<noteq> 0" "?n = Suc (?n - 1)" using line_index_less [OF n] by simp_all
  have get: "document_get_line (edoc e) (line_no loc) = OK ?l" by (rule document_get_line_rep [OF d n])
  have "unat (strlen ?l) = length ?l" using i(2) by (intro unat_strlen) simp
  then have guard: "\<not> idx loc \<ge> strlen ?l" using i(1) by (simp add: word_le_nat_alt)
  have n1: "unat (line_no loc + 1) = ?n + 1" "0 < line_no loc + 1"
  proof -
    show u: "unat (line_no loc + 1) = ?n + 1"
      using n(2) small by (intro unat_plus_one) (simp add: MAX_CELLS_def)
    then show "0 < line_no loc + 1" by (metis add_is_0 unat_0 word_gt_0 zero_neq_one)
  qed
  have "\<exists>d1. document_insert_line (edoc e) (line_no loc + 1) (drop ?i ?l) = OK d1 \<and>
    doc_rep d1 (insert_at (unat (line_no loc + 1) - 1) (drop ?i ?l)
      (pad_lines (unat (line_no loc + 1) - 1) ls))"
    by (rule document_insert_line_rep [OF d n1(2) _ small]) (use n(2) small n1 in simp)
  then obtain d1 where d1: "document_insert_line (edoc e) (line_no loc + 1) (drop ?i ?l) = OK d1"
    "doc_rep d1 (insert_at ?n (drop ?i ?l) ls)" using n(2) n1 by auto
  have slice: "sstring_slice (cstr_to_sstring ?l) 0 (to_int (idx loc)) = OK (take ?i ?l)"
    using i by (intro sstring_slice_prefix) simp
  obtain d2 where d2: "document_set_line d1 (line_no loc) (take ?i ?l) = OK d2"
    "doc_rep d2 ((insert_at ?n (drop ?i ?l) ls)[?n - 1 := take ?i ?l])"
    using document_set_line_rep [OF d1(2) n(1), of "take ?i ?l"] n(2) by (auto simp: insert_at_def)
  have "(insert_at ?n (drop ?i ?l) ls)[?n - 1 := take ?i ?l] =
      take (?n - 1) ls @ [take ?i ?l, drop ?i ?l] @ drop ?n ls"
    using n(2) n0 take_list_update_Suc [of "?n - 1" ls "take ?i ?l"]
    by (simp add: insert_at_def list_update_append take_update_swap [symmetric])
  then show ?thesis using get guard d1(1) slice d2
    by (auto simp: handle_split_line_def with_doc_def)
qed


lemma handle_merge_line_rep:
  assumes d: "doc_rep (edoc e) (as @ [l1, l2] @ bs)" and n: "unat n = Suc (length as)"
  shows "\<exists>d'. handle_merge_line e n = OK (e\<lparr>edoc := d'\<rparr>) \<and> doc_rep d' (as @ (l1 @ l2) # bs)"
proof -
  let ?ls = "as @ [l1, l2] @ bs"
  have n0: "0 < n" using n by (metis nat.distinct(1) unat_0 word_gt_0)
  have n1: "unat (n + 1) = length as + 2" "0 < n + 1"
  proof -
    show u: "unat (n + 1) = length as + 2"
      using n doc_rep_bound [OF d] by (subst unat_plus_one) (simp_all add: MAX_CELLS_def)
    then show "0 < n + 1" by (metis add_is_0 unat_0 word_gt_0 zero_neq_numeral)
  qed
  have get: "document_get_line (edoc e) n = OK l1" "document_get_line (edoc e) (n + 1) = OK l2"
    using document_get_line_rep [OF d n0] document_get_line_rep [OF d n1(2)] n n1(1)
    by (simp_all add: nth_append)
  obtain d1 where d1: "document_set_line (edoc e) n (l1 @ l2) = OK d1"
    "doc_rep d1 (as @ [l1 @ l2, l2] @ bs)"
    using document_set_line_rep [OF d n0, of "l1 @ l2"] n by (auto simp: list_update_append)
  obtain d2 where d2: "document_delete_line d1 (n + 1) = OK d2" "doc_rep d2 (as @ (l1 @ l2) # bs)"
    using document_delete_line_rep [OF d1(2) n1(2)] n1(1) by (auto simp: numeral_2_eq_2)
  have "n < document_size (edoc e)"
    using document_size_rep [OF d] n by (simp add: word_less_nat_alt)
  then show ?thesis using get d1(1) d2 by (auto simp: handle_merge_line_def with_doc_def)
qed

lemma handle_delete_command_rep:
  assumes d: "doc_rep (edoc e) ls" and n: "0 < line_no loc" "unat (line_no loc) \<le> length ls"
    and i: "unat (idx loc) < 2 ^ 31" "unat (idx loc) + unat num_chars < 2 ^ 64"
      "length (ls ! (unat (line_no loc) - 1)) < 2 ^ 31"
  shows "\<exists>d'. handle_delete_command e loc num_chars = OK (e\<lparr>edoc := d'\<rparr>) \<and>
    doc_rep d' (ls[unat (line_no loc) - 1 :=
      take (unat (idx loc)) (ls ! (unat (line_no loc) - 1)) @
      drop (unat (idx loc) + unat num_chars) (ls ! (unat (line_no loc) - 1))])"
proof -
  let ?n = "unat (line_no loc)" and ?i = "unat (idx loc)" and ?c = "unat num_chars"
  let ?l = "ls ! (?n - 1)"
  have get: "document_get_line (edoc e) (line_no loc) = OK ?l" by (rule document_get_line_rep [OF d n])
  have inside: "\<not> line_no loc > document_size (edoc e)"
    using document_size_rep [OF d] n(2) by (simp add: word_less_nat_alt)
  have len: "unat (strlen ?l) = length ?l" using i(3) by (intro unat_strlen) simp
  have sum: "unat (idx loc + num_chars) = ?i + ?c" using i(2) by (rule unat_add_size_t)
  have slice: "sstring_slice (cstr_to_sstring ?l) 0 (to_int (idx loc)) = OK (take ?i ?l)"
    by (rule sstring_slice_prefix [OF i(1)])
  have set: "\<exists>d'. document_set_line (edoc e) (line_no loc) s = OK d' \<and> doc_rep d' (ls[?n - 1 := s])" for s
    by (rule document_set_line_rep [OF d n])
  show ?thesis
  proof (cases "length ?l \<le> ?i + ?c")
    case True
    then show ?thesis using get inside slice set [of "take ?i ?l"] len sum
      by (auto simp: handle_delete_command_def with_doc_def word_le_nat_alt)
  next
    case False
    have "unat (strlen ?l - num_chars) = length ?l - ?c"
      using len False by (subst unat_sub) (simp_all add: word_le_nat_alt)
    then have "unat (strlen ?l - num_chars + 1) = length ?l - ?c + 1"
      using i(3) by (subst unat_plus_one) simp_all
    then show ?thesis using False get inside slice len sum
        set [of "take ?i ?l @ drop (?i + ?c) ?l"]
      by (auto simp: handle_delete_command_def with_doc_def word_le_nat_alt add.commute)
  qed
qed


section \<open>Search\<close>

lemma strstr_drop_occurs:
  assumes "f \<le> length s"
  shows "strstr (drop f s) t = Some k \<Longrightarrow> occurs_at t (f + k) s"
    and "strstr (drop f s) t = None \<Longrightarrow> f \<le> k \<Longrightarrow> \<not> occurs_at t k s"
proof -
  show "strstr (drop f s) t = Some k \<Longrightarrow> occurs_at t (f + k) s"
    using assms by (auto simp: strstr_Some_iff occurs_at_def add.commute)
  assume none: "strstr (drop f s) t = None" and "f \<le> k"
  show "\<not> occurs_at t k s"
  proof
    assume occ: "occurs_at t k s"
    then have "k - f \<le> length (drop f s)" "drop (k - f) (drop f s) = drop k s"
      using \<open>f \<le> k\<close> by (auto simp: occurs_at_def)
    with none occ show False by (auto simp: strstr_None_iff occurs_at_def)
  qed
qed

text \<open>The line the loop index \<open>i\<close> stands for, and the search in that line from \<open>from\<close> on.\<close>

definition wrap_line :: "nat \<Rightarrow> nat \<Rightarrow> nat" where
  "wrap_line n i = (if i > n then i - n else i)"

lemma search_loop_step:
  assumes d: "doc_rep d ls" and j: "1 \<le> wrap_line (length ls) i" "wrap_line (length ls) i \<le> length ls"
    and len: "length (ls ! (wrap_line (length ls) i - 1)) < 2 ^ 31"
    and f: "f = (if i > unat start \<or> index \<ge> int (length (ls ! (wrap_line (length ls) i - 1)))
                 then 0 else nat (index + 1))" "-1 \<le> index"
  shows "search_loop d start t (i # js) index =
    (case strstr (drop f (ls ! (wrap_line (length ls) i - 1))) t of
       Some k \<Rightarrow> OK \<lparr>line_no = of_nat (wrap_line (length ls) i), idx = of_nat (f + k)\<rparr>
     | None \<Rightarrow> search_loop d start t js (int f - 1))"
    and "f \<le> length (ls ! (wrap_line (length ls) i - 1))"
proof -
  let ?j = "wrap_line (length ls) i"
  let ?l = "ls ! (?j - 1)"
  have u: "unat (of_nat ?j :: size_t) = ?j"
    using j(2) doc_rep_bound [OF d] by (intro unat_of_nat_size_t) (simp add: MAX_CELLS_def)
  then have "(0 :: size_t) < of_nat ?j" using j(1) by (metis not_one_le_zero unat_0 word_gt_0)
  then have get: "document_get_line d (of_nat ?j) = OK ?l"
    using document_get_line_rep [OF d, of "of_nat ?j"] u j by simp
  have sl: "to_int (strlen ?l) = int (length ?l)" using len by (simp add: strlen_def to_int_of_nat)
  show le: "f \<le> length ?l" using f by auto
  define index2 where "index2 = (if i > unat start then -1
    else if index \<ge> to_int (strlen ?l) then -1 else index)"
  have i2: "index2 + 1 = int f" unfolding index2_def sl using f by auto
  have eq: "search_loop d start t (i # js) index =
    (if index2 + 1 < 0 \<or> nat (index2 + 1) > length ?l then Fault Out_Of_Bounds
     else case strstr (drop (nat (index2 + 1)) ?l) t of
         Some k \<Rightarrow> OK \<lparr>line_no = of_nat ?j, idx = of_nat (nat (index2 + 1) + k)\<rparr>
       | None \<Rightarrow> search_loop d start t js index2)"
    by (simp only: search_loop.simps Let_def document_size_rep [OF d] wrap_line_def [symmetric]
        get bindE_simps index2_def [symmetric])
  have i2': "index2 = int f - 1" using i2 by simp
  have "\<not> (int f < 0 \<or> f > length ?l)" using le by simp
  then show "search_loop d start t (i # js) index =
    (case strstr (drop f ?l) t of
       Some k \<Rightarrow> OK \<lparr>line_no = of_nat ?j, idx = of_nat (f + k)\<rparr>
     | None \<Rightarrow> search_loop d start t js (int f - 1))"
    using eq [unfolded i2 nat_int, unfolded i2'] by (simp only: if_False)
qed

lemma search_loop_tail:
  assumes d: "doc_rep d ls" and len: "\<And>l. l \<in> set ls \<Longrightarrow> length l < 2 ^ 31"
    and "\<And>i. i \<in> set js \<Longrightarrow> unat start < i \<and> 1 \<le> wrap_line (length ls) i \<and> wrap_line (length ls) i \<le> length ls"
    and "-1 \<le> index"
  shows "\<exists>loc. search_loop d start t js index = OK loc \<and>
    (loc = \<lparr>line_no = 0, idx = 0\<rparr> \<and>
       (\<forall>i \<in> set js. \<forall>k. \<not> occurs_at t k (ls ! (wrap_line (length ls) i - 1))) \<or>
     (\<exists>i \<in> set js. \<exists>k. loc = \<lparr>line_no = of_nat (wrap_line (length ls) i), idx = of_nat k\<rparr> \<and>
       occurs_at t k (ls ! (wrap_line (length ls) i - 1))))"
  using assms(3,4)
proof (induction js arbitrary: index)
  case (Cons i js)
  let ?l = "ls ! (wrap_line (length ls) i - 1)"
  have j: "1 \<le> wrap_line (length ls) i" "wrap_line (length ls) i \<le> length ls" "unat start < i"
    using Cons.prems(1) [of i] by auto
  then have l: "length ?l < 2 ^ 31" by (intro len nth_mem) linarith
  have step: "search_loop d start t (i # js) index =
    (case strstr (drop 0 ?l) t of
       Some k \<Rightarrow> OK \<lparr>line_no = of_nat (wrap_line (length ls) i), idx = of_nat (0 + k)\<rparr>
     | None \<Rightarrow> search_loop d start t js (int 0 - 1))"
    by (rule search_loop_step(1) [OF d j(1,2) l]) (use j(3) Cons.prems(2) in simp_all)
  show ?case
  proof (cases "strstr ?l t")
    case None
    then have "\<not> occurs_at t k ?l" for k using strstr_drop_occurs(2) [of 0 ?l t k] by simp
    with None Cons.IH [of "-1"] Cons.prems(1) step show ?thesis by auto
  next
    case (Some k)
    then have "occurs_at t k ?l" using strstr_drop_occurs(1) [of 0 ?l t k] by simp
    with Some step show ?thesis by auto
  qed
qed simp


lemma handle_search_command_rep:
  assumes d: "doc_rep (edoc e) ls" and t: "t \<noteq> []"
    and n: "0 < line_no loc" "unat (line_no loc) \<le> length ls"
    and len: "\<And>l. l \<in> set ls \<Longrightarrow> length l < 2 ^ 31" and i: "unat (idx loc) < 2 ^ 31"
    and f: "f = (if length (ls ! (unat (line_no loc) - 1)) \<le> unat (idx loc) then 0
                 else unat (idx loc) + 1)"
  shows "\<exists>loc'. handle_search_command e loc t = OK loc' \<and>
    (loc' = \<lparr>line_no = 0, idx = 0\<rparr> \<and>
       (\<forall>k \<ge> f. \<not> occurs_at t k (ls ! (unat (line_no loc) - 1))) \<and>
       (\<forall>j < length ls. j \<noteq> unat (line_no loc) - 1 \<longrightarrow> (\<forall>k. \<not> occurs_at t k (ls ! j))) \<or>
     (\<exists>j k. loc' = \<lparr>line_no = of_nat j, idx = of_nat k\<rparr> \<and> 1 \<le> j \<and> j \<le> length ls \<and>
       occurs_at t k (ls ! (j - 1))))"
proof -
  let ?s = "unat (line_no loc)" and ?m = "length ls"
  let ?is = "[Suc ?s..<?s + ?m]"
  have s0: "1 \<le> ?s" using line_index_less [OF n] by simp
  have sum: "unat (line_no loc + document_size (edoc e)) = ?s + ?m"
    using document_size_rep [OF d] doc_rep_bound [OF d] n(2)
    by (subst unat_add_size_t) (simp_all add: MAX_CELLS_def)
  have idx: "[?s..<?s + ?m] = ?s # ?is" using n(2) s0 by (intro upt_conv_Cons) linarith
  have wrap: "wrap_line ?m ?s = ?s" using n(2) by (simp add: wrap_line_def)
  have int_i: "to_int (idx loc) = int (unat (idx loc))" using i by (rule to_int_small)
  have step: "search_loop (edoc e) (line_no loc) t (?s # ?is) (to_int (idx loc)) =
    (case strstr (drop f (ls ! (?s - 1))) t of
       Some k \<Rightarrow> OK \<lparr>line_no = of_nat ?s, idx = of_nat (f + k)\<rparr>
     | None \<Rightarrow> search_loop (edoc e) (line_no loc) t ?is (int f - 1))"
  proof -
    obtain x where x: "unat (idx loc) = x" by simp
    have m: "ls ! (?s - 1) \<in> set ls" using s0 n(2) by simp
    have "f = (if ?s > ?s \<or> to_int (idx loc) \<ge> int (length (ls ! (?s - 1)))
                then 0 else nat (to_int (idx loc) + 1))"
      using f unfolding int_i x by auto
    moreover have "-1 \<le> to_int (idx loc)" unfolding int_i x by simp
    ultimately show ?thesis
      using search_loop_step(1) [OF d, of ?s f "line_no loc" "to_int (idx loc)", unfolded wrap,
          OF s0 n(2) len [OF m]] by blast
  qed
  have fl: "f \<le> length (ls ! (?s - 1))" using f by auto
  have run: "handle_search_command e loc t =
      search_loop (edoc e) (line_no loc) t (?s # ?is) (to_int (idx loc))"
    using t sum idx by (simp add: handle_search_command_def)
  show ?thesis
  proof (cases "strstr (drop f (ls ! (?s - 1))) t")
    case (Some k)
    then have "occurs_at t (f + k) (ls ! (?s - 1))" by (rule strstr_drop_occurs(1) [OF fl])
    with Some run step s0 n(2) show ?thesis by auto
  next
    case None
    then have first: "\<forall>k \<ge> f. \<not> occurs_at t k (ls ! (?s - 1))"
      using strstr_drop_occurs(2) [OF fl None] by blast
    have range: "?s < i \<and> 1 \<le> wrap_line ?m i \<and> wrap_line ?m i \<le> ?m" if "i \<in> set ?is" for i
      using that n(2) s0 by (auto simp: wrap_line_def)
    obtain loc' where loc': "search_loop (edoc e) (line_no loc) t ?is (int f - 1) = OK loc'"
      "loc' = \<lparr>line_no = 0, idx = 0\<rparr> \<and>
         (\<forall>i \<in> set ?is. \<forall>k. \<not> occurs_at t k (ls ! (wrap_line ?m i - 1))) \<or>
       (\<exists>i \<in> set ?is. \<exists>k. loc' = \<lparr>line_no = of_nat (wrap_line ?m i), idx = of_nat k\<rparr> \<and>
         occurs_at t k (ls ! (wrap_line ?m i - 1)))"
      using search_loop_tail [where js = ?is and start = "line_no loc" and index = "int f - 1" and t = t,
          OF d len range] by auto
    have cover: "\<exists>i \<in> set ?is. wrap_line ?m i - 1 = j" if "j < ?m" "j \<noteq> ?s - 1" for j
    proof (cases "j < ?s")
      case True
      then show ?thesis using that s0 n(2)
        by (intro bexI [of _ "?m + Suc j"]) (auto simp: wrap_line_def)
    next
      case False
      then show ?thesis using that s0 by (intro bexI [of _ "Suc j"]) (auto simp: wrap_line_def)
    qed
    from loc'(2) show ?thesis
    proof (elim disjE conjE bexE exE)
      assume z: "loc' = \<lparr>line_no = 0, idx = 0\<rparr>"
        and no: "\<forall>i \<in> set ?is. \<forall>k. \<not> occurs_at t k (ls ! (wrap_line ?m i - 1))"
      have "\<forall>j < ?m. j \<noteq> ?s - 1 \<longrightarrow> (\<forall>k. \<not> occurs_at t k (ls ! j))" using cover no by metis
      with first None run step loc'(1) z show ?thesis by auto
    next
      fix i k assume "i \<in> set ?is" "loc' = \<lparr>line_no = of_nat (wrap_line ?m i), idx = of_nat k\<rparr>"
        "occurs_at t k (ls ! (wrap_line ?m i - 1))"
      with range [of i] None run step loc'(1) show ?thesis by auto
    qed
  qed
qed

section \<open>Properties\<close>

text \<open>
  The in-place escape processing of the write command never leaves its buffer and gives
  the same text as the copying loop of the append command, for every line.
\<close>

theorem write_unescape_in_place:
  assumes "NUL \<notin> set line"
  shows "write_unescape line = OK (append_unescape line) \<and>
    length (append_unescape line) \<le> length line"
  by (simp add: write_unescape_eq [OF assms] length_append_unescape)

theorem write_unescape_in_place_witness:
  "write_unescape (''a'' @ [BACKSLASH] @ ''n'' @ [BACKSLASH, BACKSLASH]) = OK (''a'' @ [NL, BACKSLASH]) \<and>
   length (append_unescape (''a'' @ [BACKSLASH] @ ''n'' @ [BACKSLASH, BACKSLASH])) \<le> 5"
  using write_unescape_in_place [of "''a'' @ [BACKSLASH] @ ''n'' @ [BACKSLASH, BACKSLASH]"]
  by (simp add: BACKSLASH_def NUL_def)

text \<open>
  The write command replaces line \<open>n\<close> by the lines of the unescaped text; past the end of
  the document the gap is filled with empty lines first, and no other line changes.
\<close>

theorem handle_write_command_replaces:
  assumes "copies cb" "doc_rep (edoc e) ls" "0 < n" "unat n \<le> MAX_CELLS" "NUL \<notin> set line"
    "length ls < MAX_CELLS"
    "max (unat n) (length ls) + length (strsep_all NL (append_unescape line)) \<le> MAX_CELLS"
  shows "\<exists>d'. handle_write_command cb e n line = OK (e\<lparr>edoc := d'\<rparr>) \<and>
    doc_rep d' (replace_line (unat n) (strsep_all NL (append_unescape line)) ls)"
  using handle_write_command_rep [OF assms] .

theorem handle_write_command_replaces_witness:
  "\<exists>d'. handle_write_command strdup_callbacks \<lparr>edoc = document_create strdup_callbacks, filename = ''f''\<rparr> 2
      (''a'' @ [BACKSLASH] @ ''nb'') = OK \<lparr>edoc = d', filename = ''f''\<rparr> \<and>
    doc_rep d' [[], ''a'', ''b'']"
proof -
  have "strsep_all NL (append_unescape (''a'' @ [BACKSLASH] @ ''nb'')) = [''a'', ''b'']"
    using strsep_all_step [of NL "''a''" "''b''"] strsep_all_nodelim [of NL "''b''"]
    by (simp add: BACKSLASH_def NL_def)
  then show ?thesis
    using handle_write_command_replaces [of strdup_callbacks "\<lparr>edoc = document_create strdup_callbacks, filename = ''f''\<rparr>" "[]" 2
        "''a'' @ [BACKSLASH] @ ''nb''"]
    by (simp add: document_create_rep BACKSLASH_def NUL_def MAX_CELLS_def replace_line_def
        pad_lines_def)
qed

text \<open>
  The append command leaves every other line alone, joins the first line of the unescaped
  text to line \<open>n\<close> and puts the remaining ones below it.
\<close>

theorem handle_append_command_extends:
  assumes "copies cb" "doc_rep (edoc e) ls" "0 < n" "unat n \<le> MAX_CELLS" "length ls < MAX_CELLS"
    "max (unat n) (length ls) + length (strsep_all NL (append_unescape line)) \<le> MAX_CELLS"
  shows "\<exists>d' f fs. handle_append_command cb e n line = OK (e\<lparr>edoc := d'\<rparr>) \<and>
    strsep_all NL (append_unescape line) = f # fs \<and>
    doc_rep d' (replace_line (unat n) ((pad_lines (unat n) ls ! (unat n - 1) @ f) # fs) ls)"
  using handle_append_command_rep [OF assms]
  by (cases "strsep_all NL (append_unescape line)") auto

theorem handle_append_command_extends_witness:
  "\<exists>d'. handle_append_command strdup_callbacks \<lparr>edoc = document_create strdup_callbacks, filename = ''f''\<rparr> 1
      (''a'' @ [BACKSLASH] @ ''nb'') = OK \<lparr>edoc = d', filename = ''f''\<rparr> \<and>
    doc_rep d' [''a'', ''b'']"
proof -
  have "strsep_all NL (append_unescape (''a'' @ [BACKSLASH] @ ''nb'')) = [''a'', ''b'']"
    using strsep_all_step [of NL "''a''" "''b''"] strsep_all_nodelim [of NL "''b''"]
    by (simp add: BACKSLASH_def NL_def)
  then show ?thesis
    using handle_append_command_extends [of strdup_callbacks "\<lparr>edoc = document_create strdup_callbacks, filename = ''f''\<rparr>" "[]" 1
        "''a'' @ [BACKSLASH] @ ''nb''"]
    by (simp add: document_create_rep MAX_CELLS_def replace_line_def pad_lines_def)
qed

text \<open>
  Splitting a line inside its text and merging at the same line gives back the lines the
  document had before.
\<close>

theorem split_then_merge:
  assumes "doc_rep (edoc e) ls" "0 < line_no loc" "unat (line_no loc) \<le> length ls"
    "length ls < MAX_CELLS" "unat (idx loc) < length (ls ! (unat (line_no loc) - 1))"
    "length (ls ! (unat (line_no loc) - 1)) < 2 ^ 31"
  shows "\<exists>e1 e2. handle_split_line e loc = OK e1 \<and> document_size (edoc e1) = document_size (edoc e) + 1 \<and>
    handle_merge_line e1 (line_no loc) = OK e2 \<and> doc_rep (edoc e2) ls \<and> filename e2 = filename e"
proof -
  let ?n = "unat (line_no loc)"
  let ?l = "ls ! (?n - 1)"
  have lt: "?n - 1 < length ls" "?n \<noteq> 0" using line_index_less [OF assms(2,3)] by simp_all
  obtain d1 where d1: "handle_split_line e loc = OK (e\<lparr>edoc := d1\<rparr>)"
    "doc_rep d1 (take (?n - 1) ls @ [take (unat (idx loc)) ?l, drop (unat (idx loc)) ?l] @ drop ?n ls)"
    using handle_split_line_rep [OF assms] by blast
  have n: "unat (line_no loc) = Suc (length (take (?n - 1) ls))" using lt assms(3) by simp
  have whole: "take (?n - 1) ls @ ?l # drop ?n ls = ls"
    using id_take_nth_drop [OF lt(1)] lt(2) by simp
  obtain d2 where d2: "handle_merge_line (e\<lparr>edoc := d1\<rparr>) (line_no loc) = OK (e\<lparr>edoc := d2\<rparr>)"
    "doc_rep d2 ls"
    using handle_merge_line_rep [of "e\<lparr>edoc := d1\<rparr>" "take (?n - 1) ls" "take (unat (idx loc)) ?l"
        "drop (unat (idx loc)) ?l" "drop ?n ls", OF _ n] d1(2) whole by auto
  have "unat (document_size d1) = Suc (length ls)"
    using document_size_rep [OF d1(2)] lt assms(3) by simp
  also have "\<dots> = unat (document_size (edoc e) + 1)"
    using document_size_rep [OF assms(1)] assms(4) by (subst unat_plus_one) (simp_all add: MAX_CELLS_def)
  finally have "document_size d1 = document_size (edoc e) + 1" by (rule word_unat_eq_iff [THEN iffD2])
  with d1 d2 show ?thesis by auto
qed

theorem split_then_merge_witness:
  "\<exists>d e1 e2. document_insert_line (document_create strdup_callbacks) 1 ''hello'' = OK d \<and>
    handle_split_line \<lparr>edoc = d, filename = ''f''\<rparr> \<lparr>line_no = 1, idx = 2\<rparr> = OK e1 \<and>
    handle_merge_line e1 1 = OK e2 \<and> doc_rep (edoc e2) [''hello'']"
proof -
  obtain d where d: "document_insert_line (document_create strdup_callbacks) 1 ''hello'' = OK d" "doc_rep d [''hello'']"
    using document_insert_line_rep [OF document_create_rep [OF strdup_copies], of 1 "''hello''"]
    by (auto simp: MAX_CELLS_def insert_at_def pad_lines_def)
  then show ?thesis
    using split_then_merge [of "\<lparr>edoc = d, filename = ''f''\<rparr>" "[''hello'']" "\<lparr>line_no = 1, idx = 2\<rparr>"]
    by (auto simp: MAX_CELLS_def)
qed

text \<open>
  A search for a non-empty string returns; a location other than (0, 0) is an occurrence
  of the string, and (0, 0) means that no other line has one and that the starting line has
  none from the position after \<open>loc\<close> on (from its beginning when \<open>loc\<close> is past its end).
\<close>

theorem handle_search_command_finds:
  assumes "doc_rep (edoc e) ls" "t \<noteq> []" "0 < line_no loc" "unat (line_no loc) \<le> length ls"
    "\<And>l. l \<in> set ls \<Longrightarrow> length l < 2 ^ 31" "unat (idx loc) < 2 ^ 31"
  shows "\<exists>loc'. handle_search_command e loc t = OK loc' \<and>
    (loc' = \<lparr>line_no = 0, idx = 0\<rparr> \<and>
       (\<forall>k \<ge> (if length (ls ! (unat (line_no loc) - 1)) \<le> unat (idx loc) then 0
              else unat (idx loc) + 1). \<not> occurs_at t k (ls ! (unat (line_no loc) - 1))) \<and>
       (\<forall>j < length ls. j \<noteq> unat (line_no loc) - 1 \<longrightarrow> (\<forall>k. \<not> occurs_at t k (ls ! j))) \<or>
     (\<exists>j k. loc' = \<lparr>line_no = of_nat j, idx = of_nat k\<rparr> \<and> 1 \<le> j \<and> j \<le> length ls \<and>
       occurs_at t k (ls ! (j - 1))))"
  by (rule handle_search_command_rep [OF assms refl])

theorem handle_search_command_finds_witness:
  "\<exists>d. document_insert_line (document_create strdup_callbacks) 1 ''hello'' = OK d \<and>
    (\<exists>loc'. handle_search_command \<lparr>edoc = d, filename = ''f''\<rparr> \<lparr>line_no = 1, idx = 0\<rparr> ''l'' = OK loc' \<and>
      loc' \<noteq> \<lparr>line_no = 0, idx = 0\<rparr>)"
proof -
  obtain d where d: "document_insert_line (document_create strdup_callbacks) 1 ''hello'' = OK d" "doc_rep d [''hello'']"
    using document_insert_line_rep [OF document_create_rep [OF strdup_copies], of 1 "''hello''"]
    by (auto simp: MAX_CELLS_def insert_at_def pad_lines_def)
  have occ: "occurs_at ''l'' 2 ''hello''" by (simp add: occurs_at_def eval_nat_numeral)
  from handle_search_command_finds [of "\<lparr>edoc = d, filename = ''f''\<rparr>" "[''hello'']" "''l''"
      "\<lparr>line_no = 1, idx = 0\<rparr>"] d(2)
  obtain loc' where "handle_search_command \<lparr>edoc = d, filename = ''f''\<rparr> \<lparr>line_no = 1, idx = 0\<rparr> ''l'' = OK loc'"
    "loc' = \<lparr>line_no = 0, idx = 0\<rparr> \<and> (\<forall>k \<ge> 1. \<not> occurs_at ''l'' k ''hello'') \<or> line_no loc' = 1"
    by (auto simp: le_Suc_eq)
  moreover from this(2) occ have "loc' \<noteq> \<lparr>line_no = 0, idx = 0\<rparr>" by force
  ultimately show ?thesis using d(1) by blast
qed

text \<open>
  The delete command removes the characters from \<open>idx\<close> up to \<open>idx + num_chars\<close>, or up to the
  end of the line when it is shorter, and changes no other line.
\<close>

theorem handle_delete_command_removes:
  assumes "doc_rep (edoc e) ls" "0 < line_no loc" "unat (line_no loc) \<le> length ls"
    "unat (idx loc) < 2 ^ 31" "unat (idx loc) + unat num_chars < 2 ^ 64"
    "length (ls ! (unat (line_no loc) - 1)) < 2 ^ 31"
  shows "\<exists>d'. handle_delete_command e loc num_chars = OK (e\<lparr>edoc := d'\<rparr>) \<and>
    doc_rep d' (ls[unat (line_no loc) - 1 :=
      take (unat (idx loc)) (ls ! (unat (line_no loc) - 1)) @
      drop (unat (idx loc) + unat num_chars) (ls ! (unat (line_no loc) - 1))])"
  by (rule handle_delete_command_rep [OF assms])

theorem handle_delete_command_removes_witness:
  "\<exists>d d'. document_insert_line (document_create strdup_callbacks) 1 ''hello'' = OK d \<and>
    handle_delete_command \<lparr>edoc = d, filename = ''f''\<rparr> \<lparr>line_no = 1, idx = 1\<rparr> 3 =
      OK \<lparr>edoc = d', filename = ''f''\<rparr> \<and> doc_rep d' [''ho'']"
proof -
  obtain d where d: "document_insert_line (document_create strdup_callbacks) 1 ''hello'' = OK d" "doc_rep d [''hello'']"
    using document_insert_line_rep [OF document_create_rep [OF strdup_copies], of 1 "''hello''"]
    by (auto simp: MAX_CELLS_def insert_at_def pad_lines_def)
  then show ?thesis
    using handle_delete_command_removes [of "\<lparr>edoc = d, filename = ''f''\<rparr>" "[''hello'']"
        "\<lparr>line_no = 1, idx = 1\<rparr>" 3]
    by auto
qed

end
