(* ===== verification/Monitor.thy ===== *)
theory Monitor
  imports Prelude
begin

text \<open>
  Threads that share a structure guarded by one mutex and one condition variable, the form of
  every operation of \<open>critical_concurrency/queue.c\<close>, \<open>semamore.c\<close> and \<open>barrier.c\<close>: lock, wait
  in a loop while a condition holds, run a critical section, unlock. A program says when an
  operation waits and what its critical section does; the step relation interleaves any
  number of threads at the pthread calls. The locales state what a structure has to show of
  its critical sections alone, and derive invariants and absence of lost wakeups.
\<close>

section \<open>The model\<close>

type_synonym tid = nat

text \<open>The wakeups of a critical section: none, \<open>pthread_cond_signal\<close>, \<open>pthread_cond_broadcast\<close>.\<close>

datatype wake = Nobody | One | Everybody

text \<open>
  \<open>blocks\<close> is the condition of the wait loop, \<open>body\<close> the critical section after it: the new
  state, its wakeups, and the operation whose wait loop follows under the same lock, if any.
  \<open>choice\<close> limits the values the environment passes to the critical section, such as the
  address \<open>malloc\<close> returns. \<open>after\<close> is the wakeup after the unlock and \<open>entry\<close> tells which
  operations a thread may call.
\<close>

record ('op, 'a, 's) monitor_program =
  entry :: "'op \<Rightarrow> bool"
  blocks :: "'op \<Rightarrow> 's \<Rightarrow> bool"
  choice :: "'op \<Rightarrow> 'a \<Rightarrow> 's \<Rightarrow> bool"
  body :: "'op \<Rightarrow> 'a \<Rightarrow> 's \<Rightarrow> ('s \<times> wake \<times> 'op option) res"
  after :: "'op \<Rightarrow> wake"

datatype 'op pc = Idle | Entering 'op | Holding 'op | Asleep 'op | Woken 'op
  | Unlocking 'op | Notifying wake

record ('op, 's) monitor =
  mutex :: "tid option"
  pcs :: "tid \<Rightarrow> 'op pc"
  shared :: 's
  crashed :: bool

definition monitor_init :: "'s \<Rightarrow> ('op, 's) monitor" where
  "monitor_init s = \<lparr>mutex = None, pcs = (\<lambda>_. Idle), shared = s, crashed = False\<rparr>"

fun rouse :: "'op pc \<Rightarrow> 'op pc" where
  "rouse (Asleep x) = Woken x"
| "rouse p = p"

text \<open>A signal wakes a sleeping thread if there is one; a broadcast wakes all of them.\<close>

fun wakes :: "wake \<Rightarrow> (tid \<Rightarrow> 'op pc) \<Rightarrow> (tid \<Rightarrow> 'op pc) \<Rightarrow> bool" where
  "wakes Nobody f g \<longleftrightarrow> g = f"
| "wakes One f g \<longleftrightarrow> (\<exists>t x. f t = Asleep x \<and> g = f(t := Woken x)) \<or>
     ((\<forall>t x. f t \<noteq> Asleep x) \<and> g = f)"
| "wakes Everybody f g \<longleftrightarrow> g = rouse \<circ> f"

text \<open>
  \<open>pthread_cond_wait\<close> releases the mutex and sleeps in one step and takes the mutex again
  before it returns; it may return without a wakeup.
\<close>

inductive mstep :: "('op, 'a, 's) monitor_program \<Rightarrow> ('op, 's) monitor \<Rightarrow> ('op, 's) monitor \<Rightarrow> bool"
  for P :: "('op, 'a, 's) monitor_program" where
  call: "pcs m t = Idle \<Longrightarrow> entry P x \<Longrightarrow> mstep P m (m\<lparr>pcs := (pcs m)(t := Entering x)\<rparr>)"
| lock: "pcs m t = Entering x \<Longrightarrow> mutex m = None \<Longrightarrow>
    mstep P m (m\<lparr>mutex := Some t, pcs := (pcs m)(t := Holding x)\<rparr>)"
| sleep: "pcs m t = Holding x \<Longrightarrow> blocks P x (shared m) \<Longrightarrow>
    mstep P m (m\<lparr>mutex := None, pcs := (pcs m)(t := Asleep x)\<rparr>)"
| run: "pcs m t = Holding x \<Longrightarrow> \<not> blocks P x (shared m) \<Longrightarrow> choice P x a (shared m) \<Longrightarrow>
    body P x a (shared m) = OK (s', w, n) \<Longrightarrow> wakes w (pcs m) f \<Longrightarrow>
    mstep P m (m\<lparr>shared := s',
      pcs := f(t := (case n of None \<Rightarrow> Unlocking x | Some y \<Rightarrow> Holding y))\<rparr>)"
| crash: "pcs m t = Holding x \<Longrightarrow> \<not> blocks P x (shared m) \<Longrightarrow> choice P x a (shared m) \<Longrightarrow>
    body P x a (shared m) = Fault e \<Longrightarrow> mstep P m (m\<lparr>crashed := True\<rparr>)"
| unlock: "pcs m t = Unlocking x \<Longrightarrow>
    mstep P m (m\<lparr>mutex := None,
      pcs := (pcs m)(t := (if after P x = Nobody then Idle else Notifying (after P x)))\<rparr>)"
| notify: "pcs m t = Notifying w \<Longrightarrow> wakes w (pcs m) f \<Longrightarrow>
    mstep P m (m\<lparr>pcs := f(t := Idle)\<rparr>)"
| reacquire: "pcs m t = Woken x \<Longrightarrow> mutex m = None \<Longrightarrow>
    mstep P m (m\<lparr>mutex := Some t, pcs := (pcs m)(t := Holding x)\<rparr>)"
| spurious: "pcs m t = Asleep x \<Longrightarrow> mstep P m (m\<lparr>pcs := (pcs m)(t := Woken x)\<rparr>)"

abbreviation msteps :: "('op, 'a, 's) monitor_program \<Rightarrow> ('op, 's) monitor \<Rightarrow> ('op, 's) monitor \<Rightarrow> bool"
  where "msteps P \<equiv> (mstep P)\<^sup>*\<^sup>*"

section \<open>Specification\<close>

text \<open>The operation a thread is still to perform, and the threads inside the lock.\<close>

fun pending :: "'op pc \<Rightarrow> 'op option" where
  "pending (Entering x) = Some x"
| "pending (Holding x) = Some x"
| "pending (Asleep x) = Some x"
| "pending (Woken x) = Some x"
| "pending _ = None"

definition pendings :: "(tid \<Rightarrow> 'op pc) \<Rightarrow> tid \<Rightarrow> 'op option" where
  "pendings f = (\<lambda>t. pending (f t))"

fun inside :: "'op pc \<Rightarrow> bool" where
  "inside (Holding x) = True"
| "inside (Unlocking x) = True"
| "inside _ = False"

definition mutex_ok :: "('op, 's) monitor \<Rightarrow> bool" where
  "mutex_ok m \<longleftrightarrow> (\<forall>t. inside (pcs m t) \<longleftrightarrow> mutex m = Some t)"

text \<open>No thread can act until one is called: every thread is idle or asleep.\<close>

definition quiescent :: "('op, 's) monitor \<Rightarrow> bool" where
  "quiescent m \<longleftrightarrow> (\<forall>t. pcs m t = Idle \<or> (\<exists>x. pcs m t = Asleep x))"

definition monitor_inv :: "((tid \<Rightarrow> 'op option) \<Rightarrow> 's \<Rightarrow> bool) \<Rightarrow> ('op, 's) monitor \<Rightarrow> bool" where
  "monitor_inv I m \<longleftrightarrow> mutex_ok m \<and> I (pendings (pcs m)) (shared m) \<and> \<not> crashed m"

text \<open>A broadcast is under way, and every sleeper whose wait is over relies on one.\<close>

definition wakeup_due :: "('op, 'a, 's) monitor_program \<Rightarrow> ('op, 's) monitor \<Rightarrow> bool" where
  "wakeup_due P m \<longleftrightarrow> (\<exists>u. pcs m u = Notifying Everybody \<or>
     (\<exists>x. pcs m u = Unlocking x \<and> after P x = Everybody))"

definition awake_inv :: "('op, 'a, 's) monitor_program \<Rightarrow> ('op, 's) monitor \<Rightarrow> bool" where
  "awake_inv P m \<longleftrightarrow>
     (\<forall>t x. pcs m t = Asleep x \<longrightarrow> \<not> blocks P x (shared m) \<longrightarrow> wakeup_due P m)"

section \<open>Lemmas\<close>

lemma pending_rouse [simp]: "pending (rouse p) = pending p"
  by (cases p) simp_all

lemma inside_rouse [simp]: "inside (rouse p) = inside p"
  by (cases p) simp_all

lemma wakes_pendings: "wakes w f g \<Longrightarrow> pendings g = pendings f"
  by (cases w) (auto simp: fun_eq_iff pendings_def)

lemma wakes_inside: "wakes w f g \<Longrightarrow> inside (g t) = inside (f t)"
  by (cases w) (auto split: if_splits)

lemma wakes_asleep: "wakes w f g \<Longrightarrow> g t = Asleep x \<Longrightarrow> f t = Asleep x \<and> w \<noteq> Everybody"
proof (cases w)
  case Everybody
  moreover assume "wakes w f g" "g t = Asleep x"
  ultimately show ?thesis by (cases "f t") auto
qed (auto split: if_splits)

lemma wakes_other:
  assumes "wakes w f g" "\<forall>x. f t \<noteq> Asleep x"
  shows "g t = f t"
proof (cases w)
  case Everybody
  with assms show ?thesis by (cases "f t") auto
qed (use assms in auto)

lemma pendings_upd:
  "pendings (f(t := p)) = (pendings f)(t := pending p)"
  "pendings (\<lambda>u. if u = t then p else f u) = (pendings f)(t := pending p)"
  by (simp_all add: fun_eq_iff pendings_def)

lemma pendings_same: "pending p = pending (f t) \<Longrightarrow> pendings (f(t := p)) = pendings f"
  by (auto simp: fun_eq_iff pendings_def)

lemma pendings_apply: "pendings f t = pending (f t)"
  by (simp add: pendings_def)

lemma mstep_mutex_ok:
  assumes "mstep P m m'" "mutex_ok m"
  shows "mutex_ok m'"
  using assms
proof (induction rule: mstep.induct)
  case (run m t x a s' w n f)
  then have "\<forall>u. inside (f u) \<longleftrightarrow> mutex m = Some u" "mutex m = Some t"
    by (simp add: wakes_inside mutex_ok_def, metis inside.simps(1) mutex_ok_def)
  then show ?case by (cases n) (simp_all add: mutex_ok_def)
next
  case (notify m t w f)
  then have "\<forall>u. inside (f u) \<longleftrightarrow> mutex m = Some u" "mutex m \<noteq> Some t"
    by (simp add: wakes_inside mutex_ok_def, metis inside.simps(7) mutex_ok_def notify(1,3))
  then show ?case by (simp add: mutex_ok_def)
qed (simp_all add: mutex_ok_def, (metis inside.simps option.inject)+)

lemma monitor_init_mutex_ok: "mutex_ok (monitor_init s)"
  by (simp add: mutex_ok_def monitor_init_def)

lemma msteps_mutex_ok: "msteps P (monitor_init s) m \<Longrightarrow> mutex_ok m"
  by (induction rule: rtranclp_induct) (auto simp: monitor_init_mutex_ok intro: mstep_mutex_ok)

lemma mutex_exclusive: "mutex_ok m \<Longrightarrow> inside (pcs m t) \<Longrightarrow> inside (pcs m u) \<Longrightarrow> t = u"
  by (simp add: mutex_ok_def)

lemma wakes_notifying: "wakes w f g \<Longrightarrow> g t = Notifying v \<Longrightarrow> f t = Notifying v"
proof (cases w)
  case Everybody
  moreover assume "wakes w f g" "g t = Notifying v"
  ultimately show ?thesis by (cases "f t") auto
qed (auto split: if_splits)

text \<open>Without wakeups after the unlock no thread is ever between the two.\<close>

lemma msteps_not_notifying:
  assumes "msteps P (monitor_init s) m" "\<And>x. after P x = Nobody"
  shows "pcs m t \<noteq> Notifying v"
  using assms(1)
proof (induction arbitrary: t rule: rtranclp_induct)
  case (step m m')
  from step(2,3) show ?case
  proof (induction rule: mstep.induct)
    case (run m u x a s' w n f)
    then show ?case using wakes_notifying [OF run(5), of t] by (auto split: option.splits)
  next
    case (notify m u w f)
    then show ?case using wakes_notifying [OF notify(2), of t] by auto
  qed (use assms(2) in auto)
qed (simp add: monitor_init_def)

lemma msteps_call_lock:
  assumes "pcs m t = Idle" "mutex m = None" "entry P x"
  shows "msteps P m (m\<lparr>mutex := Some t, pcs := (pcs m)(t := Holding x)\<rparr>)"
proof -
  have "mstep P m (m\<lparr>pcs := (pcs m)(t := Entering x)\<rparr>)" using assms by (intro mstep.call)
  moreover have "mstep P (m\<lparr>pcs := (pcs m)(t := Entering x)\<rparr>)
      (m\<lparr>mutex := Some t, pcs := (pcs m)(t := Holding x)\<rparr>)"
    using mstep.lock [of "m\<lparr>pcs := (pcs m)(t := Entering x)\<rparr>" t x P] assms(2) by simp
  ultimately show ?thesis by simp
qed

lemma msteps_sleep:
  assumes "pcs m t = Idle" "mutex m = None" "entry P x" "blocks P x (shared m)"
  shows "msteps P m (m\<lparr>pcs := (pcs m)(t := Asleep x)\<rparr>)"
proof -
  let ?m = "m\<lparr>mutex := Some t, pcs := (pcs m)(t := Holding x)\<rparr>"
  have "mstep P ?m (m\<lparr>pcs := (pcs m)(t := Asleep x)\<rparr>)"
    using mstep.sleep [of ?m t x P] assms(2,4) by (cases m) simp
  with msteps_call_lock [of m t P x] assms(1-3) show ?thesis by (meson rtranclp.rtrancl_into_rtrancl)
qed

lemma msteps_retry:
  assumes "pcs m t = Woken x" "mutex m = None" "blocks P x (shared m)"
  shows "msteps P m (m\<lparr>pcs := (pcs m)(t := Asleep x)\<rparr>)"
proof -
  let ?m = "m\<lparr>mutex := Some t, pcs := (pcs m)(t := Holding x)\<rparr>"
  have "mstep P m ?m" using assms by (intro mstep.reacquire)
  moreover have "mstep P ?m (m\<lparr>pcs := (pcs m)(t := Asleep x)\<rparr>)"
    using mstep.sleep [of ?m t x P] assms(2,3) by (cases m) simp
  ultimately show ?thesis by (meson r_into_rtranclp rtranclp.rtrancl_into_rtrancl)
qed

lemma msteps_run:
  assumes "pcs m t = Idle" "mutex m = None" "entry P x" "\<not> blocks P x (shared m)"
    "choice P x a (shared m)" "body P x a (shared m) = OK (s', w, None)" "after P x = Nobody"
    "wakes w ((pcs m)(t := Holding x)) f" "g = f(t := Idle)"
  shows "msteps P m (m\<lparr>shared := s', pcs := g\<rparr>)"
proof -
  let ?m = "m\<lparr>mutex := Some t, pcs := (pcs m)(t := Holding x)\<rparr>"
  let ?u = "m\<lparr>mutex := Some t, shared := s', pcs := f(t := Unlocking x)\<rparr>"
  have "mstep P ?m ?u"
    using mstep.run [of ?m t x P a s' w None f] assms by simp
  moreover have "mstep P ?u (m\<lparr>shared := s', pcs := g\<rparr>)"
    using mstep.unlock [of ?u t x P] assms(2,7,9) by (cases m) simp
  ultimately show ?thesis using msteps_call_lock [of m t P x] assms(1-3)
    by (meson rtranclp.rtrancl_into_rtrancl)
qed

section \<open>Invariants of a monitor\<close>

text \<open>
  What a structure shows of its critical sections: an invariant over the shared state and the
  operations the threads are still to perform, kept by a call and by a critical section, which
  runs without a fault. Interleaving, sleeping and waking are then dealt with once.
\<close>

locale monitor_invariant =
  fixes P :: "('op, 'a, 's) monitor_program" and s0 :: 's
    and I :: "(tid \<Rightarrow> 'op option) \<Rightarrow> 's \<Rightarrow> bool"
  assumes init_law: "I (\<lambda>_. None) s0"
    and call_law: "I c s \<Longrightarrow> c t = None \<Longrightarrow> entry P x \<Longrightarrow> I (c(t \<mapsto> x)) s"
    and run_law: "I c s \<Longrightarrow> c t = Some x \<Longrightarrow> \<not> blocks P x s \<Longrightarrow> choice P x a s \<Longrightarrow>
      \<exists>s' w n. body P x a s = OK (s', w, n) \<and> I (c(t := n)) s'"
begin

lemma step_inv:
  assumes "mstep P m m'" "monitor_inv I m"
  shows "monitor_inv I m'"
proof -
  have "mutex_ok m'" using assms mstep_mutex_ok by (auto simp: monitor_inv_def)
  moreover have "I (pendings (pcs m')) (shared m') \<and> \<not> crashed m'"
    using assms
  proof (induction rule: mstep.induct)
    case (call m t x)
    then have "I ((pendings (pcs m))(t \<mapsto> x)) (shared m)"
      by (intro call_law) (simp_all add: monitor_inv_def pendings_apply)
    with call.prems show ?case
      by (simp add: monitor_inv_def pendings_upd del: fun_upd_apply)
  next
    case (run m t x a s' w n f)
    then have "I ((pendings (pcs m))(t := n)) s'"
      using run_law [of "pendings (pcs m)" "shared m" t x a] by (simp add: monitor_inv_def pendings_apply)
    then show ?case using run wakes_pendings [of w "pcs m" f]
      by (cases n) (simp_all add: monitor_inv_def pendings_upd del: fun_upd_apply)
  next
    case (crash m t x a e)
    then show ?case using run_law [of "pendings (pcs m)" "shared m" t x a] by (simp add: monitor_inv_def pendings_apply)
  next
    case (notify m t w f)
    moreover have "pending (f t) = None"
      using notify(1) wakes_pendings [OF notify(2)] by (metis pending.simps(7) pendings_apply)
    ultimately show ?case using wakes_pendings [OF notify(2)]
      by (simp add: monitor_inv_def pendings_same del: fun_upd_apply)
  qed (simp_all add: monitor_inv_def pendings_same del: fun_upd_apply)
  ultimately show ?thesis by (simp add: monitor_inv_def)
qed

lemma reachable_inv: "msteps P (monitor_init s0) m \<Longrightarrow> monitor_inv I m"
proof (induction rule: rtranclp_induct)
  case base
  show ?case using init_law
    by (simp add: monitor_inv_def monitor_init_mutex_ok) (simp add: monitor_init_def pendings_def)
qed (rule step_inv)

lemma reachable_I:
  assumes "msteps P (monitor_init s0) m"
  shows "I (pendings (pcs m)) (shared m)" "\<not> crashed m"
  using reachable_inv [OF assms] by (simp_all add: monitor_inv_def)

end

section \<open>No lost wakeups\<close>

text \<open>
  When a critical section ends the wait of another operation it broadcasts, then or after
  the unlock. Then a thread that sleeps although its condition no longer holds is about to be
  woken by a broadcast that is already under way.
\<close>

locale monitor_wakeup = monitor_invariant P s0 I
  for P :: "('op, 'a, 's) monitor_program" and s0 I +
  assumes wake_law: "I c s \<Longrightarrow> c t = Some x \<Longrightarrow> \<not> blocks P x s \<Longrightarrow> choice P x a s \<Longrightarrow>
      body P x a s = OK (s', w, n) \<Longrightarrow> blocks P y s \<Longrightarrow> \<not> blocks P y s' \<Longrightarrow>
      w = Everybody \<or> n = None \<and> after P x = Everybody"
begin

lemma wakeup_due_wakes:
  assumes f: "wakes w (pcs m) f" and "wakeup_due P m" and t: "\<And>x. pcs m t \<noteq> Unlocking x" "pcs m t \<noteq> Notifying Everybody"
  shows "wakeup_due P (m\<lparr>shared := s', pcs := f(t := p)\<rparr>)"
proof -
  from assms(2) obtain u where u: "pcs m u = Notifying Everybody \<or>
     (\<exists>x. pcs m u = Unlocking x \<and> after P x = Everybody)" by (auto simp: wakeup_due_def)
  then have "f u = pcs m u" "u \<noteq> t" using wakes_other [OF f, of u] t by auto
  with u show ?thesis by (auto simp: wakeup_due_def intro!: exI [of _ u])
qed

lemma run_awake:
  assumes I: "I (pendings (pcs m)) (shared m)" and "awake_inv P m"
    and x: "pcs m t = Holding x" "\<not> blocks P x (shared m)" "choice P x a (shared m)"
    and body: "body P x a (shared m) = OK (s', w, n)" and f: "wakes w (pcs m) f"
  shows "awake_inv P (m\<lparr>shared := s', pcs := f(t := (case n of None \<Rightarrow> Unlocking x | Some y \<Rightarrow> Holding y))\<rparr>)"
    (is "awake_inv P ?m'")
  unfolding awake_inv_def
proof (intro allI impI)
  fix u y assume asleep: "pcs ?m' u = Asleep y" and free: "\<not> blocks P y (shared ?m')"
  then have u: "u \<noteq> t" "f u = Asleep y" by (auto split: option.splits if_splits)
  then have s: "pcs m u = Asleep y" "w \<noteq> Everybody" using wakes_asleep [OF f] by auto
  show "wakeup_due P ?m'"
  proof (cases "blocks P y (shared m)")
    case True
    then have "n = None \<and> after P x = Everybody"
      using wake_law [OF I, of t x a s' w n y] x body free s(2) by (auto simp: pendings_apply)
    then show ?thesis by (auto simp: wakeup_due_def)
  next
    case False
    with \<open>awake_inv P m\<close> s(1) have due: "wakeup_due P m" by (auto simp: awake_inv_def)
    show ?thesis by (rule wakeup_due_wakes [OF f due]) (use x(1) in auto)
  qed
qed

lemma awake_inv_upd:
  assumes "awake_inv P m" "pcs m' = (pcs m)(t := p)" "shared m' = shared m"
    "\<And>x. pcs m t \<noteq> Unlocking x" "\<And>w. pcs m t \<noteq> Notifying w"
    "\<And>x. p = Asleep x \<Longrightarrow> blocks P x (shared m)"
  shows "awake_inv P m'"
  using assms unfolding awake_inv_def wakeup_due_def by (metis fun_upd_apply)

lemma step_awake:
  assumes "mstep P m m'" "monitor_inv I m" "awake_inv P m"
  shows "awake_inv P m'"
  using assms
proof (induction rule: mstep.induct)
  case (run m t x a s' w n f)
  then show ?case by (intro run_awake) (auto simp: monitor_inv_def)
next
  case (notify m t w f)
  show ?case unfolding awake_inv_def
  proof (intro allI impI)
    fix u y assume "pcs (m\<lparr>pcs := f(t := Idle)\<rparr>) u = Asleep y" "\<not> blocks P y (shared (m\<lparr>pcs := f(t := Idle)\<rparr>))"
    then have u: "pcs m u = Asleep y" "w \<noteq> Everybody" "wakeup_due P m"
      using wakes_asleep [OF notify(2)] notify(4) by (auto simp: awake_inv_def split: if_splits)
    then show "wakeup_due P (m\<lparr>pcs := f(t := Idle)\<rparr>)"
      using wakeup_due_wakes [OF notify(2), of t Idle "shared m"] notify(1) by simp
  qed
next
  case (unlock m t x)
  show ?case unfolding awake_inv_def
  proof (intro allI impI)
    fix u y assume "pcs (m\<lparr>mutex := None, pcs := (pcs m)(t := if after P x = Nobody then Idle else Notifying (after P x))\<rparr>) u = Asleep y"
      "\<not> blocks P y (shared (m\<lparr>mutex := None, pcs := (pcs m)(t := if after P x = Nobody then Idle else Notifying (after P x))\<rparr>))"
    then have "wakeup_due P m" using unlock by (auto simp: awake_inv_def split: if_splits)
    then obtain v where "pcs m v = Notifying Everybody \<or> (\<exists>x. pcs m v = Unlocking x \<and> after P x = Everybody)"
      by (auto simp: wakeup_due_def)
    then show "wakeup_due P (m\<lparr>mutex := None, pcs := (pcs m)(t := if after P x = Nobody then Idle else Notifying (after P x))\<rparr>)"
      using unlock(1) by (auto simp: wakeup_due_def intro!: exI [of _ v])
  qed
next
  case (crash m t x a e)
  then show ?case by (simp add: awake_inv_def wakeup_due_def)
qed (auto intro: awake_inv_upd)

lemma reachable_awake: "msteps P (monitor_init s0) m \<Longrightarrow> awake_inv P m"
proof (induction rule: rtranclp_induct)
  case base
  show ?case by (simp add: awake_inv_def monitor_init_def)
next
  case (step m m')
  then show ?case using reachable_inv step_awake by blast
qed

lemma sleeper_blocked:
  assumes "msteps P (monitor_init s0) m" "pcs m t = Asleep x" "\<not> wakeup_due P m"
  shows "blocks P x (shared m)"
  using reachable_awake [OF assms(1)] assms(2,3) by (auto simp: awake_inv_def)

lemma quiescent_blocked:
  assumes "msteps P (monitor_init s0) m" "quiescent m" "pcs m t = Asleep x"
  shows "blocks P x (shared m)"
proof (rule sleeper_blocked [OF assms(1,3)])
  show "\<not> wakeup_due P m"
    using assms(2) unfolding wakeup_due_def quiescent_def by (metis pc.distinct)
qed

end

end
