(* ===== verification/Queue.thy ===== *)
theory Queue
  imports Monitor
begin

text \<open>
  The bounded blocking queue of \<open>critical_concurrency/queue.c\<close>: a linked list of nodes on the
  heap, whose push and pull are monitor operations on one condition variable. It keeps the
  order of its elements, never exceeds its bound, leaks no node and loses no wakeup.
\<close>

section \<open>The model\<close>

type_synonym addr = nat

record 'd queue_node =
  node_data :: 'd
  node_next :: "addr option"

text \<open>
  \<open>nodes\<close> is the part of the heap that holds the queue's nodes. \<open>pushed\<close> and \<open>pulled\<close> are the
  history of the data put in and taken out.
\<close>

record 'd queue =
  head :: "addr option"
  tail :: "addr option"
  qsize :: int
  max_size :: int
  nodes :: "addr \<rightharpoonup> 'd queue_node"
  pushed :: "'d list"
  pulled :: "'d list"

datatype 'd queue_op = Queue_Push 'd | Queue_Pull

definition c_ssize :: "int \<Rightarrow> int res" where
  "c_ssize x = (if - (2 ^ 63) \<le> x \<and> x < 2 ^ 63 then OK x else Fault Int_Overflow)"

text \<open>\<open>malloc\<close> returns an aligned address that is not in use.\<close>

definition malloc_ok :: "addr \<Rightarrow> (addr \<rightharpoonup> 'n) \<Rightarrow> bool" where
  "malloc_ok p h \<longleftrightarrow> h p = None \<and> 16 dvd p \<and> p < 2 ^ 64"

definition deref :: "(addr \<rightharpoonup> 'n) \<Rightarrow> addr option \<Rightarrow> 'n res" where
  "deref h p = (case p of None \<Rightarrow> Fault Null_Deref
     | Some a \<Rightarrow> (case h a of None \<Rightarrow> Fault Out_Of_Bounds | Some n \<Rightarrow> OK n))"

definition queue_create :: "int \<Rightarrow> 'd queue" where
  "queue_create mx = \<lparr>head = None, tail = None, qsize = 0, max_size = mx,
     nodes = Map.empty, pushed = [], pulled = []\<rparr>"

text \<open>The loop of \<open>queue_destroy\<close>: read the next pointer of a node, then free the node.\<close>

partial_function (option) free_nodes ::
  "(addr \<rightharpoonup> 'd queue_node) \<Rightarrow> addr option \<Rightarrow> (addr \<rightharpoonup> 'd queue_node) res option" where
  "free_nodes h tmp = (case tmp of
      None \<Rightarrow> Some (OK h)
    | Some a \<Rightarrow> (case h a of
        None \<Rightarrow> Some (Fault Out_Of_Bounds)
      | Some n \<Rightarrow> free_nodes (h(a := None)) (node_next n)))"

definition queue_destroy :: "'d queue \<Rightarrow> (addr \<rightharpoonup> 'd queue_node) res option" where
  "queue_destroy q = free_nodes (nodes q) (head q)"

text \<open>The wait loops of \<open>queue_push\<close> and \<open>queue_pull\<close>, and the critical sections after them.\<close>

fun queue_blocks :: "'d queue_op \<Rightarrow> 'd queue \<Rightarrow> bool" where
  "queue_blocks (Queue_Push d) q \<longleftrightarrow> max_size q > 0 \<and> qsize q = max_size q"
| "queue_blocks Queue_Pull q \<longleftrightarrow> qsize q = 0"

definition queue_push :: "'d \<Rightarrow> addr \<Rightarrow> 'd queue \<Rightarrow> ('d queue \<times> wake) res" where
  "queue_push d newnode q =
     (let h = (nodes q)(newnode \<mapsto> \<lparr>node_data = d, node_next = None\<rparr>) in
      bindE (if qsize q \<noteq> 0 then
               bindE (deref h (tail q)) (\<lambda>n.
                 OK (q\<lparr>nodes := h(the (tail q) \<mapsto> n\<lparr>node_next := Some newnode\<rparr>),
                       tail := Some newnode\<rparr>))
             else OK (q\<lparr>nodes := h, tail := Some newnode, head := Some newnode\<rparr>)) (\<lambda>q.
      bindE (c_ssize (qsize q + 1)) (\<lambda>n.
        OK (q\<lparr>qsize := n, pushed := pushed q @ [d]\<rparr>, if n = 1 then Everybody else Nobody))))"

definition queue_pull :: "'d queue \<Rightarrow> ('d queue \<times> wake) res" where
  "queue_pull q =
     bindE (deref (nodes q) (head q)) (\<lambda>tmp.
       let tl = (if node_next tmp = None then None else tail q) in
       bindE (c_ssize (qsize q - 1)) (\<lambda>n.
         OK (q\<lparr>head := node_next tmp, tail := tl, nodes := (nodes q)(the (head q) := None),
               qsize := n, pulled := pulled q @ [node_data tmp]\<rparr>,
             if max_size q > 0 \<and> n = max_size q - 1 then Everybody else Nobody)))"

fun queue_body :: "'d queue_op \<Rightarrow> addr \<Rightarrow> 'd queue \<Rightarrow> ('d queue \<times> wake \<times> 'd queue_op option) res" where
  "queue_body (Queue_Push d) a q = bindE (queue_push d a q) (\<lambda>(q, w). OK (q, w, None))"
| "queue_body Queue_Pull a q = bindE (queue_pull q) (\<lambda>(q, w). OK (q, w, None))"

definition queue_program :: "('d queue_op, addr, 'd queue) monitor_program" where
  "queue_program = \<lparr>entry = (\<lambda>_. True), blocks = queue_blocks,
     choice = (\<lambda>x a q. (case x of Queue_Push d \<Rightarrow> malloc_ok a (nodes q) | Queue_Pull \<Rightarrow> True)),
     body = queue_body, after = (\<lambda>_. Nobody)\<rparr>"

section \<open>Specification\<close>

text \<open>The nodes from \<open>p\<close> on, with their addresses and data, are exactly \<open>ns\<close>.\<close>

fun chain :: "(addr \<rightharpoonup> 'd queue_node) \<Rightarrow> addr option \<Rightarrow> (addr \<times> 'd) list \<Rightarrow> bool" where
  "chain h p [] \<longleftrightarrow> p = None"
| "chain h p ((a, d) # ns) \<longleftrightarrow> p = Some a \<and>
     (\<exists>n. h a = Some n \<and> node_data n = d \<and> chain h (node_next n) ns)"

definition queue_rep :: "'d queue \<Rightarrow> (addr \<times> 'd) list \<Rightarrow> bool" where
  "queue_rep q ns \<longleftrightarrow> chain (nodes q) (head q) ns \<and> distinct (map fst ns) \<and>
     dom (nodes q) = set (map fst ns) \<and>
     tail q = (if ns = [] then None else Some (fst (last ns))) \<and>
     qsize q = int (length ns) \<and> (\<forall>a \<in> dom (nodes q). 16 dvd a \<and> a < 2 ^ 64)"

definition queue_inv :: "int \<Rightarrow> (tid \<Rightarrow> 'd queue_op option) \<Rightarrow> 'd queue \<Rightarrow> bool" where
  "queue_inv mx c q \<longleftrightarrow> max_size q = mx \<and> (0 < mx \<longrightarrow> qsize q \<le> mx) \<and>
     (\<exists>ns. queue_rep q ns \<and> pushed q = pulled q @ map snd ns)"

section \<open>Lemmas\<close>

lemma chain_frame:
  "a \<notin> fst ` set ns \<Longrightarrow> chain (h(a := v)) p ns \<longleftrightarrow> chain h p ns"
  by (induction h p ns rule: chain.induct) auto

lemma chain_snoc:
  assumes "chain h p (ns @ [(a, x)])" "distinct (map fst (ns @ [(a, x)]))"
    "b \<notin> fst ` set (ns @ [(a, x)])" "h a = Some n"
  shows "chain (h(b \<mapsto> \<lparr>node_data = d, node_next = None\<rparr>, a \<mapsto> n\<lparr>node_next := Some b\<rparr>)) p
    (ns @ [(a, x), (b, d)])"
  using assms
proof (induction ns arbitrary: p)
  case (Cons m ns)
  obtain c y where m: "m = (c, y)" by (cases m)
  from Cons.prems m have c: "c \<noteq> a" "c \<noteq> b" by auto
  from Cons.prems m obtain k where k: "p = Some c" "h c = Some k" "node_data k = y"
    "chain h (node_next k) (ns @ [(a, x)])" by auto
  with Cons.IH [OF k(4)] Cons.prems m c show ?case by auto
qed auto

lemma aligned_bound:
  fixes A :: "nat set"
  assumes "\<forall>a \<in> A. 16 dvd a \<and> a < 2 ^ 64"
  shows "card A \<le> 2 ^ 60"
proof -
  have "A \<subseteq> (\<lambda>k. 16 * k) ` {..< 2 ^ 60}"
  proof
    fix a assume "a \<in> A"
    with assms obtain k where "a = 16 * k" "a < 2 ^ 64" by (auto elim!: dvdE)
    then show "a \<in> (\<lambda>k. 16 * k) ` {..< 2 ^ 60}" by (intro image_eqI [of _ _ k]) auto
  qed
  then have "card A \<le> card ((\<lambda>k. 16 * k) ` {..< 2 ^ 60 :: nat})" by (intro card_mono) auto
  also have "\<dots> \<le> card {..< 2 ^ 60 :: nat}" by (rule card_image_le) simp
  finally show ?thesis by simp
qed

lemma queue_rep_bound: "queue_rep q ns \<Longrightarrow> length ns \<le> 2 ^ 60"
  using aligned_bound [of "dom (nodes q)"] distinct_card [of "map fst ns"]
  by (simp add: queue_rep_def)

lemma c_ssize_OK: "- (2 ^ 63) \<le> x \<Longrightarrow> x < 2 ^ 63 \<Longrightarrow> c_ssize x = OK x"
  by (simp add: c_ssize_def)

lemma queue_push_rep:
  assumes q: "queue_rep q ns" and b: "malloc_ok b (nodes q)"
  shows "\<exists>q'. queue_push d b q = OK (q', if ns = [] then Everybody else Nobody) \<and>
    queue_rep q' (ns @ [(b, d)]) \<and> max_size q' = max_size q \<and> qsize q' = qsize q + 1 \<and>
    pushed q' = pushed q @ [d] \<and> pulled q' = pulled q"
proof (cases ns rule: rev_cases)
  case Nil
  with q b show ?thesis
    by (auto simp: queue_rep_def queue_push_def malloc_ok_def c_ssize_OK Let_def)
next
  case (snoc ms m)
  obtain a x where m: "m = (a, x)" by (cases m)
  have len: "length ns \<le> 2 ^ 60" by (rule queue_rep_bound [OF q])
  from q snoc m have a: "tail q = Some a" "a \<in> dom (nodes q)" "qsize q \<noteq> 0" "qsize q = int (length ns)"
    by (auto simp: queue_rep_def)
  then obtain n where n: "nodes q a = Some n" by auto
  have b': "b \<notin> fst ` set (ms @ [(a, x)])" "b \<noteq> a"
    using q b snoc m n by (auto simp: queue_rep_def malloc_ok_def)
  have ssize: "c_ssize (qsize q + 1) = OK (qsize q + 1)" using a(4) len by (intro c_ssize_OK) auto
  have "chain ((nodes q)(b \<mapsto> \<lparr>node_data = d, node_next = None\<rparr>, a \<mapsto> n\<lparr>node_next := Some b\<rparr>))
      (head q) (ms @ [(a, x), (b, d)])"
    by (rule chain_snoc) (use q snoc m n b' in \<open>auto simp: queue_rep_def\<close>)
  then show ?thesis using q b snoc m n a b' ssize
    by (auto simp: queue_rep_def queue_push_def malloc_ok_def deref_def Let_def)
qed

lemma queue_pull_rep:
  assumes q: "queue_rep q ((a, d) # ns)"
  shows "\<exists>q'. queue_pull q = OK (q', if max_size q > 0 \<and> qsize q = max_size q then Everybody else Nobody) \<and>
    queue_rep q' ns \<and> max_size q' = max_size q \<and> qsize q' = qsize q - 1 \<and>
    pulled q' = pulled q @ [d] \<and> pushed q' = pushed q"
proof -
  have len: "length ((a, d) # ns) \<le> 2 ^ 60" by (rule queue_rep_bound [OF q])
  from q obtain n where n: "head q = Some a" "nodes q a = Some n" "node_data n = d"
    "chain (nodes q) (node_next n) ns" "a \<notin> fst ` set ns"
    by (auto simp: queue_rep_def)
  have ssize: "c_ssize (qsize q - 1) = OK (qsize q - 1)"
    using q len by (intro c_ssize_OK) (auto simp: queue_rep_def)
  have last: "node_next n = None \<longleftrightarrow> ns = []" using n(4) by (cases ns) auto
  have "chain ((nodes q)(a := None)) (node_next n) ns" using n(4,5) by (simp add: chain_frame)
  then show ?thesis using q n ssize last
    by (auto simp: queue_rep_def queue_pull_def deref_def Let_def)
qed

lemma free_nodes_rep:
  "chain h p ns \<Longrightarrow> distinct (map fst ns) \<Longrightarrow>
   free_nodes h p = Some (OK (\<lambda>a. if a \<in> fst ` set ns then None else h a))"
proof (induction ns arbitrary: h p)
  case Nil
  then show ?case by (subst free_nodes.simps) simp
next
  case (Cons m ns)
  obtain a d where m: "m = (a, d)" by (cases m)
  with Cons.prems obtain n where n: "p = Some a" "h a = Some n" "chain h (node_next n) ns"
    "a \<notin> fst ` set ns" "distinct (map fst ns)" by auto
  then have "chain (h(a := None)) (node_next n) ns" by (simp add: chain_frame)
  note rest = Cons.IH [OF this n(5)]
  have "(\<lambda>b. if b \<in> fst ` set ns then None else (h(a := None)) b) =
      (\<lambda>b. if b \<in> fst ` set (m # ns) then None else h b)" using m by auto
  with rest have "free_nodes (h(a := None)) (node_next n) =
      Some (OK (\<lambda>b. if b \<in> fst ` set (m # ns) then None else h b))" by (simp only:)
  with n(1,2) show ?case by (subst free_nodes.simps) simp
qed

section \<open>The queue as a monitor\<close>

lemma queue_blocks_program [simp]: "blocks queue_program = queue_blocks"
  and queue_body_program [simp]: "body queue_program = queue_body"
  and queue_after_program [simp]: "after queue_program x = Nobody"
  by (simp_all add: queue_program_def)

lemma queue_run:
  assumes inv: "queue_inv mx c q" and free: "\<not> queue_blocks x q" and ch: "choice queue_program x a q"
  shows "\<exists>q' w. queue_body x a q = OK (q', w, None) \<and> queue_inv mx c' q' \<and>
    (\<forall>y. queue_blocks y q \<longrightarrow> \<not> queue_blocks y q' \<longrightarrow> w = Everybody)"
proof -
  from inv obtain ns where q: "queue_rep q ns" and hist: "pushed q = pulled q @ map snd ns"
    and mx: "max_size q = mx" "0 < mx \<longrightarrow> qsize q \<le> mx"
    by (auto simp: queue_inv_def)
  have size: "qsize q = int (length ns)" using q by (simp add: queue_rep_def)
  show ?thesis
  proof (cases x)
    case (Queue_Push d)
    with ch have "malloc_ok a (nodes q)" by (simp add: queue_program_def)
    from queue_push_rep [OF q this, of d] obtain q' where
      q': "queue_push d a q = OK (q', if ns = [] then Everybody else Nobody)"
      "queue_rep q' (ns @ [(a, d)])" "max_size q' = max_size q" "qsize q' = qsize q + 1"
      "pushed q' = pushed q @ [d]" "pulled q' = pulled q" by blast
    have "queue_inv mx c' q'"
      using q' hist mx free Queue_Push by (auto simp: queue_inv_def intro!: exI [of _ "ns @ [(a, d)]"])
    moreover have "ns = []" if "queue_blocks y q" "\<not> queue_blocks y q'" for y
      using that free q'(3,4) Queue_Push size by (cases y) auto
    ultimately show ?thesis using q'(1) Queue_Push by auto
  next
    case Queue_Pull
    with free size obtain b d ms where ns: "ns = (b, d) # ms" by (cases ns) auto
    from queue_pull_rep [OF q [unfolded ns]] obtain q' where
      q': "queue_pull q = OK (q', if max_size q > 0 \<and> qsize q = max_size q then Everybody else Nobody)"
      "queue_rep q' ms" "max_size q' = max_size q" "qsize q' = qsize q - 1"
      "pulled q' = pulled q @ [d]" "pushed q' = pushed q" by blast
    have "queue_inv mx c' q'"
      using q' hist mx ns by (auto simp: queue_inv_def intro!: exI [of _ ms])
    moreover have "max_size q > 0 \<and> qsize q = max_size q" if "queue_blocks y q" "\<not> queue_blocks y q'" for y
      using that free Queue_Pull by (cases y) auto
    ultimately show ?thesis using q'(1) Queue_Pull by auto
  qed
qed

text \<open>The queue meets the contract of a monitor, for every bound.\<close>

interpretation bq: monitor_wakeup queue_program "queue_create mx" "queue_inv mx" for mx
proof
  show "queue_inv mx (\<lambda>_. None) (queue_create mx)"
    by (auto simp: queue_inv_def queue_create_def queue_rep_def intro!: exI [of _ "[]"])
next
  fix c :: "tid \<Rightarrow> 'a queue_op option" and s t x
  show "queue_inv mx c s \<Longrightarrow> queue_inv mx (c(t \<mapsto> x)) s" by (simp add: queue_inv_def)
qed (use queue_run in \<open>simp_all, fastforce+\<close>)

section \<open>Properties\<close>

text \<open>
  C1: under every interleaving of any number of pushing and pulling threads no operation
  touches a node that is not the queue's, the data pulled so far followed by the data in the
  queue is the data pushed so far in its order, no node is leaked, and a positive bound is
  never exceeded.
\<close>

theorem queue_fifo:
  assumes "msteps queue_program (monitor_init (queue_create mx)) m"
  shows "\<not> crashed m \<and> (0 < mx \<longrightarrow> qsize (shared m) \<le> mx) \<and>
    (\<exists>ns. queue_rep (shared m) ns \<and> pushed (shared m) = pulled (shared m) @ map snd ns)"
  using bq.reachable_I [OF assms] by (auto simp: queue_inv_def)

text \<open>
  C7: no wakeup is lost: a thread that sleeps in \<open>queue_pull\<close> sees an empty queue and one that
  sleeps in \<open>queue_push\<close> a full one, so pullers and pushers never sleep at the same time.
\<close>

theorem queue_no_lost_wakeup:
  assumes "msteps queue_program (monitor_init (queue_create mx)) m"
  shows "(pcs m t = Asleep Queue_Pull \<longrightarrow> qsize (shared m) = 0) \<and>
    (pcs m u = Asleep (Queue_Push d) \<longrightarrow> 0 < mx \<and> qsize (shared m) = mx) \<and>
    \<not> (pcs m t = Asleep Queue_Pull \<and> pcs m u = Asleep (Queue_Push d))"
proof -
  have "\<not> wakeup_due queue_program m"
    using msteps_not_notifying [OF assms] by (simp add: wakeup_due_def)
  note blocked = bq.sleeper_blocked [OF assms _ this]
  have mx: "max_size (shared m) = mx" using bq.reachable_I(1) [OF assms] by (simp add: queue_inv_def)
  have "pcs m t = Asleep Queue_Pull \<Longrightarrow> qsize (shared m) = 0" using blocked [of t Queue_Pull] by simp
  moreover have "pcs m u = Asleep (Queue_Push d) \<Longrightarrow> 0 < mx \<and> qsize (shared m) = mx"
    using blocked [of u "Queue_Push d"] mx by simp
  ultimately show ?thesis by auto
qed

text \<open>A state with a sleeping puller, and one after a push, for a queue with bound 1.\<close>

lemma queue_puller_asleep:
  "msteps queue_program (monitor_init (queue_create mx))
     \<lparr>mutex = None, pcs = (\<lambda>_. Idle)(0 := Asleep Queue_Pull), shared = queue_create mx, crashed = False\<rparr>"
    (is "msteps _ ?m0 ?m2")
proof -
  let ?m1 = "?m0\<lparr>mutex := Some 0, pcs := (pcs ?m0)(0 := Holding Queue_Pull)\<rparr>"
  have "msteps queue_program ?m0 ?m1"
    by (rule msteps_call_lock) (simp_all add: monitor_init_def queue_program_def)
  moreover have "mstep queue_program ?m1 ?m2"
    using mstep.sleep [of ?m1 0 Queue_Pull queue_program] by (simp add: monitor_init_def queue_create_def)
  ultimately show ?thesis by (rule rtranclp.rtrancl_into_rtrancl)
qed

definition queue_one :: "nat queue" where
  "queue_one = \<lparr>head = Some 16, tail = Some 16, qsize = 1, max_size = 1,
     nodes = [16 \<mapsto> \<lparr>node_data = 7, node_next = None\<rparr>], pushed = [7], pulled = []\<rparr>"

lemma queue_after_push:
  "msteps queue_program (monitor_init (queue_create 1))
     \<lparr>mutex = Some 0, pcs = (\<lambda>_. Idle)(0 := Unlocking (Queue_Push 7)), shared = queue_one, crashed = False\<rparr>"
    (is "msteps _ ?m0 ?m2")
proof -
  let ?m1 = "?m0\<lparr>mutex := Some 0, pcs := (pcs ?m0)(0 := Holding (Queue_Push 7))\<rparr>"
  have "msteps queue_program ?m0 ?m1"
    by (rule msteps_call_lock) (simp_all add: monitor_init_def queue_program_def)
  moreover have "mstep queue_program ?m1 ?m2"
  proof -
    have "body queue_program (Queue_Push 7) 16 (shared ?m1) = OK (queue_one, Everybody, None)"
      by (simp add: monitor_init_def queue_create_def queue_one_def queue_push_def c_ssize_def Let_def)
    from mstep.run [of ?m1 0 "Queue_Push 7" queue_program 16, OF _ _ _ this, of "rouse \<circ> pcs ?m1"]
    show ?thesis
      by (simp add: monitor_init_def queue_create_def queue_program_def malloc_ok_def fun_upd_def comp_def
          cong: if_cong)
  qed
  ultimately show ?thesis by (rule rtranclp.rtrancl_into_rtrancl)
qed

theorem queue_fifo_witness:
  "\<exists>ns. queue_rep queue_one ns \<and> pushed queue_one = pulled queue_one @ map snd ns"
  using queue_fifo [OF queue_after_push] by simp

theorem queue_no_lost_wakeup_witness:
  "\<exists>m. msteps queue_program (monitor_init (queue_create 1 :: nat queue)) m \<and>
     pcs m 0 = Asleep Queue_Pull \<and> qsize (shared m) = 0 \<and> pcs m 1 \<noteq> Asleep (Queue_Push 0)"
  using queue_no_lost_wakeup [OF queue_puller_asleep, of 1 0 1 0] queue_puller_asleep [of 1] by auto

text \<open>
  Destroying the queue in any state the threads can reach returns, reads no freed node
  and frees every node.
\<close>

theorem queue_destroy_frees:
  assumes "msteps queue_program (monitor_init (queue_create mx)) m"
  shows "queue_destroy (shared m) = Some (OK Map.empty)"
proof -
  from bq.reachable_I(1) [OF assms] obtain ns where ns: "queue_rep (shared m) ns"
    by (auto simp: queue_inv_def)
  then have "(\<lambda>a. if a \<in> fst ` set ns then None else nodes (shared m) a) = Map.empty"
    by (auto simp: queue_rep_def fun_eq_iff domIff)
  with ns free_nodes_rep [of "nodes (shared m)" "head (shared m)" ns] show ?thesis
    by (simp add: queue_rep_def queue_destroy_def)
qed

theorem queue_destroy_frees_witness: "queue_destroy queue_one = Some (OK Map.empty)"
  using queue_destroy_frees [OF queue_after_push] by simp

end
