(* ===== verification/Semamore.thy ===== *)
theory Semamore
  imports Monitor
begin

text \<open>
  The bounded semaphore of \<open>critical_concurrency/semamore.c\<close>. Its value stays within its
  bounds and counts the posts and waits. Its single condition variable is shared by waiters
  and posters and is signalled by \<open>semm_post\<close> alone, and this loses wakeups.
\<close>

section \<open>The model\<close>

text \<open>\<open>sem_value\<close> and \<open>max_val\<close> are \<open>int\<close>; \<open>waits\<close> and \<open>posts\<close> count the operations that completed.\<close>

record semamore =
  sem_value :: int
  max_val :: int
  waits :: nat
  posts :: nat

datatype semm_op = Semm_Wait | Semm_Post

definition semm_init :: "int \<Rightarrow> int \<Rightarrow> semamore" where
  "semm_init v mx = \<lparr>sem_value = v, max_val = mx, waits = 0, posts = 0\<rparr>"

fun semm_blocks :: "semm_op \<Rightarrow> semamore \<Rightarrow> bool" where
  "semm_blocks Semm_Wait s \<longleftrightarrow> sem_value s = 0"
| "semm_blocks Semm_Post s \<longleftrightarrow> sem_value s = max_val s"

definition semm_wait :: "semamore \<Rightarrow> (semamore \<times> wake) res" where
  "semm_wait s = bindE (c_int (sem_value s - 1)) (\<lambda>v.
     OK (s\<lparr>sem_value := v, waits := waits s + 1\<rparr>, Nobody))"

definition semm_post :: "semamore \<Rightarrow> (semamore \<times> wake) res" where
  "semm_post s = bindE (c_int (sem_value s + 1)) (\<lambda>v.
     OK (s\<lparr>sem_value := v, posts := posts s + 1\<rparr>, One))"

fun semm_body :: "semm_op \<Rightarrow> unit \<Rightarrow> semamore \<Rightarrow> (semamore \<times> wake \<times> semm_op option) res" where
  "semm_body Semm_Wait u s = bindE (semm_wait s) (\<lambda>(s, w). OK (s, w, None))"
| "semm_body Semm_Post u s = bindE (semm_post s) (\<lambda>(s, w). OK (s, w, None))"

definition semm_program :: "(semm_op, unit, semamore) monitor_program" where
  "semm_program = \<lparr>entry = (\<lambda>_. True), blocks = semm_blocks, choice = (\<lambda>_ _ _. True),
     body = semm_body, after = (\<lambda>_. Nobody)\<rparr>"

section \<open>Specification\<close>

text \<open>The initial value lies within the bounds, and the upper bound is an \<open>int\<close>.\<close>

definition semm_range :: "int \<Rightarrow> int \<Rightarrow> bool" where
  "semm_range v mx \<longleftrightarrow> 0 \<le> v \<and> v \<le> mx \<and> mx \<le> INT_MAX"

definition semm_inv :: "int \<Rightarrow> int \<Rightarrow> (tid \<Rightarrow> semm_op option) \<Rightarrow> semamore \<Rightarrow> bool" where
  "semm_inv v mx c s \<longleftrightarrow> max_val s = mx \<and> 0 \<le> sem_value s \<and> sem_value s \<le> mx \<and> mx \<le> INT_MAX \<and>
     sem_value s = v + int (posts s) - int (waits s)"

section \<open>Lemmas\<close>

lemma semm_program_simps [simp]:
  "blocks semm_program = semm_blocks" "body semm_program = semm_body"
  "after semm_program x = Nobody" "entry semm_program x" "choice semm_program x a s"
  by (simp_all add: semm_program_def)

lemma semm_run:
  assumes "semm_inv v mx c s" "\<not> semm_blocks x s"
  shows "\<exists>s' w. semm_body x a s = OK (s', w, None) \<and> semm_inv v mx c' s'"
proof (cases x)
  case Semm_Wait
  with assms have "c_int (sem_value s - 1) = OK (sem_value s - 1)"
    by (intro c_int_OK) (auto simp: semm_inv_def INT_MIN_def INT_MAX_def)
  with assms Semm_Wait show ?thesis by (auto simp: semm_wait_def semm_inv_def)
next
  case Semm_Post
  with assms have "c_int (sem_value s + 1) = OK (sem_value s + 1)"
    by (intro c_int_OK) (auto simp: semm_inv_def INT_MIN_def INT_MAX_def)
  with assms Semm_Post show ?thesis by (auto simp: semm_post_def semm_inv_def)
qed

lemma semm_monitor: "semm_range v mx \<Longrightarrow> monitor_invariant semm_program (semm_init v mx) (semm_inv v mx)"
proof
  assume "semm_range v mx"
  then show "semm_inv v mx (\<lambda>_. None) (semm_init v mx)"
    by (simp add: semm_inv_def semm_init_def semm_range_def)
next
  fix c s t x
  show "semm_inv v mx c s \<Longrightarrow> semm_inv v mx (c(t \<mapsto> x)) s" by (simp add: semm_inv_def)
next
  fix c s t x a
  assume "semm_inv v mx c s" "\<not> blocks semm_program x s"
  then show "\<exists>s' w n. body semm_program x a s = OK (s', w, n) \<and> semm_inv v mx (c(t := n)) s'"
    using semm_run [of v mx c s x a] by fastforce
qed

section \<open>Properties\<close>

text \<open>
  C37: under every interleaving the value of the semaphore stays between 0 and its maximum and
  equals the initial value plus the completed posts minus the completed waits, and no
  operation overflows.
\<close>

theorem semm_value_bounded:
  assumes "semm_range v mx" "msteps semm_program (monitor_init (semm_init v mx)) m"
  shows "\<not> crashed m \<and> 0 \<le> sem_value (shared m) \<and> sem_value (shared m) \<le> mx \<and>
    sem_value (shared m) = v + int (posts (shared m)) - int (waits (shared m))"
  using monitor_invariant.reachable_I [OF semm_monitor [OF assms(1)] assms(2)]
  by (simp add: semm_inv_def)

lemma semm_poster_asleep:
  "msteps semm_program (monitor_init (semm_init 1 1))
     \<lparr>mutex = None, pcs = (\<lambda>_ :: tid. Idle)(0 := Asleep Semm_Post),
      shared = \<lparr>sem_value = 0, max_val = 1, waits = 1, posts = 0\<rparr>, crashed = False\<rparr>"
    (is "msteps _ ?m0 ?m2")
proof -
  let ?m1 = "?m0\<lparr>pcs := (pcs ?m0)(0 := Asleep Semm_Post)\<rparr>"
  have "msteps semm_program ?m0 ?m1"
    by (rule msteps_sleep) (simp_all add: monitor_init_def semm_init_def)
  moreover have "msteps semm_program ?m1 ?m2"
  proof -
    have "pcs ?m2 = (pcs ?m1)(1 := Holding Semm_Wait, 1 := Idle)" by (auto simp: monitor_init_def)
    then show ?thesis
      using msteps_run [of ?m1 1 semm_program Semm_Wait "()" "shared ?m2" Nobody
          "(pcs ?m1)(1 := Holding Semm_Wait)" "pcs ?m2"]
      by (simp add: monitor_init_def semm_init_def semm_wait_def c_int_OK INT_MIN_def INT_MAX_def)
  qed
  ultimately show ?thesis by (rule rtranclp_trans)
qed

theorem semm_value_bounded_witness:
  "msteps semm_program (monitor_init (semm_init 1 1))
     \<lparr>mutex = None, pcs = (\<lambda>_ :: tid. Idle)(0 := Asleep Semm_Post),
      shared = \<lparr>sem_value = 0, max_val = 1, waits = 1, posts = 0\<rparr>, crashed = False\<rparr> \<and>
   (0 :: int) = 1 + int 0 - int 1"
  using semm_value_bounded [OF _ semm_poster_asleep] semm_poster_asleep
  by (simp add: semm_range_def INT_MAX_def)

text \<open>
  Wakeups are lost. From a semaphore with value and maximum 1 the threads reach a state in
  which every thread is idle or asleep and a thread sleeps in \<open>semm_post\<close> although the value is
  below the maximum; and another in which a thread sleeps in \<open>semm_wait\<close> although the value is
  1, because the signal of a post went to a sleeping poster.
\<close>

theorem semm_lost_wakeups:
  "\<exists>m1 m2. msteps semm_program (monitor_init (semm_init 1 1)) m1 \<and> msteps semm_program m1 m2 \<and>
     quiescent m1 \<and> pcs m1 0 = Asleep Semm_Post \<and> sem_value (shared m1) < max_val (shared m1) \<and>
     quiescent m2 \<and> pcs m2 2 = Asleep Semm_Wait \<and> sem_value (shared m2) > 0"
proof -
  let ?s1 = "\<lparr>sem_value = 0, max_val = 1, waits = 1, posts = 0\<rparr>"
  let ?s2 = "\<lparr>sem_value = 1, max_val = 1, waits = 1, posts = 1\<rparr>"
  let ?m1 = "\<lparr>mutex = None, pcs = (\<lambda>_ :: tid. Idle)(0 := Asleep Semm_Post), shared = ?s1, crashed = False\<rparr>"
  let ?f = "(\<lambda>_ :: tid. Idle)(0 := Asleep Semm_Post, 2 := Asleep Semm_Wait)"
  let ?g = "(\<lambda>_ :: tid. Idle)(0 := Woken Semm_Post, 2 := Asleep Semm_Wait)"
  let ?m2 = "\<lparr>mutex = None, pcs = ?f, shared = ?s1, crashed = False\<rparr>"
  let ?m3 = "\<lparr>mutex = None, pcs = ?g, shared = ?s2, crashed = False\<rparr>"
  let ?m4 = "\<lparr>mutex = None, pcs = ?f, shared = ?s2, crashed = False\<rparr>"
  have "msteps semm_program ?m1 ?m2" using msteps_sleep [of ?m1 2 semm_program Semm_Wait] by simp
  also have "msteps semm_program ?m2 ?m3"
  proof -
    have "wakes One (?f(3 := Holding Semm_Post)) (?f(3 := Holding Semm_Post, 0 := Woken Semm_Post))"
      unfolding wakes.simps by (intro disjI1 exI [of _ 0] exI [of _ Semm_Post]) simp
    moreover have "?g = ?f(3 := Holding Semm_Post, 0 := Woken Semm_Post, 3 := Idle)" by auto
    ultimately show ?thesis
      using msteps_run [of ?m2 3 semm_program Semm_Post "()" ?s2 One
          "?f(3 := Holding Semm_Post, 0 := Woken Semm_Post)" ?g]
      by (simp add: semm_post_def c_int_OK INT_MIN_def INT_MAX_def del: wakes.simps)
  qed
  also have "msteps semm_program ?m3 ?m4"
  proof -
    have "?g(0 := Asleep Semm_Post) = ?f" by auto
    then show ?thesis using msteps_retry [of ?m3 0 Semm_Post semm_program] by simp
  qed
  finally have "msteps semm_program ?m1 ?m4" .
  moreover have "quiescent ?m1" "quiescent ?m4" by (simp_all add: quiescent_def)
  ultimately show ?thesis using semm_poster_asleep
    by (intro exI [of _ ?m1] exI [of _ ?m4]) simp
qed

end
