(* ===== verification/Barrier.thy ===== *)
theory Barrier
  imports Monitor
begin

text \<open>
  The reusable barrier of \<open>critical_concurrency/barrier.c\<close>. One counter runs down from
  \<open>n_threads\<close> as threads arrive and from \<open>2 * n_threads - 1\<close> as they leave. No thread leaves a
  round before all of it has arrived, no thread enters the next round before all have left,
  and the threads cannot all be stuck.
\<close>

section \<open>The model\<close>

text \<open>The fields are \<open>unsigned int\<close>; \<open>arrived\<close> and \<open>departed\<close> count the threads past each phase.\<close>

type_synonym uint32 = "32 word"

record barrier =
  count :: uint32
  n_threads :: uint32
  times_used :: uint32
  arrived :: nat
  departed :: nat

text \<open>The two wait loops of \<open>barrier_wait\<close>, each with the critical section after it.\<close>

datatype barrier_op = Barrier_Arrive | Barrier_Leave

definition barrier_init :: "uint32 \<Rightarrow> barrier" where
  "barrier_init num_threads = \<lparr>count = num_threads, n_threads = num_threads, times_used = 0,
     arrived = 0, departed = 0\<rparr>"

fun barrier_blocks :: "barrier_op \<Rightarrow> barrier \<Rightarrow> bool" where
  "barrier_blocks Barrier_Arrive b \<longleftrightarrow> count b > n_threads b"
| "barrier_blocks Barrier_Leave b \<longleftrightarrow> count b < n_threads b"

fun barrier_body :: "barrier_op \<Rightarrow> unit \<Rightarrow> barrier \<Rightarrow> (barrier \<times> wake \<times> barrier_op option) res" where
  "barrier_body Barrier_Arrive u b =
     (let b = b\<lparr>count := count b - 1, arrived := arrived b + 1\<rparr> in
      if count b = 0
      then OK (b\<lparr>count := 2 * n_threads b - 1, times_used := times_used b + 1,
                 departed := departed b + 1\<rparr>, Nobody, None)
      else OK (b, Nobody, Some Barrier_Leave))"
| "barrier_body Barrier_Leave u b =
     OK (b\<lparr>count := count b - 1, departed := departed b + 1\<rparr>, Nobody, None)"

text \<open>A call of \<open>barrier_wait\<close> starts at the first loop and broadcasts after the unlock.\<close>

definition barrier_program :: "(barrier_op, unit, barrier) monitor_program" where
  "barrier_program = \<lparr>entry = (\<lambda>x. x = Barrier_Arrive), blocks = barrier_blocks,
     choice = (\<lambda>_ _ _. True), body = barrier_body, after = (\<lambda>_. Everybody)\<rparr>"

section \<open>Specification\<close>

definition barrier_range :: "uint32 \<Rightarrow> bool" where
  "barrier_range n \<longleftrightarrow> 0 < n \<and> unat n < 2 ^ 31"

definition leaving :: "(tid \<Rightarrow> barrier_op option) \<Rightarrow> tid set" where
  "leaving c = {t. c t = Some Barrier_Leave}"

text \<open>
  While threads arrive, \<open>n_threads - count\<close> of them wait to leave and all earlier rounds are
  complete; while they leave, \<open>count - n_threads\<close> are still to go.
\<close>

definition barrier_inv :: "uint32 \<Rightarrow> (tid \<Rightarrow> barrier_op option) \<Rightarrow> barrier \<Rightarrow> bool" where
  "barrier_inv n c b \<longleftrightarrow> barrier_range n \<and> n_threads b = n \<and> finite {t. c t \<noteq> None} \<and>
     (\<exists>r. times_used b = of_nat r \<and>
       (1 \<le> unat (count b) \<and> unat (count b) + card (leaving c) = unat n \<and>
          arrived b = unat n * r + card (leaving c) \<and> departed b = unat n * r \<or>
        unat (count b) = unat n + card (leaving c) \<and> card (leaving c) < unat n \<and>
          arrived b = unat n * r \<and> departed b + card (leaving c) = unat n * r))"

section \<open>Lemmas\<close>

lemma barrier_program_simps [simp]:
  "blocks barrier_program = barrier_blocks" "body barrier_program = barrier_body"
  "after barrier_program x = Everybody" "entry barrier_program x \<longleftrightarrow> x = Barrier_Arrive"
  "choice barrier_program x a b"
  by (simp_all add: barrier_program_def)

lemma finite_leaving: "finite {t. c t \<noteq> None} \<Longrightarrow> finite (leaving c)"
  by (rule finite_subset [of _ "{t. c t \<noteq> None}"]) (auto simp: leaving_def)

lemma finite_upd: "finite {t. c t \<noteq> None} \<Longrightarrow> finite {u. (c(t := v)) u \<noteq> None}"
  by (rule finite_subset [of _ "insert t {t. c t \<noteq> None}"]) auto

lemma card_leaving_upd:
  assumes "finite {t. c t \<noteq> None}"
  shows "c t \<noteq> Some Barrier_Leave \<Longrightarrow> v \<noteq> Some Barrier_Leave \<Longrightarrow>
      card (leaving (c(t := v))) = card (leaving c)"
    and "c t \<noteq> Some Barrier_Leave \<Longrightarrow>
      card (leaving (c(t := Some Barrier_Leave))) = Suc (card (leaving c))"
    and "c t = Some Barrier_Leave \<Longrightarrow> v \<noteq> Some Barrier_Leave \<Longrightarrow>
      Suc (card (leaving (c(t := v)))) = card (leaving c)"
proof -
  assume 1: "c t \<noteq> Some Barrier_Leave"
  { assume "v \<noteq> Some Barrier_Leave"
    with 1 have "leaving (c(t := v)) = leaving c" by (auto simp: leaving_def)
    then show "card (leaving (c(t := v))) = card (leaving c)" by simp }
  have "leaving (c(t := Some Barrier_Leave)) = insert t (leaving c)" "t \<notin> leaving c"
    using 1 by (auto simp: leaving_def)
  then show "card (leaving (c(t := Some Barrier_Leave))) = Suc (card (leaving c))"
    using finite_leaving [OF assms] by simp
next
  assume "c t = Some Barrier_Leave" "v \<noteq> Some Barrier_Leave"
  then have "leaving (c(t := v)) = leaving c - {t}" "t \<in> leaving c" by (auto simp: leaving_def)
  then show "Suc (card (leaving (c(t := v)))) = card (leaving c)"
    using card_Suc_Diff1 [OF finite_leaving [OF assms], of t] by simp
qed

lemma unat_dec32: "0 < unat (w :: uint32) \<Longrightarrow> unat (w - 1) = unat w - 1"
  by (metis unat_minus_one unat_gt_0 not_gr_zero)

lemma barrier_range_pos: "barrier_range n \<Longrightarrow> 0 < unat n"
  by (simp add: barrier_range_def word_less_nat_alt)

lemma barrier_reset: "barrier_range n \<Longrightarrow> unat (2 * n - 1) = unat n + (unat n - 1)"
proof -
  assume n: "barrier_range n"
  then have n0: "0 < unat n" "unat n < 2 ^ 31" by (simp_all only: barrier_range_pos) (simp add: barrier_range_def)
  have "unat (2 * n) = 2 * unat n" using n0(2) by (simp add: unat_word_ariths)
  with n0 unat_dec32 [of "2 * n"] show ?thesis by simp
qed

lemma arrive_run:
  assumes inv: "barrier_inv n c b" and c: "c t = Some Barrier_Arrive" and free: "\<not> count b > n_threads b"
  shows "\<exists>b' v. barrier_body Barrier_Arrive u b = OK (b', Nobody, v) \<and> barrier_inv n (c(t := v)) b' \<and>
    (\<forall>y. barrier_blocks y b \<longrightarrow> \<not> barrier_blocks y b' \<longrightarrow> v = None)"
proof -
  let ?D = "card (leaving c)" and ?k = "unat (count b)"
  have fin: "finite {t. c t \<noteq> None}" and n: "barrier_range n" "n_threads b = n"
    using inv by (auto simp: barrier_inv_def)
  have k: "?k \<le> unat n" using free n(2) by (simp add: word_le_nat_alt not_less)
  obtain r where r: "times_used b = of_nat r" "1 \<le> ?k" "?k + ?D = unat n"
    "arrived b = unat n * r + ?D" "departed b = unat n * r"
  proof -
    have "0 < unat n" by (rule barrier_range_pos [OF n(1)])
    with inv k that show thesis unfolding barrier_inv_def by fastforce
  qed
  have dec: "unat (count b - 1) = ?k - 1" using r(2) by (intro unat_dec32) simp
  show ?thesis
  proof (cases "count b - 1 = 0")
    case True
    then have "?k = 1" using dec r(2) by simp
    moreover have "card (leaving (c(t := None))) = ?D"
      by (rule card_leaving_upd(1) [OF fin]) (use c in simp_all)
    moreover have "times_used b + 1 = of_nat (Suc r)" using r(1) by simp
    ultimately show ?thesis using True r n fin finite_upd [OF fin, of t None] barrier_reset [OF n(1)]
      by (auto simp: barrier_inv_def Let_def algebra_simps intro!: exI [of _ "Suc r"])
  next
    case False
    then have "1 < ?k" using dec r(2) by (metis One_nat_def Suc_lessI diff_Suc_1 less_eq_Suc_le unat_eq_0)
    moreover have "card (leaving (c(t := Some Barrier_Leave))) = Suc ?D"
      by (rule card_leaving_upd(2) [OF fin]) (use c in simp)
    moreover have "count b - 1 < n" using dec k r(2) by (simp add: word_less_nat_alt)
    ultimately show ?thesis
      using False r n dec free finite_upd [OF fin, of t "Some Barrier_Leave"]
      by (auto simp: barrier_inv_def Let_def intro!: exI [of _ r] elim: barrier_blocks.elims)
  qed
qed

lemma leave_run:
  assumes inv: "barrier_inv n c b" and c: "c t = Some Barrier_Leave" and free: "\<not> count b < n_threads b"
  shows "\<exists>b'. barrier_body Barrier_Leave u b = OK (b', Nobody, None) \<and> barrier_inv n (c(t := None)) b'"
proof -
  let ?D = "card (leaving c)" and ?k = "unat (count b)"
  have fin: "finite {t. c t \<noteq> None}" and n: "barrier_range n" "n_threads b = n"
    using inv by (auto simp: barrier_inv_def)
  have k: "unat n \<le> ?k" using free n(2) by (simp add: word_le_nat_alt not_less)
  have D: "Suc (card (leaving (c(t := None)))) = ?D"
    by (rule card_leaving_upd(3) [OF fin]) (use c in simp_all)
  with inv k obtain r where r: "times_used b = of_nat r" "?k = unat n + ?D" "?D < unat n"
    "arrived b = unat n * r" "departed b + ?D = unat n * r"
    unfolding barrier_inv_def by fastforce
  have "unat (count b - 1) = ?k - 1" using r(2) D by (intro unat_dec32) simp
  with D r n finite_upd [OF fin, of t None] show ?thesis
    by (auto simp: barrier_inv_def intro!: exI [of _ r])
qed

lemma barrier_monitor:
  assumes "barrier_range n"
  shows "monitor_wakeup barrier_program (barrier_init n) (barrier_inv n)"
proof
  show "barrier_inv n (\<lambda>_. None) (barrier_init n)"
    using assms barrier_range_pos [OF assms]
    by (auto simp: barrier_inv_def barrier_init_def leaving_def intro!: exI [of _ 0])
next
  fix c b t x assume "barrier_inv n c b" "c t = None" "entry barrier_program x"
  then show "barrier_inv n (c(t \<mapsto> x)) b"
    using finite_upd [of c t "Some x"] card_leaving_upd(1) [of c t "Some x"]
    by (simp add: barrier_inv_def)
next
  fix c b t x u assume "barrier_inv n c b" "c t = Some x" "\<not> blocks barrier_program x b"
  then show "\<exists>b' w v. body barrier_program x u b = OK (b', w, v) \<and> barrier_inv n (c(t := v)) b'"
    using arrive_run [of n c b t u] leave_run [of n c b t u] by (cases x) fastforce+
next
  fix c b t x u b' w v y
  assume *: "barrier_inv n c b" "c t = Some x" "\<not> blocks barrier_program x b"
    "body barrier_program x u b = OK (b', w, v)" "blocks barrier_program y b" "\<not> blocks barrier_program y b'"
  show "w = Everybody \<or> v = None \<and> after barrier_program x = Everybody"
  proof (cases x)
    case Barrier_Arrive
    with * arrive_run [of n c b t u] show ?thesis by fastforce
  next
    case Barrier_Leave
    with * show ?thesis by simp
  qed
qed

lemma barrier_inv_rounds:
  assumes "barrier_inv n c b"
  obtains r D where "times_used b = of_nat r" "D < unat n"
    "arrived b = unat n * r + D \<and> departed b = unat n * r \<or>
     arrived b = unat n * r \<and> departed b + D = unat n * r"
proof -
  from assms obtain r where "times_used b = of_nat r" "card (leaving c) < unat n"
    "arrived b = unat n * r + card (leaving c) \<and> departed b = unat n * r \<or>
     arrived b = unat n * r \<and> departed b + card (leaving c) = unat n * r"
    unfolding barrier_inv_def by force
  then show thesis by (rule that)
qed

section \<open>Properties\<close>

text \<open>
  C6: under every interleaving of any number of threads, at most \<open>n\<close> threads have left per
  complete round of \<open>n\<close> arrivals, no thread of a new round arrives before all of the last
  round have left, and \<open>times_used\<close> counts the complete rounds.
\<close>

theorem barrier_rounds:
  assumes "barrier_range n" "msteps barrier_program (monitor_init (barrier_init n)) m"
  shows "departed (shared m) \<le> unat n * (arrived (shared m) div unat n) \<and>
    (arrived (shared m) mod unat n \<noteq> 0 \<longrightarrow>
       departed (shared m) = unat n * (arrived (shared m) div unat n)) \<and>
    times_used (shared m) = of_nat (arrived (shared m) div unat n)"
proof -
  note w = barrier_monitor [OF assms(1)]
  have "barrier_inv n (pendings (pcs m)) (shared m)"
    by (rule monitor_invariant.reachable_I(1) [OF monitor_wakeup.axioms(1) [OF w] assms(2)])
  then obtain r D where r: "times_used (shared m) = of_nat r" "D < unat n"
    "arrived (shared m) = unat n * r + D \<and> departed (shared m) = unat n * r \<or>
     arrived (shared m) = unat n * r \<and> departed (shared m) + D = unat n * r"
    by (rule barrier_inv_rounds)
  have div: "(unat n * r + D) div unat n = r" "unat n * r div unat n = r" using r(2) by simp_all
  from r(3) show ?thesis
  proof (elim disjE conjE)
    assume "arrived (shared m) = unat n * r + D" "departed (shared m) = unat n * r"
    then show ?thesis using r(1) div by simp
  next
    assume "arrived (shared m) = unat n * r" "departed (shared m) + D = unat n * r"
    then show ?thesis using r(1) div(2) by simp
  qed
qed

text \<open>
  C8: the barrier cannot deadlock: when every thread is idle or asleep, fewer than \<open>n\<close> threads
  sleep, and all of them are waiting for the rest of their round.
\<close>

theorem barrier_no_deadlock:
  assumes "barrier_range n" "msteps barrier_program (monitor_init (barrier_init n)) m" "quiescent m"
  shows "card {t. pcs m t \<noteq> Idle} < unat n \<and>
    (\<forall>t. pcs m t \<noteq> Idle \<longrightarrow> pcs m t = Asleep Barrier_Leave)"
proof -
  note w = barrier_monitor [OF assms(1)]
  let ?c = "pendings (pcs m)" and ?k = "unat (count (shared m))"
  have inv: "barrier_inv n ?c (shared m)"
    by (rule monitor_invariant.reachable_I(1) [OF monitor_wakeup.axioms(1) [OF w] assms(2)])
  then have n: "n_threads (shared m) = n" "finite {t. ?c t \<noteq> None}" by (auto simp: barrier_inv_def)
  have leave: "?k < unat n" if "pcs m t = Asleep Barrier_Leave" for t
    using monitor_wakeup.quiescent_blocked [OF w assms(2,3) that] n(1) by (simp add: word_less_nat_alt)
  have arrive: "unat n < ?k" if "pcs m t = Asleep Barrier_Arrive" for t
    using monitor_wakeup.quiescent_blocked [OF w assms(2,3) that] n(1) by (simp add: word_less_nat_alt)
  have "pcs m t \<noteq> Asleep Barrier_Arrive" for t
  proof
    assume "pcs m t = Asleep Barrier_Arrive"
    then have k: "unat n < ?k" by (rule arrive)
    with inv have "card (leaving ?c) \<noteq> 0" unfolding barrier_inv_def by auto
    then obtain u where "?c u = Some Barrier_Leave" by (auto simp: leaving_def card_eq_0_iff)
    with assms(3) have "pcs m u = Asleep Barrier_Leave"
      unfolding quiescent_def pendings_apply by (metis option.distinct(1) option.inject pending.simps(3,5))
    with leave k show False by fastforce
  qed
  then have all: "pcs m t \<noteq> Idle \<Longrightarrow> pcs m t = Asleep Barrier_Leave" for t
    using assms(3) unfolding quiescent_def by (metis barrier_op.exhaust)
  then have "{t. pcs m t \<noteq> Idle} = leaving ?c"
    by (auto simp: leaving_def pendings_apply) (metis pending.simps(3))
  moreover have "card (leaving ?c) < unat n"
    using inv barrier_range_pos [OF assms(1)] unfolding barrier_inv_def by auto
  ultimately show ?thesis using all by simp
qed

text \<open>One of two threads has arrived and waits.\<close>

lemma barrier_one_waiting:
  "msteps barrier_program (monitor_init (barrier_init 2))
     \<lparr>mutex = None, pcs = (\<lambda>_. Idle)(0 := Asleep Barrier_Leave),
      shared = \<lparr>count = 1, n_threads = 2, times_used = 0, arrived = 1, departed = 0\<rparr>, crashed = False\<rparr>"
    (is "msteps _ ?m0 ?m3")
proof -
  let ?m1 = "?m0\<lparr>mutex := Some 0, pcs := (pcs ?m0)(0 := Holding Barrier_Arrive)\<rparr>"
  let ?m2 = "\<lparr>mutex = Some 0, pcs = (pcs ?m1)(0 := Holding Barrier_Leave), shared = shared ?m3, crashed = False\<rparr>"
  have "msteps barrier_program ?m0 ?m1" by (rule msteps_call_lock) (simp_all add: monitor_init_def)
  moreover have "mstep barrier_program ?m1 ?m2"
    using mstep.run [of ?m1 0 Barrier_Arrive barrier_program "()" "shared ?m3" Nobody
        "Some Barrier_Leave" "pcs ?m1"]
    by (simp add: monitor_init_def barrier_init_def Let_def)
  moreover have "mstep barrier_program ?m2 ?m3"
    using mstep.sleep [of ?m2 0 Barrier_Leave barrier_program]
    by (simp add: monitor_init_def)
  ultimately show ?thesis by (meson rtranclp.rtrancl_into_rtrancl)
qed

theorem barrier_rounds_witness:
  "\<exists>m. msteps barrier_program (monitor_init (barrier_init 2)) m \<and> arrived (shared m) = 1 \<and>
     departed (shared m) \<le> 2 * (arrived (shared m) div 2)"
  using barrier_rounds [OF _ barrier_one_waiting] barrier_one_waiting
  by (intro exI conjI) (assumption, simp_all add: barrier_range_def)

theorem barrier_no_deadlock_witness:
  "\<exists>m. msteps barrier_program (monitor_init (barrier_init 2)) m \<and> quiescent m \<and>
     card {t. pcs m t \<noteq> Idle} < 2 \<and> pcs m 0 = Asleep Barrier_Leave"
proof -
  let ?m = "\<lparr>mutex = None, pcs = (\<lambda>_ :: tid. Idle)(0 := Asleep Barrier_Leave),
    shared = \<lparr>count = 1, n_threads = 2, times_used = 0, arrived = 1, departed = 0\<rparr>, crashed = False\<rparr>"
  have "quiescent ?m" by (simp add: quiescent_def)
  with barrier_no_deadlock [OF _ barrier_one_waiting this] barrier_one_waiting show ?thesis
    by (intro exI [of _ ?m]) (simp add: barrier_range_def)
qed

end
