(* ===== verification/Splitter.thy ===== *)
theory Splitter
  imports C_String
begin

text \<open>
  The splitter of \<open>mapreduce/splitter.c\<close>, which prints one of several portions of a text file.
  The portions of a file, in order, are the file, and no line is broken between two of them.
\<close>

section \<open>The model\<close>

text \<open>In \<open>length * idx / count\<close> both \<open>int\<close> operands are converted to \<open>size_t\<close>.\<close>

definition getSubrange :: "size_t \<Rightarrow> int \<Rightarrow> int \<Rightarrow> size_t \<times> size_t" where
  "getSubrange len cnt index =
     (let start_offset = len * of_int index div of_int cnt;
          end_offset = len * of_int (index + 1) div of_int cnt
      in (start_offset, if end_offset > len then len else end_offset))"

text \<open>Pointers into the mapped file are offsets.\<close>

function nextLine :: "string \<Rightarrow> nat \<Rightarrow> nat \<Rightarrow> nat" where
  "nextLine data p end_ptr =
     (if p < end_ptr then (if data ! p = NL then p + 1 else nextLine data (p + 1) end_ptr)
      else end_ptr)"
  by pat_completeness auto
termination by (relation "measure (\<lambda>(data, p, end_ptr). end_ptr - p)") auto

declare nextLine.simps [simp del]

definition write_portion :: "string \<Rightarrow> int \<Rightarrow> int \<Rightarrow> string" where
  "write_portion data cnt index =
     (let (start_offset, end_offset) = getSubrange (of_nat (length data)) cnt index;
          start_ptr = (if index = 0 then 0 else nextLine data (unat start_offset) (length data));
          end_ptr = (if index = cnt - 1 then length data
                     else nextLine data (unat end_offset) (length data))
      in if end_ptr > start_ptr then take (end_ptr - start_ptr) (drop start_ptr data) else [])"

text \<open>
  \<open>main\<close>: \<open>file\<close> is the content of the named file if it exists, \<open>cnt\<close> and \<open>index\<close> are what
  \<open>sscanf\<close> reads from the other arguments, if they are numbers.
\<close>

definition splitter_main :: "nat \<Rightarrow> string option \<Rightarrow> int option \<Rightarrow> int option \<Rightarrow> string res" where
  "splitter_main argc file cnt index =
     (if argc \<noteq> 4 then Fault (Exit 1)
      else case file of
        None \<Rightarrow> Fault (Exit 1)
      | Some data \<Rightarrow> (case cnt of
          None \<Rightarrow> Fault (Exit 1)
        | Some c \<Rightarrow> if c < 1 then Fault (Exit 1)
            else (case index of
              None \<Rightarrow> Fault (Exit 1)
            | Some i \<Rightarrow> if i < 0 \<or> i \<ge> c then Fault (Exit 1)
                else OK (write_portion data c i))))"

section \<open>Specification\<close>

text \<open>The offset where portion \<open>i\<close> begins and portion \<open>i - 1\<close> ends.\<close>

definition cut :: "string \<Rightarrow> nat \<Rightarrow> nat \<Rightarrow> nat" where
  "cut data n i =
     (if i = 0 then 0 else if i = n then length data
      else nextLine data (length data * i div n) (length data))"

definition line_boundary :: "string \<Rightarrow> nat \<Rightarrow> bool" where
  "line_boundary data k \<longleftrightarrow> k = 0 \<or> k = length data \<or> k < length data \<and> data ! (k - 1) = NL"

section \<open>Lemmas\<close>

lemma nextLine_le: "p \<le> e \<Longrightarrow> p \<le> nextLine data p e \<and> nextLine data p e \<le> e"
  by (induction data p e rule: nextLine.induct) (subst (1 2) nextLine.simps, auto)

lemma nextLine_mono: "p \<le> q \<Longrightarrow> q \<le> e \<Longrightarrow> nextLine data p e \<le> nextLine data q e"
proof (induction data p e rule: nextLine.induct)
  case (1 data p e)
  show ?case
  proof (cases "p = q \<or> \<not> p < e")
    case True
    then have "p = q" using 1(2,3) by auto
    then show ?thesis by simp
  next
    case False
    with 1 nextLine_le [of q e data] show ?thesis by (auto simp: nextLine.simps [of data p e])
  qed
qed

lemma nextLine_boundary: "e = length data \<Longrightarrow> line_boundary data (nextLine data p e)"
  by (induction data p e rule: nextLine.induct)
    (subst nextLine.simps, auto simp: line_boundary_def)

lemma cut_boundary: "line_boundary data (cut data n i)"
  using nextLine_boundary [of "length data" data] by (simp add: cut_def) (simp add: line_boundary_def)

lemma offset_le: "i \<le> n \<Longrightarrow> len * i div n \<le> (len :: nat)"
  by (metis div_le_mono div_mult_self_is_m mult_le_mono2 nat_le_linear not_gr0 div_by_0 le0)

lemma cut_mono: "i \<le> j \<Longrightarrow> j \<le> n \<Longrightarrow> cut data n i \<le> cut data n j"
proof -
  assume ij: "i \<le> j" "j \<le> n"
  have "length data * i div n \<le> length data * j div n" using ij(1) by (simp add: div_le_mono)
  moreover have "length data * j div n \<le> length data" by (rule offset_le [OF ij(2)])
  ultimately show ?thesis
    using nextLine_le [of "length data * i div n" "length data" data]
      nextLine_mono [of "length data * i div n" "length data * j div n" "length data" data] ij
    by (auto simp: cut_def)
qed

lemma concat_slices:
  assumes "\<And>i. i < n \<Longrightarrow> c i \<le> c (Suc i)"
  shows "concat (map (\<lambda>i. take (c (Suc i) - c i) (drop (c i) xs)) [0..<n]) =
    take (c n - c 0) (drop (c 0) xs) \<and> c 0 \<le> c n"
  using assms
proof (induction n)
  case (Suc n)
  then have IH: "concat (map (\<lambda>i. take (c (Suc i) - c i) (drop (c i) xs)) [0..<n]) =
      take (c n - c 0) (drop (c 0) xs)" "c 0 \<le> c n" "c n \<le> c (Suc n)" by auto
  have "drop (c n) xs = drop (c n - c 0) (drop (c 0) xs)" using IH(2) by simp
  then have "take (c n - c 0) (drop (c 0) xs) @ take (c (Suc n) - c n) (drop (c n) xs) =
      take (c n - c 0 + (c (Suc n) - c n)) (drop (c 0) xs)"
    by (simp only: take_add)
  also have "c n - c 0 + (c (Suc n) - c n) = c (Suc n) - c 0" using IH(2,3) by simp
  finally show ?case using IH by simp
qed simp

text \<open>The offsets do not wrap around while the length times the number of portions fits.\<close>

lemma getSubrange_offsets:
  assumes "len * n < 2 ^ 64" "i < n" "n < 2 ^ 31"
  shows "unat (fst (getSubrange (of_nat len) (int n) (int i))) = len * i div n"
    and "unat (snd (getSubrange (of_nat len) (int n) (int i))) = len * Suc i div n"
proof -
  have off: "unat (of_nat len * of_int (int k) div of_int (int n) :: size_t) = len * k div n" if "k \<le> n" for k
  proof -
    have "len * k \<le> len * n" using that by simp
    then have "unat (of_nat len * of_nat k :: size_t) = len * k"
      using assms(1) by (metis of_nat_mult order.strict_trans1 unat_of_nat_size_t)
    moreover have "unat (of_nat n :: size_t) = n" using assms(3) by (intro unat_of_nat_size_t) simp
    ultimately show ?thesis by (simp add: unat_div)
  qed
  show "unat (fst (getSubrange (of_nat len) (int n) (int i))) = len * i div n"
    using off [of i] assms(2) by (simp add: getSubrange_def Let_def)
  have u: "unat (of_nat len * of_int (int i + 1) div of_int (int n) :: size_t) = len * Suc i div n"
    using off [of "Suc i"] assms(2) by (simp add: add.commute)
  have "len * 1 \<le> len * n" using assms(2) by (intro mult_le_mono) auto
  then have "len < 2 ^ 64" using assms(1) by linarith
  then have l: "unat (of_nat len :: size_t) = len" by (rule unat_of_nat_size_t)
  have "len * Suc i div n \<le> len" by (rule offset_le) (use assms(2) in simp)
  then have "\<not> of_nat len * of_int (int i + 1) div of_int (int n) > (of_nat len :: size_t)"
    using u l by (simp only: word_less_nat_alt not_less)
  then show "unat (snd (getSubrange (of_nat len) (int n) (int i))) = len * Suc i div n"
    using u by (simp add: getSubrange_def Let_def del: mult_Suc_right)
qed

lemma write_portion_cut:
  assumes "length data * n < 2 ^ 64" "i < n" "n < 2 ^ 31"
  shows "write_portion data (int n) (int i) =
    take (cut data n (Suc i) - cut data n i) (drop (cut data n i) data)"
proof -
  note off = getSubrange_offsets [OF assms]
  have start: "(if int i = 0 then 0 else nextLine data (length data * i div n) (length data)) = cut data n i"
    using assms(2) by (simp add: cut_def)
  have stop: "(if int i = int n - 1 then length data
      else nextLine data (length data * Suc i div n) (length data)) = cut data n (Suc i)"
    using assms(2) by (auto simp: cut_def)
  show ?thesis
    unfolding write_portion_def Let_def case_prod_beta off start stop by simp
qed

text \<open>Reading lines from two texts in turn, when the first ends with a whole line.\<close>

lemma getlines_append: "a = [] \<or> last a = NL \<Longrightarrow> getlines (a @ b) = getlines a @ getlines b"
proof (induction a rule: length_induct)
  case (1 a)
  show ?case
  proof (cases "a = []")
    case False
    with 1(2) have "NL \<in> set a" by (metis last_in_set)
    then obtain l rest where a: "a = l @ NL # rest" "NL \<notin> set l" by (meson split_list_first)
    with 1(2) have "rest = [] \<or> last rest = NL" by (cases "rest = []") auto
    with 1(1) a have "getlines (rest @ b) = getlines rest @ getlines b" by (cases "rest = []") auto
    with a show ?thesis using getlines_step [of l "rest @ b"] getlines_step [of l rest] by simp
  qed simp
qed

lemma getlines_cuts:
  assumes "\<And>i. i \<le> n \<Longrightarrow> line_boundary xs (c i)" "\<And>i. i < n \<Longrightarrow> c i \<le> c (Suc i)" "c 0 = 0"
  shows "concat (map (\<lambda>i. getlines (take (c (Suc i) - c i) (drop (c i) xs))) [0..<n]) =
    getlines (take (c n) xs)"
  using assms
proof (induction n)
  case (Suc n)
  let ?a = "take (c n) xs" and ?b = "take (c (Suc n) - c n) (drop (c n) xs)"
  have le: "c n \<le> c (Suc n)" using Suc.prems(2) by simp
  have "take (c (Suc n)) xs = ?a @ ?b" using le by (metis le_add_diff_inverse take_add)
  moreover have "getlines (?a @ ?b) = getlines ?a @ getlines ?b"
  proof (cases "c n \<ge> length xs")
    case False
    have "line_boundary xs (c n)" using Suc.prems(1) by simp
    moreover have "c n \<noteq> 0 \<Longrightarrow> last ?a = xs ! (c n - 1)"
      using False by (subst last_conv_nth) (auto simp: min_def)
    ultimately have "?a = [] \<or> last ?a = NL"
      using False by (auto simp: line_boundary_def)
    then show ?thesis by (rule getlines_append)
  qed simp
  ultimately show ?case using Suc by simp
qed simp

lemma splitter_lines_eq:
  assumes "length data * n < 2 ^ 64" "0 < n" "n < 2 ^ 31"
  shows "concat (map (\<lambda>i. getlines (write_portion data (int n) (int i))) [0..<n]) = getlines data"
proof -
  have "concat (map (\<lambda>i. getlines (write_portion data (int n) (int i))) [0..<n]) =
      concat (map (\<lambda>i. getlines (take (cut data n (Suc i) - cut data n i) (drop (cut data n i) data))) [0..<n])"
    using write_portion_cut [OF assms(1) _ assms(3)] by (intro arg_cong [where f = concat] map_cong) auto
  also have "\<dots> = getlines (take (cut data n n) data)"
  proof (rule getlines_cuts)
    show "cut data n i \<le> cut data n (Suc i)" if "i < n" for i using that by (intro cut_mono) auto
  qed (simp_all add: cut_boundary, simp add: cut_def)
  also have "cut data n n = length data" using assms(2) by (simp add: cut_def)
  finally show ?thesis by simp
qed

section \<open>Properties\<close>

text \<open>
  The portions of a file, written one after the other, are the file, as long as its
  length times the number of portions does not wrap around.
\<close>

theorem splitter_concat:
  assumes "length data * n < 2 ^ 64" "0 < n" "n < 2 ^ 31"
  shows "concat (map (\<lambda>i. write_portion data (int n) (int i)) [0..<n]) = data"
proof -
  have "concat (map (\<lambda>i. write_portion data (int n) (int i)) [0..<n]) =
      concat (map (\<lambda>i. take (cut data n (Suc i) - cut data n i) (drop (cut data n i) data)) [0..<n])"
    using write_portion_cut [OF assms(1) _ assms(3)] by (intro arg_cong [where f = concat] map_cong) auto
  also have "\<dots> = take (cut data n n - cut data n 0) (drop (cut data n 0) data)"
    using concat_slices [of n "cut data n" data] cut_mono [of _ _ n data] by auto
  also have "\<dots> = data" using assms(2) by (simp add: cut_def)
  finally show ?thesis .
qed

theorem splitter_concat_witness:
  "concat (map (\<lambda>i. write_portion (''ab'' @ [NL] @ ''c'') (int 3) (int i)) [0..<3]) = ''ab'' @ [NL] @ ''c''"
  using splitter_concat [of "''ab'' @ [NL] @ ''c''" 3] by simp

text \<open>
  No line is broken: the lines read from the portions in turn are the lines of the file.
\<close>

theorem splitter_lines:
  assumes "length data * n < 2 ^ 64" "0 < n" "n < 2 ^ 31"
  shows "concat (map (\<lambda>i. getlines (write_portion data (int n) (int i))) [0..<n]) = getlines data"
  by (rule splitter_lines_eq [OF assms])

theorem splitter_lines_witness:
  "concat (map (\<lambda>i. getlines (write_portion (''ab'' @ [NL] @ ''c'') (int 3) (int i))) [0..<3]) =
     [''ab'' @ [NL], ''c'']"
  using splitter_lines [of "''ab'' @ [NL] @ ''c''" 3] getlines_step [of "''ab''" "''c''"]
    getlines_last [of "''c''"] by (simp add: NL_def)

end
