(* ===== verification/Datastore.thy ===== *)
theory Datastore
  imports C_String "HOL-Library.Tree" "HOL-Library.Char_ord" "HOL-Library.List_Lexorder"
begin

text \<open>
  The datastore of \<open>mapreduce/core/libds.c\<close>: a search tree of key and value strings over
  \<open>search.h\<close>. It behaves as a map from keys to values, and iterating over it visits every
  entry once, in the order of the keys. Its interface is a locale, interpreted on the tree.
\<close>

section \<open>The tree of search.h\<close>

fun strcmp :: "string \<Rightarrow> string \<Rightarrow> int" where
  "strcmp [] [] = 0"
| "strcmp [] (y # ys) = -1"
| "strcmp (x # xs) [] = 1"
| "strcmp (x # xs) (y # ys) =
     (if x = y then strcmp xs ys else if x < y then -1 else 1)"

record datastore_entry =
  ekey :: string
  evalue :: string

type_synonym datastore = "datastore_entry tree"

definition compare_entries :: "datastore_entry \<Rightarrow> datastore_entry \<Rightarrow> int" where
  "compare_entries a b = strcmp (ekey a) (ekey b)"

fun tfind :: "datastore_entry \<Rightarrow> datastore \<Rightarrow> datastore_entry option" where
  "tfind x Leaf = None"
| "tfind x (Node l e r) =
     (let c = compare_entries x e in
      if c < 0 then tfind x l else if c > 0 then tfind x r else Some e)"

fun tsearch :: "datastore_entry \<Rightarrow> datastore \<Rightarrow> datastore" where
  "tsearch x Leaf = Node Leaf x Leaf"
| "tsearch x (Node l e r) =
     (let c = compare_entries x e in
      if c < 0 then Node (tsearch x l) e r else if c > 0 then Node l e (tsearch x r)
      else Node l e r)"

fun tmin :: "datastore_entry \<Rightarrow> datastore \<Rightarrow> datastore_entry" where
  "tmin x Leaf = x"
| "tmin x (Node l e r) = tmin e l"

fun tdelmin :: "datastore \<Rightarrow> datastore" where
  "tdelmin Leaf = Leaf"
| "tdelmin (Node l e r) = (if l = Leaf then r else Node (tdelmin l) e r)"

definition join :: "datastore \<Rightarrow> datastore \<Rightarrow> datastore" where
  "join l r = (case r of Leaf \<Rightarrow> l | Node _ e _ \<Rightarrow> Node l (tmin e r) (tdelmin r))"

fun tdelete :: "datastore_entry \<Rightarrow> datastore \<Rightarrow> datastore" where
  "tdelete x Leaf = Leaf"
| "tdelete x (Node l e r) =
     (let c = compare_entries x e in
      if c < 0 then Node (tdelete x l) e r else if c > 0 then Node l e (tdelete x r)
      else join l r)"

text \<open>\<open>twalk\<close> calls its action three times at an inner node and once at a leaf.\<close>

datatype visit = Preorder | Postorder | Endorder | Leaf_Visit

fun twalk :: "datastore \<Rightarrow> (datastore_entry \<Rightarrow> visit \<Rightarrow> nat \<Rightarrow> 'o list) \<Rightarrow> nat \<Rightarrow> 'o list" where
  "twalk Leaf action depth = []"
| "twalk (Node l e r) action depth =
     (if l = Leaf \<and> r = Leaf then action e Leaf_Visit depth
      else action e Preorder depth @ twalk l action (depth + 1) @
           action e Postorder depth @ twalk r action (depth + 1) @ action e Endorder depth)"

section \<open>The model\<close>

text \<open>
  The value of an entry is replaced in place, which changes the one node that holds it. An
  action returns what it outputs.
\<close>

fun set_value :: "datastore_entry \<Rightarrow> string \<Rightarrow> datastore \<Rightarrow> datastore" where
  "set_value x v Leaf = Leaf"
| "set_value x v (Node l e r) =
     (let c = compare_entries x e in
      if c < 0 then Node (set_value x v l) e r else if c > 0 then Node l e (set_value x v r)
      else Node l (e\<lparr>evalue := v\<rparr>) r)"

definition tentry :: "string \<Rightarrow> datastore_entry" where
  "tentry key = \<lparr>ekey = key, evalue = []\<rparr>"

definition dictionary_tfind :: "datastore \<Rightarrow> string \<Rightarrow> datastore_entry option" where
  "dictionary_tfind ds key = tfind (tentry key) ds"

definition dictionary_tdelete :: "datastore \<Rightarrow> string \<Rightarrow> datastore" where
  "dictionary_tdelete ds key = tdelete (tentry key) ds"

definition malloc_entry_t :: "string \<Rightarrow> string \<Rightarrow> datastore_entry" where
  "malloc_entry_t key v = \<lparr>ekey = key, evalue = v\<rparr>"

definition datastore_init :: datastore where
  "datastore_init = Leaf"

definition datastore_put :: "datastore \<Rightarrow> string \<Rightarrow> string \<Rightarrow> datastore \<times> int" where
  "datastore_put ds key v =
     (if dictionary_tfind ds key = None then (tsearch (malloc_entry_t key v) ds, 1) else (ds, 0))"

definition datastore_get :: "datastore \<Rightarrow> string \<Rightarrow> string option" where
  "datastore_get ds key = (case dictionary_tfind ds key of
      None \<Rightarrow> None
    | Some entry \<Rightarrow> Some (evalue entry))"

definition datastore_update :: "datastore \<Rightarrow> string \<Rightarrow> string \<Rightarrow> datastore \<times> int" where
  "datastore_update ds key v = (case dictionary_tfind ds key of
      None \<Rightarrow> (ds, 0)
    | Some entry \<Rightarrow> (set_value (tentry key) v ds, 1))"

definition datastore_delete :: "datastore \<Rightarrow> string \<Rightarrow> datastore \<times> int" where
  "datastore_delete ds key = (case dictionary_tfind ds key of
      None \<Rightarrow> (ds, 0)
    | Some entry \<Rightarrow> (dictionary_tdelete ds key, 1))"

fun my_action :: "(string \<Rightarrow> string \<Rightarrow> 'o list) \<Rightarrow> datastore_entry \<Rightarrow> visit \<Rightarrow> nat \<Rightarrow> 'o list" where
  "my_action f n Preorder depth = []"
| "my_action f n Postorder depth = f (ekey n) (evalue n)"
| "my_action f n Endorder depth = []"
| "my_action f n Leaf_Visit depth = f (ekey n) (evalue n)"

definition datastore_iterate :: "datastore \<Rightarrow> (string \<Rightarrow> string \<Rightarrow> 'o list) \<Rightarrow> 'o list" where
  "datastore_iterate ds f = twalk ds (my_action f) 0"

text \<open>\<open>tdestroy\<close> calls the free function on every entry: the entries whose strings are freed.\<close>

definition datastore_destroy :: "datastore \<Rightarrow> datastore \<times> datastore_entry list" where
  "datastore_destroy ds = (Leaf, inorder ds)"

section \<open>Specification\<close>

definition pairs :: "datastore \<Rightarrow> (string \<times> string) list" where
  "pairs ds = map (\<lambda>e. (ekey e, evalue e)) (inorder ds)"

definition ds_inv :: "datastore \<Rightarrow> bool" where
  "ds_inv ds \<longleftrightarrow> sorted_wrt (<) (map ekey (inorder ds))"

definition ds_map :: "datastore \<Rightarrow> string \<rightharpoonup> string" where
  "ds_map ds = map_of (pairs ds)"

section \<open>Lemmas\<close>

lemma strcmp_less [simp]: "strcmp a b < 0 \<longleftrightarrow> a < b"
  by (induction a b rule: strcmp.induct) auto

lemma strcmp_zero [simp]: "strcmp a b = 0 \<longleftrightarrow> a = b"
  by (induction a b rule: strcmp.induct) auto

lemma strcmp_greater [simp]: "strcmp a b > 0 \<longleftrightarrow> b < a"
proof -
  have "strcmp a b > 0 \<longleftrightarrow> \<not> strcmp a b < 0 \<and> strcmp a b \<noteq> 0" by linarith
  then show ?thesis by (simp only: strcmp_less strcmp_zero) auto
qed

lemma ds_inv_Leaf [simp]: "ds_inv Leaf"
  by (simp add: ds_inv_def)

lemma ds_inv_Node [simp]: "ds_inv (Node l e r) \<longleftrightarrow> ds_inv l \<and> ds_inv r \<and>
    (\<forall>x \<in> set_tree l. ekey x < ekey e) \<and> (\<forall>x \<in> set_tree r. ekey e < ekey x) "
  by (auto simp: ds_inv_def sorted_wrt_append) (metis order.strict_trans)

lemma ds_map_Leaf [simp]: "ds_map Leaf = Map.empty"
  by (simp add: ds_map_def pairs_def)

lemma ds_map_None: "(\<forall>x \<in> set_tree ds. ekey x \<noteq> k) \<Longrightarrow> ds_map ds k = None"
  by (auto simp: ds_map_def pairs_def map_of_eq_None_iff)

lemma ds_map_Node: "ds_map (Node l e r) k =
  (case ds_map l k of Some v \<Rightarrow> Some v | None \<Rightarrow> if k = ekey e then Some (evalue e) else ds_map r k)"
  by (auto simp: ds_map_def pairs_def map_add_def split: option.splits)

text \<open>Below a node of a search tree a key can only be on its own side.\<close>

lemma ds_map_sides:
  assumes "ds_inv (Node l e r)"
  shows "k < ekey e \<Longrightarrow> ds_map (Node l e r) k = ds_map l k"
    and "ekey e < k \<Longrightarrow> ds_map (Node l e r) k = ds_map r k"
    and "ds_map (Node l e r) (ekey e) = Some (evalue e)"
proof -
  have l: "ds_map l k = None" if "ekey e \<le> k" for k
    using that assms by (intro ds_map_None) auto
  have r: "ds_map r k = None" if "k \<le> ekey e" for k
    using that assms by (intro ds_map_None) auto
  show "k < ekey e \<Longrightarrow> ds_map (Node l e r) k = ds_map l k"
    using r [of k] by (auto simp: ds_map_Node split: option.splits)
  show "ekey e < k \<Longrightarrow> ds_map (Node l e r) k = ds_map r k"
    using l [of k] by (auto simp: ds_map_Node)
  show "ds_map (Node l e r) (ekey e) = Some (evalue e)"
    using l [of "ekey e"] by (simp add: ds_map_Node)
qed

lemma tfind_map: "ds_inv ds \<Longrightarrow> map_option evalue (tfind x ds) = ds_map ds (ekey x)"
proof (induction ds)
  case (Node l e r)
  then show ?case using ds_map_sides [OF Node.prems]
    by (cases "ekey x" "ekey e" rule: linorder_cases) (auto simp: compare_entries_def Let_def)
qed simp

lemma set_tsearch: "ekey ` set_tree (tsearch x ds) = insert (ekey x) (ekey ` set_tree ds)"
  by (induction ds) (auto simp: compare_entries_def Let_def not_less)

lemma tsearch_bounds:
  "(\<forall>y \<in> set_tree (tsearch x ds). ekey y < k) \<longleftrightarrow> ekey x < k \<and> (\<forall>y \<in> set_tree ds. ekey y < k)"
  "(\<forall>y \<in> set_tree (tsearch x ds). k < ekey y) \<longleftrightarrow> k < ekey x \<and> (\<forall>y \<in> set_tree ds. k < ekey y)"
proof -
  have all: "(\<forall>z \<in> ekey ` set_tree (tsearch x ds). P z) \<longleftrightarrow>
      P (ekey x) \<and> (\<forall>y \<in> set_tree ds. P (ekey y))" for P
    unfolding set_tsearch by simp
  show "(\<forall>y \<in> set_tree (tsearch x ds). ekey y < k) \<longleftrightarrow> ekey x < k \<and> (\<forall>y \<in> set_tree ds. ekey y < k)"
    using all [of "\<lambda>z. z < k"] by simp
  show "(\<forall>y \<in> set_tree (tsearch x ds). k < ekey y) \<longleftrightarrow> k < ekey x \<and> (\<forall>y \<in> set_tree ds. k < ekey y)"
    using all [of "\<lambda>z. k < z"] by simp
qed

lemma tsearch_inv: "ds_inv ds \<Longrightarrow> ds_inv (tsearch x ds)"
proof (induction ds)
  case (Node l e r)
  then show ?case by (auto simp: compare_entries_def Let_def tsearch_bounds)
qed simp

lemma tsearch_map:
  "ds_inv ds \<Longrightarrow> ds_map ds (ekey x) = None \<Longrightarrow> ds_map (tsearch x ds) = (ds_map ds)(ekey x \<mapsto> evalue x)"
proof (induction ds)
  case (Node l e r)
  note sides = ds_map_sides [OF Node.prems(1)]
  show ?case
  proof (cases "ekey x" "ekey e" rule: linorder_cases)
    case less
    then have "ds_map (tsearch x l) = (ds_map l)(ekey x \<mapsto> evalue x)"
      using Node.prems sides(1) by (intro Node.IH(1)) simp_all
    with less show ?thesis by (auto simp: compare_entries_def Let_def ds_map_Node fun_eq_iff)
  next
    case equal
    with Node.prems(2) sides(3) show ?thesis by simp
  next
    case greater
    then have "ds_map (tsearch x r) = (ds_map r)(ekey x \<mapsto> evalue x)"
      using Node.prems sides(2) by (intro Node.IH(2)) simp_all
    moreover have "ds_map l (ekey x) = None"
      using greater Node.prems(1) by (intro ds_map_None) auto
    ultimately show ?thesis using greater
      by (auto simp: compare_entries_def Let_def ds_map_Node fun_eq_iff split: option.splits)
  qed
qed (auto simp: ds_map_Node fun_eq_iff)

lemma set_value_keys: "map ekey (inorder (set_value x v ds)) = map ekey (inorder ds)"
  by (induction ds) (auto simp: Let_def)

lemma set_value_inv: "ds_inv ds \<Longrightarrow> ds_inv (set_value x v ds)"
  by (simp add: ds_inv_def set_value_keys)

lemma set_value_map:
  "ds_inv ds \<Longrightarrow> ds_map ds (ekey x) \<noteq> None \<Longrightarrow> ds_map (set_value x v ds) = (ds_map ds)(ekey x \<mapsto> v)"
proof (induction ds)
  case (Node l e r)
  note sides = ds_map_sides [OF Node.prems(1)]
  show ?case
  proof (cases "ekey x" "ekey e" rule: linorder_cases)
    case less
    then have "ds_map (set_value x v l) = (ds_map l)(ekey x \<mapsto> v)"
      using Node.prems sides(1) by (intro Node.IH(1)) simp_all
    with less show ?thesis by (auto simp: compare_entries_def Let_def ds_map_Node fun_eq_iff)
  next
    case equal
    then have "ds_map l (ekey x) = None" using Node.prems(1) by (intro ds_map_None) auto
    with equal show ?thesis by (auto simp: compare_entries_def Let_def ds_map_Node fun_eq_iff)
  next
    case greater
    then have "ds_map (set_value x v r) = (ds_map r)(ekey x \<mapsto> v)"
      using Node.prems sides(2) by (intro Node.IH(2)) simp_all
    moreover have "ds_map l (ekey x) = None"
      using greater Node.prems(1) by (intro ds_map_None) auto
    ultimately show ?thesis using greater
      by (auto simp: compare_entries_def Let_def ds_map_Node fun_eq_iff split: option.splits)
  qed
qed simp

lemma inorder_tdelmin: "r \<noteq> Leaf \<Longrightarrow> tmin x r # inorder (tdelmin r) = inorder r"
  by (induction x r rule: tmin.induct) (auto simp: neq_Leaf_iff)

lemma inorder_join: "inorder (join l r) = inorder l @ inorder r"
  using inorder_tdelmin [of r] by (cases r) (auto simp: join_def)

lemma set_tdelete: "set_tree (tdelete x ds) \<subseteq> set_tree ds"
proof (induction ds)
  case (Node l e r)
  have "set_tree (join l r) = set_tree l \<union> set_tree r"
    by (simp add: inorder_join flip: set_inorder)
  with Node show ?case by (auto simp: Let_def)
qed simp

lemma tdelete_inv: "ds_inv ds \<Longrightarrow> ds_inv (tdelete x ds)"
proof (induction ds)
  case (Node l e r)
  have "ds_inv (join l r)"
    using Node.prems by (auto simp: ds_inv_def inorder_join sorted_wrt_append)
  with Node set_tdelete [of x l] set_tdelete [of x r] show ?case by (auto simp: Let_def)
qed simp

lemma tdelete_map: "ds_inv ds \<Longrightarrow> ds_map (tdelete x ds) = (ds_map ds)(ekey x := None)"
proof (induction ds)
  case (Node l e r)
  have left: "ds_map l (ekey x) = None" if "ekey e \<le> ekey x"
    using that Node.prems by (intro ds_map_None) auto
  have right: "ds_map r (ekey x) = None" if "ekey x \<le> ekey e"
    using that Node.prems by (intro ds_map_None) auto
  have join: "ds_map (join l r) = ds_map r ++ ds_map l"
    by (simp add: ds_map_def pairs_def inorder_join)
  show ?case
    using Node left right join
    by (cases "ekey x" "ekey e" rule: linorder_cases)
      (auto simp: compare_entries_def Let_def ds_map_Node fun_eq_iff map_add_def split: option.splits)
qed simp

lemma twalk_pairs: "twalk ds (my_action f) d = concat (map (\<lambda>(k, v). f k v) (pairs ds))"
  by (induction ds arbitrary: d) (auto simp: pairs_def)

section \<open>The interface of a key-value store\<close>

text \<open>
  What clients rely on: the abstract map of a store, kept by \<open>put\<close> on a new key and by \<open>update\<close>
  and \<open>delete\<close> on a present one, and an enumeration of the map in strictly increasing key order.
\<close>

locale kv_store =
  fixes inv :: "'s \<Rightarrow> bool" and abs :: "'s \<Rightarrow> string \<rightharpoonup> string" and entries :: "'s \<Rightarrow> (string \<times> string) list"
    and empty :: 's and put :: "'s \<Rightarrow> string \<Rightarrow> string \<Rightarrow> 's \<times> int" and get :: "'s \<Rightarrow> string \<Rightarrow> string option"
    and update :: "'s \<Rightarrow> string \<Rightarrow> string \<Rightarrow> 's \<times> int" and delete :: "'s \<Rightarrow> string \<Rightarrow> 's \<times> int"
  assumes empty_law: "inv empty \<and> abs empty = Map.empty"
    and get_law: "inv s \<Longrightarrow> get s k = abs s k"
    and put_law: "inv s \<Longrightarrow> put s k v = (s', r) \<Longrightarrow> inv s' \<and>
      (if abs s k = None then abs s' = (abs s)(k \<mapsto> v) \<and> r = 1 else s' = s \<and> r = 0)"
    and update_law: "inv s \<Longrightarrow> update s k v = (s', r) \<Longrightarrow> inv s' \<and>
      (if abs s k = None then s' = s \<and> r = 0 else abs s' = (abs s)(k \<mapsto> v) \<and> r = 1)"
    and delete_law: "inv s \<Longrightarrow> delete s k = (s', r) \<Longrightarrow> inv s' \<and>
      (if abs s k = None then s' = s \<and> r = 0 else abs s' = (abs s)(k := None) \<and> r = 1)"
    and entries_law: "inv s \<Longrightarrow> sorted_wrt (<) (map fst (entries s)) \<and> abs s = map_of (entries s)"
begin

text \<open>Storing a value under a key, whether it is new or not, as the reducer does.\<close>

lemma upsert:
  assumes "inv s"
  shows "inv (fst (if get s k = None then put s k v else update s k v)) \<and>
    abs (fst (if get s k = None then put s k v else update s k v)) = (abs s)(k \<mapsto> v)"
proof (cases "abs s k = None")
  case True
  obtain s' r where p: "put s k v = (s', r)" by fastforce
  with True put_law [OF assms p] get_law [OF assms, of k] show ?thesis by simp
next
  case False
  then obtain y where "abs s k = Some y" by blast
  moreover obtain s' r where p: "update s k v = (s', r)" by fastforce
  ultimately show ?thesis using update_law [OF assms p] get_law [OF assms, of k] by simp
qed

text \<open>A store with a given map has exactly one enumeration.\<close>

lemma entries_unique:
  assumes "inv s" "sorted_wrt (<) (map fst ps)" "abs s = map_of ps"
  shows "entries s = ps"
proof -
  have s: "sorted_wrt (<) (map fst (entries s))" "map_of (entries s) = map_of ps"
    using entries_law [OF assms(1)] assms(3) by simp_all
  then have "set (map fst (entries s)) = set (map fst ps)"
    by (metis dom_map_of_conv_image_fst list.set_map)
  then have keys: "map fst (entries s) = map fst ps"
    using s(1) assms(2) by (intro strict_sorted_equal) simp_all
  have d: "distinct (map fst ps)" using assms(2) by (simp add: strict_sorted_iff)
  show ?thesis
  proof (rule nth_equalityI)
    show len: "length (entries s) = length ps" using keys by (metis length_map)
    fix i assume i: "i < length (entries s)"
    then have k: "fst (entries s ! i) = fst (ps ! i)" using keys len by (metis nth_map)
    have "map_of (entries s) (fst (entries s ! i)) = Some (snd (entries s ! i))"
      using i d keys by (intro map_of_is_SomeI) simp_all
    moreover have "map_of ps (fst (ps ! i)) = Some (snd (ps ! i))"
      using i d len by (intro map_of_is_SomeI) simp_all
    ultimately show "entries s ! i = ps ! i" using k s(2) by (simp add: prod_eq_iff)
  qed
qed

end

interpretation ds: kv_store ds_inv ds_map pairs datastore_init datastore_put datastore_get
  datastore_update datastore_delete
proof
  show "ds_inv datastore_init \<and> ds_map datastore_init = Map.empty" by (simp add: datastore_init_def)
next
  fix s k
  assume "ds_inv s"
  from tfind_map [OF this, of "tentry k"] show "datastore_get s k = ds_map s k"
    by (auto simp: datastore_get_def dictionary_tfind_def tentry_def split: option.splits)
next
  fix s k v s' r
  assume s: "ds_inv s" "datastore_put s k v = (s', r)"
  then show "ds_inv s' \<and> (if ds_map s k = None then ds_map s' = (ds_map s)(k \<mapsto> v) \<and> r = 1 else s' = s \<and> r = 0)"
    using tfind_map [OF s(1), of "tentry k", THEN sym] tsearch_inv [OF s(1)] tsearch_map [OF s(1), of "malloc_entry_t k v"]
    by (cases "tfind (tentry k) s") (auto simp: datastore_put_def dictionary_tfind_def tentry_def malloc_entry_t_def)
next
  fix s k v s' r
  assume s: "ds_inv s" "datastore_update s k v = (s', r)"
  then show "ds_inv s' \<and> (if ds_map s k = None then s' = s \<and> r = 0 else ds_map s' = (ds_map s)(k \<mapsto> v) \<and> r = 1)"
    using tfind_map [OF s(1), of "tentry k", THEN sym] set_value_inv [OF s(1)] set_value_map [OF s(1), of "tentry k" v]
    by (cases "tfind (tentry k) s") (auto simp: datastore_update_def dictionary_tfind_def tentry_def)
next
  fix s k s' r
  assume s: "ds_inv s" "datastore_delete s k = (s', r)"
  then show "ds_inv s' \<and> (if ds_map s k = None then s' = s \<and> r = 0 else ds_map s' = (ds_map s)(k := None) \<and> r = 1)"
    using tfind_map [OF s(1), of "tentry k", THEN sym] tdelete_inv [OF s(1)] tdelete_map [OF s(1), of "tentry k"]
    by (cases "tfind (tentry k) s") (auto simp: datastore_delete_def dictionary_tfind_def dictionary_tdelete_def tentry_def)
next
  fix s assume "ds_inv s"
  then show "sorted_wrt (<) (map fst (pairs s)) \<and> ds_map s = map_of (pairs s)"
    by (simp add: ds_inv_def ds_map_def pairs_def comp_def)
qed

section \<open>Properties\<close>

text \<open>A client's history of operations, on the store and on a map.\<close>

datatype ds_op = DS_Put string string | DS_Update string string | DS_Delete string

fun ds_exec :: "ds_op \<Rightarrow> datastore \<Rightarrow> datastore" where
  "ds_exec (DS_Put k v) ds = fst (datastore_put ds k v)"
| "ds_exec (DS_Update k v) ds = fst (datastore_update ds k v)"
| "ds_exec (DS_Delete k) ds = fst (datastore_delete ds k)"

fun map_exec :: "ds_op \<Rightarrow> (string \<rightharpoonup> string) \<Rightarrow> (string \<rightharpoonup> string)" where
  "map_exec (DS_Put k v) m = (if m k = None then m(k \<mapsto> v) else m)"
| "map_exec (DS_Update k v) m = (if m k = None then m else m(k \<mapsto> v))"
| "map_exec (DS_Delete k) m = m(k := None)"

lemma ds_exec_map:
  assumes "ds_inv s"
  shows "ds_inv (ds_exec x s) \<and> ds_map (ds_exec x s) = map_exec x (ds_map s)"
proof (cases x)
  case (DS_Put k v)
  obtain s' r where p: "datastore_put s k v = (s', r)" by fastforce
  with DS_Put ds.put_law [OF assms p] show ?thesis by (cases "ds_map s k") auto
next
  case (DS_Update k v)
  obtain s' r where p: "datastore_update s k v = (s', r)" by fastforce
  with DS_Update ds.update_law [OF assms p] show ?thesis by (cases "ds_map s k") auto
next
  case (DS_Delete k)
  obtain s' r where p: "datastore_delete s k = (s', r)" by fastforce
  with DS_Delete ds.delete_law [OF assms p] show ?thesis by (cases "ds_map s k") (auto simp: fun_upd_idem)
qed

lemma ds_run_map:
  "ds_inv s \<Longrightarrow> ds_inv (fold ds_exec ops s) \<and> ds_map (fold ds_exec ops s) = fold map_exec ops (ds_map s)"
  by (induction ops arbitrary: s) (auto simp: ds_exec_map)

text \<open>
  C36: after any history of puts, updates and deletes on a fresh datastore, \<open>datastore_get\<close>
  returns what a map with the same history holds.
\<close>

theorem datastore_is_map:
  "datastore_get (fold ds_exec ops datastore_init) k = fold map_exec ops Map.empty k"
  using ds_run_map [of datastore_init ops] ds.empty_law ds.get_law by simp

text \<open>
  And \<open>datastore_iterate\<close> applies its function to every entry of that map exactly once,
  in strictly increasing order of the keys under \<open>strcmp\<close>.
\<close>

theorem datastore_iterate_sorted:
  "\<exists>ps. datastore_iterate (fold ds_exec ops datastore_init) f = concat (map (\<lambda>(k, v). f k v) ps) \<and>
     sorted_wrt (\<lambda>a b. strcmp (fst a) (fst b) < 0) ps \<and> map_of ps = fold map_exec ops Map.empty"
proof -
  let ?ds = "fold ds_exec ops datastore_init"
  have inv: "ds_inv ?ds" "ds_map ?ds = fold map_exec ops Map.empty"
    using ds_run_map [of datastore_init ops] ds.empty_law by simp_all
  have "datastore_iterate ?ds f = concat (map (\<lambda>(k, v). f k v) (pairs ?ds))"
    by (simp add: datastore_iterate_def twalk_pairs)
  moreover have "sorted_wrt (\<lambda>a b. strcmp (fst a) (fst b) < 0) (pairs ?ds)"
    using ds.entries_law [OF inv(1)] by (simp add: sorted_wrt_map)
  ultimately show ?thesis using ds.entries_law [OF inv(1)] inv(2) by auto
qed

end
