(* ===== verification/Decimal.thy ===== *)
theory Decimal
  imports Prelude
begin

text \<open>Decimal numerals as \<open>printf\<close> writes them and \<open>atoi\<close> reads them.\<close>

section \<open>Definitions\<close>

definition digit :: "nat \<Rightarrow> char" where
  "digit d = char_of (48 + d)"

definition digit_val :: "char \<Rightarrow> nat" where
  "digit_val c = of_char c - 48"

definition is_digit :: "char \<Rightarrow> bool" where
  "is_digit c \<longleftrightarrow> 48 \<le> (of_char c :: nat) \<and> (of_char c :: nat) \<le> 57"

definition is_space :: "char \<Rightarrow> bool" where
  "is_space c \<longleftrightarrow> (of_char c :: nat) = 32 \<or> 9 \<le> (of_char c :: nat) \<and> (of_char c :: nat) \<le> 13"

fun show_nat :: "nat \<Rightarrow> string" where
  "show_nat n = (if n < 10 then [digit n] else show_nat (n div 10) @ [digit (n mod 10)])"

declare show_nat.simps [simp del]

definition show_int :: "int \<Rightarrow> string" where
  "show_int i = (if i < 0 then CHR ''-'' # show_nat (nat (- i)) else show_nat (nat i))"

definition digits_val :: "string \<Rightarrow> nat" where
  "digits_val ds = foldl (\<lambda>n c. 10 * n + digit_val c) 0 ds"

definition read_int :: "string \<Rightarrow> int" where
  "read_int s = (case dropWhile is_space s of
      [] \<Rightarrow> 0
    | c # cs \<Rightarrow>
        if c = CHR ''-'' then - int (digits_val (takeWhile is_digit cs))
        else if c = CHR ''+'' then int (digits_val (takeWhile is_digit cs))
        else int (digits_val (takeWhile is_digit (c # cs))))"

text \<open>The result of \<open>atoi\<close> is undefined when the number is not an \<open>int\<close>.\<close>

definition atoi :: "string \<Rightarrow> int res" where
  "atoi s = c_int (read_int s)"

section \<open>Lemmas\<close>

lemma of_char_digit [simp]: "d < 10 \<Longrightarrow> of_char (digit d) = (48 + d :: nat)"
  by (simp add: digit_def)

lemma is_digit_digit [simp]: "d < 10 \<Longrightarrow> is_digit (digit d)"
  by (simp add: is_digit_def)

lemma digit_val_digit [simp]: "d < 10 \<Longrightarrow> digit_val (digit d) = d"
  by (simp add: digit_val_def)

lemma show_nat_digits: "c \<in> set (show_nat n) \<Longrightarrow> is_digit c"
proof (induction n rule: show_nat.induct)
  case (1 n)
  then show ?case by (subst (asm) (2) show_nat.simps) (auto split: if_splits)
qed

lemma show_nat_nonempty [simp]: "show_nat n \<noteq> []"
  by (subst show_nat.simps) simp

lemma digits_val_show_nat [simp]: "digits_val (show_nat n) = n"
proof (induction n rule: show_nat.induct)
  case (1 n)
  show ?case
  proof (cases "n < 10")
    case True
    then show ?thesis by (subst show_nat.simps) (simp add: digits_val_def)
  next
    case False
    have "digits_val (show_nat n) = 10 * digits_val (show_nat (n div 10)) + n mod 10"
      using False by (subst show_nat.simps) (simp add: digits_val_def)
    with False 1 show ?thesis by simp
  qed
qed

lemma takeWhile_digits [simp]: "takeWhile is_digit (show_nat n) = show_nat n"
  by (auto simp: takeWhile_eq_all_conv intro: show_nat_digits)

lemma digit_not_special:
  "is_digit c \<Longrightarrow> \<not> is_space c \<and> c \<noteq> CHR ''-'' \<and> c \<noteq> CHR ''+'' \<and> c \<noteq> CHR 0x0A \<and> c \<noteq> CHR 0x00 \<and> c \<noteq> CHR '':''"
  by (auto simp: is_digit_def is_space_def)

lemma read_int_show_int [simp]: "read_int (show_int i) = i"
proof (cases "i < 0")
  case True
  have "\<not> is_space (CHR ''-'')" by (simp add: is_space_def)
  with True show ?thesis by (simp add: read_int_def show_int_def)
next
  case False
  obtain c cs where cs: "show_nat (nat i) = c # cs" by (cases "show_nat (nat i)") auto
  then have c: "is_digit c" using show_nat_digits [of c "nat i"] by simp
  have "digits_val (takeWhile is_digit (c # cs)) = nat i"
    using digits_val_show_nat [of "nat i"] takeWhile_digits [of "nat i"] cs by simp
  with False cs digit_not_special [OF c] show ?thesis by (simp add: read_int_def show_int_def)
qed

lemma atoi_show_int: "INT_MIN \<le> i \<Longrightarrow> i \<le> INT_MAX \<Longrightarrow> atoi (show_int i) = OK i"
  by (simp add: atoi_def)

lemma show_int_chars: "c \<in> set (show_int i) \<Longrightarrow> c = CHR ''-'' \<or> is_digit c"
  by (auto simp: show_int_def split: if_splits dest: show_nat_digits)

lemma show_int_plain: "c \<in> set (show_int i) \<Longrightarrow> c \<noteq> CHR 0x0A \<and> c \<noteq> CHR 0x00 \<and> c \<noteq> CHR '':''"
  using show_int_chars [of c i] digit_not_special [of c] by auto

lemma show_int_one: "show_int 1 = ''1''"
  by code_simp

end
