(* ===== verification/Ctype.thy ===== *)
theory Ctype
  imports Decimal
begin

text \<open>
  The character classes of \<open>ctype.h\<close> in the C locale, on the codes of the characters.
  \<open>is_digit\<close> and \<open>is_space\<close> are in Decimal.
\<close>

definition isalpha :: "char \<Rightarrow> bool" where
  "isalpha c \<longleftrightarrow> (let n = of_char c :: nat in 65 \<le> n \<and> n \<le> 90 \<or> 97 \<le> n \<and> n \<le> 122)"

definition isalnum :: "char \<Rightarrow> bool" where
  "isalnum c \<longleftrightarrow> isalpha c \<or> is_digit c"

definition ispunct :: "char \<Rightarrow> bool" where
  "ispunct c \<longleftrightarrow> (let n = of_char c :: nat in 33 \<le> n \<and> n \<le> 126 \<and> \<not> isalnum c)"

definition tolower :: "char \<Rightarrow> char" where
  "tolower c = (let n = of_char c :: nat in if 65 \<le> n \<and> n \<le> 90 then char_of (n + 32) else c)"

definition toupper :: "char \<Rightarrow> char" where
  "toupper c = (let n = of_char c :: nat in if 97 \<le> n \<and> n \<le> 122 then char_of (n - 32) else c)"

lemma of_char_tolower: "of_char (tolower c) =
    (let n = of_char c :: nat in if 65 \<le> n \<and> n \<le> 90 then n + 32 else n)"
  by (simp add: tolower_def Let_def)

lemma of_char_toupper: "of_char (toupper c) =
    (let n = of_char c :: nat in if 97 \<le> n \<and> n \<le> 122 then n - 32 else n)"
  by (auto simp: toupper_def Let_def intro!: mod_less)

lemma isalpha_tolower [simp]: "isalpha (tolower c) = isalpha c"
  by (auto simp: isalpha_def of_char_tolower Let_def)

lemma isalpha_toupper [simp]: "isalpha (toupper c) = isalpha c"
  by (auto simp: isalpha_def of_char_toupper Let_def)

lemma not_alpha_case [simp]: "\<not> isalpha c \<Longrightarrow> tolower c = c" "\<not> isalpha c \<Longrightarrow> toupper c = c"
  by (auto simp: isalpha_def tolower_def toupper_def Let_def)

lemma char_eq_code: "c = d \<longleftrightarrow> (of_char c :: nat) = of_char d"
  by (auto simp: of_char_eq_iff)

lemma case_case [simp]:
  "tolower (tolower c) = tolower c" "tolower (toupper c) = tolower c"
  "toupper (toupper c) = toupper c" "toupper (tolower c) = toupper c"
  by (auto simp: char_eq_code of_char_tolower of_char_toupper Let_def)

lemma not_space_alpha: "isalpha c \<Longrightarrow> \<not> is_space c"
  by (auto simp: isalpha_def is_space_def Let_def)

lemma not_digit_alpha: "isalpha c \<Longrightarrow> \<not> is_digit c"
  by (auto simp: isalpha_def is_digit_def Let_def)

lemma not_digit_space: "is_digit c \<Longrightarrow> \<not> is_space c"
  by (auto simp: is_digit_def is_space_def)

lemma space_case [simp]:
  "is_space (tolower c) = is_space c" "is_space (toupper c) = is_space c"
  "is_digit (tolower c) = is_digit c" "is_digit (toupper c) = is_digit c"
  by (auto simp: is_space_def is_digit_def of_char_tolower of_char_toupper Let_def)

end
