(* ===== verification/MapReduce.thy ===== *)
theory MapReduce
  imports Splitter Datastore Ctype
begin

text \<open>
  The map-reduce program of \<open>mapreduce/\<close>: the driver of the mappers (\<open>core/mapper.c\<close>) and of the
  reducers (\<open>core/reducer.c\<close>), the four mappers, the summing reducer and the flow of data that
  \<open>mapreduce.c\<close> sets up between them. Counting words comes out the same for every number of
  mappers that can be started and every order in which their writes reach the reducer.
\<close>

section \<open>The model\<close>

subsection \<open>Mappers\<close>

text \<open>
  \<open>run_mapper_on_fds\<close> flushes its output after each line of the input: its value is the list of
  what \<open>func\<close> printed for each line.
\<close>

definition run_mapper_on_fds :: "string \<Rightarrow> (string \<Rightarrow> string) \<Rightarrow> string list" where
  "run_mapper_on_fds input func = map (\<lambda>line. func (strip_line line)) (getlines input)"

definition replace_chars :: "string \<Rightarrow> string" where
  "replace_chars str = map (\<lambda>c. let c = (if c = CHR '':'' then CHR '';'' else c) in
     if c = NL then CHR '' '' else c) str"

definition wordcount_mapper :: "string \<Rightarrow> string" where
  "wordcount_mapper data =
     concat (map (\<lambda>datum. datum @ '': 1'' @ [NL]) (strtok_all (CHR '' '') (replace_chars data)))"

definition asciicount_mapper :: "string \<Rightarrow> string" where
  "asciicount_mapper data =
     concat (map (\<lambda>c. if isalpha c then tolower c # '': 1'' @ [NL] else []) data)"

definition lettercount_mapper :: "string \<Rightarrow> string" where
  "lettercount_mapper data = concat (map (\<lambda>c. if isalpha c then ''letters: 1'' @ [NL] else []) data)"

definition wordlengths_mapper :: "string \<Rightarrow> string" where
  "wordlengths_mapper data =
     concat (map (\<lambda>datum. show_nat (length datum) @ '': 1'' @ [NL])
       (strtok_all (CHR '' '') (map (\<lambda>c. if c = NL then CHR '' '' else c) data)))"

subsection \<open>Reducers\<close>

text \<open>\<open>split_key_value\<close> writes two terminators into the line and returns pointers into it.\<close>

definition split_key_value :: "string \<Rightarrow> (string \<times> string) option" where
  "split_key_value line = (case (strstr line '': '', strstr line [NL]) of
      (Some split, Some newline) \<Rightarrow>
        (let buf = (line @ [NUL])[split := NUL, newline := NUL]
         in Some (cstr buf, cstr (drop (split + 2) buf)))
    | _ \<Rightarrow> None)"

definition reduce_line :: "(string \<Rightarrow> string \<Rightarrow> string res) \<Rightarrow> string \<Rightarrow> datastore \<Rightarrow> datastore res" where
  "reduce_line func line my_datastore = (case split_key_value (cstr line) of
      None \<Rightarrow> OK my_datastore
    | Some (key, v) \<Rightarrow> (case datastore_get my_datastore key of
        Some curr_val \<Rightarrow> bindE (func curr_val v) (\<lambda>new_value.
          OK (fst (datastore_update my_datastore key new_value)))
      | None \<Rightarrow> OK (fst (datastore_put my_datastore key v))))"

definition print_ds :: "string \<Rightarrow> string \<Rightarrow> string" where
  "print_ds key v = key @ '': '' @ v @ [NL]"

definition run_reducer_on :: "string \<Rightarrow> (string \<Rightarrow> string \<Rightarrow> string res) \<Rightarrow> string res" where
  "run_reducer_on input func =
     bindE (forE (getlines input) (reduce_line func) datastore_init) (\<lambda>my_datastore.
       OK (datastore_iterate my_datastore print_ds))"

definition sum_reducer :: "string \<Rightarrow> string \<Rightarrow> string res" where
  "sum_reducer value1 value2 =
     bindE (atoi value1) (\<lambda>count1. bindE (atoi value2) (\<lambda>count2.
       bindE (c_int (count1 + count2)) (\<lambda>s. OK (show_int s))))"

subsection \<open>The pipeline\<close>

text \<open>
  The child that starts splitter \<open>i\<close> prints \<open>i\<close> into \<open>char str[2]\<close>: with its NUL it has to fit.
  Mapper \<open>i\<close> then reads portion \<open>i\<close> of the file.
\<close>

definition start_mapper :: "string \<Rightarrow> nat \<Rightarrow> (string \<Rightarrow> string) \<Rightarrow> nat \<Rightarrow> string list res" where
  "start_mapper data cnt mapper i =
     (if length (show_nat i @ [NUL]) > 2 then Fault Out_Of_Bounds
      else OK (run_mapper_on_fds (write_portion data (int cnt) (int i)) mapper))"

definition mapper_outputs :: "string \<Rightarrow> nat \<Rightarrow> (string \<Rightarrow> string) \<Rightarrow> string list list res" where
  "mapper_outputs data cnt mapper =
     forE [0..<cnt] (\<lambda>i outs. bindE (start_mapper data cnt mapper i) (\<lambda>out. OK (outs @ [out]))) []"

text \<open>
  All mappers write to the one pipe the reducer reads. What a mapper prints for a line goes to
  the pipe in one write when it has at most \<open>PIPE_BUF\<close> bytes, which is also the size of the
  buffer of its output, and in any pieces when it is longer (\<open>written\<close>). The pipe has the writes
  of each mapper in their order, between those of the others in any way (\<open>merged\<close>).
\<close>

definition PIPE_BUF :: nat where "PIPE_BUF = 4096"

inductive written :: "string list \<Rightarrow> string list \<Rightarrow> bool" where
  none: "written [] []"
| whole: "length w \<le> PIPE_BUF \<Longrightarrow> written ws ps \<Longrightarrow> written (w # ws) (w # ps)"
| pieces: "PIPE_BUF < length w \<Longrightarrow> concat cs = w \<Longrightarrow> written ws ps \<Longrightarrow> written (w # ws) (cs @ ps)"

inductive merged :: "string list list \<Rightarrow> string \<Rightarrow> bool" where
  all_out: "\<forall>ps \<in> set pss. ps = [] \<Longrightarrow> merged pss []"
| one: "i < length pss \<Longrightarrow> pss ! i = p # ps \<Longrightarrow> merged (pss[i := ps]) pipe \<Longrightarrow> merged pss (p @ pipe)"

definition reducer_input :: "string list list \<Rightarrow> string \<Rightarrow> bool" where
  "reducer_input outs pipe \<longleftrightarrow> (\<exists>pss. list_all2 written outs pss \<and> merged pss pipe)"

section \<open>Specification\<close>

text \<open>The words of a file, and the sorted table of how often each occurs.\<close>

definition line_words :: "string \<Rightarrow> string list" where
  "line_words line = strtok_all (CHR '' '') (replace_chars (strip_line line))"

definition file_words :: "string \<Rightarrow> string list" where
  "file_words data = concat (map line_words (getlines data))"

definition count_pairs :: "string list \<Rightarrow> (string \<times> string) list" where
  "count_pairs ws = map (\<lambda>w. (w, show_int (int (count_list ws w)))) (sorted_list_of_set (set ws))"

definition count_table :: "string list \<Rightarrow> string" where
  "count_table ws = concat (map (\<lambda>(k, v). k @ '': '' @ v @ [NL]) (count_pairs ws))"

section \<open>Lemmas\<close>

definition word_line :: "string \<Rightarrow> string" where
  "word_line w = (w @ '': 1'') @ [NL]"

definition plain_word :: "string \<Rightarrow> bool" where
  "plain_word w \<longleftrightarrow> CHR '':'' \<notin> set w \<and> NL \<notin> set w \<and> NUL \<notin> set w"

lemma strtok_all_chars: "t \<in> set (strtok_all d s) \<Longrightarrow> set t \<subseteq> set s"
proof (induction d s rule: strtok_all.induct)
  case (1 d s)
  show ?case
  proof (cases "strtok d s")
    case None
    with "1.prems" show ?thesis by (simp add: strtok_all.simps)
  next
    case (Some p)
    then obtain u rest where p: "strtok d s = Some (u, rest)" by (cases p) simp
    then have "set u \<subseteq> set s" "set rest \<subseteq> set s"
      by (auto simp: strtok_def Let_def split: if_splits dest!: in_set_dropD set_takeWhileD set_dropWhileD)
    moreover have "t = u \<or> t \<in> set (strtok_all d rest)"
      using "1.prems" p by (simp add: strtok_all.simps [of d s])
    ultimately show ?thesis using "1.IH" [OF p refl] by blast
  qed
qed

lemma strip_line_NUL: "NUL \<notin> set (strip_line line)"
  by (auto simp: strip_line_def cstr_def dest: set_takeWhileD)

lemma line_words_plain: "w \<in> set (line_words line) \<Longrightarrow> plain_word w"
proof -
  assume "w \<in> set (line_words line)"
  then have "set w \<subseteq> set (replace_chars (strip_line line))"
    unfolding line_words_def by (rule strtok_all_chars)
  moreover have "NL \<notin> set (replace_chars s)" "CHR '':'' \<notin> set (replace_chars s)" for s
    by (auto simp: replace_chars_def Let_def NL_def split: if_splits)
  moreover have "NUL \<notin> set (replace_chars (strip_line line))"
    using strip_line_NUL [of line] by (auto simp: replace_chars_def Let_def NUL_def split: if_splits)
  ultimately show ?thesis by (auto simp: plain_word_def)
qed

lemma file_words_plain: "w \<in> set (file_words data) \<Longrightarrow> plain_word w"
  by (auto simp: file_words_def line_words_plain)

lemma getlines_word_lines:
  assumes "\<forall>w \<in> set ws. plain_word w"
  shows "getlines (concat (map word_line ws)) = map word_line ws"
proof -
  have "NL \<notin> set l" if "l \<in> set (map (\<lambda>w. w @ '': 1'') ws)" for l
    using assms that by (auto simp: plain_word_def NL_def)
  from getlines_concat [of "map (\<lambda>w. w @ '': 1'') ws", OF this] show ?thesis
    by (simp add: word_line_def [abs_def] comp_def)
qed

lemma concat_map_concat: "concat (map f (concat xss)) = concat (map (\<lambda>xs. concat (map f xs)) xss)"
  by (induction xss) auto

lemma map_concat_map: "map f (concat (map g xs)) = concat (map (\<lambda>x. map f (g x)) xs)"
  by (induction xs) auto

lemma run_mapper_words:
  "concat (run_mapper_on_fds input wordcount_mapper) = concat (map word_line (file_words input))"
  by (simp add: run_mapper_on_fds_def wordcount_mapper_def file_words_def line_words_def
      word_line_def [abs_def] concat_map_concat comp_def)

text \<open>Up to ten mappers can be started.\<close>

lemma show_nat_fits: "length (show_nat i @ [NUL]) > 2 \<longleftrightarrow> 10 \<le> i"
proof (cases "i < 10")
  case False
  then have "show_nat i = show_nat (i div 10) @ [digit (i mod 10)]" by (subst show_nat.simps) simp
  moreover have "length (show_nat (i div 10)) > 0" by simp
  ultimately show ?thesis using False by simp
qed (simp add: show_nat.simps)

lemma mapper_outputs_ten:
  "n \<le> 10 \<Longrightarrow> mapper_outputs data n f =
     OK (map (\<lambda>i. run_mapper_on_fds (write_portion data (int n) (int i)) f) [0..<n])"
proof -
  assume n: "n \<le> 10"
  let ?g = "\<lambda>i. run_mapper_on_fds (write_portion data (int n) (int i)) f"
  have "\<exists>outs. mapper_outputs data n f = OK outs \<and> outs = map ?g [0..<length [0..<n]]"
    unfolding mapper_outputs_def
  proof (rule forE_rule [where P = "\<lambda>k outs. outs = map ?g [0..<k]"])
    fix k outs assume "k < length [0..<n]" "outs = map ?g [0..<k]"
    then show "\<exists>outs'. bindE (start_mapper data n f ([0..<n] ! k)) (\<lambda>out. OK (outs @ [out])) = OK outs' \<and>
        outs' = map ?g [0..<Suc k]"
      using n show_nat_fits [of k] by (simp add: start_mapper_def)
  qed simp
  then show ?thesis by simp
qed

lemma mapper_outputs_eleven: "10 < n \<Longrightarrow> mapper_outputs data n f = Fault Out_Of_Bounds"
proof -
  assume n: "10 < n"
  let ?body = "\<lambda>i outs. bindE (start_mapper data n f i) (\<lambda>out. OK (outs @ [out]))"
  have "\<exists>outs. forE [0..<10] ?body [] = OK outs \<and> True"
  proof (rule forE_rule [where P = "\<lambda>_ _. True"])
    fix k and outs :: "string list list" assume "k < length [0..<10::nat]"
    then show "\<exists>outs'. ?body ([0..<10] ! k) outs = OK outs' \<and> True"
      using show_nat_fits [of k] by (simp add: start_mapper_def del: upt_rec_numeral)
  qed simp
  then obtain outs where "forE [0..<10] ?body [] = OK outs" by blast
  moreover have "[0..<n] = [0..<10] @ 10 # [Suc 10..<n]"
    using n upt_add_eq_append [of 0 10 "n - 10"] by (simp add: upt_conv_Cons del: upt_rec_numeral)
  moreover have "start_mapper data n f 10 = Fault Out_Of_Bounds"
    using show_nat_fits [of 10] by (simp add: start_mapper_def)
  ultimately show ?thesis by (simp add: mapper_outputs_def forE_append del: upt_rec_numeral)
qed

text \<open>Writes that are not cut stay whole, and the pipe has them in some order.\<close>

lemma written_whole: "written ws ps \<Longrightarrow> (\<And>w. w \<in> set ws \<Longrightarrow> length w \<le> PIPE_BUF) \<Longrightarrow> ps = ws"
  by (induction rule: written.induct) (auto simp: not_less [symmetric])

lemma all_written_whole:
  "list_all2 written wss pss \<Longrightarrow> (\<And>ws w. ws \<in> set wss \<Longrightarrow> w \<in> set ws \<Longrightarrow> length w \<le> PIPE_BUF) \<Longrightarrow> pss = wss"
  by (induction rule: list_all2_induct) (auto dest: written_whole)

lemma merged_order:
  "merged pss pipe \<Longrightarrow> \<exists>ws. pipe = concat ws \<and> mset ws = mset (concat pss)"
proof (induction rule: merged.induct)
  case (all_out pss)
  then have "concat pss = []" by simp
  then show ?case by (intro exI [of _ "[]"]) simp
next
  case (one i pss p ps pipe)
  from one.IH obtain ws where ws: "pipe = concat ws" "mset ws = mset (concat (pss[i := ps]))" by blast
  have "pss = take i pss @ (p # ps) # drop (Suc i) pss" "pss[i := ps] = take i pss @ ps # drop (Suc i) pss"
    using one.hyps(1,2) by (metis id_take_nth_drop, simp add: upd_conv_take_nth_drop)
  then have "mset (concat pss) = {#p#} + mset (concat (pss[i := ps]))"
    by (metis (no_types, lifting) append_Cons concat.simps(2) concat_append mset.simps(2) mset_append
        union_mset_add_mset_left union_mset_add_mset_right add_mset_add_single union_commute)
  then show ?case using ws by (intro exI [of _ "p # ws"]) simp
qed

text \<open>Lines of outputs that end with a newline.\<close>

lemma getlines_parts:
  "(\<And>x. x \<in> set xs \<Longrightarrow> x = [] \<or> last x = NL) \<Longrightarrow> getlines (concat xs) = concat (map getlines xs)"
  by (induction xs) (simp_all add: getlines_append)

lemma mapper_writes_lines:
  assumes "length data * n < 2 ^ 64" "0 < n" "n < 2 ^ 31"
  shows "concat (map (\<lambda>i. run_mapper_on_fds (write_portion data (int n) (int i)) f) [0..<n]) =
    run_mapper_on_fds data f"
  unfolding run_mapper_on_fds_def splitter_lines_eq [OF assms, symmetric] map_concat
  by (simp add: comp_def)

lemma reducer_lines:
  assumes n: "length data * n < 2 ^ 64" "0 < n" "n \<le> 10"
    and ends: "\<And>s. f s = [] \<or> last (f s) = NL"
    and short: "\<And>l. l \<in> set (getlines data) \<Longrightarrow> length (f (strip_line l)) \<le> PIPE_BUF"
    and pipe: "mapper_outputs data n f = OK outs" "reducer_input outs pipe"
  shows "mset (getlines pipe) = mset (getlines (concat (run_mapper_on_fds data f)))"
proof -
  have outs: "concat outs = run_mapper_on_fds data f"
    using pipe(1) mapper_writes_lines [OF n(1,2)] n(3) by (auto simp: mapper_outputs_ten [OF n(3)])
  from pipe(2) obtain pss where pss: "list_all2 written outs pss" "merged pss pipe"
    by (auto simp: reducer_input_def)
  have "length w \<le> PIPE_BUF" if "ws \<in> set outs" "w \<in> set ws" for ws w
  proof -
    have "w \<in> set (run_mapper_on_fds data f)" using that by (auto simp flip: outs)
    then show ?thesis using short by (auto simp: run_mapper_on_fds_def)
  qed
  then have "pss = outs" using all_written_whole [OF pss(1)] by blast
  then obtain ws where ws: "pipe = concat ws" "mset ws = mset (run_mapper_on_fds data f)"
    using merged_order [OF pss(2)] outs by auto
  have e: "x = [] \<or> last x = NL" if "x \<in> set (run_mapper_on_fds data f)" for x
    using that ends by (auto simp: run_mapper_on_fds_def)
  then have "getlines pipe = concat (map getlines ws)"
    unfolding ws(1) using mset_eq_setD [OF ws(2)] by (intro getlines_parts) auto
  moreover have "mset (concat (map getlines ws)) = mset (concat (map getlines (run_mapper_on_fds data f)))"
    unfolding mset_concat map_map mset_map [symmetric]
    by (simp only: sum_mset_sum_list [symmetric] mset_map ws(2))
  ultimately show ?thesis using getlines_parts [OF e] by simp
qed

lemma wordcount_ends: "wordcount_mapper s = [] \<or> last (wordcount_mapper s) = NL"
proof (cases "strtok_all (CHR '' '') (replace_chars s)" rule: rev_cases)
  case (snoc ws w)
  then show ?thesis by (simp add: wordcount_mapper_def)
qed (simp add: wordcount_mapper_def)

lemma strstr_first:
  "c \<notin> set a \<Longrightarrow> take (length t) b = t \<Longrightarrow> strstr (a @ c # b) (c # t) = Some (length a)"
  by (induction a) auto

lemma cstr_stop: "NUL \<notin> set a \<Longrightarrow> cstr (a @ NUL # b) = a"
  by (simp add: cstr_def)

lemma split_word_line: "plain_word w \<Longrightarrow> split_key_value (cstr (word_line w)) = Some (w, ''1'')"
proof -
  assume w: "plain_word w"
  have id: "cstr (word_line w) = w @ CHR '':'' # CHR '' '' # CHR ''1'' # [NL]"
    using w by (simp add: word_line_def plain_word_def NUL_def NL_def)
  have s: "strstr (w @ CHR '':'' # CHR '' '' # CHR ''1'' # [NL]) '': '' = Some (length w)"
    using w by (intro strstr_first) (auto simp: plain_word_def)
  have "strstr ((w @ '': 1'') @ NL # []) (NL # []) = Some (length (w @ '': 1''))"
    using w by (intro strstr_first) (auto simp: plain_word_def NL_def)
  then have n: "strstr (w @ CHR '':'' # CHR '' '' # CHR ''1'' # [NL]) [NL] = Some (length w + 3)"
    by (simp add: eval_nat_numeral)
  have buf: "((w @ CHR '':'' # CHR '' '' # CHR ''1'' # [NL]) @ [NUL])[length w := NUL, length w + 3 := NUL] =
      w @ NUL # CHR '' '' # CHR ''1'' # NUL # [NUL]"
    by (simp add: list_update_append)
  show ?thesis
    unfolding split_key_value_def id s n option.case prod.case Let_def buf
    using w by (simp add: plain_word_def cstr_stop) (simp add: cstr_def NUL_def)
qed

section \<open>Counting\<close>

definition counts :: "string list \<Rightarrow> string \<rightharpoonup> string" where
  "counts ws w = (if w \<in> set ws then Some (show_int (int (count_list ws w))) else None)"

lemma sum_one: "int n < INT_MAX \<Longrightarrow> sum_reducer (show_int (int n)) ''1'' = OK (show_int (int (Suc n)))"
proof -
  assume n: "int n < INT_MAX"
  have "atoi ''1'' = OK 1" using atoi_show_int [of 1] by (simp add: show_int_one INT_MIN_def INT_MAX_def)
  moreover have "atoi (show_int (int n)) = OK (int n)"
    using n by (intro atoi_show_int) (simp_all add: INT_MIN_def)
  moreover have "c_int (int n + 1) = OK (int n + 1)"
    using n by (intro c_int_OK) (simp_all add: INT_MIN_def)
  ultimately show ?thesis by (simp add: sum_reducer_def add.commute)
qed

lemma reduce_word:
  assumes ds: "ds_inv s" "ds_map s = counts ws" and w: "plain_word w" and n: "length ws < 2 ^ 31 - 1"
  shows "\<exists>s'. reduce_line sum_reducer (word_line w) s = OK s' \<and> ds_inv s' \<and> ds_map s' = counts (ws @ [w])"
proof (cases "w \<in> set ws")
  case True
  then have get: "datastore_get s w = Some (show_int (int (count_list ws w)))"
    using ds ds.get_law by (simp add: counts_def)
  have "int (count_list ws w) < INT_MAX"
    using n count_le_length [of ws w] by (simp add: INT_MAX_def)
  note sum = sum_one [OF this]
  obtain s' r where up: "datastore_update s w (show_int (int (Suc (count_list ws w)))) = (s', r)" by fastforce
  have "ds_inv s' \<and> ds_map s' = (ds_map s)(w \<mapsto> show_int (int (Suc (count_list ws w))))"
    using ds.update_law [OF ds(1) up] get ds.get_law [OF ds(1), of w] by simp
  moreover have "(counts ws)(w \<mapsto> show_int (int (Suc (count_list ws w)))) = counts (ws @ [w])"
    using True by (auto simp: counts_def fun_eq_iff add.commute)
  ultimately show ?thesis using ds(2) get sum up
    by (simp add: reduce_line_def split_word_line [OF w])
next
  case False
  then have get: "datastore_get s w = None" using ds ds.get_law by (simp add: counts_def)
  obtain s' r where up: "datastore_put s w ''1'' = (s', r)" by fastforce
  have "ds_inv s' \<and> ds_map s' = (ds_map s)(w \<mapsto> ''1'')"
    using ds.put_law [OF ds(1) up] get ds.get_law [OF ds(1), of w] by simp
  moreover have "(counts ws)(w \<mapsto> ''1'') = counts (ws @ [w])"
    using False by (auto simp: counts_def fun_eq_iff show_int_one count_list_0_iff)
  ultimately show ?thesis using ds(2) get up
    by (simp add: reduce_line_def split_word_line [OF w])
qed

lemma reduce_words:
  assumes "\<forall>w \<in> set ws. plain_word w" "length ws < 2 ^ 31"
  shows "\<exists>s. forE (map word_line ws) (reduce_line sum_reducer) datastore_init = OK s \<and>
    ds_inv s \<and> ds_map s = counts ws"
proof -
  have "\<exists>s. forE (map word_line ws) (reduce_line sum_reducer) datastore_init = OK s \<and>
      (ds_inv s \<and> ds_map s = counts (take (length (map word_line ws)) ws))"
  proof (rule forE_rule [where P = "\<lambda>k s. ds_inv s \<and> ds_map s = counts (take k ws)"])
    show "ds_inv datastore_init \<and> ds_map datastore_init = counts (take 0 ws)"
      using ds.empty_law by (simp add: counts_def [abs_def])
    fix k s assume k: "k < length (map word_line ws)" and s: "ds_inv s \<and> ds_map s = counts (take k ws)"
    then have "plain_word (ws ! k)" "length (take k ws) < 2 ^ 31 - 1" using assms by simp_all
    with reduce_word [of s "take k ws" "ws ! k"] s k
    show "\<exists>s'. reduce_line sum_reducer (map word_line ws ! k) s = OK s' \<and>
        ds_inv s' \<and> ds_map s' = counts (take (Suc k) ws)"
      by (simp add: take_Suc_conv_app_nth)
  qed
  then show ?thesis by simp
qed

lemma count_pairs_map: "map_of (count_pairs ws) = counts ws"
  by (auto simp: counts_def [abs_def] count_pairs_def map_of_map_restrict restrict_map_def fun_eq_iff)

lemma count_pairs_sorted: "sorted_wrt (<) (map fst (count_pairs ws))"
  by (simp add: count_pairs_def comp_def)

lemma count_pairs_mset: "mset ws = mset ws' \<Longrightarrow> count_pairs ws = count_pairs ws'"
proof -
  assume m: "mset ws = mset ws'"
  then have "count_list ws w = count_list ws' w" for w by (metis count_mset)
  then show ?thesis using mset_eq_setD [OF m] by (simp add: count_pairs_def)
qed

text \<open>Lines that are those of the words \<open>ws\<close> in some order are the lines of a reordering of \<open>ws\<close>.\<close>

lemma unshuffle:
  assumes "mset ls = mset (map word_line ws)"
  shows "\<exists>ws'. ls = map word_line ws' \<and> mset ws' = mset ws"
proof -
  let ?u = "\<lambda>l. take (length l - 4) l"
  have u: "?u (word_line w) = w" for w by (simp add: word_line_def)
  have "set ls = word_line ` set ws" using mset_eq_setD [OF assms] by simp
  then have "map word_line (map ?u ls) = ls" by (auto intro!: map_idI simp: u)
  moreover have "mset (map ?u ls) = mset ws"
  proof -
    have "mset (map ?u ls) = image_mset ?u (mset ls)" by simp
    also have "\<dots> = image_mset (\<lambda>w. ?u (word_line w)) (mset ws)"
      unfolding assms by (simp add: multiset.map_comp comp_def)
    finally show ?thesis by (simp add: u)
  qed
  ultimately show ?thesis by metis
qed

section \<open>Properties\<close>

text \<open>
  C2: counting the words of a file with one to ten mappers starts them all, and however their
  writes come together in the pipe, prints every word of the file once, in increasing order, with
  the number of its occurrences, as long as what is printed for a single line of the file has at
  most \<open>PIPE_BUF\<close> bytes.
\<close>

theorem wordcount_end_to_end:
  assumes "length data * n < 2 ^ 64" "0 < n" "n \<le> 10" "length (file_words data) < 2 ^ 31"
    "\<forall>l \<in> set (getlines data). length (wordcount_mapper (strip_line l)) \<le> PIPE_BUF"
  shows "\<exists>outs. mapper_outputs data n wordcount_mapper = OK outs \<and>
    (\<forall>pipe. reducer_input outs pipe \<longrightarrow>
      run_reducer_on pipe sum_reducer = OK (count_table (file_words data)))"
proof -
  obtain outs where outs: "mapper_outputs data n wordcount_mapper = OK outs"
    using mapper_outputs_ten [OF assms(3)] by blast
  have "run_reducer_on pipe sum_reducer = OK (count_table (file_words data))"
    if pipe: "reducer_input outs pipe" for pipe
  proof -
    have "getlines (concat (run_mapper_on_fds data wordcount_mapper)) = map word_line (file_words data)"
      unfolding run_mapper_words by (rule getlines_word_lines) (simp add: file_words_plain)
    then have "mset (getlines pipe) = mset (map word_line (file_words data))"
      using reducer_lines [OF assms(1-3) wordcount_ends _ outs pipe] assms(5) by simp
    then obtain ws where ws: "getlines pipe = map word_line ws" "mset ws = mset (file_words data)"
      using unshuffle by blast
    have "\<forall>w \<in> set ws. plain_word w" "length ws < 2 ^ 31"
      using mset_eq_setD [OF ws(2)] file_words_plain mset_eq_length [OF ws(2)] assms(4) by auto
    from reduce_words [OF this] obtain s where
      s: "forE (getlines pipe) (reduce_line sum_reducer) datastore_init = OK s" "ds_inv s" "ds_map s = counts ws"
      unfolding ws(1) by blast
    have "pairs s = count_pairs ws"
      by (rule ds.entries_unique [OF s(2) count_pairs_sorted]) (simp add: s(3) count_pairs_map)
    then have "datastore_iterate s print_ds = count_table (file_words data)"
      using count_pairs_mset [OF ws(2)]
      by (simp add: datastore_iterate_def twalk_pairs count_table_def print_ds_def)
    then show ?thesis by (simp add: run_reducer_on_def s(1))
  qed
  then show ?thesis using outs by blast
qed

lemma wordcount_example:
  "getlines (''b a'' @ [NL] @ ''b'') = [''b a'' @ [NL], ''b'']"
  "file_words (''b a'' @ [NL] @ ''b'') = [''b'', ''a'', ''b'']"
proof -
  show g: "getlines (''b a'' @ [NL] @ ''b'') = [''b a'' @ [NL], ''b'']"
    using getlines_step [of "''b a''" "''b''"] getlines_last [of "''b''"] by (simp add: NL_def)
  have "line_words (''b a'' @ [NL]) = [''b'', ''a'']" "line_words ''b'' = [''b'']"
    using strtok_all_step(1) [of "''b''" "CHR '' ''" "''a''"] strtok_all_step(2) [of "''a''" "CHR '' ''"]
      strtok_all_step(2) [of "''b''" "CHR '' ''"]
    by (simp_all add: line_words_def strip_line_def replace_chars_def NL_def CR_def NUL_def cstr_def)
  then show "file_words (''b a'' @ [NL] @ ''b'') = [''b'', ''a'', ''b'']"
    using g by (simp add: file_words_def)
qed

text \<open>The two lines of the example go to two mappers, and the second writes first.\<close>

lemma wordcount_example_outputs:
  "mapper_outputs (''b a'' @ [NL] @ ''b'') 2 wordcount_mapper =
     OK [[''b: 1'' @ [NL] @ ''a: 1'' @ [NL]], [''b: 1'' @ [NL]]]"
proof -
  let ?data = "''b a'' @ [NL] @ ''b''"
  have "length ?data = 5" "length ?data * Suc 0 div 2 = 2" "nextLine ?data 2 5 = 4"
    by (simp, simp, simp add: nextLine.simps NL_def)
  then have cut: "cut ?data 2 0 = 0" "cut ?data 2 (Suc 0) = 4" "cut ?data 2 2 = 5"
    by (simp_all only: cut_def) simp_all
  have portion: "write_portion ?data 2 0 = ''b a'' @ [NL]" "write_portion ?data 2 1 = ''b''"
    using write_portion_cut [of ?data 2 0] write_portion_cut [of ?data 2 1] cut
    by (simp_all add: numeral_2_eq_2 [symmetric])
  have g: "getlines (''b a'' @ [NL]) = [''b a'' @ [NL]]" "getlines ''b'' = [''b'']"
    using getlines_step [of "''b a''" "[]"] getlines_last [of "''b''"] by (simp_all add: NL_def)
  have "wordcount_mapper (strip_line (''b a'' @ [NL])) = ''b: 1'' @ [NL] @ ''a: 1'' @ [NL]"
    "wordcount_mapper (strip_line ''b'') = ''b: 1'' @ [NL]"
    using strtok_all_step(1) [of "''b''" "CHR '' ''" "''a''"] strtok_all_step(2) [of "''a''" "CHR '' ''"]
      strtok_all_step(2) [of "''b''" "CHR '' ''"]
    by (simp_all add: wordcount_mapper_def strip_line_def replace_chars_def NL_def CR_def NUL_def cstr_def)
  then show ?thesis
    using portion g by (simp add: mapper_outputs_ten run_mapper_on_fds_def upt_rec)
qed

theorem wordcount_end_to_end_witness:
  "run_reducer_on (''b: 1'' @ [NL] @ ''b: 1'' @ [NL] @ ''a: 1'' @ [NL]) sum_reducer =
     OK (''a: 1'' @ [NL] @ ''b: 2'' @ [NL])"
proof -
  let ?data = "''b a'' @ [NL] @ ''b''"
  let ?one = "''b: 1'' @ [NL] @ ''a: 1'' @ [NL]" and ?two = "''b: 1'' @ [NL]"
  have "merged [[?one], [?two]] (?two @ ?one @ [])"
    by (rule merged.one [of 1 _ _ "[]"], simp, simp, rule merged.one [of 0 _ _ "[]"], simp_all add: merged.all_out)
  moreover have "list_all2 written [[?one], [?two]] [[?one], [?two]]"
    by (auto intro!: written.intros simp: PIPE_BUF_def)
  ultimately have pipe: "reducer_input [[?one], [?two]] (?two @ ?one)"
    unfolding reducer_input_def by (metis append_Nil2)
  have "\<forall>l \<in> set (getlines ?data). length (wordcount_mapper (strip_line l)) \<le> PIPE_BUF"
  proof -
    have "line_words (''b a'' @ [NL]) = [''b'', ''a'']" "line_words ''b'' = [''b'']"
      using strtok_all_step(1) [of "''b''" "CHR '' ''" "''a''"] strtok_all_step(2) [of "''a''" "CHR '' ''"]
        strtok_all_step(2) [of "''b''" "CHR '' ''"]
      by (simp_all add: line_words_def strip_line_def replace_chars_def NL_def CR_def NUL_def cstr_def)
    then show ?thesis using wordcount_example(1) by (simp add: wordcount_mapper_def line_words_def PIPE_BUF_def)
  qed
  then have "run_reducer_on (?two @ ?one) sum_reducer = OK (count_table [''b'', ''a'', ''b''])"
    using wordcount_end_to_end [of ?data 2] wordcount_example(2) wordcount_example_outputs pipe by simp
  moreover have "count_table [''b'', ''a'', ''b''] = ''a: 1'' @ [NL] @ ''b: 2'' @ [NL]"
  proof -
    have "sorted_list_of_set {''a'', ''b''} = [''a'', ''b'']"
      by (rule sorted_distinct_set_unique) simp_all
    moreover have "show_int 2 = ''2''" by code_simp
    ultimately show ?thesis
      by (simp add: count_table_def count_pairs_def show_int_one insert_commute)
  qed
  ultimately show ?thesis by simp
qed

text \<open>
  For any mapper that ends each of its outputs with a newline, the reducer's input has the
  lines of one mapper on the whole file, in some order, whatever the number of mappers up to ten,
  if no output for a single line is longer than \<open>PIPE_BUF\<close>.
\<close>

theorem mapper_split_independent:
  assumes "length data * n < 2 ^ 64" "0 < n" "n \<le> 10" "\<And>s. f s = [] \<or> last (f s) = NL"
    "\<And>l. l \<in> set (getlines data) \<Longrightarrow> length (f (strip_line l)) \<le> PIPE_BUF"
    "mapper_outputs data n f = OK outs" "reducer_input outs pipe"
  shows "mset (getlines pipe) = mset (getlines (concat (run_mapper_on_fds data f)))"
  by (rule reducer_lines [OF assms])

end
