(* ===== verification/Alloc.thy ===== *)
theory Alloc
  imports Prelude
begin

text \<open>
  The allocator of \<open>malloc/alloc.c\<close>: blocks in one address-ordered doubly linked list, the free
  ones also in a second one, first fit, splitting, and merging with both neighbours on \<open>free\<close>.
  The heap of metadata is explicit; both lists are kept, allocated blocks never overlap, and
  the contents of live blocks survive every operation.
\<close>

section \<open>The model\<close>

type_synonym address = nat
type_synonym byte = "8 word"

text \<open>Sizes are \<open>size_t\<close>, with the wrap-around written out; \<open>m_free\<close> is 0 or 1 in the code.\<close>

record metadata =
  m_next :: "address option"
  m_prev :: "address option"
  m_freenext :: "address option"
  m_freeprev :: "address option"
  m_ptr :: address
  m_size :: nat
  m_free :: bool

text \<open>\<open>brk\<close> is the end of the data segment, which \<open>sbrk\<close> moves.\<close>

record alloc_state =
  heap :: "address \<rightharpoonup> metadata"
  alloc_tail :: "address option"
  freehead :: "address option"
  brk :: address
  mem :: "address \<Rightarrow> byte"

definition METADATA :: nat where "METADATA = 56"

definition add64 :: "nat \<Rightarrow> nat \<Rightarrow> nat" where "add64 a b = (a + b) mod 2 ^ 64"

definition sub64 :: "nat \<Rightarrow> nat \<Rightarrow> nat" where "sub64 a b = (a + 2 ^ 64 - b) mod 2 ^ 64"

definition meta :: "address \<Rightarrow> alloc_state \<Rightarrow> metadata res" where
  "meta p st = (case heap st p of None \<Rightarrow> Fault Out_Of_Bounds | Some m \<Rightarrow> OK m)"

definition upd :: "address \<Rightarrow> (metadata \<Rightarrow> metadata) \<Rightarrow> alloc_state \<Rightarrow> alloc_state res" where
  "upd p f st = (case heap st p of
      None \<Rightarrow> Fault Out_Of_Bounds
    | Some m \<Rightarrow> OK (st\<lparr>heap := (heap st)(p \<mapsto> f m)\<rparr>))"

text \<open>\<open>if (p != NULL) { p->field = ...; }\<close>\<close>

definition upd_nonnull :: "address option \<Rightarrow> (metadata \<Rightarrow> metadata) \<Rightarrow> alloc_state \<Rightarrow> alloc_state res" where
  "upd_nonnull p f st = (case p of None \<Rightarrow> OK st | Some a \<Rightarrow> upd a f st)"

text \<open>
  \<open>sbrk\<close> takes a signed increment and returns the old break. The kernel may refuse, and does
  so beyond the address space of a process.
\<close>

definition sbrk :: "bool \<Rightarrow> nat \<Rightarrow> alloc_state \<Rightarrow> address option \<times> alloc_state" where
  "sbrk ok n st =
     (let b = int (brk st) + (if n < 2 ^ 63 then int n else int n - 2 ^ 64) in
      if ok \<and> 0 \<le> b \<and> b \<le> 2 ^ 47 then (Some (brk st), st\<lparr>brk := nat b\<rparr>) else (None, st))"

definition insertfree :: "address \<Rightarrow> alloc_state \<Rightarrow> alloc_state res" where
  "insertfree p st =
     bindE (upd p (\<lambda>m. m\<lparr>m_freeprev := None, m_freenext := freehead st\<rparr>) st) (\<lambda>st.
     bindE (upd_nonnull (freehead st) (\<lambda>m. m\<lparr>m_freeprev := Some p\<rparr>) st) (\<lambda>st.
     OK (st\<lparr>freehead := Some p\<rparr>)))"

definition removefree :: "address \<Rightarrow> alloc_state \<Rightarrow> alloc_state res" where
  "removefree p st =
     bindE (meta p st) (\<lambda>m.
     let tmp_prev = m_freeprev m; tmp_next = m_freenext m in
     bindE (upd p (\<lambda>m. m\<lparr>m_freeprev := None, m_freenext := None\<rparr>) st) (\<lambda>st.
     bindE (upd_nonnull tmp_next (\<lambda>m. m\<lparr>m_freeprev := tmp_prev\<rparr>) st) (\<lambda>st.
     bindE (upd_nonnull tmp_prev (\<lambda>m. m\<lparr>m_freenext := tmp_next\<rparr>) st) (\<lambda>st.
     OK (if freehead st = Some p then st\<lparr>freehead := tmp_next\<rparr> else st)))))"

definition split :: "address \<Rightarrow> nat \<Rightarrow> alloc_state \<Rightarrow> alloc_state res" where
  "split p sz st =
     bindE (meta p st) (\<lambda>m.
     if m_size m \<le> add64 sz (3 * METADATA) then OK st
     else if m_ptr m + sz \<ge> 2 ^ 64 then Fault Out_Of_Bounds
     else
       let tmp = m_next m; newptr = m_ptr m + sz in
       let st = st\<lparr>heap := (heap st)(newptr \<mapsto> \<lparr>m_next = tmp, m_prev = Some p,
             m_freenext = None, m_freeprev = None, m_ptr = newptr + METADATA,
             m_size = sub64 (sub64 (m_size m) sz) METADATA, m_free = True\<rparr>)\<rparr> in
       bindE (case tmp of
           Some t \<Rightarrow> upd t (\<lambda>m. m\<lparr>m_prev := Some newptr\<rparr>) st
         | None \<Rightarrow> OK (st\<lparr>alloc_tail := Some newptr\<rparr>)) (\<lambda>st.
       bindE (upd p (\<lambda>m. m\<lparr>m_next := Some newptr\<rparr>) st) (\<lambda>st.
       insertfree newptr st)))"

text \<open>The search of \<open>malloc\<close> along the free list; it runs forever on a cyclic list.\<close>

partial_function (option) find_fit ::
  "(address \<rightharpoonup> metadata) \<Rightarrow> nat \<Rightarrow> address option \<Rightarrow> address option res option" where
  "find_fit h sz tmp = (case tmp of
      None \<Rightarrow> Some (OK None)
    | Some p \<Rightarrow> (case h p of
        None \<Rightarrow> Some (Fault Out_Of_Bounds)
      | Some m \<Rightarrow> if m_size m \<ge> sz then Some (OK (Some p)) else find_fit h sz (m_freenext m)))"

definition first_fit :: "nat \<Rightarrow> alloc_state \<Rightarrow> address option res" where
  "first_fit sz st = (case find_fit (heap st) sz (freehead st) of
      None \<Rightarrow> Fault Nonterminating
    | Some r \<Rightarrow> r)"

text \<open>What a fresh piece of memory holds is not known; \<open>malloc\<close> writes every field of it.\<close>

definition raw_metadata :: "address \<Rightarrow> alloc_state \<Rightarrow> metadata" where
  "raw_metadata p st = (case heap st p of Some m \<Rightarrow> m
     | None \<Rightarrow> \<lparr>m_next = None, m_prev = None, m_freenext = None, m_freeprev = None,
                m_ptr = 0, m_size = 0, m_free = False\<rparr>)"

definition append_block :: "address \<Rightarrow> nat \<Rightarrow> alloc_state \<Rightarrow> alloc_state res" where
  "append_block chosen sz st =
     (let st = st\<lparr>heap := (heap st)(chosen \<mapsto> (raw_metadata chosen st)\<lparr>m_ptr := chosen + METADATA,
            m_size := sz, m_free := False, m_next := None\<rparr>)\<rparr> in
      bindE (upd_nonnull (alloc_tail st) (\<lambda>m. m\<lparr>m_next := Some chosen\<rparr>) st) (\<lambda>st.
      bindE (upd chosen (\<lambda>m. m\<lparr>m_prev := alloc_tail st\<rparr>) st) (\<lambda>st.
      let st = st\<lparr>alloc_tail := Some chosen\<rparr> in
      upd chosen (\<lambda>m. m\<lparr>m_freenext := None, m_freeprev := None\<rparr>) st)))"

definition malloc :: "bool \<Rightarrow> nat \<Rightarrow> alloc_state \<Rightarrow> (address option \<times> alloc_state) res" where
  "malloc ok sz st =
     (if sz = 0 then OK (None, st)
      else bindE (first_fit sz st) (\<lambda>chosen. case chosen of
        Some p \<Rightarrow>
          bindE (removefree p st) (\<lambda>st.
          bindE (split p sz st) (\<lambda>st.
          bindE (upd p (\<lambda>m. m\<lparr>m_free := False, m_size := sz\<rparr>) st) (\<lambda>st.
          bindE (meta p st) (\<lambda>m. OK (Some (m_ptr m), st)))))
      | None \<Rightarrow> (case sbrk ok (add64 METADATA sz) st of
            (None, st) \<Rightarrow> OK (None, st)
          | (Some chosen, st) \<Rightarrow>
              bindE (append_block chosen sz st) (\<lambda>st.
              bindE (split chosen sz st) (\<lambda>st.
              bindE (meta chosen st) (\<lambda>m. OK (Some (m_ptr m), st)))))))"

definition calloc :: "bool \<Rightarrow> nat \<Rightarrow> nat \<Rightarrow> alloc_state \<Rightarrow> (address option \<times> alloc_state) res" where
  "calloc ok num sz st =
     bindE (malloc ok ((num * sz) mod 2 ^ 64) st) (\<lambda>(p, st). case p of
       None \<Rightarrow> OK (None, st)
     | Some a \<Rightarrow> OK (Some a, st\<lparr>mem := (\<lambda>x. if a \<le> x \<and> x < a + (num * sz) mod 2 ^ 64 then 0
                                             else mem st x)\<rparr>))"

text \<open>\<open>p->next = n\<close> with the back pointer of \<open>n\<close>, or the tail when there is no \<open>n\<close>.\<close>

definition relink :: "address \<Rightarrow> address option \<Rightarrow> alloc_state \<Rightarrow> alloc_state res" where
  "relink p n st =
     bindE (upd p (\<lambda>m. m\<lparr>m_next := n\<rparr>) st) (\<lambda>st.
     bindE (upd_nonnull n (\<lambda>m. m\<lparr>m_prev := Some p\<rparr>) st) (\<lambda>st.
     OK (if n = None then st\<lparr>alloc_tail := Some p\<rparr> else st)))"

text \<open>Taking the free neighbour behind \<open>p\<close> into \<open>p\<close>, as \<open>free\<close> and \<open>realloc\<close> do.\<close>

definition absorb_next :: "address \<Rightarrow> address \<Rightarrow> alloc_state \<Rightarrow> alloc_state res" where
  "absorb_next p temp st =
     bindE (meta temp st) (\<lambda>t.
     bindE (upd p (\<lambda>m. m\<lparr>m_size := add64 (m_size m) (add64 (m_size t) METADATA)\<rparr>) st) (\<lambda>st.
     bindE (removefree temp st) (\<lambda>st.
     bindE (relink p (m_next t) st) (\<lambda>st.
     upd temp (\<lambda>m. m\<lparr>m_next := None, m_prev := None\<rparr>) st))))"

text \<open>Giving \<open>p\<close> to the free neighbour before it, which moves to the front of the free list.\<close>

definition absorb_prev :: "address \<Rightarrow> address \<Rightarrow> alloc_state \<Rightarrow> alloc_state res" where
  "absorb_prev temp p st =
     bindE (removefree temp st) (\<lambda>st.
     bindE (meta p st) (\<lambda>m.
     bindE (relink temp (m_next m) st) (\<lambda>st.
     bindE (upd temp (\<lambda>t. t\<lparr>m_size := add64 (m_size t) (add64 (m_size m) METADATA)\<rparr>) st) (\<lambda>st.
     bindE (upd p (\<lambda>m. m\<lparr>m_next := None, m_prev := None\<rparr>) st) (\<lambda>st.
     insertfree temp st)))))"

definition free :: "address option \<Rightarrow> alloc_state \<Rightarrow> alloc_state res" where
  "free ptr st = (case ptr of
      None \<Rightarrow> OK st
    | Some q \<Rightarrow> let p = q - METADATA in
        bindE (meta p st) (\<lambda>m.
        if m_free m then OK st
        else
        bindE (upd p (\<lambda>m. m\<lparr>m_free := True\<rparr>) st) (\<lambda>st.
        bindE (case m_next m of
            None \<Rightarrow> OK st
          | Some temp \<Rightarrow> bindE (meta temp st) (\<lambda>t. if m_free t then absorb_next p temp st else OK st)) (\<lambda>st.
        bindE (meta p st) (\<lambda>m. case m_prev m of
          None \<Rightarrow> insertfree p st
        | Some temp \<Rightarrow> bindE (meta temp st) (\<lambda>t.
            if m_free t then absorb_prev temp p st else insertfree p st))))))"

definition realloc :: "bool \<Rightarrow> address option \<Rightarrow> nat \<Rightarrow> alloc_state \<Rightarrow> (address option \<times> alloc_state) res" where
  "realloc ok ptr sz st = (case ptr of
      None \<Rightarrow> malloc ok sz st
    | Some q \<Rightarrow>
        if sz = 0 then bindE (free ptr st) (\<lambda>st. OK (None, st))
        else let p = q - METADATA in
          bindE (meta p st) (\<lambda>m.
          let oldsz = m_size m in
          if oldsz \<ge> sz then OK (ptr, st)
          else bindE (case m_next m of
              None \<Rightarrow> OK None
            | Some temp \<Rightarrow> bindE (meta temp st) (\<lambda>t.
                OK (if add64 (m_size t) oldsz \<ge> sz \<and> m_free t then Some temp else None))) (\<lambda>grow.
          case grow of
            Some temp \<Rightarrow> bindE (absorb_next p temp st) (\<lambda>st. OK (Some (m_ptr m), st))
          | None \<Rightarrow>
              bindE (malloc ok sz st) (\<lambda>(newptr, st). case newptr of
                None \<Rightarrow> OK (None, st)
              | Some a \<Rightarrow>
                  bindE (free ptr (st\<lparr>mem := (\<lambda>x. if a \<le> x \<and> x < a + oldsz then mem st (q + (x - a))
                                               else mem st x)\<rparr>)) (\<lambda>st.
                  OK (Some a, st))))))"

section \<open>Specification\<close>

text \<open>
  \<open>seg L pr as nx\<close>: the addresses \<open>as\<close> form a segment of a doubly linked list whose next and
  previous pointers are given by \<open>L\<close>, entered from \<open>pr\<close> and left to \<open>nx\<close>.
\<close>

type_synonym links = "address \<rightharpoonup> address option \<times> address option"

definition first :: "address list \<Rightarrow> address option \<Rightarrow> address option" where
  "first as nx = (case as of [] \<Rightarrow> nx | a # _ \<Rightarrow> Some a)"

definition final :: "address option \<Rightarrow> address list \<Rightarrow> address option" where
  "final pr as = (if as = [] then pr else Some (last as))"

fun seg :: "links \<Rightarrow> address option \<Rightarrow> address list \<Rightarrow> address option \<Rightarrow> bool" where
  "seg L pr [] nx \<longleftrightarrow> True"
| "seg L pr (a # as) nx \<longleftrightarrow> L a = Some (first as nx, pr) \<and> seg L (Some a) as nx"

definition phys :: "(address \<rightharpoonup> metadata) \<Rightarrow> links" where
  "phys h = (\<lambda>a. map_option (\<lambda>m. (m_next m, m_prev m)) (h a))"

definition frees :: "(address \<rightharpoonup> metadata) \<Rightarrow> links" where
  "frees h = (\<lambda>a. map_option (\<lambda>m. (m_freenext m, m_freeprev m)) (h a))"

text \<open>A block is its address, the size of its payload, and whether it is free.\<close>

type_synonym block = "address \<times> nat \<times> bool"

definition info :: "(address \<rightharpoonup> metadata) \<Rightarrow> address \<rightharpoonup> address \<times> nat \<times> bool" where
  "info h = (\<lambda>a. map_option (\<lambda>m. (m_ptr m, m_size m, m_free m)) (h a))"

fun infos :: "(address \<rightharpoonup> address \<times> nat \<times> bool) \<Rightarrow> block list \<Rightarrow> bool" where
  "infos I [] \<longleftrightarrow> True"
| "infos I ((a, s, f) # bs) \<longleftrightarrow> I a = Some (a + METADATA, s, f) \<and> infos I bs"

definition block_list :: "alloc_state \<Rightarrow> block list \<Rightarrow> bool" where
  "block_list st bs \<longleftrightarrow> seg (phys (heap st)) None (map fst bs) None \<and>
     alloc_tail st = final None (map fst bs) \<and>
     infos (info (heap st)) bs"

definition free_list :: "alloc_state \<Rightarrow> address list \<Rightarrow> bool" where
  "free_list st fs \<longleftrightarrow> seg (frees (heap st)) None fs None \<and> freehead st = first fs None \<and> distinct fs"

text \<open>Blocks lie in increasing order of their addresses and do not overlap.\<close>

fun spaced :: "nat \<Rightarrow> block list \<Rightarrow> nat \<Rightarrow> bool" where
  "spaced lo [] hi \<longleftrightarrow> lo \<le> hi"
| "spaced lo ((a, s, f) # bs) hi \<longleftrightarrow> lo \<le> a \<and> 0 < s \<and> spaced (a + METADATA + s) bs hi"

definition coalesced :: "block list \<Rightarrow> bool" where
  "coalesced bs \<longleftrightarrow> successively (\<lambda>x y. \<not> (snd (snd x) \<and> snd (snd y))) bs"

definition freeset :: "block list \<Rightarrow> address set" where
  "freeset bs = {a. \<exists>s. (a, s, True) \<in> set bs}"

text \<open>The payloads in use: the address the client holds, and its size.\<close>

definition live :: "block list \<Rightarrow> (address \<times> nat) set" where
  "live bs = {(q, s). \<exists>a. q = a + METADATA \<and> (a, s, False) \<in> set bs}"

definition alloc_inv :: "alloc_state \<Rightarrow> block list \<Rightarrow> address list \<Rightarrow> bool" where
  "alloc_inv st bs fs \<longleftrightarrow> block_list st bs \<and> free_list st fs \<and>
     set fs = freeset bs \<and> spaced 1 bs (brk st) \<and> brk st \<le> 2 ^ 47 \<and> coalesced bs"

section \<open>Linked lists\<close>

lemma first_simps [simp]: "first [] nx = nx" "first (a # as) nx = Some a"
  by (simp_all add: first_def)

lemma final_simps [simp]: "final pr [] = pr" "final pr (as @ [a]) = Some a"
  by (simp_all add: final_def)

lemma final_Cons [simp]: "final pr (a # as) = final (Some a) as"
  by (simp add: final_def)

lemma seg_append: "seg L pr (as @ bs) nx \<longleftrightarrow> seg L pr as (first bs nx) \<and> seg L (final pr as) bs nx"
  by (induction as arbitrary: pr) (auto simp: first_def split: list.splits)

lemma seg_cong: "(\<And>a. a \<in> set as \<Longrightarrow> L a = L' a) \<Longrightarrow> seg L pr as nx = seg L' pr as nx"
  by (induction as arbitrary: pr) auto

lemma seg_upd [simp]: "a \<notin> set as \<Longrightarrow> seg (L(a := v)) pr as nx = seg L pr as nx"
  by (rule seg_cong) auto

lemma first_append: "first (as @ bs) nx = first as (first bs nx)"
  by (cases as) simp_all

lemma final_append: "final pr (as @ bs) = final (final pr as) bs"
  by (induction as arbitrary: pr) simp_all

lemma seg_known: "seg L pr as nx \<Longrightarrow> a \<in> set as \<Longrightarrow> L a \<noteq> None"
  by (induction as arbitrary: pr) auto

lemma infos_append [simp]: "infos I (xs @ ys) \<longleftrightarrow> infos I xs \<and> infos I ys"
  by (induction I xs rule: infos.induct) auto

lemma infos_upd [simp]: "a \<notin> fst ` set bs \<Longrightarrow> infos (I(a := v)) bs = infos I bs"
  by (induction I bs rule: infos.induct) auto

lemma infos_known: "infos I bs \<Longrightarrow> (a, s, f) \<in> set bs \<Longrightarrow> I a = Some (a + METADATA, s, f)"
  by (induction I bs rule: infos.induct) auto

section \<open>Fields\<close>

lemma links_upd [simp]:
  "phys (h(a \<mapsto> m)) = (phys h)(a \<mapsto> (m_next m, m_prev m))"
  "frees (h(a \<mapsto> m)) = (frees h)(a \<mapsto> (m_freenext m, m_freeprev m))"
  "info (h(a \<mapsto> m)) = (info h)(a \<mapsto> (m_ptr m, m_size m, m_free m))"
  by (auto simp: phys_def frees_def info_def fun_eq_iff)

lemma links_Some: "h a = Some m \<Longrightarrow> phys h a = Some (m_next m, m_prev m)"
  "h a = Some m \<Longrightarrow> frees h a = Some (m_freenext m, m_freeprev m)"
  "h a = Some m \<Longrightarrow> info h a = Some (m_ptr m, m_size m, m_free m)"
  by (simp_all add: phys_def frees_def info_def)

lemma links_None: "phys h a = None \<longleftrightarrow> h a = None" "frees h a = None \<longleftrightarrow> h a = None"
  "info h a = None \<longleftrightarrow> h a = None"
  by (simp_all add: phys_def frees_def info_def)

lemma upd_OK: "heap st a = Some m \<Longrightarrow> upd a f st = OK (st\<lparr>heap := (heap st)(a \<mapsto> f m)\<rparr>)"
  by (simp add: upd_def)

lemma meta_OK: "heap st a = Some m \<Longrightarrow> meta a st = OK m"
  by (simp add: meta_def)

lemma links_idem:
  "h a = Some m \<Longrightarrow> (phys h)(a \<mapsto> (m_next m, m_prev m)) = phys h"
  "h a = Some m \<Longrightarrow> (frees h)(a \<mapsto> (m_freenext m, m_freeprev m)) = frees h"
  "h a = Some m \<Longrightarrow> (info h)(a \<mapsto> (m_ptr m, m_size m, m_free m)) = info h"
  by (simp_all add: links_Some fun_upd_idem)

text \<open>What the operations on one list leave alone.\<close>

definition same_blocks :: "alloc_state \<Rightarrow> alloc_state \<Rightarrow> bool" where
  "same_blocks st st' \<longleftrightarrow> phys (heap st') = phys (heap st) \<and> info (heap st') = info (heap st) \<and>
     alloc_tail st' = alloc_tail st \<and> brk st' = brk st \<and> mem st' = mem st"

definition same_frees :: "alloc_state \<Rightarrow> alloc_state \<Rightarrow> bool" where
  "same_frees st st' \<longleftrightarrow> frees (heap st') = frees (heap st) \<and> freehead st' = freehead st \<and>
     brk st' = brk st \<and> mem st' = mem st"

lemma same_blocks_list: "same_blocks st st' \<Longrightarrow> block_list st' bs = block_list st bs"
  by (simp add: same_blocks_def block_list_def)

lemma same_frees_list: "same_frees st st' \<Longrightarrow> free_list st' fs = free_list st fs"
  by (simp add: same_frees_def free_list_def)

lemma insertfree_ok:
  assumes fl: "free_list st fs" and p: "heap st p \<noteq> None" "p \<notin> set fs"
  shows "\<exists>st'. insertfree p st = OK st' \<and> free_list st' (p # fs) \<and> same_blocks st st'"
proof -
  from p(1) obtain m where m: "heap st p = Some m" by blast
  show ?thesis
  proof (cases fs)
    case Nil
    with fl m show ?thesis
      by (simp add: insertfree_def upd_OK upd_nonnull_def free_list_def same_blocks_def links_idem)
  next
    case (Cons q qs)
    with fl have q: "freehead st = Some q" "frees (heap st) q = Some (first qs None, None)"
      "seg (frees (heap st)) (Some q) qs None" "q \<notin> set qs" "p \<noteq> q" "p \<notin> set qs"
      using p(2) by (auto simp: free_list_def)
    then obtain mq where mq: "heap st q = Some mq" "m_freenext mq = first qs None"
      by (auto simp: frees_def)
    show ?thesis using fl m mq q Cons
      by (simp add: insertfree_def upd_OK upd_nonnull_def free_list_def same_blocks_def links_idem fun_upd_twist)
  qed
qed

lemma removefree_ok:
  assumes fl: "free_list st (as @ p # cs)"
  shows "\<exists>st'. removefree p st = OK st' \<and> free_list st' (as @ cs) \<and> same_blocks st st'"
proof -
  let ?L = "frees (heap st)"
  have d: "distinct (as @ p # cs)" and L: "seg ?L None as (Some p)" "seg ?L (Some p) cs None"
    "?L p = Some (first cs None, final None as)" "freehead st = first as (Some p)"
    using fl by (auto simp: free_list_def seg_append first_append)
  from L(3) obtain m where m: "heap st p = Some m" "m_freenext m = first cs None" "m_freeprev m = final None as"
    by (auto simp: frees_def)
  have known: "\<exists>n. heap st a = Some n" if "a \<in> set (as @ cs)" for a
    using that seg_known [OF L(1), of a] seg_known [OF L(2), of a] by (auto simp: links_None)
  show ?thesis
  proof (cases as rule: rev_cases)
    case Nil
    show ?thesis
    proof (cases cs)
      case Nil
      with \<open>as = []\<close> m L(4) show ?thesis
        by (simp add: removefree_def meta_OK upd_OK upd_nonnull_def free_list_def same_blocks_def links_idem)
    next
      case (Cons c cs')
      obtain mc where mc: "heap st c = Some mc" using known Cons by auto
      with Cons L(2) have "m_freenext mc = first cs' None" by (simp add: frees_def)
      with \<open>as = []\<close> Cons m mc L d show ?thesis
        by (simp add: removefree_def meta_OK upd_OK upd_nonnull_def free_list_def same_blocks_def links_idem)
    qed
  next
    case (snoc as' a)
    obtain ma where ma: "heap st a = Some ma" using known snoc by auto
    have la: "seg ?L None as' (Some a)" "m_freeprev ma = final None as'"
      using L(1) snoc ma by (auto simp: seg_append frees_def)
    have fh: "freehead st = first as' (Some a)" "freehead st \<noteq> Some p"
      using L(4) snoc d by (cases as'; auto simp: first_append)+
    show ?thesis
    proof (cases cs)
      case Nil
      with snoc m ma la fh d show ?thesis
        by (simp add: removefree_def meta_OK upd_OK upd_nonnull_def free_list_def same_blocks_def links_idem
            seg_append first_append)
    next
      case (Cons c cs')
      obtain mc where mc: "heap st c = Some mc" using known Cons by auto
      with Cons L(2) have "m_freenext mc = first cs' None" by (simp add: frees_def)
      with Cons snoc m ma mc la fh L(2) d show ?thesis
        by (simp add: removefree_def meta_OK upd_OK upd_nonnull_def free_list_def same_blocks_def links_idem
            seg_append first_append)
    qed
  qed
qed

lemma relink_ok:
  assumes bl: "block_list st (xs @ (a, s, f) # (b, s2, f2) # ys)"
    and d: "distinct (map fst (xs @ (a, s, f) # (b, s2, f2) # ys))"
  shows "\<exists>st'. relink a (first (map fst ys) None) st = OK st' \<and> block_list st' (xs @ (a, s, f) # ys) \<and>
    same_frees st st' \<and> info (heap st') = info (heap st)"
proof -
  let ?L = "phys (heap st)"
  have L: "seg ?L None (map fst xs) (Some a)" "?L a = Some (Some b, final None (map fst xs))"
    "?L b = Some (first (map fst ys) None, Some a)" "seg ?L (Some b) (map fst ys) None"
    using bl by (auto simp: block_list_def seg_append)
  obtain m where m: "heap st a = Some m" "m_prev m = final None (map fst xs)"
    using L(2) by (auto simp: phys_def)
  show ?thesis
  proof (cases ys)
    case Nil
    with bl d m L show ?thesis
      by (auto simp: relink_def upd_OK upd_nonnull_def block_list_def same_frees_def links_idem
          seg_append final_append)
  next
    case (Cons y ys')
    obtain c s3 f3 where y: "y = (c, s3, f3)" by (cases y)
    have c: "?L c = Some (first (map fst ys') None, Some b)" "seg ?L (Some c) (map fst ys') None"
      using L(4) Cons y by simp_all
    then obtain mc where mc: "heap st c = Some mc" "m_next mc = first (map fst ys') None"
      by (auto simp: phys_def)
    show ?thesis using bl d m L c mc Cons y
      by (auto simp: relink_def upd_OK upd_nonnull_def block_list_def same_frees_def links_idem
          seg_append final_append)
  qed
qed

section \<open>Blocks\<close>

lemma spaced_le: "spaced lo bs hi \<Longrightarrow> lo \<le> hi"
  by (induction lo bs hi rule: spaced.induct) auto

lemma spaced_append: "spaced lo (xs @ ys) hi \<longleftrightarrow> (\<exists>mid. spaced lo xs mid \<and> spaced mid ys hi)"
proof (induction xs arbitrary: lo)
  case Nil
  show ?case using spaced_le [of _ ys hi]
    by (cases ys) (auto intro: order_trans)
qed auto

lemma spaced_mono: "spaced lo bs hi \<Longrightarrow> lo' \<le> lo \<Longrightarrow> hi \<le> hi' \<Longrightarrow> spaced lo' bs hi'"
  by (induction lo bs hi arbitrary: lo' rule: spaced.induct) auto

lemma spaced_bounds: "spaced lo bs hi \<Longrightarrow> (a, s, f) \<in> set bs \<Longrightarrow> lo \<le> a \<and> 0 < s \<and> a + METADATA + s \<le> hi"
  by (induction lo bs hi rule: spaced.induct) (auto dest: spaced_le)

lemma spaced_distinct: "spaced lo bs hi \<Longrightarrow> distinct (map fst bs)"
  by (induction lo bs hi rule: spaced.induct) (auto dest: spaced_bounds)

text \<open>Two different blocks do not overlap, headers included.\<close>

lemma spaced_disjoint:
  "spaced lo bs hi \<Longrightarrow> (a, s, f) \<in> set bs \<Longrightarrow> (b, s2, f2) \<in> set bs \<Longrightarrow> a \<noteq> b \<Longrightarrow>
   a + METADATA + s \<le> b \<or> b + METADATA + s2 \<le> a"
  by (induction lo bs hi rule: spaced.induct) (auto dest: spaced_bounds)

lemma block_unique:
  "distinct (map fst bs) \<Longrightarrow> (a, s, f) \<in> set bs \<Longrightarrow> (a, s2, f2) \<in> set bs \<Longrightarrow> s = s2 \<and> f = f2"
  by (metis eq_key_imp_eq_value prod.inject)

lemma block_meta:
  "block_list st bs \<Longrightarrow> (a, s, f) \<in> set bs \<Longrightarrow>
   \<exists>m. heap st a = Some m \<and> m_ptr m = a + METADATA \<and> m_size m = s \<and> m_free m = f"
  using infos_known [of "info (heap st)" bs a s f] by (auto simp: block_list_def info_def)

lemma block_links:
  assumes "block_list st (xs @ (a, s, f) # ys)" "heap st a = Some m"
  shows "m_next m = first (map fst ys) None \<and> m_prev m = final None (map fst xs)"
  using assms by (auto simp: block_list_def seg_append links_Some)

text \<open>Changing the size and the free flag of one block.\<close>

lemma upd_info_ok:
  assumes bl: "block_list st (xs @ (a, s, f) # ys)" and d: "distinct (map fst (xs @ (a, s, f) # ys))"
    and g: "\<And>m. m_next (g m) = m_next m \<and> m_prev (g m) = m_prev m \<and> m_freenext (g m) = m_freenext m \<and>
        m_freeprev (g m) = m_freeprev m \<and> m_ptr (g m) = m_ptr m"
    and sf: "\<And>m. heap st a = Some m \<Longrightarrow> m_size (g m) = s' \<and> m_free (g m) = f'"
  shows "\<exists>st'. upd a g st = OK st' \<and> block_list st' (xs @ (a, s', f') # ys) \<and> same_frees st st'"
proof -
  obtain m where m: "heap st a = Some m" "m_ptr m = a + METADATA"
    using block_meta [OF bl, of a s f] by auto
  have "phys ((heap st)(a \<mapsto> g m)) = phys (heap st)" "frees ((heap st)(a \<mapsto> g m)) = frees (heap st)"
    using g [of m] links_idem [of "heap st" a m] m(1) by simp_all
  then show ?thesis using bl d m g [of m] sf [of m]
    by (auto simp: upd_OK block_list_def same_frees_def)
qed

text \<open>A stale header that is in neither list may be overwritten.\<close>

lemma upd_stale:
  assumes "heap st b \<noteq> None" "block_list st bs" "b \<notin> fst ` set bs" "free_list st fs" "b \<notin> set fs"
  shows "\<exists>st'. upd b g st = OK st' \<and> block_list st' bs \<and> free_list st' fs \<and> brk st' = brk st \<and> mem st' = mem st"
proof -
  obtain m where m: "heap st b = Some m" using assms(1) by blast
  have b: "b \<notin> set (map fst bs)" using assms(3) by simp
  have "block_list (st\<lparr>heap := (heap st)(b \<mapsto> g m)\<rparr>) bs"
    using assms(2,3) b by (simp add: block_list_def del: set_map)
  moreover have "free_list (st\<lparr>heap := (heap st)(b \<mapsto> g m)\<rparr>) fs"
    using assms(4,5) by (simp add: free_list_def)
  ultimately show ?thesis by (simp add: upd_OK [of st b m g] m)
qed

lemma add64_small: "a + b < 2 ^ 64 \<Longrightarrow> add64 a b = a + b"
  by (simp add: add64_def)

lemma sub64_small: "b \<le> a \<Longrightarrow> a < 2 ^ 64 \<Longrightarrow> sub64 a b = a - b"
  using mod_add_self2 [of "a - b" "2 ^ 64 :: nat"] unfolding sub64_def
  by (metis Nat.add_diff_assoc2 less_imp_diff_less mod_less)

lemma absorb_next_ok:
  assumes bl: "block_list st (xs @ (a, s, f) # (b, s2, True) # ys)"
    and d: "distinct (map fst (xs @ (a, s, f) # (b, s2, True) # ys))"
    and fl: "free_list st (as @ b # cs)" and small: "s + s2 + METADATA < 2 ^ 64"
  shows "\<exists>st'. absorb_next a b st = OK st' \<and> block_list st' (xs @ (a, s + s2 + METADATA, f) # ys) \<and>
    free_list st' (as @ cs) \<and> brk st' = brk st \<and> mem st' = mem st"
proof -
  obtain m where m: "heap st a = Some m" "m_size m = s" "m_free m = f"
    using block_meta [OF bl, of a s f] by auto
  obtain t where t: "heap st b = Some t" "m_size t = s2"
    using block_meta [OF bl, of b s2 True] by auto
  have nx: "m_next t = first (map fst ys) None"
    using block_links [of st "xs @ [(a, s, f)]" b s2 True ys t] bl t(1) by simp
  have sum: "add64 (m_size m) (add64 (m_size t) METADATA) = s + s2 + METADATA"
    using m t small by (simp add: add64_def)
  obtain st1 where st1: "upd a (\<lambda>m. m\<lparr>m_size := add64 (m_size m) (add64 (m_size t) METADATA)\<rparr>) st = OK st1"
    "block_list st1 (xs @ (a, s + s2 + METADATA, f) # (b, s2, True) # ys)" "same_frees st st1"
    using upd_info_ok [OF bl d, of "\<lambda>m. m\<lparr>m_size := add64 (m_size m) (add64 (m_size t) METADATA)\<rparr>"] m sum by auto
  have "free_list st1 (as @ b # cs)" using fl same_frees_list [OF st1(3)] by simp
  then obtain st2 where st2: "removefree b st1 = OK st2" "free_list st2 (as @ cs)" "same_blocks st1 st2"
    using removefree_ok by blast
  have "block_list st2 (xs @ (a, s + s2 + METADATA, f) # (b, s2, True) # ys)"
    using st1(2) same_blocks_list [OF st2(3)] by simp
  then obtain st3 where st3: "relink a (first (map fst ys) None) st2 = OK st3"
    "block_list st3 (xs @ (a, s + s2 + METADATA, f) # ys)" "same_frees st2 st3" "info (heap st3) = info (heap st2)"
    using relink_ok [of st2 xs a "s + s2 + METADATA" f b s2 True ys] d by auto
  have "heap st3 b \<noteq> None"
    using st3(4) st2(3) st1(2) by (auto simp: same_blocks_def block_list_def simp flip: links_None(3))
  moreover have "b \<notin> fst ` set (xs @ (a, s + s2 + METADATA, f) # ys)" using d by auto
  moreover have "free_list st3 (as @ cs)" using st2(2) same_frees_list [OF st3(3)] by simp
  moreover have "b \<notin> set (as @ cs)" using fl by (auto simp: free_list_def)
  ultimately obtain st4 where st4: "upd b (\<lambda>m. m\<lparr>m_next := None, m_prev := None\<rparr>) st3 = OK st4"
    "block_list st4 (xs @ (a, s + s2 + METADATA, f) # ys)" "free_list st4 (as @ cs)" "brk st4 = brk st3" "mem st4 = mem st3"
    using upd_stale [of st3 b "xs @ (a, s + s2 + METADATA, f) # ys" "as @ cs"] st3(2) by blast
  show ?thesis
    using st1 st2 st3 st4 nx t(1)
    by (auto simp: absorb_next_def meta_OK same_frees_def same_blocks_def)
qed

lemma absorb_prev_ok:
  assumes bl: "block_list st (xs @ (t, s0, True) # (p, s, f) # ys)"
    and d: "distinct (map fst (xs @ (t, s0, True) # (p, s, f) # ys))"
    and fl: "free_list st (as @ t # cs)" and p: "p \<notin> set (as @ t # cs)" and small: "s0 + s + METADATA < 2 ^ 64"
  shows "\<exists>st'. absorb_prev t p st = OK st' \<and> block_list st' (xs @ (t, s0 + s + METADATA, True) # ys) \<and>
    free_list st' (t # as @ cs) \<and> brk st' = brk st \<and> mem st' = mem st"
proof -
  obtain st1 where st1: "removefree t st = OK st1" "free_list st1 (as @ cs)" "same_blocks st st1"
    using removefree_ok [OF fl] by blast
  have bl1: "block_list st1 (xs @ (t, s0, True) # (p, s, f) # ys)" using bl same_blocks_list [OF st1(3)] by simp
  obtain m where m: "heap st1 p = Some m" "m_size m = s"
    using block_meta [OF bl1, of p s f] by auto
  have nx: "m_next m = first (map fst ys) None"
    using block_links [of st1 "xs @ [(t, s0, True)]" p s f ys m] bl1 m(1) by simp
  obtain st2 where st2: "relink t (first (map fst ys) None) st1 = OK st2" "block_list st2 (xs @ (t, s0, True) # ys)"
    "same_frees st1 st2" "info (heap st2) = info (heap st1)"
    using relink_ok [OF bl1 d] by blast
  have d2: "distinct (map fst (xs @ (t, s0, True) # ys))" using d by auto
  obtain n where n: "heap st2 t = Some n" "m_size n = s0" "m_free n"
    using block_meta [OF st2(2), of t s0 True] by auto
  have sum: "add64 (m_size n) (add64 (m_size m) METADATA) = s0 + s + METADATA"
    using m n small by (simp add: add64_def)
  obtain st3 where st3: "upd t (\<lambda>t. t\<lparr>m_size := add64 (m_size t) (add64 (m_size m) METADATA)\<rparr>) st2 = OK st3"
    "block_list st3 (xs @ (t, s0 + s + METADATA, True) # ys)" "same_frees st2 st3"
    using upd_info_ok [OF st2(2) d2, of "\<lambda>t. t\<lparr>m_size := add64 (m_size t) (add64 (m_size m) METADATA)\<rparr>"] n sum by auto
  have fl3: "free_list st3 (as @ cs)"
    using st1(2) same_frees_list [OF st2(3)] same_frees_list [OF st3(3)] by simp
  have "heap st3 p \<noteq> None"
    using links_Some(2) [of "heap st1" p m] m(1) st2(3) st3(3) by (simp add: same_frees_def flip: links_None(2))
  moreover have "p \<notin> fst ` set (xs @ (t, s0 + s + METADATA, True) # ys)" using d by auto
  moreover have "p \<notin> set (as @ cs)" using p by auto
  ultimately obtain st4 where st4: "upd p (\<lambda>m. m\<lparr>m_next := None, m_prev := None\<rparr>) st3 = OK st4"
    "block_list st4 (xs @ (t, s0 + s + METADATA, True) # ys)" "free_list st4 (as @ cs)" "brk st4 = brk st3" "mem st4 = mem st3"
    using upd_stale [OF _ st3(2) _ fl3] by blast
  have "heap st4 t \<noteq> None" using block_meta [OF st4(2), of t "s0 + s + METADATA" True] by auto
  moreover have "t \<notin> set (as @ cs)" using fl by (auto simp: free_list_def)
  ultimately obtain st5 where st5: "insertfree t st4 = OK st5" "free_list st5 (t # as @ cs)" "same_blocks st4 st5"
    using insertfree_ok [OF st4(3)] by blast
  have "block_list st5 (xs @ (t, s0 + s + METADATA, True) # ys)" using st4(2) same_blocks_list [OF st5(3)] by simp
  then show ?thesis
    using st1 st2 st3 st4 st5 nx m(1)
    by (auto simp: absorb_prev_def meta_OK same_frees_def same_blocks_def)
qed

lemma split_ok:
  assumes bl: "block_list st (xs @ (p, s, f) # ys)" and d: "distinct (map fst (xs @ (p, s, f) # ys))"
    and fl: "free_list st fs" and s: "sz \<le> s" "s < 2 ^ 47"
    and q: "q = p + METADATA + sz" "q \<notin> fst ` set (xs @ (p, s, f) # ys)" "q \<notin> set fs"
    and big: "sz + 3 * METADATA < s" and qb: "q < 2 ^ 64"
  shows "\<exists>st'. split p sz st = OK st' \<and> block_list st' (xs @ (p, s, f) # (q, s - sz - METADATA, True) # ys) \<and>
    free_list st' (q # fs) \<and> brk st' = brk st \<and> mem st' = mem st"
proof -
  let ?L = "phys (heap st)"
  have L: "seg ?L None (map fst xs) (Some p)" "?L p = Some (first (map fst ys) None, final None (map fst xs))"
    "seg ?L (Some p) (map fst ys) None"
    using bl by (auto simp: block_list_def seg_append)
  obtain m where m: "heap st p = Some m" "m_ptr m = p + METADATA" "m_size m = s"
    "m_free m = f" "m_next m = first (map fst ys) None" "m_prev m = final None (map fst xs)"
    using block_meta [OF bl, of p s f] block_links [OF bl] by auto
  have sizes: "add64 sz (3 * METADATA) = sz + 3 * METADATA" "sub64 (sub64 s sz) METADATA = s - sz - METADATA"
    using s big by (simp_all add: add64_small sub64_small METADATA_def)
  let ?n = "\<lparr>m_next = m_next m, m_prev = Some p, m_freenext = None, m_freeprev = None,
    m_ptr = q + METADATA, m_size = s - sz - METADATA, m_free = True\<rparr>"
  let ?st1 = "st\<lparr>heap := (heap st)(q \<mapsto> ?n)\<rparr>"
  have "\<exists>st3. bindE (case m_next m of
          Some t \<Rightarrow> upd t (\<lambda>m. m\<lparr>m_prev := Some q\<rparr>) ?st1
        | None \<Rightarrow> OK (?st1\<lparr>alloc_tail := Some q\<rparr>)) (upd p (\<lambda>m. m\<lparr>m_next := Some q\<rparr>)) = OK st3 \<and>
      block_list st3 (xs @ (p, s, f) # (q, s - sz - METADATA, True) # ys) \<and> free_list st3 fs \<and>
      brk st3 = brk st \<and> mem st3 = mem st"
  proof (cases ys)
    case Nil
    have "frees (heap st) p = Some (m_freenext m, m_freeprev m)" using m(1) by (rule links_Some)
    then have "seg ((frees (heap st))(q \<mapsto> (None, None), p \<mapsto> (m_freenext m, m_freeprev m))) None fs None"
      using fl q(3) by (subst seg_cong [where L' = "frees (heap st)"]) (auto simp: free_list_def)
    with Nil bl fl d m L q(2,3) show ?thesis
      by (auto simp: upd_OK block_list_def free_list_def seg_append final_append)
  next
    case (Cons y ys')
    obtain c s3 f3 where y: "y = (c, s3, f3)" by (cases y)
    then have c: "?L c = Some (first (map fst ys') None, Some p)" "seg ?L (Some c) (map fst ys') None"
      using L(3) Cons by simp_all
    then obtain mc where mc: "heap st c = Some mc" "m_next mc = first (map fst ys') None"
      by (auto simp: phys_def)
    have "frees (heap st) p = Some (m_freenext m, m_freeprev m)" "frees (heap st) c = Some (m_freenext mc, m_freeprev mc)"
      using m(1) mc(1) by (simp_all add: links_Some)
    then have "seg ((frees (heap st))(q \<mapsto> (None, None), c \<mapsto> (m_freenext mc, m_freeprev mc),
        p \<mapsto> (m_freenext m, m_freeprev m))) None fs None"
      using fl q(3) by (subst seg_cong [where L' = "frees (heap st)"]) (auto simp: free_list_def)
    moreover have "info (heap st) p = Some (m_ptr m, m_size m, m_free m)" "info (heap st) c = Some (m_ptr mc, m_size mc, m_free mc)"
      using m(1) mc(1) by (simp_all add: links_Some)
    moreover have "q \<noteq> p" "q \<noteq> c" "q \<notin> fst ` set xs" "q \<notin> fst ` set ys'"
      using q(2) Cons y by auto
    ultimately show ?thesis using bl fl d m L c mc Cons y
      by (auto simp: upd_OK block_list_def free_list_def seg_append final_append)
  qed
  then obtain st3 where st3: "bindE (case m_next m of
          Some t \<Rightarrow> upd t (\<lambda>m. m\<lparr>m_prev := Some q\<rparr>) ?st1
        | None \<Rightarrow> OK (?st1\<lparr>alloc_tail := Some q\<rparr>)) (upd p (\<lambda>m. m\<lparr>m_next := Some q\<rparr>)) = OK st3"
      "block_list st3 (xs @ (p, s, f) # (q, s - sz - METADATA, True) # ys)" "free_list st3 fs"
      "brk st3 = brk st" "mem st3 = mem st" by blast
  have "heap st3 q \<noteq> None" using block_meta [OF st3(2), of q "s - sz - METADATA" True] by auto
  then obtain st4 where st4: "insertfree q st3 = OK st4" "free_list st4 (q # fs)" "same_blocks st3 st4"
    using insertfree_ok [OF st3(3) _ q(3)] by blast
  have "split p sz st = bindE (bindE (case m_next m of
          Some t \<Rightarrow> upd t (\<lambda>m. m\<lparr>m_prev := Some q\<rparr>) ?st1
        | None \<Rightarrow> OK (?st1\<lparr>alloc_tail := Some q\<rparr>)) (upd p (\<lambda>m. m\<lparr>m_next := Some q\<rparr>))) (insertfree q)"
  proof -
    have ptr: "m_ptr m + sz = q" "\<not> q \<ge> 2 ^ 64" using m(2) q(1) qb by simp_all
    have "\<not> m_size m \<le> add64 sz (3 * METADATA)" using m(3) sizes(1) big by simp
    moreover have "sub64 (sub64 (m_size m) sz) METADATA = s - sz - METADATA" using m(3) sizes(2) by simp
    ultimately show ?thesis
      by (simp only: split_def meta_OK [OF m(1)] bindE_simps Let_def bindE_assoc if_False ptr)
  qed
  then show ?thesis using st3 st4 same_blocks_list [OF st4(3)] by (auto simp: same_blocks_def)
qed

lemma split_small:
  assumes "heap st p = Some m" "m_size m \<le> sz + 3 * METADATA" "sz < 2 ^ 47"
  shows "split p sz st = OK st"
  using assms by (simp add: split_def meta_OK add64_small METADATA_def)

lemma append_block_ok:
  assumes bl: "block_list st bs" and d: "distinct (map fst bs)" and fl: "free_list st fs"
    and c: "c \<notin> fst ` set bs" "c \<notin> set fs"
  shows "\<exists>st'. append_block c sz st = OK st' \<and> block_list st' (bs @ [(c, sz, False)]) \<and> free_list st' fs \<and>
    brk st' = brk st \<and> mem st' = mem st"
proof (cases bs rule: rev_cases)
  case Nil
  with assms show ?thesis
    by (auto simp: append_block_def upd_OK upd_nonnull_def block_list_def free_list_def Let_def)
next
  case (snoc xs x)
  obtain a s f where x: "x = (a, s, f)" by (cases x)
  have ac: "a \<noteq> c" using c snoc x by auto
  obtain m where m: "heap st a = Some m" "m_ptr m = a + METADATA" "m_size m = s" "m_free m = f"
    using block_meta [OF bl, of a s f] snoc x by auto
  have links: "m_prev m = final None (map fst xs)"
    using block_links [of st xs a s f "[]" m] bl snoc x m(1) by simp
  have fr: "seg ((frees (heap st))(c := v, a \<mapsto> (m_freenext m, m_freeprev m), c := w)) None fs None" for v w
    using fl c(2) m(1) by (subst seg_cong [where L' = "frees (heap st)"]) (auto simp: free_list_def links_Some)
  show ?thesis
    using bl fl d c snoc x m links ac fr
    by (auto simp: append_block_def upd_OK upd_nonnull_def block_list_def free_list_def Let_def seg_append final_append)
qed

section \<open>Operations\<close>

lemma freeset_simps [simp]:
  "freeset [] = {}" "freeset ((a, s, f) # bs) = (if f then insert a (freeset bs) else freeset bs)"
  "freeset (xs @ ys) = freeset xs \<union> freeset ys"
  by (auto simp: freeset_def)

lemma freeset_subset: "freeset bs \<subseteq> fst ` set bs"
  by (force simp: freeset_def)

lemma live_simps [simp]:
  "live [] = {}" "live ((a, s, f) # bs) = (if f then live bs else insert (a + METADATA, s) (live bs))"
  "live (xs @ ys) = live xs \<union> live ys"
  by (auto simp: live_def)

lemma fst_block: "q \<in> fst ` set bs \<Longrightarrow> \<exists>s f. (q, s, f) \<in> set (bs :: block list)"
  by force

lemma live_fst: "(q, s) \<in> live bs \<Longrightarrow> \<exists>a. q = a + METADATA \<and> a \<in> fst ` set bs"
  by (force simp: live_def)

lemma coalesced_simps [simp]:
  "coalesced []" "coalesced (x # ys) \<longleftrightarrow> (ys = [] \<or> \<not> (snd (snd x) \<and> snd (snd (hd ys)))) \<and> coalesced ys"
  "coalesced (xs @ ys) \<longleftrightarrow> coalesced xs \<and> coalesced ys \<and>
     (xs = [] \<or> ys = [] \<or> \<not> (snd (snd (last xs)) \<and> snd (snd (hd ys))))"
  by (auto simp: coalesced_def successively_Cons successively_append_iff)

lemma alloc_invD:
  assumes "alloc_inv st bs fs"
  shows "block_list st bs" "free_list st fs" "set fs = freeset bs" "spaced 1 bs (brk st)" "brk st \<le> 2 ^ 47"
    "coalesced bs" "distinct (map fst bs)"
  using assms spaced_distinct by (auto simp: alloc_inv_def)

lemma block_size_bound: "alloc_inv st bs fs \<Longrightarrow> (a, s, f) \<in> set bs \<Longrightarrow> a + METADATA + s \<le> 2 ^ 47 \<and> 0 < s \<and> 0 < a"
  using spaced_bounds [of 1 bs "brk st" a s f] alloc_invD(4,5) by fastforce

lemma find_fit_ok:
  "seg (frees h) pr fs None \<Longrightarrow>
   find_fit h sz (first fs None) = Some (OK (List.find (\<lambda>a. sz \<le> m_size (the (h a))) fs))"
proof (induction fs arbitrary: pr)
  case Nil
  show ?case by (subst find_fit.simps) simp
next
  case (Cons a fs)
  then obtain m where m: "h a = Some m" "m_freenext m = first fs None" by (auto simp: frees_def)
  with Cons show ?case by (subst find_fit.simps) auto
qed

lemma first_fit_ok:
  assumes "alloc_inv st bs fs"
  shows "first_fit sz st = OK None \<and> (\<forall>s a. (a, s, True) \<in> set bs \<longrightarrow> s < sz) \<or>
    (\<exists>as p cs xs s ys. first_fit sz st = OK (Some p) \<and> fs = as @ p # cs \<and>
       bs = xs @ (p, s, True) # ys \<and> sz \<le> s)"
proof -
  note inv = alloc_invD [OF assms]
  have fit: "first_fit sz st = OK (List.find (\<lambda>a. sz \<le> m_size (the (heap st a))) fs)"
    using inv(2) find_fit_ok [of "heap st" None fs sz] by (simp add: first_fit_def free_list_def)
  have size: "m_size (the (heap st a)) = s" if "(a, s, f) \<in> set bs" for a s f
    using block_meta [OF inv(1) that] by auto
  show ?thesis
  proof (cases "List.find (\<lambda>a. sz \<le> m_size (the (heap st a))) fs")
    case None
    then have "\<forall>a \<in> set fs. \<not> sz \<le> m_size (the (heap st a))" by (auto simp: find_None_iff)
    then have "s < sz" if "(a, s, True) \<in> set bs" for a s
      using that size [OF that] inv(3) by (auto simp: freeset_def)
    with fit None show ?thesis by auto
  next
    case (Some p)
    then have p: "p \<in> set fs" "sz \<le> m_size (the (heap st p))" by (auto simp: find_Some_iff)
    then obtain s where s: "(p, s, True) \<in> set bs" using inv(3) by (auto simp: freeset_def)
    moreover obtain as cs where "fs = as @ p # cs" using p(1) by (meson split_list)
    moreover obtain xs ys where "bs = xs @ (p, s, True) # ys" using s by (meson split_list)
    ultimately show ?thesis using fit Some p(2) size [OF s] by auto
  qed
qed

text \<open>The end of a payload prefix is not the address of a block.\<close>

lemma inside_fresh:
  assumes sp: "spaced lo (xs @ (p, s, f) # ys) hi" and q: "q = p + METADATA + sz" "sz < s"
  shows "q \<notin> fst ` set (xs @ (p, s, f) # ys)"
proof
  assume "q \<in> fst ` set (xs @ (p, s, f) # ys)"
  then obtain s2 f2 where b: "(q, s2, f2) \<in> set (xs @ (p, s, f) # ys)" using fst_block by blast
  have "p \<noteq> q" using q by (simp add: METADATA_def)
  with spaced_disjoint [OF sp _ b, of p s f] have "p + METADATA + s \<le> q \<or> q + METADATA + s2 \<le> p" by auto
  with q show False by (auto simp: METADATA_def)
qed

lemma malloc_found:
  assumes inv: "alloc_inv st (xs @ (p, s, True) # ys) (as @ p # cs)" and fit: "first_fit sz st = OK (Some p)"
    and sz: "0 < sz" "sz \<le> s"
  shows "\<exists>st' rest fs'. malloc ok sz st = OK (Some (p + METADATA), st') \<and>
    alloc_inv st' (xs @ (p, sz, False) # rest @ ys) fs' \<and> live rest = {} \<and> mem st' = mem st"
proof -
  let ?bs = "xs @ (p, s, True) # ys"
  note i = alloc_invD [OF inv]
  have s: "s < 2 ^ 47" using block_size_bound [OF inv, of p s True] by (simp add: METADATA_def)
  obtain st1 where st1: "removefree p st = OK st1" "free_list st1 (as @ cs)" "same_blocks st st1"
    using removefree_ok [OF i(2)] by blast
  have bl1: "block_list st1 ?bs" and brk1: "brk st1 = brk st" and mem1: "mem st1 = mem st"
    using i(1) same_blocks_list [OF st1(3)] st1(3) by (simp_all add: same_blocks_def)
  have fs1: "set (as @ cs) = freeset xs \<union> freeset ys"
  proof -
    have "p \<notin> freeset xs \<union> freeset ys" using i(7) freeset_subset by force
    moreover have "p \<notin> set (as @ cs)" using i(2) by (auto simp: free_list_def)
    ultimately show ?thesis using i(3) by auto
  qed
  let ?mk = "\<lambda>m. m\<lparr>m_free := False, m_size := sz\<rparr>"
  have "\<exists>st2 rest fs'. split p sz st1 = OK st2 \<and> block_list st2 (xs @ (p, s, True) # rest @ ys) \<and>
      free_list st2 fs' \<and> set fs' = freeset (xs @ rest @ ys) \<and> brk st2 = brk st \<and> mem st2 = mem st \<and> live rest = {} \<and>
      spaced (p + METADATA + sz) (rest @ ys) (brk st) \<and> coalesced (xs @ (p, sz, False) # rest @ ys) \<and>
      distinct (map fst (xs @ (p, s, True) # rest @ ys))"
  proof (cases "s \<le> sz + 3 * METADATA")
    case True
    obtain m where "heap st1 p = Some m" "m_size m = s" using block_meta [OF bl1, of p s True] by auto
    with True sz s have "split p sz st1 = OK st1" by (intro split_small [where m = m]) simp_all
    moreover have "spaced (p + METADATA + sz) ys (brk st)"
      using i(4) sz(2) by (auto simp: spaced_append elim: spaced_mono)
    ultimately show ?thesis using bl1 st1(2) fs1 brk1 mem1 i(6,7)
      by (intro exI [of _ st1] exI [of _ "[]"] exI [of _ "as @ cs"]) auto
  next
    case False
    let ?q = "p + METADATA + sz"
    have q: "?q \<notin> fst ` set ?bs" using inside_fresh [OF i(4), of ?q sz] False by simp
    moreover have "?q \<notin> set (as @ cs)" using q fs1 freeset_subset [of xs] freeset_subset [of ys] by auto
    moreover have "?q < 2 ^ 64" using block_size_bound [OF inv, of p s True] sz(2) by simp
    ultimately obtain st2 where st2: "split p sz st1 = OK st2"
      "block_list st2 (xs @ (p, s, True) # (?q, s - sz - METADATA, True) # ys)"
      "free_list st2 (?q # as @ cs)" "brk st2 = brk st1" "mem st2 = mem st1"
      using split_ok [OF bl1 i(7) st1(2) sz(2) s refl] False by auto
    moreover have "spaced ?q ((?q, s - sz - METADATA, True) # ys) (brk st)"
    proof -
      have "?q + METADATA + (s - sz - METADATA) = p + METADATA + s" using False by simp
      moreover have "spaced (p + METADATA + s) ys (brk st)" using i(4) by (auto simp: spaced_append)
      ultimately have "spaced (?q + METADATA + (s - sz - METADATA)) ys (brk st)" by (simp only:)
      then show ?thesis using False by simp
    qed
    ultimately show ?thesis using fs1 brk1 mem1 i(6,7) q
      by (intro exI [of _ st2] exI [of _ "[(?q, s - sz - METADATA, True)]"] exI [of _ "?q # as @ cs"])
        (auto simp: hd_append)
  qed
  then obtain st2 rest fs' where st2: "split p sz st1 = OK st2" "block_list st2 (xs @ (p, s, True) # rest @ ys)"
      "free_list st2 fs'" "set fs' = freeset (xs @ rest @ ys)" "brk st2 = brk st" "mem st2 = mem st" "live rest = {}"
      "spaced (p + METADATA + sz) (rest @ ys) (brk st)" "coalesced (xs @ (p, sz, False) # rest @ ys)"
      "distinct (map fst (xs @ (p, s, True) # rest @ ys))" by blast
  obtain st3 where st3: "upd p ?mk st2 = OK st3" "block_list st3 (xs @ (p, sz, False) # rest @ ys)" "same_frees st2 st3"
    using upd_info_ok [OF st2(2,10), of ?mk sz False] by auto
  obtain m where m: "heap st3 p = Some m" "m_ptr m = p + METADATA"
    using block_meta [OF st3(2), of p sz False] by auto
  have "malloc ok sz st = OK (Some (p + METADATA), st3)"
    using sz fit st1(1) st2(1) st3(1) m by (simp add: malloc_def meta_OK)
  moreover have "alloc_inv st3 (xs @ (p, sz, False) # rest @ ys) fs'"
    unfolding alloc_inv_def
    using st3 st2 i(4,5) sz(1) same_frees_list [OF st3(3)] by (auto simp: same_frees_def spaced_append)
  ultimately show ?thesis using st2(7) st3(3) st2(6) by (auto simp: same_frees_def)
qed

lemma malloc_extend:
  assumes inv: "alloc_inv st bs fs" and fit: "first_fit sz st = OK None" and sz: "0 < sz" "sz < 2 ^ 47"
  shows "if ok \<and> brk st + METADATA + sz \<le> 2 ^ 47
    then \<exists>st'. malloc ok sz st = OK (Some (brk st + METADATA), st') \<and>
      alloc_inv st' (bs @ [(brk st, sz, False)]) fs \<and> mem st' = mem st
    else malloc ok sz st = OK (None, st)"
proof -
  note i = alloc_invD [OF inv]
  have n: "add64 METADATA sz = METADATA + sz" "METADATA + sz < 2 ^ 63"
    using sz by (simp_all add: add64_small METADATA_def)
  show ?thesis
  proof (cases "ok \<and> brk st + METADATA + sz \<le> 2 ^ 47")
    case False
    with n sz fit show ?thesis by (auto simp: malloc_def sbrk_def)
  next
    case True
    let ?c = "brk st" and ?st1 = "st\<lparr>brk := brk st + METADATA + sz\<rparr>"
    have sb: "sbrk ok (add64 METADATA sz) st = (Some ?c, ?st1)"
      using True n by (simp add: sbrk_def nat_add_distrib)
    have c: "?c \<notin> fst ` set bs"
    proof
      assume "?c \<in> fst ` set bs"
      then obtain s f where "(?c, s, f) \<in> set bs" by auto
      from spaced_bounds [OF i(4) this] show False by (auto simp: METADATA_def)
    qed
    then have "?c \<notin> set fs" using i(3) freeset_subset [of bs] by auto
    moreover have "block_list ?st1 bs" "free_list ?st1 fs" using i(1,2) by (simp_all add: block_list_def free_list_def)
    ultimately obtain st2 where st2: "append_block ?c sz ?st1 = OK st2" "block_list st2 (bs @ [(?c, sz, False)])"
      "free_list st2 fs" "brk st2 = brk st + METADATA + sz" "mem st2 = mem st"
      using append_block_ok [of ?st1 bs fs ?c sz] i(7) c by auto
    obtain m where m: "heap st2 ?c = Some m" "m_ptr m = ?c + METADATA" "m_size m = sz"
      using block_meta [OF st2(2), of ?c sz False] by auto
    then have "split ?c sz st2 = OK st2" using sz by (intro split_small [where m = m]) simp_all
    then have "malloc ok sz st = OK (Some (?c + METADATA), st2)"
      using sz fit sb st2(1) m by (simp add: malloc_def meta_OK)
    moreover have "spaced 1 (bs @ [(?c, sz, False)]) (brk st2)"
      using i(4) sz(1) st2(4) by (auto simp: spaced_append)
    then have "alloc_inv st2 (bs @ [(?c, sz, False)]) fs"
      unfolding alloc_inv_def using st2 i(3,6) True by simp
    ultimately show ?thesis using True st2(5) by auto
  qed
qed

text \<open>\<open>malloc\<close>: a payload of the size asked for, apart from all others, or nothing changed.\<close>

lemma malloc_ok:
  assumes inv: "alloc_inv st bs fs" and sz: "0 < sz" "sz < 2 ^ 47"
  shows "\<exists>r st' bs' fs'. malloc ok sz st = OK (r, st') \<and> alloc_inv st' bs' fs' \<and> mem st' = mem st \<and>
    (case r of None \<Rightarrow> bs' = bs | Some q \<Rightarrow> (q, sz) \<notin> live bs \<and> live bs' = insert (q, sz) (live bs))"
  using first_fit_ok [OF inv, of sz]
proof (elim disjE exE conjE)
  fix as p cs xs s ys
  assume *: "first_fit sz st = OK (Some p)" "fs = as @ p # cs" "bs = xs @ (p, s, True) # ys" "sz \<le> s"
  obtain st' rest fs' where "malloc ok sz st = OK (Some (p + METADATA), st')"
    "alloc_inv st' (xs @ (p, sz, False) # rest @ ys) fs'" "live rest = {}" "mem st' = mem st"
    using malloc_found [OF inv [unfolded *(2,3)] *(1) sz(1) *(4), of ok] by blast
  moreover have "(p + METADATA, sz) \<notin> live bs"
    using alloc_invD(7) [OF inv] unfolding *(3) by (force simp: live_def)
  ultimately show ?thesis using *(3) by (intro exI) auto
next
  assume fit: "first_fit sz st = OK None"
  have "(brk st + METADATA, sz) \<notin> live bs"
  proof
    assume "(brk st + METADATA, sz) \<in> live bs"
    then have "(brk st, sz, False) \<in> set bs" by (auto simp: live_def)
    from spaced_bounds [OF alloc_invD(4) [OF inv] this] show False by (auto simp: METADATA_def)
  qed
  note new = this
  show ?thesis
  proof (cases "ok \<and> brk st + METADATA + sz \<le> 2 ^ 47")
    case True
    then obtain st' where "malloc ok sz st = OK (Some (brk st + METADATA), st')"
      "alloc_inv st' (bs @ [(brk st, sz, False)]) fs" "mem st' = mem st"
      using malloc_extend [OF inv fit sz, of ok] by auto
    with new show ?thesis
      by (intro exI [of _ "Some (brk st + METADATA)"] exI [of _ st'] exI [of _ "bs @ [(brk st, sz, False)]"] exI [of _ fs]) simp
  next
    case False
    then have "malloc ok sz st = OK (None, st)" using malloc_extend [OF inv fit sz, of ok] by auto
    with inv show ?thesis by (intro exI [of _ None] exI [of _ st] exI [of _ bs] exI [of _ fs]) simp
  qed
qed

text \<open>Distinct payloads do not overlap.\<close>

lemma live_disjoint:
  assumes "alloc_inv st bs fs" "(q, s) \<in> live bs" "(q2, s2) \<in> live bs" "q \<noteq> q2"
  shows "q + s \<le> q2 \<or> q2 + s2 \<le> q"
proof -
  obtain a b where a: "q = a + METADATA" "(a, s, False) \<in> set bs" "q2 = b + METADATA" "(b, s2, False) \<in> set bs"
    using assms(2,3) by (auto simp: live_def)
  with spaced_disjoint [OF alloc_invD(4) [OF assms(1)] a(2,4)] assms(4) show ?thesis by auto
qed

lemma live_unique:
  assumes "alloc_inv st bs fs" "(q, s) \<in> live bs" "(q, s2) \<in> live bs"
  shows "s = s2"
  using assms block_unique [OF alloc_invD(7) [OF assms(1)]] by (fastforce simp: live_def)

lemma merge_spaced:
  assumes "spaced lo (xs @ (a, s, f) # (b, s2, f2) # ys) hi" "a + METADATA + s \<le> b"
  shows "spaced lo (xs @ (a, s + s2 + METADATA, f') # ys) hi"
proof -
  from assms(1) obtain mid where mid: "spaced lo xs mid" "mid \<le> a" "0 < s" "spaced (b + METADATA + s2) ys hi"
    by (auto simp: spaced_append)
  have "spaced (a + METADATA + (s + s2 + METADATA)) ys hi"
    by (rule spaced_mono [OF mid(4)]) (use assms(2) in simp_all)
  with mid show ?thesis by (auto simp: spaced_append)
qed

lemma free_ok:
  assumes inv: "alloc_inv st bs fs" and q: "(q, s) \<in> live bs"
  shows "\<exists>st' bs' fs'. free (Some q) st = OK st' \<and> alloc_inv st' bs' fs' \<and> live bs' = live bs - {(q, s)} \<and>
    mem st' = mem st"
proof -
  note i = alloc_invD [OF inv]
  obtain a where a: "q = a + METADATA" "(a, s, False) \<in> set bs" using q by (auto simp: live_def)
  then obtain xs ys where bs: "bs = xs @ (a, s, False) # ys" by (meson split_list)
  have bound: "b + METADATA + s2 \<le> 2 ^ 47" if "(b, s2, f) \<in> set bs" for b s2 f
    using block_size_bound [OF inv that] by simp
  obtain m where m: "heap st a = Some m" "\<not> m_free m" using block_meta [OF i(1) a(2)] by auto
  have m_next: "m_next m = first (map fst ys) None" and m_prev: "m_prev m = final None (map fst xs)"
    using block_links [of st xs a s False ys m] i(1) bs m(1) by auto
  obtain st1 where st1: "upd a (\<lambda>m. m\<lparr>m_free := True\<rparr>) st = OK st1" "block_list st1 (xs @ (a, s, True) # ys)"
    "same_frees st st1"
    using upd_info_ok [of st xs a s False ys "\<lambda>m. m\<lparr>m_free := True\<rparr>" s True] i(1,7) bs
      block_meta [OF i(1) a(2)] by auto
  have fl1: "free_list st1 fs" using i(2) same_frees_list [OF st1(3)] by simp
  have afs: "a \<notin> set fs" using i(3,7) freeset_subset bs by force
  let ?next = "\<lambda>st. case m_next m of None \<Rightarrow> OK st
      | Some temp \<Rightarrow> bindE (meta temp st) (\<lambda>t. if m_free t then absorb_next a temp st else OK st)"
  have "\<exists>st2 s' zs fs2. ?next st1 = OK st2 \<and> block_list st2 (xs @ (a, s', True) # zs) \<and> free_list st2 fs2 \<and>
      set fs2 = freeset xs \<union> freeset zs \<and> spaced 1 (xs @ (a, s', True) # zs) (brk st) \<and> brk st2 = brk st \<and>
      mem st2 = mem st \<and> live zs = live ys \<and> coalesced xs \<and> coalesced ((a, s', True) # zs)"
  proof (cases "ys = [] \<or> \<not> snd (snd (hd ys))")
    case True
    have "?next st1 = OK st1"
    proof (cases ys)
      case (Cons y ys')
      obtain b s2 f2 where y: "y = (b, s2, f2)" by (cases y)
      with Cons st1(2) block_meta [of st1 "xs @ (a, s, True) # ys" b s2 f2] True m_next show ?thesis
        by (auto simp: meta_OK)
    qed (use m_next in simp)
    then show ?thesis using st1 fl1 i(3,4,6) True bs
      by (intro exI [of _ st1] exI [of _ s] exI [of _ ys] exI [of _ fs])
        (auto simp: same_frees_def spaced_append)
  next
    case False
    then obtain b s2 ys' where ys: "ys = (b, s2, True) # ys'" by (cases ys) auto
    obtain t where t: "heap st1 b = Some t" "m_free t"
      using block_meta [OF st1(2), of b s2 True] ys by auto
    have "b \<in> set fs" using i(3) bs ys by simp
    then obtain as cs where fs: "fs = as @ b # cs" by (meson split_list)
    have d: "distinct (map fst (xs @ (a, s, True) # (b, s2, True) # ys'))" using i(7) bs ys by simp
    have sp: "a + METADATA + s \<le> b" "b + METADATA + s2 \<le> 2 ^ 47"
      using i(4) bs ys bound [of b s2 True] by (auto simp: spaced_append)
    then have small: "s + s2 + METADATA < 2 ^ 64" by (simp add: METADATA_def)
    obtain st2 where st2: "absorb_next a b st1 = OK st2" "block_list st2 (xs @ (a, s + s2 + METADATA, True) # ys')"
      "free_list st2 (as @ cs)" "brk st2 = brk st1" "mem st2 = mem st1"
      using absorb_next_ok [OF st1(2) [unfolded ys] d fl1 [unfolded fs] small] by blast
    have "set (as @ cs) = freeset xs \<union> freeset ys'"
    proof -
      have "b \<notin> freeset xs \<union> freeset ys'" using d freeset_subset by force
      moreover have "b \<notin> set (as @ cs)" using i(2) fs by (auto simp: free_list_def)
      ultimately show ?thesis using i(3) fs bs ys by auto
    qed
    moreover have "spaced 1 (xs @ (a, s + s2 + METADATA, True) # ys') (brk st)"
      using i(4) merge_spaced [OF _ sp(1)] unfolding bs ys by blast
    moreover have "coalesced xs" "coalesced ((a, s + s2 + METADATA, True) # ys')"
      using i(6) bs ys by auto
    ultimately show ?thesis using st2 st1(3) m_next ys t
      by (intro exI [of _ st2] exI [of _ "s + s2 + METADATA"] exI [of _ ys'] exI [of _ "as @ cs"])
        (auto simp: meta_OK same_frees_def)
  qed
  then obtain st2 s' zs fs2 where st2: "?next st1 = OK st2" "block_list st2 (xs @ (a, s', True) # zs)"
    "free_list st2 fs2" "set fs2 = freeset xs \<union> freeset zs" "spaced 1 (xs @ (a, s', True) # zs) (brk st)"
    "brk st2 = brk st" "mem st2 = mem st" "live zs = live ys" "coalesced xs" "coalesced ((a, s', True) # zs)"
    by blast
  have d2: "distinct (map fst (xs @ (a, s', True) # zs))" by (rule spaced_distinct [OF st2(5)])
  obtain m2 where m2: "heap st2 a = Some m2" "m_prev m2 = final None (map fst xs)"
    using block_meta [OF st2(2), of a s' True] block_links [OF st2(2)] by auto
  have run: "free (Some q) st = (case final None (map fst xs) of None \<Rightarrow> insertfree a st2
      | Some temp \<Rightarrow> bindE (meta temp st2) (\<lambda>t. if m_free t then absorb_prev temp a st2 else insertfree a st2))"
    using a(1) m st1(1) st2(1) m2 by (simp add: free_def meta_OK Let_def)
  have live: "live xs \<union> live zs = live bs - {(q, s)}"
  proof -
    have "(q, s) \<notin> live xs" "(q, s) \<notin> live ys" using i(7) bs a(1) by (force simp: live_def)+
    then show ?thesis using bs st2(8) a(1) by auto
  qed
  have afs2: "a \<notin> set fs2" using st2(4) d2 freeset_subset by force
  show ?thesis
  proof (cases "xs = [] \<or> \<not> snd (snd (last xs))")
    case True
    have "free (Some q) st = insertfree a st2"
    proof (cases xs rule: rev_cases)
      case (snoc xs' x)
      obtain t s0 f0 where x: "x = (t, s0, f0)" by (cases x)
      with snoc block_meta [OF st2(2), of t s0 f0] True run show ?thesis by (auto simp: meta_OK)
    qed (use run in simp)
    moreover obtain st3 where st3: "insertfree a st2 = OK st3" "free_list st3 (a # fs2)" "same_blocks st2 st3"
      using insertfree_ok [OF st2(3) _ afs2] m2(1) by auto
    moreover have "brk st3 = brk st" "block_list st3 (xs @ (a, s', True) # zs)"
      using st3(3) st2(2,6) same_blocks_list [OF st3(3)] by (simp_all add: same_blocks_def)
    moreover have "coalesced (xs @ (a, s', True) # zs)" using st2(9,10) True by auto
    ultimately have "free (Some q) st = OK st3" "alloc_inv st3 (xs @ (a, s', True) # zs) (a # fs2)"
      unfolding alloc_inv_def using st2(4,5) i(5) by simp_all
    moreover have "live (xs @ (a, s', True) # zs) = live bs - {(q, s)}" using live by simp
    moreover have "mem st3 = mem st" using st3(3) st2(7) by (simp add: same_blocks_def)
    ultimately show ?thesis by (metis (no_types))
  next
    case False
    then obtain xs' t s0 where xs: "xs = xs' @ [(t, s0, True)]" by (cases xs rule: rev_cases) auto
    obtain mt where mt: "heap st2 t = Some mt" "m_free mt"
      using block_meta [OF st2(2), of t s0 True] xs by auto
    have "t \<in> set fs2" using st2(4) xs by simp
    then obtain as cs where fs: "fs2 = as @ t # cs" by (meson split_list)
    have sp: "t + METADATA + s0 \<le> a" "a + METADATA + s' \<le> brk st"
      using st2(5) spaced_bounds [OF st2(5), of a s' True] xs by (auto simp: spaced_append)
    then have small: "s0 + s' + METADATA < 2 ^ 64" using i(5) by (simp add: METADATA_def)
    obtain st3 where st3: "absorb_prev t a st2 = OK st3" "block_list st3 (xs' @ (t, s0 + s' + METADATA, True) # zs)"
      "free_list st3 (t # as @ cs)" "brk st3 = brk st2" "mem st3 = mem st2"
      using absorb_prev_ok [of st2 xs' t s0 a s' True zs as cs] st2(2,3) d2 xs fs afs2 small by auto
    have "set (t # as @ cs) = freeset xs' \<union> insert t (freeset zs)"
      using st2(4) xs fs by auto
    moreover have "spaced 1 (xs' @ (t, s0 + s' + METADATA, True) # zs) (brk st)"
      using st2(5) merge_spaced [of 1 xs' t s0 True a s' True zs "brk st", OF _ sp(1)] xs by simp
    moreover have "coalesced (xs' @ (t, s0 + s' + METADATA, True) # zs)"
      using st2(9,10) xs by auto
    ultimately have "alloc_inv st3 (xs' @ (t, s0 + s' + METADATA, True) # zs) (t # as @ cs)"
      unfolding alloc_inv_def using st3 st2(6) i(5) by auto
    moreover have "live (xs' @ (t, s0 + s' + METADATA, True) # zs) = live bs - {(q, s)}"
      using live xs by simp
    moreover have "free (Some q) st = OK st3" using run xs mt st3(1) by (simp add: meta_OK)
    moreover have "mem st3 = mem st" using st3(5) st2(7) by simp
    ultimately show ?thesis by (metis (no_types))
  qed
qed

lemma alloc_inv_mem [simp]: "alloc_inv (st\<lparr>mem := f\<rparr>) bs fs = alloc_inv st bs fs"
  by (simp add: alloc_inv_def block_list_def free_list_def)

text \<open>A new payload does not overlap the others.\<close>

lemma new_disjoint:
  assumes inv: "alloc_inv st' bs' fs'" and new: "(q, sz) \<notin> live bs" "live bs' = insert (q, sz) (live bs)"
    and other: "(q2, s2) \<in> live bs"
  shows "q + sz \<le> q2 \<or> q2 + s2 \<le> q"
proof -
  have "(q, sz) \<in> live bs'" "(q2, s2) \<in> live bs'" using new(2) other by simp_all
  moreover have "q \<noteq> q2"
  proof
    assume "q = q2"
    with live_unique [OF inv, of q sz s2] calculation have "s2 = sz" by simp
    with \<open>q = q2\<close> new(1) other show False by simp
  qed
  ultimately show ?thesis using live_disjoint [OF inv] by blast
qed

definition same_contents :: "(address \<Rightarrow> byte) \<Rightarrow> (address \<Rightarrow> byte) \<Rightarrow> (address \<times> nat) set \<Rightarrow> bool" where
  "same_contents f g ps \<longleftrightarrow> (\<forall>(q, s) \<in> ps. \<forall>i < s. g (q + i) = f (q + i))"

lemma realloc_ok:
  assumes inv: "alloc_inv st bs fs" and q: "(q, s) \<in> live bs" and sz: "0 < sz" "sz < 2 ^ 47"
  shows "\<exists>r st' bs' fs'. realloc ok (Some q) sz st = OK (r, st') \<and> alloc_inv st' bs' fs' \<and>
    (case r of None \<Rightarrow> bs' = bs \<and> mem st' = mem st
     | Some q' \<Rightarrow> \<exists>s' \<ge> sz. live bs' = insert (q', s') (live bs - {(q, s)}) \<and>
         (\<forall>i < min s sz. mem st' (q' + i) = mem st (q + i)) \<and>
         same_contents (mem st) (mem st') (live bs - {(q, s)}))"
proof -
  note i = alloc_invD [OF inv]
  obtain a where a: "q = a + METADATA" "(a, s, False) \<in> set bs" using q by (auto simp: live_def)
  then obtain xs ys where bs: "bs = xs @ (a, s, False) # ys" by (meson split_list)
  obtain m where m: "heap st a = Some m" "m_ptr m = q" "m_size m = s"
    using block_meta [OF i(1) a(2)] a(1) by auto
  have m_next: "m_next m = first (map fst ys) None"
    using block_links [of st xs a s False ys m] i(1) bs m(1) by auto
  have others: "live bs - {(q, s)} = live xs \<union> live ys"
  proof -
    have "(q, s) \<notin> live xs" "(q, s) \<notin> live ys" using i(7) bs a(1) by (force simp: live_def)+
    then show ?thesis using bs a(1) by auto
  qed
  let ?grow = "case m_next m of None \<Rightarrow> OK None
      | Some temp \<Rightarrow> bindE (meta temp st) (\<lambda>t.
          OK (if add64 (m_size t) s \<ge> sz \<and> m_free t then Some temp else None))"
  have grow: "?grow = OK None \<or> (\<exists>b s2 ys'. ys = (b, s2, True) # ys' \<and> sz \<le> s2 + s \<and> ?grow = OK (Some b))"
  proof (cases ys)
    case (Cons y ys')
    obtain b s2 f2 where y: "y = (b, s2, f2)" by (cases y)
    obtain t where t: "heap st b = Some t" "m_size t = s2" "m_free t = f2"
      using block_meta [OF i(1), of b s2 f2] bs Cons y by auto
    have "b + METADATA + s2 \<le> 2 ^ 47" "a + METADATA + s \<le> 2 ^ 47"
      using block_size_bound [OF inv] bs Cons y by auto
    then have "add64 (m_size t) s = s2 + s" using t(2) by (intro trans [OF add64_small]) (simp_all add: METADATA_def)
    with t m_next Cons y show ?thesis by (cases f2) (auto simp: meta_OK)
  qed (use m_next in simp)
  have same: "same_contents (mem st) (mem st) ps" for ps by (auto simp: same_contents_def)
  show ?thesis
  proof (cases "s \<ge> sz")
    case True
    then have "realloc ok (Some q) sz st = OK (Some q, st)"
      using sz(1) a(1) m by (simp add: realloc_def meta_OK Let_def)
    with inv True q same show ?thesis
      by (intro exI [of _ "Some q"] exI [of _ st] exI [of _ bs] exI [of _ fs]) (auto intro!: exI [of _ s])
  next
    case small: False
    have run: "realloc ok (Some q) sz st = bindE ?grow (\<lambda>grow. case grow of
            Some temp \<Rightarrow> bindE (absorb_next a temp st) (\<lambda>st. OK (Some q, st))
          | None \<Rightarrow> bindE (malloc ok sz st) (\<lambda>(newptr, st). case newptr of
                None \<Rightarrow> OK (None, st)
              | Some b \<Rightarrow> bindE (free (Some q) (st\<lparr>mem := (\<lambda>x. if b \<le> x \<and> x < b + s then mem st (q + (x - b))
                                               else mem st x)\<rparr>)) (\<lambda>st. OK (Some b, st))))"
    proof -
      have "q - METADATA = a" "(sz = 0) = False" "(sz \<le> s) = False" using a(1) sz(1) small by simp_all
      then show ?thesis
        by (simp only: realloc_def option.case Let_def meta_OK [OF m(1)] bindE_simps m(2,3) if_False)
    qed
    from grow show ?thesis
    proof (elim disjE exE conjE)
      fix b s2 ys' assume ys: "ys = (b, s2, True) # ys'" and fits: "sz \<le> s2 + s" and g: "?grow = OK (Some b)"
      have "b \<in> set fs" using i(3) bs ys by simp
      then obtain as cs where fs: "fs = as @ b # cs" by (meson split_list)
      have sp: "a + METADATA + s \<le> b" using i(4) bs ys by (auto simp: spaced_append)
      have "b + METADATA + s2 \<le> 2 ^ 47" using block_size_bound [OF inv, of b s2 True] bs ys by simp
      then have small: "s + s2 + METADATA < 2 ^ 64" using sp by (simp add: METADATA_def)
      obtain st' where st': "absorb_next a b st = OK st'" "block_list st' (xs @ (a, s + s2 + METADATA, False) # ys')"
        "free_list st' (as @ cs)" "brk st' = brk st" "mem st' = mem st"
        using absorb_next_ok [of st xs a s False b s2 ys' as cs] i(1,2,7) bs ys fs small by auto
      have "set (as @ cs) = freeset xs \<union> freeset ys'"
      proof -
        have "b \<notin> freeset xs \<union> freeset ys'" using i(7) bs ys freeset_subset by force
        moreover have "b \<notin> set (as @ cs)" using i(2) fs by (auto simp: free_list_def)
        ultimately show ?thesis using i(3) fs bs ys by auto
      qed
      moreover have "spaced 1 (xs @ (a, s + s2 + METADATA, False) # ys') (brk st)"
        using i(4) merge_spaced [OF _ sp] unfolding bs ys by blast
      moreover have "coalesced (xs @ (a, s + s2 + METADATA, False) # ys')" using i(6) bs ys by auto
      ultimately have "alloc_inv st' (xs @ (a, s + s2 + METADATA, False) # ys') (as @ cs)"
        unfolding alloc_inv_def using st' i(5) by simp
      moreover have "live (xs @ (a, s + s2 + METADATA, False) # ys') = insert (q, s + s2 + METADATA) (live bs - {(q, s)})"
        unfolding others using a(1) ys by auto
      moreover have "realloc ok (Some q) sz st = OK (Some q, st')" using run g st'(1) by simp
      moreover have "sz \<le> s + s2 + METADATA" using fits by simp
      ultimately show ?thesis using st'(5) same
        by (intro exI [of _ "Some q"] exI [of _ st'] exI [of _ "xs @ (a, s + s2 + METADATA, False) # ys'"]
            exI [of _ "as @ cs"]) (auto intro!: exI [of _ "s + s2 + METADATA"])
    next
      assume g: "?grow = OK None"
      obtain r1 st1 bs1 fs1 where st1: "malloc ok sz st = OK (r1, st1)" "alloc_inv st1 bs1 fs1" "mem st1 = mem st"
        "case r1 of None \<Rightarrow> bs1 = bs | Some q1 \<Rightarrow> (q1, sz) \<notin> live bs \<and> live bs1 = insert (q1, sz) (live bs)"
        using malloc_ok [OF inv sz, of ok] by blast
      show ?thesis
      proof (cases r1)
        case None
        with st1 have "realloc ok (Some q) sz st = OK (None, st1)" "bs1 = bs" using run g by simp_all
        with st1 show ?thesis by (intro exI [of _ None] exI [of _ st1] exI [of _ bs1] exI [of _ fs1]) simp
      next
        case (Some b)
        with st1(4) have b: "(b, sz) \<notin> live bs" "live bs1 = insert (b, sz) (live bs)" by simp_all
        let ?f = "\<lambda>x. if b \<le> x \<and> x < b + s then mem st1 (q + (x - b)) else mem st1 x"
        have "alloc_inv (st1\<lparr>mem := ?f\<rparr>) bs1 fs1" "(q, s) \<in> live bs1" using st1(2) b(2) q by simp_all
        from free_ok [OF this] obtain st2 bs2 fs2 where st2: "free (Some q) (st1\<lparr>mem := ?f\<rparr>) = OK st2"
          "alloc_inv st2 bs2 fs2" "live bs2 = live bs1 - {(q, s)}" "mem st2 = ?f" by auto
        have "realloc ok (Some q) sz st = OK (Some b, st2)" using run g st1(1) Some st2(1) by simp
        moreover have "live bs2 = insert (b, sz) (live bs - {(q, s)})" using st2(3) b q by auto
        moreover have "\<forall>i < min s sz. mem st2 (b + i) = mem st (q + i)" using st2(4) st1(3) by simp
        moreover have "same_contents (mem st) (mem st2) (live bs - {(q, s)})"
          unfolding same_contents_def
        proof (clarify)
          fix q2 s2 k assume o: "(q2, s2) \<in> live bs" "k < s2"
          from new_disjoint [OF st1(2) b o(1)] o(2) small
          show "mem st2 (q2 + k) = mem st (q2 + k)" using st2(4) st1(3) by auto
        qed
        ultimately show ?thesis using st2(2)
          by (intro exI [of _ "Some b"] exI [of _ st2] exI [of _ bs2] exI [of _ fs2]) (auto intro!: exI [of _ sz])
      qed
    qed
  qed
qed

lemma calloc_ok:
  assumes inv: "alloc_inv st bs fs" and sz: "0 < n * s" "n * s < 2 ^ 47"
  shows "\<exists>r st' bs' fs'. calloc ok n s st = OK (r, st') \<and> alloc_inv st' bs' fs' \<and>
    (case r of None \<Rightarrow> bs' = bs \<and> mem st' = mem st
     | Some q \<Rightarrow> (q, n * s) \<notin> live bs \<and> live bs' = insert (q, n * s) (live bs) \<and>
         (\<forall>i < n * s. mem st' (q + i) = 0) \<and> same_contents (mem st) (mem st') (live bs))"
proof -
  have mod: "(n * s) mod 2 ^ 64 = n * s" using sz(2) by simp
  obtain r st1 bs1 fs1 where st1: "malloc ok (n * s) st = OK (r, st1)" "alloc_inv st1 bs1 fs1" "mem st1 = mem st"
    "case r of None \<Rightarrow> bs1 = bs | Some q \<Rightarrow> (q, n * s) \<notin> live bs \<and> live bs1 = insert (q, n * s) (live bs)"
    using malloc_ok [OF inv sz, of ok] by blast
  show ?thesis
  proof (cases r)
    case None
    with st1 mod show ?thesis
      by (intro exI [of _ None] exI [of _ st1] exI [of _ bs1] exI [of _ fs1]) (simp add: calloc_def)
  next
    case (Some q)
    let ?f = "\<lambda>x. if q \<le> x \<and> x < q + n * s then 0 else mem st1 x"
    have "calloc ok n s st = OK (Some q, st1\<lparr>mem := ?f\<rparr>)"
      using st1(1) Some unfolding calloc_def mod by simp
    moreover have "same_contents (mem st) ?f (live bs)"
      unfolding same_contents_def
    proof (clarify)
      fix q2 s2 k assume o: "(q2, s2) \<in> live bs" "k < s2"
      from new_disjoint [OF st1(2) _ _ o(1), of q "n * s"] st1(4) Some o(2)
      show "?f (q2 + k) = mem st (q2 + k)" using st1(3) by auto
    qed
    ultimately show ?thesis using st1 Some
      by (intro exI [of _ "Some q"] exI [of _ "st1\<lparr>mem := ?f\<rparr>"] exI [of _ bs1] exI [of _ fs1]) simp
  qed
qed

text \<open>The state before the first call.\<close>

definition alloc_init :: "address \<Rightarrow> alloc_state" where
  "alloc_init b = \<lparr>heap = Map.empty, alloc_tail = None, freehead = None, brk = b, mem = (\<lambda>_. 0)\<rparr>"

lemma alloc_init_inv: "0 < b \<Longrightarrow> b \<le> 2 ^ 47 \<Longrightarrow> alloc_inv (alloc_init b) [] []"
  by (simp add: alloc_inv_def alloc_init_def block_list_def free_list_def)

lemma malloc_init:
  "\<exists>st'. malloc True 10 (alloc_init 4096) = OK (Some 4152, st') \<and> alloc_inv st' [(4096, 10, False)] []"
proof -
  have fit: "first_fit 10 (alloc_init 4096) = OK None"
    using first_fit_ok [OF alloc_init_inv, of 4096 10] by auto
  show ?thesis
    using malloc_extend [OF alloc_init_inv fit, of True] by (auto simp: alloc_init_def METADATA_def)
qed

section \<open>Properties\<close>

text \<open>
  C3: \<open>malloc\<close> returns, keeps both lists and the layout of the blocks, and either changes
  nothing or gives a payload of the size asked for that overlaps no payload in use.
\<close>

theorem malloc_correct:
  assumes "alloc_inv st bs fs" "0 < sz" "sz < 2 ^ 47"
  shows "\<exists>r st' bs' fs'. malloc ok sz st = OK (r, st') \<and> alloc_inv st' bs' fs' \<and> mem st' = mem st \<and>
    (case r of None \<Rightarrow> bs' = bs
     | Some q \<Rightarrow> live bs' = insert (q, sz) (live bs) \<and>
         (\<forall>(q2, s2) \<in> live bs. q + sz \<le> q2 \<or> q2 + s2 \<le> q))"
proof -
  obtain r st' bs' fs' where m: "malloc ok sz st = OK (r, st')" "alloc_inv st' bs' fs'" "mem st' = mem st"
    "case r of None \<Rightarrow> bs' = bs | Some q \<Rightarrow> (q, sz) \<notin> live bs \<and> live bs' = insert (q, sz) (live bs)"
    using malloc_ok [OF assms, of ok] by blast
  have "case r of None \<Rightarrow> bs' = bs
     | Some q \<Rightarrow> live bs' = insert (q, sz) (live bs) \<and>
         (\<forall>(q2, s2) \<in> live bs. q + sz \<le> q2 \<or> q2 + s2 \<le> q)"
  proof (cases r)
    case (Some q)
    with m(4) have new: "(q, sz) \<notin> live bs" "live bs' = insert (q, sz) (live bs)" by simp_all
    show ?thesis using new_disjoint [OF m(2) new] new(2) Some by auto
  qed (use m(4) in simp)
  with m show ?thesis by blast
qed

theorem malloc_correct_witness:
  "\<exists>r st' bs' fs'. malloc False 10 (alloc_init 4096) = OK (r, st') \<and> alloc_inv st' bs' fs'"
  using malloc_correct [OF alloc_init_inv, of 4096 10 False] by auto

text \<open>
  C4: freeing a payload in use returns, keeps both lists, the layout and the merging of free
  neighbours, removes exactly that payload and changes no byte of memory.
\<close>

theorem free_correct:
  assumes "alloc_inv st bs fs" "(q, s) \<in> live bs"
  shows "\<exists>st' bs' fs'. free (Some q) st = OK st' \<and> alloc_inv st' bs' fs' \<and> live bs' = live bs - {(q, s)} \<and>
    mem st' = mem st"
  by (rule free_ok [OF assms])

theorem free_correct_witness:
  "\<exists>st st' bs' fs'. malloc True 10 (alloc_init 4096) = OK (Some 4152, st) \<and> free (Some 4152) st = OK st' \<and>
     alloc_inv st' bs' fs' \<and> live bs' = {}"
proof -
  obtain st where st: "malloc True 10 (alloc_init 4096) = OK (Some 4152, st)" "alloc_inv st [(4096, 10, False)] []"
    using malloc_init by blast
  from free_correct [OF st(2), of 4152 10] st(1) show ?thesis by (auto simp: METADATA_def)
qed

text \<open>
  C5: reallocating a payload in use returns; it either changes nothing or gives a payload at
  least as large as asked for whose first bytes are those of the old one, which is no longer
  in use, and leaves the contents of all other payloads alone.
\<close>

theorem realloc_correct:
  assumes "alloc_inv st bs fs" "(q, s) \<in> live bs" "0 < sz" "sz < 2 ^ 47"
  shows "\<exists>r st' bs' fs'. realloc ok (Some q) sz st = OK (r, st') \<and> alloc_inv st' bs' fs' \<and>
    (case r of None \<Rightarrow> bs' = bs \<and> mem st' = mem st
     | Some q' \<Rightarrow> \<exists>s' \<ge> sz. live bs' = insert (q', s') (live bs - {(q, s)}) \<and>
         (\<forall>i < min s sz. mem st' (q' + i) = mem st (q + i)) \<and>
         same_contents (mem st) (mem st') (live bs - {(q, s)}))"
  by (rule realloc_ok [OF assms])

theorem realloc_correct_witness:
  "\<exists>st r st' bs' fs'. malloc True 10 (alloc_init 4096) = OK (Some 4152, st) \<and>
     realloc True (Some 4152) 200 st = OK (r, st') \<and> alloc_inv st' bs' fs'"
proof -
  obtain st where st: "malloc True 10 (alloc_init 4096) = OK (Some 4152, st)" "alloc_inv st [(4096, 10, False)] []"
    using malloc_init by blast
  have "(4152, 10) \<in> live [(4096, 10, False)]" by (simp add: METADATA_def)
  from realloc_correct [OF st(2) this, of 200 True] st(1) show ?thesis by auto
qed

text \<open>
  As long as the product does not wrap around, \<open>calloc\<close> gives a new payload of zeros and
  leaves the contents of all payloads in use alone, or changes nothing.
\<close>

theorem calloc_correct:
  assumes "alloc_inv st bs fs" "0 < n * s" "n * s < 2 ^ 47"
  shows "\<exists>r st' bs' fs'. calloc ok n s st = OK (r, st') \<and> alloc_inv st' bs' fs' \<and>
    (case r of None \<Rightarrow> bs' = bs \<and> mem st' = mem st
     | Some q \<Rightarrow> (q, n * s) \<notin> live bs \<and> live bs' = insert (q, n * s) (live bs) \<and>
         (\<forall>i < n * s. mem st' (q + i) = 0) \<and> same_contents (mem st) (mem st') (live bs))"
  by (rule calloc_ok [OF assms])

theorem calloc_correct_witness:
  "\<exists>r st' bs' fs'. calloc True 5 8 (alloc_init 4096) = OK (r, st') \<and> alloc_inv st' bs' fs'"
  using calloc_correct [OF alloc_init_inv, of 4096 5 8 True] by auto

text \<open>
  The product of \<open>calloc\<close> is not checked: for 2^61 + 1 elements of 8 bytes it succeeds with
  a payload of 8 bytes.
\<close>

theorem calloc_wraps:
  "\<exists>st' fs'. calloc True (2 ^ 61 + 1) 8 (alloc_init 4096) = OK (Some 4152, st') \<and>
     alloc_inv st' [(4096, 8, False)] fs'"
proof -
  have fit: "first_fit 8 (alloc_init 4096) = OK None"
    using first_fit_ok [OF alloc_init_inv, of 4096 8] by auto
  then obtain st' where "malloc True 8 (alloc_init 4096) = OK (Some 4152, st')" "alloc_inv st' [(4096, 8, False)] []"
    using malloc_extend [OF alloc_init_inv fit, of True] by (auto simp: alloc_init_def METADATA_def)
  then show ?thesis by (auto simp: calloc_def intro!: exI)
qed

end
