(* ===== verification/Mini_Valgrind.thy ===== *)
theory Mini_Valgrind
  imports Prelude
begin

text \<open>
  The memory tracker of \<open>mini_valgrind/mini_valgrind.c\<close>: a linked list of headers in front of
  the payloads handed out, and totals of the memory requested and freed and of invalid
  addresses. The list is exactly the payloads not yet freed and the totals account for them,
  as long as the first header starts out zero and \<open>realloc\<close> does not move a block; without
  either, later operations read memory that is not a header.
\<close>

section \<open>The model\<close>

type_synonym address = nat

record meta_data =
  request_size :: size_t
  mv_filename :: string
  instruction :: address
  mv_next :: "address option"

text \<open>\<open>header_size\<close> is \<open>sizeof(meta_data)\<close>, which is declared in a header not at hand.\<close>

record mini_valgrind =
  header_size :: nat
  mv_head :: "address option"
  mv_heap :: "address \<rightharpoonup> meta_data"
  total_memory_requested :: size_t
  total_memory_freed :: size_t
  invalid_addresses :: size_t

text \<open>
  What the C library's \<open>malloc\<close> did: the address it returned, if any, and what the word that
  becomes the next pointer of the header held before.
\<close>

type_synonym malloc_result = "address option \<times> address option"

text \<open>\<open>if(head){...} if(!head){...}\<close>: the new header goes behind the first one.\<close>

definition link_header :: "address \<Rightarrow> mini_valgrind \<Rightarrow> mini_valgrind res" where
  "link_header p st = (case mv_head st of
      None \<Rightarrow> OK (st\<lparr>mv_head := Some p\<rparr>)
    | Some a \<Rightarrow> (case (mv_heap st a, mv_heap st p) of
        (Some m, Some n) \<Rightarrow> OK (st\<lparr>mv_heap := (mv_heap st)(a \<mapsto> m\<lparr>mv_next := Some p\<rparr>,
                                      p \<mapsto> n\<lparr>mv_next := mv_next m\<rparr>)\<rparr>)
      | _ \<Rightarrow> Fault Out_Of_Bounds))"

definition track :: "malloc_result \<Rightarrow> size_t \<Rightarrow> string \<Rightarrow> address \<Rightarrow> mini_valgrind \<Rightarrow>
    (address option \<times> mini_valgrind) res" where
  "track r sz file instr st = (case r of
      (None, _) \<Rightarrow> OK (None, st)
    | (Some p, junk) \<Rightarrow>
        bindE (link_header p (st\<lparr>mv_heap := (mv_heap st)(p \<mapsto> \<lparr>request_size = sz, mv_filename = file,
                instruction = instr, mv_next = junk\<rparr>)\<rparr>)) (\<lambda>st.
        OK (Some (p + header_size st),
            st\<lparr>total_memory_requested := total_memory_requested st + sz\<rparr>)))"

definition mini_malloc :: "malloc_result \<Rightarrow> size_t \<Rightarrow> string \<Rightarrow> address \<Rightarrow> mini_valgrind \<Rightarrow>
    (address option \<times> mini_valgrind) res" where
  "mini_malloc r sz file instr st =
     (if sz = 0 then OK (None, st) else track r sz file instr st)"

definition mini_calloc :: "malloc_result \<Rightarrow> size_t \<Rightarrow> size_t \<Rightarrow> string \<Rightarrow> address \<Rightarrow> mini_valgrind \<Rightarrow>
    (address option \<times> mini_valgrind) res" where
  "mini_calloc r num_elements element_size file instr st =
     (if num_elements = 0 \<or> element_size = 0 then OK (None, st)
      else track r (num_elements * element_size) file instr st)"

text \<open>The two loops along the list; they run forever on a cyclic one.\<close>

partial_function (option) find_header ::
  "(address \<rightharpoonup> meta_data) \<Rightarrow> address \<Rightarrow> address option \<Rightarrow> bool res option" where
  "find_header h ptr temp = (case temp of
      None \<Rightarrow> Some (OK False)
    | Some t \<Rightarrow> if ptr = t then Some (OK True)
        else (case h t of None \<Rightarrow> Some (Fault Out_Of_Bounds) | Some m \<Rightarrow> find_header h ptr (mv_next m)))"

partial_function (option) find_before ::
  "(address \<rightharpoonup> meta_data) \<Rightarrow> address \<Rightarrow> address option \<Rightarrow> address option res option" where
  "find_before h ptr temp = (case temp of
      None \<Rightarrow> Some (OK None)
    | Some t \<Rightarrow> (case h t of
        None \<Rightarrow> Some (Fault Out_Of_Bounds)
      | Some m \<Rightarrow> if mv_next m = Some ptr then Some (OK (Some t)) else find_before h ptr (mv_next m)))"

definition mv_get :: "mini_valgrind \<Rightarrow> address \<Rightarrow> meta_data res" where
  "mv_get st p = (case mv_heap st p of None \<Rightarrow> Fault Out_Of_Bounds | Some m \<Rightarrow> OK m)"

definition mini_free :: "address option \<Rightarrow> mini_valgrind \<Rightarrow> mini_valgrind res" where
  "mini_free payload st = (case payload of
      None \<Rightarrow> OK st
    | Some q \<Rightarrow> let ptr = q - header_size st in
        if mv_head st = None \<and> ptr = 0 then Fault Null_Deref
        else if mv_head st = Some ptr then
          bindE (mv_get st ptr) (\<lambda>m.
            OK (st\<lparr>mv_head := mv_next m, mv_heap := (mv_heap st)(ptr := None),
                   total_memory_freed := total_memory_freed st + request_size m\<rparr>))
        else
          bindE (returns (find_before (mv_heap st) ptr (mv_head st))) (\<lambda>temp. case temp of
            None \<Rightarrow> OK (st\<lparr>invalid_addresses := invalid_addresses st + 1\<rparr>)
          | Some t \<Rightarrow>
              bindE (mv_get st ptr) (\<lambda>m. bindE (mv_get st t) (\<lambda>n.
                OK (st\<lparr>mv_heap := (mv_heap st)(t \<mapsto> n\<lparr>mv_next := mv_next m\<rparr>, ptr := None),
                       total_memory_freed := total_memory_freed st + request_size m\<rparr>)))))"

text \<open>
  \<open>moved\<close> is what the C library's \<open>realloc\<close> returned: the block is then there, and only there.
  Its header keeps its place in the list under the old address. The difference of the sizes
  is computed with \<open>int\<close>s.
\<close>

definition mini_realloc :: "malloc_result \<Rightarrow> address option \<Rightarrow> address option \<Rightarrow> size_t \<Rightarrow> string \<Rightarrow> address \<Rightarrow>
    mini_valgrind \<Rightarrow> (address option \<times> mini_valgrind) res" where
  "mini_realloc r moved payload sz file instr st =
     (if sz = 0 then bindE (mini_free payload st) (\<lambda>st. OK (None, st))
      else case payload of
        None \<Rightarrow> mini_malloc r sz file instr st
      | Some q \<Rightarrow> let ptr = q - header_size st in
          bindE (returns (find_header (mv_heap st) ptr (mv_head st))) (\<lambda>found.
          if \<not> found then OK (None, st\<lparr>invalid_addresses := invalid_addresses st + 1\<rparr>)
          else bindE (mv_get st ptr) (\<lambda>m. case moved of
            None \<Rightarrow> Fault Null_Deref
          | Some p \<Rightarrow>
              bindE (c_int (to_int sz - to_int (request_size m))) (\<lambda>sub.
              let st = st\<lparr>mv_heap := (mv_heap st)(ptr := None, p \<mapsto> m\<lparr>request_size := sz,
                           mv_filename := file, instruction := instr\<rparr>)\<rparr>
              in OK (Some (p + header_size st),
                   if sub < 0 then st\<lparr>total_memory_freed := total_memory_freed st - of_int sub\<rparr>
                   else st\<lparr>total_memory_requested := total_memory_requested st + of_int sub\<rparr>)))))"

section \<open>Specification\<close>

fun mchain :: "(address \<rightharpoonup> meta_data) \<Rightarrow> address option \<Rightarrow> address list \<Rightarrow> bool" where
  "mchain h p [] \<longleftrightarrow> p = None"
| "mchain h p (a # as) \<longleftrightarrow> p = Some a \<and> (\<exists>m. h a = Some m \<and> mchain h (mv_next m) as)"

text \<open>The blocks not yet freed, with their sizes, and the totals that account for them.\<close>

definition tracked :: "mini_valgrind \<Rightarrow> address \<rightharpoonup> size_t" where
  "tracked st = (\<lambda>a. map_option request_size (mv_heap st a))"

definition mv_inv :: "mini_valgrind \<Rightarrow> bool" where
  "mv_inv st \<longleftrightarrow> (\<exists>as. mchain (mv_heap st) (mv_head st) as \<and> distinct as \<and> dom (mv_heap st) = set as \<and>
     total_memory_requested st = total_memory_freed st + (\<Sum>a \<in> set as. the (tracked st a)))"

section \<open>Lemmas\<close>

lemma mchain_upd: "a \<notin> set as \<Longrightarrow> mchain (h(a := v)) p as = mchain h p as"
  by (induction h p as rule: mchain.induct) auto

lemma find_header_chain: "mchain h p as \<Longrightarrow> find_header h ptr p = Some (OK (ptr \<in> set as))"
  by (induction as arbitrary: p) (subst find_header.simps; auto)+

fun before :: "address \<Rightarrow> address list \<Rightarrow> address option" where
  "before ptr [] = None"
| "before ptr [a] = None"
| "before ptr (a # b # as) = (if b = ptr then Some a else before ptr (b # as))"

lemma find_before_chain: "mchain h p as \<Longrightarrow> find_before h ptr p = Some (OK (before ptr as))"
proof (induction ptr as arbitrary: p rule: before.induct)
  case (3 ptr a b as)
  then show ?case by (subst find_before.simps) auto
next
  case (1 ptr)
  then show ?case by (subst find_before.simps) simp
next
  case (2 ptr a)
  then obtain m where "p = Some a" "h a = Some m" "mv_next m = None" by auto
  then show ?case by (subst find_before.simps) (simp, subst find_before.simps, simp)
qed

lemma before_Some: "before ptr as = Some t \<Longrightarrow> \<exists>xs ys. as = xs @ t # ptr # ys"
proof (induction ptr as rule: before.induct)
  case (3 ptr a b as)
  show ?case
  proof (cases "b = ptr")
    case True
    with 3(2) show ?thesis by (intro exI [of _ "[]"] exI [of _ as]) auto
  next
    case False
    with 3 obtain xs ys where "b # as = xs @ t # ptr # ys" by auto
    then show ?thesis by (intro exI [of _ "a # xs"] exI [of _ ys]) auto
  qed
qed auto

lemma before_None: "before ptr as = None \<longleftrightarrow> ptr \<notin> set (tl as)"
  by (induction ptr as rule: before.induct) auto

lemma mchain_cong: "(\<And>a. a \<in> set as \<Longrightarrow> h a = h' a) \<Longrightarrow> mchain h p as = mchain h' p as"
  by (induction h p as rule: mchain.induct) auto

lemma mchain_skip:
  assumes "mchain h p (xs @ t # q # ys)" "h q = Some m" "h' t = Some n" "mv_next n = mv_next m"
    "\<And>a. a \<in> set xs \<union> set ys \<Longrightarrow> h' a = h a"
  shows "mchain h' p (xs @ t # ys)"
  using assms
proof (induction xs arbitrary: p)
  case Nil
  then have "mchain h' (mv_next m) ys" using mchain_cong [of ys h' h "mv_next m"] by auto
  with Nil show ?case by auto
qed auto

lemma mchain_unlink:
  assumes "mchain h p (xs @ t # q # ys)" "distinct (xs @ t # q # ys)" "h t = Some n" "h q = Some m"
  shows "mchain (h(t \<mapsto> n\<lparr>mv_next := mv_next m\<rparr>, q := None)) p (xs @ t # ys)"
  by (rule mchain_skip [OF assms(1,4), where n = "n\<lparr>mv_next := mv_next m\<rparr>"]) (use assms(2) in auto)

lemma mchain_link:
  assumes "mchain h (Some a) (a # as)" "distinct (a # as)" "p \<notin> set (a # as)" "h a = Some m"
  shows "mchain (h(a \<mapsto> m\<lparr>mv_next := Some p\<rparr>, p \<mapsto> n\<lparr>mv_next := mv_next m\<rparr>)) (Some a) (a # p # as)"
  using assms by (auto simp: mchain_upd)

lemma sum_insert_new:
  fixes f g :: "address \<Rightarrow> size_t"
  assumes "finite A" "p \<notin> A" "\<And>a. a \<in> A \<Longrightarrow> g a = f a"
  shows "sum g (insert p A) = g p + sum f A"
  using assms by (simp add: sum.insert cong: sum.cong)

lemma track_ok:
  assumes inv: "mv_inv st" and p: "mv_heap st p = None" "mv_head st = None \<Longrightarrow> junk = None"
  shows "\<exists>st'. track (Some p, junk) sz file instr st = OK (Some (p + header_size st), st') \<and> mv_inv st' \<and>
    tracked st' = (tracked st)(p \<mapsto> sz) \<and>
    total_memory_requested st' = total_memory_requested st + sz \<and>
    total_memory_freed st' = total_memory_freed st \<and> invalid_addresses st' = invalid_addresses st"
proof -
  from inv obtain as where as: "mchain (mv_heap st) (mv_head st) as" "distinct as" "dom (mv_heap st) = set as"
    "total_memory_requested st = total_memory_freed st + (\<Sum>a \<in> set as. the (tracked st a))"
    by (auto simp: mv_inv_def)
  have p': "p \<notin> set as" using p(1) as(3) by auto
  let ?n = "\<lparr>request_size = sz, mv_filename = file, instruction = instr, mv_next = junk\<rparr>"
  let ?g = "(tracked st)(p \<mapsto> sz)"
  have sum: "(\<Sum>a \<in> insert p (set as). the (?g a)) = sz + (\<Sum>a \<in> set as. the (tracked st a))"
    using p' by (subst sum_insert_new [where f = "\<lambda>a. the (tracked st a)"]) auto
  show ?thesis
  proof (cases as)
    case Nil
    then have head: "mv_head st = None" using as(1) by simp
    define st' where "st' = st\<lparr>mv_heap := (mv_heap st)(p \<mapsto> ?n), mv_head := Some p,
      total_memory_requested := total_memory_requested st + sz\<rparr>"
    have t: "tracked st' = ?g" by (auto simp: st'_def tracked_def fun_eq_iff)
    have "mv_inv st'"
      unfolding mv_inv_def t using head p(2) Nil as(3,4) sum
      by (intro exI [of _ "[p]"]) (auto simp: st'_def)
    moreover have "track (Some p, junk) sz file instr st = OK (Some (p + header_size st), st')"
      using head by (simp add: track_def link_header_def st'_def)
    ultimately show ?thesis using t by (auto simp: st'_def)
  next
    case (Cons a as')
    then obtain m where m: "mv_head st = Some a" "mv_heap st a = Some m" using as(1) by auto
    have ap: "a \<noteq> p" using p' Cons by auto
    define st' where "st' = st\<lparr>mv_heap := (mv_heap st)(p \<mapsto> ?n, a \<mapsto> m\<lparr>mv_next := Some p\<rparr>, p \<mapsto> ?n\<lparr>mv_next := mv_next m\<rparr>),
      total_memory_requested := total_memory_requested st + sz\<rparr>"
    have t: "tracked st' = ?g" using m ap by (auto simp: st'_def tracked_def fun_eq_iff)
    have "mchain (mv_heap st') (mv_head st') (a # p # as')"
      using mchain_link [of "(mv_heap st)(p \<mapsto> ?n)" a as' p m ?n] as(1,2) Cons m p' ap
      by (simp add: st'_def mchain_upd)
    moreover have "dom (mv_heap st') = set (a # p # as')" using as(3) Cons by (auto simp: st'_def)
    moreover have "total_memory_requested st' = total_memory_freed st' + (\<Sum>x \<in> set (a # p # as'). the (tracked st' x))"
    proof -
      have "set (a # p # as') = insert p (set as)" using Cons by auto
      then show ?thesis unfolding t using sum as(4) by (simp add: st'_def add.assoc add.commute [of sz])
    qed
    ultimately have "mv_inv st'" unfolding mv_inv_def using as(2) Cons p' by (intro exI [of _ "a # p # as'"]) auto
    moreover have "track (Some p, junk) sz file instr st = OK (Some (p + header_size st), st')"
      using m ap by (simp add: track_def link_header_def st'_def fun_upd_twist)
    ultimately show ?thesis using t by (auto simp: st'_def)
  qed
qed

lemma sum_remove_one:
  fixes f :: "address \<Rightarrow> size_t"
  shows "finite A \<Longrightarrow> p \<in> A \<Longrightarrow> sum f A = f p + sum f (A - {p})"
  by (rule sum.remove)

lemma mini_free_ok:
  assumes inv: "mv_inv st" and q: "header_size st < q"
  shows "\<exists>st'. mini_free (Some q) st = OK st' \<and> mv_inv st' \<and>
    (case tracked st (q - header_size st) of
       Some sz \<Rightarrow> tracked st' = (tracked st)(q - header_size st := None) \<and>
         total_memory_freed st' = total_memory_freed st + sz \<and> invalid_addresses st' = invalid_addresses st
     | None \<Rightarrow> st' = st\<lparr>invalid_addresses := invalid_addresses st + 1\<rparr>) \<and>
    total_memory_requested st' = total_memory_requested st"
proof -
  let ?p = "q - header_size st"
  from inv obtain as where as: "mchain (mv_heap st) (mv_head st) as" "distinct as" "dom (mv_heap st) = set as"
    "total_memory_requested st = total_memory_freed st + (\<Sum>a \<in> set as. the (tracked st a))"
    by (auto simp: mv_inv_def)
  have p0: "?p \<noteq> 0" using q by simp
  have known: "tracked st a = None \<longleftrightarrow> a \<notin> set as" for a using as(3) by (auto simp: tracked_def)
  have removed: "mv_inv st'" if st': "st' = st\<lparr>mv_head := hd', mv_heap := h', total_memory_freed := total_memory_freed st + request_size m\<rparr>"
      and m: "mv_heap st ?p = Some m" and c: "mchain h' hd' bs" "set bs = set as - {?p}" "distinct bs" "dom h' = set bs"
      and same: "\<And>a. a \<noteq> ?p \<Longrightarrow> map_option request_size (h' a) = map_option request_size (mv_heap st a)" for st' hd' h' m bs
  proof -
    have "?p \<in> set as" using m as(3) by auto
    then have "(\<Sum>a \<in> set as. the (tracked st a)) = request_size m + (\<Sum>a \<in> set bs. the (tracked st a))"
      using c(2) m by (subst sum.remove [of _ ?p]) (simp_all add: tracked_def)
    also have "(\<Sum>a \<in> set bs. the (tracked st a)) = (\<Sum>a \<in> set bs. the (tracked st' a))"
      using same c(2) by (intro sum.cong) (auto simp: st' tracked_def)
    finally show ?thesis unfolding mv_inv_def using c as(4) by (intro exI [of _ bs]) (simp add: st')
  qed
  show ?thesis
  proof (cases "mv_head st = Some ?p")
    case True
    then obtain bs m where bs: "as = ?p # bs" "mv_heap st ?p = Some m" "mchain (mv_heap st) (mv_next m) bs"
      using as(1) by (cases as) auto
    let ?st = "st\<lparr>mv_head := mv_next m, mv_heap := (mv_heap st)(?p := None),
      total_memory_freed := total_memory_freed st + request_size m\<rparr>"
    have "mv_inv ?st"
      by (rule removed [OF refl bs(2), of _ _ bs]) (use as bs in \<open>auto simp: mchain_upd\<close>)
    moreover have "mini_free (Some q) st = OK ?st" using True bs(2) p0 by (simp add: mini_free_def mv_get_def Let_def)
    moreover have "tracked ?st = (tracked st)(?p := None)" by (auto simp: tracked_def fun_eq_iff)
    ultimately show ?thesis using bs(2) by (auto simp: tracked_def)
  next
    case False
    have run: "returns (find_before (mv_heap st) ?p (mv_head st)) = OK (before ?p as)"
      using find_before_chain [OF as(1)] by (simp add: returns_def)
    show ?thesis
    proof (cases "before ?p as")
      case None
      have "?p \<notin> set as" using None before_None [of ?p as] as(1) False by (cases as) auto
      then have "tracked st ?p = None" using known by simp
      moreover have "mini_free (Some q) st = OK (st\<lparr>invalid_addresses := invalid_addresses st + 1\<rparr>)"
        using False None run p0 by (simp add: mini_free_def Let_def)
      moreover have "mv_inv (st\<lparr>invalid_addresses := invalid_addresses st + 1\<rparr>)"
        using inv by (simp add: mv_inv_def tracked_def)
      ultimately show ?thesis by simp
    next
      case (Some t)
      then obtain xs ys where xs: "as = xs @ t # ?p # ys" using before_Some by blast
      then obtain m n where mn: "mv_heap st ?p = Some m" "mv_heap st t = Some n"
        using as(3) by (metis domD in_set_conv_decomp list.set_intros(2) append_Cons append_assoc append_Nil)
      let ?h = "(mv_heap st)(t \<mapsto> n\<lparr>mv_next := mv_next m\<rparr>, ?p := None)"
      let ?st = "st\<lparr>mv_head := mv_head st, mv_heap := ?h, total_memory_freed := total_memory_freed st + request_size m\<rparr>"
      have tp: "t \<noteq> ?p" using as(2) xs by auto
      have "mchain ?h (mv_head st) (xs @ t # ys)" using mchain_unlink as(1,2) xs mn by blast
      then have "mv_inv ?st"
        by (rule removed [OF refl mn(1)]) (use as(2,3) xs tp mn(2) in auto)
      moreover have "mini_free (Some q) st = OK ?st"
        using False Some run p0 mn by (simp add: mini_free_def mv_get_def Let_def)
      moreover have "tracked ?st = (tracked st)(?p := None)" using mn(2) tp by (auto simp: tracked_def fun_eq_iff)
      ultimately show ?thesis using mn(1) by (auto simp: tracked_def)
    qed
  qed
qed

lemma size_difference:
  fixes new old :: size_t
  assumes "unat new < 2 ^ 31" "unat old < 2 ^ 31"
  shows "c_int (to_int new - to_int old) = OK (to_int new - to_int old)"
    and "of_int (to_int new - to_int old) = new - old"
proof -
  have "int (unat new) < int (2 ^ 31)" "int (unat old) < int (2 ^ 31)"
    using assms by (simp_all only: of_nat_less_iff)
  then have lt: "to_int new < 2 ^ 31" "to_int old < 2 ^ 31"
    by (simp_all add: to_int_small [OF assms(1)] to_int_small [OF assms(2)])
  have "0 \<le> to_int new" "0 \<le> to_int old"
    by (simp_all add: to_int_small [OF assms(1)] to_int_small [OF assms(2)])
  with lt have "to_int new - to_int old < 2 ^ 31" "- (2 ^ 31) < to_int new - to_int old" by simp_all
  then show "c_int (to_int new - to_int old) = OK (to_int new - to_int old)"
    by (intro c_int_OK) (simp_all add: INT_MIN_def INT_MAX_def)
  show "of_int (to_int new - to_int old) = new - old"
    unfolding to_int_small [OF assms(1)] to_int_small [OF assms(2)] by simp
qed

section \<open>Properties\<close>

text \<open>
  A tracked allocation adds exactly its block and its size to what is tracked, and the
  list and the totals stay consistent, provided the first header of the list starts out zero.
\<close>

theorem mini_malloc_tracks:
  assumes "mv_inv st" "mv_heap st p = None" "mv_head st = None \<Longrightarrow> junk = None" "sz \<noteq> 0"
  shows "\<exists>st'. mini_malloc (Some p, junk) sz file instr st = OK (Some (p + header_size st), st') \<and>
    mv_inv st' \<and> tracked st' = (tracked st)(p \<mapsto> sz) \<and>
    total_memory_requested st' = total_memory_requested st + sz \<and>
    total_memory_freed st' = total_memory_freed st \<and> invalid_addresses st' = invalid_addresses st"
  using track_ok [OF assms(1-3)] assms(4) by (simp add: mini_malloc_def)

definition mv_init :: "nat \<Rightarrow> mini_valgrind" where
  "mv_init h = \<lparr>header_size = h, mv_head = None, mv_heap = Map.empty, total_memory_requested = 0,
     total_memory_freed = 0, invalid_addresses = 0\<rparr>"

lemma mv_init_inv: "mv_inv (mv_init h)"
  by (auto simp: mv_inv_def mv_init_def intro!: exI [of _ "[]"])

theorem mini_malloc_tracks_witness:
  "\<exists>st'. mini_malloc (Some 100, None) 10 ''a.c'' 7 (mv_init 32) = OK (Some 132, st') \<and> mv_inv st'"
  using mini_malloc_tracks [OF mv_init_inv, of 32 100 None 10 "''a.c''" 7] by (auto simp: mv_init_def)

text \<open>
  C34: freeing a tracked payload takes exactly that block off the list and adds its size to the
  memory freed; freeing any other pointer only counts an invalid address. Either way the
  loops end and no header is read that is not on the list.
\<close>

theorem mini_free_tracks:
  assumes "mv_inv st" "header_size st < q"
  shows "\<exists>st'. mini_free (Some q) st = OK st' \<and> mv_inv st' \<and>
    (case tracked st (q - header_size st) of
       Some sz \<Rightarrow> tracked st' = (tracked st)(q - header_size st := None) \<and>
         total_memory_freed st' = total_memory_freed st + sz \<and> invalid_addresses st' = invalid_addresses st
     | None \<Rightarrow> st' = st\<lparr>invalid_addresses := invalid_addresses st + 1\<rparr>) \<and>
    total_memory_requested st' = total_memory_requested st"
  by (rule mini_free_ok [OF assms])

theorem mini_free_tracks_witness:
  "\<exists>st'. mini_free (Some 500) (mv_init 32) = OK st' \<and> invalid_addresses st' = 1"
  using mini_free_tracks [OF mv_init_inv, of 32 500] by (auto simp: mv_init_def tracked_def)

text \<open>
  Reallocating a tracked payload in place, for sizes below 2^31, changes exactly its size,
  and the totals still account for the tracked blocks.
\<close>

theorem mini_realloc_in_place:
  assumes inv: "mv_inv st" and old: "tracked st p = Some old" and sz: "sz \<noteq> 0" "unat sz < 2 ^ 31" "unat old < 2 ^ 31"
  shows "\<exists>st'. mini_realloc r (Some p) (Some (p + header_size st)) sz file instr st =
      OK (Some (p + header_size st), st') \<and> mv_inv st' \<and> tracked st' = (tracked st)(p \<mapsto> sz) \<and>
    invalid_addresses st' = invalid_addresses st"
proof -
  from inv obtain as where as: "mchain (mv_heap st) (mv_head st) as" "distinct as" "dom (mv_heap st) = set as"
    "total_memory_requested st = total_memory_freed st + (\<Sum>a \<in> set as. the (tracked st a))"
    by (auto simp: mv_inv_def)
  obtain m where m: "mv_heap st p = Some m" "request_size m = old" using old by (auto simp: tracked_def)
  then have p: "p \<in> set as" using as(3) by auto
  let ?m = "m\<lparr>request_size := sz, mv_filename := file, instruction := instr\<rparr>"
  let ?st1 = "st\<lparr>mv_heap := (mv_heap st)(p := None, p \<mapsto> ?m)\<rparr>" and ?sub = "to_int sz - to_int old"
  let ?st = "if ?sub < 0 then ?st1\<lparr>total_memory_freed := total_memory_freed ?st1 - of_int ?sub\<rparr>
    else ?st1\<lparr>total_memory_requested := total_memory_requested ?st1 + of_int ?sub\<rparr>"
  have "mini_realloc r (Some p) (Some (p + header_size st)) sz file instr st = OK (Some (p + header_size st), ?st)"
    using sz(1) p m find_header_chain [OF as(1), of p] size_difference(1) [OF sz(2,3)]
    by (simp add: mini_realloc_def returns_def mv_get_def Let_def)
  moreover have t: "tracked ?st = (tracked st)(p \<mapsto> sz)" by (auto simp: tracked_def fun_eq_iff)
  moreover have "mv_inv ?st"
  proof -
    have chain: "mchain h p0 bs \<Longrightarrow> h p = Some m \<Longrightarrow> mchain (h(p \<mapsto> ?m)) p0 bs" for h p0 bs
      by (induction h p0 bs rule: mchain.induct) auto
    have c: "mchain (mv_heap ?st) (mv_head ?st) as" using chain [OF as(1) m(1)] by simp
    have sums: "(\<Sum>a \<in> set as. the (tracked ?st a)) = (\<Sum>a \<in> set as. the (tracked st a)) + (sz - old)"
    proof -
      have "(\<Sum>a \<in> set as. the (((tracked st)(p \<mapsto> sz)) a)) =
          sz + (\<Sum>a \<in> set as - {p}. the (((tracked st)(p \<mapsto> sz)) a))"
        using p by (subst sum.remove [of _ p]) simp_all
      also have "(\<Sum>a \<in> set as - {p}. the (((tracked st)(p \<mapsto> sz)) a)) = (\<Sum>a \<in> set as - {p}. the (tracked st a))"
        by (rule sum.cong) auto
      also have "sz + \<dots> = (old + (\<Sum>a \<in> set as - {p}. the (tracked st a))) + (sz - old)" by simp
      also have "old + (\<Sum>a \<in> set as - {p}. the (tracked st a)) = (\<Sum>a \<in> set as. the (tracked st a))"
        using p old by (subst (2) sum.remove [of _ p]) simp_all
      finally show ?thesis unfolding t .
    qed
    have "total_memory_requested ?st = total_memory_freed ?st + ((\<Sum>a \<in> set as. the (tracked st a)) + (sz - old))"
      using as(4) size_difference(2) [OF sz(2,3)] by (simp add: algebra_simps)
    moreover have "dom (mv_heap ?st) = set as" using as(3) p by auto
    ultimately show ?thesis unfolding mv_inv_def sums [symmetric] using c as(2) by blast
  qed
  ultimately show ?thesis by (intro exI [of _ ?st]) simp
qed

definition mv_one :: mini_valgrind where
  "mv_one = (mv_init 32)\<lparr>mv_head := Some 100, mv_heap := [100 \<mapsto> \<lparr>request_size = 10, mv_filename = ''a.c'',
     instruction = 7, mv_next = None\<rparr>], total_memory_requested := 10\<rparr>"

lemma mv_one_inv: "mv_inv mv_one"
  unfolding mv_inv_def by (intro exI [of _ "[100]"]) (simp add: mv_one_def mv_init_def tracked_def)

theorem mini_realloc_in_place_witness:
  "\<exists>st'. mini_realloc (None, None) (Some 100) (Some 132) 20 ''a.c'' 8 mv_one = OK (Some 132, st') \<and> mv_inv st'"
  using mini_realloc_in_place [OF mv_one_inv, of 100 10 20 "(None, None)" "''a.c''" 8]
  by (auto simp: mv_one_def mv_init_def tracked_def)

text \<open>
  The tracker relies on the first block the C library hands out being zeroed: when the word
  that becomes the next pointer of the first header held a 7, freeing an address that is not
  tracked follows it.
\<close>

theorem mini_malloc_junk_next:
  "bindE (mini_malloc (Some 100, Some 7) 10 ''a.c'' 1 (mv_init 32))
     (\<lambda>(_, st). mini_free (Some 500) st) = Fault Out_Of_Bounds"
  by (simp add: mini_malloc_def track_def link_header_def mv_init_def mini_free_def Let_def returns_def
        find_before.simps)

text \<open>
  When \<open>realloc\<close> moves a block its old address stays in the list, and freeing the payload
  that \<open>mini_realloc\<close> returned reads the block that is gone.
\<close>

theorem mini_realloc_moved:
  "bindE (mini_malloc (Some 100, None) 10 ''a.c'' 1 (mv_init 32)) (\<lambda>(_, st).
     bindE (mini_realloc (None, None) (Some 2000) (Some 132) 20 ''a.c'' 2 st)
       (\<lambda>(q, st). mini_free q st)) = Fault Out_Of_Bounds"
proof -
  have "c_int (to_int 20 - to_int 10) = OK 10" by (simp add: to_int_def c_int_def INT_MIN_def INT_MAX_def)
  then show ?thesis
    by (simp add: mini_malloc_def track_def link_header_def mv_init_def mini_free_def Let_def returns_def
        mini_realloc_def mv_get_def find_header.simps find_before.simps)
qed

end
