(* ===== verification/CamelCaser.thy ===== *)
theory CamelCaser
  imports C_String Ctype
begin

text \<open>
  \<open>extreme_edge_cases/camelCaser.c\<close>: the input is cut into the texts before its punctuation
  characters, and each of them is rewritten in place: white space is removed by moving the
  rest of the string down, and the case of the letters is changed as the scan goes along.
  The result is that of one pass that only looks at the character before.
\<close>

section \<open>The model\<close>

text \<open>
  The array \<open>result\<close> as its cells: an unwritten one, the null pointer, or a string. The scan
  runs to \<open>(int)strlen(input_str)\<close>; \<open>temp1\<close> and \<open>temp2\<close> are offsets.
\<close>

type_synonym result_array = "string option option list"

definition split_step :: "string \<Rightarrow> nat \<Rightarrow> result_array \<times> nat \<times> nat \<Rightarrow> (result_array \<times> nat \<times> nat) res" where
  "split_step input temp2 = (\<lambda>(result, count, temp1).
     if ispunct (input ! temp2) then
       bindE (wr (realloc_cells result (2 + count)) count
                 (Some (if temp1 = temp2 then [] else take (temp2 - temp1) (drop temp1 input))))
         (\<lambda>result. OK (result, count + 1, temp2 + 1))
     else OK (result, count, temp1))"

text \<open>The inner loop on the cell \<open>j\<close>; past the end it holds the terminator, which is no space.\<close>

function squeeze :: "nat \<Rightarrow> string \<Rightarrow> string" where
  "squeeze j s = (if j < length s \<and> is_space (s ! j) then
     let s = take j s @ drop (Suc j) s
     in squeeze j (if j < length s \<and> isalpha (s ! j) then s[j := toupper (s ! j)] else s)
   else s)"
  by pat_completeness auto
termination by (relation "measure (\<lambda>(j, s). length s)") (auto simp: Let_def)

declare squeeze.simps [simp del]

definition recase :: "nat \<Rightarrow> string \<Rightarrow> string" where
  "recase j s = (if isalpha (s ! j) then
     let s = s[j := tolower (s ! j)]
     in if 0 < j \<and> is_digit (s ! (j - 1)) then s[j := toupper (s ! j)] else s
   else s)"

lemma length_squeeze: "length (squeeze j s) \<le> length s"
proof (induction j s rule: squeeze.induct)
  case (1 j s)
  show ?case
  proof (cases "j < length s \<and> is_space (s ! j)")
    case True
    then show ?thesis using 1 [OF True refl] by (subst squeeze.simps) (auto simp: Let_def)
  qed (subst squeeze.simps, auto)
qed

lemma length_recase [simp]: "length (recase j s) = length s"
  by (simp add: recase_def Let_def)

function case_loop :: "nat \<Rightarrow> string \<Rightarrow> string" where
  "case_loop j s = (if j < length s then case_loop (j + 1) (squeeze j (recase j s)) else s)"
  by pat_completeness auto
termination
proof (relation "measure (\<lambda>(j, s). length s - j)", simp)
  fix j :: nat and s :: string
  assume "j < length s"
  with length_squeeze [of j "recase j s"]
  show "((j + 1, squeeze j (recase j s)), j, s) \<in> measure (\<lambda>(j, s). length s - j)" by auto
qed

declare case_loop.simps [simp del]

definition case_sentence :: "string \<Rightarrow> string" where
  "case_sentence s = (let s = case_loop 0 s in
     if s \<noteq> [] \<and> isalpha (s ! 0) then s[0 := tolower (s ! 0)] else s)"

definition case_cell :: "nat \<Rightarrow> result_array \<Rightarrow> result_array res" where
  "case_cell i result = bindE (rd result i) (\<lambda>str. case str of
      None \<Rightarrow> Fault Null_Deref
    | Some s \<Rightarrow> wr result i (Some (case_sentence s)))"

definition camel_caser :: "string option \<Rightarrow> result_array option res" where
  "camel_caser input_str = (case input_str of
      None \<Rightarrow> OK None
    | Some input \<Rightarrow>
        bindE (forE [0..<nat (to_int (of_nat (length input)))] (split_step input) (replicate 1 None, 0, 0))
          (\<lambda>(result, count, _).
        bindE (wr result count None) (\<lambda>result.
        bindE (forE [0..<count] case_cell result) (\<lambda>result. OK (Some result)))))"

text \<open>The strings that \<open>destroy\<close> frees, in order, before the array; its loop ends at the null pointer.\<close>

primrec destroy_loop :: "result_array \<Rightarrow> string list res" where
  "destroy_loop [] = Fault Out_Of_Bounds"
| "destroy_loop (c # tmp) = (case c of
      None \<Rightarrow> Fault Uninit_Read
    | Some None \<Rightarrow> OK []
    | Some (Some s) \<Rightarrow> bindE (destroy_loop tmp) (\<lambda>freed. OK (s # freed)))"

definition destroy :: "result_array option \<Rightarrow> string list res" where
  "destroy result = (case result of None \<Rightarrow> OK [] | Some cells \<Rightarrow> destroy_loop cells)"

section \<open>Specification\<close>

text \<open>The texts before the punctuation characters; what follows the last one is dropped.\<close>

fun sentences :: "string \<Rightarrow> string \<Rightarrow> string list" where
  "sentences acc [] = []"
| "sentences acc (c # cs) = (if ispunct c then acc # sentences [] cs else sentences (acc @ [c]) cs)"

text \<open>
  One pass: white space goes, a letter after white space or after a digit becomes upper case,
  any other letter lower case.
\<close>

fun casing :: "bool \<Rightarrow> string \<Rightarrow> string" where
  "casing up [] = []"
| "casing up (c # cs) = (if is_space c then casing True cs
     else (if up then toupper c else tolower c) # casing (is_digit c) cs)"

definition camel_sentence :: "string \<Rightarrow> string" where
  "camel_sentence s = (case casing False s of [] \<Rightarrow> [] | c # cs \<Rightarrow> tolower c # cs)"

section \<open>Lemmas\<close>

text \<open>Squeezing at \<open>j\<close> removes the spaces there and raises the letter behind them.\<close>

definition raise :: "string \<Rightarrow> string" where
  "raise s = (case s of [] \<Rightarrow> [] | c # cs \<Rightarrow> if isalpha c then toupper c # cs else c # cs)"

lemma squeeze_split:
  "squeeze (length p) (p @ q) = p @ (if q \<noteq> [] \<and> is_space (hd q) then raise (dropWhile is_space q) else q)"
proof (induction q rule: length_induct)
  case (1 q)
  show ?case
  proof (cases "q \<noteq> [] \<and> is_space (hd q)")
    case False
    then show ?thesis by (subst squeeze.simps) (cases q; auto simp: nth_append)
  next
    case True
    then obtain c cs where q: "q = c # cs" "is_space c" by (cases q) auto
    have step: "squeeze (length p) (p @ q) = squeeze (length p) (p @ raise cs)"
      using q by (subst squeeze.simps)
        (cases cs; auto simp: Let_def nth_append list_update_append raise_def)
    have len: "length (raise cs) < length q" using q by (cases cs) (simp_all add: raise_def)
    have "(if raise cs \<noteq> [] \<and> is_space (hd (raise cs)) then raise (dropWhile is_space (raise cs)) else raise cs) =
        raise (dropWhile is_space q)"
      using q by (cases cs) (auto simp: raise_def dest: not_space_alpha)
    moreover have "squeeze (length p) (p @ raise cs) = p @ (if raise cs \<noteq> [] \<and> is_space (hd (raise cs))
        then raise (dropWhile is_space (raise cs)) else raise cs)"
      using 1 len by blast
    ultimately show ?thesis using step True by (simp only: if_True simp_thms)
  qed
qed

text \<open>What the scan leaves at the end of the part it has passed decides the next letter.\<close>

definition after_digit :: "string \<Rightarrow> bool" where
  "after_digit p \<longleftrightarrow> p \<noteq> [] \<and> is_digit (last p)"

lemma recase_split: "recase (length p) (p @ c # q) = p @ (if after_digit p then toupper c else tolower c) # q"
proof (cases "isalpha c")
  case True
  then show ?thesis
    by (cases p rule: rev_cases)
      (auto simp: recase_def after_digit_def nth_append list_update_append Let_def)
qed (simp add: recase_def nth_append)

lemma casing_dropWhile: "casing True (dropWhile is_space q) = casing True q"
  by (induction q) auto

lemma casing_raise:
  "q \<noteq> [] \<Longrightarrow> \<not> is_space (hd q) \<Longrightarrow> casing True q = hd (raise q) # casing (is_digit (hd q)) (tl q)"
  by (cases q) (auto simp: raise_def)

lemma case_loop_split: "case_loop (length p) (p @ q) = p @ casing (after_digit p) q"
proof (induction "length q" arbitrary: p q rule: less_induct)
  case less
  show ?case
  proof (cases q)
    case Nil
    then show ?thesis by (simp add: case_loop.simps)
  next
    case (Cons c cs)
    let ?c = "if after_digit p then toupper c else tolower c"
    have step: "case_loop (length p) (p @ q) = case_loop (length p + 1) (squeeze (length p) (p @ ?c # cs))"
      using Cons recase_split [of p c cs] by (subst case_loop.simps) simp
    have sp: "is_space ?c = is_space c" "is_digit ?c = is_digit c" by auto
    show ?thesis
    proof (cases "is_space c")
      case False
      then have "squeeze (length p) (p @ ?c # cs) = (p @ [?c]) @ cs" using squeeze_split [of p "?c # cs"] sp by simp
      moreover have "case_loop (length (p @ [?c])) ((p @ [?c]) @ cs) = (p @ [?c]) @ casing (after_digit (p @ [?c])) cs"
        using less [of cs "p @ [?c]"] Cons by simp
      ultimately show ?thesis using step False Cons sp(2) by (simp add: after_digit_def)
    next
      case True
      let ?r = "dropWhile is_space cs"
      have sq: "squeeze (length p) (p @ ?c # cs) = p @ raise ?r"
        using squeeze_split [of p "?c # cs"] sp True by simp
      have cas: "casing (after_digit p) q = casing True ?r" using True Cons casing_dropWhile by simp
      show ?thesis
      proof (cases ?r)
        case Nil
        then have "raise ?r = []" "casing True ?r = []"
          by (simp_all add: raise_def del: dropWhile_eq_Nil_conv)
        moreover have "case_loop (length p + 1) p = p" by (subst case_loop.simps) simp
        ultimately show ?thesis unfolding step sq cas by simp
      next
        case (Cons d ds)
        have d: "\<not> is_space d" using Cons by (metis hd_dropWhile list.distinct(1) list.sel(1))
        have "raise ?r = (if isalpha d then toupper d else d) # ds \<and>
            is_digit (if isalpha d then toupper d else d) = is_digit d"
          using Cons by (simp add: raise_def)
        then obtain e where e: "raise ?r = e # ds" "is_digit e = is_digit d" by metis
        have "length ?r \<le> length cs" by (rule length_dropWhile_le)
        then have "length ds < length q" using Cons \<open>q = c # cs\<close> by simp
        then have "case_loop (length (p @ [e])) ((p @ [e]) @ ds) = (p @ [e]) @ casing (after_digit (p @ [e])) ds"
          using less by blast
        moreover have "casing True ?r = e # casing (is_digit d) ds"
          using casing_raise [of ?r] Cons d e by simp
        ultimately show ?thesis unfolding step sq cas e(1) using e(2) by (simp add: after_digit_def)
      qed
    qed
  qed
qed

lemma case_sentence_eq: "case_sentence s = camel_sentence s"
  using case_loop_split [of "[]" s]
  by (cases "casing False s") (auto simp: case_sentence_def camel_sentence_def Let_def after_digit_def)

text \<open>The text since the last punctuation character.\<close>

fun pending :: "string \<Rightarrow> string \<Rightarrow> string" where
  "pending acc [] = acc"
| "pending acc (c # cs) = (if ispunct c then pending [] cs else pending (acc @ [c]) cs)"

lemma sentences_snoc:
  "sentences acc (cs @ [c]) = sentences acc cs @ (if ispunct c then [pending acc cs] else [])"
  by (induction acc cs rule: sentences.induct) auto

lemma pending_snoc: "pending acc (cs @ [c]) = (if ispunct c then [] else pending acc cs @ [c])"
  by (induction acc cs rule: pending.induct) auto

definition cells :: "string list \<Rightarrow> result_array" where
  "cells ss = map (\<lambda>s. Some (Some s)) ss"

definition split_inv :: "string \<Rightarrow> nat \<Rightarrow> result_array \<times> nat \<times> nat \<Rightarrow> bool" where
  "split_inv input k = (\<lambda>(result, count, temp1).
     count = length (sentences [] (take k input)) \<and> length result = count + 1 \<and>
     take (length (sentences [] (take k input))) result = cells (sentences [] (take k input)) \<and> temp1 \<le> k \<and>
     drop temp1 (take k input) = pending [] (take k input))"

lemma split_step_ok:
  assumes "split_inv input k st" "k < length input"
  shows "\<exists>st'. split_step input k st = OK st' \<and> split_inv input (Suc k) st'"
proof -
  obtain result count temp1 where st: "st = (result, count, temp1)" by (cases st)
  note inv = assms(1) [unfolded st split_inv_def, simplified]
  have tk: "take (Suc k) input = take k input @ [input ! k]" using assms(2) by (rule take_Suc_conv_app_nth)
  show ?thesis
  proof (cases "ispunct (input ! k)")
    case False
    then show ?thesis using inv assms(2)
      by (simp add: st split_step_def split_inv_def tk sentences_snoc pending_snoc)
  next
    case True
    let ?r = "(realloc_cells result (2 + count))[count := Some (Some (pending [] (take k input)))]"
    have piece: "(if temp1 = k then [] else take (k - temp1) (drop temp1 input)) = pending [] (take k input)"
      using inv by (auto simp: drop_take)
    have "split_step input k st = OK (?r, count + 1, Suc k)"
      using True inv piece by (simp add: st split_step_def)
    moreover have "take (count + 1) ?r = cells (sentences [] (take (Suc k) input))"
      using inv True by (simp add: take_list_update_Suc tk sentences_snoc cells_def)
    ultimately show ?thesis using inv True assms(2)
      by (simp add: split_inv_def tk sentences_snoc pending_snoc)
  qed
qed

lemma case_cells_ok:
  "\<exists>r. forE [0..<length ss] case_cell (cells ss @ [Some None]) = OK r \<and>
     r = cells (map camel_sentence ss) @ [Some None]"
proof -
  let ?P = "\<lambda>k r. r = cells (map camel_sentence (take k ss) @ drop k ss) @ [Some None]"
  have "\<exists>r. forE [0..<length ss] case_cell (cells ss @ [Some None]) = OK r \<and> ?P (length [0..<length ss]) r"
  proof (rule forE_rule [where P = ?P])
    fix k r
    assume k: "k < length [0..<length ss]" and r: "?P k r"
    have len: "length r = length ss + 1" using k r by (simp add: cells_def)
    have rk: "r ! k = Some (Some (ss ! k))" using k r by (simp add: cells_def nth_append)
    have "case_cell k r = OK (r[k := Some (Some (camel_sentence (ss ! k)))])"
      using rk len k by (simp add: case_cell_def case_sentence_eq)
    moreover have "?P (Suc k) (r[k := Some (Some (camel_sentence (ss ! k)))])"
      unfolding r using k
      by (simp add: cells_def list_update_append take_Suc_conv_app_nth Cons_nth_drop_Suc [symmetric])
    ultimately show "\<exists>s'. case_cell ([0..<length ss] ! k) r = OK s' \<and> ?P (Suc k) s'" using k by simp
  qed simp
  then show ?thesis by simp
qed

lemma destroy_loop_strings: "destroy_loop (map (\<lambda>s. Some (Some (f s))) ss @ [Some None]) = OK (map f ss)"
  by (induction ss) simp_all

section \<open>Properties\<close>

text \<open>
  C35: for an input shorter than 2^31 the camel caser returns, with no access outside its array,
  the sentences that end in a punctuation character, in order, each rewritten as the one-pass
  specification says, and the null pointer after them; \<open>destroy\<close> then frees each of them once and
  stays inside the array.
\<close>

theorem camel_caser_sentences:
  assumes "length input < 2 ^ 31"
  shows "camel_caser (Some input) =
      OK (Some (map (\<lambda>s. Some (Some (camel_sentence s))) (sentences [] input) @ [Some None])) \<and>
    bindE (camel_caser (Some input)) destroy = OK (map camel_sentence (sentences [] input))"
proof -
  have "unat (of_nat (length input) :: size_t) = length input"
    using assms by (intro unat_of_nat_size_t) simp
  then have n: "nat (to_int (of_nat (length input))) = length input"
    using assms to_int_small [of "of_nat (length input)"] by simp
  have "\<exists>s. forE [0..<length input] (split_step input) (replicate 1 None, 0, 0) = OK s \<and>
      split_inv input (length [0..<length input]) s"
    by (rule forE_rule) (use split_step_ok in \<open>auto simp: split_inv_def cells_def\<close>)
  then obtain result count temp1 where
    run: "forE [0..<length input] (split_step input) (replicate 1 None, 0, 0) = OK (result, count, temp1)"
    and inv: "split_inv input (length input) (result, count, temp1)" by auto
  have "result[count := Some None] = cells (sentences [] input) @ [Some None]"
    using inv by (simp add: split_inv_def upd_conv_take_nth_drop)
  moreover have "count = length (sentences [] input)" "count < length result" using inv by (simp_all add: split_inv_def)
  ultimately have result: "camel_caser (Some input) =
      OK (Some (map (\<lambda>s. Some (Some (camel_sentence s))) (sentences [] input) @ [Some None]))"
    using run case_cells_ok [of "sentences [] input"] by (simp add: camel_caser_def n cells_def comp_def)
  then show ?thesis by (simp add: destroy_def destroy_loop_strings)
qed

theorem camel_caser_sentences_witness:
  "camel_caser (Some ''The Heisenbug is an incredible creature. 8lives...'') =
    OK (Some [Some (Some ''theHeisenbugIsAnIncredibleCreature''), Some (Some ''8Lives''), Some (Some []),
      Some (Some []), Some None])"
proof -
  have "length ''The Heisenbug is an incredible creature. 8lives...'' < 2 ^ 31" by simp
  moreover have "map (\<lambda>s. Some (Some (camel_sentence s)))
      (sentences [] ''The Heisenbug is an incredible creature. 8lives...'') =
    [Some (Some ''theHeisenbugIsAnIncredibleCreature''), Some (Some ''8Lives''), Some (Some []), Some (Some [])]"
    by code_simp
  ultimately show ?thesis using camel_caser_sentences by simp
qed

end
