(* ===== verification/Socket.thy ===== *)
theory Socket
  imports C_String
begin

text \<open>
  One end of a connection as the two system calls see it: the bytes that are still to arrive,
  the bytes that were sent, and the list of what the coming calls of \<open>read\<close> and \<open>write\<close> do.
  When that list is used up a blocking call has not returned yet, and a non-blocking call
  fails with \<open>EAGAIN\<close>. The number of bytes of a call is any number up to what was asked for,
  so a theorem for every list covers every way the data can be cut and delayed.
\<close>

datatype errno = EINTR | EAGAIN | EPIPE | EOTHER

text \<open>\<open>Xfer n\<close>: a call moves \<open>n\<close> bytes, or as many as it was asked for or as there are if less.\<close>

datatype io_event = Xfer nat | Err errno

record socket =
  blocking :: bool
  events :: "io_event list"
  incoming :: string
  sent :: string

text \<open>\<open>None\<close>: the call has not returned. The data of a \<open>read\<close> is empty at the end of the stream.\<close>

definition sys_read :: "nat \<Rightarrow> socket \<Rightarrow> ((errno + string) \<times> socket) option" where
  "sys_read n s = (case events s of
      [] \<Rightarrow> if blocking s then None else Some (Inl EAGAIN, s)
    | Err e # es \<Rightarrow> Some (Inl e, s\<lparr>events := es\<rparr>)
    | Xfer k # es \<Rightarrow> Some (Inr (take (min k n) (incoming s)),
        s\<lparr>events := es, incoming := drop (min k n) (incoming s)\<rparr>))"

definition sys_write :: "string \<Rightarrow> socket \<Rightarrow> ((errno + nat) \<times> socket) option" where
  "sys_write data s = (case events s of
      [] \<Rightarrow> if blocking s then None else Some (Inl EAGAIN, s)
    | Err e # es \<Rightarrow> Some (Inl e, s\<lparr>events := es\<rparr>)
    | Xfer k # es \<Rightarrow> Some (Inr (min k (length data)),
        s\<lparr>events := es, sent := sent s @ take k data\<rparr>))"

section \<open>What the calls leave\<close>

text \<open>A call that moves data or is interrupted uses up one event; only a blocked one does not.\<close>

lemma sys_read_events:
  "sys_read n s = Some (r, s') \<Longrightarrow> r \<noteq> Inl EAGAIN \<Longrightarrow> length (events s') < length (events s)"
  by (auto simp: sys_read_def split: list.splits io_event.splits if_splits)

lemma sys_write_events:
  "sys_write d s = Some (r, s') \<Longrightarrow> r \<noteq> Inl EAGAIN \<Longrightarrow> length (events s') < length (events s)"
  by (auto simp: sys_write_def split: list.splits io_event.splits if_splits)

lemma sys_events_le:
  "sys_read n s = Some (r, s') \<Longrightarrow> length (events s') \<le> length (events s)"
  "sys_write d s = Some (q, s') \<Longrightarrow> length (events s') \<le> length (events s)"
  by (auto simp: sys_read_def sys_write_def split: list.splits io_event.splits if_splits)

lemma sys_read_data:
  "sys_read n s = Some (Inr d, s') \<Longrightarrow>
     incoming s = d @ incoming s' \<and> length d \<le> n \<and> sent s' = sent s \<and> blocking s' = blocking s"
  by (auto simp: sys_read_def split: list.splits io_event.splits if_splits)

lemma sys_read_err:
  "sys_read n s = Some (Inl e, s') \<Longrightarrow>
     incoming s' = incoming s \<and> sent s' = sent s \<and> blocking s' = blocking s"
  by (auto simp: sys_read_def split: list.splits io_event.splits if_splits)

lemma sys_write_data:
  "sys_write d s = Some (Inr k, s') \<Longrightarrow>
     sent s' = sent s @ take k d \<and> k \<le> length d \<and> incoming s' = incoming s \<and> blocking s' = blocking s"
  by (auto simp: sys_write_def min_def split: list.splits io_event.splits if_splits)

lemma sys_write_err:
  "sys_write d s = Some (Inl e, s') \<Longrightarrow>
     incoming s' = incoming s \<and> sent s' = sent s \<and> blocking s' = blocking s"
  by (auto simp: sys_write_def split: list.splits io_event.splits if_splits)

lemma sys_read_nonblocking: "\<not> blocking s \<Longrightarrow> sys_read n s \<noteq> None"
  by (auto simp: sys_read_def split: list.splits io_event.splits)

lemma sys_write_nonblocking: "\<not> blocking s \<Longrightarrow> sys_write d s \<noteq> None"
  by (auto simp: sys_write_def split: list.splits io_event.splits)

text \<open>
  A smooth connection: every call moves at least one byte, apart from interruptions.
\<close>

definition smooth :: "io_event list \<Rightarrow> bool" where
  "smooth es \<longleftrightarrow> (\<forall>e \<in> set es. e = Err EINTR \<or> (\<exists>k > 0. e = Xfer k))"

primrec transfers :: "io_event list \<Rightarrow> nat" where
  "transfers [] = 0"
| "transfers (e # es) = (case e of Xfer k \<Rightarrow> 1 | Err _ \<Rightarrow> 0) + transfers es"

lemma smooth_simps [simp]:
  "smooth []" "smooth (e # es) \<longleftrightarrow> (e = Err EINTR \<or> (\<exists>k > 0. e = Xfer k)) \<and> smooth es"
  by (auto simp: smooth_def)

lemma transfers_replicate [simp]: "transfers (replicate n (Xfer k)) = n"
  by (induction n) simp_all

lemma sys_write_smooth:
  assumes "smooth (events s)" "sys_write b s = Some (x, s')" "b \<noteq> []" "length b \<le> transfers (events s)"
  shows "smooth (events s') \<and> (x = Inl EINTR \<and> transfers (events s') = transfers (events s) \<or>
    (\<exists>k > 0. x = Inr k \<and> transfers (events s) = Suc (transfers (events s'))))"
  using assms by (cases "events s") (auto simp: sys_write_def split: io_event.splits)

lemma sys_read_smooth:
  assumes "smooth (events s)" "sys_read n s = Some (x, s')" "0 < n" "n \<le> transfers (events s)" "n \<le> length (incoming s)"
  shows "smooth (events s') \<and> (x = Inl EINTR \<and> transfers (events s') = transfers (events s) \<or>
    (\<exists>d. d \<noteq> [] \<and> x = Inr d \<and> transfers (events s) = Suc (transfers (events s'))))"
  using assms by (cases "events s") (auto simp: sys_read_def split: io_event.splits)

lemma sys_smooth_Some:
  "0 < transfers (events s) \<Longrightarrow> sys_read n s \<noteq> None" "0 < transfers (events s) \<Longrightarrow> sys_write b s \<noteq> None"
  by (auto simp: sys_read_def sys_write_def split: list.splits io_event.splits)

section \<open>Sizes on the wire\<close>

text \<open>The bytes of a \<open>size_t\<close> in the memory of a little-endian machine.\<close>

definition size_bytes :: "size_t \<Rightarrow> string" where
  "size_bytes w = map (\<lambda>i. char_of (unat (drop_bit (8 * i) w))) [0..<8]"

definition bytes_size :: "string \<Rightarrow> size_t" where
  "bytes_size bs = of_nat (\<Sum>i < length bs. of_char (bs ! i) * 256 ^ i)"

lemma length_size_bytes [simp]: "length (size_bytes w) = 8"
  by (simp add: size_bytes_def)

lemma size_bytes_not_Nil [simp]: "size_bytes w \<noteq> []"
  by (metis length_size_bytes list.size(3) zero_neq_numeral)

lemma base256_digits: "(\<Sum>i < n. (x div 256 ^ i mod 256) * 256 ^ i) = (x::nat) mod 256 ^ n"
proof (induction n)
  case (Suc n)
  have "x mod 256 ^ Suc n = x mod (256 ^ n * 256)" by (simp add: mult.commute)
  also have "\<dots> = 256 ^ n * (x div 256 ^ n mod 256) + x mod 256 ^ n" by (rule mod_mult2_eq)
  finally show ?case using Suc by (simp add: mult.commute)
qed simp

lemma bytes_size_bytes: "bytes_size (size_bytes w) = w"
proof -
  have digit: "(of_char (size_bytes w ! i) :: nat) = unat w div 256 ^ i mod 256" if "i < 8" for i
  proof -
    have "unat (drop_bit (8 * i) w) = unat w div 256 ^ i"
      by (simp add: unat_drop_bit_eq drop_bit_nat_def power_mult)
    then show ?thesis using that by (simp add: size_bytes_def)
  qed
  have "bytes_size (size_bytes w) = of_nat (\<Sum>i < 8. (unat w div 256 ^ i mod 256) * 256 ^ i)"
    unfolding bytes_size_def by (simp only: length_size_bytes) (rule arg_cong [where f = of_nat], rule sum.cong; simp add: digit)
  also have "\<dots> = of_nat (unat w mod 256 ^ 8)" by (simp only: base256_digits)
  also have "unat w mod 256 ^ 8 = unat w"
  proof (rule mod_less)
    have "unat w < 2 ^ 64" using unsigned_less [of w, where ?'a = nat] by simp
    then show "unat w < 256 ^ 8" by simp
  qed
  finally show ?thesis by simp
qed

lemma digit_of_sum:
  "k < n \<Longrightarrow> (\<And>i. i < n \<Longrightarrow> f i < (256::nat)) \<Longrightarrow> (\<Sum>i < n. f i * 256 ^ i) div 256 ^ k mod 256 = f k"
proof (induction k arbitrary: n f)
  case 0
  then obtain m where n: "n = Suc m" by (cases n) auto
  have "(\<Sum>i < n. f i * 256 ^ i) = f 0 + 256 * (\<Sum>i < m. f (Suc i) * 256 ^ i)"
    unfolding n sum.lessThan_Suc_shift by (simp add: sum_distrib_left mult_ac)
  then show ?case using 0 by simp
next
  case (Suc k)
  then obtain m where n: "n = Suc m" by (cases n) auto
  have "(\<Sum>i < n. f i * 256 ^ i) = f 0 + 256 * (\<Sum>i < m. f (Suc i) * 256 ^ i)"
    unfolding n sum.lessThan_Suc_shift by (simp add: sum_distrib_left mult_ac)
  then have "(\<Sum>i < n. f i * 256 ^ i) div 256 = (\<Sum>i < m. f (Suc i) * 256 ^ i)" using Suc.prems n by simp
  then show ?case using Suc.IH [of m "\<lambda>i. f (Suc i)"] Suc.prems n
    by (simp add: div_mult2_eq [of _ 256])
qed

lemma sum_256_bound: "(\<And>i. i < n \<Longrightarrow> f i < (256::nat)) \<Longrightarrow> (\<Sum>i < n. f i * 256 ^ i) < 256 ^ n"
proof (induction n)
  case (Suc n)
  have "f n * 256 ^ n \<le> 255 * 256 ^ n" using Suc.prems [of n] by (intro mult_right_mono) auto
  moreover have "(\<Sum>i < n. f i * 256 ^ i) < 256 ^ n" using Suc by simp
  ultimately have "(\<Sum>i < n. f i * 256 ^ i) + f n * 256 ^ n < 256 ^ n + 255 * 256 ^ n" by (rule add_less_le_mono [rotated])
  then show ?case by simp
qed simp

lemma of_char_256: "(of_char c :: nat) < 256"
  using of_char_mod_256 [of c, where ?'a = nat] by (metis mod_less_divisor zero_less_numeral)

lemma size_bytes_bytes: "length bs = 8 \<Longrightarrow> size_bytes (bytes_size bs) = bs"
proof (rule nth_equalityI)
  let ?S = "\<Sum>i < 8. of_char (bs ! i) * 256 ^ i :: nat"
  assume len: "length bs = 8"
  then show "length (size_bytes (bytes_size bs)) = length bs" by simp
  have "?S < 2 ^ 64" using sum_256_bound [of 8 "\<lambda>i. of_char (bs ! i)"] of_char_256 by simp
  then have u: "unat (bytes_size bs) = ?S" unfolding bytes_size_def len by (rule unat_of_nat_size_t)
  fix i assume "i < length (size_bytes (bytes_size bs))"
  then have i: "i < 8" by simp
  have "unat (drop_bit (8 * i) (bytes_size bs)) = ?S div 256 ^ i"
    unfolding unat_drop_bit_eq u by (simp add: drop_bit_nat_def power_mult)
  then have "(of_char (size_bytes (bytes_size bs) ! i) :: nat) = ?S div 256 ^ i mod 256"
    using i by (simp add: size_bytes_def)
  also have "\<dots> = of_char (bs ! i)" by (rule digit_of_sum) (simp_all add: i of_char_256)
  finally show "size_bytes (bytes_size bs) ! i = bs ! i" by simp
qed

end
