(* ===== verification/Net_Common.thy ===== *)
theory Net_Common
  imports Socket
begin

text \<open>
  The transfer loops of \<open>nonstop_networking/common.c\<close> that client and server share. On a
  connection where every call moves at least a byte they move everything; \<open>reader\<close> and
  \<open>writer\<close> report exactly how far they got; a failing \<open>write_all\<close> does not report it.
\<close>

section \<open>The model\<close>

datatype verb = GET | PUT | DELETE | LIST | V_UNKNOWN

text \<open>
  Results are \<open>None\<close> while the call has not returned. \<open>read_all\<close> and \<open>reader\<close> give the bytes
  stored in the buffer, \<open>reader\<close> and \<open>writer\<close> the value of \<open>*offset\<close> as their number.
\<close>

function read_loop :: "nat \<Rightarrow> socket \<Rightarrow> string \<Rightarrow> (int \<times> string \<times> socket) option" where
  "read_loop n s got = (if length got < n then
     (case sys_read (n - length got) s of
        None \<Rightarrow> None
      | Some (Inl e, s) \<Rightarrow> if e = EINTR then read_loop n s got else Some (-1, got, s)
      | Some (Inr d, s) \<Rightarrow>
          if d = [] then Some (int (length got), got, s) else read_loop n s (got @ d))
   else Some (int n, got, s))"
  by pat_completeness auto
termination
  by (relation "measure (\<lambda>(n, s, got). length (events s))") (auto dest: sys_read_events)

definition read_all :: "nat \<Rightarrow> socket \<Rightarrow> (int \<times> string \<times> socket) option" where
  "read_all n s = read_loop n s []"

text \<open>
  \<open>offset\<close> is a signed number that an error other than \<open>EINTR\<close> and \<open>EPIPE\<close> lowers by one. As
  a \<open>size_t\<close> the offset -1 is above the length of every buffer.
\<close>

function write_loop :: "string \<Rightarrow> int \<Rightarrow> socket \<Rightarrow> (int \<times> socket) option" where
  "write_loop buffer offset s = (if 0 \<le> offset \<and> offset < int (length buffer) then
     (case sys_write (drop (nat offset) buffer) s of
        None \<Rightarrow> None
      | Some (Inl e, s) \<Rightarrow>
          if e = EINTR then write_loop buffer offset s
          else if e = EPIPE then Some (-1, s)
          else write_loop buffer (offset - 1) s
      | Some (Inr n, s) \<Rightarrow> if n = 0 then Some (offset, s) else write_loop buffer (offset + int n) s)
   else Some (int (length buffer), s))"
  by pat_completeness auto
termination
  by (relation "measures [\<lambda>(b, offset, s). length (events s), \<lambda>(b, offset, s). nat (offset + 1)]")
    (auto dest: sys_write_events sys_events_le(2) simp: le_less)

definition write_all :: "string \<Rightarrow> socket \<Rightarrow> (int \<times> socket) option" where
  "write_all buffer s = write_loop buffer 0 s"

function reader :: "nat \<Rightarrow> socket \<Rightarrow> (int \<times> string \<times> socket) option" where
  "reader n s = (if 0 < n then
     (case sys_read n s of
        None \<Rightarrow> None
      | Some (Inl e, s) \<Rightarrow>
          if e = EAGAIN then Some (1, [], s)
          else if e = EINTR then reader n s
          else Some (-1, [], s)
      | Some (Inr d, s) \<Rightarrow>
          if d = [] then Some (0, [], s)
          else map_option (\<lambda>(r, d', s). (r, d @ d', s)) (reader (n - length d) s))
   else Some (0, [], s))"
  by pat_completeness auto
termination
  by (relation "measure (\<lambda>(n, s). length (events s))") (auto dest: sys_read_events)

function writer :: "string \<Rightarrow> socket \<Rightarrow> (int \<times> nat \<times> socket) option" where
  "writer buf s = (if 0 < length buf then
     (case sys_write buf s of
        None \<Rightarrow> None
      | Some (Inl e, s) \<Rightarrow>
          if e = EAGAIN then Some (1, 0, s)
          else if e = EINTR then writer buf s
          else Some (-1, 0, s)
      | Some (Inr n, s) \<Rightarrow>
          if n = 0 then Some (0, 0, s)
          else map_option (\<lambda>(r, offset, s). (r, n + offset, s)) (writer (drop n buf) s))
   else Some (0, 0, s))"
  by pat_completeness auto
termination
  by (relation "measure (\<lambda>(buf, s). length (events s))") (auto dest: sys_write_events)

declare read_loop.simps [simp del] write_loop.simps [simp del] reader.simps [simp del] writer.simps [simp del]

text \<open>After a short read the rest of \<open>size\<close> was never written.\<close>

definition read_message_size :: "socket \<Rightarrow> (int res \<times> socket) option" where
  "read_message_size s = (case read_all 8 s of
      None \<Rightarrow> None
    | Some (read_bytes, got, s) \<Rightarrow> Some
       (if read_bytes = 0 \<or> read_bytes = -1 then OK read_bytes
        else if length got < 8 then Fault Uninit_Read
        else OK (sint (bytes_size got)), s))"

definition write_message_size :: "size_t \<Rightarrow> socket \<Rightarrow> (int \<times> socket) option" where
  "write_message_size w s = write_all (size_bytes w) s"

section \<open>Lemmas\<close>

text \<open>Whatever happens, what was read is what is missing from the incoming bytes.\<close>

lemma reader_moves:
  "reader n s = Some (r, d, s') \<Longrightarrow>
     incoming s = d @ incoming s' \<and> length d \<le> n \<and> r \<in> {-1, 0, 1} \<and> sent s' = sent s \<and>
     blocking s' = blocking s \<and> length (events s') \<le> length (events s)"
proof (induction n s arbitrary: r d rule: reader.induct)
  case (1 n s)
  show ?case
  proof (cases "0 < n")
    case False
    with 1(3) show ?thesis by (simp add: reader.simps)
  next
    case True
    obtain x s1 where x: "sys_read n s = Some (x, s1)"
      using 1(3) True by (cases "sys_read n s") (auto simp: reader.simps [of n s])
    show ?thesis
    proof (cases x)
      case (Inl e)
      have le: "length (events s1) \<le> length (events s)"
        using sys_events_le(1) [OF x] .
      show ?thesis using 1(1) [OF True x refl Inl] 1(3) True x Inl sys_read_err [of n s e s1] le
        by (cases e) (auto simp: reader.simps [of n s])
    next
      case (Inr d1)
      have ev: "length (events s1) \<le> length (events s)" using sys_read_events [OF x] Inr by simp
      show ?thesis using 1(2) [OF True x refl Inr] 1(3) True x Inr sys_read_data [of n s d1 s1] ev
        by (fastforce simp: reader.simps [of n s] split: if_splits)
    qed
  qed
qed

lemma writer_moves:
  "writer buf s = Some (r, k, s') \<Longrightarrow>
     sent s' = sent s @ take k buf \<and> k \<le> length buf \<and> r \<in> {-1, 0, 1} \<and> incoming s' = incoming s \<and>
     blocking s' = blocking s \<and> length (events s') \<le> length (events s)"
proof (induction buf s arbitrary: r k rule: writer.induct)
  case (1 buf s)
  show ?case
  proof (cases "0 < length buf")
    case False
    with 1(3) show ?thesis by (simp add: writer.simps)
  next
    case True
    obtain x s1 where x: "sys_write buf s = Some (x, s1)"
      using 1(3) True by (cases "sys_write buf s") (auto simp: writer.simps [of buf s])
    show ?thesis
    proof (cases x)
      case (Inl e)
      have le: "length (events s1) \<le> length (events s)"
        using sys_events_le(2) [OF x] .
      show ?thesis using 1(1) [OF True x refl Inl] 1(3) True x Inl sys_write_err [of buf s e s1] le
        by (cases e) (auto simp: writer.simps [of buf s])
    next
      case (Inr n)
      have ev: "length (events s1) \<le> length (events s)" using sys_write_events [OF x] Inr by simp
      show ?thesis
        using 1(2) [OF True x refl Inr] 1(3) True x Inr sys_write_data [of buf s n s1] ev
        by (fastforce simp: writer.simps [of buf s] take_add split: if_splits)
    qed
  qed
qed


text \<open>On a smooth connection with enough calls to come the loops move everything.\<close>

lemma write_loop_smooth:
  assumes "smooth (events s)" "length b \<le> transfers (events s)"
  shows "\<exists>s'. write_loop (done @ b) (int (length done)) s = Some (int (length (done @ b)), s') \<and>
    sent s' = sent s @ b \<and> smooth (events s') \<and> incoming s' = incoming s \<and>
    transfers (events s) \<le> transfers (events s') + length b"
  using assms
proof (induction "length (events s)" arbitrary: s b "done" rule: less_induct)
  case less
  show ?case
  proof (cases "b = []")
    case True
    then show ?thesis using less.prems by (subst write_loop.simps) simp
  next
    case False
    then have "0 < transfers (events s)" using less.prems(2) by (cases b) auto
    then obtain x s1 where x: "sys_write b s = Some (x, s1)"
      using sys_smooth_Some(2) [of s b] by (cases "sys_write b s") auto
    from sys_write_smooth [OF less.prems(1) x False less.prems(2)] show ?thesis
    proof (elim conjE disjE exE)
      assume sm: "smooth (events s1)" "x = Inl EINTR" "transfers (events s1) = transfers (events s)"
      have "length (events s1) < length (events s)" using sys_write_events [OF x] sm(2) by simp
      from less.hyps [OF this sm(1), of b "done"] show ?thesis
        using less.prems sm False x sys_write_err [of b s EINTR s1] by (subst write_loop.simps) auto
    next
      fix k assume sm: "smooth (events s1)" "0 < k" "x = Inr k" "transfers (events s) = Suc (transfers (events s1))"
      have k: "sent s1 = sent s @ take k b" "k \<le> length b" "incoming s1 = incoming s"
        using sys_write_data [of b s k s1] x sm(3) by auto
      have len: "length (events s1) < length (events s)" using sys_write_events [OF x] sm(3) by simp
      have "length (drop k b) \<le> transfers (events s1)" using less.prems(2) sm(2,4) by simp
      from less.hyps [OF len sm(1) this, of "done @ take k b"] show ?thesis
        using less.prems sm False x k by (subst write_loop.simps) auto
    qed
  qed
qed

lemma read_loop_smooth:
  assumes "smooth (events s)" "n \<le> transfers (events s)" "n \<le> length (incoming s)"
  shows "\<exists>s'. read_loop (length got + n) s got = Some (int (length got + n), got @ take n (incoming s), s') \<and>
    incoming s' = drop n (incoming s) \<and> smooth (events s') \<and> sent s' = sent s \<and>
    transfers (events s) \<le> transfers (events s') + n"
  using assms
proof (induction "length (events s)" arbitrary: s n got rule: less_induct)
  case less
  show ?case
  proof (cases "n = 0")
    case True
    then show ?thesis using less.prems by (subst read_loop.simps) simp
  next
    case False
    then obtain x s1 where x: "sys_read n s = Some (x, s1)"
      using less.prems sys_smooth_Some(1) [of s n] by (cases "sys_read n s") auto
    have n: "0 < n" using False by simp
    from sys_read_smooth [OF less.prems(1) x n less.prems(2,3)] show ?thesis
    proof (elim conjE disjE exE)
      assume sm: "smooth (events s1)" "x = Inl EINTR" "transfers (events s1) = transfers (events s)"
      have "length (events s1) < length (events s)" using sys_read_events [OF x] sm(2) by simp
      from less.hyps [OF this sm(1), of n got] show ?thesis
        using less.prems sm False x sys_read_err [of n s EINTR s1] by (subst read_loop.simps) auto
    next
      fix d assume sm: "smooth (events s1)" "d \<noteq> []" "x = Inr d" "transfers (events s) = Suc (transfers (events s1))"
      have d: "incoming s = d @ incoming s1" "length d \<le> n" "sent s1 = sent s"
        using sys_read_data [of n s d s1] x sm(3) by auto
      have len: "length (events s1) < length (events s)" using sys_read_events [OF x] sm(3) by simp
      have d0: "0 < length d" using sm(2) by simp
      have "n - length d \<le> transfers (events s1)" using less.prems(2) sm(2,4) by (cases d) auto
      moreover have "n - length d \<le> length (incoming s1)" using less.prems(3) d(1) by simp
      ultimately obtain s' where s': "read_loop (length got + n) s1 (got @ d) = Some (int (length got + n),
          got @ d @ take (n - length d) (incoming s1), s')" "incoming s' = drop (n - length d) (incoming s1)"
        "smooth (events s')" "sent s' = sent s1" "transfers (events s1) \<le> transfers (events s') + (n - length d)"
        using less.hyps [OF len sm(1), of "n - length d" "got @ d"] d(2) by auto
      have "transfers (events s) \<le> transfers (events s') + n" using s'(5) sm(4) d0 d(2) by linarith
      moreover have "read_loop (length got + n) s got = read_loop (length got + n) s1 (got @ d)"
        using n x sm(2,3) by (subst read_loop.simps) simp
      ultimately show ?thesis using s' d by auto
    qed
  qed
qed

lemma writer_smooth:
  assumes "smooth (events s)" "length b \<le> transfers (events s)"
  shows "\<exists>s'. writer b s = Some (0, length b, s') \<and> sent s' = sent s @ b \<and> smooth (events s') \<and>
    incoming s' = incoming s \<and> transfers (events s) \<le> transfers (events s') + length b"
  using assms
proof (induction "length (events s)" arbitrary: s b rule: less_induct)
  case less
  show ?case
  proof (cases "b = []")
    case True
    then show ?thesis using less.prems by (subst writer.simps) simp
  next
    case False
    then have "0 < transfers (events s)" using less.prems(2) by (cases b) auto
    then obtain x s1 where x: "sys_write b s = Some (x, s1)"
      using sys_smooth_Some(2) [of s b] by (cases "sys_write b s") auto
    from sys_write_smooth [OF less.prems(1) x False less.prems(2)] show ?thesis
    proof (elim conjE disjE exE)
      assume sm: "smooth (events s1)" "x = Inl EINTR" "transfers (events s1) = transfers (events s)"
      have "length (events s1) < length (events s)" using sys_write_events [OF x] sm(2) by simp
      from less.hyps [OF this sm(1), of b] show ?thesis
        using less.prems sm False x sys_write_err [of b s EINTR s1] by (subst writer.simps) auto
    next
      fix k assume sm: "smooth (events s1)" "0 < k" "x = Inr k" "transfers (events s) = Suc (transfers (events s1))"
      have k: "sent s1 = sent s @ take k b" "k \<le> length b" "incoming s1 = incoming s"
        using sys_write_data [of b s k s1] x sm(3) by auto
      have len: "length (events s1) < length (events s)" using sys_write_events [OF x] sm(3) by simp
      have "length (drop k b) \<le> transfers (events s1)" using less.prems(2) sm(2,4) by simp
      from less.hyps [OF len sm(1) this] show ?thesis
        using less.prems sm False x k by (subst writer.simps) auto
    qed
  qed
qed

section \<open>Properties\<close>

text \<open>
  When every call moves at least one byte or is interrupted, \<open>write_message_size\<close> sends
  eight bytes that \<open>read_message_size\<close> at the other end reads back as the same number.
\<close>

theorem message_size_roundtrip:
  assumes "smooth (events s)" "8 \<le> transfers (events s)" "smooth (events t)" "8 \<le> transfers (events t)"
  shows "\<exists>s' bytes. write_message_size w s = Some (8, s') \<and> sent s' = sent s @ bytes \<and>
    (\<exists>t'. read_message_size (t\<lparr>incoming := bytes @ rest\<rparr>) = Some (OK (sint w), t') \<and> incoming t' = rest)"
proof -
  obtain s' where s': "write_loop (size_bytes w) 0 s = Some (8, s')" "sent s' = sent s @ size_bytes w"
    using write_loop_smooth [OF assms(1), of "size_bytes w" "[]"] assms(2) by auto
  let ?t = "t\<lparr>incoming := size_bytes w @ rest\<rparr>"
  obtain t' where t': "read_loop 8 ?t [] = Some (8, size_bytes w, t')" "incoming t' = rest"
    using read_loop_smooth [of ?t 8 "[]"] assms(3,4) by auto
  have "read_message_size ?t = Some (OK (sint w), t')"
    using t' by (simp add: read_message_size_def read_all_def bytes_size_bytes)
  then show ?thesis using s' t'(2) unfolding write_message_size_def write_all_def by blast
qed

theorem message_size_roundtrip_witness:
  "\<exists>s' bytes. write_message_size 1234 \<lparr>blocking = True, events = replicate 8 (Xfer 3), incoming = [], sent = []\<rparr> =
      Some (8, s') \<and> sent s' = [] @ bytes"
proof -
  let ?s = "\<lparr>blocking = True, events = replicate 8 (Xfer 3), incoming = [], sent = []\<rparr>"
  have "smooth (events ?s)" "8 \<le> transfers (events ?s)" by (simp_all add: eval_nat_numeral)
  from message_size_roundtrip [OF this this, of 1234 "[]"] show ?thesis by (metis select_convs(4))
qed

text \<open>
  \<open>write_all\<close> hides failures: when the connection is reset before the first byte it reports
  that everything was written, and when an error comes after some bytes one of them is sent again.
\<close>

theorem write_all_hides_errors:
  "write_all ''abc'' \<lparr>blocking = True, events = [Err EOTHER], incoming = [], sent = []\<rparr> =
     Some (3, \<lparr>blocking = True, events = [], incoming = [], sent = []\<rparr>) \<and>
   write_all ''abc'' \<lparr>blocking = True, events = [Xfer 2, Err EOTHER, Xfer 3], incoming = [], sent = []\<rparr> =
     Some (3, \<lparr>blocking = True, events = [], incoming = [], sent = ''abbc''\<rparr>)"
  by (simp add: write_all_def write_loop.simps sys_write_def)

end
