(* ===== verification/Net_Server.thy ===== *)
theory Net_Server
  imports Net_Common
begin

text \<open>
  The file server of \<open>nonstop_networking/server.c\<close>: one record per connection that keeps how far
  the request has come, and handlers that run until the connection would block and are entered
  again at the next event. A PUT stores the same file however its bytes are cut and delayed;
  GET, LIST and DELETE answer completely when nothing blocks, and go wrong when it does.
\<close>

section \<open>The model\<close>

datatype state_t = READ_HEADER | READ_SIZE | READ_DATA | WRITE_RESPONSE | WRITE_SIZE | WRITE_DATA
  | SERVING | DONE | ERROR

datatype errmsg = err_bad_request | err_bad_file_size | err_no_such_file

type_synonym address = nat
type_synonym inode = nat

text \<open>
  \<open>filename\<close> points into the heap of names and may dangle. \<open>filefd\<close> is an open file and the
  position in it. \<open>conn\<close> is the connection behind \<open>fd\<close>, which \<open>close\<close> marks as closed.
\<close>

record job =
  conn :: socket
  closed :: bool
  request :: verb
  filename :: "address option"
  filefd :: "(inode \<times> nat) option"
  state :: state_t
  buf :: "char list"
  writesz :: nat
  readsz :: nat
  datasz :: nat
  filesize :: size_t
  errmsg :: "errmsg option"

text \<open>
  The names on the heap, the list of them that \<open>file_list\<close> holds, the directory the server
  works in and the contents of its files.
\<close>

record server =
  names :: "address \<rightharpoonup> string"
  next_name :: address
  file_list :: "address list"
  dir :: "string \<rightharpoonup> inode"
  contents :: "inode \<Rightarrow> string"
  next_inode :: inode

text \<open>
  The texts of the error messages and which names a file can be created under belong to the
  environment. Handlers return a status, the job and the server.
\<close>

record env =
  err_text :: "errmsg \<Rightarrow> string"
  can_create :: "string \<Rightarrow> bool"

type_synonym outcome = "(int \<times> job \<times> server) res"

definition nonblock :: "'a option \<Rightarrow> 'a res" where
  "nonblock r = (case r of None \<Rightarrow> Fault Nonterminating | Some x \<Rightarrow> OK x)"

definition zero_buf :: "char list" where "zero_buf = replicate 1024 NUL"

subsection \<open>Strings on the heap\<close>

definition str_at :: "server \<Rightarrow> address option \<Rightarrow> string res" where
  "str_at st p = (case p of None \<Rightarrow> Fault Null_Deref
    | Some a \<Rightarrow> (case names st a of None \<Rightarrow> Fault Use_After_Free | Some s \<Rightarrow> OK s))"

definition free_str :: "address option \<Rightarrow> server \<Rightarrow> server res" where
  "free_str p st = (case p of None \<Rightarrow> OK st
    | Some a \<Rightarrow> if names st a = None then Fault Use_After_Free else OK (st\<lparr>names := (names st)(a := None)\<rparr>))"

definition strdup_name :: "string \<Rightarrow> server \<Rightarrow> address \<times> server" where
  "strdup_name s st = (next_name st,
     st\<lparr>names := (names st)(next_name st \<mapsto> s), next_name := next_name st + 1\<rparr>)"

subsection \<open>Files\<close>

text \<open>\<open>open\<close> with \<open>O_CREAT\<close>: an existing file, or a new empty one.\<close>

definition open_create :: "env \<Rightarrow> string \<Rightarrow> server \<Rightarrow> (inode \<times> server) option" where
  "open_create env name st = (case dir st name of
      Some i \<Rightarrow> Some (i, st)
    | None \<Rightarrow> if can_create env name then Some (next_inode st,
          st\<lparr>dir := (dir st)(name \<mapsto> next_inode st), contents := (contents st)(next_inode st := []),
             next_inode := next_inode st + 1\<rparr>)
        else None)"

definition write_file :: "inode \<Rightarrow> string \<Rightarrow> server \<Rightarrow> server" where
  "write_file i s st = st\<lparr>contents := (contents st)(i := s)\<rparr>"

definition remove_file :: "string \<Rightarrow> server \<Rightarrow> server" where
  "remove_file name st = st\<lparr>dir := (dir st)(name := None)\<rparr>"

subsection \<open>Helper functions\<close>

definition write_err :: "env \<Rightarrow> job \<Rightarrow> server \<Rightarrow> outcome" where
  "write_err env j st =
     bindE (free_str (filename j) st) (\<lambda>st.
     case errmsg j of None \<Rightarrow> Fault Null_Deref
     | Some e \<Rightarrow>
         bindE (nonblock (writer (drop (writesz j) (''ERROR'' @ [NL] @ err_text env e)) (conn j)))
           (\<lambda>(ret, offset, s).
         let j = j\<lparr>conn := s, writesz := writesz j + offset\<rparr> in
         if ret = 1 then OK (1, j, st)
         else if ret = -1 then OK (-1, j, st)
         else OK (0, j\<lparr>writesz := 0, closed := True, state := DONE\<rparr>, st)))"

definition write_response :: "job \<Rightarrow> (int \<times> job) res" where
  "write_response j =
     bindE (nonblock (writer (drop (writesz j) (''OK'' @ [NL])) (conn j))) (\<lambda>(ret, offset, s).
     let j = j\<lparr>conn := s, writesz := writesz j + offset\<rparr> in
     if ret = 1 then OK (1, j)
     else if ret = -1 then OK (-1, j)
     else let j = j\<lparr>writesz := 0\<rparr> in
       if request j = LIST \<or> request j = GET then OK (0, j\<lparr>state := WRITE_SIZE\<rparr>)
       else OK (0, j\<lparr>closed := True, state := DONE\<rparr>))"

definition write_size :: "job \<Rightarrow> (int \<times> job) res" where
  "write_size j =
     bindE (nonblock (writer (drop (writesz j) (size_bytes (filesize j))) (conn j))) (\<lambda>(ret, offset, s).
     let j = j\<lparr>conn := s, writesz := writesz j + offset\<rparr> in
     if ret = 1 then OK (1, j)
     else if ret = -1 then OK (-1, j)
     else OK (0, j\<lparr>writesz := 0, state := if filesize j = 0 then DONE else WRITE_DATA\<rparr>))"

definition openfile :: "job \<Rightarrow> server \<Rightarrow> ((inode \<times> nat) option \<times> job) res" where
  "openfile j st = (case filename j of
      None \<Rightarrow> OK (None, j\<lparr>state := ERROR, errmsg := Some err_no_such_file\<rparr>)
    | Some a \<Rightarrow> bindE (str_at st (Some a)) (\<lambda>name.
        case dir st name of
          None \<Rightarrow> OK (None, j\<lparr>state := ERROR, errmsg := Some err_no_such_file\<rparr>)
        | Some i \<Rightarrow> OK (Some (i, 0), j)))"

subsection \<open>Header\<close>

definition parse_header :: "string \<Rightarrow> verb \<Rightarrow> string option \<times> verb" where
  "parse_header header req = (if CHR '' '' \<notin> set header then
       (None, if header \<noteq> ''LIST'' then V_UNKNOWN else LIST)
     else let vb = takeWhile (\<lambda>c. c \<noteq> CHR '' '') header;
              file = drop (length vb + 1) header
       in (Some file, if vb = ''PUT'' then PUT else if vb = ''GET'' then GET
                      else if vb = ''DELETE'' then DELETE else req))"

text \<open>
  \<open>get_header\<close> is called with the buffer from \<open>readsz\<close> on and a pointer to \<open>readsz\<close>, so the
  character with index \<open>i\<close> goes to the position that \<open>*size\<close> had before. \<open>a\<close> is the
  character read last in this call.
\<close>

function get_header :: "char list \<Rightarrow> nat \<Rightarrow> char option \<Rightarrow> socket \<Rightarrow> (int \<times> char list \<times> nat \<times> socket) res" where
  "get_header header sz a s = (case reader 1 s of
      None \<Rightarrow> Fault Nonterminating
    | Some (ret, d, s) \<Rightarrow>
        if ret = 1 then OK (1, header, sz, s)
        else if ret = -1 then OK (-1, header, sz, s)
        else (case (if d = [] then a else Some (hd d)) of
            None \<Rightarrow> Fault Uninit_Read
          | Some c \<Rightarrow>
              if 262 < sz + 1 then OK (-2, header[sz := c], sz + 1, s)
              else if c \<noteq> NL then get_header (header[sz := c]) (sz + 1) (Some c) s
              else OK (0, header[sz := NUL], sz + 1, s)))"
  by pat_completeness auto
termination by (relation "measure (\<lambda>(header, sz, a, s). 262 - sz)") auto

declare get_header.simps [simp del]

definition read_header :: "job \<Rightarrow> server \<Rightarrow> outcome" where
  "read_header j st = (if state j = ERROR then OK (0, j, st)
     else bindE (get_header (buf j) (readsz j) None (conn j)) (\<lambda>(result, b, n, s).
       let j = j\<lparr>conn := s, buf := b, readsz := n\<rparr> in
       if result = -1 \<or> result = -2 then
         OK (0, j\<lparr>state := ERROR, errmsg := Some err_bad_request\<rparr>, st)
       else if result = 1 then OK (1, j, st)
       else let (ret, req) = parse_header (cstr (buf j)) (request j); j = j\<lparr>request := req\<rparr> in
         if req = V_UNKNOWN then OK (-1, j\<lparr>state := ERROR, errmsg := Some err_bad_request\<rparr>, st)
         else if req \<noteq> LIST then (case ret of
             None \<Rightarrow> Fault Null_Deref
           | Some file \<Rightarrow>
               if 255 < length file then
                 OK (0, j\<lparr>request := V_UNKNOWN, state := ERROR, errmsg := Some err_bad_request\<rparr>, st)
               else let (a, st) = strdup_name file st in
                 OK (0, j\<lparr>filename := Some a, state := if req = PUT then READ_SIZE else SERVING,
                          buf := zero_buf, readsz := 0\<rparr>, st))
         else OK (0, j\<lparr>state := SERVING, buf := zero_buf, readsz := 0\<rparr>, st)))"

subsection \<open>PUT\<close>

text \<open>One call of \<open>reader\<close> into the buffer from \<open>readsz\<close> on.\<close>

definition fill_buf :: "job \<Rightarrow> (int \<times> job) res" where
  "fill_buf j = bindE (nonblock (reader (1024 - readsz j) (conn j))) (\<lambda>(result, d, s).
     OK (result, j\<lparr>conn := s, buf := overwrite (buf j) (readsz j) d, readsz := readsz j + length d\<rparr>))"

definition put_size :: "job \<Rightarrow> (int \<times> job) res" where
  "put_size j = bindE (nonblock (reader (8 - readsz j) (conn j))) (\<lambda>(ret, d, s).
     let j = j\<lparr>conn := s, filesize := bytes_size (overwrite (size_bytes (filesize j)) (readsz j) d),
               readsz := readsz j + length d\<rparr> in
     if ret = 1 then OK (1, j)
     else if ret = -1 then OK (-1, j)
     else OK (0, j\<lparr>state := SERVING, buf := zero_buf, readsz := 0\<rparr>))"

definition bad_size :: "string \<Rightarrow> job \<Rightarrow> server \<Rightarrow> outcome" where
  "bad_size name j st =
     OK (0, j\<lparr>state := ERROR, errmsg := Some err_bad_file_size\<rparr>, remove_file name st)"

text \<open>
  Status 2 stands for going on behind the statement: it is no value of a \<open>return\<close>.
\<close>

definition put_first :: "env \<Rightarrow> job \<Rightarrow> server \<Rightarrow> outcome" where
  "put_first env j st =
     bindE (fill_buf j) (\<lambda>(result, j).
     if result = 1 then OK (1, j, st)
     else if result = -1 then OK (-1, j, st)
     else bindE (str_at st (filename j)) (\<lambda>name.
       case open_create env name st of
         None \<Rightarrow> Fault (Exit 1)
       | Some (i, st) \<Rightarrow>
           let j = j\<lparr>datasz := datasz j + readsz j\<rparr>;
               st = write_file i (take (readsz j) (buf j)) st in
           if unat (filesize j) < datasz j then bad_size name j st
           else if datasz j < unat (filesize j) \<and> readsz j < 1024 then bad_size name j st
           else OK (2, j\<lparr>state := if datasz j = unat (filesize j) then DONE else READ_DATA,
                         readsz := 0, buf := zero_buf\<rparr>, st)))"

text \<open>In the later rounds a failing \<open>open\<close> goes unnoticed, and nothing is written.\<close>

definition append_file :: "env \<Rightarrow> string \<Rightarrow> string \<Rightarrow> server \<Rightarrow> server" where
  "append_file env name s st = (case open_create env name st of
      None \<Rightarrow> st
    | Some (i, st) \<Rightarrow> write_file i (contents st i @ s) st)"

partial_function (option) put_rest :: "env \<Rightarrow> job \<Rightarrow> server \<Rightarrow> outcome option" where
  "put_rest env j st = (if state j \<noteq> READ_DATA then Some (OK (2, j, st))
     else case bindE (fill_buf j) (\<lambda>(result, j).
         if result \<noteq> 0 then OK (result, j, [])
         else bindE (str_at st (filename j)) (\<lambda>name. OK (0, j, name))) of
       Inl e \<Rightarrow> Some (Fault e)
     | Inr (result, j, name) \<Rightarrow>
         if result \<noteq> 0 then Some (OK (result, j, st))
         else let j = j\<lparr>datasz := datasz j + readsz j\<rparr>;
                  st = append_file env name (take (readsz j) (buf j)) st in
           if unat (filesize j) < datasz j then Some (bad_size name j st)
           else if datasz j = unat (filesize j) then
             put_rest env (j\<lparr>state := DONE, readsz := 0, buf := zero_buf\<rparr>) st
           else if readsz j < 1024 then Some (bad_size name j st)
           else put_rest env (j\<lparr>readsz := 0, buf := zero_buf\<rparr>) st)"

text \<open>The search for the name in the list, comparing strings.\<close>

primrec listed :: "server \<Rightarrow> address option \<Rightarrow> address list \<Rightarrow> bool res" where
  "listed st p [] = OK False"
| "listed st p (a # as) = bindE (str_at st (Some a)) (\<lambda>s. bindE (str_at st p) (\<lambda>name.
     bindE (listed st p as) (\<lambda>found. OK (s = name \<or> found))))"

definition put_done :: "job \<Rightarrow> server \<Rightarrow> outcome" where
  "put_done j st =
     bindE (listed st (filename j) (file_list st)) (\<lambda>found.
     bindE (if found then OK st
            else case filename j of None \<Rightarrow> Fault Null_Deref
              | Some a \<Rightarrow> OK (st\<lparr>file_list := file_list st @ [a]\<rparr>)) (\<lambda>st.
     bindE (write_response (j\<lparr>state := WRITE_RESPONSE\<rparr>)) (\<lambda>(_, j). OK (0, j, st))))"

definition put :: "env \<Rightarrow> job \<Rightarrow> server \<Rightarrow> outcome" where
  "put env j st = (if state j = ERROR then OK (0, j, st)
     else bindE (if state j = READ_SIZE then put_size j else OK (0, j)) (\<lambda>(ret, j).
       if ret \<noteq> 0 then OK (ret, j, st)
       else bindE (if state j = SERVING then put_first env j st else OK (2, j, st)) (\<lambda>(ret, j, st).
         if ret \<noteq> 2 then OK (ret, j, st)
         else bindE (returns (put_rest env j st)) (\<lambda>(ret, j, st).
           if ret \<noteq> 2 then OK (ret, j, st) else put_done j st))))"


subsection \<open>LIST\<close>

text \<open>\<open>flist\<close>: the names separated by newlines, or one byte that was never written.\<close>

primrec name_list :: "server \<Rightarrow> address list \<Rightarrow> string list res" where
  "name_list st [] = OK []"
| "name_list st (a # as) = bindE (str_at st (Some a)) (\<lambda>s. bindE (name_list st as) (\<lambda>ss. OK (s # ss)))"

primrec join_lines :: "string list \<Rightarrow> string" where
  "join_lines [] = []"
| "join_lines (s # ss) = (if ss = [] then s else s @ [NL] @ join_lines ss)"

definition list_serving :: "job \<Rightarrow> server \<Rightarrow> (string option \<times> job) res" where
  "list_serving j st = (if file_list st = [] then OK (None, j\<lparr>state := WRITE_RESPONSE, filesize := 0\<rparr>)
     else bindE (name_list st (file_list st)) (\<lambda>ns.
       OK (Some (join_lines ns), j\<lparr>state := WRITE_RESPONSE,
            filesize := of_nat ((\<Sum>s \<leftarrow> ns. length s + 1) - 1)\<rparr>)))"

text \<open>The response and the size, which LIST and GET send in the same way.\<close>

definition respond :: "job \<Rightarrow> (int \<times> job) res" where
  "respond j =
     bindE (if state j = WRITE_RESPONSE then write_response j else OK (0, j)) (\<lambda>(ret, j).
     if ret = 1 \<or> ret = -1 then OK (ret, j)
     else if state j = WRITE_SIZE then write_size j else OK (0, j))"

partial_function (option) list_data :: "string option \<Rightarrow> job \<Rightarrow> (int \<times> job) res option" where
  "list_data flist j = (if state j \<noteq> WRITE_DATA then Some (OK (0, j))
     else case flist of None \<Rightarrow> Some (Fault Uninit_Read)
     | Some fl \<Rightarrow>
       (case writer (take (unat (filesize j) - writesz j) (drop (writesz j) fl)) (conn j) of
          None \<Rightarrow> None
        | Some (result, offset, s) \<Rightarrow>
            let j = j\<lparr>conn := s, writesz := writesz j + offset\<rparr> in
            if result = 1 \<or> result = -1 then Some (OK (result, j))
            else let j = j\<lparr>datasz := datasz j + writesz j, writesz := 0, buf := zero_buf\<rparr> in
              list_data flist (if unat (filesize j) \<le> datasz j then j\<lparr>state := DONE\<rparr> else j)))"

definition list_files :: "job \<Rightarrow> server \<Rightarrow> outcome" where
  "list_files j st = (if state j = ERROR then OK (0, j, st)
     else bindE (if state j = SERVING then list_serving j st else OK (None, j)) (\<lambda>(flist, j).
       bindE (respond j) (\<lambda>(ret, j). if ret = 1 \<or> ret = -1 then OK (ret, j, st)
       else bindE (returns (list_data flist j)) (\<lambda>(ret, j). if ret = 1 \<or> ret = -1 then OK (ret, j, st)
       else OK (0, j\<lparr>closed := True\<rparr>, st)))))"

subsection \<open>DELETE\<close>

text \<open>
  The loop over \<open>file_list\<close> with its index: an entry with the name is freed together with the
  name of the job, and erased, so the entry behind it is not looked at.
\<close>

function erase_name :: "nat \<Rightarrow> address option \<Rightarrow> server \<Rightarrow> server res" where
  "erase_name i p st = (if i < length (file_list st) then
     bindE (str_at st (Some (file_list st ! i))) (\<lambda>s. bindE (str_at st p) (\<lambda>name.
       if s = name then
         (case free_str p st of Inl e \<Rightarrow> Fault e
          | Inr st1 \<Rightarrow> (case free_str (Some (file_list st ! i)) st1 of Inl e \<Rightarrow> Fault e
            | Inr st2 \<Rightarrow> erase_name (i + 1) p
                (st2\<lparr>file_list := take i (file_list st) @ drop (i + 1) (file_list st)\<rparr>)))
       else erase_name (i + 1) p st))
   else OK st)"
  by pat_completeness auto
termination by (relation "measure (\<lambda>(i, p, st). length (file_list st) - i)") auto

declare erase_name.simps [simp del]

definition handle_delete :: "job \<Rightarrow> server \<Rightarrow> outcome" where
  "handle_delete j st = (if state j = ERROR then OK (0, j, st)
     else bindE (openfile j st) (\<lambda>(fd, j). if fd = None then OK (0, j, st)
       else bindE (str_at st (filename j)) (\<lambda>name.
         bindE (erase_name 0 (filename j) (remove_file name st)) (\<lambda>st.
         bindE (write_response (j\<lparr>state := WRITE_RESPONSE\<rparr>)) (\<lambda>(ret, j).
           if ret = 1 \<or> ret = -1 then OK (ret, j, st) else OK (0, j, st))))))"

subsection \<open>GET\<close>

definition get_serving :: "job \<Rightarrow> server \<Rightarrow> (bool \<times> job) res" where
  "get_serving j st = bindE (openfile j st) (\<lambda>(fd, j). case fd of
       None \<Rightarrow> OK (False, j)
     | Some (i, pos) \<Rightarrow> OK (True, j\<lparr>filefd := Some (i, pos),
         filesize := of_nat (length (contents st i)), state := WRITE_RESPONSE\<rparr>))"

text \<open>\<open>read_all(j->filefd, j->buf, 1024)\<close> on a regular file.\<close>

definition next_block :: "job \<Rightarrow> server \<Rightarrow> job res" where
  "next_block j st = (case filefd j of None \<Rightarrow> Fault (Exit 1)
    | Some (i, pos) \<Rightarrow> let d = take 1024 (drop pos (contents st i)) in
        OK (j\<lparr>filefd := Some (i, pos + length d), buf := overwrite (buf j) 0 d, readsz := length d\<rparr>))"

partial_function (option) get_data :: "job \<Rightarrow> server \<Rightarrow> (int \<times> job) res option" where
  "get_data j st = (if state j \<noteq> WRITE_DATA then Some (OK (0, j))
     else case (if writesz j = 0 then next_block j st else OK j) of
       Inl e \<Rightarrow> Some (Fault e)
     | Inr j \<Rightarrow>
       (case writer (take (readsz j - writesz j) (drop (writesz j) (buf j))) (conn j) of
          None \<Rightarrow> None
        | Some (result, offset, s) \<Rightarrow>
            let j = j\<lparr>conn := s, writesz := writesz j + offset\<rparr> in
            if result = 1 \<or> result = -1 then Some (OK (result, j))
            else let j = j\<lparr>datasz := datasz j + writesz j, writesz := 0, buf := zero_buf\<rparr> in
              get_data (if unat (filesize j) \<le> datasz j then j\<lparr>state := DONE\<rparr> else j) st))"

definition handle_get :: "job \<Rightarrow> server \<Rightarrow> outcome" where
  "handle_get j st = (if state j = ERROR then OK (0, j, st)
     else bindE (if state j = SERVING then get_serving j st else OK (True, j)) (\<lambda>(opened, j).
       if \<not> opened then OK (0, j, st)
       else bindE (respond j) (\<lambda>(ret, j). if ret = 1 \<or> ret = -1 then OK (ret, j, st)
       else bindE (returns (get_data j st)) (\<lambda>(ret, j). if ret = 1 \<or> ret = -1 then OK (ret, j, st)
       else OK (0, j\<lparr>closed := True\<rparr>, st)))))"

subsection \<open>Events\<close>

definition init_job :: "socket \<Rightarrow> job" where
  "init_job s = \<lparr>conn = s, closed = False, request = V_UNKNOWN, filename = None, filefd = None,
     state = READ_HEADER, buf = zero_buf, writesz = 0, readsz = 0, datasz = 0, filesize = 0, errmsg = None\<rparr>"

text \<open>
  The body of the event loop for an event of a connection; status 1 is \<open>continue\<close>. There are
  no events of a closed descriptor.
\<close>

definition handle_request :: "env \<Rightarrow> job \<Rightarrow> server \<Rightarrow> outcome" where
  "handle_request env j st =
     (if request j = PUT then put env j st
      else if request j = LIST then list_files j st
      else if request j = DELETE then handle_delete j st
      else if request j = GET then handle_get j st
      else OK (0, j, st))"

definition handle_event :: "env \<Rightarrow> job \<Rightarrow> server \<Rightarrow> (job \<times> server) res" where
  "handle_event env j st = (if closed j then OK (j, st)
     else bindE (if state j = READ_HEADER then read_header j st else OK (0, j, st)) (\<lambda>(ret, j, st).
       if ret = 1 then OK (j, st)
       else bindE (handle_request env j st) (\<lambda>(run, j, st).
         if run = 1 then OK (j, st)
         else if state j = ERROR then bindE (write_err env j st) (\<lambda>(_, j, st). OK (j, st))
         else OK (j, st))))"

text \<open>
  A run of one connection: before each event the kernel settles what its calls will do.
\<close>

primrec handle_events :: "env \<Rightarrow> io_event list list \<Rightarrow> job \<Rightarrow> server \<Rightarrow> (job \<times> server) res" where
  "handle_events env [] j st = OK (j, st)"
| "handle_events env (es # ess) j st =
     bindE (handle_event env (j\<lparr>conn := (conn j)\<lparr>events := es\<rparr>\<rparr>) st) (\<lambda>(j, st). handle_events env ess j st)"

end
