(* ===== verification/Net_Put.thy ===== *)
theory Net_Put
  imports Net_Server
begin

text \<open>
  Serving a PUT: whatever the events of the connection are, as long as no call fails for good,
  the server stores exactly the bytes sent, changes no other file, and answers.
\<close>

section \<open>Specification\<close>

text \<open>No call fails for good and none moves nothing: the only other outcome is to try again.\<close>

definition calm :: "io_event list \<Rightarrow> bool" where
  "calm es \<longleftrightarrow> (\<forall>e \<in> set es. e = Err EINTR \<or> e = Err EAGAIN \<or> (\<exists>k > 0. e = Xfer k))"

text \<open>The content of a file by its name, and files that do not share inodes.\<close>

definition file_at :: "server \<Rightarrow> string \<rightharpoonup> string" where
  "file_at st n = map_option (contents st) (dir st n)"

definition wf_files :: "server \<Rightarrow> bool" where
  "wf_files st \<longleftrightarrow> (\<forall>n m i. dir st n = Some i \<longrightarrow> dir st m = Some i \<longrightarrow> n = m) \<and>
     (\<forall>n i. dir st n = Some i \<longrightarrow> i < next_inode st)"

text \<open>The names in the list are on the heap.\<close>

definition live_names :: "server \<Rightarrow> bool" where
  "live_names st \<longleftrightarrow> (\<forall>a \<in> set (file_list st). names st a \<noteq> None)"

definition same_others :: "string \<Rightarrow> server \<Rightarrow> server \<Rightarrow> bool" where
  "same_others name st st' \<longleftrightarrow> wf_files st' \<and> names st' = names st \<and> file_list st' = file_list st \<and>
     (\<forall>n. n \<noteq> name \<longrightarrow> file_at st' n = file_at st n)"

text \<open>The list with the name in it once more only if it was not there.\<close>

definition with_name :: "server \<Rightarrow> string \<Rightarrow> address \<Rightarrow> address list" where
  "with_name st name a = file_list st @
     (if name \<in> (\<lambda>b. the (names st b)) ` set (file_list st) then [] else [a])"

text \<open>How far a PUT of the content \<open>c\<close> under \<open>name\<close> has come, from the state \<open>st0\<close> of the server on.\<close>

definition put_base :: "env \<Rightarrow> string \<Rightarrow> string \<Rightarrow> server \<Rightarrow> job \<Rightarrow> bool" where
  "put_base env c name st0 j \<longleftrightarrow>
     can_create env name \<and> live_names st0 \<and> length c < 2 ^ 64 \<and> str_at st0 (filename j) = OK name \<and>
     request j = PUT \<and> \<not> closed j \<and> \<not> blocking (conn j) \<and> length (buf j) = 1024"

definition put_inv :: "env \<Rightarrow> string \<Rightarrow> string \<Rightarrow> server \<Rightarrow> job \<Rightarrow> server \<Rightarrow> bool" where
  "put_inv env c name st0 j st \<longleftrightarrow> put_base env c name st0 j \<and>
     (if state j = WRITE_RESPONSE then writesz j < 3 \<and> sent (conn j) = take (writesz j) (''OK'' @ [NL]) \<and>
        file_at st name = Some c \<and> same_others name st0 (st\<lparr>file_list := file_list st0\<rparr>) \<and>
        file_list st = with_name st0 name (the (filename j))
      else same_others name st0 st \<and> writesz j = 0 \<and> sent (conn j) = [] \<and>
       (case state j of
          READ_SIZE \<Rightarrow> readsz j < 8 \<and> datasz j = 0 \<and>
            take (readsz j) (size_bytes (filesize j)) @ incoming (conn j) = size_bytes (of_nat (length c)) @ c
        | SERVING \<Rightarrow> readsz j < 1024 \<and> datasz j = 0 \<and> unat (filesize j) = length c \<and>
            take (readsz j) (buf j) @ incoming (conn j) = c
        | READ_DATA \<Rightarrow> readsz j < 1024 \<and> datasz j < length c \<and> unat (filesize j) = length c \<and>
            file_at st name = Some (take (datasz j) c) \<and>
            take (readsz j) (buf j) @ incoming (conn j) = drop (datasz j) c
        | _ \<Rightarrow> False))"

definition put_stored :: "string \<Rightarrow> string \<Rightarrow> server \<Rightarrow> job \<Rightarrow> server \<Rightarrow> bool" where
  "put_stored c name st0 j st \<longleftrightarrow> closed j \<and> state j = DONE \<and> str_at st0 (filename j) = OK name \<and> sent (conn j) = ''OK'' @ [NL] \<and> file_at st name = Some c \<and>
     same_others name st0 (st\<lparr>file_list := file_list st0\<rparr>) \<and> file_list st = with_name st0 name (the (filename j))"

text \<open>Events that carry the job to its end: nothing blocks before everything has been moved.\<close>

definition enough :: "job \<Rightarrow> bool" where
  "enough j \<longleftrightarrow> smooth (events (conn j)) \<and> length (incoming (conn j)) + 4 \<le> transfers (events (conn j))"

section \<open>Lemmas\<close>

lemma calm_simps [simp]:
  "calm []" "calm (e # es) \<longleftrightarrow> (e = Err EINTR \<or> e = Err EAGAIN \<or> (\<exists>k > 0. e = Xfer k)) \<and> calm es"
  by (auto simp: calm_def)

lemma smooth_calm: "smooth es \<Longrightarrow> calm es"
  by (auto simp: smooth_def calm_def)

lemma sys_read_calm:
  assumes "calm (events s)" "\<not> blocking s" "0 < n"
  obtains (again) s' where "sys_read n s = Some (Inl EAGAIN, s')" "calm (events s')"
      "smooth (events s) \<Longrightarrow> transfers (events s) = 0"
    | (interrupted) s' where "sys_read n s = Some (Inl EINTR, s')" "calm (events s')"
      "smooth (events s) \<Longrightarrow> smooth (events s') \<and> transfers (events s') = transfers (events s)"
    | (data) d s' where "sys_read n s = Some (Inr d, s')" "calm (events s')"
      "d = [] \<Longrightarrow> incoming s = []"
      "smooth (events s) \<Longrightarrow> smooth (events s') \<and> transfers (events s) = Suc (transfers (events s'))"
proof (cases "events s")
  case Nil
  then show ?thesis using assms again by (simp add: sys_read_def)
next
  case (Cons e es)
  show ?thesis
  proof (cases e)
    case (Xfer k)
    then show ?thesis using assms Cons
      by (intro data [of "take (min k n) (incoming s)" "s\<lparr>events := es, incoming := drop (min k n) (incoming s)\<rparr>"])
        (auto simp: sys_read_def)
  next
    case (Err x)
    then show ?thesis using assms Cons again interrupted by (auto simp: sys_read_def)
  qed
qed

lemma sys_write_calm:
  assumes "calm (events s)" "\<not> blocking s" "b \<noteq> []"
  obtains (again) s' where "sys_write b s = Some (Inl EAGAIN, s')" "calm (events s')"
      "smooth (events s) \<Longrightarrow> transfers (events s) = 0"
    | (interrupted) s' where "sys_write b s = Some (Inl EINTR, s')" "calm (events s')"
      "smooth (events s) \<Longrightarrow> smooth (events s') \<and> transfers (events s') = transfers (events s)"
    | (data) n s' where "sys_write b s = Some (Inr n, s')" "calm (events s')" "0 < n"
      "smooth (events s) \<Longrightarrow> smooth (events s') \<and> transfers (events s) = Suc (transfers (events s'))"
proof (cases "events s")
  case Nil
  then show ?thesis using assms again by (simp add: sys_write_def)
next
  case (Cons e es)
  show ?thesis
  proof (cases e)
    case (Xfer k)
    then show ?thesis using assms Cons by (intro data) (auto simp: sys_write_def)
  next
    case (Err x)
    then show ?thesis using assms Cons again interrupted by (auto simp: sys_write_def)
  qed
qed

lemma reader_calm:
  assumes "calm (events s)" "\<not> blocking s"
  shows "\<exists>r d s'. reader n s = Some (r, d, s') \<and> calm (events s') \<and>
    (r = 1 \<and> length d < n \<or> r = 0 \<and> (length d = n \<or> length d < n \<and> incoming s' = [])) \<and>
    (smooth (events s) \<longrightarrow> smooth (events s') \<and> (r = 0 \<or> transfers (events s) \<le> length d) \<and>
      transfers (events s) \<le> transfers (events s') + length d + (if length d < n then 1 else 0))"
  using assms
proof (induction n s rule: reader.induct)
  case (1 n s)
  show ?case
  proof (cases "0 < n")
    case False
    then show ?thesis using 1(3,4) by (simp add: reader.simps)
  next
    case True
    from 1(3,4) True show ?thesis
    proof (cases rule: sys_read_calm)
      case (again s')
      then show ?thesis using True smooth_def sys_events_le(1) [OF again(1)]
        by (subst reader.simps) (auto simp: sys_read_def split: list.splits io_event.splits if_splits)
    next
      case (interrupted s')
      have "\<not> blocking s'" using sys_read_err interrupted(1) 1(4) by metis
      have eq: "reader n s = reader n s'" using interrupted(1) True by (subst reader.simps) simp
      from 1(1) [OF True interrupted(1) refl refl] interrupted(2) \<open>\<not> blocking s'\<close>
      obtain r d s'' where "reader n s' = Some (r, d, s'')" "calm (events s'')"
        "r = 1 \<and> length d < n \<or> r = 0 \<and> (length d = n \<or> length d < n \<and> incoming s'' = [])"
        "smooth (events s') \<longrightarrow> smooth (events s'') \<and> (r = 0 \<or> transfers (events s') \<le> length d) \<and>
          transfers (events s') \<le> transfers (events s'') + length d + (if length d < n then 1 else 0)"
        by auto
      then show ?thesis unfolding eq using interrupted(3) by metis
    next
      case (data d s')
      have "\<not> blocking s'" using sys_read_data data(1) 1(4) by metis
      show ?thesis
      proof (cases "d = []")
        case Nil: True
        then show ?thesis using data True sys_read_data [OF data(1)] by (subst reader.simps) auto
      next
        case False
        have len: "length d \<le> n" using sys_read_data [OF data(1)] by simp
        have d0: "1 \<le> length d" using False by (cases d) auto
        obtain r d' s'' where r: "reader (n - length d) s' = Some (r, d', s'')" "calm (events s'')"
          "r = 1 \<and> length d' < n - length d \<or> r = 0 \<and> (length d' = n - length d \<or> length d' < n - length d \<and> incoming s'' = [])"
          "smooth (events s') \<longrightarrow> smooth (events s'') \<and> (r = 0 \<or> transfers (events s') \<le> length d') \<and>
             transfers (events s') \<le> transfers (events s'') + length d' + (if length d' < n - length d then 1 else 0)"
          using 1(2) [OF True data(1) refl refl False data(2) \<open>\<not> blocking s'\<close>] by blast
        have "reader n s = Some (r, d @ d', s'')" using data(1) True False r(1) by (subst reader.simps) simp
        moreover have "r = 1 \<and> length (d @ d') < n \<or>
            r = 0 \<and> (length (d @ d') = n \<or> length (d @ d') < n \<and> incoming s'' = [])" using r(3) len by auto
        moreover have "smooth (events s) \<longrightarrow> smooth (events s'') \<and> (r = 0 \<or> transfers (events s) \<le> length (d @ d')) \<and>
            transfers (events s) \<le> transfers (events s'') + length (d @ d') + (if length (d @ d') < n then 1 else 0)"
        proof
          assume "smooth (events s)"
          with data(4) r(4) have *: "transfers (events s) = Suc (transfers (events s'))" "smooth (events s'')"
            "r = 0 \<or> transfers (events s') \<le> length d'"
            "transfers (events s') \<le> transfers (events s'') + length d' + (if length d' < n - length d then 1 else 0)" by auto
          have "(length d' < n - length d) = (length (d @ d') < n)" using len by auto
          with * d0 show "smooth (events s'') \<and> (r = 0 \<or> transfers (events s) \<le> length (d @ d')) \<and>
            transfers (events s) \<le> transfers (events s'') + length (d @ d') + (if length (d @ d') < n then 1 else 0)"
            by auto
        qed
        ultimately show ?thesis using r(2) by blast
      qed
    qed
  qed
qed

lemma writer_calm:
  assumes "calm (events s)" "\<not> blocking s"
  shows "\<exists>r k s'. writer b s = Some (r, k, s') \<and> calm (events s') \<and>
    (r = 1 \<and> k < length b \<or> r = 0 \<and> k = length b) \<and>
    (smooth (events s) \<longrightarrow> r = 0 \<or> transfers (events s) \<le> k)"
  using assms
proof (induction b s rule: writer.induct)
  case (1 b s)
  show ?case
  proof (cases "0 < length b")
    case False
    then show ?thesis using 1(3,4) by (simp add: writer.simps)
  next
    case True
    then have "b \<noteq> []" by auto
    from 1(3,4) this show ?thesis
    proof (cases rule: sys_write_calm)
      case (again s')
      then show ?thesis using True by (subst writer.simps) auto
    next
      case (interrupted s')
      have "\<not> blocking s'" using sys_write_err interrupted(1) 1(4) by metis
      have eq: "writer b s = writer b s'" using interrupted(1) True by (subst writer.simps) simp
      from 1(1) [OF True interrupted(1) refl refl] interrupted(2) \<open>\<not> blocking s'\<close>
      obtain r k s'' where "writer b s' = Some (r, k, s'')" "calm (events s'')"
        "r = 1 \<and> k < length b \<or> r = 0 \<and> k = length b" "smooth (events s') \<longrightarrow> r = 0 \<or> transfers (events s') \<le> k"
        by auto
      then show ?thesis unfolding eq using interrupted(3) by metis
    next
      case (data n s')
      have len: "n \<le> length b" "\<not> blocking s'" using sys_write_data [OF data(1)] 1(4) by simp_all
      have n0: "n \<noteq> 0" using data(3) by simp
      obtain r k s'' where r: "writer (drop n b) s' = Some (r, k, s'')" "calm (events s'')"
        "r = 1 \<and> k < length (drop n b) \<or> r = 0 \<and> k = length (drop n b)"
        "smooth (events s') \<longrightarrow> r = 0 \<or> transfers (events s') \<le> k"
        using 1(2) [OF True data(1) refl refl n0 data(2) len(2)] by blast
      have "writer b s = Some (r, n + k, s'')" using data(1) True n0 r(1) by (subst writer.simps) simp
      moreover have "smooth (events s) \<longrightarrow> r = 0 \<or> transfers (events s) \<le> n + k" using r(4) data(3,4) by auto
      moreover have "r = 1 \<and> n + k < length b \<or> r = 0 \<and> n + k = length b" using r(3) len by auto
      ultimately show ?thesis using r(2) by blast
    qed
  qed
qed


subsection \<open>Filling the buffer\<close>

lemma fill_buf_ok:
  assumes "readsz j < 1024" "length (buf j) = 1024" "take (readsz j) (buf j) @ incoming (conn j) = R"
    "calm (events (conn j))" "\<not> blocking (conn j)"
  shows "\<exists>r s b n. fill_buf j = OK (r, j\<lparr>conn := s, buf := b, readsz := n\<rparr>) \<and> length b = 1024 \<and>
    take n b @ incoming s = R \<and> calm (events s) \<and> \<not> blocking s \<and> sent s = sent (conn j) \<and>
    (r = 1 \<and> n < 1024 \<or> r = 0 \<and> n = min 1024 (length R)) \<and>
    (enough j \<longrightarrow> r = 0 \<and> smooth (events s) \<and> length (incoming s) + (if n < 1024 then 3 else 4) \<le> transfers (events s))"
proof -
  obtain r d s where r: "reader (1024 - readsz j) (conn j) = Some (r, d, s)" "calm (events s)"
    "r = 1 \<and> length d < 1024 - readsz j \<or>
       r = 0 \<and> (length d = 1024 - readsz j \<or> length d < 1024 - readsz j \<and> incoming s = [])"
    "smooth (events (conn j)) \<longrightarrow> smooth (events s) \<and> (r = 0 \<or> transfers (events (conn j)) \<le> length d) \<and>
      transfers (events (conn j)) \<le> transfers (events s) + length d + (if length d < 1024 - readsz j then 1 else 0)"
    using reader_calm [OF assms(4,5)] by blast
  have m: "incoming (conn j) = d @ incoming s" "length d \<le> 1024 - readsz j" "sent s = sent (conn j)"
    "blocking s = blocking (conn j)" using reader_moves [OF r(1)] by auto
  let ?n = "readsz j + length d" and ?b = "overwrite (buf j) (readsz j) d"
  have run: "fill_buf j = OK (r, j\<lparr>conn := s, buf := ?b, readsz := ?n\<rparr>)"
    using r(1) by (simp add: fill_buf_def nonblock_def)
  have b: "length ?b = 1024" "take ?n ?b = take (readsz j) (buf j) @ d"
    using m(2) assms(1,2) take_overwrite [of "readsz j" d "buf j"] by simp_all
  then have R: "take ?n ?b @ incoming s = R" using m(1) assms(3) by simp
  have n: "r = 1 \<and> ?n < 1024 \<or> r = 0 \<and> ?n = min 1024 (length R)"
  proof -
    have "length R = ?n + length (incoming s)" using R b(1) m(2) assms(1) by (metis length_append length_take min.absorb2 le_diff_conv2 nless_le add.commute)
    then show ?thesis using r(3) m(2) assms(1) by auto
  qed
  have e: "enough j \<longrightarrow> r = 0 \<and> smooth (events s) \<and> length (incoming s) + (if ?n < 1024 then 3 else 4) \<le> transfers (events s)"
    using r(3,4) m(1,2) assms(1) by (auto simp: enough_def split: if_splits)
  show ?thesis
    by (intro exI [of _ r] exI [of _ s] exI [of _ ?b] exI [of _ ?n]) (use run b R r(2) m(3,4) assms(5) n e in auto)
qed

subsection \<open>Files\<close>

lemma same_others_refl: "wf_files st \<Longrightarrow> same_others name st st"
  by (simp add: same_others_def)

lemma str_at_same: "same_others name st0 st \<Longrightarrow> str_at st p = str_at st0 p"
  by (cases p) (auto simp: same_others_def str_at_def)

lemma open_create_ok:
  assumes "can_create env name" "same_others name st0 st"
  shows "\<exists>i st'. open_create env name st = Some (i, st') \<and>
    (file_at st name = None \<longrightarrow> contents st' i = []) \<and> (\<forall>c. file_at st name = Some c \<longrightarrow> contents st' i = c) \<and>
    (\<forall>c. same_others name st0 (write_file i c st') \<and> file_at (write_file i c st') name = Some c)"
proof (cases "dir st name")
  case (Some i)
  have "same_others name st0 (write_file i c st) \<and> file_at (write_file i c st) name = Some c" for c
  proof -
    have ne: "n \<noteq> name \<Longrightarrow> dir st n \<noteq> Some i" for n
      using assms(2) Some by (auto simp: same_others_def wf_files_def)
    have "wf_files (write_file i c st)" using assms(2) by (auto simp: same_others_def wf_files_def write_file_def)
    moreover have "file_at (write_file i c st) n = file_at st n" if "n \<noteq> name" for n
      using ne [OF that] by (cases "dir st n") (auto simp: file_at_def write_file_def)
    ultimately show ?thesis using assms(2) Some by (simp add: same_others_def) (simp add: file_at_def write_file_def)
  qed
  then show ?thesis using Some by (simp add: open_create_def file_at_def)
next
  case None
  let ?st = "st\<lparr>dir := (dir st)(name \<mapsto> next_inode st), contents := (contents st)(next_inode st := []),
    next_inode := next_inode st + 1\<rparr>"
  have "same_others name st0 (write_file (next_inode st) c ?st) \<and> file_at (write_file (next_inode st) c ?st) name = Some c" for c
  proof -
    have lt: "dir st n = Some i \<Longrightarrow> i < next_inode st" for n i
      using assms(2) by (auto simp: same_others_def wf_files_def)
    have "wf_files (write_file (next_inode st) c ?st)"
      using assms(2) lt by (fastforce simp: same_others_def wf_files_def write_file_def less_Suc_eq)
    moreover have "file_at (write_file (next_inode st) c ?st) n = file_at st n" if "n \<noteq> name" for n
      using that lt [of n] by (cases "dir st n") (auto simp: file_at_def write_file_def)
    ultimately show ?thesis using assms(2) by (simp add: same_others_def) (simp add: file_at_def write_file_def)
  qed
  then show ?thesis using None assms(1) by (simp add: open_create_def file_at_def)
qed

lemma listed_live:
  "(\<forall>a \<in> set as. names st a \<noteq> None) \<Longrightarrow> str_at st p = OK name \<Longrightarrow>
     listed st p as = OK (name \<in> (\<lambda>b. the (names st b)) ` set as)"
  by (induction as) (auto simp: str_at_def)


subsection \<open>The stages of a PUT\<close>

text \<open>All data has been stored and nothing has been answered.\<close>

definition put_ready :: "env \<Rightarrow> string \<Rightarrow> string \<Rightarrow> server \<Rightarrow> job \<Rightarrow> server \<Rightarrow> bool" where
  "put_ready env c name st0 j st \<longleftrightarrow> put_base env c name st0 j \<and> same_others name st0 st \<and>
     file_at st name = Some c \<and> writesz j = 0 \<and> sent (conn j) = [] \<and> calm (events (conn j))"

lemma put_done_ok:
  assumes base: "put_base env c name st0 j" and calm: "calm (events (conn j))"
    and w: "writesz j < 3" "sent (conn j) = take (writesz j) (''OK'' @ [NL])"
    and st: "same_others name st0 (st\<lparr>file_list := file_list st0\<rparr>)" "file_at st name = Some c"
      "file_list st = file_list st0 \<or> file_list st = with_name st0 name (the (filename j))"
  shows "\<exists>j' st'. put_done j st = OK (0, j', st') \<and>
    (put_inv env c name st0 j' st' \<or> put_stored c name st0 j' st') \<and>
    (smooth (events (conn j)) \<and> 3 \<le> transfers (events (conn j)) \<longrightarrow> put_stored c name st0 j' st')"
proof -
  obtain a where a: "filename j = Some a" "names st0 a = Some name"
    using base by (auto simp: put_base_def str_at_def split: option.splits)
  have names: "names st = names st0" using st(1) by (simp add: same_others_def)
  have live: "\<forall>b \<in> set (file_list st). names st b \<noteq> None"
    using base st(3) a unfolding names by (auto simp: put_base_def live_names_def with_name_def split: if_splits)
  let ?st = "if name \<in> (\<lambda>b. the (names st b)) ` set (file_list st) then st else st\<lparr>file_list := file_list st @ [a]\<rparr>"
  have fl: "file_list ?st = with_name st0 name a" using st(3) a unfolding names by (auto simp: with_name_def)
  obtain r k s where r: "writer (drop (writesz j) (''OK'' @ [NL])) (conn j) = Some (r, k, s)"
    "r = 1 \<and> k < 3 - writesz j \<or> r = 0 \<and> k = 3 - writesz j"
    "smooth (events (conn j)) \<longrightarrow> r = 0 \<or> transfers (events (conn j)) \<le> k"
    using writer_calm [OF calm, of "drop (writesz j) (''OK'' @ [NL])"] base by (auto simp: put_base_def)
  have m: "sent s = take (writesz j + k) (''OK'' @ [NL])" "blocking s = blocking (conn j)"
    using writer_moves [OF r(1)] w(2) by (simp_all add: take_add)
  have search: "listed st (filename j) (file_list st) = OK (name \<in> (\<lambda>b. the (names st b)) ` set (file_list st))"
    by (rule listed_live) (use live a names in \<open>simp_all add: str_at_def\<close>)
  have same: "same_others name st0 (?st\<lparr>file_list := file_list st0\<rparr>)" "file_at ?st name = Some c"
    using st(1,2) by (auto simp: file_at_def)
  show ?thesis
  proof (cases "r = 1")
    case True
    let ?j = "j\<lparr>state := WRITE_RESPONSE, conn := s, writesz := writesz j + k\<rparr>"
    have "put_done j st = OK (0, ?j, ?st)"
      using search a r(1) True by (simp add: put_done_def write_response_def nonblock_def)
    moreover have "put_inv env c name st0 ?j ?st"
      using base same fl m r(2) True w(1) a by (simp add: put_inv_def put_base_def)
    moreover have "\<not> (smooth (events (conn j)) \<and> 3 \<le> transfers (events (conn j)))" using r(2,3) True by auto
    ultimately show ?thesis by blast
  next
    case False
    then have r0: "r = 0" "writesz j + k = 3" using r(2) w(1) by auto
    let ?j = "j\<lparr>state := DONE, conn := s, writesz := 0, closed := True\<rparr>"
    have "request j = PUT" using base by (simp add: put_base_def)
    then have "put_done j st = OK (0, ?j, ?st)"
      using search a r(1) r0 by (simp add: put_done_def write_response_def nonblock_def)
    moreover have "put_stored c name st0 ?j ?st"
      using same fl m r0 a by (simp add: put_stored_def str_at_def)
    ultimately show ?thesis by blast
  qed
qed

lemma append_file_ok:
  assumes "can_create env name" "same_others name st0 st" "file_at st name = Some p"
  shows "same_others name st0 (append_file env name s st) \<and> file_at (append_file env name s st) name = Some (p @ s)"
  using open_create_ok [OF assms(1,2)] assms(3) by (auto simp: append_file_def)

lemma put_rest_ok:
  assumes "put_inv env c name st0 j st" "state j = READ_DATA" "calm (events (conn j))"
  shows "\<exists>r j' st'. put_rest env j st = Some (OK (r, j', st')) \<and>
    (r = 1 \<and> put_inv env c name st0 j' st' \<and> \<not> enough j \<or>
     r = 2 \<and> put_ready env c name st0 j' st' \<and> state j' = DONE \<and>
       (enough j \<longrightarrow> smooth (events (conn j')) \<and> 3 \<le> transfers (events (conn j'))))"
  using assms
proof (induction "length (incoming (conn j))" arbitrary: j st rule: less_induct)
  case less
  note inv = less.prems(1) [unfolded put_inv_def, simplified less.prems(2), simplified]
  have base: "put_base env c name st0 j" using inv by simp
  note base' = base [unfolded put_base_def]
  obtain r s b n where fill: "fill_buf j = OK (r, j\<lparr>conn := s, buf := b, readsz := n\<rparr>)" "length b = 1024"
    "take n b @ incoming s = drop (datasz j) c" "calm (events s)" "\<not> blocking s" "sent s = sent (conn j)"
    "r = 1 \<and> n < 1024 \<or> r = 0 \<and> n = min 1024 (length (drop (datasz j) c))"
    "enough j \<longrightarrow> r = 0 \<and> smooth (events s) \<and> length (incoming s) + (if n < 1024 then 3 else 4) \<le> transfers (events s)"
    using fill_buf_ok [of j "drop (datasz j) c"] inv base' less.prems(3) by blast
  let ?j = "j\<lparr>conn := s, buf := b, readsz := n\<rparr>"
  show ?case
  proof (cases "r = 1")
    case True
    have "put_rest env j st = Some (OK (1, ?j, st))"
      using less.prems(2) fill(1) True by (subst put_rest.simps) simp
    moreover have "put_inv env c name st0 ?j st"
      using inv base' fill True less.prems(2) by (simp add: put_inv_def put_base_def)
    ultimately show ?thesis using fill(8) True by auto
  next
    case False
    then have r: "r = 0" "n = min 1024 (length c - datasz j)" using fill(7) by auto
    have name: "str_at st (filename j) = OK name"
      using base' inv str_at_same [of name st0 st "filename j"] by simp
    let ?st = "append_file env name (take n b) st"
    have new: "same_others name st0 ?st" "file_at ?st name = Some (take (datasz j + n) c)"
    proof -
      have "take n b = take n (drop (datasz j) c)"
        using fill(2,3) r(2) by (metis append_eq_conv_conj length_take min.cobounded1 min.absorb2)
      then show "same_others name st0 ?st" "file_at ?st name = Some (take (datasz j + n) c)"
        using append_file_ok [of env name st0 st "take (datasz j) c" "take n b"] inv base' by (auto simp: take_add)
    qed
    let ?j' = "?j\<lparr>datasz := datasz j + n\<rparr>"
    show ?thesis
    proof (cases "datasz j + n = length c")
      case fin: True
      let ?e = "?j'\<lparr>state := DONE, readsz := 0, buf := zero_buf\<rparr>"
      have "put_rest env j st = put_rest env ?e ?st"
        using less.prems(2) fill(1) r(1) name fin inv by (subst put_rest.simps) (simp add: Let_def)
      also have "\<dots> = Some (OK (2, ?e, ?st))" by (subst put_rest.simps) simp
      finally have run: "put_rest env j st = Some (OK (2, ?e, ?st))" .
      have "put_ready env c name st0 ?e ?st"
        using base' fill new fin inv by (simp add: put_ready_def put_base_def zero_buf_def)
      then show ?thesis using run fill(8) by (auto split: if_splits)
    next
      case more: False
      then have n: "n = 1024" "datasz j + n < length c" using r(2) inv by auto
      let ?e = "?j'\<lparr>readsz := 0, buf := zero_buf\<rparr>"
      have run: "put_rest env j st = put_rest env ?e ?st"
        using less.prems(2) fill(1) r(1) name more n inv by (subst put_rest.simps) (simp add: Let_def)
      have "length (incoming s) < length (incoming (conn j))"
      proof -
        have "1024 + length (incoming s) = length (drop (datasz j) c)"
          using arg_cong [OF fill(3), of length] fill(2) n(1) by simp
        moreover have "readsz j + length (incoming (conn j)) = length (drop (datasz j) c)"
        proof -
          have "take (readsz j) (buf j) @ incoming (conn j) = drop (datasz j) c" using inv by simp
          then have "length (take (readsz j) (buf j)) + length (incoming (conn j)) = length (drop (datasz j) c)"
            by (metis length_append)
          moreover have "length (take (readsz j) (buf j)) = readsz j" using inv base' by simp
          ultimately show ?thesis by simp
        qed
        ultimately show ?thesis using inv by simp
      qed
      moreover have "put_inv env c name st0 ?e ?st"
      proof -
        have "incoming s = drop (datasz j + n) c"
          using fill(2,3) n(1) by (metis append_eq_conv_conj length_take min.absorb2 order_refl drop_drop add.commute)
        then show ?thesis using base' fill new n inv less.prems(2) by (simp add: put_inv_def put_base_def zero_buf_def)
      qed
      moreover have "enough j \<longrightarrow> enough ?e" using fill(8) n(1) by (auto simp: enough_def)
      ultimately show ?thesis
        using less.hyps [of ?e ?st] less.prems(2) fill(4) unfolding run by auto
    qed
  qed
qed


lemma put_first_ok:
  assumes "put_inv env c name st0 j st" "state j = SERVING" "calm (events (conn j))"
  shows "\<exists>r j' st'. put_first env j st = OK (r, j', st') \<and>
    (r = 1 \<and> put_inv env c name st0 j' st' \<and> \<not> enough j \<or>
     r = 2 \<and> state j' = DONE \<and> put_ready env c name st0 j' st' \<and>
       (enough j \<longrightarrow> smooth (events (conn j')) \<and> 3 \<le> transfers (events (conn j'))) \<or>
     r = 2 \<and> state j' = READ_DATA \<and> put_inv env c name st0 j' st' \<and> calm (events (conn j')) \<and>
       (enough j \<longrightarrow> enough j'))"
proof -
  note inv = assms(1) [unfolded put_inv_def, simplified assms(2), simplified]
  have base: "put_base env c name st0 j" using inv by simp
  note base' = base [unfolded put_base_def]
  obtain r s b n where fill: "fill_buf j = OK (r, j\<lparr>conn := s, buf := b, readsz := n\<rparr>)" "length b = 1024"
    "take n b @ incoming s = c" "calm (events s)" "\<not> blocking s" "sent s = sent (conn j)"
    "r = 1 \<and> n < 1024 \<or> r = 0 \<and> n = min 1024 (length c)"
    "enough j \<longrightarrow> r = 0 \<and> smooth (events s) \<and> length (incoming s) + (if n < 1024 then 3 else 4) \<le> transfers (events s)"
    using fill_buf_ok [of j c] inv base' assms(3) by blast
  let ?j = "j\<lparr>conn := s, buf := b, readsz := n\<rparr>"
  show ?thesis
  proof (cases "r = 1")
    case True
    have "put_first env j st = OK (1, ?j, st)" using fill(1) True by (simp add: put_first_def)
    moreover have "put_inv env c name st0 ?j st"
      using inv base' fill True assms(2) by (simp add: put_inv_def put_base_def)
    ultimately show ?thesis using fill(8) True by auto
  next
    case False
    then have r: "r = 0" "n = min 1024 (length c)" using fill(7) by auto
    have name: "str_at st (filename j) = OK name"
      using base' inv str_at_same [of name st0 st "filename j"] by simp
    have b: "take n b = take n c"
      using fill(2,3) r(2) by (metis append_eq_conv_conj length_take min.cobounded1 min.absorb2)
    obtain i st1 where op: "open_create env name st = Some (i, st1)"
      "\<And>c. same_others name st0 (write_file i c st1) \<and> file_at (write_file i c st1) name = Some c"
      using open_create_ok [of env name st0 st] inv base' by blast
    let ?st = "write_file i (take n c) st1"
    let ?e = "?j\<lparr>datasz := n, state := if n = length c then DONE else READ_DATA, readsz := 0, buf := zero_buf\<rparr>"
    have "n \<le> length c" "\<not> (n < length c \<and> n < 1024)" using r(2) by auto
    then have run: "put_first env j st = OK (2, ?e, ?st)"
      using fill(1) r(1) name op(1) b inv by (cases "n = length c") (simp_all add: put_first_def Let_def)
    show ?thesis
    proof (cases "n = length c")
      case True
      then have "put_ready env c name st0 ?e ?st"
        using base' fill op(2) inv by (simp add: put_ready_def put_base_def zero_buf_def)
      then show ?thesis using run fill(8) True by (auto split: if_splits)
    next
      case False
      then have n: "n = 1024" "n < length c" using r(2) by auto
      have "incoming s = drop n c"
        using fill(2,3) n(1) by (metis append_eq_conv_conj length_take min.absorb2 order_refl)
      then have "put_inv env c name st0 ?e ?st"
        using base' fill op(2) inv n by (simp add: put_inv_def put_base_def zero_buf_def)
      moreover have "enough j \<longrightarrow> enough ?e" using fill(8) n(1) by (auto simp: enough_def)
      ultimately show ?thesis using run fill(4) False by auto
    qed
  qed
qed

lemma put_size_ok:
  assumes "put_inv env c name st0 j st" "state j = READ_SIZE" "calm (events (conn j))"
  shows "\<exists>r j'. put_size j = OK (r, j') \<and> put_inv env c name st0 j' st \<and>
    (r = 1 \<and> \<not> enough j \<or>
     r = 0 \<and> state j' = SERVING \<and> calm (events (conn j')) \<and> (enough j \<longrightarrow> enough j'))"
proof -
  note inv = assms(1) [unfolded put_inv_def, simplified assms(2), simplified]
  note base = conjunct1 [OF inv, unfolded put_base_def]
  let ?R = "size_bytes (of_nat (length c)) @ c" and ?n = "readsz j"
  obtain r d s where r: "reader (8 - ?n) (conn j) = Some (r, d, s)" "calm (events s)"
    "r = 1 \<and> length d < 8 - ?n \<or> r = 0 \<and> (length d = 8 - ?n \<or> length d < 8 - ?n \<and> incoming s = [])"
    "smooth (events (conn j)) \<longrightarrow> smooth (events s) \<and> (r = 0 \<or> transfers (events (conn j)) \<le> length d) \<and>
      transfers (events (conn j)) \<le> transfers (events s) + length d + (if length d < 8 - ?n then 1 else 0)"
    using reader_calm [OF assms(3)] base by blast
  have m: "incoming (conn j) = d @ incoming s" "length d \<le> 8 - ?n" "sent s = sent (conn j)"
    "blocking s = blocking (conn j)" using reader_moves [OF r(1)] by auto
  let ?b = "overwrite (size_bytes (filesize j)) ?n d"
  have n8: "?n < 8" using inv by simp
  then have le: "?n + length d \<le> length (size_bytes (filesize j))" using m(2) by simp
  have b: "length ?b = 8" "take (?n + length d) ?b = take ?n (size_bytes (filesize j)) @ d"
    using take_overwrite [OF le] length_overwrite [OF le] by simp_all
  have R: "take (?n + length d) ?b @ incoming s = ?R" using b(2) m(1) inv by simp
  let ?j = "j\<lparr>conn := s, filesize := bytes_size ?b, readsz := ?n + length d\<rparr>"
  show ?thesis
  proof (cases "r = 1")
    case True
    then have "put_size j = OK (1, ?j)" using r(1) by (simp add: put_size_def nonblock_def)
    moreover have "put_inv env c name st0 ?j st"
      using inv base assms(2) R b(1) r(3) True m
      by (simp add: put_inv_def put_base_def size_bytes_bytes)
    moreover have "\<not> enough j" using r(3,4) True m(1) by (auto simp: enough_def)
    ultimately show ?thesis by blast
  next
    case False
    then have r0: "r = 0" using r(3) by auto
    have full: "?n + length d = 8"
    proof (rule ccontr)
      assume "?n + length d \<noteq> 8"
      then have "incoming s = []" "?n + length d < 8" using r(3) m(2) inv False by auto
      then have "length (take (?n + length d) ?b) = length ?R" using arg_cong [OF R, of length] by simp
      then show False using \<open>?n + length d < 8\<close> by simp
    qed
    then have bs: "?b = size_bytes (of_nat (length c))" "incoming s = c" using R b(1) by simp_all
    let ?e = "?j\<lparr>state := SERVING, buf := zero_buf, readsz := 0\<rparr>"
    have "put_size j = OK (0, ?e)" using r(1) r0 by (simp add: put_size_def nonblock_def)
    moreover have "put_inv env c name st0 ?e st"
      using inv base m bs by (simp add: put_inv_def put_base_def zero_buf_def bytes_size_bytes unat_of_nat_size_t)
    moreover have "\<not> length d < 8 - ?n" using full by simp
    then have "enough j \<longrightarrow> enough ?e" using r(4) m(1) by (auto simp: enough_def)
    ultimately show ?thesis using r0 r(2) by auto
  qed
qed

text \<open>One call of the handler.\<close>

lemma put_ready_done:
  assumes "put_ready env c name st0 j st"
  shows "\<exists>j' st'. put_done j st = OK (0, j', st') \<and>
    (put_inv env c name st0 j' st' \<or> put_stored c name st0 j' st') \<and>
    (smooth (events (conn j)) \<and> 3 \<le> transfers (events (conn j)) \<longrightarrow> put_stored c name st0 j' st')"
proof (rule put_done_ok)
  have fl: "file_list st = file_list st0" using assms by (simp add: put_ready_def same_others_def)
  then have "st\<lparr>file_list := file_list st0\<rparr> = st" by simp
  then show "same_others name st0 (st\<lparr>file_list := file_list st0\<rparr>)" using assms by (simp add: put_ready_def)
qed (use assms in \<open>simp_all add: put_ready_def same_others_def\<close>)

lemma put_tail_ok:
  assumes "put_inv env c name st0 j st \<and> state j = READ_DATA \<or> put_ready env c name st0 j st \<and> state j = DONE"
    "calm (events (conn j))"
  shows "\<exists>r j' st'. bindE (returns (put_rest env j st)) (\<lambda>(ret, j, st).
      if ret \<noteq> 2 then OK (ret, j, st) else put_done j st) = OK (r, j', st') \<and>
    (put_inv env c name st0 j' st' \<or> put_stored c name st0 j' st') \<and>
    (enough j \<or> state j = DONE \<and> smooth (events (conn j)) \<and> 3 \<le> transfers (events (conn j)) \<longrightarrow> put_stored c name st0 j' st')"
  using assms(1)
proof (elim disjE conjE)
  assume "put_inv env c name st0 j st" "state j = READ_DATA"
  from put_rest_ok [OF this assms(2)] obtain r j1 st1 where run: "put_rest env j st = Some (OK (r, j1, st1))"
    "r = 1 \<and> put_inv env c name st0 j1 st1 \<and> \<not> enough j \<or>
     r = 2 \<and> put_ready env c name st0 j1 st1 \<and> state j1 = DONE \<and>
       (enough j \<longrightarrow> smooth (events (conn j1)) \<and> 3 \<le> transfers (events (conn j1)))" by blast
  from run(2) show ?thesis
  proof (elim disjE conjE)
    assume "r = 1" "put_inv env c name st0 j1 st1" "\<not> enough j"
    then show ?thesis using run(1) \<open>state j = READ_DATA\<close> by auto
  next
    assume *: "r = 2" "put_ready env c name st0 j1 st1"
      "enough j \<longrightarrow> smooth (events (conn j1)) \<and> 3 \<le> transfers (events (conn j1))"
    from put_ready_done [OF *(2)] show ?thesis using run(1) * \<open>state j = READ_DATA\<close> by auto
  qed
next
  assume *: "put_ready env c name st0 j st" "state j = DONE"
  then have "put_rest env j st = Some (OK (2, j, st))" by (subst put_rest.simps) simp
  then show ?thesis using put_ready_done [OF *(1)] *(2) by (auto simp: enough_def)
qed

definition plenty :: "string \<Rightarrow> io_event list \<Rightarrow> bool" where
  "plenty c es \<longleftrightarrow> smooth es \<and> length c + 12 \<le> transfers es"

lemma plenty_enough:
  assumes "put_inv env c name st0 j st" "plenty c (events (conn j))" "state j \<noteq> WRITE_RESPONSE"
  shows "enough j"
proof -
  have "length (incoming (conn j)) \<le> 8 + length c"
  proof -
    have "x @ incoming (conn j) = y \<Longrightarrow> length (incoming (conn j)) \<le> length y" for x y by auto
    from this [of "take (readsz j) (size_bytes (filesize j))" "size_bytes (of_nat (length c)) @ c"]
      this [of "take (readsz j) (buf j)"] show ?thesis
      using assms(1,3) by (fastforce simp: put_inv_def split: state_t.splits)
  qed
  then show ?thesis using assms(2) by (simp add: plenty_def enough_def)
qed

lemma put_ok:
  assumes "put_inv env c name st0 j st" "calm (events (conn j))"
  shows "\<exists>r j' st'. put env j st = OK (r, j', st') \<and>
    (put_inv env c name st0 j' st' \<or> put_stored c name st0 j' st') \<and>
    (enough j \<or> state j = WRITE_RESPONSE \<and> smooth (events (conn j)) \<and> 3 \<le> transfers (events (conn j)) \<longrightarrow>
       put_stored c name st0 j' st')"
proof -
  have serve: "\<exists>r j' st'. bindE (put_first env j st) (\<lambda>(ret, j, st).
         if ret \<noteq> 2 then OK (ret, j, st)
         else bindE (returns (put_rest env j st)) (\<lambda>(ret, j, st).
           if ret \<noteq> 2 then OK (ret, j, st) else put_done j st)) = OK (r, j', st') \<and>
      (put_inv env c name st0 j' st' \<or> put_stored c name st0 j' st') \<and>
      (enough j \<longrightarrow> put_stored c name st0 j' st')"
    if "put_inv env c name st0 j st" "state j = SERVING" "calm (events (conn j))" for j
  proof -
    from put_first_ok [OF that] obtain r j1 st1 where run: "put_first env j st = OK (r, j1, st1)" and
      alt: "r = 1 \<and> put_inv env c name st0 j1 st1 \<and> \<not> enough j \<or>
       r = 2 \<and> state j1 = DONE \<and> put_ready env c name st0 j1 st1 \<and>
         (enough j \<longrightarrow> smooth (events (conn j1)) \<and> 3 \<le> transfers (events (conn j1))) \<or>
       r = 2 \<and> state j1 = READ_DATA \<and> put_inv env c name st0 j1 st1 \<and> calm (events (conn j1)) \<and>
         (enough j \<longrightarrow> enough j1)" by blast
    from alt show ?thesis
    proof (elim disjE)
      assume "r = 1 \<and> put_inv env c name st0 j1 st1 \<and> \<not> enough j"
      then show ?thesis using run by simp
    next
      assume *: "r = 2 \<and> state j1 = DONE \<and> put_ready env c name st0 j1 st1 \<and>
         (enough j \<longrightarrow> smooth (events (conn j1)) \<and> 3 \<le> transfers (events (conn j1)))"
      then show ?thesis using run put_tail_ok [of env c name st0 j1 st1] by (auto simp: put_ready_def)
    next
      assume *: "r = 2 \<and> state j1 = READ_DATA \<and> put_inv env c name st0 j1 st1 \<and> calm (events (conn j1)) \<and>
         (enough j \<longrightarrow> enough j1)"
      then show ?thesis using run put_tail_ok [of env c name st0 j1 st1] by auto
    qed
  qed
  consider "state j = READ_SIZE" | "state j = SERVING" | "state j = READ_DATA" | "state j = WRITE_RESPONSE"
    using assms(1) by (auto simp: put_inv_def split: state_t.splits if_splits)
  then show ?thesis
  proof cases
    case 1
    from put_size_ok [OF assms(1) 1 assms(2)] obtain r j1 where run: "put_size j = OK (r, j1)"
      "put_inv env c name st0 j1 st" "r = 1 \<and> \<not> enough j \<or>
        r = 0 \<and> state j1 = SERVING \<and> calm (events (conn j1)) \<and> (enough j \<longrightarrow> enough j1)" by blast
    from run(3) show ?thesis
    proof
      assume "r = 1 \<and> \<not> enough j"
      then show ?thesis using run 1 by (auto simp: put_def)
    next
      assume "r = 0 \<and> state j1 = SERVING \<and> calm (events (conn j1)) \<and> (enough j \<longrightarrow> enough j1)"
      then show ?thesis using run 1 serve [of j1] by (auto simp: put_def)
    qed
  next
    case 2
    then show ?thesis using serve [OF assms(1) 2 assms(2)] by (simp add: put_def)
  next
    case 3
    then show ?thesis using put_tail_ok [of env c name st0 j st] assms by (auto simp: put_def)
  next
    case 4
    note inv = assms(1) [unfolded put_inv_def, simplified 4, simplified]
    have "put env j st = put_done j st"
      using 4 by (simp add: put_def) (subst put_rest.simps, simp)
    then show ?thesis using put_done_ok [of env c name st0 j st] inv assms(2) by (auto simp: enough_def)
  qed
qed


subsection \<open>The request line\<close>

definition request_line :: "string \<Rightarrow> string \<Rightarrow> string" where
  "request_line v name = v @ '' '' @ name @ [NL]"

definition good_name :: "string \<Rightarrow> bool" where
  "good_name name \<longleftrightarrow> length name \<le> 255 \<and> NUL \<notin> set name \<and> NL \<notin> set name"

text \<open>Names that are in use lie below the next one to be handed out.\<close>

definition wf_names :: "server \<Rightarrow> bool" where
  "wf_names st \<longleftrightarrow> (\<forall>a. names st a \<noteq> None \<longrightarrow> a < next_name st)"

lemma get_header_ok:
  assumes "take n b @ incoming s = H @ [NL] @ rest" "n \<le> length H" "length H < 262" "NL \<notin> set H" "length b = 1024"
    "calm (events s)" "\<not> blocking s"
  shows "\<exists>r b' n' s'. get_header b n a s = OK (r, b', n', s') \<and> length b' = 1024 \<and> calm (events s') \<and>
    \<not> blocking s' \<and> sent s' = sent s \<and>
    (r = 1 \<and> take n' b' @ incoming s' = H @ [NL] @ rest \<and> n' \<le> length H \<and>
       \<not> (smooth (events s) \<and> length (incoming s) \<le> transfers (events s)) \<or>
     r = 0 \<and> take n' b' = H @ [NUL] \<and> incoming s' = rest \<and>
       (smooth (events s) \<longrightarrow> smooth (events s') \<and> length (incoming s') + transfers (events s) \<le> transfers (events s') + length (incoming s)))"
  using assms
proof (induction b n a s rule: get_header.induct)
  case (1 b n a s)
  obtain r d s1 where r: "reader 1 s = Some (r, d, s1)" "calm (events s1)"
    "r = 1 \<and> length d < 1 \<or> r = 0 \<and> (length d = 1 \<or> length d < 1 \<and> incoming s1 = [])"
    "smooth (events s) \<longrightarrow> smooth (events s1) \<and> (r = 0 \<or> transfers (events s) \<le> length d) \<and>
      transfers (events s) \<le> transfers (events s1) + length d + (if length d < 1 then 1 else 0)"
    using reader_calm [OF 1(7,8), of 1] by blast
  have m: "incoming s = d @ incoming s1" "sent s1 = sent s" "blocking s1 = blocking s" using reader_moves [OF r(1)] by auto
  let ?L = "H @ [NL] @ rest"
  have lb: "n < length b" using 1(3,4,6) by simp
  then have inc: "take n b = take n ?L" "incoming s = drop n ?L"
    using 1(2) by (simp_all add: append_eq_conv_conj)
  then have ne: "incoming s \<noteq> []" using 1(3) by simp
  show ?case
  proof (cases "r = 1")
    case True
    then have "d = []" using r(3) by simp
    have "\<not> (smooth (events s) \<and> length (incoming s) \<le> transfers (events s))" using r(4) True \<open>d = []\<close> ne by auto
    moreover have "get_header b n a s = OK (1, b, n, s1)" using r(1) True by (subst get_header.simps) simp
    ultimately show ?thesis using 1(2,3,6,8) m \<open>d = []\<close> r(2) by auto
  next
    case False
    then have r0: "r = 0" "length d = 1" using r(3) m ne by auto
    then obtain c where d: "d = [c]" by (cases d) auto
    have "drop n ?L = ?L ! n # drop (Suc n) ?L" using 1(3) by (intro Cons_nth_drop_Suc [symmetric]) simp
    then have c: "c = ?L ! n" "incoming s1 = drop (Suc n) ?L" using inc(2) m(1) d by simp_all
    have sm: "smooth (events s) \<longrightarrow> smooth (events s1) \<and> transfers (events s) \<le> transfers (events s1) + 1"
      using r(4) r0 by auto
    have step: "get_header b n a s = (if c \<noteq> NL then get_header (b[n := c]) (n + 1) (Some c) s1
        else OK (0, b[n := NUL], n + 1, s1))"
      using r(1) r0 d 1(3,4) by (subst get_header.simps) simp
    show ?thesis
    proof (cases "n = length H")
      case True
      then have cN: "c = NL" "incoming s1 = rest" using c by (simp_all add: nth_append)
      have "take (n + 1) (b[n := NUL]) = H @ [NUL]"
        using inc(1) lb True by (simp add: take_list_update_Suc)
      then show ?thesis using step cN 1(6,8) m r(2) sm ne d by auto
    next
      case False
      then have n: "n < length H" using 1(3) by simp
      then have "c \<in> set H" using c(1) by (simp add: nth_append)
      then have cN: "c \<noteq> NL" using 1(5) by auto
      have tk: "take (n + 1) (b[n := c]) @ incoming s1 = ?L"
      proof -
        have "take (n + 1) (b[n := c]) = take n ?L @ [c]" using inc(1) lb by (simp add: take_list_update_Suc)
        then show ?thesis using c by (metis append.assoc append_Cons append_Nil append_take_drop_id Cons_nth_drop_Suc length_append n trans_less_add1)
      qed
      have IH: "\<exists>r b' n' s'. get_header (b[n := c]) (n + 1) (Some c) s1 = OK (r, b', n', s') \<and> length b' = 1024 \<and>
          calm (events s') \<and> \<not> blocking s' \<and> sent s' = sent s1 \<and>
          (r = 1 \<and> take n' b' @ incoming s' = ?L \<and> n' \<le> length H \<and>
             \<not> (smooth (events s1) \<and> length (incoming s1) \<le> transfers (events s1)) \<or>
           r = 0 \<and> take n' b' = H @ [NUL] \<and> incoming s' = rest \<and>
             (smooth (events s1) \<longrightarrow> smooth (events s') \<and>
                length (incoming s') + transfers (events s1) \<le> transfers (events s') + length (incoming s1)))"
        by (rule 1(1) [OF r(1) refl refl _ _ _ _ cN tk]) (use r0 d n 1(4-6,8) m r(2) in auto)
      have eq: "get_header b n a s = get_header (b[n := c]) (n + 1) (Some c) s1" using step cN by simp
      have len: "length (incoming s) = Suc (length (incoming s1))" using m(1) d by simp
      from IH show ?thesis unfolding eq using m(2) sm len by fastforce
    qed
  qed
qed


definition header_inv :: "string \<Rightarrow> string \<Rightarrow> string \<Rightarrow> job \<Rightarrow> bool" where
  "header_inv v name rest j \<longleftrightarrow> state j = READ_HEADER \<and> request j = V_UNKNOWN \<and> \<not> closed j \<and> \<not> blocking (conn j) \<and>
     length (buf j) = 1024 \<and> datasz j = 0 \<and> writesz j = 0 \<and> sent (conn j) = [] \<and>
     readsz j \<le> length (v @ '' '' @ name) \<and>
     take (readsz j) (buf j) @ incoming (conn j) = request_line v name @ rest"

definition verb_of :: "string \<Rightarrow> verb" where
  "verb_of v = (if v = ''PUT'' then PUT else if v = ''GET'' then GET else if v = ''DELETE'' then DELETE else V_UNKNOWN)"

lemma parse_request:
  assumes "verb_of v \<noteq> V_UNKNOWN"
  shows "parse_header (v @ '' '' @ name) V_UNKNOWN = (Some name, verb_of v)"
proof -
  have "CHR '' '' \<notin> set v" using assms by (auto simp: verb_of_def split: if_splits)
  then have "takeWhile (\<lambda>c. c \<noteq> CHR '' '') (v @ '' '' @ name) = v"
    using span_delim(1) [of "CHR '' ''" v name] by simp
  then show ?thesis by (simp add: parse_header_def verb_of_def Let_def)
qed

lemma cstr_line: "NUL \<notin> set l \<Longrightarrow> n = length l + 1 \<Longrightarrow> take n b = l @ [NUL] \<Longrightarrow> cstr b = l"
proof -
  assume l: "NUL \<notin> set l" and n: "n = length l + 1" "take n b = l @ [NUL]"
  have "b = (l @ [NUL]) @ drop n b" using n(2) by (metis append_take_drop_id)
  then have "cstr b = takeWhile (\<lambda>c. c \<noteq> NUL) (l @ NUL # drop n b)" by (simp add: cstr_def)
  also have "\<dots> = l" using l by (rule span_delim(1))
  finally show ?thesis .
qed

lemma read_header_ok:
  assumes inv: "header_inv v name rest j" and v: "verb_of v \<noteq> V_UNKNOWN" and name: "good_name name"
    and short: "length (v @ '' '' @ name) < 262" and calm: "calm (events (conn j))"
  shows "\<exists>r j' st'. read_header j st = OK (r, j', st') \<and>
    (r = 1 \<and> header_inv v name rest j' \<and> st' = st \<and> \<not> enough j \<or>
     r = 0 \<and> (\<exists>s. j' = j\<lparr>conn := s, buf := zero_buf, readsz := 0, request := verb_of v,
           filename := Some (next_name st), state := if verb_of v = PUT then READ_SIZE else SERVING\<rparr> \<and>
         \<not> blocking s \<and> calm (events s) \<and> sent s = [] \<and> incoming s = rest) \<and>
       st' = snd (strdup_name name st) \<and> (enough j \<longrightarrow> enough j'))"
proof -
  let ?H = "v @ '' '' @ name"
  have vs: "v \<in> {''PUT'', ''GET'', ''DELETE''}" using v by (auto simp: verb_of_def split: if_splits)
  then have H: "length ?H < 262" "NL \<notin> set ?H" "NUL \<notin> set ?H"
    using name short by (auto simp: good_name_def NL_def NUL_def)
  obtain r b n s where g: "get_header (buf j) (readsz j) None (conn j) = OK (r, b, n, s)" "length b = 1024"
    "calm (events s)" "\<not> blocking s" "sent s = []"
    "r = 1 \<and> take n b @ incoming s = ?H @ [NL] @ rest \<and> n \<le> length ?H \<and>
       \<not> (smooth (events (conn j)) \<and> length (incoming (conn j)) \<le> transfers (events (conn j))) \<or>
     r = 0 \<and> take n b = ?H @ [NUL] \<and> incoming s = rest \<and>
       (smooth (events (conn j)) \<longrightarrow> smooth (events s) \<and>
          length (incoming s) + transfers (events (conn j)) \<le> transfers (events s) + length (incoming (conn j)))"
    using get_header_ok [of "readsz j" "buf j" "conn j" ?H rest None] inv H(1,2) calm
    by (auto simp: header_inv_def request_line_def)
  have st: "state j = READ_HEADER" "request j = V_UNKNOWN" using inv by (simp_all add: header_inv_def)
  show ?thesis
  proof (cases "r = 1")
    case True
    let ?j = "j\<lparr>conn := s, buf := b, readsz := n\<rparr>"
    have "read_header j st = OK (1, ?j, st)" using g(1) True st by (simp add: read_header_def Let_def)
    moreover have "header_inv v name rest ?j" using g True inv by (simp add: header_inv_def request_line_def)
    moreover have "\<not> enough j" using g(6) True by (auto simp: enough_def)
    ultimately show ?thesis by blast
  next
    case False
    then have r: "r = 0" "take n b = ?H @ [NUL]" "incoming s = rest"
      "smooth (events (conn j)) \<longrightarrow> smooth (events s) \<and>
          length (incoming s) + transfers (events (conn j)) \<le> transfers (events s) + length (incoming (conn j))"
      using g(6) by auto
    have "n = length ?H + 1"
    proof -
      have "min 1024 n = length ?H + 1" using arg_cong [OF r(2), of length] g(2) by simp
      then show ?thesis using H(1) by simp
    qed
    then have str: "cstr b = ?H" using cstr_line [OF H(3)] r(2) by blast
    have len: "\<not> 255 < length name" using name by (simp add: good_name_def)
    have not_list: "verb_of v \<noteq> LIST" using vs by (auto simp: verb_of_def)
    let ?j = "j\<lparr>conn := s, buf := zero_buf, readsz := 0, request := verb_of v,
           filename := Some (next_name st), state := if verb_of v = PUT then READ_SIZE else SERVING\<rparr>"
    have "read_header j st = OK (0, ?j, snd (strdup_name name st))"
      using g(1) r(1) st str parse_request [OF v, of name] v not_list len
      by (simp add: read_header_def Let_def strdup_name_def)
    moreover have "enough j \<longrightarrow> enough ?j" using r(4) by (auto simp: enough_def)
    ultimately show ?thesis using g(3,4,5) r(1,3) by blast
  qed
qed

lemma put_inv_cases:
  "put_inv env c name st0 j st \<Longrightarrow> request j = PUT \<and> \<not> closed j \<and> state j \<noteq> READ_HEADER \<and> state j \<noteq> ERROR"
  by (auto simp: put_inv_def put_base_def split: if_splits state_t.splits)

text \<open>One event of a connection that sends a PUT.\<close>

lemma handle_event_put:
  assumes "put_inv env c name st0 j st" "calm (events (conn j))"
  shows "\<exists>j' st'. handle_event env j st = OK (j', st') \<and>
    (put_inv env c name st0 j' st' \<or> put_stored c name st0 j' st') \<and>
    (plenty c (events (conn j)) \<longrightarrow> put_stored c name st0 j' st')"
proof -
  obtain r j' st' where run: "put env j st = OK (r, j', st')"
    "put_inv env c name st0 j' st' \<or> put_stored c name st0 j' st'"
    "enough j \<or> state j = WRITE_RESPONSE \<and> smooth (events (conn j)) \<and> 3 \<le> transfers (events (conn j)) \<longrightarrow>
       put_stored c name st0 j' st'"
    using put_ok [OF assms] by blast
  have "state j' \<noteq> ERROR" using run(2) put_inv_cases by (auto simp: put_stored_def)
  then have "handle_event env j st = OK (j', st')"
    using put_inv_cases [OF assms(1)] run(1) by (simp add: handle_event_def handle_request_def)
  moreover have "plenty c (events (conn j)) \<longrightarrow> put_stored c name st0 j' st'"
    using run(3) plenty_enough [OF assms(1)] by (auto simp: plenty_def)
  ultimately show ?thesis using run(2) by blast
qed

text \<open>The same for the event that completes the request line.\<close>

lemma put_inv_start:
  assumes j: "header_inv ''PUT'' name rest j" and rest: "rest = size_bytes (of_nat (length c)) @ c"
    and st: "wf_files st" "live_names st" "wf_names st" and c: "can_create env name" "length c < 2 ^ 64"
    and s: "\<not> blocking s" "sent s = []" "incoming s = rest"
  shows "put_inv env c name (snd (strdup_name name st)) (j\<lparr>conn := s, buf := zero_buf, readsz := 0, request := PUT,
    filename := Some (next_name st), state := READ_SIZE\<rparr>) (snd (strdup_name name st))"
proof -
  let ?st = "snd (strdup_name name st)"
  have "live_names ?st" using st(2) by (auto simp: live_names_def strdup_name_def)
  moreover have "wf_files ?st" using st(1) by (simp add: wf_files_def strdup_name_def)
  moreover have "str_at ?st (Some (next_name st)) = OK name" by (simp add: str_at_def strdup_name_def)
  ultimately show ?thesis
    using j c s rest by (simp add: put_inv_def put_base_def header_inv_def zero_buf_def same_others_refl)
qed

lemma handle_event_header:
  assumes j: "header_inv ''PUT'' name rest j" and rest: "rest = size_bytes (of_nat (length c)) @ c"
    and st: "wf_files st" "live_names st" "wf_names st" and c: "can_create env name" "length c < 2 ^ 64"
    and name: "good_name name" and calm: "calm (events (conn j))"
  shows "\<exists>j' st'. handle_event env j st = OK (j', st') \<and>
    (let st0 = snd (strdup_name name st) in
     header_inv ''PUT'' name rest j' \<and> st' = st \<and> \<not> enough j \<or>
     (put_inv env c name st0 j' st' \<or> put_stored c name st0 j' st') \<and> (enough j \<longrightarrow> put_stored c name st0 j' st'))"
proof -
  have put: "verb_of ''PUT'' = PUT" by (simp add: verb_of_def)
  have st_j: "state j = READ_HEADER" "\<not> closed j" using j by (simp_all add: header_inv_def)
  obtain r j1 st1 where run: "read_header j st = OK (r, j1, st1)"
    "r = 1 \<and> header_inv ''PUT'' name rest j1 \<and> st1 = st \<and> \<not> enough j \<or>
     r = 0 \<and> (\<exists>s. j1 = j\<lparr>conn := s, buf := zero_buf, readsz := 0, request := PUT,
           filename := Some (next_name st), state := READ_SIZE\<rparr> \<and>
         \<not> blocking s \<and> calm (events s) \<and> sent s = [] \<and> incoming s = rest) \<and>
       st1 = snd (strdup_name name st) \<and> (enough j \<longrightarrow> enough j1)"
    using read_header_ok [OF j _ name _ calm, of st] put name by (auto simp: good_name_def)
  from run(2) show ?thesis
  proof
    assume "r = 1 \<and> header_inv ''PUT'' name rest j1 \<and> st1 = st \<and> \<not> enough j"
    then show ?thesis using run(1) st_j by (simp add: handle_event_def Let_def)
  next
    assume *: "r = 0 \<and> (\<exists>s. j1 = j\<lparr>conn := s, buf := zero_buf, readsz := 0, request := PUT,
           filename := Some (next_name st), state := READ_SIZE\<rparr> \<and>
         \<not> blocking s \<and> calm (events s) \<and> sent s = [] \<and> incoming s = rest) \<and>
       st1 = snd (strdup_name name st) \<and> (enough j \<longrightarrow> enough j1)"
    then have inv: "put_inv env c name st1 j1 st1" using put_inv_start [OF j rest st c] by blast
    have "calm (events (conn j1))" using * by auto
    from put_ok [OF inv this] obtain q j' st' where put: "put env j1 st1 = OK (q, j', st')"
      "put_inv env c name st1 j' st' \<or> put_stored c name st1 j' st'" "enough j1 \<longrightarrow> put_stored c name st1 j' st'"
      by blast
    have "state j' \<noteq> ERROR" using put(2) put_inv_cases by (auto simp: put_stored_def)
    moreover have "request j1 = PUT" using * by auto
    ultimately have "handle_event env j st = OK (j', st')"
      using run(1) * st_j put(1) by (simp add: handle_event_def handle_request_def)
    then show ?thesis using put(2,3) * by (auto simp: Let_def)
  qed
qed

text \<open>Between events only the future of the connection changes.\<close>

lemma put_inv_events: "put_inv env c name st0 (j\<lparr>conn := (conn j)\<lparr>events := es\<rparr>\<rparr>) st = put_inv env c name st0 j st"
  by (simp add: put_inv_def put_base_def cong: if_cong state_t.case_cong)

lemma put_stored_events:
  "put_stored c name st0 j st \<Longrightarrow> \<exists>j'. handle_events env ess j st = OK (j', st) \<and> put_stored c name st0 j' st"
proof (induction ess arbitrary: j)
  case (Cons es ess)
  have "put_stored c name st0 (j\<lparr>conn := (conn j)\<lparr>events := es\<rparr>\<rparr>) st" using Cons.prems by (simp add: put_stored_def)
  from Cons.IH [OF this] show ?case using Cons.prems by (simp add: handle_event_def put_stored_def)
qed simp

lemma put_events_ok:
  assumes "put_inv env c name st0 j st \<or> put_stored c name st0 j st" "\<forall>es \<in> set ess. calm es"
  shows "\<exists>j' st'. handle_events env ess j st = OK (j', st') \<and>
    (put_inv env c name st0 j' st' \<and> (\<forall>es \<in> set ess. \<not> plenty c es) \<or> put_stored c name st0 j' st')"
  using assms
proof (induction ess arbitrary: j st)
  case (Cons es ess)
  show ?case
  proof (cases "put_stored c name st0 j st")
    case True
    from put_stored_events [OF this, of env "es # ess"] show ?thesis by blast
  next
    case False
    let ?j = "j\<lparr>conn := (conn j)\<lparr>events := es\<rparr>\<rparr>"
    have "put_inv env c name st0 ?j st" using False Cons.prems(1) by (simp add: put_inv_events)
    from handle_event_put [OF this] Cons.prems(2)
    obtain j1 st1 where run: "handle_event env ?j st = OK (j1, st1)"
      "put_inv env c name st0 j1 st1 \<or> put_stored c name st0 j1 st1" "plenty c es \<longrightarrow> put_stored c name st0 j1 st1"
      by auto
    show ?thesis
    proof (cases "put_stored c name st0 j1 st1")
      case True
      from put_stored_events [OF this, of env ess] show ?thesis using run(1) by auto
    next
      case False
      then have "put_inv env c name st0 j1 st1" "\<not> plenty c es" using run(2,3) by auto
      then show ?thesis using Cons.IH [of j1 st1] Cons.prems(2) run(1) by auto
    qed
  qed
qed simp

text \<open>From the first event on.\<close>

lemma header_inv_events: "header_inv v name rest (j\<lparr>conn := (conn j)\<lparr>events := es\<rparr>\<rparr>) = header_inv v name rest j"
  by (simp add: header_inv_def)

lemma header_enough:
  assumes "header_inv ''PUT'' name (size_bytes (of_nat (length c)) @ c) j"
    "smooth (events (conn j))" "length name + length c + 17 \<le> transfers (events (conn j))"
  shows "enough j"
proof -
  have "x @ incoming (conn j) = y \<Longrightarrow> length (incoming (conn j)) \<le> length y" for x y by auto
  from this [of "take (readsz j) (buf j)"] show ?thesis
    using assms by (fastforce simp: header_inv_def enough_def request_line_def)
qed

lemma handle_events_header:
  assumes j: "header_inv ''PUT'' name rest j" and rest: "rest = size_bytes (of_nat (length c)) @ c"
    and st: "wf_files st" "live_names st" "wf_names st" and c: "can_create env name" "length c < 2 ^ 64"
    and name: "good_name name" and calm: "\<forall>es \<in> set ess. calm es"
  defines "st0 \<equiv> snd (strdup_name name st)"
  shows "\<exists>j' st'. handle_events env ess j st = OK (j', st') \<and>
    (header_inv ''PUT'' name rest j' \<and> st' = st \<or> put_inv env c name st0 j' st' \<or> put_stored c name st0 j' st') \<and>
    ((\<exists>es \<in> set ess. smooth es \<and> length name + length c + 17 \<le> transfers es) \<longrightarrow> put_stored c name st0 j' st')"
  using j calm
proof (induction ess arbitrary: j)
  case (Cons es ess)
  let ?j = "j\<lparr>conn := (conn j)\<lparr>events := es\<rparr>\<rparr>"
  have h: "header_inv ''PUT'' name rest ?j" using Cons.prems(1) by (simp add: header_inv_events)
  have big: "smooth es \<and> length name + length c + 17 \<le> transfers es \<Longrightarrow> enough ?j"
    using header_enough [of name c ?j] h rest by simp
  have plenty: "smooth es \<and> length name + length c + 17 \<le> transfers es \<Longrightarrow> plenty c es" for es
    by (simp add: plenty_def)
  obtain j1 st1 where run: "handle_event env ?j st = OK (j1, st1)"
    "header_inv ''PUT'' name rest j1 \<and> st1 = st \<and> \<not> enough ?j \<or>
     (put_inv env c name st0 j1 st1 \<or> put_stored c name st0 j1 st1) \<and> (enough ?j \<longrightarrow> put_stored c name st0 j1 st1)"
    using handle_event_header [OF h rest st c name] Cons.prems(2) by (auto simp: st0_def Let_def)
  from run(2) show ?case
  proof
    assume *: "header_inv ''PUT'' name rest j1 \<and> st1 = st \<and> \<not> enough ?j"
    then show ?thesis using Cons.IH [of j1] Cons.prems(2) run(1) big by auto
  next
    assume *: "(put_inv env c name st0 j1 st1 \<or> put_stored c name st0 j1 st1) \<and> (enough ?j \<longrightarrow> put_stored c name st0 j1 st1)"
    show ?thesis
    proof (cases "put_stored c name st0 j1 st1")
      case True
      from put_stored_events [OF this, of env ess] show ?thesis using run(1) by auto
    next
      case False
      obtain j' st' where "handle_events env ess j1 st1 = OK (j', st')"
        "put_inv env c name st0 j' st' \<and> (\<forall>es \<in> set ess. \<not> plenty c es) \<or> put_stored c name st0 j' st'"
        using put_events_ok [of env c name st0 j1 st1 ess] * Cons.prems(2) by auto
      then show ?thesis using run(1) * False big plenty by auto
    qed
  qed
qed auto

subsection \<open>All events of a connection\<close>

lemma put_any_chunks:
  assumes st: "wf_files st" "live_names st" "wf_names st" and c: "can_create env name" "length c < 2 ^ 64"
    and name: "good_name name" and calm: "\<forall>es \<in> set ess. calm es"
    and s: "\<not> blocking s" "sent s = []" "incoming s = request_line ''PUT'' name @ size_bytes (of_nat (length c)) @ c"
  shows "\<exists>j' st'. handle_events env ess (init_job s) st = OK (j', st') \<and>
    (\<forall>n. n \<noteq> name \<longrightarrow> file_at st' n = file_at st n) \<and>
    (if closed j' then file_at st' name = Some c \<and> sent (conn j') = ''OK'' @ [NL] \<and>
       (\<exists>a. names st' a = Some name \<and> file_list st' = with_name st name a)
     else \<not> (\<exists>es \<in> set ess. smooth es \<and> length name + length c + 17 \<le> transfers es))"
proof -
  let ?st0 = "snd (strdup_name name st)" and ?rest = "size_bytes (of_nat (length c)) @ c"
  have h: "header_inv ''PUT'' name ?rest (init_job s)"
    using s by (simp add: header_inv_def init_job_def zero_buf_def)
  obtain j' st' where run: "handle_events env ess (init_job s) st = OK (j', st')"
    "header_inv ''PUT'' name ?rest j' \<and> st' = st \<or> put_inv env c name ?st0 j' st' \<or> put_stored c name ?st0 j' st'"
    "(\<exists>es \<in> set ess. smooth es \<and> length name + length c + 17 \<le> transfers es) \<longrightarrow> put_stored c name ?st0 j' st'"
    using handle_events_header [OF h refl st c name calm] by blast
  have f0: "file_at ?st0 = file_at st" by (simp add: strdup_name_def file_at_def fun_eq_iff)
  have same: "same_others name ?st0 (st'\<lparr>file_list := fl\<rparr>) \<Longrightarrow> n \<noteq> name \<Longrightarrow> file_at st' n = file_at st n" for n fl
    using f0 by (simp add: same_others_def file_at_def)
  have others: "n \<noteq> name \<Longrightarrow> file_at st' n = file_at st n" for n
    using run(2) same [of "file_list st'" n] same [of "file_list ?st0" n]
    by (auto simp: put_inv_def put_stored_def split: if_splits)
  have wn: "with_name ?st0 name a = with_name st name a" for a
  proof -
    have "names ?st0 b = names st b" if "b \<in> set (file_list st)" for b
      using that st(2,3) by (auto simp: strdup_name_def live_names_def wf_names_def)
    then have "(\<lambda>b. the (names ?st0 b)) ` set (file_list st) = (\<lambda>b. the (names st b)) ` set (file_list st)"
      by (intro image_cong) simp_all
    moreover have "file_list ?st0 = file_list st" by (simp add: strdup_name_def)
    ultimately show ?thesis unfolding with_name_def by simp
  qed
  show ?thesis
  proof (cases "closed j'")
    case True
    then have "put_stored c name ?st0 j' st'"
      using run(2) put_inv_cases by (auto simp: header_inv_def)
    moreover from this obtain a where "filename j' = Some a" "names ?st0 a = Some name"
      by (auto simp: put_stored_def str_at_def split: option.splits)
    ultimately show ?thesis using run(1) others True wn by (auto simp: put_stored_def same_others_def)
  next
    case False
    then show ?thesis using run(1,3) others by (auto simp: put_stored_def)
  qed
qed

lemma put_stores_request:
  assumes "wf_files st" "live_names st" "wf_names st" "can_create env name" "length c < 2 ^ 64" "good_name name"
    and "\<forall>es \<in> set ess. calm es" "\<exists>es \<in> set ess. smooth es \<and> length name + length c + 17 \<le> transfers es"
    and "\<not> blocking s" "sent s = []" "incoming s = request_line ''PUT'' name @ size_bytes (of_nat (length c)) @ c"
  shows "\<exists>j' st'. handle_events env ess (init_job s) st = OK (j', st') \<and> closed j' \<and> sent (conn j') = ''OK'' @ [NL] \<and>
    file_at st' name = Some c \<and> (\<forall>n. n \<noteq> name \<longrightarrow> file_at st' n = file_at st n)"
  using put_any_chunks [OF assms(1-7,9-11)] assms(8) by (auto split: if_splits)

section \<open>Properties\<close>

text \<open>
  C9: a client sends a PUT request with a name of at most 255 characters and any content. In
  whatever pieces the bytes arrive and however often the connection would block in between, no
  fault occurs and no other file changes, and when one event lets everything through, the file
  holds exactly the content, its name is listed once more only if it was not listed, and the
  answer is OK.
\<close>

theorem put_any_chunking:
  assumes st: "wf_files st" "live_names st" "wf_names st" and c: "can_create env name" "length c < 2 ^ 64"
    and name: "good_name name" and calm: "\<forall>es \<in> set ess. calm es"
    and s: "\<not> blocking s" "sent s = []" "incoming s = request_line ''PUT'' name @ size_bytes (of_nat (length c)) @ c"
  shows "\<exists>j' st'. handle_events env ess (init_job s) st = OK (j', st') \<and>
    (\<forall>n. n \<noteq> name \<longrightarrow> file_at st' n = file_at st n) \<and>
    (if closed j' then file_at st' name = Some c \<and> sent (conn j') = ''OK'' @ [NL] \<and>
       (\<exists>a. names st' a = Some name \<and> file_list st' = with_name st name a)
     else \<not> (\<exists>es \<in> set ess. smooth es \<and> length name + length c + 17 \<le> transfers es))"
  by (rule put_any_chunks [OF assms])

definition empty_server :: server where
  "empty_server = \<lparr>names = Map.empty, next_name = 1, file_list = [], dir = Map.empty,
     contents = (\<lambda>_. []), next_inode = 0\<rparr>"

text \<open>A request whose line, size and data arrive in pieces over three events.\<close>

theorem put_any_chunking_witness:
  "let env = \<lparr>err_text = (\<lambda>_. ''no''), can_create = (\<lambda>_. True)\<rparr>;
       s = \<lparr>blocking = False, events = [], incoming = request_line ''PUT'' ''a'' @ size_bytes 2 @ ''hi'', sent = []\<rparr>
   in \<exists>j' st'. handle_events env [[Xfer 1, Xfer 1, Err EINTR], replicate 8 (Xfer 1), replicate 25 (Xfer 1)]
       (init_job s) empty_server = OK (j', st') \<and> closed j' \<and> file_at st' ''a'' = Some ''hi''"
proof -
  let ?env = "\<lparr>err_text = (\<lambda>_. ''no''), can_create = (\<lambda>_. True)\<rparr>"
  let ?s = "\<lparr>blocking = False, events = [], incoming = request_line ''PUT'' ''a'' @ size_bytes 2 @ ''hi'', sent = []\<rparr>"
  let ?ess = "[[Xfer 1, Xfer 1, Err EINTR], replicate 8 (Xfer 1), replicate 25 (Xfer 1)]"
  have p: "wf_files empty_server" "live_names empty_server" "wf_names empty_server" "can_create ?env ''a''"
    "length ''hi'' < 2 ^ 64" "good_name ''a''" "\<forall>es \<in> set ?ess. calm es" "\<not> blocking ?s" "sent ?s = []"
    "incoming ?s = request_line ''PUT'' ''a'' @ size_bytes (of_nat (length ''hi'')) @ ''hi''"
    by (simp_all add: empty_server_def wf_files_def live_names_def wf_names_def good_name_def NUL_def NL_def calm_def)
  have "smooth (replicate 25 (Xfer 1)) \<and> length ''a'' + length ''hi'' + 17 \<le> transfers (replicate 25 (Xfer 1))"
    by (simp add: smooth_def)
  then have "\<exists>es \<in> set ?ess. smooth es \<and> length ''a'' + length ''hi'' + 17 \<le> transfers es" by auto
  with put_any_chunking [OF p] show ?thesis unfolding Let_def by (auto split: if_splits)
qed

end
