(* ===== verification/Net_Answers.thy ===== *)
theory Net_Answers
  imports Net_Put
begin

text \<open>
  GET, LIST and DELETE. When nothing blocks GET answers with the whole file. When the
  connection blocks before the first byte of a block GET loses that block and never ends, and
  LIST sends from a buffer it has not filled. DELETE uses freed names unless the file is the
  last one listed, and an error message that does not go out at once frees the name twice.
\<close>

section \<open>Lemmas\<close>

lemma nonblock_Some [simp]: "nonblock (Some x) = OK x"
  by (simp add: nonblock_def)

lemma writer_whole:
  "events s = Xfer (length b) # es \<Longrightarrow> b \<noteq> [] \<Longrightarrow>
     writer b s = Some (0, length b, s\<lparr>events := es, sent := sent s @ b\<rparr>)"
  by (subst writer.simps) (simp add: sys_write_def, subst writer.simps, simp)

lemma writer_blocked: "events s = [] \<Longrightarrow> \<not> blocking s \<Longrightarrow> b \<noteq> [] \<Longrightarrow> writer b s = Some (1, 0, s)"
  by (subst writer.simps) (simp add: sys_write_def)

text \<open>The response and the size go out in one go when nothing blocks.\<close>

lemma respond_smooth:
  assumes "state j = WRITE_RESPONSE" "request j = GET \<or> request j = LIST" "writesz j = 0"
    "smooth (events (conn j))" "11 \<le> transfers (events (conn j))"
  shows "\<exists>s. respond j = OK (0, j\<lparr>conn := s, state := if filesize j = 0 then DONE else WRITE_DATA\<rparr>) \<and>
    sent s = sent (conn j) @ (''OK'' @ [NL]) @ size_bytes (filesize j) \<and> smooth (events s) \<and>
    transfers (events (conn j)) \<le> transfers (events s) + 11 \<and> incoming s = incoming (conn j)"
proof -
  obtain s1 where s1: "writer (''OK'' @ [NL]) (conn j) = Some (0, 3, s1)" "sent s1 = sent (conn j) @ ''OK'' @ [NL]"
    "smooth (events s1)" "incoming s1 = incoming (conn j)" "transfers (events (conn j)) \<le> transfers (events s1) + 3"
    using writer_smooth [OF assms(4), of "''OK'' @ [NL]"] assms(5) by auto
  obtain s2 where s2: "writer (size_bytes (filesize j)) s1 = Some (0, 8, s2)" "sent s2 = sent s1 @ size_bytes (filesize j)"
    "smooth (events s2)" "incoming s2 = incoming s1" "transfers (events s1) \<le> transfers (events s2) + 8"
    using writer_smooth [OF s1(3), of "size_bytes (filesize j)"] s1(5) assms(5) by auto
  have "j\<lparr>conn := s1, writesz := 3, writesz := 0, state := WRITE_SIZE, conn := s2, writesz := 8, writesz := 0, state := x\<rparr> =
      j\<lparr>conn := s2, state := x\<rparr>" for x
    using assms(3) by (cases j) simp
  then have "respond j = OK (0, j\<lparr>conn := s2, state := if filesize j = 0 then DONE else WRITE_DATA\<rparr>)"
    using assms(1-3) s1(1) s2(1) by (auto simp: respond_def write_response_def write_size_def Let_def)
  then show ?thesis using s1 s2 by auto
qed

text \<open>The blocks of the file follow, when nothing blocks.\<close>

lemma get_data_smooth:
  assumes "state j = WRITE_DATA" "writesz j = 0" "length (buf j) = 1024" "filefd j = Some (i, datasz j)"
    "unat (filesize j) = length (contents st i)" "datasz j < length (contents st i)"
    "smooth (events (conn j))" "length (contents st i) - datasz j \<le> transfers (events (conn j))"
  shows "\<exists>j'. get_data j st = Some (OK (0, j')) \<and> sent (conn j') = sent (conn j) @ drop (datasz j) (contents st i) \<and>
    state j' = DONE"
  using assms
proof (induction "length (contents st i) - datasz j" arbitrary: j rule: less_induct)
  case less
  let ?c = "contents st i" and ?d = "take 1024 (drop (datasz j) (contents st i))"
  have d: "0 < length ?d" "length ?d \<le> 1024" "length ?d \<le> length ?c - datasz j" using less.prems(6) by simp_all
  let ?b = "overwrite (buf j) 0 ?d"
  have b: "take (length ?d) ?b = ?d" "length ?b = 1024"
    using take_overwrite [of 0 ?d "buf j"] less.prems(3) by simp_all
  obtain s where s: "writer ?d (conn j) = Some (0, length ?d, s)" "sent s = sent (conn j) @ ?d" "smooth (events s)"
    "transfers (events (conn j)) \<le> transfers (events s) + length ?d"
    using writer_smooth [OF less.prems(7), of ?d] d(3) less.prems(8) by (meson le_trans)
  let ?j = "j\<lparr>filefd := Some (i, datasz j + length ?d), readsz := length ?d, conn := s,
    datasz := datasz j + length ?d, writesz := 0, buf := zero_buf\<rparr>"
  have step: "get_data j st = get_data (if length ?c \<le> datasz j + length ?d then ?j\<lparr>state := DONE\<rparr> else ?j) st"
    using less.prems(1,2,4,5) s(1) b
    by (subst get_data.simps) (simp add: next_block_def Let_def del: take_drop length_take)
  show ?case
  proof (cases "length ?c \<le> datasz j + length ?d")
    case True
    then have "?d = drop (datasz j) ?c" by simp
    moreover have "get_data (?j\<lparr>state := DONE\<rparr>) st = Some (OK (0, ?j\<lparr>state := DONE\<rparr>))"
      by (subst get_data.simps) simp
    ultimately show ?thesis using step True s(2) by simp
  next
    case False
    then have d': "length ?d = 1024" by auto
    then have more: "datasz j + 1024 < length ?c" using False by simp
    have tr: "length ?c - (datasz j + 1024) \<le> transfers (events s)"
      using s(4) less.prems(8) unfolding d' by linarith
    have "length ?c - (datasz j + 1024) < length ?c - datasz j" using more by linarith
    then obtain j' where j': "get_data ?j st = Some (OK (0, j'))" "state j' = DONE"
      "sent (conn j') = sent s @ drop (datasz j + 1024) ?c"
      using less.hyps [of ?j] less.prems(1,5) s(3) more tr unfolding d' by (auto simp: zero_buf_def)
    have "?d @ drop (datasz j + 1024) ?c = drop (datasz j) ?c"
      by (metis append_take_drop_id drop_drop add.commute)
    moreover have "get_data j st = get_data ?j st" using step False by (simp only: if_False)
    ultimately show ?thesis using j' s(2) by (metis append.assoc)
  qed
qed


text \<open>At the end of the file with bytes still owed the loop runs on the spot.\<close>

lemma get_data_stuck:
  assumes "state j = WRITE_DATA" "writesz j = 0" "filefd j = Some (i, pos)" "length (contents st i) \<le> pos"
    "datasz j < unat (filesize j)"
  shows "get_data j st = None"
proof -
  have "\<not> (state j = WRITE_DATA \<and> writesz j = 0 \<and> (\<exists>i pos. filefd j = Some (i, pos) \<and> length (contents st i) \<le> pos) \<and>
        datasz j < unat (filesize j))" if "get_data j st = Some r" for r
    using that
  proof (induction rule: get_data.raw_induct [rotated, consumes 1, case_names 1])
    case (1 get_data j st r)
    show ?case
    proof
      assume *: "state j = WRITE_DATA \<and> writesz j = 0 \<and>
        (\<exists>i pos. filefd j = Some (i, pos) \<and> length (contents st i) \<le> pos) \<and> datasz j < unat (filesize j)"
      then obtain i pos where f: "filefd j = Some (i, pos)" "length (contents st i) \<le> pos" by blast
      have "writer [] s = Some (0, 0, s)" for s by (subst writer.simps) simp
      with * f 1(2) have "get_data (j\<lparr>filefd := Some (i, pos), readsz := 0, writesz := 0, buf := zero_buf\<rparr>) st = Some r"
        by (simp add: next_block_def Let_def overwrite_def)
      from 1(1) [OF this] * f show False by auto
    qed
  qed
  then show ?thesis using assms by (metis option.exhaust)
qed

text \<open>The loop of DELETE passes the other names and then frees the two with the name.\<close>

lemma erase_name_skip:
  assumes "file_list st = as @ a # bs" "names st q = Some name"
    "\<forall>b \<in> set as. names st b \<noteq> None \<and> names st b \<noteq> Some name"
  shows "i \<le> length as \<Longrightarrow> erase_name i (Some q) st = erase_name (length as) (Some q) st"
proof (induction "length as - i" arbitrary: i)
  case (Suc d)
  then have i: "i < length as" by simp
  then have "as ! i \<in> set as" by simp
  with assms(3) obtain s where s: "names st (as ! i) = Some s" "s \<noteq> name" by (cases "names st (as ! i)") auto
  have "erase_name i (Some q) st = erase_name (i + 1) (Some q) st"
    using i s assms(1,2) by (subst erase_name.simps) (simp add: nth_append str_at_def)
  then show ?case using Suc.hyps(1) [of "i + 1"] Suc.hyps(2) i by simp
qed simp

lemma erase_name_found:
  assumes "file_list st = as @ a # bs" "names st q = Some name" "names st a = Some name" "a \<noteq> q"
    "\<forall>b \<in> set as. names st b \<noteq> None \<and> names st b \<noteq> Some name"
    "\<forall>b \<in> set bs. names st b \<noteq> None \<and> b \<noteq> a \<and> b \<noteq> q"
  shows "erase_name 0 (Some q) st = (if length bs \<le> 1
     then OK (st\<lparr>names := (names st)(q := None, a := None), file_list := as @ bs\<rparr>) else Fault Use_After_Free)"
proof -
  let ?st = "st\<lparr>names := (names st)(q := None, a := None), file_list := as @ bs\<rparr>"
  have "erase_name 0 (Some q) st = erase_name (length as) (Some q) st"
    by (rule erase_name_skip [OF assms(1,2,5)]) simp
  also have "\<dots> = erase_name (length as + 1) (Some q) ?st"
    using assms(1-4) by (subst erase_name.simps) (simp add: nth_append str_at_def free_str_def)
  also have "\<dots> = (if length bs \<le> 1 then OK ?st else Fault Use_After_Free)"
  proof (cases "length bs \<le> 1")
    case False
    then obtain b c bs' where bs: "bs = b # c # bs'" by (cases bs rule: list.exhaust; cases "tl bs") auto
    then obtain s where "names st c = Some s" "c \<noteq> a" "c \<noteq> q" using assms(6) by auto
    then show ?thesis using bs by (subst erase_name.simps) (simp add: nth_append str_at_def)
  qed (subst erase_name.simps, simp)
  finally show ?thesis .
qed

section \<open>Properties\<close>

text \<open>
  C11: when nothing blocks, a GET of an existing file answers with OK, the size and exactly the
  content of the file, closes the connection and changes nothing.
\<close>

theorem get_sends_file:
  assumes "request j = GET" "state j = SERVING" "writesz j = 0" "datasz j = 0" "length (buf j) = 1024"
    "str_at st (filename j) = OK name" "file_at st name = Some c" "length c < 2 ^ 64" "sent (conn j) = []"
    "smooth (events (conn j))" "length c + 11 \<le> transfers (events (conn j))" "\<not> closed j"
  shows "\<exists>j'. handle_event env j st = OK (j', st) \<and> closed j' \<and>
    sent (conn j') = ''OK'' @ [NL] @ size_bytes (of_nat (length c)) @ c"
proof -
  obtain i where i: "dir st name = Some i" "contents st i = c" using assms(7) by (auto simp: file_at_def)
  obtain a where a: "filename j = Some a" using assms(6) by (cases "filename j") (simp_all add: str_at_def)
  let ?w = "of_nat (length c) :: size_t"
  let ?j = "j\<lparr>filefd := Some (i, 0), filesize := ?w, state := WRITE_RESPONSE\<rparr>"
  have open1: "get_serving j st = OK (True, ?j)"
    using a assms(6) i by (simp add: get_serving_def openfile_def)
  obtain s where s: "respond ?j = OK (0, ?j\<lparr>conn := s, state := if ?w = 0 then DONE else WRITE_DATA\<rparr>)"
    "sent s = ''OK'' @ [NL] @ size_bytes ?w" "smooth (events s)"
    "transfers (events (conn j)) \<le> transfers (events s) + 11"
    using respond_smooth [of ?j] assms by auto
  let ?k = "?j\<lparr>conn := s, state := if ?w = 0 then DONE else WRITE_DATA\<rparr>"
  have u: "unat ?w = length c" using assms(8) by (rule unat_of_nat_size_t)
  have "\<exists>j'. get_data ?k st = Some (OK (0, j')) \<and> sent (conn j') = sent s @ c \<and> state j' = DONE"
  proof (cases "c = []")
    case True
    then show ?thesis by (subst get_data.simps) simp
  next
    case False
    then have "?w \<noteq> 0" using u by (metis length_0_conv unat_0)
    moreover have "length c \<le> transfers (events s)" using s(4) assms(11) by linarith
    ultimately show ?thesis
      using get_data_smooth [of ?k i st] assms(3-5) i(2) u s(3) False by auto
  qed
  then obtain j' where "get_data ?k st = Some (OK (0, j'))" "sent (conn j') = sent s @ c" "state j' = DONE" by blast
  then show ?thesis
    using assms(1,2,12) open1 s(1,2) by (simp add: handle_event_def handle_request_def handle_get_def)
qed

definition plain_env :: env where
  "plain_env = \<lparr>err_text = (\<lambda>_. ''no''), can_create = (\<lambda>_. True)\<rparr>"

definition get_job :: "io_event list \<Rightarrow> job" where
  "get_job es = (init_job \<lparr>blocking = False, events = es, incoming = [], sent = []\<rparr>)
     \<lparr>request := GET, state := SERVING, filename := Some 1\<rparr>"

definition two_files :: server where
  "two_files = \<lparr>names = [1 \<mapsto> ''a'', 2 \<mapsto> ''a'', 3 \<mapsto> ''b''], next_name = 4, file_list = [2, 3],
     dir = [''a'' \<mapsto> 0, ''b'' \<mapsto> 1], contents = (\<lambda>i. if i = 0 then ''hello'' else []), next_inode = 2\<rparr>"

theorem get_sends_file_witness:
  "\<exists>j'. handle_event plain_env (get_job (replicate 16 (Xfer 3))) two_files = OK (j', two_files) \<and>
    sent (conn j') = ''OK'' @ [NL] @ size_bytes 5 @ ''hello''"
proof -
  let ?j = "get_job (replicate 16 (Xfer 3))"
  have "request ?j = GET" "state ?j = SERVING" "writesz ?j = 0" "datasz ?j = 0" "length (buf ?j) = 1024"
    "str_at two_files (filename ?j) = OK ''a''" "file_at two_files ''a'' = Some ''hello''" "length ''hello'' < 2 ^ 64"
    "sent (conn ?j) = []" "smooth (events (conn ?j))" "length ''hello'' + 11 \<le> transfers (events (conn ?j))" "\<not> closed ?j"
    by (simp_all add: get_job_def init_job_def two_files_def str_at_def file_at_def zero_buf_def smooth_def)
  from get_sends_file [OF this, of plain_env] show ?thesis by auto
qed

text \<open>
  When the connection blocks just before the first byte of a block, the block is lost: the
  next event reads on in the file, and with the last block lost the handler never returns.
\<close>

theorem get_loses_block:
  "handle_events env [[Xfer 3, Xfer 8], es] (get_job []) two_files = Fault Nonterminating"
proof -
  let ?d = "''hello''" and ?s = "\<lparr>blocking = False, events = [], incoming = [], sent = ''OK'' @ [NL] @ size_bytes 5\<rparr>"
  let ?j = "(get_job [])\<lparr>conn := ?s, state := WRITE_DATA, filefd := Some (0, 5), filesize := 5,
     buf := overwrite zero_buf 0 ?d, readsz := 5\<rparr>"
  let ?g = "(get_job [Xfer 3, Xfer 8])\<lparr>filefd := Some (0, 0), filesize := 5, state := WRITE_RESPONSE\<rparr>"
  have "get_serving (get_job [Xfer 3, Xfer 8]) two_files = OK (True, ?g)"
    by (simp add: get_serving_def openfile_def str_at_def two_files_def get_job_def)
  moreover have "respond ?g = OK (0, ?g\<lparr>conn := ?s, writesz := 0, state := WRITE_DATA\<rparr>)"
    by (simp add: respond_def write_response_def write_size_def get_job_def init_job_def writer_whole Let_def)
  moreover have "get_data (?g\<lparr>conn := ?s, writesz := 0, state := WRITE_DATA\<rparr>) two_files = Some (OK (1, ?j))"
    by (subst get_data.simps)
      (simp add: next_block_def two_files_def get_job_def init_job_def writer_blocked Let_def overwrite_def zero_buf_def)
  ultimately have "handle_event env ((get_job [])\<lparr>conn := (conn (get_job []))\<lparr>events := [Xfer 3, Xfer 8]\<rparr>\<rparr>) two_files = OK (?j, two_files)"
    by (simp add: handle_event_def handle_request_def handle_get_def get_job_def init_job_def)
  moreover have "get_data (?j\<lparr>conn := (conn ?j)\<lparr>events := es\<rparr>\<rparr>) two_files = None"
    by (rule get_data_stuck [where i = 0 and pos = 5]) (simp_all add: get_job_def init_job_def two_files_def)
  ultimately show ?thesis
    by (simp add: handle_event_def handle_request_def handle_get_def get_job_def init_job_def respond_def returns_def)
qed

text \<open>
  DELETE of a listed file removes the file and its entry and answers OK when at most one
  file is listed behind it; with two or more behind it the comparison after the two names have
  been freed reads freed memory.
\<close>

theorem delete_reads_freed_name:
  assumes j: "request j = DELETE" "state j = SERVING" "writesz j = 0" "filename j = Some q" "sent (conn j) = []"
      "smooth (events (conn j))" "3 \<le> transfers (events (conn j))" "\<not> closed j"
    and st: "file_list st = as @ a # bs" "names st q = Some name" "names st a = Some name" "a \<noteq> q"
      "\<forall>b \<in> set as. names st b \<noteq> None \<and> names st b \<noteq> Some name"
      "\<forall>b \<in> set bs. names st b \<noteq> None \<and> b \<noteq> a \<and> b \<noteq> q" "file_at st name \<noteq> None"
  shows "if length bs \<le> 1
    then \<exists>j' st'. handle_event env j st = OK (j', st') \<and> closed j' \<and> sent (conn j') = ''OK'' @ [NL] \<and>
      file_list st' = as @ bs \<and> file_at st' = (file_at st)(name := None)
    else handle_event env j st = Fault Use_After_Free"
proof -
  obtain i where i: "dir st name = Some i" using st(7) by (cases "dir st name") (auto simp: file_at_def)
  have open1: "openfile j st = OK (Some (i, 0), j)"
    using j(4) st(2) i by (simp add: openfile_def str_at_def)
  obtain s where s: "writer (''OK'' @ [NL]) (conn j) = Some (0, 3, s)" "sent s = ''OK'' @ [NL]"
    using writer_smooth [OF j(6), of "''OK'' @ [NL]"] j(5,7) by auto
  let ?st = "remove_file name st"
  have e: "erase_name 0 (Some q) ?st = (if length bs \<le> 1
     then OK (?st\<lparr>names := (names st)(q := None, a := None), file_list := as @ bs\<rparr>) else Fault Use_After_Free)"
    using erase_name_found [of ?st as a bs q name] st by (simp add: remove_file_def)
  have "file_at (?st\<lparr>names := (names st)(q := None, a := None), file_list := as @ bs\<rparr>) = (file_at st)(name := None)"
    by (simp add: file_at_def remove_file_def fun_eq_iff)
  then show ?thesis
    using j open1 s e st(2)
    by (simp add: handle_event_def handle_request_def handle_delete_def str_at_def write_response_def Let_def)
qed

definition delete_job :: job where
  "delete_job = (init_job \<lparr>blocking = False, events = [Xfer 3, Xfer 3, Xfer 3], incoming = [], sent = []\<rparr>)
     \<lparr>request := DELETE, state := SERVING, filename := Some 1\<rparr>"

definition three_files :: server where
  "three_files = two_files\<lparr>names := [1 \<mapsto> ''a'', 2 \<mapsto> ''a'', 3 \<mapsto> ''b'', 4 \<mapsto> ''c''], file_list := [2, 3, 4]\<rparr>"

theorem delete_reads_freed_name_witness:
  "handle_event plain_env delete_job three_files = Fault Use_After_Free"
proof -
  have p: "request delete_job = DELETE" "state delete_job = SERVING" "writesz delete_job = 0"
    "filename delete_job = Some 1" "sent (conn delete_job) = []" "smooth (events (conn delete_job))"
    "3 \<le> transfers (events (conn delete_job))" "\<not> closed delete_job"
    "file_list three_files = [] @ 2 # [3, 4]" "names three_files 1 = Some ''a''" "names three_files 2 = Some ''a''" "2 \<noteq> (1::nat)"
    "\<forall>b \<in> set []. names three_files b \<noteq> None \<and> names three_files b \<noteq> Some ''a''"
    "\<forall>b \<in> set [3, 4]. names three_files b \<noteq> None \<and> b \<noteq> 2 \<and> b \<noteq> 1" "file_at three_files ''a'' \<noteq> None"
    by (simp_all add: delete_job_def init_job_def three_files_def two_files_def file_at_def)
  from delete_reads_freed_name [OF p, of plain_env] show ?thesis by simp
qed

text \<open>
  When an error message cannot be sent at once, the next event frees the name of the
  request again, whatever the message and the request are.
\<close>

theorem write_err_frees_twice:
  assumes "state j = ERROR" "\<not> closed j" "filename j = Some a" "names st a \<noteq> None" "errmsg j \<noteq> None"
    "\<not> blocking (conn j)" "writesz j = 0"
  shows "handle_events env [[], es] j st = Fault Use_After_Free"
proof -
  obtain e where e: "errmsg j = Some e" using assms(5) by auto
  let ?s = "(conn j)\<lparr>events := []\<rparr>"
  have w: "writer (''ERROR'' @ [NL] @ err_text env e) ?s = Some (1, 0, ?s)"
    by (rule writer_blocked) (simp_all add: assms(6))
  have req: "handle_request env j' st' = OK (0, j', st')" if "state j' = ERROR" for j' st'
    using that by (simp add: handle_request_def put_def list_files_def handle_delete_def handle_get_def)
  have "handle_event env (j\<lparr>conn := ?s\<rparr>) st = OK (j\<lparr>conn := ?s, writesz := 0\<rparr>, st\<lparr>names := (names st)(a := None)\<rparr>)"
    using assms e w req by (simp add: handle_event_def write_err_def free_str_def)
  then show ?thesis
    using assms req by (simp add: handle_event_def write_err_def free_str_def)
qed

theorem write_err_frees_twice_witness:
  "handle_events plain_env [[], []] ((get_job [])\<lparr>state := ERROR, errmsg := Some err_no_such_file\<rparr>) two_files = Fault Use_After_Free"
  by (rule write_err_frees_twice [where a = 1]) (simp_all add: get_job_def init_job_def two_files_def)

lemma list_data_unfilled:
  assumes "state j = WRITE_DATA" "request j = LIST" "\<not> closed j"
  shows "handle_event env j st = Fault Uninit_Read"
  using assms by (simp add: handle_event_def handle_request_def list_files_def respond_def list_data.simps)

definition list_job :: "io_event list \<Rightarrow> job" where
  "list_job es = (init_job \<lparr>blocking = False, events = es, incoming = [], sent = []\<rparr>)\<lparr>request := LIST, state := SERVING\<rparr>"

text \<open>
  When a LIST is interrupted after the size has been sent, the next event sends from a buffer
  that was never filled.
\<close>

theorem list_sends_uninitialised:
  "handle_events env [[Xfer 3, Xfer 8], es] (list_job []) two_files = Fault Uninit_Read"
proof -
  let ?s = "\<lparr>blocking = False, events = [], incoming = [], sent = ''OK'' @ [NL] @ size_bytes 3\<rparr>"
  let ?g = "(list_job [Xfer 3, Xfer 8])\<lparr>state := WRITE_RESPONSE, filesize := 3\<rparr>"
  let ?j = "?g\<lparr>conn := ?s, writesz := 0, state := WRITE_DATA\<rparr>"
  have "list_serving (list_job [Xfer 3, Xfer 8]) two_files = OK (Some (''a'' @ [NL] @ ''b''), ?g)"
    by (simp add: list_serving_def str_at_def two_files_def list_job_def)
  moreover have "respond ?g = OK (0, ?j)"
    by (simp add: respond_def write_response_def write_size_def list_job_def init_job_def writer_whole Let_def)
  moreover have "list_data (Some (''a'' @ [NL] @ ''b'')) ?j = Some (OK (1, ?j))"
    by (subst list_data.simps) (simp add: list_job_def init_job_def writer_blocked Let_def)
  ultimately have "handle_event env ((list_job [])\<lparr>conn := (conn (list_job []))\<lparr>events := [Xfer 3, Xfer 8]\<rparr>\<rparr>) two_files =
      OK (?j, two_files)"
    by (simp add: handle_event_def handle_request_def list_files_def list_job_def init_job_def)
  moreover have "handle_event env (?j\<lparr>conn := (conn ?j)\<lparr>events := es\<rparr>\<rparr>) two_files = Fault Uninit_Read"
    by (rule list_data_unfilled) (simp_all add: list_job_def init_job_def)
  ultimately show ?thesis by simp
qed

end
