(* ===== verification/Net_Client.thy ===== *)
theory Net_Client
  imports Net_Answers Ctype
begin

text \<open>
  The client, \<open>nonstop_networking/client.c\<close>: its arguments and its four requests over a connected
  socket. On a connection that keeps moving, a GET stores exactly the file that is sent and a
  PUT sends exactly what the server of Net_Server stores.
\<close>

section \<open>The model\<close>

text \<open>
  A call that has not returned is \<open>None\<close>; one that has returned ended with a fault, which an
  \<open>exit\<close> is, or with a value. What is printed for the user is left out, but for the listing.
\<close>

type_synonym 'a call = "'a res option"

definition bindC :: "'a call \<Rightarrow> ('a \<Rightarrow> 'b call) \<Rightarrow> 'b call" where
  "bindC m f = Option.bind m (\<lambda>r. case r of Inl e \<Rightarrow> Some (Inl e) | Inr x \<Rightarrow> f x)"

record client =
  server_socket :: socket
  local_files :: "string \<rightharpoonup> string"
  stdout :: string

record client_env =
  creatable :: "string \<Rightarrow> bool"
  shutdown_fails :: bool

text \<open>\<open>a\<close> is the character buffer, which a read of no bytes leaves as it is.\<close>

partial_function (option) header_loop :: "socket \<Rightarrow> char option \<Rightarrow> string \<Rightarrow> (string \<times> socket) res option" where
  "header_loop s a header = Option.bind (read_all 1 s) (\<lambda>(sz, got, s).
     if sz = -1 then Some (Fault (Exit 1))
     else let a = (if got = [] then a else Some (hd got)) in
       if a = None then Some (Fault Uninit_Read)
       else if the a \<noteq> NL then header_loop s a (header @ [the a])
       else Some (OK (header @ [the a], s)))"

definition get_response_header :: "socket \<Rightarrow> (string \<times> socket) call" where
  "get_response_header s = map_option (\<lambda>r. bindE r (\<lambda>(header, s). OK (cstr header, s))) (header_loop s None [])"

definition process_response :: "string \<Rightarrow> socket \<Rightarrow> socket call" where
  "process_response str s = (if str = ''ERROR'' @ [NL] then
       bindC (get_response_header s) (\<lambda>_. Some (Fault (Exit 10)))
     else if str \<noteq> ''OK'' @ [NL] then Some (Fault (Exit 11))
     else Some (OK s))"

text \<open>The request is sent, the sending side closed, and the header of the answer read.\<close>

definition send_request :: "string \<Rightarrow> socket \<Rightarrow> socket call" where
  "send_request str s = (case write_all str s of None \<Rightarrow> None
     | Some (cnt, s) \<Rightarrow> Some (if cnt = -1 then Fault (Exit 1) else OK s))"

definition read_answer :: "client_env \<Rightarrow> socket \<Rightarrow> socket call" where
  "read_answer e s = (if shutdown_fails e then Some (Fault (Exit 3))
     else bindC (get_response_header s) (\<lambda>(header, s). process_response header s))"

text \<open>
  The loop that reads what was announced, in pieces of up to 1024 bytes. A failed read is a
  size of 2^64 - 1, with which \<open>write_all\<close> leaves the buffer. It gives all bytes it has read.
\<close>

partial_function (option) receive :: "size_t \<Rightarrow> size_t \<Rightarrow> string \<Rightarrow> socket \<Rightarrow> (size_t \<times> string \<times> socket) res option" where
  "receive rsize read_count data s = (if read_count < rsize then
     Option.bind (read_all 1024 s) (\<lambda>(r, got, s).
       if r = 0 then Some (Fault (Exit 1))
       else if r = -1 then Some (Fault Out_Of_Bounds)
       else receive rsize (read_count + of_int r) (data @ got) s)
   else Some (OK (read_count, data, s)))"

definition nothing_left :: "size_t \<Rightarrow> size_t \<Rightarrow> socket \<Rightarrow> socket call" where
  "nothing_left rsize read_count s = (if rsize < read_count then Some (Fault (Exit 1))
     else case read_all 1024 s of None \<Rightarrow> None
     | Some (r, got, s) \<Rightarrow> Some (if 0 < r then Fault (Exit 1) else OK s))"

definition read_size :: "socket \<Rightarrow> (size_t \<times> socket) call" where
  "read_size s = (case read_message_size s of None \<Rightarrow> None
     | Some (r, s) \<Rightarrow> Some (bindE r (\<lambda>n. OK (of_int n, s))))"

definition client_get :: "client_env \<Rightarrow> string \<Rightarrow> string \<Rightarrow> client \<Rightarrow> client call" where
  "client_get e remote localname c = (
     let c = (if creatable e localname then c\<lparr>local_files := (local_files c)(localname \<mapsto> [])\<rparr> else c) in
     bindC (send_request (''GET '' @ remote @ [NL]) (server_socket c)) (\<lambda>s.
     bindC (read_answer e s) (\<lambda>s.
     bindC (read_size s) (\<lambda>(rsize, s).
     bindC (receive rsize 0 [] s) (\<lambda>(read_count, data, s).
     bindC (nothing_left rsize read_count s) (\<lambda>s.
       Some (OK (c\<lparr>server_socket := s, local_files := (if creatable e localname
         then (local_files c)(localname \<mapsto> data) else local_files c)\<rparr>))))))))"

text \<open>The loop of PUT: \<open>available\<close> was read from the file, of which \<open>rest\<close> is still to come.\<close>

partial_function (option) send_file :: "size_t \<Rightarrow> size_t \<Rightarrow> string \<Rightarrow> string \<Rightarrow> socket \<Rightarrow> socket res option" where
  "send_file wsize write_count available rest s = (if write_count < wsize then
     Option.bind (write_all available s) (\<lambda>(written, s).
       send_file wsize (write_count + of_int written) (take 1024 rest) (drop 1024 rest) s)
   else Some (OK s))"

definition client_put :: "client_env \<Rightarrow> string \<Rightarrow> string \<Rightarrow> client \<Rightarrow> client call" where
  "client_put e remote localname c =
     bindC (send_request (''PUT '' @ remote @ [NL]) (server_socket c)) (\<lambda>s.
     case local_files c localname of None \<Rightarrow> Some (Fault (Exit 1)) | Some content \<Rightarrow>
       let wsize = of_nat (length content) in
       bindC (send_request (size_bytes wsize) s) (\<lambda>s.
       bindC (send_file wsize 0 (take 1024 content) (drop 1024 content) s) (\<lambda>s.
       bindC (read_answer e s) (\<lambda>s. Some (OK (c\<lparr>server_socket := s\<rparr>))))))"

definition client_delete :: "client_env \<Rightarrow> string \<Rightarrow> client \<Rightarrow> client call" where
  "client_delete e remote c =
     bindC (send_request (''DELETE '' @ remote @ [NL]) (server_socket c)) (\<lambda>s.
     bindC (read_answer e s) (\<lambda>s. Some (OK (c\<lparr>server_socket := s\<rparr>))))"

text \<open>
  LIST sends six bytes, the last of them the terminator of the string. It compares sizes as
  signed numbers: with a negative one nothing is read and the count is above the size.
\<close>

definition client_list :: "client_env \<Rightarrow> client \<Rightarrow> client call" where
  "client_list e c =
     bindC (send_request (''LIST'' @ [NL, NUL]) (server_socket c)) (\<lambda>s.
     bindC (read_answer e s) (\<lambda>s.
     bindC (read_size s) (\<lambda>(rsize, s).
     if sint rsize < 0 then Some (Fault (Exit 1))
     else bindC (receive rsize 0 [] s) (\<lambda>(read_count, data, s).
     bindC (nothing_left rsize read_count s) (\<lambda>s.
       Some (OK (c\<lparr>server_socket := s, stdout := stdout c @ data @ [NL]\<rparr>)))))))"

subsection \<open>Arguments\<close>

record client_args =
  host :: string
  port :: string
  command :: string
  remote_arg :: "string option"
  local_arg :: "string option"

definition parse_args :: "string list \<Rightarrow> client_args option" where
  "parse_args argv = (if length argv < 3 then None
     else case strtok_all (CHR '':'') (argv ! 1) of
       h # p # _ \<Rightarrow> Some \<lparr>host = h, port = p, command = map toupper (argv ! 2),
         remote_arg = (if 3 < length argv then Some (argv ! 3) else None),
         local_arg = (if 4 < length argv then Some (argv ! 4) else None)\<rparr>
     | _ \<Rightarrow> None)"

definition check_args :: "client_args option \<Rightarrow> verb res" where
  "check_args args = (case args of None \<Rightarrow> Fault (Exit 1) | Some a \<Rightarrow>
     if command a = ''LIST'' then OK LIST
     else if command a = ''GET'' then (if remote_arg a \<noteq> None \<and> local_arg a \<noteq> None then OK GET else Fault (Exit 1))
     else if command a = ''DELETE'' then (if remote_arg a \<noteq> None then OK DELETE else Fault (Exit 1))
     else if command a = ''PUT'' then (if remote_arg a = None \<or> local_arg a = None then Fault (Exit 1) else OK PUT)
     else Fault (Exit 1))"

text \<open>\<open>connect_to_server\<close> gives the socket for a host and a port, or fails.\<close>

definition client_main :: "client_env \<Rightarrow> (string \<Rightarrow> string \<Rightarrow> socket res) \<Rightarrow> string list \<Rightarrow> (string \<rightharpoonup> string) \<Rightarrow> client call" where
  "client_main e connect_to_server argv fs = (let args = parse_args argv in
     bindC (Some (check_args args)) (\<lambda>request.
     bindC (Some (connect_to_server (host (the args)) (port (the args)))) (\<lambda>s.
       let c = \<lparr>server_socket = s, local_files = fs, stdout = []\<rparr>;
           remote = the (remote_arg (the args)); localname = the (local_arg (the args))
       in if request = GET then client_get e remote localname c
          else if request = PUT then client_put e remote localname c
          else if request = DELETE then client_delete e remote c
          else client_list e c)))"

section \<open>Lemmas\<close>

lemma bindC_simps [simp]: "bindC None f = None" "bindC (Some (Inl e)) f = Some (Inl e)" "bindC (Some (Inr x)) f = f x"
  by (simp_all add: bindC_def)

text \<open>A loop that reads up to \<open>n\<close> bytes stops at the end of the stream.\<close>

lemma read_loop_end:
  assumes "smooth (events s)" "length (incoming s) < transfers (events s)" "length (incoming s) < n"
  shows "\<exists>s'. read_loop (length got + n) s got = Some (int (length got + length (incoming s)), got @ incoming s, s') \<and>
    incoming s' = [] \<and> smooth (events s') \<and> sent s' = sent s \<and>
    transfers (events s) \<le> transfers (events s') + length (incoming s) + 1"
  using assms
proof (induction "length (events s)" arbitrary: s n got rule: less_induct)
  case less
  obtain x s1 where x: "sys_read n s = Some (x, s1)"
    using less.prems sys_smooth_Some(1) [of s n] by (cases "sys_read n s") auto
  show ?case
  proof (cases "incoming s = []")
    case True
    obtain e es where e: "events s = e # es" using less.prems(2) by (cases "events s") auto
    show ?thesis
    proof (cases e)
      case (Xfer k)
      then show ?thesis using True e less.prems by (subst read_loop.simps) (simp add: sys_read_def)
    next
      case (Err err)
      then have "err = EINTR" using e less.prems(1) by auto
      moreover have "\<exists>s'. read_loop (length got + n) (s\<lparr>events := es\<rparr>) got = Some (int (length got + 0), got @ [], s') \<and>
          incoming s' = [] \<and> smooth (events s') \<and> sent s' = sent s \<and> transfers (events (s\<lparr>events := es\<rparr>)) \<le> transfers (events s') + 0 + 1"
        using less.hyps [of "s\<lparr>events := es\<rparr>" n got] less.prems e Err True by auto
      ultimately show ?thesis using True e Err less.prems(3)
        by (subst read_loop.simps) (simp add: sys_read_def)
    qed
  next
    case False
    have n: "0 < n" using less.prems(3) by simp
    obtain e es where e: "events s = e # es" using less.prems(2) by (cases "events s") auto
    show ?thesis
    proof (cases e)
      case (Err err)
      then have "err = EINTR" using e less.prems(1) by auto
      then show ?thesis
        using less.hyps [of "s\<lparr>events := es\<rparr>" n got] less.prems e Err n
        by (subst read_loop.simps) (simp add: sys_read_def)
    next
      case (Xfer k)
      let ?d = "take (min k n) (incoming s)" and ?s = "s\<lparr>events := es, incoming := drop (min k n) (incoming s)\<rparr>"
      have k: "0 < k" using e Xfer less.prems(1) by auto
      have pos: "0 < length (incoming s)" using False by simp
      have d: "?d \<noteq> []" "length ?d < n" using k False n less.prems(3) by auto
      have ih: "\<exists>s'. read_loop (length (got @ ?d) + (n - length ?d)) ?s (got @ ?d) =
          Some (int (length (got @ ?d) + length (incoming ?s)), (got @ ?d) @ incoming ?s, s') \<and>
          incoming s' = [] \<and> smooth (events s') \<and> sent s' = sent ?s \<and>
          transfers (events ?s) \<le> transfers (events s') + length (incoming ?s) + 1"
      proof (rule less.hyps)
        show "length (events ?s) < length (events s)" "smooth (events ?s)" using e less.prems(1) by simp_all
        show "length (incoming ?s) < transfers (events ?s)" 
        proof -
          have "0 < min k n" using k n by simp
          moreover have "length (incoming s) < Suc (transfers es)" using less.prems(2) e Xfer by simp
          ultimately have "length (incoming s) - min k n < transfers es" using pos by linarith
          then show ?thesis by simp
        qed
        show "length (incoming ?s) < n - length ?d" using less.prems(3) by auto
      qed
      have eq: "length (got @ ?d) + (n - length ?d) = length got + n" using d(2) by simp
      have split: "?d @ incoming ?s = incoming s" "length ?d + length (incoming ?s) = length (incoming s)" by simp_all
      have "read_loop (length got + n) s got = read_loop (length got + n) ?s (got @ ?d)"
        using n d(1) e Xfer min_less_iff_conj [of 0 k n] k by (subst read_loop.simps) (simp add: sys_read_def, linarith)
      moreover have "1 \<le> length ?d" using d(1) by (cases ?d) auto
      ultimately show ?thesis using ih [unfolded eq] e Xfer split(2)
        by (auto simp: split(1) simp del: length_take length_drop)
    qed
  qed
qed

lemma header_loop_ok:
  assumes "smooth (events s)" "length l < transfers (events s)" "incoming s = l @ NL # rest" "NL \<notin> set l"
  shows "\<exists>s'. header_loop s a h = Some (OK (h @ l @ [NL], s')) \<and> incoming s' = rest \<and> smooth (events s') \<and>
    sent s' = sent s \<and> transfers (events s) \<le> transfers (events s') + length l + 1"
  using assms
proof (induction l arbitrary: s a h)
  case Nil
  obtain s' where "read_loop 1 s [] = Some (1, [NL], s')" "incoming s' = rest" "smooth (events s')" "sent s' = sent s"
    "transfers (events s) \<le> transfers (events s') + 1"
    using read_loop_smooth [of s 1 "[]"] Nil by auto
  then show ?case by (subst header_loop.simps) (simp add: read_all_def Let_def)
next
  case (Cons x l)
  obtain s1 where s1: "read_loop 1 s [] = Some (1, [x], s1)" "incoming s1 = l @ NL # rest" "smooth (events s1)" "sent s1 = sent s"
    "transfers (events s) \<le> transfers (events s1) + 1"
    using read_loop_smooth [of s 1 "[]"] Cons.prems by auto
  have "header_loop s a h = header_loop s1 (Some x) (h @ [x])"
    using s1(1) Cons.prems(4) by (subst header_loop.simps) (auto simp: read_all_def Let_def)
  moreover obtain s2 where "header_loop s1 (Some x) (h @ [x]) = Some (OK ((h @ [x]) @ l @ [NL], s2))" "incoming s2 = rest"
    "smooth (events s2)" "sent s2 = sent s1" "transfers (events s1) \<le> transfers (events s2) + length l + 1"
    using Cons.IH [of s1 "Some x" "h @ [x]"] s1 Cons.prems(2,4) by auto
  ultimately show ?case using s1 by auto
qed

lemma read_answer_ok:
  assumes "smooth (events s)" "3 \<le> transfers (events s)" "incoming s = ''OK'' @ [NL] @ rest" "\<not> shutdown_fails e"
  shows "\<exists>s'. read_answer e s = Some (OK s') \<and> incoming s' = rest \<and> smooth (events s') \<and> sent s' = sent s \<and>
    transfers (events s) \<le> transfers (events s') + 3"
proof -
  have nl: "NL \<notin> set ''OK''" and nul: "NUL \<notin> set (''OK'' @ [NL])" by (simp_all add: NL_def NUL_def)
  obtain s' where "header_loop s None [] = Some (OK ([] @ ''OK'' @ [NL], s'))" "incoming s' = rest" "smooth (events s')"
    "sent s' = sent s" "transfers (events s) \<le> transfers (events s') + length ''OK'' + 1"
    using header_loop_ok [where l = "''OK''" and rest = rest and a = None and h = "[]", OF assms(1) _ _ nl] assms(2,3) by auto
  then show ?thesis using assms(4) cstr_id [OF nul]
    by (simp add: read_answer_def get_response_header_def process_response_def)
qed

lemma send_request_ok:
  assumes "smooth (events s)" "length b \<le> transfers (events s)"
  shows "\<exists>s'. send_request b s = Some (OK s') \<and> sent s' = sent s @ b \<and> smooth (events s') \<and> incoming s' = incoming s \<and>
    transfers (events s) \<le> transfers (events s') + length b"
  using write_loop_smooth [OF assms, of "[]"] by (auto simp: send_request_def write_all_def)

lemma read_size_ok:
  assumes "smooth (events s)" "8 \<le> transfers (events s)" "incoming s = size_bytes w @ rest"
  shows "\<exists>s'. read_size s = Some (OK (w, s')) \<and> incoming s' = rest \<and> smooth (events s') \<and> sent s' = sent s \<and>
    transfers (events s) \<le> transfers (events s') + 8"
proof -
  obtain s' where "read_loop 8 s [] = Some (8, size_bytes w, s')" "incoming s' = rest" "smooth (events s')" "sent s' = sent s"
    "transfers (events s) \<le> transfers (events s') + 8"
    using read_loop_smooth [of s 8 "[]"] assms by auto
  then show ?thesis by (simp add: read_size_def read_message_size_def read_all_def bytes_size_bytes)
qed

lemma of_nat_size_t_less: "n < 2 ^ 64 \<Longrightarrow> m \<le> n \<Longrightarrow> (of_nat m :: size_t) < of_nat n \<longleftrightarrow> m < n"
  using unat_of_nat_size_t [of m] unat_of_nat_size_t [of n] by (simp add: word_less_nat_alt)

lemma receive_ok:
  assumes "smooth (events s)" "length (incoming s) < transfers (events s)" "m + length (incoming s) < 2 ^ 64"
  shows "\<exists>s'. receive (of_nat (m + length (incoming s))) (of_nat m) data s =
      Some (OK (of_nat (m + length (incoming s)), data @ incoming s, s')) \<and>
    incoming s' = [] \<and> smooth (events s') \<and> sent s' = sent s \<and>
    transfers (events s) \<le> transfers (events s') + length (incoming s) + 1"
  using assms
proof (induction "length (incoming s)" arbitrary: s m data rule: less_induct)
  case less
  let ?n = "m + length (incoming s)"
  have lt: "(of_nat m :: size_t) < of_nat ?n \<longleftrightarrow> incoming s \<noteq> []"
    using of_nat_size_t_less [OF less.prems(3), of m] by simp
  consider "incoming s = []" | "incoming s \<noteq> []" "length (incoming s) < 1024" | "1024 \<le> length (incoming s)" by linarith
  then show ?case
  proof cases
    case 1
    then show ?thesis using less.prems by (subst receive.simps) simp
  next
    case 2
    obtain s1 where s1: "read_loop 1024 s [] = Some (int (length (incoming s)), incoming s, s1)" "incoming s1 = []"
      "smooth (events s1)" "sent s1 = sent s" "transfers (events s) \<le> transfers (events s1) + length (incoming s) + 1"
      using read_loop_end [OF less.prems(1,2), of 1024 "[]"] 2(2) by auto
    have "receive (of_nat ?n) (of_nat m) data s = receive (of_nat ?n) (of_nat ?n) (data @ incoming s) s1"
      using s1(1) 2(1) lt by (subst receive.simps) (simp add: read_all_def)
    also have "\<dots> = Some (OK (of_nat ?n, data @ incoming s, s1))" by (subst receive.simps) simp
    finally show ?thesis using s1 by simp
  next
    case 3
    then have ne: "incoming s \<noteq> []" by auto
    obtain s1 where s1: "read_loop 1024 s [] = Some (1024, take 1024 (incoming s), s1)" "incoming s1 = drop 1024 (incoming s)"
      "smooth (events s1)" "sent s1 = sent s" "transfers (events s) \<le> transfers (events s1) + 1024"
      using read_loop_smooth [OF less.prems(1), of 1024 "[]"] less.prems(2) 3 by auto
    have len: "length (incoming s1) = length (incoming s) - 1024" by (simp add: s1(2))
    have step: "receive (of_nat ?n) (of_nat m) data s = receive (of_nat ?n) (of_nat (m + 1024)) (data @ take 1024 (incoming s)) s1"
      using s1(1) ne lt by (subst receive.simps) (simp add: read_all_def)
    obtain s2 where s2: "receive (of_nat (m + 1024 + length (incoming s1))) (of_nat (m + 1024)) (data @ take 1024 (incoming s)) s1 =
        Some (OK (of_nat (m + 1024 + length (incoming s1)), (data @ take 1024 (incoming s)) @ incoming s1, s2))"
      "incoming s2 = []" "smooth (events s2)" "sent s2 = sent s1"
      "transfers (events s1) \<le> transfers (events s2) + length (incoming s1) + 1"
    proof -
      have "length (incoming s1) < length (incoming s)" "m + 1024 + length (incoming s1) < 2 ^ 64"
        using len 3 less.prems(3) by simp_all
      moreover have "length (incoming s1) < transfers (events s1)" using len 3 less.prems(2) s1(5) by linarith
      ultimately show ?thesis
        using less.hyps [of s1 "m + 1024" "data @ take 1024 (incoming s)"] s1(3) that by blast
    qed
    have n: "m + 1024 + length (incoming s1) = ?n" using len 3 by simp
    have "receive (of_nat ?n) (of_nat m) data s = Some (OK (of_nat ?n, (data @ take 1024 (incoming s)) @ incoming s1, s2))"
      unfolding step by (rule s2(1) [unfolded n])
    moreover have "transfers (events s) \<le> transfers (events s2) + length (incoming s) + 1" using s2(5) s1(5) len 3 by linarith
    ultimately show ?thesis using s2(2-4) s1(2,4) by simp
  qed
qed

lemma send_file_ok:
  assumes "smooth (events s)" "length c \<le> transfers (events s)" "m + length c < 2 ^ 64"
  shows "\<exists>s'. send_file (of_nat (m + length c)) (of_nat m) (take 1024 c) (drop 1024 c) s = Some (OK s') \<and>
    sent s' = sent s @ c \<and> smooth (events s') \<and> incoming s' = incoming s \<and>
    transfers (events s) \<le> transfers (events s') + length c"
  using assms
proof (induction "length c" arbitrary: s c m rule: less_induct)
  case less
  have lt: "(of_nat m :: size_t) < of_nat (m + length c) \<longleftrightarrow> c \<noteq> []"
    using of_nat_size_t_less [OF less.prems(3), of m] by simp
  show ?case
  proof (cases "c = []")
    case True
    then show ?thesis using less.prems by (subst send_file.simps) simp
  next
    case False
    let ?a = "take 1024 c" and ?k = "length (take 1024 c)"
    obtain s1 where s1: "write_loop ?a 0 s = Some (int ?k, s1)" "sent s1 = sent s @ ?a" "smooth (events s1)" "incoming s1 = incoming s"
      "transfers (events s) \<le> transfers (events s1) + ?k"
    proof -
      have "?k \<le> transfers (events s)" using less.prems(2) by simp
      then show ?thesis using write_loop_smooth [OF less.prems(1), of ?a "[]"] that by auto
    qed
    have step: "send_file (of_nat (m + length c)) (of_nat m) ?a (drop 1024 c) s =
        send_file (of_nat (m + length c)) (of_nat (m + ?k)) (take 1024 (drop 1024 c)) (drop 1024 (drop 1024 c)) s1"
      using s1(1) False lt by (subst send_file.simps) (simp add: write_all_def)
    have n: "m + length c = (m + ?k) + length (drop 1024 c)" by simp
    obtain s2 where s2: "send_file (of_nat ((m + ?k) + length (drop 1024 c))) (of_nat (m + ?k)) (take 1024 (drop 1024 c)) (drop 1024 (drop 1024 c)) s1 = Some (OK s2)"
      "sent s2 = sent s1 @ drop 1024 c" "smooth (events s2)" "incoming s2 = incoming s1"
      "transfers (events s1) \<le> transfers (events s2) + length (drop 1024 c)"
    proof -
      have "length (drop 1024 c) < length c" using False by (cases c) auto
      moreover have "length (drop 1024 c) \<le> transfers (events s1)" using s1(5) less.prems(2) by auto
      moreover have "(m + ?k) + length (drop 1024 c) < 2 ^ 64" using less.prems(3) n by simp
      ultimately show ?thesis using less.hyps [of "drop 1024 c" s1 "m + ?k"] s1(3) that by blast
    qed
    have "transfers (events s) \<le> transfers (events s2) + length c" using s1(5) s2(5) by simp
    moreover have "send_file (of_nat (m + length c)) (of_nat m) ?a (drop 1024 c) s = Some (OK s2)"
      unfolding step by (rule s2(1) [folded n])
    moreover have "sent s2 = sent s @ c" using s1(2) s2(2) by simp
    ultimately show ?thesis using s1(4) s2(3,4) by simp
  qed
qed

lemma nothing_left_ok:
  assumes "smooth (events s)" "0 < transfers (events s)" "incoming s = []"
  shows "\<exists>s'. nothing_left n n s = Some (OK s') \<and> sent s' = sent s"
  using read_loop_end [of s 1024 "[]"] assms by (auto simp: nothing_left_def read_all_def)

lemma client_put_ok:
  assumes "local_files c localname = Some x" "length x < 2 ^ 64" "\<not> shutdown_fails e"
    and "smooth (events (server_socket c))" "length remote + length x + 16 \<le> transfers (events (server_socket c))"
    and "incoming (server_socket c) = ''OK'' @ [NL]"
  shows "\<exists>c'. client_put e remote localname c = Some (OK c') \<and>
    sent (server_socket c') = sent (server_socket c) @ request_line ''PUT'' remote @ size_bytes (of_nat (length x)) @ x"
proof -
  let ?s = "server_socket c" and ?w = "of_nat (length x) :: size_t"
  obtain s1 where s1: "send_request (''PUT '' @ remote @ [NL]) ?s = Some (OK s1)" "sent s1 = sent ?s @ ''PUT '' @ remote @ [NL]"
    "smooth (events s1)" "incoming s1 = incoming ?s" "transfers (events ?s) \<le> transfers (events s1) + length remote + 5"
    using send_request_ok [OF assms(4), of "''PUT '' @ remote @ [NL]"] assms(5) by auto
  obtain s2 where s2: "send_request (size_bytes ?w) s1 = Some (OK s2)" "sent s2 = sent s1 @ size_bytes ?w"
    "smooth (events s2)" "incoming s2 = incoming s1" "transfers (events s1) \<le> transfers (events s2) + 8"
    using send_request_ok [OF s1(3), of "size_bytes ?w"] s1(5) assms(5) by auto
  obtain s3 where s3: "send_file ?w 0 (take 1024 x) (drop 1024 x) s2 = Some (OK s3)" "sent s3 = sent s2 @ x"
    "smooth (events s3)" "incoming s3 = incoming s2" "transfers (events s2) \<le> transfers (events s3) + length x"
    using send_file_ok [OF s2(3), of x 0] s1(5) s2(5) assms(2,5) by auto
  obtain s4 where s4: "read_answer e s3 = Some (OK s4)" "sent s4 = sent s3"
    using read_answer_ok [OF s3(3), of "[]" e] s1(4,5) s2(4,5) s3(4,5) assms(3,5,6) by auto
  show ?thesis using s1(1,2) s2(1,2) s3(1,2) s4 assms(1)
    by (simp add: client_put_def request_line_def Let_def)
qed

section \<open>Properties\<close>

text \<open>
  GET on a connection that keeps moving, with an answer of OK, the size and the bytes of a
  file, which is what get_sends_file shows the server to send, asks for the file and stores exactly
  these bytes under the local name.
\<close>

theorem client_get_stores:
  assumes "smooth (events (server_socket c))" "length remote + length x + 18 \<le> transfers (events (server_socket c))"
    and "incoming (server_socket c) = ''OK'' @ [NL] @ size_bytes (of_nat (length x)) @ x"
    and "creatable e localname" "\<not> shutdown_fails e" "length x < 2 ^ 64"
  shows "\<exists>c'. client_get e remote localname c = Some (OK c') \<and> local_files c' = (local_files c)(localname \<mapsto> x) \<and>
    sent (server_socket c') = sent (server_socket c) @ request_line ''GET'' remote"
proof -
  let ?s = "server_socket c" and ?w = "of_nat (length x) :: size_t"
  obtain s1 where s1: "send_request (''GET '' @ remote @ [NL]) ?s = Some (OK s1)" "sent s1 = sent ?s @ ''GET '' @ remote @ [NL]"
    "smooth (events s1)" "incoming s1 = incoming ?s" "transfers (events ?s) \<le> transfers (events s1) + length remote + 5"
    using send_request_ok [OF assms(1), of "''GET '' @ remote @ [NL]"] assms(2) by auto
  obtain s2 where s2: "read_answer e s1 = Some (OK s2)" "incoming s2 = size_bytes ?w @ x" "smooth (events s2)" "sent s2 = sent s1"
    "transfers (events s1) \<le> transfers (events s2) + 3"
    using read_answer_ok [OF s1(3), of "size_bytes ?w @ x" e] s1(4,5) assms(2,3,5) by auto
  obtain s3 where s3: "read_size s2 = Some (OK (?w, s3))" "incoming s3 = x" "smooth (events s3)" "sent s3 = sent s2"
    "transfers (events s2) \<le> transfers (events s3) + 8"
    using read_size_ok [OF s2(3) _ s2(2)] s1(5) s2(5) assms(2) by auto
  obtain s4 where s4: "receive ?w 0 [] s3 = Some (OK (?w, x, s4))" "incoming s4 = []" "smooth (events s4)" "sent s4 = sent s3"
    "transfers (events s3) \<le> transfers (events s4) + length x + 1"
    using receive_ok [OF s3(3), of 0 "[]"] s1(5) s2(5) s3(2,5) assms(2,6) by auto
  obtain s5 where "nothing_left ?w ?w s4 = Some (OK s5)" "sent s5 = sent s4"
    using nothing_left_ok [OF s4(3) _ s4(2)] s1(5) s2(5) s3(5) s4(5) assms(2) by auto
  then show ?thesis using s1(1,2) s2(1,4) s3(1,4) s4(1,4) assms(4)
    by (simp add: client_get_def request_line_def)
qed

theorem client_get_stores_witness:
  "let s = \<lparr>blocking = True, events = replicate 30 (Xfer 3), incoming = ''OK'' @ [NL] @ size_bytes 2 @ ''hi'', sent = []\<rparr>
   in \<exists>c. client_get \<lparr>creatable = (\<lambda>_. True), shutdown_fails = False\<rparr> ''a'' ''b''
       \<lparr>server_socket = s, local_files = Map.empty, stdout = []\<rparr> = Some (OK c) \<and> local_files c ''b'' = Some ''hi''"
proof -
  let ?s = "\<lparr>blocking = True, events = replicate 30 (Xfer 3), incoming = ''OK'' @ [NL] @ size_bytes 2 @ ''hi'', sent = []\<rparr>"
  let ?c = "\<lparr>server_socket = ?s, local_files = Map.empty, stdout = []\<rparr>"
  have "smooth (events ?s)" "length ''a'' + length ''hi'' + 18 \<le> transfers (events ?s)"
    "incoming ?s = ''OK'' @ [NL] @ size_bytes (of_nat (length ''hi'')) @ ''hi''"
    by (simp_all add: smooth_def)
  then show ?thesis unfolding Let_def
    using client_get_stores [of ?c "''a''" "''hi''" "\<lparr>creatable = (\<lambda>_. True), shutdown_fails = False\<rparr>" "''b''"] by auto
qed

text \<open>
  C10: PUT from end to end. What the client sends for a local file on a connection that keeps moving
  is such that a server that receives it, in whatever pieces, stores exactly that file under the
  remote name, leaves all other files alone and answers what lets the client return successfully.
\<close>

theorem client_server_put:
  assumes c: "local_files c localname = Some x" "length x < 2 ^ 64" "\<not> shutdown_fails e"
    "smooth (events (server_socket c))" "length remote + length x + 16 \<le> transfers (events (server_socket c))"
    "incoming (server_socket c) = ''OK'' @ [NL]" "sent (server_socket c) = []"
    and st: "wf_files st" "live_names st" "wf_names st" "can_create env remote" "good_name remote"
    and s: "\<not> blocking s" "sent s = []" and ess: "\<forall>es \<in> set ess. calm es"
    "\<exists>es \<in> set ess. smooth es \<and> length remote + length x + 17 \<le> transfers es"
  shows "\<exists>c' j' st'. client_put e remote localname c = Some (OK c') \<and>
    handle_events env ess (init_job (s\<lparr>incoming := sent (server_socket c')\<rparr>)) st = OK (j', st') \<and>
    closed j' \<and> sent (conn j') = incoming (server_socket c) \<and> file_at st' remote = Some x \<and>
    (\<forall>n. n \<noteq> remote \<longrightarrow> file_at st' n = file_at st n)"
proof -
  obtain c' where c': "client_put e remote localname c = Some (OK c')"
    "sent (server_socket c') = request_line ''PUT'' remote @ size_bytes (of_nat (length x)) @ x"
    using client_put_ok [OF c(1-6)] c(7) by auto
  let ?s = "s\<lparr>incoming := sent (server_socket c')\<rparr>"
  have "\<not> blocking ?s" "sent ?s = []" "incoming ?s = request_line ''PUT'' remote @ size_bytes (of_nat (length x)) @ x"
    using s c'(2) by simp_all
  from put_stores_request [OF st(1-4) c(2) st(5) ess this] show ?thesis using c'(1) c(6) by auto
qed

theorem client_server_put_witness:
  "let s = \<lparr>blocking = True, events = replicate 30 (Xfer 3), incoming = ''OK'' @ [NL], sent = []\<rparr>;
       t = \<lparr>blocking = False, events = [], incoming = [], sent = []\<rparr>
   in \<exists>c j st. client_put \<lparr>creatable = (\<lambda>_. True), shutdown_fails = False\<rparr> ''a'' ''b''
       \<lparr>server_socket = s, local_files = [''b'' \<mapsto> ''hi''], stdout = []\<rparr> = Some (OK c) \<and>
     handle_events plain_env [replicate 25 (Xfer 1)] (init_job (t\<lparr>incoming := sent (server_socket c)\<rparr>)) empty_server = OK (j, st) \<and>
     file_at st ''a'' = Some ''hi''"
proof -
  let ?s = "\<lparr>blocking = True, events = replicate 30 (Xfer 3), incoming = ''OK'' @ [NL], sent = []\<rparr>"
  let ?t = "\<lparr>blocking = False, events = [], incoming = [], sent = []\<rparr>"
  let ?c = "\<lparr>server_socket = ?s, local_files = [''b'' \<mapsto> ''hi''], stdout = []\<rparr>"
  have "wf_files empty_server" "live_names empty_server" "wf_names empty_server" "can_create plain_env ''a''"
    "good_name ''a''" "\<forall>es \<in> set [replicate 25 (Xfer 1)]. calm es"
    "\<exists>es \<in> set [replicate 25 (Xfer 1)]. smooth es \<and> length ''a'' + length ''hi'' + 17 \<le> transfers es"
    by (simp_all add: empty_server_def plain_env_def wf_files_def live_names_def wf_names_def good_name_def NUL_def NL_def calm_def smooth_def)
  moreover have "smooth (events ?s)" "length ''a'' + length ''hi'' + 16 \<le> transfers (events ?s)"
    by (simp_all add: smooth_def)
  ultimately show ?thesis unfolding Let_def
    using client_server_put [of ?c "''b''" "''hi''" "\<lparr>creatable = (\<lambda>_. True), shutdown_fails = False\<rparr>" "''a''" empty_server plain_env ?t
      "[replicate 25 (Xfer 1)]"] by auto
qed

end
