(* ===== verification/Make_Graph.thy ===== *)
theory Make_Graph
  imports Prelude
begin

text \<open>
  The two searches of \<open>parallel_make/parmake.c\<close> over the dependency graph: the detection of a
  cycle below a target, and the removal of the rules no goal needs. The graph library is not
  part of the repository: a search sees it as the function \<open>neighbors\<close> that gives the
  dependencies of a target, \<open>graph_neighbors\<close>.
\<close>

section \<open>The model\<close>

type_synonym target = string

text \<open>
  \<open>checkCyclicFunc\<close> on a target, and its loop on the remaining neighbours; \<open>visited\<close> is the
  set it adds to and removes from. On an infinite graph it need not return.
\<close>

partial_function (option) checkCyclicFunc ::
  "(target \<Rightarrow> target list) \<Rightarrow> target + target list \<Rightarrow> target set \<Rightarrow> (bool \<times> target set) option" where
  "checkCyclicFunc neighbors x visited = (case x of
      Inl v \<Rightarrow> if v \<in> visited then Some (True, visited)
        else Option.bind (checkCyclicFunc neighbors (Inr (neighbors v)) (insert v visited))
          (\<lambda>(c, visited). if c then Some (True, visited) else Some (False, visited - {v}))
    | Inr ns \<Rightarrow> (case ns of
        [] \<Rightarrow> Some (False, visited)
      | n # ns \<Rightarrow> Option.bind (checkCyclicFunc neighbors (Inl n) visited)
          (\<lambda>(c, visited). if c then Some (True, visited) else checkCyclicFunc neighbors (Inr ns) visited)))"

definition detectCycle :: "(target \<Rightarrow> target list) \<Rightarrow> target \<Rightarrow> bool option" where
  "detectCycle neighbors tgt = map_option fst (checkCyclicFunc neighbors (Inl tgt) {})"

text \<open>\<open>find_useful_nodes_helper\<close> and its loop, on the field \<open>state\<close> of the rules.\<close>

partial_function (option) find_useful_nodes_helper ::
  "(target \<Rightarrow> target list) \<Rightarrow> target + target list \<Rightarrow> (target \<Rightarrow> int) \<Rightarrow> (target \<Rightarrow> int) option" where
  "find_useful_nodes_helper neighbors x states = (case x of
      Inl t \<Rightarrow> if states t = 1 then Some states
        else find_useful_nodes_helper neighbors (Inr (neighbors t)) (states(t := 1))
    | Inr ns \<Rightarrow> (case ns of
        [] \<Rightarrow> Some states
      | n # ns \<Rightarrow> Option.bind (find_useful_nodes_helper neighbors (Inl n) states)
          (\<lambda>states. find_useful_nodes_helper neighbors (Inr ns) states)))"

text \<open>The vertices \<open>find_useful_nodes\<close> removes, and the states of all rules afterwards.\<close>

definition find_useful_nodes ::
  "(target \<Rightarrow> target list) \<Rightarrow> target list \<Rightarrow> (target \<Rightarrow> int) \<Rightarrow> (target list \<times> (target \<Rightarrow> int)) option" where
  "find_useful_nodes neighbors vertices states =
     map_option (\<lambda>states. (filter (\<lambda>v. states v = 0) vertices, states))
       (find_useful_nodes_helper neighbors (Inl [])
          (fold (\<lambda>v states. states(v := 0)) vertices states))"

section \<open>Specification\<close>

definition depends :: "(target \<Rightarrow> target list) \<Rightarrow> (target \<times> target) set" where
  "depends neighbors = {(v, w). w \<in> set (neighbors v)}"

definition needed :: "(target \<Rightarrow> target list) \<Rightarrow> target \<Rightarrow> target set" where
  "needed neighbors v = (depends neighbors)\<^sup>* `` {v}"

definition cycle_below :: "(target \<Rightarrow> target list) \<Rightarrow> target \<Rightarrow> bool" where
  "cycle_below neighbors v \<longleftrightarrow> (\<exists>w. (v, w) \<in> (depends neighbors)\<^sup>* \<and> (w, w) \<in> (depends neighbors)\<^sup>+)"

section \<open>Lemmas\<close>

definition search_hits :: "(target \<Rightarrow> target list) \<Rightarrow> target set \<Rightarrow> target \<Rightarrow> bool" where
  "search_hits nb visited v \<longleftrightarrow> (\<exists>w \<in> visited. (v, w) \<in> (depends nb)\<^sup>*) \<or> cycle_below nb v"

lemma search_hits_step:
  assumes "v \<notin> visited"
  shows "search_hits nb visited v \<longleftrightarrow> (\<exists>n \<in> set (nb v). search_hits nb (insert v visited) n)"
proof
  let ?E = "depends nb"
  assume "search_hits nb visited v"
  then consider w where "w \<in> visited" "(v, w) \<in> ?E\<^sup>*" | w where "(v, w) \<in> ?E\<^sup>*" "(w, w) \<in> ?E\<^sup>+"
    by (auto simp: search_hits_def cycle_below_def)
  then show "\<exists>n \<in> set (nb v). search_hits nb (insert v visited) n"
  proof cases
    case 1
    then have "(v, w) \<in> ?E\<^sup>+" using assms by (metis rtranclD)
    then obtain n where "(v, n) \<in> ?E" "(n, w) \<in> ?E\<^sup>*" by (meson tranclD)
    then show ?thesis using 1 by (auto simp: search_hits_def depends_def)
  next
    case 2
    show ?thesis
    proof (cases "v = w")
      case True
      then obtain n where "(v, n) \<in> ?E" "(n, v) \<in> ?E\<^sup>*" using 2(2) by (metis tranclD)
      then show ?thesis by (auto simp: search_hits_def depends_def)
    next
      case False
      then obtain n where "(v, n) \<in> ?E" "(n, w) \<in> ?E\<^sup>*" using 2(1) by (metis converse_rtranclE)
      then show ?thesis using 2 by (auto simp: search_hits_def depends_def cycle_below_def)
    qed
  qed
next
  let ?E = "depends nb"
  assume "\<exists>n \<in> set (nb v). search_hits nb (insert v visited) n"
  then obtain n where n: "(v, n) \<in> ?E" "search_hits nb (insert v visited) n" by (auto simp: depends_def)
  from n(2) consider "(n, v) \<in> ?E\<^sup>*" | w where "w \<in> visited" "(n, w) \<in> ?E\<^sup>*"
    | w where "(n, w) \<in> ?E\<^sup>*" "(w, w) \<in> ?E\<^sup>+"
    by (auto simp: search_hits_def cycle_below_def)
  then show "search_hits nb visited v"
  proof cases
    case 1
    then have "(v, v) \<in> ?E\<^sup>+" using n(1) by (meson rtrancl_into_trancl2)
    then show ?thesis by (auto simp: search_hits_def cycle_below_def)
  next
    case 2
    then show ?thesis using n(1) by (meson converse_rtrancl_into_rtrancl search_hits_def)
  next
    case 3
    then show ?thesis using n(1) by (meson converse_rtrancl_into_rtrancl search_hits_def cycle_below_def)
  qed
qed

text \<open>The search returns on a finite closed set of targets, and restores the set when it finds nothing.\<close>

lemma checkCyclicFunc_ok:
  assumes "finite R" "\<And>v. v \<in> R \<Longrightarrow> set (nb v) \<subseteq> R"
  shows "v \<in> R \<Longrightarrow> \<exists>c vis. checkCyclicFunc nb (Inl v) visited = Some (c, vis) \<and>
    (c \<longleftrightarrow> search_hits nb visited v) \<and> (\<not> c \<longrightarrow> vis = visited)"
proof (induction "card (R - visited)" arbitrary: v visited rule: less_induct)
  case less
  show ?case
  proof (cases "v \<in> visited")
    case True
    then have "search_hits nb visited v" by (auto simp: search_hits_def)
    then show ?thesis using True by (subst checkCyclicFunc.simps) (auto intro!: exI [of _ True])
  next
    case False
    let ?vis = "insert v visited"
    have smaller: "card (R - ?vis) < card (R - visited)"
      using assms(1) less.prems False by (intro psubset_card_mono) auto
    have loop: "set ns \<subseteq> R \<Longrightarrow> \<exists>c vis. checkCyclicFunc nb (Inr ns) ?vis = Some (c, vis) \<and>
        (c \<longleftrightarrow> (\<exists>n \<in> set ns. search_hits nb ?vis n)) \<and> (\<not> c \<longrightarrow> vis = ?vis)" for ns
    proof (induction ns)
      case Nil
      then show ?case by (subst checkCyclicFunc.simps) (auto intro!: exI [of _ False])
    next
      case (Cons n ns)
      obtain c vis where n: "checkCyclicFunc nb (Inl n) ?vis = Some (c, vis)"
        "c \<longleftrightarrow> search_hits nb ?vis n" "\<not> c \<longrightarrow> vis = ?vis"
        using less.hyps [OF smaller, of n] Cons.prems by auto
      show ?case
      proof (cases c)
        case True
        then show ?thesis using n by (subst checkCyclicFunc.simps) (auto intro!: exI [of _ True])
      next
        case False
        have "checkCyclicFunc nb (Inr (n # ns)) ?vis = checkCyclicFunc nb (Inr ns) ?vis"
          using n False by (subst checkCyclicFunc.simps) simp
        then show ?thesis using Cons n False by simp
      qed
    qed
    have "set (nb v) \<subseteq> R" using assms(2) less.prems by blast
    from loop [OF this] obtain c vis where c: "checkCyclicFunc nb (Inr (nb v)) ?vis = Some (c, vis)"
      "c \<longleftrightarrow> (\<exists>n \<in> set (nb v). search_hits nb ?vis n)" "\<not> c \<longrightarrow> vis = ?vis" by blast
    have "checkCyclicFunc nb (Inl v) visited = Some (c, if c then vis else vis - {v})"
      using False c(1) by (subst checkCyclicFunc.simps) simp
    then show ?thesis using c(2,3) search_hits_step [OF False, of nb] False by auto
  qed
qed

text \<open>Marking returns, keeps what was marked, and leaves no edge from a newly marked target to an unmarked one.\<close>

lemma helper_ok:
  assumes "finite R" "\<And>v. v \<in> R \<Longrightarrow> set (nb v) \<subseteq> R"
  shows "t \<in> R \<Longrightarrow> \<exists>st'. find_useful_nodes_helper nb (Inl t) st = Some st' \<and> st' t = 1 \<and>
    (\<forall>v. st v = 1 \<longrightarrow> st' v = 1) \<and> (\<forall>v. st' v = st v \<or> st' v = 1 \<and> v \<in> needed nb t) \<and>
    (\<forall>v. st' v = 1 \<longrightarrow> st v = 1 \<or> (\<forall>w \<in> set (nb v). st' w = 1))"
proof (induction "card (R - {v. st v = 1})" arbitrary: t st rule: less_induct)
  case less
  show ?case
  proof (cases "st t = 1")
    case True
    then show ?thesis by (subst find_useful_nodes_helper.simps) simp
  next
    case False
    have loop: "set ns \<subseteq> set (nb t) \<Longrightarrow> (\<forall>v. (st(t := 1)) v = 1 \<longrightarrow> s v = 1) \<Longrightarrow>
        \<exists>st'. find_useful_nodes_helper nb (Inr ns) s = Some st' \<and> (\<forall>v. s v = 1 \<longrightarrow> st' v = 1) \<and>
        (\<forall>n \<in> set ns. st' n = 1) \<and> (\<forall>v. st' v = s v \<or> st' v = 1 \<and> v \<in> needed nb t) \<and>
        (\<forall>v. st' v = 1 \<longrightarrow> s v = 1 \<or> (\<forall>w \<in> set (nb v). st' w = 1))" for ns s
    proof (induction ns arbitrary: s)
      case Nil
      then show ?case by (subst find_useful_nodes_helper.simps) simp
    next
      case (Cons n ns)
      have smaller: "card (R - {v. s v = 1}) < card (R - {v. st v = 1})"
        using assms(1) less.prems False Cons.prems(2) by (intro psubset_card_mono) (auto split: if_splits)
      have nR: "n \<in> R" using Cons.prems(1) assms(2) less.prems by auto
      obtain s1 where s1: "find_useful_nodes_helper nb (Inl n) s = Some s1" "s1 n = 1"
        "\<forall>v. s v = 1 \<longrightarrow> s1 v = 1" "\<forall>v. s1 v = s v \<or> s1 v = 1 \<and> v \<in> needed nb n"
        "\<forall>v. s1 v = 1 \<longrightarrow> s v = 1 \<or> (\<forall>w \<in> set (nb v). s1 w = 1)"
        using less.hyps [OF smaller nR] by blast
      have "needed nb n \<subseteq> needed nb t"
        using Cons.prems(1) by (auto simp: needed_def depends_def intro: converse_rtrancl_into_rtrancl)
      moreover obtain s2 where s2: "find_useful_nodes_helper nb (Inr ns) s1 = Some s2" "\<forall>v. s1 v = 1 \<longrightarrow> s2 v = 1"
        "\<forall>n \<in> set ns. s2 n = 1" "\<forall>v. s2 v = s1 v \<or> s2 v = 1 \<and> v \<in> needed nb t"
        "\<forall>v. s2 v = 1 \<longrightarrow> s1 v = 1 \<or> (\<forall>w \<in> set (nb v). s2 w = 1)"
        using Cons.IH [of s1] Cons.prems s1(3) by auto
      moreover have "find_useful_nodes_helper nb (Inr (n # ns)) s = Some s2"
        using s1(1) s2(1) by (subst find_useful_nodes_helper.simps) simp
      ultimately show ?case using s1 by (intro exI [of _ s2]) (auto, (metis subsetD)+)
    qed
    obtain s' where s': "find_useful_nodes_helper nb (Inr (nb t)) (st(t := 1)) = Some s'"
      "\<forall>v. (st(t := 1)) v = 1 \<longrightarrow> s' v = 1" "\<forall>n \<in> set (nb t). s' n = 1"
      "\<forall>v. s' v = (st(t := 1)) v \<or> s' v = 1 \<and> v \<in> needed nb t"
      "\<forall>v. s' v = 1 \<longrightarrow> (st(t := 1)) v = 1 \<or> (\<forall>w \<in> set (nb v). s' w = 1)"
      using loop [of "nb t" "st(t := 1)"] by auto
    have "find_useful_nodes_helper nb (Inl t) st = Some s'"
      using False s'(1) by (subst find_useful_nodes_helper.simps) simp
    moreover have "t \<in> needed nb t" by (simp add: needed_def)
    moreover have "s' t = 1" using s'(2) by simp
    moreover have "\<forall>v. st v = 1 \<longrightarrow> s' v = 1" using s'(2) by simp
    moreover have "\<forall>v. s' v = st v \<or> s' v = 1 \<and> v \<in> needed nb t"
      using s'(4) calculation(2,3) by (metis fun_upd_apply)
    moreover have "\<forall>v. s' v = 1 \<longrightarrow> st v = 1 \<or> (\<forall>w \<in> set (nb v). s' w = 1)"
      using s'(3,5) by (metis fun_upd_apply)
    ultimately show ?thesis by blast
  qed
qed

lemma needed_closed: "v \<in> needed nb u \<Longrightarrow> set (nb v) \<subseteq> needed nb u"
  by (auto simp: needed_def depends_def intro: rtrancl_into_rtrancl)

section \<open>Properties\<close>

text \<open>
  For a target with finitely many dependencies \<open>detectCycle\<close> returns, and reports a cycle
  exactly when some direct or indirect dependency of the target depends on itself.
\<close>

theorem detectCycle_correct:
  assumes "finite (needed neighbors tgt)"
  shows "detectCycle neighbors tgt = Some (cycle_below neighbors tgt)"
proof -
  have "tgt \<in> needed neighbors tgt" by (simp add: needed_def)
  from checkCyclicFunc_ok [where nb = neighbors and visited = "{}", OF assms needed_closed this] show ?thesis
    by (auto simp: detectCycle_def search_hits_def)
qed

theorem detectCycle_correct_witness:
  "detectCycle (\<lambda>t. if t = ''a'' then [''b''] else if t = ''b'' then [''a''] else []) ''c'' = Some False"
proof -
  let ?nb = "\<lambda>t. if t = ''a'' then [''b''] else if t = ''b'' then [''a''] else []"
  have n: "w = ''c''" if "(''c'', w) \<in> (depends ?nb)\<^sup>*" for w
    using that by (induction rule: rtrancl_induct) (auto simp: depends_def split: if_splits)
  then have "finite (needed ?nb ''c'')" by (auto simp: needed_def intro: finite_subset [of _ "{''c''}"])
  moreover have "\<not> cycle_below ?nb ''c''"
  proof
    assume "cycle_below ?nb ''c''"
    then have "(''c'', ''c'') \<in> (depends ?nb)\<^sup>+" using n unfolding cycle_below_def by blast
    then obtain z where "(''c'', z) \<in> depends ?nb" by (meson tranclD)
    then show False by (simp add: depends_def)
  qed
  ultimately show ?thesis using detectCycle_correct [of ?nb "''c''"] by simp
qed

text \<open>
  \<open>find_useful_nodes\<close> returns on a finite graph and removes exactly the vertices that no goal
  needs, that is, those that cannot be reached from the sentinel with the empty name.
\<close>

theorem find_useful_nodes_removes:
  assumes "finite (needed neighbors [])" "needed neighbors [] \<subseteq> set vertices"
  shows "\<exists>states'. find_useful_nodes neighbors vertices states =
    Some (filter (\<lambda>v. v \<notin> needed neighbors []) vertices, states')"
proof -
  let ?st = "fold (\<lambda>v states. states(v := 0)) vertices states"
  have zero: "?st v = (if v \<in> set vertices then 0 else states v)" for v
    by (induction vertices arbitrary: states) auto
  have "[] \<in> needed neighbors []" by (simp add: needed_def)
  from helper_ok [where nb = neighbors and st = ?st, OF assms(1) needed_closed this]
  obtain st' where st': "find_useful_nodes_helper neighbors (Inl []) ?st = Some st'" "st' [] = 1"
    "\<forall>v. st' v = ?st v \<or> st' v = 1 \<and> v \<in> needed neighbors []"
    "\<forall>v. st' v = 1 \<longrightarrow> ?st v = 1 \<or> (\<forall>w \<in> set (neighbors v). st' w = 1)" by blast
  have "st' v = 1" if "v \<in> needed neighbors []" for v
    using that [unfolded needed_def, simplified]
  proof (induction rule: rtrancl_induct)
    case base
    show ?case by (rule st'(2))
  next
    case (step v w)
    then have "v \<in> set vertices" using assms(2) by (auto simp: needed_def)
    then have "?st v \<noteq> 1" using zero by simp
    then show ?case using st'(4) step by (auto simp: depends_def)
  qed
  then have "filter (\<lambda>v. st' v = 0) vertices = filter (\<lambda>v. v \<notin> needed neighbors []) vertices"
    using st'(3) zero by (intro filter_cong) (auto, metis)
  then show ?thesis using st'(1) by (simp add: find_useful_nodes_def)
qed

theorem find_useful_nodes_removes_witness:
  "\<exists>states'. find_useful_nodes (\<lambda>t. if t = [] then [''a''] else []) [[], ''a'', ''b''] (\<lambda>_. 0) =
    Some ([''b''], states')"
proof -
  let ?nb = "\<lambda>t. if t = [] then [''a''] else ([] :: string list)"
  have "w \<in> {[], ''a''}" if "([], w) \<in> (depends ?nb)\<^sup>*" for w
    using that by (induction rule: rtrancl_induct) (auto simp: depends_def split: if_splits)
  moreover have "([], ''a'') \<in> (depends ?nb)\<^sup>*" by (rule r_into_rtrancl) (simp add: depends_def)
  ultimately have n: "needed ?nb [] = {[], ''a''}" by (auto simp: needed_def)
  show ?thesis using find_useful_nodes_removes [of ?nb "[[], ''a'', ''b'']"] by (simp add: n)
qed

end
