(* ===== verification/Make_Build.thy ===== *)
theory Make_Build
  imports Make_Graph
begin

text \<open>
  The build itself, \<open>parallel_make/parmake.c\<close> from \<open>rule_valid_to_run\<close> on: worker threads that
  take rules from one queue and report them to another, and the main thread that passes the
  outcome on to the rules that wait for it. A rule is run at most once and only after
  everything it depends on has succeeded, and the threads do not wait for each other forever.
  The queues are the unbounded first-in first-out queues of \<open>queue.h\<close>.
\<close>

section \<open>The model\<close>

subsection \<open>One rule\<close>

text \<open>The files as \<open>access\<close> and \<open>stat\<close> see them.\<close>

record files =
  exists :: "string \<Rightarrow> bool"
  mtime :: "string \<Rightarrow> int"

definition rule_valid_to_run :: "files \<Rightarrow> target \<Rightarrow> target list \<Rightarrow> bool" where
  "rule_valid_to_run fs tgt dependencies =
     (\<not> exists fs tgt \<or> list_ex (\<lambda>d. \<not> exists fs d \<or> mtime fs tgt < mtime fs d) dependencies)"

text \<open>\<open>system\<close> gives the result of a command; the first one that fails ends the rule.\<close>

primrec execRule :: "(string \<Rightarrow> int) \<Rightarrow> string list \<Rightarrow> int" where
  "execRule system [] = 0"
| "execRule system (cmd # cmds) = (if system cmd \<noteq> 0 then -1 else execRule system cmds)"

definition checkSatisfied :: "files \<Rightarrow> (string \<Rightarrow> int) \<Rightarrow> target \<Rightarrow> target list \<Rightarrow> string list \<Rightarrow> int" where
  "checkSatisfied fs system tgt dependencies commands =
     (if rule_valid_to_run fs tgt dependencies then execRule system commands else 0)"

subsection \<open>The threads\<close>

record makefile =
  vertices :: "target list"
  dependencies :: "target \<Rightarrow> target list"
  antineighbors :: "target \<Rightarrow> target list"
  commands :: "target \<Rightarrow> string list"

text \<open>
  Where a thread is. The main thread goes through the parents of a rule that failed
  (\<open>Mark\<close>) or succeeded (\<open>Tally\<close>), those still to come in the list.
\<close>

datatype worker = Pull | Work target | Quit
datatype main_pc = Wait | Mark target "target list" | Tally target "target list" | Finish | Join

text \<open>
  \<open>None\<close> in the queue of jobs is the null pointer. The last fields only record what has
  happened: the rules put into the queue, taken by a worker, finished by one, taken by the
  main thread, found to have succeeded, and failed because of a dependency.
\<close>

record build =
  jobs :: "target option list"
  checked :: "target list"
  states :: "target \<Rightarrow> int"
  satisfied_dependencies :: "target \<Rightarrow> nat"
  workers :: "worker list"
  main_at :: main_pc
  enqueued :: "target list"
  started :: "target list"
  finished :: "target list"
  handled :: "target set"
  good :: "target set"
  marked :: "target set"

definition parmake_init :: "makefile \<Rightarrow> nat \<Rightarrow> (target \<Rightarrow> int) \<Rightarrow> build" where
  "parmake_init mk num_threads sts = (let leaf = filter (\<lambda>v. dependencies mk v = []) (vertices mk) in
     \<lparr>jobs = map Some leaf, checked = [], states = sts, satisfied_dependencies = (\<lambda>_. 0),
      workers = replicate num_threads Pull, main_at = Wait, enqueued = leaf, started = [], finished = [],
      handled = {}, good = {}, marked = {}\<rparr>)"

text \<open>A step of worker \<open>i\<close> in \<open>myjob\<close>; without a job it waits.\<close>

definition worker_take :: "nat \<Rightarrow> build \<Rightarrow> build option" where
  "worker_take i st = (case jobs st of
      [] \<Rightarrow> None
    | Some t # js \<Rightarrow> Some (st\<lparr>jobs := js, workers := (workers st)[i := Work t], started := started st @ [t]\<rparr>)
    | None # js \<Rightarrow> Some (st\<lparr>jobs := js @ [None], workers := (workers st)[i := Quit]\<rparr>))"

definition worker_finish :: "makefile \<Rightarrow> files \<Rightarrow> (string \<Rightarrow> int) \<Rightarrow> nat \<Rightarrow> target \<Rightarrow> build \<Rightarrow> build" where
  "worker_finish mk fs system i t st = st\<lparr>
     states := (states st)(t := checkSatisfied fs system t (dependencies mk t) (commands mk t)),
     checked := checked st @ [t], workers := (workers st)[i := Pull], finished := finished st @ [t]\<rparr>"

text \<open>A step of the main thread.\<close>

definition main_step :: "makefile \<Rightarrow> build \<Rightarrow> build option" where
  "main_step mk st = (case main_at st of
      Wait \<Rightarrow> (case checked st of
          [] \<Rightarrow> None
        | t # ts \<Rightarrow> let st = st\<lparr>checked := ts, handled := insert t (handled st)\<rparr> in
            if t = [] then Some (st\<lparr>main_at := Finish\<rparr>)
            else if states st t = -1 then Some (st\<lparr>main_at := Mark t (antineighbors mk t)\<rparr>)
            else if states st t = 0 then
              Some (st\<lparr>main_at := Tally t (antineighbors mk t), good := insert t (good st)\<rparr>)
            else Some st)
    | Mark t [] \<Rightarrow> Some (st\<lparr>main_at := Wait\<rparr>)
    | Mark t (p # ps) \<Rightarrow> Some (st\<lparr>states := (states st)(p := -1), checked := checked st @ [p],
          main_at := Mark t ps, marked := insert p (marked st)\<rparr>)
    | Tally t [] \<Rightarrow> Some (st\<lparr>main_at := Wait\<rparr>)
    | Tally t (p # ps) \<Rightarrow>
        let n = satisfied_dependencies st p + 1;
            st = st\<lparr>satisfied_dependencies := (satisfied_dependencies st)(p := n), main_at := Tally t ps\<rparr>
        in Some (if n = length (dependencies mk p)
                 then st\<lparr>jobs := jobs st @ [Some p], enqueued := enqueued st @ [p]\<rparr> else st)
    | Finish \<Rightarrow> Some (st\<lparr>jobs := jobs st @ [None], main_at := Join\<rparr>)
    | Join \<Rightarrow> None)"

text \<open>Files and commands behave in any way at each run of a rule.\<close>

inductive build_step :: "makefile \<Rightarrow> build \<Rightarrow> build \<Rightarrow> bool" for mk where
  take_job: "i < length (workers st) \<Longrightarrow> workers st ! i = Pull \<Longrightarrow> worker_take i st = Some st' \<Longrightarrow> build_step mk st st'"
| finish_job: "i < length (workers st) \<Longrightarrow> workers st ! i = Work t \<Longrightarrow>
    build_step mk st (worker_finish mk fs system i t st)"
| main_thread: "main_step mk st = Some st' \<Longrightarrow> build_step mk st st'"

inductive build_reach :: "makefile \<Rightarrow> build \<Rightarrow> build \<Rightarrow> bool" for mk st0 where
  reach_start: "build_reach mk st0 st0"
| reach_step: "build_reach mk st0 st \<Longrightarrow> build_step mk st st' \<Longrightarrow> build_reach mk st0 st'"

section \<open>Invariant\<close>

text \<open>What \<open>graph.h\<close> says of the graph: no double edges, and \<open>antineighbors\<close> is the converse.\<close>

definition wf_makefile :: "makefile \<Rightarrow> bool" where
  "wf_makefile mk \<longleftrightarrow> distinct (vertices mk) \<and> [] \<in> set (vertices mk) \<and>
     (\<forall>v \<in> set (vertices mk). set (dependencies mk v) \<subseteq> set (vertices mk) \<and> distinct (dependencies mk v)) \<and>
     (\<forall>d. distinct (antineighbors mk d)) \<and>
     (\<forall>d p. p \<in> set (antineighbors mk d) \<longleftrightarrow> p \<in> set (vertices mk) \<and> d \<in> set (dependencies mk p))"

primrec real_jobs :: "target option list \<Rightarrow> target list" where
  "real_jobs [] = []"
| "real_jobs (j # js) = (case j of None \<Rightarrow> [] | Some t \<Rightarrow> [t]) @ real_jobs js"

primrec working :: "worker list \<Rightarrow> target multiset" where
  "working [] = {#}"
| "working (w # ws) = (case w of Work t \<Rightarrow> {#t#} | _ \<Rightarrow> {#}) + working ws"

text \<open>The parents that still wait to hear from \<open>d\<close>.\<close>

definition pending :: "build \<Rightarrow> target \<Rightarrow> target \<Rightarrow> bool" where
  "pending st d p \<longleftrightarrow> (\<exists>ps. main_at st = Tally d ps \<and> p \<in> set ps)"

definition unmarked :: "build \<Rightarrow> target \<Rightarrow> target \<Rightarrow> bool" where
  "unmarked st d p \<longleftrightarrow> (\<exists>ps. main_at st = Mark d ps \<and> p \<in> set ps)"

definition heard :: "makefile \<Rightarrow> build \<Rightarrow> target \<Rightarrow> target set" where
  "heard mk st p = {d \<in> set (dependencies mk p). d \<in> good st \<and> \<not> pending st d p}"

definition queue_inv :: "makefile \<Rightarrow> build \<Rightarrow> bool" where
  "queue_inv mk st \<longleftrightarrow>
     enqueued st = started st @ real_jobs (jobs st) \<and> distinct (enqueued st) \<and>
     set (enqueued st) \<subseteq> set (vertices mk) \<and>
     mset (started st) = mset (finished st) + working (workers st)"

definition count_inv :: "makefile \<Rightarrow> build \<Rightarrow> bool" where
  "count_inv mk st \<longleftrightarrow>
     (\<forall>p \<in> set (vertices mk). satisfied_dependencies st p = card (heard mk st p) \<and>
        (p \<in> set (enqueued st) \<longleftrightarrow> heard mk st p = set (dependencies mk p)))"

definition outcome_inv :: "makefile \<Rightarrow> build \<Rightarrow> bool" where
  "outcome_inv mk st \<longleftrightarrow>
     good st \<subseteq> set (finished st) \<and> good st \<subseteq> handled st \<and> (\<forall>t \<in> good st. states st t = 0) \<and>
     (\<forall>t \<in> set (finished st). states st t = 0 \<or> states st t = -1) \<and>
     marked st \<inter> set (enqueued st) = {} \<and> marked st \<subseteq> set (vertices mk) \<and>
     (\<forall>p \<in> marked st. states st p = -1 \<and> (\<exists>d \<in> set (dependencies mk p). d \<notin> good st \<and> states st d = -1 \<and>
        (d \<in> set (finished st) \<or> d \<in> marked st)))"

definition report_inv :: "makefile \<Rightarrow> build \<Rightarrow> bool" where
  "report_inv mk st \<longleftrightarrow>
     (\<forall>t. t \<in> set (checked st) \<union> handled st \<longleftrightarrow> t \<in> set (finished st) \<union> marked st) \<and>
     (\<forall>t. t \<notin> marked st \<longrightarrow> t \<in> set (checked st) \<longrightarrow> t \<notin> handled st) \<and>
     (\<forall>t. t \<notin> marked st \<longrightarrow> count (mset (checked st)) t \<le> 1) \<and>
     (\<forall>t \<in> handled st - {[]}. t \<notin> good st \<longrightarrow> states st t = -1 \<and>
        (\<forall>p \<in> set (antineighbors mk t). p \<in> marked st \<or> unmarked st t p))"

definition phase_inv :: "makefile \<Rightarrow> build \<Rightarrow> bool" where
  "phase_inv mk st \<longleftrightarrow>
     (case main_at st of
        Mark t ps \<Rightarrow> t \<notin> good st \<and> states st t = -1 \<and> (t \<in> set (finished st) \<or> t \<in> marked st) \<and>
          set ps \<subseteq> set (antineighbors mk t)
      | Tally t ps \<Rightarrow> t \<in> good st \<and> set ps \<subseteq> set (antineighbors mk t) \<and> distinct ps
      | _ \<Rightarrow> True) \<and>
     (if main_at st = Finish \<or> main_at st = Join then [] \<in> handled st else [] \<notin> handled st) \<and>
     (if main_at st = Join then None \<in> set (jobs st) else None \<notin> set (jobs st) \<and> Quit \<notin> set (workers st))"

definition build_inv :: "makefile \<Rightarrow> build \<Rightarrow> bool" where
  "build_inv mk st \<longleftrightarrow> queue_inv mk st \<and> count_inv mk st \<and> outcome_inv mk st \<and> report_inv mk st \<and> phase_inv mk st"

lemmas inv_defs = queue_inv_def count_inv_def outcome_inv_def report_inv_def phase_inv_def

section \<open>Preservation\<close>

lemma real_jobs_append [simp]: "real_jobs (js @ ks) = real_jobs js @ real_jobs ks"
  by (induction js) simp_all

lemma real_jobs_Some [simp]: "real_jobs (map Some ts) = ts"
  by (induction ts) simp_all

lemma working_replicate [simp]: "working (replicate n Pull) = {#}"
  by (induction n) simp_all

lemma working_upd:
  "i < length ws \<Longrightarrow> working (ws[i := w]) + working [ws ! i] = working ws + working [w]"
proof (induction ws arbitrary: i)
  case (Cons x ws)
  then show ?case by (cases i) (auto simp: ac_simps)
qed simp

lemma checkSatisfied_states: "checkSatisfied fs system t ds cs = 0 \<or> checkSatisfied fs system t ds cs = -1"
proof -
  have "execRule system cs = 0 \<or> execRule system cs = -1" by (induction cs) auto
  then show ?thesis by (simp add: checkSatisfied_def)
qed

lemma build_init_inv:
  assumes "wf_makefile mk"
  shows "build_inv mk (parmake_init mk n sts)"
proof -
  have "heard mk (parmake_init mk n sts) p = {}" for p by (simp add: heard_def parmake_init_def Let_def)
  then show ?thesis
    using assms by (auto simp: build_inv_def inv_defs parmake_init_def wf_makefile_def Let_def)
qed

lemma heard_cong: "good st' = good st \<Longrightarrow> main_at st' = main_at st \<Longrightarrow> heard mk st' = heard mk st"
  by (simp add: heard_def pending_def fun_eq_iff)

lemma take_inv:
  assumes inv: "build_inv mk st" and i: "i < length (workers st)" "workers st ! i = Pull" and s: "worker_take i st = Some st'"
  shows "build_inv mk st'"
proof (cases "jobs st")
  case Nil
  then show ?thesis using s by (simp add: worker_take_def)
next
  case (Cons j js)
  have h: "heard mk st' = heard mk st" using s Cons by (intro heard_cong) (auto simp: worker_take_def split: option.splits)
  have w: "working ((workers st)[i := Quit]) = working (workers st)"
      "working ((workers st)[i := Work t]) = working (workers st) + {#t#}" for t
    using working_upd [OF i(1), of Quit] working_upd [OF i(1), of "Work t"] i(2) by simp_all
  have q: "Quit \<notin> set (workers st) \<Longrightarrow> Quit \<notin> set ((workers st)[i := Work t])" for t
    by (meson set_update_subset_insert insertE subsetD worker.distinct)
  note parts = inv [unfolded build_inv_def]
  show ?thesis
  proof (cases j)
    case None
    then have join: "main_at st = Join" using inv Cons by (auto simp: build_inv_def phase_inv_def split: if_splits)
    have st': "st' = st\<lparr>jobs := js @ [None], workers := (workers st)[i := Quit]\<rparr>"
      using s Cons None by (simp add: worker_take_def)
    have "queue_inv mk st'" using parts Cons None w(1) by (auto simp: st' queue_inv_def)
    moreover have "count_inv mk st'" using parts h by (simp add: count_inv_def) (simp add: st')
    moreover have "outcome_inv mk st'" using parts by (simp add: st' outcome_inv_def)
    moreover have "report_inv mk st'" using parts by (simp add: st' report_inv_def unmarked_def)
    moreover have "phase_inv mk st'" using parts join by (simp add: st' phase_inv_def)
    ultimately show ?thesis by (simp add: build_inv_def)
  next
    case (Some t)
    have st': "st' = st\<lparr>jobs := js, workers := (workers st)[i := Work t], started := started st @ [t]\<rparr>"
      using s Cons Some by (simp add: worker_take_def)
    have "queue_inv mk st'" using parts Cons Some w(2) by (auto simp: st' queue_inv_def)
    moreover have "count_inv mk st'" using parts h by (simp add: count_inv_def) (simp add: st')
    moreover have "outcome_inv mk st'" using parts by (simp add: st' outcome_inv_def)
    moreover have "report_inv mk st'" using parts by (simp add: st' report_inv_def unmarked_def)
    moreover have "phase_inv mk st'" using parts Cons Some q
      by (auto simp: st' phase_inv_def split: if_splits main_pc.splits)
    ultimately show ?thesis by (simp add: build_inv_def)
  qed
qed

lemma finish_inv:
  assumes inv: "build_inv mk st" and i: "i < length (workers st)" "workers st ! i = Work t"
  shows "build_inv mk (worker_finish mk fs system i t st)" (is "build_inv mk ?st")
proof -
  note parts = inv [unfolded build_inv_def]
  let ?x = "checkSatisfied fs system t (dependencies mk t) (commands mk t)"
  have x: "?x = 0 \<or> ?x = -1" by (rule checkSatisfied_states)
  have w: "working (workers st) = add_mset t (working ((workers st)[i := Pull]))"
    using working_upd [OF i(1), of Pull] i(2) by simp
  then have m: "mset (started st) = add_mset t (mset (finished st) + working ((workers st)[i := Pull]))"
    using parts by (simp add: queue_inv_def)
  have "distinct (started st)" using parts by (auto simp: queue_inv_def)
  then have "count (mset (started st)) t \<le> 1" by (simp add: distinct_count_atmost_1)
  then have "count (mset (finished st)) t = 0" using m by simp
  then have t: "t \<in> set (started st)" "t \<notin> set (finished st)"
    using arg_cong [OF m, of set_mset] by (auto simp: count_eq_zero_iff)
  then have enq: "t \<in> set (enqueued st)" using parts by (simp add: queue_inv_def)
  then have um: "t \<notin> marked st" "t \<notin> good st" using parts t(2) by (auto simp: outcome_inv_def)
  then have new: "t \<notin> set (checked st)" "t \<notin> handled st" using parts t(2) by (auto simp: report_inv_def)
  have h: "heard mk ?st = heard mk st" by (intro heard_cong) (simp_all add: worker_finish_def)
  have q: "Quit \<notin> set (workers st) \<Longrightarrow> Quit \<notin> set ((workers st)[i := Pull])"
    by (meson set_update_subset_insert insertE subsetD worker.distinct)
  have "queue_inv mk ?st" using parts w by (auto simp: worker_finish_def queue_inv_def)
  moreover have "count_inv mk ?st" using parts h by (simp add: count_inv_def) (simp add: worker_finish_def)
  moreover have "outcome_inv mk ?st"
    using parts x um t by (auto simp: worker_finish_def outcome_inv_def)
  moreover have "report_inv mk ?st" using parts new um t
    by (auto simp: worker_finish_def report_inv_def unmarked_def count_eq_zero_iff)
  moreover have "phase_inv mk ?st" using parts q um t
    by (auto simp: worker_finish_def phase_inv_def split: main_pc.splits if_splits)
  ultimately show ?thesis by (simp add: build_inv_def)
qed

lemma finished_enqueued: "queue_inv mk st \<Longrightarrow> set (finished st) \<subseteq> set (enqueued st)"
  using set_mset_mset by (fastforce simp: queue_inv_def dest!: arg_cong [of _ _ set_mset])

lemma queue_inv_cong:
  assumes "queue_inv mk st" "enqueued st' = enqueued st" "started st' = started st" "finished st' = finished st"
    "workers st' = workers st" "real_jobs (jobs st') = real_jobs (jobs st)"
  shows "queue_inv mk st'"
  using assms(1) unfolding queue_inv_def assms(2-) .

lemma report_inv_cong:
  assumes "report_inv mk st" "checked st' = checked st" "handled st' = handled st" "finished st' = finished st"
    "marked st' = marked st" "good st' = good st" "states st' = states st" "unmarked st' = unmarked st"
  shows "report_inv mk st'"
  using assms(1) unfolding report_inv_def assms(2-) .

lemma queue_inv_parts:
  assumes "queue_inv mk st"
  shows "distinct (started st)" "distinct (real_jobs (jobs st))" "set (started st) \<inter> set (real_jobs (jobs st)) = {}"
    "set (started st) \<subseteq> set (vertices mk)" "set (real_jobs (jobs st)) \<subseteq> set (vertices mk)"
    "enqueued st = started st @ real_jobs (jobs st)" "mset (started st) = mset (finished st) + working (workers st)"
  using assms by (auto simp: queue_inv_def)

text \<open>The main thread takes a rule from the queue.\<close>

lemma wait_inv:
  assumes wf: "wf_makefile mk" and inv: "build_inv mk st" and at: "main_at st = Wait" "checked st = t # ts"
    and s: "main_step mk st = Some st'"
  shows "build_inv mk st'"
proof -
  note parts = inv [unfolded build_inv_def]
  let ?st = "st\<lparr>checked := ts, handled := insert t (handled st)\<rparr>"
  have t: "t \<in> set (finished st) \<or> t \<in> marked st" using parts at(2) by (auto simp: report_inv_def)
  then have st01: "states st t = 0 \<or> states st t = -1" using parts by (auto simp: outcome_inv_def)
  have once: "t \<notin> marked st \<Longrightarrow> t \<notin> set ts \<and> t \<notin> handled st" using parts at(2)
    by (auto simp: report_inv_def count_eq_zero_iff dest!: spec [of _ t])
  have ng: "t \<in> good st \<Longrightarrow> states st t = 0" using parts by (simp add: outcome_inv_def)
  have no: "\<not> unmarked st u p" for u p using at by (simp add: unmarked_def)
  note rp = parts [THEN conjunct2, THEN conjunct2, THEN conjunct2, THEN conjunct1, unfolded report_inv_def at(2)]
  have rep: "report_inv mk st'" if st': "checked st' = ts" "handled st' = insert t (handled st)" "finished st' = finished st"
      "marked st' = marked st" "good st \<subseteq> good st'" "states st' = states st"
    and new: "t = [] \<or> t \<in> good st' \<or> states st t = -1 \<and> (\<forall>p \<in> set (antineighbors mk t). unmarked st' t p)"
    for st'
    unfolding report_inv_def st'
  proof (intro conjI)
    show "\<forall>u. u \<in> set ts \<union> insert t (handled st) \<longleftrightarrow> u \<in> set (finished st) \<union> marked st"
      using rp [THEN conjunct1] by auto
    show "\<forall>u. u \<notin> marked st \<longrightarrow> u \<in> set ts \<longrightarrow> u \<notin> insert t (handled st)"
      using rp [THEN conjunct2, THEN conjunct1] once by auto
    show "\<forall>u. u \<notin> marked st \<longrightarrow> count (mset ts) u \<le> 1"
      using rp [THEN conjunct2, THEN conjunct2, THEN conjunct1] by (metis One_nat_def add_leD1 count_add_mset mset.simps(2) Suc_leD order_trans le_SucI le_refl)
    show "\<forall>u \<in> insert t (handled st) - {[]}. u \<notin> good st' \<longrightarrow> states st u = -1 \<and>
        (\<forall>p \<in> set (antineighbors mk u). p \<in> marked st \<or> unmarked st' u p)"
      using rp [THEN conjunct2, THEN conjunct2, THEN conjunct2] new no st'(5) by blast
  qed
  consider "t = []" "st' = ?st\<lparr>main_at := Finish\<rparr>"
    | "t \<noteq> []" "states st t = -1" "st' = ?st\<lparr>main_at := Mark t (antineighbors mk t)\<rparr>"
    | "t \<noteq> []" "states st t = 0" "st' = ?st\<lparr>main_at := Tally t (antineighbors mk t), good := insert t (good st)\<rparr>"
    using s at st01 by (auto simp: main_step_def Let_def split: if_splits)
  then show ?thesis
  proof cases
    case 1
    have "heard mk st' = heard mk st" using 1 at by (simp add: heard_def pending_def fun_eq_iff)
    then have "count_inv mk st'" using parts by (simp add: count_inv_def) (simp add: 1)
    moreover have "queue_inv mk st'" by (rule queue_inv_cong [of mk st]) (use parts in \<open>simp_all add: 1\<close>)
    moreover have "outcome_inv mk st'" using parts by (auto simp: 1 outcome_inv_def)
    moreover have "report_inv mk st'" by (rule rep) (use at 1 in \<open>simp_all add: 1 unmarked_def\<close>)
    moreover have "phase_inv mk st'" using parts at by (simp add: 1 phase_inv_def)
    ultimately show ?thesis by (simp add: build_inv_def)
  next
    case 2
    have "heard mk st' = heard mk st" using 2 at by (simp add: heard_def pending_def fun_eq_iff)
    then have "count_inv mk st'" using parts by (simp add: count_inv_def) (simp add: 2)
    moreover have "queue_inv mk st'" by (rule queue_inv_cong [of mk st]) (use parts in \<open>simp_all add: 2\<close>)
    moreover have "outcome_inv mk st'" using parts by (auto simp: 2 outcome_inv_def)
    moreover have "report_inv mk st'" by (rule rep) (use at 2 in \<open>simp_all add: 2 unmarked_def\<close>)
    moreover have "phase_inv mk st'" using parts at t ng 2(2) by (auto simp: 2 phase_inv_def)
    ultimately show ?thesis by (simp add: build_inv_def)
  next
    case 3
    have um: "t \<notin> marked st" using parts 3(2) by (auto simp: outcome_inv_def)
    then have new: "t \<notin> set ts" "t \<notin> handled st" "t \<in> set (finished st)" using once t by auto
    have "heard mk st' p = heard mk st p" if "p \<in> set (vertices mk)" for p
      using that wf new parts at by (auto simp: 3 heard_def pending_def wf_makefile_def outcome_inv_def)
    then have "count_inv mk st'" using parts by (simp add: count_inv_def) (simp add: 3)
    moreover have "queue_inv mk st'" by (rule queue_inv_cong [of mk st]) (use parts in \<open>simp_all add: 3\<close>)
    moreover have "outcome_inv mk st'" unfolding outcome_inv_def
    proof (intro conjI)
      have "d \<noteq> t" if "states st d = -1" for d using that 3(2) by auto
      then show "\<forall>p \<in> marked st'. states st' p = -1 \<and> (\<exists>d \<in> set (dependencies mk p). d \<notin> good st' \<and>
          states st' d = -1 \<and> (d \<in> set (finished st') \<or> d \<in> marked st'))"
        using parts [THEN conjunct2, THEN conjunct2, THEN conjunct1, unfolded outcome_inv_def, THEN conjunct2, THEN conjunct2,
            THEN conjunct2, THEN conjunct2, THEN conjunct2, THEN conjunct2] by (simp add: 3(3)) blast
      note o = parts [THEN conjunct2, THEN conjunct2, THEN conjunct1, unfolded outcome_inv_def]
      show "good st' \<subseteq> set (finished st')" "good st' \<subseteq> handled st'" using o [THEN conjunct1] o [THEN conjunct2, THEN conjunct1] new(3) by (auto simp: 3(3))
      show "\<forall>t \<in> good st'. states st' t = 0" using o 3(2) by (simp add: 3(3))
      show "\<forall>t \<in> set (finished st'). states st' t = 0 \<or> states st' t = -1" using o by (simp add: 3(3))
      show "marked st' \<inter> set (enqueued st') = {}" "marked st' \<subseteq> set (vertices mk)" using o by (simp_all add: 3(3))
    qed
    moreover have "report_inv mk st'" by (rule rep) (use at 3 new in \<open>simp_all add: 3 unmarked_def subset_insertI\<close>)
    moreover have "phase_inv mk st'" using parts at 3(1) wf by (auto simp: 3 phase_inv_def wf_makefile_def)
    ultimately show ?thesis by (simp add: build_inv_def)
  qed
qed

text \<open>One parent of a rule that failed.\<close>

lemma mark_inv:
  assumes wf: "wf_makefile mk" and inv: "build_inv mk st" and at: "main_at st = Mark t (p # ps)"
    and s: "main_step mk st = Some st'"
  shows "build_inv mk st'"
proof -
  note parts = inv [unfolded build_inv_def]
  have st': "st' = st\<lparr>states := (states st)(p := -1), checked := checked st @ [p],
      main_at := Mark t ps, marked := insert p (marked st)\<rparr>"
    using s at by (simp add: main_step_def)
  have ph: "t \<notin> good st" "states st t = -1" "t \<in> set (finished st) \<or> t \<in> marked st" "p \<in> set (antineighbors mk t)"
    using parts at by (auto simp: phase_inv_def)
  then have p: "p \<in> set (vertices mk)" "t \<in> set (dependencies mk p)" using wf by (auto simp: wf_makefile_def)
  then have enq: "p \<notin> set (enqueued st)" using parts ph(1) by (auto simp: count_inv_def heard_def)
  then have nf: "p \<notin> set (finished st)" "p \<notin> good st"
    using parts finished_enqueued by (auto simp: outcome_inv_def)
  have "heard mk st' = heard mk st" using at by (simp add: st' heard_def pending_def fun_eq_iff)
  then have "count_inv mk st'" using parts by (simp add: count_inv_def) (simp add: st')
  moreover have "queue_inv mk st'" by (rule queue_inv_cong [of mk st]) (use parts in \<open>simp_all add: st'\<close>)
  moreover have "outcome_inv mk st'" using parts enq nf p ph by (auto simp: st' outcome_inv_def)
  moreover have "report_inv mk st'" using parts at unfolding report_inv_def by (auto simp: st' unmarked_def)
  moreover have "phase_inv mk st'" using parts at by (auto simp: st' phase_inv_def)
  ultimately show ?thesis by (simp add: build_inv_def)
qed

text \<open>One parent of a rule that succeeded.\<close>

lemma tally_inv:
  assumes wf: "wf_makefile mk" and inv: "build_inv mk st" and at: "main_at st = Tally t (p # ps)"
    and s: "main_step mk st = Some st'"
  shows "build_inv mk st'"
proof -
  note parts = inv [unfolded build_inv_def]
  let ?n = "satisfied_dependencies st p + 1"
  let ?st = "st\<lparr>satisfied_dependencies := (satisfied_dependencies st)(p := ?n), main_at := Tally t ps\<rparr>"
  have st': "st' = (if ?n = length (dependencies mk p)
      then ?st\<lparr>jobs := jobs st @ [Some p], enqueued := enqueued st @ [p]\<rparr> else ?st)"
    using s at by (auto simp: main_step_def Let_def)
  have ph: "t \<in> good st" "p \<in> set (antineighbors mk t)" "p \<notin> set ps" "None \<notin> set (jobs st)" "Quit \<notin> set (workers st)"
    using parts at by (auto simp: phase_inv_def)
  then have p: "p \<in> set (vertices mk)" "t \<in> set (dependencies mk p)" using wf by (auto simp: wf_makefile_def)
  have dist: "distinct (dependencies mk p)" using wf p(1) by (simp add: wf_makefile_def)
  have old: "t \<notin> heard mk st p" using at by (simp add: heard_def pending_def)
  have hp: "heard mk st' p = insert t (heard mk st p)"
    using at ph p by (auto simp: st' heard_def pending_def)
  have hq: "heard mk st' q = heard mk st q" if "q \<noteq> p" for q
    using that at by (auto simp: st' heard_def pending_def)
  have fin: "finite (heard mk st p)" by (simp add: heard_def)
  have n: "?n = card (heard mk st' p)" using parts p(1) old fin by (simp add: count_inv_def hp)
  have sub: "heard mk st' p \<subseteq> set (dependencies mk p)" by (auto simp: heard_def)
  have full: "?n = length (dependencies mk p) \<longleftrightarrow> heard mk st' p = set (dependencies mk p)"
    using n sub dist by (metis card_subset_eq distinct_card List.finite_set)
  have enq: "p \<notin> set (enqueued st)" using parts p old by (auto simp: count_inv_def)
  have um: "p \<notin> marked st" if "heard mk st' p = set (dependencies mk p)"
  proof
    assume "p \<in> marked st"
    then obtain d where "d \<in> set (dependencies mk p)" "d \<notin> good st" using parts by (auto simp: outcome_inv_def)
    then show False using that by (auto simp: heard_def st' split: if_splits)
  qed
  have "count_inv mk st'" unfolding count_inv_def
  proof
    fix q assume q: "q \<in> set (vertices mk)"
    show "satisfied_dependencies st' q = card (heard mk st' q) \<and> (q \<in> set (enqueued st') \<longleftrightarrow> heard mk st' q = set (dependencies mk q))"
    proof (cases "q = p")
      case True
      then show ?thesis using n full enq by (simp add: st')
    next
      case False
      then show ?thesis using parts q hq [OF False] by (simp add: count_inv_def) (simp add: st')
    qed
  qed
  moreover have "queue_inv mk st'" unfolding queue_inv_def
  proof (intro conjI)
    note q = queue_inv_parts [OF parts [THEN conjunct1]]
    show "enqueued st' = started st' @ real_jobs (jobs st')" by (simp add: st' q(6))
    show "distinct (enqueued st')" using enq q(1-3) unfolding st' by (simp add: q(6))
    show "set (enqueued st') \<subseteq> set (vertices mk)" using p(1) q(4,5) by (simp add: st' q(6))
    show "mset (started st') = mset (finished st') + working (workers st')" by (simp add: st' q(7))
  qed
  moreover have "outcome_inv mk st'" using parts um full unfolding outcome_inv_def by (simp add: st')
  moreover have "report_inv mk st'" by (rule report_inv_cong [of mk st])
    (use parts at in \<open>simp_all add: st' unmarked_def fun_eq_iff\<close>)
  moreover have "phase_inv mk st'" unfolding phase_inv_def
    using parts [unfolded phase_inv_def at] ph(4,5) by (simp add: st')
  ultimately show ?thesis by (simp add: build_inv_def)
qed

lemma main_inv:
  assumes wf: "wf_makefile mk" and inv: "build_inv mk st" and s: "main_step mk st = Some st'"
  shows "build_inv mk st'"
proof -
  note parts = inv [unfolded build_inv_def]
  have "build_inv mk (st\<lparr>main_at := Wait\<rparr>)" if at: "main_at st = Mark t [] \<or> main_at st = Tally t []" for t
  proof -
    let ?st = "st\<lparr>main_at := Wait\<rparr>"
    have "heard mk ?st = heard mk st" using at by (auto simp: heard_def pending_def fun_eq_iff)
    then have "count_inv mk ?st" using parts by (simp add: count_inv_def)
    moreover have unmarked: "unmarked ?st u p \<longleftrightarrow> unmarked st u p" for u p using at by (auto simp: unmarked_def)
    moreover have "queue_inv mk ?st" by (rule queue_inv_cong [of mk st]) (use parts in simp_all)
    moreover have "outcome_inv mk ?st" using parts by (simp add: outcome_inv_def)
    moreover have "report_inv mk ?st" using parts unmarked unfolding report_inv_def by simp
    moreover have "phase_inv mk ?st" using parts at by (auto simp: phase_inv_def)
    ultimately show ?thesis by (simp add: build_inv_def)
  qed
  moreover have "build_inv mk (st\<lparr>jobs := jobs st @ [None], main_at := Join\<rparr>)" (is "build_inv mk ?st") if at: "main_at st = Finish"
  proof -
    have "heard mk ?st = heard mk st" using at by (auto simp: heard_def pending_def fun_eq_iff)
    then have "count_inv mk ?st" using parts by (simp add: count_inv_def)
    moreover have unmarked: "unmarked ?st u p \<longleftrightarrow> unmarked st u p" for u p using at by (auto simp: unmarked_def)
    moreover have "queue_inv mk ?st" by (rule queue_inv_cong [of mk st]) (use parts in simp_all)
    moreover have "outcome_inv mk ?st" using parts by (simp add: outcome_inv_def)
    moreover have "report_inv mk ?st" using parts unmarked unfolding report_inv_def by simp
    moreover have "phase_inv mk ?st" using parts at by (auto simp: phase_inv_def)
    ultimately show ?thesis by (simp add: build_inv_def)
  qed
  moreover have "st' = st\<lparr>main_at := Wait\<rparr>" if "main_at st = Mark t [] \<or> main_at st = Tally t []" for t
    using that s by (auto simp: main_step_def)
  moreover have "st' = st\<lparr>jobs := jobs st @ [None], main_at := Join\<rparr>" if "main_at st = Finish"
    using that s by (simp add: main_step_def)
  moreover have "main_at st \<noteq> Join" using s by (auto simp: main_step_def)
  moreover have "checked st \<noteq> []" if "main_at st = Wait" using that s by (auto simp: main_step_def)
  ultimately show ?thesis
    using wait_inv [OF wf inv _ _ s] mark_inv [OF wf inv _ s] tally_inv [OF wf inv _ s]
    by (metis main_pc.exhaust list.exhaust)
qed

lemma build_reach_inv:
  assumes "wf_makefile mk" "build_reach mk (parmake_init mk n sts) st"
  shows "build_inv mk st"
  using assms(2)
proof induction
  case reach_start
  show ?case using assms(1) by (rule build_init_inv)
next
  case (reach_step st st')
  from reach_step(2) show ?case
  proof (cases rule: build_step.cases)
    case (take_job i)
    show ?thesis by (rule take_inv [OF reach_step.IH take_job])
  next
    case (finish_job i t fs system)
    then show ?thesis using reach_step.IH by (simp add: finish_inv)
  next
    case main_thread
    then show ?thesis using main_inv [OF assms(1) reach_step.IH] by blast
  qed
qed

lemma build_step_workers: "build_step mk st st' \<Longrightarrow> length (workers st') = length (workers st)"
  by (induction rule: build_step.induct)
    (auto simp: worker_take_def worker_finish_def main_step_def Let_def
      split: list.splits option.splits main_pc.splits if_splits)

lemma build_reach_workers: "build_reach mk (parmake_init mk n sts) st \<Longrightarrow> length (workers st) = n"
  by (induction rule: build_reach.induct) (simp_all add: build_step_workers, simp add: parmake_init_def Let_def)

lemma working_empty: "(\<And>t. Work t \<notin> set ws) \<Longrightarrow> working ws = {#}"
  by (induction ws) (auto split: worker.splits)

text \<open>When every thread waits, everything below and including a vertex has been handled.\<close>

lemma all_handled:
  assumes wf: "wf_makefile mk" and inv: "build_inv mk st"
    and wait: "main_at st = Wait" "checked st = []" "jobs st = []" "\<And>t. Work t \<notin> set (workers st)"
    and acyclic: "\<And>v. v \<in> set (vertices mk) \<Longrightarrow> (v, v) \<notin> (depends (dependencies mk))\<^sup>+"
  shows "v \<in> set (vertices mk) \<Longrightarrow> v \<in> handled st"
proof -
  let ?V = "set (vertices mk)" and ?E = "depends (dependencies mk)"
  let ?R = "{(d, v). v \<in> ?V \<and> d \<in> ?V \<and> (v, d) \<in> ?E}"
  note parts = inv [unfolded build_inv_def]
  have "?R\<^sup>+ \<subseteq> {(d, v). v \<in> ?V \<and> (v, d) \<in> ?E\<^sup>+}"
  proof
    fix x assume "x \<in> ?R\<^sup>+"
    then obtain d v where x: "x = (d, v)" "(d, v) \<in> ?R\<^sup>+" by (cases x) auto
    from x(2) have "v \<in> ?V \<and> (v, d) \<in> ?E\<^sup>+"
      by induction (auto intro: trancl_into_trancl2)
    then show "x \<in> {(d, v). v \<in> ?V \<and> (v, d) \<in> ?E\<^sup>+}" using x(1) by simp
  qed
  then have "acyclic ?R" using acyclic by (auto simp: acyclic_def)
  moreover have "finite ?R" by (rule finite_subset [of _ "?V \<times> ?V"]) auto
  ultimately have "wf ?R" by (intro finite_acyclic_wf)
  have m: "mset (enqueued st) = mset (finished st)"
    using parts wait(3) working_empty [OF wait(4)] by (simp add: queue_inv_def)
  then have fin: "set (enqueued st) = set (finished st)" using mset_eq_setD by blast
  note rp = parts [THEN conjunct2, THEN conjunct2, THEN conjunct2, THEN conjunct1, unfolded report_inv_def]
  have sentinel: "[] \<notin> handled st" using parts wait(1) by (simp add: phase_inv_def)
  show "v \<in> ?V \<Longrightarrow> v \<in> handled st"
  proof (induction v rule: wf_induct_rule [OF \<open>wf ?R\<close>])
    case (1 v)
    have deps: "d \<in> handled st" if "d \<in> set (dependencies mk v)" for d
      using that 1 wf by (auto simp: wf_makefile_def depends_def)
    show ?case
    proof (cases "set (dependencies mk v) \<subseteq> good st")
      case True
      then have "heard mk st v = set (dependencies mk v)" using wait(1) by (auto simp: heard_def pending_def)
      then have "v \<in> set (finished st)" using parts 1(2) fin by (simp add: count_inv_def)
      then show ?thesis using rp [THEN conjunct1] wait(2) by auto
    next
      case False
      then obtain d where d: "d \<in> set (dependencies mk v)" "d \<notin> good st" by auto
      then have "v \<in> set (antineighbors mk d)" using wf 1(2) by (simp add: wf_makefile_def)
      moreover have "d \<noteq> []" using deps [OF d(1)] sentinel by auto
      ultimately have "v \<in> marked st"
        using rp [THEN conjunct2, THEN conjunct2, THEN conjunct2] deps [OF d(1)] d(2) wait(1)
        by (auto simp: unmarked_def)
      then show ?thesis using rp [THEN conjunct1] wait(2) by auto
    qed
  qed
qed

lemma build_in_order:
  assumes "wf_makefile mk" "build_reach mk (parmake_init mk n sts) st"
  shows "distinct (started st) \<and>
    (\<forall>t \<in> set (started st). \<forall>d \<in> set (dependencies mk t). d \<in> set (finished st) \<and> states st d = 0)"
proof -
  note parts = build_reach_inv [OF assms, unfolded build_inv_def]
  have "set (dependencies mk t) \<subseteq> good st" if "t \<in> set (started st)" for t
  proof -
    have "t \<in> set (vertices mk)" "t \<in> set (enqueued st)" using that parts by (auto simp: queue_inv_def)
    then have "heard mk st t = set (dependencies mk t)" using parts by (simp add: count_inv_def)
    then show ?thesis by (auto simp: heard_def)
  qed
  moreover have "good st \<subseteq> set (finished st)" "\<forall>d \<in> good st. states st d = 0"
    using parts by (simp_all add: outcome_inv_def)
  moreover have "distinct (started st)" using parts queue_inv_parts(1) by blast
  ultimately show ?thesis by blast
qed

lemma build_not_stuck:
  assumes "wf_makefile mk" "build_reach mk (parmake_init mk n sts) st" "0 < n"
    and "\<And>v. v \<in> set (vertices mk) \<Longrightarrow> (v, v) \<notin> (depends (dependencies mk))\<^sup>+"
  shows "(\<exists>st'. build_step mk st st') \<or> main_at st = Join \<and> set (workers st) = {Quit}"
proof (rule disjCI)
  assume stuck: "\<not> (main_at st = Join \<and> set (workers st) = {Quit})"
  note inv = build_reach_inv [OF assms(1,2)]
  have len: "length (workers st) = n" by (rule build_reach_workers [OF assms(2)])
  show "\<exists>st'. build_step mk st st'"
  proof (rule ccontr)
    assume no: "\<nexists>st'. build_step mk st st'"
    have work: "Work t \<notin> set (workers st)" for t
    proof
      assume "Work t \<in> set (workers st)"
      then show False using no finish_job by (metis in_set_conv_nth)
    qed
    have pull: "jobs st = []" if p: "Pull \<in> set (workers st)"
    proof (rule ccontr)
      assume "jobs st \<noteq> []"
      then have "\<exists>st'. worker_take i st = Some st'" for i
        by (auto simp: worker_take_def split: list.splits option.splits)
      then show False using no take_job p by (metis in_set_conv_nth)
    qed
    have main: "main_step mk st = None" using no main_thread by (metis option.exhaust)
    then consider "main_at st = Join" | "main_at st = Wait" "checked st = []"
      by (auto simp: main_step_def Let_def split: main_pc.splits list.splits if_splits)
    then show False
    proof cases
      case 1
      then have "jobs st \<noteq> []" using inv by (auto simp: build_inv_def phase_inv_def)
      then have "set (workers st) \<subseteq> {Quit}" using work pull by (metis insertI1 subsetI worker.exhaust)
      then show False using stuck 1 len assms(3) by (metis length_greater_0_conv set_empty subset_singletonD)
    next
      case 2
      then have "Quit \<notin> set (workers st)" using inv by (auto simp: build_inv_def phase_inv_def)
      then have "Pull \<in> set (workers st)" using work len assms(3) by (metis nth_mem worker.exhaust)
      then have "v \<in> set (vertices mk) \<Longrightarrow> v \<in> handled st" for v
        using all_handled [OF assms(1) inv 2 pull work assms(4)] by blast
      then have "[] \<in> handled st" using assms(1) by (simp add: wf_makefile_def)
      then show False using inv 2 by (simp add: build_inv_def phase_inv_def)
    qed
  qed
qed

section \<open>Properties\<close>

text \<open>
  C12: Whatever the order in which the threads run and whatever the commands do: a rule is run at
  most once, and only after each of its dependencies has been run and has succeeded.
\<close>

theorem parmake_runs_in_order:
  assumes "wf_makefile mk" "build_reach mk (parmake_init mk n sts) st"
  shows "distinct (started st) \<and>
    (\<forall>t \<in> set (started st). \<forall>d \<in> set (dependencies mk t). d \<in> set (finished st) \<and> states st d = 0)"
  by (rule build_in_order [OF assms])

definition two_rules :: makefile where
  "two_rules = \<lparr>vertices = [[], ''a''], dependencies = (\<lambda>t. if t = [] then [''a''] else []),
     antineighbors = (\<lambda>t. if t = ''a'' then [[]] else []), commands = (\<lambda>_. [])\<rparr>"

lemma wf_two_rules: "wf_makefile two_rules"
  by (auto simp: wf_makefile_def two_rules_def)

theorem parmake_runs_in_order_witness:
  "\<exists>st. build_reach two_rules (parmake_init two_rules 1 (\<lambda>_. 1)) st \<and> started st = [''a''] \<and> distinct (started st)"
proof -
  let ?st = "parmake_init two_rules 1 (\<lambda>_. 1)"
  let ?st' = "?st\<lparr>jobs := [], workers := [Work ''a''], started := [''a'']\<rparr>"
  have "build_step two_rules ?st ?st'"
    by (rule take_job [of 0]) (simp_all add: parmake_init_def worker_take_def two_rules_def)
  then have r: "build_reach two_rules ?st ?st'" by (blast intro: build_reach.intros)
  show ?thesis using parmake_runs_in_order [OF wf_two_rules r] r by (intro exI [of _ ?st']) simp
qed

text \<open>
  C13: The threads of a build never wait for each other forever: with at least one worker and no
  dependency cycle, a reachable state in which no thread can move is one in which the main
  thread has come to join its workers and every worker has returned.
\<close>

theorem parmake_no_deadlock:
  assumes "wf_makefile mk" "build_reach mk (parmake_init mk n sts) st" "0 < n"
    and "\<And>v. v \<in> set (vertices mk) \<Longrightarrow> (v, v) \<notin> (depends (dependencies mk))\<^sup>+"
  shows "(\<exists>st'. build_step mk st st') \<or> main_at st = Join \<and> set (workers st) = {Quit}"
  using assms by (rule build_not_stuck)

theorem parmake_no_deadlock_witness:
  "\<exists>st'. build_step two_rules (parmake_init two_rules 1 (\<lambda>_. 1)) st'"
proof -
  have "(v, v) \<notin> (depends (dependencies two_rules))\<^sup>+" for v
  proof
    have e: "x = [] \<and> y = ''a''" if "(x, y) \<in> depends (dependencies two_rules)" for x y
      using that by (auto simp: depends_def two_rules_def split: if_splits)
    assume "(v, v) \<in> (depends (dependencies two_rules))\<^sup>+"
    then show False by (metis e tranclD tranclD2 list.distinct(1))
  qed
  from parmake_no_deadlock [where sts = "\<lambda>_. 1", OF wf_two_rules reach_start _ this, of 1] show ?thesis
    by (simp add: parmake_init_def Let_def)
qed

end
