(* ===== verification/Make_Parser.thy ===== *)
theory Make_Parser
  imports C_String Ctype
begin

text \<open>
  The makefile parser, \<open>parallel_make/parser.c\<close>, with the rules of \<open>parallel_make/rule.c\<close>. The
  graph library is not part of the repository: the model keeps the values the parser gives
  to its vertices, which are the rules of \<open>rule.c\<close>, and the list of the edges it asks for.
  Reading back the text of a list of rules gives those rules, their dependencies and the
  first one as the goal.
\<close>

section \<open>The model\<close>

record rule_t =
  rule_target :: string
  rule_commands :: "string list"
  rule_state :: int

definition rule_init :: "rule_t" where
  "rule_init = \<lparr>rule_target = [], rule_commands = [], rule_state = 0\<rparr>"

definition str_to_rule_constructor :: "string \<Rightarrow> rule_t" where
  "str_to_rule_constructor s = rule_init\<lparr>rule_target := s\<rparr>"

text \<open>\<open>rules\<close>: the vertices of the graph with their values. \<open>curr_rule\<close> points to the value of a vertex.\<close>

record parser =
  rules :: "string \<rightharpoonup> rule_t"
  edges :: "(string \<times> string) list"
  first_target :: "string option"
  curr_rule :: "string option"
  line_number :: size_t
  in_command_block :: bool
  overridden :: "(size_t \<times> int \<times> string) list"

definition split_line_on_spaces :: "string \<Rightarrow> string list" where
  "split_line_on_spaces line = strtok_all (CHR '' '') line"

definition is_makefile_target :: "string \<Rightarrow> bool" where
  "is_makefile_target line = (case line of [] \<Rightarrow> False
     | c # _ \<Rightarrow> isalnum c \<or> c = CHR ''.'' \<or> c = CHR ''/'')"

definition zero_out_states :: "parser \<Rightarrow> parser" where
  "zero_out_states g = g\<lparr>rules := (\<lambda>v. map_option (\<lambda>r. r\<lparr>rule_state := 0\<rparr>) (rules g v))\<rparr>"

primrec skip_whitespace :: "string \<Rightarrow> string" where
  "skip_whitespace [] = []"
| "skip_whitespace (c # cs) = (if is_space c then skip_whitespace cs else c # cs)"

text \<open>The offset of the first white space.\<close>

primrec find_whitespace :: "string \<Rightarrow> nat" where
  "find_whitespace [] = 0"
| "find_whitespace (c # cs) = (if is_space c then 0 else Suc (find_whitespace cs))"

definition terminate_whitespace :: "string \<Rightarrow> string" where
  "terminate_whitespace str = take (find_whitespace str) str"

function strip_back_whitespace :: "string \<Rightarrow> string" where
  "strip_back_whitespace str =
     (if str \<noteq> [] \<and> is_space (last str) then strip_back_whitespace (butlast str) else str)"
  by pat_completeness auto
termination by (relation "measure length") auto

text \<open>\<open>in_quotes str n q\<close>: the flag after the loop has come to the offset \<open>n\<close>.\<close>

fun in_quotes :: "string \<Rightarrow> nat \<Rightarrow> bool \<Rightarrow> bool" where
  "in_quotes str 0 inQuotes = inQuotes"
| "in_quotes [] (Suc n) inQuotes = inQuotes"
| "in_quotes (p # str) (Suc n) inQuotes =
     (if p = CHR 0x5C then in_quotes (drop 1 str) (n - 1) inQuotes
      else in_quotes str n (if p = CHR 0x22 then \<not> inQuotes else inQuotes))"

text \<open>\<open>comment_loop str k\<close>: the loop from the offset \<open>k\<close> of \<open>comment_str\<close> on.\<close>

function comment_loop :: "string \<Rightarrow> nat \<Rightarrow> string" where
  "comment_loop str k = (if length str < k then str else case strstr (drop k str) ''#'' of
      None \<Rightarrow> str
    | Some j \<Rightarrow> if \<not> in_quotes str (k + j) False then take (k + j) str
        else comment_loop str (Suc (k + j)))"
  by pat_completeness auto
termination by (relation "measure (\<lambda>(str, k). Suc (length str) - k)") auto

definition strip_back_comments :: "string \<Rightarrow> string" where
  "strip_back_comments str = comment_loop str 0"

declare strip_back_whitespace.simps [simp del] comment_loop.simps [simp del]

text \<open>The content of the makefile at \<open>makefile_name\<close>; the null pointer is \<open>None\<close>.\<close>

definition open_makefile :: "(string \<rightharpoonup> string) \<Rightarrow> string option \<Rightarrow> string res" where
  "open_makefile fs makefile_name = (case makefile_name of
      None \<Rightarrow> Fault (Exit 2)
    | Some n \<Rightarrow> (case fs n of None \<Rightarrow> Fault (Exit 2) | Some content \<Rightarrow> OK content))"

definition graph_set_vertex_value :: "string \<Rightarrow> parser \<Rightarrow> parser" where
  "graph_set_vertex_value v g = g\<lparr>rules := (rules g)(v \<mapsto> str_to_rule_constructor v)\<rparr>"

text \<open>One recipe line.\<close>

definition recipe_line :: "string \<Rightarrow> parser \<Rightarrow> parser res" where
  "recipe_line line g = (case curr_rule g of
      None \<Rightarrow> Fault (Exit 2)
    | Some t \<Rightarrow> (case rules g t of None \<Rightarrow> Fault Use_After_Free | Some r \<Rightarrow>
        let (r, warn) = (if in_command_block g then (r, [])
              else if rule_state r = 0 then (r\<lparr>rule_state := to_int (line_number g)\<rparr>, [])
              else (r\<lparr>rule_state := to_int (line_number g), rule_commands := []\<rparr>,
                [(line_number g, rule_state r, rule_target r)]))
        in OK (g\<lparr>rules := (rules g)(t \<mapsto> r\<lparr>rule_commands := rule_commands r @ [line]\<rparr>),
             in_command_block := True, overridden := overridden g @ warn\<rparr>)))"

text \<open>The loop over the dependencies of a rule line.\<close>

primrec add_dependencies :: "string \<Rightarrow> string list \<Rightarrow> parser \<Rightarrow> parser" where
  "add_dependencies line [] g = g"
| "add_dependencies line (d # ds) g =
     (let g = (if rules g d = None then graph_set_vertex_value d g else g)
      in add_dependencies line ds (g\<lparr>edges := edges g @ [(line, d)]\<rparr>))"

definition rule_line :: "string \<Rightarrow> parser \<Rightarrow> parser res" where
  "rule_line line g = (let g = g\<lparr>in_command_block := False, curr_rule := None\<rparr> in
     case strstr line '':'' of
      None \<Rightarrow> Fault (Exit 2)
    | Some n \<Rightarrow>
        let depLine = drop (Suc n) line;
            line = terminate_whitespace (take n line);
            g = (if rules g line = None then (graph_set_vertex_value line g)
                   \<lparr>first_target := (case first_target g of None \<Rightarrow> Some line | Some t \<Rightarrow> Some t)\<rparr>
                 else g)
        in OK (add_dependencies line (split_line_on_spaces depLine) (g\<lparr>curr_rule := Some line\<rparr>)))"

text \<open>The body of the loop over the lines of the file.\<close>

definition parse_line :: "string \<Rightarrow> parser \<Rightarrow> parser res" where
  "parse_line lineBuf g = (
     let g = g\<lparr>line_number := line_number g + 1\<rparr>;
         lineBuf = strip_back_whitespace (strip_line lineBuf);
         line = strip_back_comments (skip_whitespace lineBuf)
     in if line = [] then OK g
        else if hd lineBuf = CHR 0x09 then recipe_line line g
        else if is_makefile_target line then rule_line line g
        else Fault (Exit 2))"

text \<open>The edges from the sentinel to the goals.\<close>

primrec add_goals :: "string list \<Rightarrow> parser \<Rightarrow> parser res" where
  "add_goals [] g = OK g"
| "add_goals (t # ts) g = (if rules g t = None then Fault (Exit 1)
     else add_goals ts (g\<lparr>edges := edges g @ [([], t)]\<rparr>))"

definition empty_parser :: parser where
  "empty_parser = \<lparr>rules = Map.empty, edges = [], first_target = None, curr_rule = None,
     line_number = 0, in_command_block = False, overridden = []\<rparr>"

definition parser_parse_makefile :: "(string \<rightharpoonup> string) \<Rightarrow> string option \<Rightarrow> string list \<Rightarrow> parser res" where
  "parser_parse_makefile fs makeFileName goals =
     bindE (open_makefile fs makeFileName) (\<lambda>f.
     bindE (forE (getlines f) parse_line (graph_set_vertex_value [] empty_parser)) (\<lambda>g.
     bindE (if goals = [] then (case first_target g of None \<Rightarrow> Fault (Exit 2) | Some t \<Rightarrow> OK [t]) else OK goals) (\<lambda>goals.
     bindE (add_goals goals g) (\<lambda>g. OK (zero_out_states g)))))"

section \<open>Specification\<close>

text \<open>A rule in a makefile: its target, its dependencies and its commands.\<close>

type_synonym make_rule = "string \<times> string list \<times> string list"

fun rule_lines :: "make_rule \<Rightarrow> string list" where
  "rule_lines (t, ds, cs) = (t @ CHR '':'' # concat (map (\<lambda>d. CHR '' '' # d) ds)) # map (\<lambda>c. CHR 0x09 # c) cs"

definition print_makefile :: "make_rule list \<Rightarrow> string" where
  "print_makefile rs = concat (map (\<lambda>l. l @ [NL]) (concat (map rule_lines rs)))"

definition plain_name :: "string \<Rightarrow> bool" where
  "plain_name s \<longleftrightarrow> s \<noteq> [] \<and> (\<forall>c \<in> set s. \<not> is_space c \<and> c \<noteq> CHR ''#'' \<and> c \<noteq> NUL)"

definition plain_command :: "string \<Rightarrow> bool" where
  "plain_command s \<longleftrightarrow> s \<noteq> [] \<and> \<not> is_space (hd s) \<and> \<not> is_space (last s) \<and> NL \<notin> set s \<and> NUL \<notin> set s \<and>
     strip_back_comments s = s"

fun plain_rule :: "make_rule \<Rightarrow> bool" where
  "plain_rule (t, ds, cs) = (plain_name t \<and> CHR '':'' \<notin> set t \<and> is_makefile_target t \<and>
     (\<forall>d \<in> set ds. plain_name d) \<and> (\<forall>c \<in> set cs. plain_command c))"

definition rule_names :: "make_rule list \<Rightarrow> string set" where
  "rule_names rs = (\<Union>(t, ds, cs) \<in> set rs. insert t (set ds))"

definition recipe :: "make_rule list \<Rightarrow> string \<Rightarrow> string list" where
  "recipe rs k = (case map_of (map (\<lambda>(t, ds, cs). (t, cs)) rs) k of None \<Rightarrow> [] | Some cs \<Rightarrow> cs)"

definition make_vertices :: "make_rule list \<Rightarrow> string \<rightharpoonup> rule_t" where
  "make_vertices rs k = (if k = [] \<or> k \<in> rule_names rs
     then Some \<lparr>rule_target = k, rule_commands = recipe rs k, rule_state = 0\<rparr> else None)"

definition make_edges :: "make_rule list \<Rightarrow> (string \<times> string) list" where
  "make_edges rs = concat (map (\<lambda>(t, ds, cs). map (Pair t) ds) rs)"

section \<open>Lemmas\<close>

subsection \<open>White space and comments\<close>

lemma strip_back_whitespace_id: "s = [] \<or> \<not> is_space (last s) \<Longrightarrow> strip_back_whitespace s = s"
  by (subst strip_back_whitespace.simps) auto

lemma space_NL [simp]: "is_space NL" "is_space CR" "is_space (CHR 0x09)" "is_space (CHR '' '')"
  by (simp_all add: is_space_def NL_def CR_def)

lemma strip_line_NL: "NUL \<notin> set l \<Longrightarrow> l = [] \<or> \<not> is_space (last l) \<Longrightarrow> strip_line (l @ [NL]) = l"
  by (auto simp: strip_line_def)

lemma find_whitespace_none: "(\<And>c. c \<in> set s \<Longrightarrow> \<not> is_space c) \<Longrightarrow> find_whitespace s = length s"
  by (induction s) auto

lemma strstr_char: "c \<notin> set s \<Longrightarrow> strstr (s @ c # r) [c] = Some (length s)" "c \<notin> set s \<Longrightarrow> strstr s [c] = None"
  by (induction s) auto

lemma strip_back_comments_id: "CHR ''#'' \<notin> set s \<Longrightarrow> strip_back_comments s = s"
  by (simp add: strip_back_comments_def comment_loop.simps strstr_char)

lemma plain_nameD:
  assumes "plain_name s"
  shows "s \<noteq> []" "is_space c \<Longrightarrow> c \<notin> set s" "CHR ''#'' \<notin> set s" "NUL \<notin> set s" "\<not> is_space (last s)"
  using assms last_in_set [of s] by (simp_all add: plain_name_def) blast+

lemma split_dependencies:
  "(\<And>d. d \<in> set ds \<Longrightarrow> plain_name d) \<Longrightarrow> split_line_on_spaces (concat (map (\<lambda>d. CHR '' '' # d) ds)) = ds"
proof (induction ds)
  case (Cons d ds)
  have d: "d \<noteq> []" "CHR '' '' \<notin> set d" using plain_nameD(1,2) [OF Cons.prems [of d]] by simp_all
  show ?case
  proof (cases ds)
    case Nil
    then show ?thesis using d by (simp add: split_line_on_spaces_def strtok_all_delim strtok_all_step)
  next
    case (Cons e es)
    then show ?thesis using d Cons.IH Cons.prems
      by (simp add: split_line_on_spaces_def strtok_all_delim strtok_all_step)
  qed
qed (simp add: split_line_on_spaces_def)

subsection \<open>Rule lines\<close>

lemma add_dependencies_fields:
  "rules (add_dependencies t ds g) v =
     (if rules g v = None \<and> v \<in> set ds then Some (str_to_rule_constructor v) else rules g v)"
  "edges (add_dependencies t ds g) = edges g @ map (Pair t) ds"
  "first_target (add_dependencies t ds g) = first_target g"
  "curr_rule (add_dependencies t ds g) = curr_rule g"
  "in_command_block (add_dependencies t ds g) = in_command_block g"
  "overridden (add_dependencies t ds g) = overridden g"
proof -
  show "rules (add_dependencies t ds g) v =
     (if rules g v = None \<and> v \<in> set ds then Some (str_to_rule_constructor v) else rules g v)"
  proof (induction ds arbitrary: g)
    case (Cons d ds)
    show ?case
    proof (cases "rules g d")
      case None
      then show ?thesis by (auto simp: Let_def graph_set_vertex_value_def Cons.IH)
    next
      case (Some r)
      then show ?thesis by (auto simp: Let_def Cons.IH)
    qed
  qed simp
qed (induction ds arbitrary: g; simp add: Let_def graph_set_vertex_value_def)+

lemma parse_rule_line:
  assumes "plain_rule (t, ds, cs)"
  shows "\<exists>g'. parse_line ((t @ CHR '':'' # concat (map (\<lambda>d. CHR '' '' # d) ds)) @ [NL]) g = OK g' \<and>
    rules g' = (\<lambda>v. if rules g v = None \<and> v \<in> insert t (set ds) then Some (str_to_rule_constructor v) else rules g v) \<and>
    edges g' = edges g @ map (Pair t) ds \<and>
    first_target g' = (if rules g t = None \<and> first_target g = None then Some t else first_target g) \<and>
    curr_rule g' = Some t \<and> \<not> in_command_block g' \<and> overridden g' = overridden g"
proof -
  let ?d = "concat (map (\<lambda>d. CHR '' '' # d) ds)"
  let ?l = "t @ CHR '':'' # ?d"
  have t: "plain_name t" "CHR '':'' \<notin> set t" "is_makefile_target t" and ds: "\<And>d. d \<in> set ds \<Longrightarrow> plain_name d"
    using assms by auto
  obtain c t' where ct: "t = c # t'" using t(1) by (cases t) (auto simp: plain_name_def)
  have c: "\<not> is_space c" using t(1) ct by (auto simp: plain_name_def)
  have last: "\<not> is_space (last ?l)"
  proof (cases ds rule: rev_cases)
    case Nil
    then show ?thesis by (simp add: is_space_def)
  next
    case (snoc es d)
    then show ?thesis using plain_nameD(1,5) [OF ds [of d]] by simp
  qed
  have hash: "CHR ''#'' \<notin> set ?l" using plain_nameD(3) [OF t(1)] plain_nameD(3) [OF ds] by auto
  have "NUL \<noteq> CHR '':''" "NUL \<noteq> CHR '' ''" by (simp_all add: NUL_def)
  then have nul: "NUL \<notin> set ?l" using plain_nameD(4) [OF t(1)] plain_nameD(4) [OF ds] by auto
  have "strip_line (?l @ [NL]) = ?l" by (rule strip_line_NL) (use nul last in auto)
  moreover have "strip_back_whitespace ?l = ?l" by (rule strip_back_whitespace_id) (use last in blast)
  moreover have "skip_whitespace ?l = ?l" using ct c by simp
  moreover have "strip_back_comments ?l = ?l" by (rule strip_back_comments_id) (rule hash)
  moreover have "hd ?l \<noteq> CHR 0x09" using ct c space_NL(3) by auto
  moreover have "is_makefile_target ?l" using t(3) ct by (simp add: is_makefile_target_def)
  ultimately have pl: "parse_line (?l @ [NL]) g = rule_line ?l (g\<lparr>line_number := line_number g + 1\<rparr>)"
    by (simp add: parse_line_def Let_def ct)
  have find: "strstr ?l '':'' = Some (length t)" using strstr_char(1) [OF t(2)] by simp
  have tw: "terminate_whitespace t = t"
    using t(1) by (simp add: terminate_whitespace_def find_whitespace_none plain_name_def)
  let ?g0 = "g\<lparr>line_number := line_number g + 1, in_command_block := False, curr_rule := None\<rparr>"
  let ?g = "(if rules g t = None then (graph_set_vertex_value t ?g0)
      \<lparr>first_target := (case first_target g of None \<Rightarrow> Some t | Some t \<Rightarrow> Some t)\<rparr> else ?g0)\<lparr>curr_rule := Some t\<rparr>"
  have deps: "drop (Suc (length t)) ?l = ?d" "take (length t) ?l = t" by simp_all
  define g1 where "g1 = ?g"
  have "parse_line (?l @ [NL]) g = OK (add_dependencies t ds g1)"
    unfolding pl rule_line_def Let_def find option.case deps tw split_dependencies [OF ds]
    by (simp add: g1_def graph_set_vertex_value_def split_dependencies [OF ds])
  moreover have "rules g1 v = (if rules g v = None \<and> v = t then Some (str_to_rule_constructor v) else rules g v)" for v
    by (simp add: g1_def graph_set_vertex_value_def)
  moreover have "first_target g1 = (if rules g t = None \<and> first_target g = None then Some t else first_target g)"
    by (simp add: g1_def graph_set_vertex_value_def split: option.splits)
  moreover have "edges g1 = edges g" "curr_rule g1 = Some t" "\<not> in_command_block g1" "overridden g1 = overridden g"
    by (simp_all add: g1_def graph_set_vertex_value_def)
  ultimately show ?thesis by (intro exI [of _ "add_dependencies t ds g1"]) (simp add: add_dependencies_fields fun_eq_iff)
qed

subsection \<open>Recipe lines\<close>

lemma parse_recipe_line:
  assumes "plain_command c" "curr_rule g = Some t" "rules g t = Some r" "in_command_block g \<or> rule_state r = 0"
  shows "\<exists>g' r'. parse_line ((CHR 0x09 # c) @ [NL]) g = OK g' \<and> rules g' = (rules g)(t \<mapsto> r') \<and>
    rule_target r' = rule_target r \<and> rule_commands r' = rule_commands r @ [c] \<and> edges g' = edges g \<and>
    first_target g' = first_target g \<and> curr_rule g' = Some t \<and> in_command_block g' \<and> overridden g' = overridden g"
proof -
  let ?l = "CHR 0x09 # c"
  note c = assms(1) [unfolded plain_command_def]
  have "strip_line (?l @ [NL]) = ?l" by (rule strip_line_NL) (use c in \<open>auto simp: NUL_def\<close>)
  moreover have "strip_back_whitespace ?l = ?l" by (rule strip_back_whitespace_id) (use c in simp)
  moreover have "skip_whitespace ?l = c" using c by (cases c) simp_all
  ultimately have "parse_line (?l @ [NL]) g = recipe_line c (g\<lparr>line_number := line_number g + 1\<rparr>)"
    using c by (simp add: parse_line_def Let_def)
  moreover have "\<exists>st. recipe_line c (g\<lparr>line_number := line_number g + 1\<rparr>) = OK (g\<lparr>line_number := line_number g + 1,
      rules := (rules g)(t \<mapsto> r\<lparr>rule_state := st, rule_commands := rule_commands r @ [c]\<rparr>), in_command_block := True\<rparr>)"
    using assms(2-4) by (cases "in_command_block g") (auto simp: recipe_line_def Let_def intro: exI [of _ "rule_state r"])
  ultimately show ?thesis using assms(2) by fastforce
qed

lemma parse_recipe:
  assumes "\<And>c. c \<in> set cs \<Longrightarrow> plain_command c" "curr_rule g = Some t" "rules g t = Some r"
    "in_command_block g \<or> rule_state r = 0"
  shows "\<exists>g' r'. forE (map (\<lambda>c. (CHR 0x09 # c) @ [NL]) cs) parse_line g = OK g' \<and> rules g' = (rules g)(t \<mapsto> r') \<and>
    rule_target r' = rule_target r \<and> rule_commands r' = rule_commands r @ cs \<and> edges g' = edges g \<and>
    first_target g' = first_target g \<and> overridden g' = overridden g"
  using assms
proof (induction cs arbitrary: g r)
  case Nil
  then show ?case by (intro exI [of _ g] exI [of _ r]) (auto simp: fun_eq_iff)
next
  case (Cons c cs)
  from parse_recipe_line [OF _ Cons.prems(2-4), of c] Cons.prems(1)
  obtain g1 r1 where g1: "parse_line ((CHR 0x09 # c) @ [NL]) g = OK g1" "rules g1 = (rules g)(t \<mapsto> r1)"
    "rule_target r1 = rule_target r" "rule_commands r1 = rule_commands r @ [c]" "edges g1 = edges g"
    "first_target g1 = first_target g" "curr_rule g1 = Some t" "in_command_block g1" "overridden g1 = overridden g"
    by auto
  have p: "\<And>c. c \<in> set cs \<Longrightarrow> plain_command c" using Cons.prems(1) by simp
  have r1: "rules g1 t = Some r1" by (simp add: g1(2))
  obtain g2 r2 where
    "forE (map (\<lambda>c. (CHR 0x09 # c) @ [NL]) cs) parse_line g1 = OK g2" "rules g2 = (rules g1)(t \<mapsto> r2)"
    "rule_target r2 = rule_target r1" "rule_commands r2 = rule_commands r1 @ cs" "edges g2 = edges g1"
    "first_target g2 = first_target g1" "overridden g2 = overridden g1"
    using Cons.IH [OF p g1(7) r1 disjI1 [OF g1(8)]] by blast
  then show ?case using g1 by (intro exI [of _ g2] exI [of _ r2]) simp
qed

subsection \<open>Whole rules\<close>

text \<open>What the parser has after the lines of the rules \<open>rs\<close>.\<close>

definition parsed :: "make_rule list \<Rightarrow> parser \<Rightarrow> bool" where
  "parsed rs g \<longleftrightarrow> (\<forall>v. map_option (\<lambda>r. r\<lparr>rule_state := 0\<rparr>) (rules g v) = make_vertices rs v) \<and>
     (\<forall>v r. rules g v = Some r \<longrightarrow> v \<notin> fst ` set rs \<longrightarrow> rule_state r = 0) \<and>
     edges g = make_edges rs \<and> first_target g = (if rs = [] then None else Some (fst (hd rs))) \<and> overridden g = []"

lemma recipe_snoc:
  "t \<notin> fst ` set rs \<Longrightarrow> recipe (rs @ [(t, ds, cs)]) = (recipe rs)(t := cs)"
proof (rule ext)
  fix v assume t: "t \<notin> fst ` set rs"
  let ?m = "map (\<lambda>(t, ds, cs). (t, cs)) rs"
  have "map_of ?m t = None" using t by (force simp: map_of_eq_None_iff image_iff split: prod.splits)
  then show "recipe (rs @ [(t, ds, cs)]) v = ((recipe rs)(t := cs)) v"
    by (auto simp: recipe_def map_add_def split: option.splits)
qed

lemma rule_names_snoc: "rule_names (rs @ [(t, ds, cs)]) = rule_names rs \<union> insert t (set ds)"
  by (auto simp: rule_names_def)

lemma recipe_none: "v \<notin> fst ` set rs \<Longrightarrow> recipe rs v = []"
proof -
  assume "v \<notin> fst ` set rs"
  then have "map_of (map (\<lambda>(t, ds, cs). (t, cs)) rs) v = None"
    by (force simp: map_of_eq_None_iff image_iff split: prod.splits)
  then show ?thesis by (simp add: recipe_def)
qed

lemma parsed_snoc:
  assumes g: "parsed rs g" and new: "plain_rule (t, ds, cs)" "t \<notin> fst ` set rs"
  shows "\<exists>g'. forE (map (\<lambda>l. l @ [NL]) (rule_lines (t, ds, cs))) parse_line g = OK g' \<and> parsed (rs @ [(t, ds, cs)]) g'"
proof -
  have t0: "t \<noteq> []" using new(1) by (simp add: plain_name_def)
  obtain g1 where g1: "parse_line ((t @ CHR '':'' # concat (map (\<lambda>d. CHR '' '' # d) ds)) @ [NL]) g = OK g1"
    "rules g1 = (\<lambda>v. if rules g v = None \<and> v \<in> insert t (set ds) then Some (str_to_rule_constructor v) else rules g v)"
    "edges g1 = edges g @ map (Pair t) ds"
    "first_target g1 = (if rules g t = None \<and> first_target g = None then Some t else first_target g)"
    "curr_rule g1 = Some t" "overridden g1 = overridden g"
    using parse_rule_line [OF new(1), of g] by blast
  note p = g [unfolded parsed_def]
  have old: "\<exists>r. rules g1 t = Some r \<and> rule_state r = 0 \<and> rule_target r = t \<and> rule_commands r = []"
  proof (cases "rules g t")
    case None
    then show ?thesis by (simp add: g1(2) str_to_rule_constructor_def rule_init_def)
  next
    case (Some r)
    then have "Some (r\<lparr>rule_state := 0\<rparr>) = make_vertices rs t" using p by (metis option.simps(9))
    then have "r\<lparr>rule_state := 0\<rparr> = \<lparr>rule_target = t, rule_commands = recipe rs t, rule_state = 0\<rparr>"
      by (simp add: make_vertices_def split: if_splits)
    then have "rule_target r = t \<and> rule_commands r = []"
      using recipe_none [OF new(2)] by (cases r) simp
    then show ?thesis using Some p new(2) by (simp add: g1(2))
  qed
  then obtain r where r: "rules g1 t = Some r" "rule_state r = 0" "rule_target r = t" "rule_commands r = []" by blast
  have cs: "\<And>c. c \<in> set cs \<Longrightarrow> plain_command c" using new(1) by simp
  obtain g2 r2 where g2: "forE (map (\<lambda>c. (CHR 0x09 # c) @ [NL]) cs) parse_line g1 = OK g2"
    "rules g2 = (rules g1)(t \<mapsto> r2)" "rule_target r2 = t" "rule_commands r2 = cs" "edges g2 = edges g1"
    "first_target g2 = first_target g1" "overridden g2 = overridden g1"
    using parse_recipe [OF cs g1(5) r(1) disjI2 [OF r(2)], unfolded r(3,4) append_Nil] by blast
  have run: "forE (map (\<lambda>l. l @ [NL]) (rule_lines (t, ds, cs))) parse_line g = OK g2"
    using g1(1) g2(1) by (simp add: comp_def)
  have clear: "map_option (\<lambda>r. r\<lparr>rule_state := 0\<rparr>) (rules g2 v) = make_vertices (rs @ [(t, ds, cs)]) v" for v
  proof (cases "v = t")
    case True
    have "r2\<lparr>rule_state := 0\<rparr> = \<lparr>rule_target = t, rule_commands = cs, rule_state = 0\<rparr>" using g2(3,4) by (cases r2) simp
    then show ?thesis using True by (simp add: g2(2) make_vertices_def rule_names_snoc recipe_snoc [OF new(2)])
  next
    case False
    have e: "map_option (\<lambda>r. r\<lparr>rule_state := 0\<rparr>) (rules g v) = make_vertices rs v" using p by blast
    show ?thesis
    proof (cases "rules g v")
      case None
      then have "v \<noteq> []" "v \<notin> rule_names rs" using e by (auto simp: make_vertices_def split: if_splits)
      then have "recipe rs v = []" by (intro recipe_none) (force simp: rule_names_def)
      then show ?thesis using None False \<open>v \<noteq> []\<close> \<open>v \<notin> rule_names rs\<close>
        by (simp add: g2(2) g1(2) make_vertices_def rule_names_snoc recipe_snoc [OF new(2)] str_to_rule_constructor_def rule_init_def)
    next
      case (Some r)
      then have "v = [] \<or> v \<in> rule_names rs" using e by (auto simp: make_vertices_def split: if_splits)
      then show ?thesis using e Some False
        by (auto simp: g2(2) g1(2) make_vertices_def rule_names_snoc recipe_snoc [OF new(2)])
    qed
  qed
  have zero: "rule_state r' = 0" if "rules g2 v = Some r'" "v \<notin> fst ` set (rs @ [(t, ds, cs)])" for v r'
  proof -
    have "v \<noteq> t" "v \<notin> fst ` set rs" using that(2) by auto
    then show ?thesis using that(1) p
      by (auto simp: g2(2) g1(2) str_to_rule_constructor_def rule_init_def split: if_splits)
  qed
  have first: "rules g t = None" if "rs = []"
  proof -
    have "map_option (\<lambda>r. r\<lparr>rule_state := 0\<rparr>) (rules g t) = make_vertices [] t" using p that by blast
    then show ?thesis using t0 by (simp add: make_vertices_def rule_names_def)
  qed
  have "parsed (rs @ [(t, ds, cs)]) g2" unfolding parsed_def
    using clear zero first p by (auto simp: g2(5-7) g1(3,4,6) make_edges_def)
  then show ?thesis using run by blast
qed

lemma parse_rules:
  assumes "\<And>r. r \<in> set rs \<Longrightarrow> plain_rule r" "distinct (map fst (done @ rs))" "parsed done g"
  shows "\<exists>g'. forE (map (\<lambda>l. l @ [NL]) (concat (map rule_lines rs))) parse_line g = OK g' \<and> parsed (done @ rs) g'"
  using assms
proof (induction rs arbitrary: "done" g)
  case Nil
  then show ?case by simp
next
  case (Cons r rs)
  obtain t ds cs where r: "r = (t, ds, cs)" by (cases r) auto
  have new: "t \<notin> fst ` set done" using Cons.prems(2) r by auto
  obtain g1 where g1: "forE (map (\<lambda>l. l @ [NL]) (rule_lines r)) parse_line g = OK g1" "parsed (done @ [r]) g1"
    using parsed_snoc [OF Cons.prems(3) _ new, of ds cs] Cons.prems(1) [of r] unfolding r by auto
  have "\<exists>g'. forE (map (\<lambda>l. l @ [NL]) (concat (map rule_lines rs))) parse_line g1 = OK g' \<and> parsed ((done @ [r]) @ rs) g'"
    by (rule Cons.IH) (use Cons.prems(1,2) g1(2) in auto)
  then show ?case using g1(1) by (simp add: forE_append)
qed

lemma line_plain: "plain_rule r \<Longrightarrow> l \<in> set (rule_lines r) \<Longrightarrow> NL \<notin> set l"
proof -
  assume r: "plain_rule r" and l: "l \<in> set (rule_lines r)"
  obtain t ds cs where eq: "r = (t, ds, cs)" by (cases r) auto
  have name: "NL \<notin> set s" if "plain_name s" for s using plain_nameD(2) [OF that] by simp
  have cmd: "NL \<notin> set s" if "plain_command s" for s using that by (simp add: plain_command_def)
  have "NL \<noteq> CHR '':''" "NL \<noteq> CHR '' ''" "NL \<noteq> CHR 0x09" by (simp_all add: NL_def)
  then show ?thesis using r l name cmd unfolding eq by (fastforce split: if_splits)
qed

section \<open>Properties\<close>

text \<open>
  C14: Parsing the text of a list of rules with different targets returns exactly those rules: one
  vertex for the sentinel and for each target and dependency, with the commands of its rule and
  none where it has none, one edge for each dependency in the order of the text, no warning, and
  the edge from the sentinel to the first target.
\<close>

theorem parse_print:
  assumes "rs \<noteq> []" "\<And>r. r \<in> set rs \<Longrightarrow> plain_rule r" "distinct (map fst rs)" "fs n = Some (print_makefile rs)"
  shows "\<exists>g. parser_parse_makefile fs (Some n) [] = OK g \<and> rules g = make_vertices rs \<and>
    edges g = make_edges rs @ [([], fst (hd rs))] \<and> overridden g = []"
proof -
  have "parsed [] (graph_set_vertex_value [] empty_parser)"
    by (auto simp: parsed_def graph_set_vertex_value_def empty_parser_def make_vertices_def rule_names_def recipe_def
      make_edges_def str_to_rule_constructor_def rule_init_def)
  from parse_rules [OF assms(2) _ this] assms(3) obtain g where
    g: "forE (map (\<lambda>l. l @ [NL]) (concat (map rule_lines rs))) parse_line (graph_set_vertex_value [] empty_parser) = OK g"
    "parsed rs g" by auto
  have lines: "getlines (print_makefile rs) = map (\<lambda>l. l @ [NL]) (concat (map rule_lines rs))"
    unfolding print_makefile_def by (rule getlines_concat) 
    (use line_plain assms(2) in \<open>force simp del: rule_lines.simps plain_rule.simps\<close>)
  note p = g(2) [unfolded parsed_def]
  have first: "first_target g = Some (fst (hd rs))" using p assms(1) by simp
  have "fst (hd rs) \<in> rule_names rs" using assms(1) by (cases rs) (auto simp: rule_names_def)
  then have "map_option (\<lambda>r. r\<lparr>rule_state := 0\<rparr>) (rules g (fst (hd rs))) \<noteq> None" using p by (simp add: make_vertices_def)
  then have "add_goals [fst (hd rs)] g = OK (g\<lparr>edges := edges g @ [([], fst (hd rs))]\<rparr>)" by simp
  then show ?thesis using p g(1) first assms(4)
    by (simp add: parser_parse_makefile_def open_makefile_def lines zero_out_states_def fun_eq_iff)
qed

theorem parse_print_witness:
  "\<exists>g. parser_parse_makefile [''m'' \<mapsto> print_makefile [(''a'', [''b''], [''x'']), (''b'', [], [])]] (Some ''m'') [] = OK g \<and>
    edges g = [(''a'', ''b''), ([], ''a'')]"
proof -
  have "plain_rule (''a'', [''b''], [''x''])" "plain_rule (''b'', [], [])"
    by (simp_all add: plain_name_def plain_command_def strip_back_comments_id is_makefile_target_def isalnum_def
      isalpha_def is_space_def NL_def NUL_def Let_def)
  then have "plain_rule r" if "r \<in> set [(''a'', [''b''], [''x'']), (''b'', [], [])]" for r using that by auto
  then obtain g where "parser_parse_makefile [''m'' \<mapsto> print_makefile [(''a'', [''b''], [''x'']), (''b'', [], [])]] (Some ''m'') [] = OK g"
    "edges g = make_edges [(''a'', [''b''], [''x'']), (''b'', [], [])] @ [([], ''a'')]"
    using parse_print [of "[(''a'', [''b''], [''x'']), (''b'', [], [])]"
      "[''m'' \<mapsto> print_makefile [(''a'', [''b''], [''x'']), (''b'', [], [])]]" "''m''"] by auto
  then show ?thesis by (simp add: make_edges_def)
qed

end
