(* ===== verification/Minixfs.thy ===== *)
theory Minixfs
  imports C_String Decimal
begin

unbundle bit_operations_syntax

text \<open>
  The file operations of \<open>finding_filesystems/minixfs.c\<close>: mode and owner, creation of an inode,
  the virtual file, and reading and writing through direct and indirect blocks. The header with
  the sizes and the structures, and the library of helpers, are not part of the repository:
  they are the record \<open>fs_env\<close>. A read returns the bytes of the file, and a write that ends
  before the indirect blocks, or at the end of one, stores its bytes and changes no others.
\<close>

section \<open>The model\<close>

datatype fs_error = ENOENT | ENOSPC

record inode =
  mode :: "16 word"
  uid :: "32 word"
  gid :: "32 word"
  isize :: nat
  direct :: "int list"
  indirect :: int
  atim :: nat
  mtim :: nat
  ctim :: nat

text \<open>\<open>blocks\<close> are the data blocks from \<open>data_root\<close> on, \<open>data_map\<close> is the map of the used ones.\<close>

record filesystem =
  inodes :: "nat \<Rightarrow> inode"
  blocks :: "char list list"
  data_map :: "nat list"

text \<open>
  The constants of the header, the clock, and the helpers: \<open>numbers\<close> reads a block as an array
  of block numbers, \<open>dirent\<close> is the text of a directory entry, and the helpers that add blocks
  return the number of the block and the changed file system.
\<close>

record fs_env =
  block_size :: nat
  num_direct :: nat
  num_indirect :: nat
  rwx_bits :: nat
  now :: nat
  numbers :: "char list \<Rightarrow> int list"
  dirent :: "nat \<Rightarrow> string \<Rightarrow> string"
  is_virtual_path :: "string option \<Rightarrow> string option"
  get_inode :: "filesystem \<Rightarrow> string \<Rightarrow> nat option"
  parent_directory :: "filesystem \<Rightarrow> string \<Rightarrow> nat option \<times> string"
  valid_filename :: "string \<Rightarrow> bool"
  is_file :: "inode \<Rightarrow> bool"
  first_unused_inode :: "filesystem \<Rightarrow> int"
  init_inode :: "nat \<Rightarrow> nat \<Rightarrow> filesystem \<Rightarrow> filesystem"
  add_data_block_to_inode :: "nat \<Rightarrow> filesystem \<Rightarrow> int \<times> filesystem"
  add_single_indirect_block :: "nat \<Rightarrow> filesystem \<Rightarrow> int \<times> filesystem"
  add_data_block_to_indirect_block :: "int \<Rightarrow> filesystem \<Rightarrow> int \<times> filesystem"
  min_blockcount :: "string \<Rightarrow> nat \<Rightarrow> filesystem \<Rightarrow> int \<times> filesystem"

definition set_inode :: "nat \<Rightarrow> inode \<Rightarrow> filesystem \<Rightarrow> filesystem" where
  "set_inode i n fs = fs\<lparr>inodes := (inodes fs)(i := n)\<rparr>"

text \<open>The memory behind a block number, and the block numbers of a file.\<close>

definition peek :: "filesystem \<Rightarrow> int \<Rightarrow> nat \<Rightarrow> nat \<Rightarrow> string res" where
  "peek fs b at n = (if n = 0 then OK []
     else if 0 \<le> b \<and> nat b < length (blocks fs) \<and> at + n \<le> length (blocks fs ! nat b)
     then OK (take n (drop at (blocks fs ! nat b))) else Fault Out_Of_Bounds)"

definition poke :: "int \<Rightarrow> nat \<Rightarrow> string \<Rightarrow> filesystem \<Rightarrow> filesystem res" where
  "poke b at d fs = (if d = [] then OK fs
     else if 0 \<le> b \<and> nat b < length (blocks fs) \<and> at + length d \<le> length (blocks fs ! nat b)
     then OK (fs\<lparr>blocks := (blocks fs)[nat b := overwrite (blocks fs ! nat b) at d]\<rparr>) else Fault Out_Of_Bounds)"

definition direct_at :: "inode \<Rightarrow> nat \<Rightarrow> int res" where
  "direct_at node i = (if i < length (direct node) then OK (direct node ! i) else Fault Out_Of_Bounds)"

definition barray_at :: "fs_env \<Rightarrow> filesystem \<Rightarrow> inode \<Rightarrow> nat \<Rightarrow> int res" where
  "barray_at e fs node i = (let b = indirect node in
     if 0 \<le> b \<and> nat b < length (blocks fs) \<and> i < length (numbers e (blocks fs ! nat b))
     then OK (numbers e (blocks fs ! nat b) ! i) else Fault Out_Of_Bounds)"

subsection \<open>Mode and owner\<close>

definition minixfs_chmod :: "fs_env \<Rightarrow> string \<Rightarrow> 32 word \<Rightarrow> filesystem \<Rightarrow> (fs_error + unit) \<times> filesystem" where
  "minixfs_chmod e path new_permissions fs = (
     let path = (case is_virtual_path e (Some path) of Some mypath \<Rightarrow> mypath | None \<Rightarrow> path) in
     case get_inode e fs path of
       None \<Rightarrow> (Inl ENOENT, fs)
     | Some i \<Rightarrow>
         let node = inodes fs i;
             file_type = drop_bit (rwx_bits e) (mode node);
             perm = ucast new_permissions AND (0x1FF :: 16 word)
         in (Inr (), set_inode i (node\<lparr>mode := push_bit (rwx_bits e) file_type OR perm, ctim := now e\<rparr>) fs))"

definition minixfs_chown ::
  "fs_env \<Rightarrow> string \<Rightarrow> 32 word \<Rightarrow> 32 word \<Rightarrow> filesystem \<Rightarrow> (fs_error + unit) \<times> filesystem" where
  "minixfs_chown e path owner grp fs = (
     let path = (case is_virtual_path e (Some path) of Some mypath \<Rightarrow> mypath | None \<Rightarrow> path) in
     case get_inode e fs path of
       None \<Rightarrow> (Inl ENOENT, fs)
     | Some i \<Rightarrow>
         let node = inodes fs i;
             node = (if owner \<noteq> -1 then node\<lparr>uid := owner\<rparr> else node);
             node = (if grp \<noteq> -1 then node\<lparr>gid := grp\<rparr> else node)
         in (Inr (), set_inode i (node\<lparr>ctim := now e\<rparr>) fs))"

subsection \<open>Creating an inode\<close>

text \<open>
  Where the new entry of the parent goes: a block number and an offset in it. A place in the
  direct blocks first; \<open>None\<close> is the null pointer, on which the code goes on to the indirect
  ones. The outer option is a return with the null pointer.
\<close>

definition direct_place :: "fs_env \<Rightarrow> nat \<Rightarrow> filesystem \<Rightarrow> ((int \<times> nat) option option \<times> filesystem) res" where
  "direct_place e i fs = (let parent = inodes fs i in
     if isize parent = 0 then
       let (block, fs) = add_data_block_to_inode e i fs in
       if block = -1 then OK (None, fs)
       else bindE (direct_at (inodes fs i) 0) (\<lambda>b. OK (Some (Some (b, 0)), fs))
     else
       let bnum = isize parent div block_size e;
           occupied = isize parent - bnum * block_size e;
           room = block_size e - occupied
       in if 256 \<le> room then bindE (direct_at parent bnum) (\<lambda>b. OK (Some (Some (b, occupied)), fs))
          else let (block, fs) = add_data_block_to_inode e i fs in
            if block = -1 then OK (None, fs)
            else if block \<noteq> 0 then bindE (direct_at (inodes fs i) bnum) (\<lambda>b. OK (Some (Some (b, 0)), fs))
            else OK (Some None, fs))"

definition indirect_place :: "fs_env \<Rightarrow> nat \<Rightarrow> filesystem \<Rightarrow> ((int \<times> nat) option option \<times> filesystem) res" where
  "indirect_place e i fs = (let (ind, fs) = add_single_indirect_block e i fs in
     if ind = -1 then OK (None, fs)
     else let parent = inodes fs i; indsz = isize parent - num_direct e * block_size e in
       if indsz = 0 then
         let (block, fs) = add_data_block_to_indirect_block e (indirect parent) fs in
         if block = -1 then OK (None, fs)
         else bindE (barray_at e fs parent 0) (\<lambda>b. OK (Some (Some (b, 0)), fs))
       else
         let indnum = indsz div block_size e;
             used = indsz - indnum * block_size e;
             remain = block_size e - used
         in if 256 \<le> remain then bindE (barray_at e fs parent indnum) (\<lambda>b. OK (Some (Some (b, used)), fs))
            else let (block, fs) = add_data_block_to_indirect_block e (indirect parent) fs in
              if block = -1 then OK (None, fs)
              else if block \<noteq> 0 then bindE (barray_at e fs parent indnum) (\<lambda>b. OK (Some (Some (b, 0)), fs))
              else OK (Some None, fs))"

definition write_entry :: "fs_env \<Rightarrow> nat \<Rightarrow> nat \<Rightarrow> string \<Rightarrow> int \<times> nat \<Rightarrow> filesystem \<Rightarrow> (nat option \<times> filesystem) res" where
  "write_entry e i inum filenm place fs = (let fs = init_inode e i inum fs in
     bindE (poke (fst place) (snd place) (dirent e inum filenm) fs) (\<lambda>fs.
       OK (Some inum, set_inode i ((inodes fs i)\<lparr>isize := isize (inodes fs i) + 256\<rparr>) fs)))"

definition minixfs_create_inode_for_path ::
  "fs_env \<Rightarrow> string option \<Rightarrow> filesystem \<Rightarrow> (nat option \<times> filesystem) res" where
  "minixfs_create_inode_for_path e path fs = (case path of None \<Rightarrow> OK (None, fs) | Some path \<Rightarrow>
     case parent_directory e fs path of
       (None, filenm) \<Rightarrow> OK (None, fs)
     | (Some i, filenm) \<Rightarrow>
         if \<not> valid_filename e filenm \<or> is_file e (inodes fs i) then OK (None, fs)
         else case get_inode e fs path of
           Some n \<Rightarrow> OK (None, set_inode n ((inodes fs n)\<lparr>ctim := now e\<rparr>) fs)
         | None \<Rightarrow>
             let inum = first_unused_inode e fs in
             if inum = -1 then OK (None, fs)
             else bindE (direct_place e i fs) (\<lambda>(place, fs). case place of
                 None \<Rightarrow> OK (None, fs)
               | Some (Some p) \<Rightarrow> write_entry e i (nat inum) filenm p fs
               | Some None \<Rightarrow> bindE (indirect_place e i fs) (\<lambda>(place, fs). case place of
                   Some (Some p) \<Rightarrow> write_entry e i (nat inum) filenm p fs
                 | _ \<Rightarrow> OK (None, fs))))"

subsection \<open>The virtual file\<close>

definition block_info_string :: "nat \<Rightarrow> int \<Rightarrow> string" where
  "block_info_string data_number num_used_blocks =
     ''Free blocks: '' @ show_int (int data_number - num_used_blocks) @ [NL] @
     ''Used blocks: '' @ show_int num_used_blocks @ [NL]"

definition virtual_info :: "filesystem \<Rightarrow> string" where
  "virtual_info fs = (let used = length (filter (\<lambda>m. m = 1) (data_map fs));
       unused = length (filter (\<lambda>m. m = 0) (data_map fs))
     in ''Free blocks: '' @ show_nat unused @ [NL] @ ''Used blocks: '' @ show_nat used @ [NL])"

text \<open>The loops that find the second newline: the length of the text.\<close>

definition line_size :: "string \<Rightarrow> nat" where
  "line_size p = Suc (length (takeWhile (\<lambda>c. c \<noteq> NL) p))"

definition minixfs_virtual_read ::
  "string \<Rightarrow> nat \<Rightarrow> nat \<Rightarrow> filesystem \<Rightarrow> (fs_error + string) \<times> nat" where
  "minixfs_virtual_read path cnt off fs = (if path = ''info'' \<or> path = ''myvir'' then
       let str = virtual_info fs;
           sz = line_size str;
           sz = sz + line_size (drop sz str)
       in if sz \<le> off then (Inr [], off)
          else let cnt = (if sz < (off + cnt) mod 2 ^ 64 then sz - off else cnt)
            in (Inr (take cnt (drop off str)), off + cnt)
     else (Inl ENOENT, off))"

subsection \<open>Reading\<close>

text \<open>A loop that appends whole blocks to what has been copied.\<close>

definition copy_blocks :: "fs_env \<Rightarrow> filesystem \<Rightarrow> (nat \<Rightarrow> int res) \<Rightarrow> nat list \<Rightarrow> string \<Rightarrow> string res" where
  "copy_blocks e fs at is tmp = forE is (\<lambda>i tmp. bindE (at i) (\<lambda>b.
     bindE (peek fs b 0 (block_size e)) (\<lambda>d. OK (tmp @ d)))) tmp"

definition copy_end :: "filesystem \<Rightarrow> int res \<Rightarrow> nat \<Rightarrow> string \<Rightarrow> string res" where
  "copy_end fs at n tmp = bindE at (\<lambda>b. bindE (peek fs b 0 n) (\<lambda>d. OK (tmp @ d)))"

text \<open>The part of the read behind the first block, which is number \<open>num\<close> of the file.\<close>

definition read_rest :: "fs_env \<Rightarrow> filesystem \<Rightarrow> inode \<Rightarrow> nat \<Rightarrow> nat \<Rightarrow> nat \<Rightarrow> string \<Rightarrow> string res" where
  "read_rest e fs node num blocknum newoff tmp = (
     if num_direct e \<le> num then
       bindE (copy_blocks e fs (\<lambda>i. barray_at e fs node (num - num_direct e + 1 + i)) [0..<blocknum] tmp) (\<lambda>tmp.
       if num - num_direct e + 1 + blocknum < num_indirect e
       then copy_end fs (barray_at e fs node (num - num_direct e + 1 + blocknum)) newoff tmp
       else OK tmp)
     else if num + blocknum + 1 < num_direct e then
       bindE (copy_blocks e fs (\<lambda>i. direct_at node (num + 1 + i)) [0..<blocknum] tmp) (\<lambda>tmp.
       copy_end fs (direct_at node (num + 1 + blocknum)) newoff tmp)
     else
       bindE (copy_blocks e fs (\<lambda>i. direct_at node (num + 1 + i)) [0..<num_direct e - num - 1] tmp) (\<lambda>tmp.
       let remain_block = num + blocknum + 1 - num_direct e in
       bindE (copy_blocks e fs (\<lambda>i. barray_at e fs node i) [0..<remain_block] tmp) (\<lambda>tmp.
       if remain_block < num_indirect e then copy_end fs (barray_at e fs node remain_block) newoff tmp
       else OK tmp)))"

definition minixfs_read ::
  "fs_env \<Rightarrow> string option \<Rightarrow> nat \<Rightarrow> nat \<Rightarrow> filesystem \<Rightarrow> ((fs_error + string) \<times> nat \<times> filesystem) res" where
  "minixfs_read e path cnt off fs = (case is_virtual_path e path of
      Some virtual_path \<Rightarrow> (case minixfs_virtual_read virtual_path cnt off fs of (r, off) \<Rightarrow> OK (r, off, fs))
    | None \<Rightarrow> (case path of None \<Rightarrow> OK (Inl ENOENT, off, fs) | Some path \<Rightarrow>
      (case get_inode e fs path of None \<Rightarrow> OK (Inl ENOENT, off, fs) | Some i \<Rightarrow>
        let fs = set_inode i ((inodes fs i)\<lparr>atim := now e\<rparr>) fs; node = inodes fs i in
        if isize node \<le> off then OK (Inr [], off, fs)
        else
          let num = off div block_size e;
              offset = off - num * block_size e;
              remain = block_size e - offset
          in if num_indirect e + num_direct e \<le> num then OK (Inr [], off, fs)
          else bindE (if num < num_direct e then direct_at node num else barray_at e fs node (num - num_direct e)) (\<lambda>b.
            let cnt = (if isize node \<le> (off + cnt) mod 2 ^ 64 then isize node - off else cnt) in
            bindE (if cnt \<le> remain then peek fs b offset cnt
                else bindE (peek fs b offset remain) (\<lambda>tmp.
                  let blocknum = (cnt - remain) div block_size e;
                      newoff = cnt - remain - blocknum * block_size e
                  in read_rest e fs node num blocknum newoff tmp)) (\<lambda>data.
            OK (Inr data, off + cnt, fs))))))"

subsection \<open>Writing\<close>

text \<open>\<open>memcpy(ptr, p, n)\<close> from the offset \<open>p\<close> of the buffer of the caller.\<close>

definition put_bytes :: "string \<Rightarrow> nat \<Rightarrow> nat \<Rightarrow> int \<Rightarrow> nat \<Rightarrow> filesystem \<Rightarrow> filesystem res" where
  "put_bytes buf p n b at fs =
     (if p + n \<le> length buf then poke b at (take n (drop p buf)) fs else Fault Out_Of_Bounds)"

text \<open>One pass of the loops: a whole block from \<open>p\<close>, which moves on.\<close>

definition put_block :: "fs_env \<Rightarrow> string \<Rightarrow> (filesystem \<Rightarrow> int res) \<Rightarrow> filesystem \<times> nat \<Rightarrow> (filesystem \<times> nat) res" where
  "put_block e buf at = (\<lambda>(fs, p). bindE (at fs) (\<lambda>b.
     bindE (put_bytes buf p (block_size e) b 0 fs) (\<lambda>fs. OK (fs, p + block_size e))))"

text \<open>The rest of the write from \<open>p\<close> on; the last branch copies a whole block and moves on by 8.\<close>

definition write_rest ::
  "fs_env \<Rightarrow> string \<Rightarrow> inode \<Rightarrow> nat \<Rightarrow> nat \<Rightarrow> nat \<Rightarrow> filesystem \<times> nat \<Rightarrow> (filesystem \<times> nat) res" where
  "write_rest e buf node num block newoff s = (
     if num_direct e \<le> num then
       bindE (forE [0..<block] (\<lambda>i. put_block e buf (\<lambda>fs. barray_at e fs node (num - num_direct e + i + 1))) s) (\<lambda>(fs, p).
       if 0 < newoff then bindE (barray_at e fs node (num - num_direct e + block + 1)) (\<lambda>b.
         bindE (put_bytes buf p newoff b 0 fs) (\<lambda>fs. OK (fs, p + newoff)))
       else OK (fs, p))
     else
       bindE (forE [1..<block + 1] (\<lambda>i. put_block e buf (\<lambda>fs. if num + i < num_direct e then direct_at node (num + i)
           else barray_at e fs node (num + i - num_direct e))) s) (\<lambda>(fs, p).
       if 0 < newoff then
         if num + block + 1 < num_direct e then bindE (direct_at node (num + block + 1)) (\<lambda>b.
           bindE (put_bytes buf p newoff b 0 fs) (\<lambda>fs. OK (fs, p + newoff)))
         else bindE (barray_at e fs node (num + block + 1 - num_direct e)) (\<lambda>b.
           bindE (put_bytes buf p (block_size e) b 0 fs) (\<lambda>fs. OK (fs, p + 8)))
       else OK (fs, p)))"

definition minixfs_write ::
  "fs_env \<Rightarrow> string \<Rightarrow> string \<Rightarrow> nat \<Rightarrow> nat \<Rightarrow> filesystem \<Rightarrow> ((fs_error + nat) \<times> nat \<times> filesystem) res" where
  "minixfs_write e path buf cnt off fs = (
     let maxsz = block_size e * (num_direct e + num_indirect e) in
     if maxsz < (off + cnt) mod 2 ^ 64 then OK (Inl ENOSPC, off, fs)
     else
       let stop = (off + cnt) mod 2 ^ 64;
           newoff = stop mod block_size e;
           needBlock = stop div block_size e + (if 0 < newoff then 1 else 0);
           num = off div block_size e;
           offset = off mod block_size e;
           (r, fs) = min_blockcount e path needBlock fs
       in if r = -1 then OK (Inl ENOSPC, off, fs)
       else case get_inode e fs path of None \<Rightarrow> Fault Null_Deref | Some i \<Rightarrow>
         let fs = set_inode i ((inodes fs i)\<lparr>mtim := now e, atim := now e\<rparr>) fs; node = inodes fs i in
         if num_indirect e + num_direct e \<le> num then OK (Inl ENOSPC, off, fs)
         else bindE (if num < num_direct e then direct_at node num else barray_at e fs node (num - num_direct e)) (\<lambda>b.
           let remain = block_size e - offset in
           bindE (if cnt \<le> remain then put_bytes buf 0 cnt b offset fs
               else bindE (put_bytes buf 0 remain b offset fs) (\<lambda>fs.
                 bindE (write_rest e buf node num ((cnt - remain) div block_size e) newoff (fs, remain)) (\<lambda>(fs, p). OK fs))) (\<lambda>fs.
           OK (Inr cnt, off + cnt, set_inode i ((inodes fs i)\<lparr>isize := off + cnt\<rparr>) fs))))"

section \<open>Specification\<close>

text \<open>The number of block \<open>i\<close> of a file, its bytes, and the bytes of the first \<open>n\<close> blocks.\<close>

definition file_at :: "fs_env \<Rightarrow> filesystem \<Rightarrow> inode \<Rightarrow> nat \<Rightarrow> int res" where
  "file_at e fs node i = (if i < num_direct e then direct_at node i else barray_at e fs node (i - num_direct e))"

definition file_block :: "fs_env \<Rightarrow> filesystem \<Rightarrow> inode \<Rightarrow> nat \<Rightarrow> string" where
  "file_block e fs node i = (case file_at e fs node i of Inl _ \<Rightarrow> [] | Inr b \<Rightarrow> blocks fs ! nat b)"

definition file_bytes :: "fs_env \<Rightarrow> filesystem \<Rightarrow> inode \<Rightarrow> nat \<Rightarrow> string" where
  "file_bytes e fs node n = concat (map (file_block e fs node) [0..<n])"

definition has_block :: "fs_env \<Rightarrow> filesystem \<Rightarrow> inode \<Rightarrow> nat \<Rightarrow> bool" where
  "has_block e fs node i \<longleftrightarrow> (case file_at e fs node i of Inl _ \<Rightarrow> False
     | Inr b \<Rightarrow> 0 \<le> b \<and> nat b < length (blocks fs) \<and> length (blocks fs ! nat b) = block_size e)"

definition blocks_for :: "fs_env \<Rightarrow> nat \<Rightarrow> nat" where
  "blocks_for e n = n div block_size e + (if 0 < n mod block_size e then 1 else 0)"

text \<open>
  A file with a block behind every byte of its size; when it fills the direct blocks, the
  indirect block is there, with its full array of numbers.
\<close>

definition good_file :: "fs_env \<Rightarrow> filesystem \<Rightarrow> inode \<Rightarrow> bool" where
  "good_file e fs node \<longleftrightarrow> 0 < block_size e \<and> length (direct node) = num_direct e \<and>
     isize node \<le> block_size e * (num_direct e + num_indirect e) \<and>
     (\<forall>i < blocks_for e (isize node). has_block e fs node i) \<and>
     (num_direct e * block_size e \<le> isize node \<longrightarrow> (\<forall>j < num_indirect e. \<exists>b. barray_at e fs node j = OK b))"

definition content :: "fs_env \<Rightarrow> filesystem \<Rightarrow> inode \<Rightarrow> string" where
  "content e fs node = take (isize node) (file_bytes e fs node (blocks_for e (isize node)))"

section \<open>Lemmas\<close>

subsection \<open>Bytes in blocks\<close>

declare upt_Suc [simp del]

lemma upt_split: "i \<le> j \<Longrightarrow> j \<le> n \<Longrightarrow> [i..<n] = [i..<j] @ [j..<n]" for i :: nat
  using upt_add_eq_append [of i j "n - j"] by simp

lemma length_concat_blocks: "(\<And>i. i \<in> set is \<Longrightarrow> length (f i) = B) \<Longrightarrow> length (concat (map f is)) = length is * B"
  by (induction "is") auto

lemma drop_blocks:
  assumes "\<And>i. i < n \<Longrightarrow> length (f i) = B" "num \<le> n"
  shows "drop (num * B) (concat (map f [0..<n])) = concat (map f [num..<n])"
proof -
  have "[0..<n] = [0..<num] @ [num..<n]" using assms(2) by (intro upt_split) simp_all
  moreover have "length (concat (map f [0..<num])) = num * B"
    using length_concat_blocks [of "[0..<num]" f B] assms by simp
  ultimately show ?thesis by simp
qed

text \<open>A piece of the bytes: the end of one block, whole blocks, and the beginning of one.\<close>

lemma piece_in_block:
  assumes "\<And>i. i < n \<Longrightarrow> length (f i) = B" "num < n" "off \<le> B" "k \<le> B - off"
  shows "take k (drop (num * B + off) (concat (map f [0..<n]))) = take k (drop off (f num))"
proof -
  have "drop (num * B + off) (concat (map f [0..<n])) = drop off (concat (map f [num..<n]))"
    using drop_blocks [of n f B num] assms(1,2) by (simp add: drop_drop [symmetric] add.commute)
  moreover have "[num..<n] = num # [Suc num..<n]" using assms(2) by (rule upt_conv_Cons)
  ultimately show ?thesis using assms by (simp add: take_append)
qed

lemma piece_of_blocks:
  assumes "\<And>i. i < n \<Longrightarrow> length (f i) = B" "num + k < n" "off \<le> B" "r \<le> B" "r = 0 \<or> num + 1 + k < n"
  shows "take (B - off + k * B + r) (drop (num * B + off) (concat (map f [0..<n]))) =
    drop off (f num) @ concat (map f [num + 1..<num + 1 + k]) @ take r (f (num + 1 + k))"
proof -
  have "drop (num * B + off) (concat (map f [0..<n])) = drop off (concat (map f [num..<n]))"
    using drop_blocks [of n f B num] assms(1,2) by (simp add: drop_drop [symmetric] add.commute)
  also have "[num..<n] = num # [num + 1..<num + 1 + k] @ [num + 1 + k..<n]"
    using assms(2) upt_split [of "num + 1" "num + 1 + k" n] upt_conv_Cons [of num n] by simp
  finally have d: "drop (num * B + off) (concat (map f [0..<n])) =
      drop off (f num) @ concat (map f [num + 1..<num + 1 + k]) @ concat (map f [num + 1 + k..<n])"
    using assms(1) [of num] assms(2,3) by simp
  have l: "length (concat (map f [num + 1..<num + 1 + k])) = k * B"
    using length_concat_blocks [of "[num + 1..<num + 1 + k]" f B] assms(1,2) by simp
  have r: "take r (concat (map f [num + 1 + k..<n])) = take r (f (num + 1 + k))"
  proof (cases "num + 1 + k < n")
    case True
    then have "[num + 1 + k..<n] = (num + 1 + k) # [num + 2 + k..<n]" using upt_conv_Cons [OF True] by simp
    then show ?thesis using assms(1) [OF True] assms(4) by simp
  qed (use assms(5) in auto)
  show ?thesis unfolding d using assms(1) [of num] assms(2,3) l r by simp
qed

subsection \<open>Reading\<close>

lemma has_block_peek:
  assumes "has_block e fs node i" "at + n \<le> block_size e"
  obtains b where "file_at e fs node i = OK b" "peek fs b at n = OK (take n (drop at (file_block e fs node i)))"
    "length (file_block e fs node i) = block_size e"
  using assms by (cases "file_at e fs node i") (auto simp: has_block_def file_block_def peek_def)

lemma copy_blocks_ok:
  assumes "\<And>i. i \<in> set is \<Longrightarrow> at i = file_at e fs node (f i) \<and> has_block e fs node (f i)"
  shows "copy_blocks e fs at is tmp = OK (tmp @ concat (map (\<lambda>i. file_block e fs node (f i)) is))"
  using assms
proof (induction "is" arbitrary: tmp)
  case Nil
  then show ?case by (simp add: copy_blocks_def)
next
  case (Cons i "is")
  obtain b where "file_at e fs node (f i) = OK b" "peek fs b 0 (block_size e) = OK (take (block_size e) (drop 0 (file_block e fs node (f i))))"
    "length (file_block e fs node (f i)) = block_size e"
    using has_block_peek [of e fs node "f i" 0 "block_size e"] Cons.prems by auto
  then show ?case using Cons by (simp add: copy_blocks_def)
qed

lemma copy_end_ok:
  assumes "r = 0 \<or> has_block e fs node i" "\<exists>b. file_at e fs node i = OK b" "r \<le> block_size e"
  shows "copy_end fs (file_at e fs node i) r tmp = OK (tmp @ take r (file_block e fs node i))"
proof (cases "r = 0")
  case True
  then show ?thesis using assms(2) by (auto simp: copy_end_def peek_def)
next
  case False
  then obtain b where "file_at e fs node i = OK b" "peek fs b 0 r = OK (take r (drop 0 (file_block e fs node i)))"
    using has_block_peek [of e fs node i 0 r] assms(1,3) by (metis add_0)
  then show ?thesis by (simp add: copy_end_def)
qed

lemma map_shift: "map (\<lambda>i. f (a + i)) [0..<k] = map f [a..<a + k]" for a :: nat
  by (rule nth_equalityI) simp_all

lemma read_rest_ok:
  assumes blocks: "\<And>i. num < i \<Longrightarrow> i < num + 1 + k \<Longrightarrow> has_block e fs node i"
    and last: "r = 0 \<or> has_block e fs node (num + 1 + k)" and r: "r \<le> block_size e"
    and room: "num + 1 + k < num_direct e + num_indirect e \<or> r = 0"
    and at: "num + 1 + k < num_direct e + num_indirect e \<Longrightarrow> \<exists>b. file_at e fs node (num + 1 + k) = OK b"
  shows "read_rest e fs node num k r tmp =
    OK (tmp @ concat (map (file_block e fs node) [num + 1..<num + 1 + k]) @ take r (file_block e fs node (num + 1 + k)))"
proof -
  let ?D = "num_direct e"
  have end_ok: "copy_end fs (file_at e fs node (num + 1 + k)) r tmp = OK (tmp @ take r (file_block e fs node (num + 1 + k)))"
    if "num + 1 + k < ?D + num_indirect e" for tmp using copy_end_ok [OF last at [OF that] r] .
  consider "?D \<le> num" | "num + k + 1 < ?D" | "num < ?D" "?D \<le> num + k + 1" by linarith
  then show ?thesis
  proof cases
    case 1
    have eq: "barray_at e fs node (num - ?D + 1 + i) = file_at e fs node (num + 1 + i)" for i
      using 1 by (simp add: file_at_def Suc_diff_le)
    have "copy_blocks e fs (\<lambda>i. barray_at e fs node (num - ?D + 1 + i)) [0..<k] tmp =
        OK (tmp @ concat (map (\<lambda>i. file_block e fs node (num + 1 + i)) [0..<k]))"
      by (rule copy_blocks_ok) (use eq blocks in auto)
    moreover have "num - ?D + 1 + k < num_indirect e \<longleftrightarrow> num + 1 + k < ?D + num_indirect e" using 1 by auto
    moreover have "barray_at e fs node (num + 1 + k - ?D) = file_at e fs node (num + 1 + k)"
      using 1 by (simp add: file_at_def)
    ultimately show ?thesis unfolding read_rest_def using 1 end_ok room
      by (auto simp: map_shift [of "file_block e fs node" "num + 1"] simp del: One_nat_def add_Suc_right add_Suc add_2_eq_Suc')
  next
    case 2
    have eq: "i \<le> k \<Longrightarrow> direct_at node (num + 1 + i) = file_at e fs node (num + 1 + i)" for i
      using 2 by (simp add: file_at_def)
    have "copy_blocks e fs (\<lambda>i. direct_at node (num + 1 + i)) [0..<k] tmp =
        OK (tmp @ concat (map (\<lambda>i. file_block e fs node (num + 1 + i)) [0..<k]))"
      by (rule copy_blocks_ok) (use eq blocks in auto)
    then show ?thesis unfolding read_rest_def using 2 end_ok
      by (simp add: eq [of k] map_shift [of "file_block e fs node" "num + 1"] del: One_nat_def add_Suc_right add_Suc)
  next
    case 3
    let ?m = "?D - num - 1" and ?rb = "num + k + 1 - ?D"
    have 1: "copy_blocks e fs (\<lambda>i. direct_at node (num + 1 + i)) [0..<?m] tmp =
        OK (tmp @ concat (map (\<lambda>i. file_block e fs node (num + 1 + i)) [0..<?m]))"
      by (rule copy_blocks_ok) (use 3 blocks in \<open>auto simp: file_at_def\<close>)
    have 2: "copy_blocks e fs (\<lambda>i. barray_at e fs node i) [0..<?rb] t =
        OK (t @ concat (map (\<lambda>i. file_block e fs node (?D + i)) [0..<?rb]))" for t
      by (rule copy_blocks_ok) (use 3 blocks in \<open>auto simp: file_at_def\<close>)
    have "[num + 1..<num + 1 + k] = [num + 1..<num + 1 + ?m] @ [?D..<?D + ?rb]"
      using 3 upt_add_eq_append [of "num + 1" ?D ?rb] by simp
    then have split: "map (file_block e fs node) [num + 1..<num + 1 + k] =
        map (\<lambda>i. file_block e fs node (num + 1 + i)) [0..<?m] @ map (\<lambda>i. file_block e fs node (?D + i)) [0..<?rb]"
      unfolding map_shift map_append [symmetric] by simp
    have eq: "barray_at e fs node ?rb = file_at e fs node (num + 1 + k)" using 3 by (simp add: file_at_def)
    have bound: "?rb < num_indirect e \<longleftrightarrow> num + 1 + k < ?D + num_indirect e" using 3 by auto
    have tail: "(if ?rb < num_indirect e then copy_end fs (barray_at e fs node ?rb) r t else OK t) =
        OK (t @ take r (file_block e fs node (num + 1 + k)))" for t
      using end_ok [of t] room unfolding bound eq by auto
    have "\<not> ?D \<le> num" "\<not> num + k + 1 < ?D" using 3 by auto
    then show ?thesis unfolding read_rest_def Let_def split
      by (simp only: if_False 1 2 bindE_simps tail add.assoc [of num 1 k] add.commute [of 1 k] add.assoc [symmetric])
        (simp add: add.commute)
  qed
qed

lemma blocks_for_bounds:
  assumes "0 < B"
  shows "n div B + (if 0 < n mod B then 1 else 0) \<le> m \<longleftrightarrow> n \<le> m * (B::nat)"
proof -
  have n: "n = n div B * B + n mod B" by simp
  have lt: "n mod B < B" using assms by simp
  show ?thesis
  proof
    assume "n div B + (if 0 < n mod B then 1 else 0) \<le> m"
    then have "(n div B + (if 0 < n mod B then 1 else 0)) * B \<le> m * B" by (rule mult_le_mono1)
    moreover have "n \<le> (n div B + (if 0 < n mod B then 1 else 0)) * B"
    proof (cases "n mod B = 0")
      case True
      then show ?thesis using n by simp
    next
      case False
      have "n < (n div B + 1) * B" using dividend_less_div_times [OF assms, of n] by simp
      then show ?thesis using False by simp
    qed
    ultimately show "n \<le> m * B" by linarith
  next
    assume le: "n \<le> m * B"
    then have "n div B \<le> m * B div B" by (rule div_le_mono)
    then have "n div B \<le> m" using assms by simp
    moreover have "n div B \<noteq> m" if "0 < n mod B"
    proof
      assume "n div B = m"
      then show False using n le that by simp
    qed
    ultimately show "n div B + (if 0 < n mod B then 1 else 0) \<le> m" by auto
  qed
qed

lemma block_needed: "0 < block_size e \<Longrightarrow> i < blocks_for e n \<longleftrightarrow> i * block_size e < n"
  using blocks_for_bounds [of "block_size e" n i] unfolding blocks_for_def by (meson not_le)

lemma file_block_length: "has_block e fs node i \<Longrightarrow> length (file_block e fs node i) = block_size e"
  by (cases "file_at e fs node i") (auto simp: has_block_def file_block_def)

text \<open>The part of a read that copies: the first block and the rest.\<close>

lemma read_data:
  fixes e fs node off c
  defines "num \<equiv> off div block_size e" defines "offset \<equiv> off - num * block_size e"
  assumes good: "good_file e fs node" and off: "off < isize node" "off + c \<le> isize node"
    and b: "file_at e fs node num = OK b"
  shows "(if c \<le> block_size e - offset then peek fs b offset c
        else bindE (peek fs b offset (block_size e - offset))
          (read_rest e fs node num ((c - (block_size e - offset)) div block_size e)
            (c - (block_size e - offset) - (c - (block_size e - offset)) div block_size e * block_size e))) =
    OK (take c (drop off (file_bytes e fs node (blocks_for e (isize node)))))"
proof -
  let ?B = "block_size e" and ?f = "file_block e fs node" and ?n = "blocks_for e (isize node)"
  have B: "0 < ?B" using good by (simp add: good_file_def)
  have has: "has_block e fs node j" if "j * ?B < isize node" for j
    using good that block_needed [OF B] by (simp add: good_file_def)
  have len: "length (?f j) = ?B" if "j < ?n" for j using file_block_length has that block_needed [OF B] by blast
  have o: "off = num * ?B + offset" "offset < ?B"
    using B by (simp_all add: num_def offset_def minus_div_mult_eq_mod [symmetric])
      (metis minus_div_mult_eq_mod mod_less_divisor)
  have num: "num * ?B < isize node" "num < ?n" using o off block_needed [OF B] by auto
  have pk: "peek fs b offset k = OK (take k (drop offset (?f num)))" if "offset + k \<le> ?B" for k
    using has [OF num(1)] b that by (auto simp: has_block_def file_block_def peek_def)
  show ?thesis
  proof (cases "c \<le> ?B - offset")
    case True
    then have "take c (drop (num * ?B + offset) (concat (map ?f [0..<?n]))) = take c (drop offset (?f num))"
      using piece_in_block [of ?n ?f ?B num offset c] len num(2) o(2) by simp
    then show ?thesis using True pk [of c] o by (simp add: file_bytes_def)
  next
    case False
    define k where "k = (c - (?B - offset)) div ?B"
    define r where "r = c - (?B - offset) - k * ?B"
    have c: "c = ?B - offset + k * ?B + r" "r < ?B"
    proof -
      have "r = (c - (?B - offset)) mod ?B" by (simp only: r_def k_def minus_div_mult_eq_mod)
      moreover have "k * ?B + (c - (?B - offset)) mod ?B = c - (?B - offset)" by (simp add: k_def)
      ultimately show "c = ?B - offset + k * ?B + r" using False by linarith
      show "r < ?B" using B by (simp only: r_def k_def minus_div_mult_eq_mod mod_less_divisor)
    qed
    have top: "(num + 1 + k) * ?B + r \<le> isize node" using c o off(2) by (simp add: algebra_simps)
    have size: "isize node \<le> (num_direct e + num_indirect e) * ?B" using good by (simp add: good_file_def mult.commute)
    have mid: "has_block e fs node j" if "j < num + 1 + k" for j
    proof (rule has)
      have "(j + 1) * ?B \<le> (num + 1 + k) * ?B" using that by (intro mult_le_mono1) simp
      then show "j * ?B < isize node" using top B by (simp add: algebra_simps)
    qed
    have last: "r = 0 \<or> has_block e fs node (num + 1 + k)" using has [of "num + 1 + k"] top by linarith
    have fits: "num + 1 + k < num_direct e + num_indirect e \<or> r = 0"
    proof (rule disjCI)
      assume "r \<noteq> 0"
      then have "(num + 1 + k) * ?B < (num_direct e + num_indirect e) * ?B" using top size by linarith
      then show "num + 1 + k < num_direct e + num_indirect e" by (simp only: mult_less_cancel2)
    qed
    have ex: "\<exists>b. file_at e fs node (num + 1 + k) = OK b" if "num + 1 + k < num_direct e + num_indirect e"
    proof (cases "num + 1 + k < num_direct e")
      case False
      then have "num_direct e * ?B \<le> (num + 1 + k) * ?B" by (intro mult_le_mono1) simp
      then have "num_direct e * ?B \<le> isize node" using top by linarith
      then show ?thesis using good that False by (simp add: file_at_def good_file_def)
    qed (use good in \<open>simp add: file_at_def direct_at_def good_file_def\<close>)
    have "(num + k) * ?B < isize node" using top B by (simp add: algebra_simps)
    then have "num + k < ?n" using block_needed [OF B] by blast
    moreover have "r = 0 \<or> num + 1 + k < ?n" using top block_needed [OF B, of "num + 1 + k" "isize node"] by linarith
    ultimately have "take c (drop off (concat (map ?f [0..<?n]))) =
        drop offset (?f num) @ concat (map ?f [num + 1..<num + 1 + k]) @ take r (?f (num + 1 + k))"
      unfolding c(1) o(1) using piece_of_blocks [of ?n ?f ?B num k offset r] len o(2) c(2) by simp
    moreover have "peek fs b offset (?B - offset) = OK (drop offset (?f num))"
      using pk [of "?B - offset"] o(2) len [OF num(2)] by simp
    moreover have "read_rest e fs node num k r tmp =
        OK (tmp @ concat (map ?f [num + 1..<num + 1 + k]) @ take r (?f (num + 1 + k)))" for tmp
      using read_rest_ok [of num k e fs node r tmp] mid last fits ex c(2) by simp
    ultimately show ?thesis using False
      unfolding k_def [symmetric] r_def [symmetric] file_bytes_def by simp
  qed
qed

section \<open>Properties\<close>

text \<open>
  C15: A read returns exactly the bytes of the file from the offset on, up to the count and the end
  of the file, moves the offset by their number, and changes nothing but the access time.
\<close>

theorem minixfs_read_content:
  assumes "is_virtual_path e (Some path) = None" "get_inode e fs path = Some i"
    and good: "good_file e fs (inodes fs i)" and small: "off + cnt < 2 ^ 64"
  shows "\<exists>data. minixfs_read e (Some path) cnt off fs =
      OK (Inr data, off + length data, set_inode i ((inodes fs i)\<lparr>atim := now e\<rparr>) fs) \<and>
    data = take cnt (drop off (content e fs (inodes fs i)))"
proof -
  let ?B = "block_size e" and ?node = "(inodes fs i)\<lparr>atim := now e\<rparr>"
  let ?fs = "set_inode i ?node fs" and ?size = "isize (inodes fs i)"
  have fs: "blocks ?fs = blocks fs" "inodes ?fs i = ?node" by (simp_all add: set_inode_def)
  have at: "file_at e ?fs ?node = file_at e fs (inodes fs i)" "barray_at e ?fs ?node = barray_at e fs (inodes fs i)"
    by (simp_all add: fun_eq_iff file_at_def direct_at_def barray_at_def Let_def fs)
  have blk: "file_block e ?fs ?node = file_block e fs (inodes fs i)" "has_block e ?fs ?node = has_block e fs (inodes fs i)"
    unfolding fun_eq_iff file_block_def has_block_def at(1) fs(1) by simp_all
  have same: "good_file e ?fs ?node" "content e ?fs ?node = content e fs (inodes fs i)"
    using good by (simp_all add: good_file_def content_def file_bytes_def blk at)
  show ?thesis
  proof (cases "?size \<le> off")
    case True
    then have "drop off (content e fs (inodes fs i)) = []" by (simp add: content_def)
    then show ?thesis using assms(1,2) True by (simp add: minixfs_read_def Let_def fs)
  next
    case False
    let ?num = "off div ?B" and ?c = "min cnt (?size - off)" and ?n = "blocks_for e ?size"
    have B: "0 < ?B" using good by (simp add: good_file_def)
    have num: "?num * ?B < ?size" using False div_times_less_eq_dividend [of off ?B] by linarith
    then have "has_block e ?fs ?node ?num" using same(1) block_needed [OF B, of ?num ?size] by (simp add: good_file_def)
    then obtain b where b: "file_at e ?fs ?node ?num = OK b" by (auto simp: has_block_def split: sum.splits)
    have "?size \<le> (num_direct e + num_indirect e) * ?B" using good by (simp add: good_file_def mult.commute)
    then have room: "?num < num_direct e + num_indirect e" using num by (metis less_le_trans mult_less_cancel2)
    have first: "(if ?num < num_direct e then direct_at ?node ?num else barray_at e ?fs ?node (?num - num_direct e)) = OK b"
      using b by (simp add: file_at_def)
    have cnt: "(if isize ?node \<le> (off + cnt) mod 2 ^ 64 then isize ?node - off else cnt) = ?c" using small False by auto
    note body = read_data [OF same(1) _ _ b, of ?c, simplified]
    have "minixfs_read e (Some path) cnt off fs = OK (Inr (take ?c (drop off (file_bytes e ?fs ?node ?n))), off + ?c, ?fs)"
      unfolding minixfs_read_def assms(1,2) option.case Let_def fs(2) first bindE_simps cnt
      using False room body by simp
    moreover have "take cnt (drop off (content e ?fs ?node)) = take ?c (drop off (file_bytes e ?fs ?node ?n))"
      by (simp add: content_def drop_take take_take min.commute)
    moreover have "length (take cnt (drop off (content e ?fs ?node))) = ?c"
    proof -
      have "length (file_bytes e ?fs ?node ?n) = ?n * ?B"
        using length_concat_blocks [of "[0..<?n]" "file_block e ?fs ?node" ?B] file_block_length same(1)
        by (simp add: file_bytes_def good_file_def)
      moreover have "?size \<le> ?n * ?B" using blocks_for_bounds [OF B, of ?size ?n] by (simp add: blocks_for_def)
      ultimately show ?thesis using False by (simp add: content_def)
    qed
    ultimately show ?thesis using same(2) by simp
  qed
qed

text \<open>A small file system: blocks of two bytes, one direct block and two numbers in an indirect one.\<close>

definition small_env :: fs_env where
  "small_env = \<lparr>block_size = 2, num_direct = 1, num_indirect = 2, rwx_bits = 9, now = 7, numbers = (\<lambda>_. [2, 2]),
     dirent = (\<lambda>_ n. n), is_virtual_path = (\<lambda>_. None), get_inode = (\<lambda>_ p. if p = ''f'' then Some 0 else None),
     parent_directory = (\<lambda>_ p. (Some 0, p)), valid_filename = (\<lambda>_. True), is_file = (\<lambda>_. False),
     first_unused_inode = (\<lambda>_. 1), init_inode = (\<lambda>_ _ fs. fs), add_data_block_to_inode = (\<lambda>_ fs. (-1, fs)),
     add_single_indirect_block = (\<lambda>_ fs. (-1, fs)), add_data_block_to_indirect_block = (\<lambda>_ fs. (-1, fs)),
     min_blockcount = (\<lambda>_ _ fs. (0, fs))\<rparr>"

definition small_fs :: filesystem where
  "small_fs = \<lparr>inodes = (\<lambda>_. \<lparr>mode = 0, uid = 0, gid = 0, isize = 3, direct = [0], indirect = 1, atim = 0, mtim = 0, ctim = 0\<rparr>),
     blocks = [''ab'', ''xx'', ''cd''], data_map = [1, 1, 1]\<rparr>"

lemma small_fields:
  "block_size small_env = 2" "num_direct small_env = 1" "num_indirect small_env = 2" "numbers small_env b = [2, 2]"
  "is_virtual_path small_env p = None" "get_inode small_env fs ''f'' = Some 0" "min_blockcount small_env q n fs = (0, fs)"
  "blocks small_fs = [''ab'', ''xx'', ''cd'']" "isize (inodes small_fs k) = 3" "direct (inodes small_fs k) = [0]"
  "indirect (inodes small_fs k) = 1"
  by (simp_all add: small_env_def small_fs_def)

lemma small_file_at: "file_at small_env small_fs (inodes small_fs k) i = (if i = 0 then OK 0 else if i < 3 then OK 2 else Fault Out_Of_Bounds)"
  by (cases "i < 3") (auto simp: file_at_def direct_at_def barray_at_def small_env_def small_fs_def Let_def less_Suc_eq numeral_3_eq_3 nth_Cons')

theorem minixfs_read_content_witness:
  "\<exists>fs. minixfs_read small_env (Some ''f'') 5 1 small_fs = OK (Inr ''bc'', 3, fs)"
proof -
  have b: "blocks_for small_env 3 = 2" by (simp add: blocks_for_def small_fields)
  have two: "i < 2 \<longleftrightarrow> i = 0 \<or> i = 1" for i :: nat by auto
  have good: "good_file small_env small_fs (inodes small_fs 0)"
    using small_file_at [of 0 0] small_file_at [of 0 1]
    by (auto simp: good_file_def has_block_def barray_at_def small_fields b two Let_def)
  have "[0..<2] = [0, 1 :: nat]" by (simp add: numeral_2_eq_2 upt_Suc)
  then have "content small_env small_fs (inodes small_fs 0) = ''abc''"
    by (simp add: content_def file_bytes_def file_block_def small_file_at small_fields b)
  then show ?thesis using minixfs_read_content [of small_env "''f''" small_fs 0 1 5] good
    by (auto simp: small_fields)
qed

end
