(* ===== verification/Minixfs_Write.thy ===== *)
theory Minixfs_Write
  imports Minixfs
begin

text \<open>
  What \<open>minixfs_write\<close> of \<open>finding_filesystems/minixfs.c\<close> does to a file that has the blocks it
  needs. Every copy is an overwriting of the bytes of the file; the copies of one write add up
  to the overwriting with the whole buffer, except that the last one may copy a whole block.
\<close>

section \<open>Layout\<close>

text \<open>The first \<open>N\<close> blocks of a file are there, are different blocks, and none is its indirect block.\<close>

definition layout :: "fs_env \<Rightarrow> inode \<Rightarrow> nat \<Rightarrow> filesystem \<Rightarrow> bool" where
  "layout e node N fs \<longleftrightarrow> 0 < block_size e \<and> (\<forall>i < N. has_block e fs node i) \<and>
     (\<forall>i < N. file_at e fs node i \<noteq> OK (indirect node)) \<and>
     (\<forall>i < N. \<forall>j < N. file_at e fs node i = file_at e fs node j \<longrightarrow> i = j)"

lemma layout_at: "layout e node N fs \<Longrightarrow> i < N \<Longrightarrow> \<exists>b. file_at e fs node i = OK b"
  by (cases "file_at e fs node i") (auto simp: layout_def has_block_def)

text \<open>\<open>touched\<close>: nothing but the bytes of those blocks may have changed.\<close>

definition touched :: "fs_env \<Rightarrow> inode \<Rightarrow> nat \<Rightarrow> filesystem \<Rightarrow> filesystem \<Rightarrow> bool" where
  "touched e node N fs fs' \<longleftrightarrow> layout e node N fs' \<and> inodes fs' = inodes fs \<and> data_map fs' = data_map fs \<and>
     length (blocks fs') = length (blocks fs) \<and> (\<forall>i. file_at e fs' node i = file_at e fs node i) \<and>
     (\<forall>k < length (blocks fs). (\<forall>i < N. file_at e fs node i \<noteq> OK (int k)) \<longrightarrow> blocks fs' ! k = blocks fs ! k)"

lemma touched_refl: "layout e node N fs \<Longrightarrow> touched e node N fs fs"
  by (simp add: touched_def)

lemma touched_trans: "touched e node N fs fs' \<Longrightarrow> touched e node N fs' fs'' \<Longrightarrow> touched e node N fs fs''"
  unfolding touched_def by auto

lemma overwrite_append:
  "at + length d1 + length d2 \<le> length b \<Longrightarrow>
     overwrite b at (d1 @ d2) = overwrite (overwrite b at d1) (at + length d1) d2"
  by (cases d1) (auto simp: overwrite_def min_def ac_simps)

lemma overwrite_mid:
  "at + length d \<le> length G \<Longrightarrow> overwrite (A @ G @ R) (length A + at) d = A @ overwrite G at d @ R"
  by (simp add: overwrite_def)

lemma overwrite_Nil [simp]: "overwrite b at [] = b"
  by (simp add: overwrite_def)

lemma concat_overwrite:
  assumes "\<And>j. j < N \<Longrightarrow> length (f j) = B" "i < N" "at + length d \<le> B"
  shows "concat (map (f(i := overwrite (f i) at d)) [0..<N]) = overwrite (concat (map f [0..<N])) (i * B + at) d"
proof -
  let ?g = "f(i := overwrite (f i) at d)"
  have split: "[0..<N] = [0..<i] @ i # [Suc i..<N]"
    using assms(2) upt_split [of 0 i N] upt_conv_Cons [of i N] by simp
  have A: "map ?g [0..<i] = map f [0..<i]" "map ?g [Suc i..<N] = map f [Suc i..<N]" by simp_all
  have "length (concat (map f [0..<i])) = i * B" using length_concat_blocks [of "[0..<i]" f B] assms(1,2) by simp
  then show ?thesis unfolding split
    using overwrite_mid [of "at" d "f i" "concat (map f [0..<i])" "concat (map f [Suc i..<N])"] assms A by simp
qed

lemma length_file_bytes: "layout e node N fs \<Longrightarrow> length (file_bytes e fs node N) = N * block_size e"
  using length_concat_blocks [of "[0..<N]" "file_block e fs node" "block_size e"]
  by (simp add: file_bytes_def layout_def file_block_length)

text \<open>One copy into block \<open>i\<close>.\<close>

lemma poke_file:
  assumes lay: "layout e node N fs" and i: "i < N" "file_at e fs node i = OK b" and d: "at + length d \<le> block_size e"
  shows "\<exists>fs'. poke b at d fs = OK fs' \<and> touched e node N fs fs' \<and>
    file_bytes e fs' node N = overwrite (file_bytes e fs node N) (i * block_size e + at) d"
proof (cases "d = []")
  case True
  then show ?thesis using touched_refl [OF lay] by (simp add: poke_def)
next
  case False
  have b: "0 \<le> b" "nat b < length (blocks fs)" "length (blocks fs ! nat b) = block_size e"
    using lay i unfolding layout_def has_block_def by (auto split: sum.splits)
  let ?fs = "fs\<lparr>blocks := (blocks fs)[nat b := overwrite (blocks fs ! nat b) at d]\<rparr>"
  have blk: "blocks ?fs ! k = (if k = nat b then overwrite (blocks fs ! nat b) at d else blocks fs ! k)" if "k < length (blocks fs)" for k
    using that by (simp add: nth_list_update)
  have ind: "indirect node \<noteq> b" using lay i by (auto simp: layout_def)
  then have "blocks ?fs ! nat (indirect node) = blocks fs ! nat (indirect node)" if "0 \<le> indirect node" using that b(1) by auto
  then have at: "file_at e ?fs node j = file_at e fs node j" for j
    by (auto simp: file_at_def direct_at_def barray_at_def Let_def)
  have num: "file_at e fs node j = OK c \<Longrightarrow> j < N \<Longrightarrow> 0 \<le> c \<and> nat c < length (blocks fs) \<and> length (blocks fs ! nat c) = block_size e" for j c
    using lay by (auto simp: layout_def has_block_def split: sum.splits)
  have has: "has_block e ?fs node j" if "j < N" for j
  proof -
    from layout_at [OF lay that] obtain c where c: "file_at e fs node j = OK c" by blast
    show ?thesis using num [OF c that] blk [of "nat c"] b d c by (simp add: has_block_def at)
  qed
  have inj: "file_at e fs node j = OK c \<Longrightarrow> j < N \<Longrightarrow> nat c = nat b \<Longrightarrow> j = i" for j c
    using num [of j c] b(1) lay i unfolding layout_def by (metis nat_eq_iff2)
  have "file_block e ?fs node j = ((file_block e fs node)(i := overwrite (file_block e fs node i) at d)) j" if "j < N" for j
  proof -
    from layout_at [OF lay that] obtain c where c: "file_at e fs node j = OK c" by blast
    show ?thesis using num [OF c that] blk [of "nat c"] i inj [OF c that] c by (auto simp: file_block_def at)
  qed
  then have m: "map (file_block e ?fs node) [0..<N] = map ((file_block e fs node)(i := overwrite (file_block e fs node i) at d)) [0..<N]"
    by (intro map_cong refl) simp
  have bytes: "file_bytes e ?fs node N = overwrite (file_bytes e fs node N) (i * block_size e + at) d"
    unfolding file_bytes_def m
    by (rule concat_overwrite) (use lay i(1) d in \<open>simp_all add: layout_def file_block_length\<close>)
  have "layout e node N ?fs" using lay has unfolding layout_def at by blast
  moreover have "blocks ?fs ! k = blocks fs ! k" if "k < length (blocks fs)" "\<forall>i < N. file_at e fs node i \<noteq> OK (int k)" for k
    using that i b(1) by (cases "k = nat b") auto
  ultimately have "touched e node N fs ?fs" unfolding touched_def at by simp
  then show ?thesis using bytes b d False by (intro exI [of _ ?fs]) (simp add: poke_def)
qed

section \<open>Loops\<close>

lemma put_bytes_file:
  assumes "layout e node N fs" "i < N" "file_at e fs node i = OK b" "at + n \<le> block_size e" "p + n \<le> length buf"
  shows "\<exists>fs'. put_bytes buf p n b at fs = OK fs' \<and> touched e node N fs fs' \<and>
    file_bytes e fs' node N = overwrite (file_bytes e fs node N) (i * block_size e + at) (take n (drop p buf))"
  using poke_file [OF assms(1-3), of "at" "take n (drop p buf)"] assms(4,5) by (simp add: put_bytes_def)

lemma put_blocks:
  assumes "layout e node N fs" "j + k \<le> N" "p + k * block_size e \<le> length buf"
  shows "\<exists>fs'. forE [j..<j + k] (\<lambda>i. put_block e buf (\<lambda>fs. file_at e fs node i)) (fs, p) = OK (fs', p + k * block_size e) \<and>
    touched e node N fs fs' \<and>
    file_bytes e fs' node N = overwrite (file_bytes e fs node N) (j * block_size e) (take (k * block_size e) (drop p buf))"
  using assms
proof (induction k)
  case 0
  then show ?case using touched_refl by simp
next
  case (Suc k)
  let ?B = "block_size e"
  obtain fs1 where fs1: "forE [j..<j + k] (\<lambda>i. put_block e buf (\<lambda>fs. file_at e fs node i)) (fs, p) = OK (fs1, p + k * ?B)"
    "touched e node N fs fs1"
    "file_bytes e fs1 node N = overwrite (file_bytes e fs node N) (j * ?B) (take (k * ?B) (drop p buf))"
    using Suc.IH Suc.prems by auto
  have lay: "layout e node N fs1" using fs1(2) by (simp add: touched_def)
  then obtain b where b: "file_at e fs1 node (j + k) = OK b"
    using layout_at [OF lay, of "j + k"] Suc.prems(2) by auto
  obtain fs2 where fs2: "put_bytes buf (p + k * ?B) ?B b 0 fs1 = OK fs2" "touched e node N fs1 fs2"
    "file_bytes e fs2 node N = overwrite (file_bytes e fs1 node N) ((j + k) * ?B) (take ?B (drop (p + k * ?B) buf))"
    using put_bytes_file [OF lay _ b, of 0 ?B "p + k * ?B" buf] Suc.prems by auto
  have "[j..<j + Suc k] = [j..<j + k] @ [j + k]" by (simp add: upt_Suc)
  then have run: "forE [j..<j + Suc k] (\<lambda>i. put_block e buf (\<lambda>fs. file_at e fs node i)) (fs, p) = OK (fs2, p + Suc k * ?B)"
    using fs1(1) fs2(1) b by (simp add: forE_append put_block_def)
  have "take (Suc k * ?B) (drop p buf) = take (k * ?B) (drop p buf) @ take ?B (drop (p + k * ?B) buf)"
    using take_add [of "k * ?B" ?B "drop p buf"] by (simp add: add.commute)
  moreover have "j * ?B + k * ?B + ?B \<le> N * ?B" using Suc.prems(2) mult_le_mono1 [of "j + Suc k" N ?B] by (simp add: algebra_simps)
  ultimately have "file_bytes e fs2 node N = overwrite (file_bytes e fs node N) (j * ?B) (take (Suc k * ?B) (drop p buf))"
    using fs2(3) fs1(3) overwrite_append [of "j * ?B" "take (k * ?B) (drop p buf)" "take ?B (drop (p + k * ?B) buf)" "file_bytes e fs node N"]
      length_file_bytes [OF Suc.prems(1)] Suc.prems(3) by (simp add: algebra_simps)
  then show ?case using run touched_trans [OF fs1(2) fs2(2)] by blast
qed

lemma forE_shift: "forE [0..<k] (\<lambda>i. f (a + i)) s = forE [a..<a + k] f s" for a :: nat
proof -
  have "[a..<a + k] = map (\<lambda>i. a + i) [0..<k]" by (rule nth_equalityI) simp_all
  then show ?thesis by (simp add: forE_map)
qed

text \<open>Both branches of the code run the same loop over the blocks of the file, and differ in the end.\<close>

lemma write_rest_eq:
  "write_rest e buf node num block newoff s =
    bindE (forE [num + 1..<num + 1 + block] (\<lambda>i. put_block e buf (\<lambda>fs. file_at e fs node i)) s) (\<lambda>(fs, p).
      if 0 < newoff then bindE (file_at e fs node (num + block + 1)) (\<lambda>b.
        if num < num_direct e \<and> num_direct e \<le> num + block + 1
        then bindE (put_bytes buf p (block_size e) b 0 fs) (\<lambda>fs. OK (fs, p + 8))
        else bindE (put_bytes buf p newoff b 0 fs) (\<lambda>fs. OK (fs, p + newoff)))
      else OK (fs, p))"
proof (cases "num_direct e \<le> num")
  case True
  have "forE [0..<block] (\<lambda>i. put_block e buf (\<lambda>fs. barray_at e fs node (num - num_direct e + i + 1))) s =
      forE [0..<block] (\<lambda>i. put_block e buf (\<lambda>fs. file_at e fs node (num + 1 + i))) s"
    by (rule forE_cong) (use True in \<open>simp add: file_at_def Suc_diff_le\<close>)
  then have loop: "forE [0..<block] (\<lambda>i. put_block e buf (\<lambda>fs. barray_at e fs node (num - num_direct e + i + 1))) s =
      forE [num + 1..<num + 1 + block] (\<lambda>i. put_block e buf (\<lambda>fs. file_at e fs node i)) s"
    by (simp only: forE_shift [where a = "num + 1" and f = "\<lambda>i. put_block e buf (\<lambda>fs. file_at e fs node i)"])
  have last: "barray_at e fs node (num - num_direct e + block + 1) = file_at e fs node (num + block + 1)" for fs
    using True by (simp add: file_at_def Suc_diff_le)
  show ?thesis unfolding write_rest_def if_P [OF True] loop last using True by (simp cong: if_cong)
next
  case False
  have "forE [1..<block + 1] (\<lambda>i. put_block e buf (\<lambda>fs. if num + i < num_direct e then direct_at node (num + i)
      else barray_at e fs node (num + i - num_direct e))) s =
      forE [1..<1 + block] (\<lambda>i. put_block e buf (\<lambda>fs. file_at e fs node (num + i))) s"
    by (simp add: file_at_def)
  also have "\<dots> = forE [num + 1..<num + 1 + block] (\<lambda>i. put_block e buf (\<lambda>fs. file_at e fs node i)) s"
    unfolding forE_shift [symmetric] by (simp add: add.assoc)
  finally have loop: "forE [1..<block + 1] (\<lambda>i. put_block e buf (\<lambda>fs. if num + i < num_direct e then direct_at node (num + i)
      else barray_at e fs node (num + i - num_direct e))) s =
      forE [num + 1..<num + 1 + block] (\<lambda>i. put_block e buf (\<lambda>fs. file_at e fs node i)) s" .
  have last: "(if num + block + 1 < num_direct e then bindE (direct_at node (num + block + 1)) f
      else bindE (barray_at e fs node (num + block + 1 - num_direct e)) g) =
      bindE (file_at e fs node (num + block + 1)) (\<lambda>b. if num < num_direct e \<and> num_direct e \<le> num + block + 1 then g b else f b)"
    for fs f g using False by (simp add: file_at_def)
  show ?thesis unfolding write_rest_def if_not_P [OF False] loop last ..
qed

section \<open>A whole write\<close>

lemma file_at_cong:
  assumes "direct n' = direct n" "indirect n' = indirect n"
  shows "file_at e fs n' = file_at e fs n" "has_block e fs n' = has_block e fs n" "file_bytes e fs n' N = file_bytes e fs n N"
    "layout e n' N fs = layout e n N fs"
proof -
  show at: "file_at e fs n' = file_at e fs n"
    using assms by (simp add: fun_eq_iff file_at_def direct_at_def barray_at_def)
  show hb: "has_block e fs n' = has_block e fs n" by (simp add: fun_eq_iff has_block_def at)
  have "file_block e fs n' = file_block e fs n" by (simp add: fun_eq_iff file_block_def at)
  then show "file_bytes e fs n' N = file_bytes e fs n N" by (simp add: file_bytes_def)
  show "layout e n' N fs = layout e n N fs" using assms(2) by (simp add: layout_def at hb)
qed

text \<open>Where a write of more than the rest of its first block ends.\<close>

lemma write_end:
  fixes B :: nat
  assumes "0 < B" "B - off mod B < cnt"
  defines "k \<equiv> (cnt - (B - off mod B)) div B"
  shows "cnt = B - off mod B + k * B + (off + cnt) mod B" "off + cnt = (off div B + 1 + k) * B + (off + cnt) mod B"
proof -
  have lt: "off mod B < B" using assms(1) by simp
  have sum: "off + (B - off mod B) = (off div B + 1) * B" 
  proof -
    have "off = off div B * B + off mod B" by simp
    then have "off + (B - off mod B) = off div B * B + B" using lt by linarith
    then show ?thesis by simp
  qed
  then have total: "off + cnt = (off div B + 1) * B + (cnt - (B - off mod B))" using assms(2) by linarith
  then have "(off + cnt) mod B = (cnt - (B - off mod B)) mod B" by (metis mod_mult_self3)
  moreover have "cnt - (B - off mod B) = k * B + (cnt - (B - off mod B)) mod B" by (simp add: k_def)
  ultimately show "cnt = B - off mod B + k * B + (off + cnt) mod B" using assms(2) by linarith
  then show "off + cnt = (off div B + 1 + k) * B + (off + cnt) mod B" using total by (simp add: algebra_simps)
qed

text \<open>The first block and the loop over the whole blocks behind it.\<close>

lemma write_blocks:
  fixes e off cnt
  defines "B \<equiv> block_size e"
  defines "num \<equiv> off div B" and "remain \<equiv> B - off mod B" and "k \<equiv> (cnt - (B - off mod B)) div B"
  assumes lay: "layout e node N fs" and b: "file_at e fs node num = OK b" and N: "num + 1 + k \<le> N"
    and buf: "length buf = cnt" and big: "remain < cnt"
  shows "\<exists>fs1 fs2. put_bytes buf 0 remain b (off mod B) fs = OK fs1 \<and>
    forE [num + 1..<num + 1 + k] (\<lambda>i. put_block e buf (\<lambda>fs. file_at e fs node i)) (fs1, remain) = OK (fs2, remain + k * B) \<and>
    touched e node N fs fs2 \<and>
    file_bytes e fs2 node N = overwrite (file_bytes e fs node N) off (take (remain + k * B) buf)"
proof -
  have B: "0 < B" using lay by (simp add: layout_def B_def)
  have lt: "off mod B < B" using B by simp
  note eqs = write_end [OF B big [unfolded remain_def], folded k_def remain_def num_def]
  obtain fs1 where fs1: "put_bytes buf 0 remain b (off mod B) fs = OK fs1" "touched e node N fs fs1"
    "file_bytes e fs1 node N = overwrite (file_bytes e fs node N) (num * B + off mod B) (take remain (drop 0 buf))"
    using put_bytes_file [OF lay _ b, of "off mod B" remain 0 buf] N buf big lt by (auto simp: remain_def B_def)
  have lay1: "layout e node N fs1" using fs1(2) by (simp add: touched_def)
  have len: "remain + k * B \<le> length buf" using eqs(1) buf by linarith
  obtain fs2 where fs2: "forE [num + 1..<num + 1 + k] (\<lambda>i. put_block e buf (\<lambda>fs. file_at e fs node i)) (fs1, remain) = OK (fs2, remain + k * B)"
    "touched e node N fs1 fs2"
    "file_bytes e fs2 node N = overwrite (file_bytes e fs1 node N) ((num + 1) * B) (take (k * B) (drop remain buf))"
    using put_blocks [OF lay1, of "num + 1" k remain buf] N len by (auto simp: B_def)
  have same: "file_at e fs1 node i = file_at e fs node i" for i using fs1(2) by (simp add: touched_def)
  have "num * B + off mod B = off" by (simp add: num_def)
  moreover have "off + remain = (num + 1) * B" using eqs \<open>num * B + off mod B = off\<close> lt by (simp add: remain_def algebra_simps)
  moreover have "(num + 1 + k) * B \<le> N * B" using N by (rule mult_le_mono1)
  then have "off + remain + k * B \<le> N * B" using calculation(2) by (simp add: algebra_simps)
  moreover have "take (remain + k * B) buf = take remain buf @ take (k * B) (drop remain buf)" by (rule take_add)
  ultimately have "file_bytes e fs2 node N = overwrite (file_bytes e fs node N) off (take (remain + k * B) buf)"
    using fs1(3) fs2(3) len overwrite_append [of off "take remain buf" "take (k * B) (drop remain buf)" "file_bytes e fs node N"]
      length_file_bytes [OF lay] by (simp add: B_def)
  then show ?thesis using fs1(1) fs2(1) touched_trans [OF fs1(2) fs2(2)] by blast
qed

definition write_data :: "fs_env \<Rightarrow> string \<Rightarrow> inode \<Rightarrow> nat \<Rightarrow> nat \<Rightarrow> int \<Rightarrow> filesystem \<Rightarrow> filesystem res" where
  "write_data e buf node off cnt b fs = (let remain = block_size e - off mod block_size e in
     if cnt \<le> remain then put_bytes buf 0 cnt b (off mod block_size e) fs
     else bindE (put_bytes buf 0 remain b (off mod block_size e) fs) (\<lambda>fs.
       bindE (write_rest e buf node (off div block_size e) ((cnt - remain) div block_size e) ((off + cnt) mod block_size e)
         (fs, remain)) (\<lambda>(fs, p). OK fs)))"

lemma write_data_ok:
  fixes e off
  defines "B \<equiv> block_size e" and "D \<equiv> num_direct e"
  assumes lay: "layout e node N fs" and b: "file_at e fs node (off div B) = OK b" and N: "off + cnt \<le> N * B"
    and buf: "length buf = cnt" "0 < cnt" and inside: "D * B \<le> off \<or> off + cnt \<le> D * B \<or> (off + cnt) mod B = 0"
  shows "\<exists>fs'. write_data e buf node off cnt b fs = OK fs' \<and> touched e node N fs fs' \<and>
    file_bytes e fs' node N = overwrite (file_bytes e fs node N) off buf"
proof -
  have B: "0 < B" using lay by (simp add: layout_def B_def)
  have lt: "off mod B < B" using B by simp
  let ?remain = "B - off mod B" and ?num = "off div B"
  show ?thesis
  proof (cases "cnt \<le> ?remain")
    case True
    have "?num * B < N * B" using N buf(2) div_times_less_eq_dividend [of off B] by linarith
    then have "?num < N" by simp
    moreover have "off mod B + cnt \<le> B" using True lt by linarith
    ultimately obtain fs' where "put_bytes buf 0 cnt b (off mod B) fs = OK fs'" "touched e node N fs fs'"
      "file_bytes e fs' node N = overwrite (file_bytes e fs node N) (?num * B + off mod B) (take cnt (drop 0 buf))"
      using put_bytes_file [OF lay _ b, of "off mod B" cnt 0 buf] True lt buf(1) by (auto simp: B_def)
    then show ?thesis using True buf(1) by (simp add: write_data_def B_def Let_def)
  next
    case False
    define k where "k = (cnt - ?remain) div B"
    note eqs = write_end [OF B, of off cnt, folded k_def]
    have end_eq: "cnt = ?remain + k * B + (off + cnt) mod B" "off + cnt = (?num + 1 + k) * B + (off + cnt) mod B"
      using eqs False by simp_all
    have "(?num + 1 + k) * B \<le> N * B" using end_eq(2) N by linarith
    then have N1: "?num + 1 + k \<le> N" using B by (simp only: mult_le_cancel2)
    obtain fs1 fs2 where w: "put_bytes buf 0 ?remain b (off mod B) fs = OK fs1"
      "forE [?num + 1..<?num + 1 + k] (\<lambda>i. put_block e buf (\<lambda>fs. file_at e fs node i)) (fs1, ?remain) = OK (fs2, ?remain + k * B)"
      "touched e node N fs fs2"
      "file_bytes e fs2 node N = overwrite (file_bytes e fs node N) off (take (?remain + k * B) buf)"
      using write_blocks [OF lay b [unfolded B_def], of cnt buf, folded B_def, folded k_def, OF N1 buf(1)] False
      by (metis not_le)
    have lay2: "layout e node N fs2" using w(3) by (simp add: touched_def)
    show ?thesis
    proof (cases "(off + cnt) mod B = 0")
      case True
      then have "take (?remain + k * B) buf = buf" using end_eq(1) buf(1) by simp
      then show ?thesis using w True False
        by (simp add: write_data_def Let_def B_def [symmetric] write_rest_eq k_def [symmetric])
    next
      case nz: False
      let ?r = "(off + cnt) mod B"
      have r: "?r < B" using B by simp
      have "(?num + 1 + k) * B < N * B" using end_eq(2) N nz by linarith
      then have N2: "?num + 1 + k < N" by (simp only: mult_less_cancel2)
      obtain b2 where b2: "file_at e fs2 node (?num + 1 + k) = OK b2" using layout_at [OF lay2 N2] by blast
      have "?remain + k * B + ?r \<le> length buf" using end_eq(1) buf(1) by linarith
      then obtain fs3 where fs3: "put_bytes buf (?remain + k * B) ?r b2 0 fs2 = OK fs3" "touched e node N fs2 fs3"
        "file_bytes e fs3 node N = overwrite (file_bytes e fs2 node N) ((?num + 1 + k) * B) (take ?r (drop (?remain + k * B) buf))"
        using put_bytes_file [OF lay2 N2 b2, of 0 ?r "?remain + k * B" buf] r by (auto simp: B_def)
      have branch: "\<not> (?num < D \<and> D \<le> ?num + k + 1)"
      proof
        assume a: "?num < D \<and> D \<le> ?num + k + 1"
        then have "off < D * B" using B by (simp add: div_less_iff_less_mult)
        moreover have "D * B \<le> (?num + 1 + k) * B" using a by (intro mult_le_mono1) simp
        then have "D * B < off + cnt" using end_eq(2) nz by linarith
        ultimately show False using inside nz by linarith
      qed
      have run: "write_data e buf node off cnt b fs = OK fs3"
        using w(1,2) fs3(1) b2 branch nz False unfolding D_def
        by (auto simp: write_data_def Let_def B_def [symmetric] write_rest_eq k_def [symmetric] add.commute)
      have "take (?remain + k * B) buf @ take ?r (drop (?remain + k * B) buf) = buf"
        using take_add [of "?remain + k * B" ?r buf] end_eq(1) buf(1) by simp
      moreover have "off + length (take (?remain + k * B) buf) = (?num + 1 + k) * B"
        using end_eq buf(1) by simp
      moreover have "length (take (?remain + k * B) buf) + length (take ?r (drop (?remain + k * B) buf)) = cnt"
        using end_eq(1) buf(1) by simp
      ultimately have "file_bytes e fs3 node N = overwrite (file_bytes e fs node N) off buf"
        using fs3(3) w(4) N length_file_bytes [OF lay]
          overwrite_append [of off "take (?remain + k * B) buf" "take ?r (drop (?remain + k * B) buf)" "file_bytes e fs node N"]
        by (simp add: B_def)
      then show ?thesis using run touched_trans [OF w(3) fs3(2)] by blast
    qed
  qed
qed

lemma write_data_over_reads:
  fixes e off
  defines "B \<equiv> block_size e" and "D \<equiv> num_direct e"
  assumes lay: "layout e node N fs" and b: "file_at e fs node (off div B) = OK b" and N: "off + cnt \<le> N * B"
    and buf: "length buf = cnt" and cross: "off < D * B" "D * B < off + cnt" "(off + cnt) mod B \<noteq> 0"
  shows "write_data e buf node off cnt b fs = Fault Out_Of_Bounds"
proof -
  have B: "0 < B" using lay by (simp add: layout_def B_def)
  let ?remain = "B - off mod B" and ?num = "off div B"
  define k where "k = (cnt - ?remain) div B"
  have numD: "?num < D" using cross(1) B by (simp add: div_less_iff_less_mult)
  then have "(?num + 1) * B \<le> D * B" by (intro mult_le_mono1) simp
  then have "?num * B + B < off + cnt" using cross(2) by simp
  moreover have "off = ?num * B + off mod B" by simp
  moreover have "off mod B < B" using B by simp
  ultimately have big: "?remain < cnt" by linarith
  note eqs = write_end [OF B big, folded k_def]
  have r: "(off + cnt) mod B < B" using B by simp
  have "(?num + 1 + k) * B < N * B" using eqs(2) N cross(3) by linarith
  then have N2: "?num + 1 + k < N" by (simp only: mult_less_cancel2)
  then have N1: "?num + 1 + k \<le> N" by simp
  obtain fs1 fs2 where w: "put_bytes buf 0 ?remain b (off mod B) fs = OK fs1"
    "forE [?num + 1..<?num + 1 + k] (\<lambda>i. put_block e buf (\<lambda>fs. file_at e fs node i)) (fs1, ?remain) = OK (fs2, ?remain + k * B)"
    "touched e node N fs fs2"
    using write_blocks [OF lay b [unfolded B_def], of cnt buf, folded B_def, folded k_def, OF N1 buf big] by blast
  have lay2: "layout e node N fs2" using w(3) by (simp add: touched_def)
  obtain b2 where b2: "file_at e fs2 node (?num + 1 + k) = OK b2" using layout_at [OF lay2 N2] by blast
  have "D * B < (?num + 1 + k + 1) * B" using cross(2) eqs(2) r by (simp add: algebra_simps)
  then have "D < ?num + 1 + k + 1" by (simp only: mult_less_cancel2)
  then have "?num < D \<and> D \<le> ?num + k + 1" using numD by simp
  moreover have "\<not> ?remain + k * B + B \<le> length buf" using eqs(1) r buf by linarith
  ultimately show ?thesis using w(1,2) b2 cross(3) big unfolding D_def
    by (simp add: write_data_def Let_def B_def [symmetric] write_rest_eq k_def [symmetric] put_bytes_def add.commute)
qed

lemma set_inode_file [simp]:
  "blocks (set_inode i n fs) = blocks fs" "inodes (set_inode i n fs) = (inodes fs)(i := n)"
  "file_at e (set_inode i n fs) = file_at e fs" "file_bytes e (set_inode i n fs) = file_bytes e fs"
  "has_block e (set_inode i n fs) = has_block e fs" "layout e node N (set_inode i n fs) = layout e node N fs"
proof -
  show b: "blocks (set_inode i n fs) = blocks fs" "inodes (set_inode i n fs) = (inodes fs)(i := n)" by (simp_all add: set_inode_def)
  show at: "file_at e (set_inode i n fs) = file_at e fs"
    by (simp add: fun_eq_iff file_at_def direct_at_def barray_at_def Let_def b)
  have "file_block e (set_inode i n fs) = file_block e fs" unfolding fun_eq_iff file_block_def at b by simp
  then show "file_bytes e (set_inode i n fs) = file_bytes e fs" by (simp add: file_bytes_def [abs_def])
  show h: "has_block e (set_inode i n fs) = has_block e fs" unfolding fun_eq_iff has_block_def at b by simp
  show "layout e node N (set_inode i n fs) = layout e node N fs" by (simp add: layout_def at h)
qed

lemma minixfs_write_unfold:
  assumes r: "min_blockcount e path (blocks_for e (off + cnt)) fs = (r, fs1)" "r \<noteq> -1" and i: "get_inode e fs1 path = Some i"
    and max: "off + cnt \<le> block_size e * (num_direct e + num_indirect e)" "off + cnt < 2 ^ 64" "0 < cnt"
    and lay: "layout e (inodes fs1 i) N fs1" "off + cnt \<le> N * block_size e"
  defines "node \<equiv> (inodes fs1 i)\<lparr>mtim := now e, atim := now e\<rparr>"
  shows "\<exists>b. file_at e (set_inode i node fs1) node (off div block_size e) = OK b \<and>
    layout e node N (set_inode i node fs1) \<and>
    file_bytes e (set_inode i node fs1) node N = file_bytes e fs1 (inodes fs1 i) N \<and>
    file_at e (set_inode i node fs1) node = file_at e fs1 (inodes fs1 i) \<and>
    minixfs_write e path buf cnt off fs = bindE (write_data e buf node off cnt b (set_inode i node fs1)) (\<lambda>fs.
      OK (Inr cnt, off + cnt, set_inode i ((inodes fs i)\<lparr>isize := off + cnt\<rparr>) fs))"
proof -
  let ?B = "block_size e" and ?fs = "set_inode i node fs1"
  have B: "0 < ?B" using lay(1) by (simp add: layout_def)
  have cong: "file_at e fs1 node = file_at e fs1 (inodes fs1 i)" "layout e node N fs1"
    "file_bytes e fs1 node N = file_bytes e fs1 (inodes fs1 i) N"
    using file_at_cong [of node "inodes fs1 i" e] lay(1) by (simp_all add: node_def)
  have lay2: "layout e node N ?fs" using cong(2) by simp
  have num: "off div ?B * ?B < N * ?B" using lay(2) max(3) div_times_less_eq_dividend [of off ?B] by linarith
  then have "off div ?B < N" by simp
  then obtain b where b: "file_at e ?fs node (off div ?B) = OK b" using layout_at [OF lay2] by blast
  have "off div ?B * ?B < off + cnt" using max(3) div_times_less_eq_dividend [of off ?B] by linarith
  then have "off div ?B * ?B < (num_direct e + num_indirect e) * ?B" using max(1) by (simp only: mult.commute)
  then have room: "\<not> num_indirect e + num_direct e \<le> off div ?B" by simp
  have need: "(off + cnt) div ?B + (if 0 < (off + cnt) mod ?B then 1 else 0) = blocks_for e (off + cnt)"
    by (simp add: blocks_for_def)
  have stop: "(off + cnt) mod 2 ^ 64 = off + cnt" using max(2) by simp
  have ni: "inodes ?fs i = node" by simp
  have first: "(if off div ?B < num_direct e then direct_at node (off div ?B)
      else barray_at e ?fs node (off div ?B - num_direct e)) = OK b" by (rule b [unfolded file_at_def])
  have "minixfs_write e path buf cnt off fs = bindE (write_data e buf node off cnt b ?fs) (\<lambda>fs.
      OK (Inr cnt, off + cnt, set_inode i ((inodes fs i)\<lparr>isize := off + cnt\<rparr>) fs))"
    unfolding minixfs_write_def Let_def stop need r(1) prod.case i option.case node_def [symmetric] ni first bindE_simps
    using max(1) r(2) room by (simp add: write_data_def Let_def)
  then show ?thesis using b lay2 cong(1,3) by auto
qed

section \<open>Properties\<close>

text \<open>
  A write that stays in the direct blocks, or in the indirect ones, or ends at the end of a block,
  stores its buffer.
\<close>

lemma write_overwrites:
  assumes "min_blockcount e path (blocks_for e (off + cnt)) fs = (r, fs1)" "r \<noteq> -1" "get_inode e fs1 path = Some i"
    and "off + cnt \<le> block_size e * (num_direct e + num_indirect e)" "off + cnt < 2 ^ 64" "0 < cnt"
    and "layout e (inodes fs1 i) N fs1" "off + cnt \<le> N * block_size e" "length buf = cnt"
    and "num_direct e * block_size e \<le> off \<or> off + cnt \<le> num_direct e * block_size e \<or> (off + cnt) mod block_size e = 0"
  shows "\<exists>fs'. minixfs_write e path buf cnt off fs = OK (Inr cnt, off + cnt, fs') \<and>
    file_bytes e fs' (inodes fs' i) N = overwrite (file_bytes e fs1 (inodes fs1 i) N) off buf \<and>
    inodes fs' = (inodes fs1)(i := (inodes fs1 i)\<lparr>mtim := now e, atim := now e, isize := off + cnt\<rparr>) \<and>
    (\<forall>k < length (blocks fs1). (\<forall>j < N. file_at e fs1 (inodes fs1 i) j \<noteq> OK (int k)) \<longrightarrow> blocks fs' ! k = blocks fs1 ! k)"
proof -
  let ?node = "(inodes fs1 i)\<lparr>mtim := now e, atim := now e\<rparr>"
  let ?fs = "set_inode i ?node fs1"
  obtain b where u: "file_at e ?fs ?node (off div block_size e) = OK b" "layout e ?node N ?fs"
    "file_bytes e ?fs ?node N = file_bytes e fs1 (inodes fs1 i) N"
    "file_at e ?fs ?node = file_at e fs1 (inodes fs1 i)"
    "minixfs_write e path buf cnt off fs = bindE (write_data e buf ?node off cnt b ?fs) (\<lambda>fs.
      OK (Inr cnt, off + cnt, set_inode i ((inodes fs i)\<lparr>isize := off + cnt\<rparr>) fs))"
    using minixfs_write_unfold [OF assms(1-8), of buf] by blast
  obtain fs2 where fs2: "write_data e buf ?node off cnt b ?fs = OK fs2" "touched e ?node N ?fs fs2"
    "file_bytes e fs2 ?node N = overwrite (file_bytes e ?fs ?node N) off buf"
    using write_data_ok [OF u(2,1) assms(8,9,6,10)] by blast
  let ?fs3 = "set_inode i ((inodes fs2 i)\<lparr>isize := off + cnt\<rparr>) fs2"
  have ino: "inodes fs2 = inodes ?fs" using fs2(2) by (simp add: touched_def)
  then have ino3: "inodes ?fs3 = (inodes fs1)(i := ?node\<lparr>isize := off + cnt\<rparr>)" by auto
  have n3: "inodes ?fs3 i = ?node\<lparr>isize := off + cnt\<rparr>" by (simp only: ino3 fun_upd_same)
  have "file_bytes e fs2 (?node\<lparr>isize := off + cnt\<rparr>) N = file_bytes e fs2 ?node N"
    by (rule file_at_cong) simp_all
  then have "file_bytes e ?fs3 (inodes ?fs3 i) N = overwrite (file_bytes e fs1 (inodes fs1 i) N) off buf"
    unfolding n3 using fs2(3) u(3) by simp
  moreover have "blocks ?fs3 ! k = blocks fs1 ! k"
    if "k < length (blocks fs1)" "\<forall>j < N. file_at e fs1 (inodes fs1 i) j \<noteq> OK (int k)" for k
    using fs2(2) that u(4) by (simp add: touched_def)
  moreover have "minixfs_write e path buf cnt off fs = OK (Inr cnt, off + cnt, ?fs3)" using u(5) fs2(1) by simp
  ultimately show ?thesis using ino3 by blast
qed

text \<open>
  A write that starts in a direct block and ends inside an indirect one copies a whole block
  from its buffer at the end, and so reads behind a buffer of just the bytes to write.
\<close>

lemma write_reads_behind:
  assumes "min_blockcount e path (blocks_for e (off + cnt)) fs = (r, fs1)" "r \<noteq> -1" "get_inode e fs1 path = Some i"
    and "off + cnt \<le> block_size e * (num_direct e + num_indirect e)" "off + cnt < 2 ^ 64" "0 < cnt"
    and "layout e (inodes fs1 i) N fs1" "off + cnt \<le> N * block_size e" "length buf = cnt"
    and "off < num_direct e * block_size e" "num_direct e * block_size e < off + cnt" "(off + cnt) mod block_size e \<noteq> 0"
  shows "minixfs_write e path buf cnt off fs = Fault Out_Of_Bounds"
proof -
  let ?node = "(inodes fs1 i)\<lparr>mtim := now e, atim := now e\<rparr>"
  let ?fs = "set_inode i ?node fs1"
  obtain b where u: "file_at e ?fs ?node (off div block_size e) = OK b" "layout e ?node N ?fs"
    "minixfs_write e path buf cnt off fs = bindE (write_data e buf ?node off cnt b ?fs) (\<lambda>fs.
      OK (Inr cnt, off + cnt, set_inode i ((inodes fs i)\<lparr>isize := off + cnt\<rparr>) fs))"
    using minixfs_write_unfold [OF assms(1-8), of buf] by blast
  show ?thesis using u(3) write_data_over_reads [OF u(2,1) assms(8,9,10-12)] by simp
qed

text \<open>
  C16: A write to a file that has the blocks for it overwrites exactly the bytes from the offset on
  with the buffer, changes no block that is not one of the file's, moves the offset and sets the
  size to the end of the write, even where the file was longer before, so that it then loses what
  is behind. The one exception is a write that starts in a direct block and ends inside an indirect
  one: it reads behind its buffer.
\<close>

theorem minixfs_write_stores:
  assumes "min_blockcount e path (blocks_for e (off + cnt)) fs = (r, fs1)" "r \<noteq> -1" "get_inode e fs1 path = Some i"
    and "off + cnt \<le> block_size e * (num_direct e + num_indirect e)" "off + cnt < 2 ^ 64" "0 < cnt"
    and "layout e (inodes fs1 i) N fs1" "off + cnt \<le> N * block_size e" "length buf = cnt"
  shows "if off < num_direct e * block_size e \<and> num_direct e * block_size e < off + cnt \<and> (off + cnt) mod block_size e \<noteq> 0
    then minixfs_write e path buf cnt off fs = Fault Out_Of_Bounds
    else \<exists>fs'. minixfs_write e path buf cnt off fs = OK (Inr cnt, off + cnt, fs') \<and>
      file_bytes e fs' (inodes fs' i) N = overwrite (file_bytes e fs1 (inodes fs1 i) N) off buf \<and>
      inodes fs' = (inodes fs1)(i := (inodes fs1 i)\<lparr>mtim := now e, atim := now e, isize := off + cnt\<rparr>) \<and>
      (\<forall>k < length (blocks fs1). (\<forall>j < N. file_at e fs1 (inodes fs1 i) j \<noteq> OK (int k)) \<longrightarrow> blocks fs' ! k = blocks fs1 ! k)"
  (is "if ?cross then ?fault else ?stores")
proof (cases ?cross)
  case True
  then have ?fault using write_reads_behind [OF assms] by blast
  then show ?thesis using True by (simp only: if_True simp_thms)
next
  case False
  then have ?stores by (intro write_overwrites [OF assms]) auto
  then show ?thesis using False by (simp only: if_False)
qed

lemma small_layout: "layout small_env (inodes small_fs 0) 2 small_fs"
proof -
  have two: "i < 2 \<longleftrightarrow> i = 0 \<or> i = 1" for i :: nat by auto
  show ?thesis by (auto simp: layout_def has_block_def small_file_at small_fields two)
qed

theorem minixfs_write_stores_witness:
  "\<exists>fs. minixfs_write small_env ''f'' ''wxyz'' 4 0 small_fs = OK (Inr 4, 4, fs) \<and>
    file_bytes small_env fs (inodes fs 0) 2 = ''wxyz''"
proof -
  have "length (file_bytes small_env small_fs (inodes small_fs 0) 2) = 4"
    using length_file_bytes [OF small_layout] by (simp add: small_fields)
  then have "overwrite (file_bytes small_env small_fs (inodes small_fs 0) 2) 0 ''wxyz'' = ''wxyz''" by (simp add: overwrite_def)
  then show ?thesis
    using minixfs_write_stores [of small_env "''f''" 0 4 small_fs 0 small_fs 0 2 "''wxyz''"] small_layout
    by (auto simp: small_fields)
qed

text \<open>A file with one direct block of two bytes: three bytes from its start are not stored.\<close>

lemma small_write_reads_behind: "minixfs_write small_env ''f'' ''xyz'' 3 0 small_fs = Fault Out_Of_Bounds"
  using write_reads_behind [of small_env "''f''" 0 3 small_fs 0 small_fs 0 2 "''xyz''"] small_layout
  by (simp add: small_fields)

text \<open>
  A directory with room for an entry in its last direct block gets the entry of the new inode
  behind the entries it has, and grows by its size.
\<close>

theorem create_inode_appends_entry:
  fixes e fs i
  defines "parent \<equiv> inodes fs i"
  assumes "parent_directory e fs path = (Some i, name)" "valid_filename e name" "\<not> is_file e parent"
    "get_inode e fs path = None" "first_unused_inode e fs = int inum"
    and "isize parent \<noteq> 0" "isize parent mod block_size e + 256 \<le> block_size e"
    and "isize parent div block_size e < num_direct e" "isize parent div block_size e < N"
    and "layout e parent N fs" "length (dirent e inum name) = 256"
    and init: "\<And>fs. init_inode e i inum fs = set_inode inum new fs" "inum \<noteq> i"
  shows "\<exists>fs'. minixfs_create_inode_for_path e (Some path) fs = OK (Some inum, fs') \<and>
    file_bytes e fs' (inodes fs' i) N = overwrite (file_bytes e fs parent N) (isize parent) (dirent e inum name) \<and>
    inodes fs' = (inodes fs)(inum := new, i := parent\<lparr>isize := isize parent + 256\<rparr>)"
proof -
  let ?B = "block_size e" and ?n = "isize parent div block_size e" and ?o = "isize parent mod block_size e"
  let ?fs = "set_inode inum new fs"
  obtain b where b: "file_at e fs parent ?n = OK b" using layout_at assms(10,11) by blast
  then have d: "direct_at parent ?n = OK b" using assms(9) by (simp add: file_at_def)
  have o: "isize parent - ?n * ?B = ?o" "256 \<le> ?B - ?o" using assms(8) by (simp_all add: minus_div_mult_eq_mod)
  obtain fs1 where fs1: "poke b ?o (dirent e inum name) ?fs = OK fs1" "touched e parent N ?fs fs1"
    "file_bytes e fs1 parent N = overwrite (file_bytes e ?fs parent N) (?n * ?B + ?o) (dirent e inum name)"
    using poke_file [of e parent N ?fs ?n b ?o "dirent e inum name"] assms(8,10,11,12) b by auto
  let ?p = "parent\<lparr>isize := isize parent + 256\<rparr>"
  have ino: "inodes fs1 = (inodes fs)(inum := new)" "inodes fs1 i = parent" using fs1(2) init(2) by (simp_all add: touched_def parent_def)
  have place: "direct_place e i fs = OK (Some (Some (b, ?o)), fs)"
    using assms(7) d o unfolding direct_place_def Let_def parent_def [symmetric] by simp
  have "minixfs_create_inode_for_path e (Some path) fs = write_entry e i inum name (b, ?o) fs"
    using assms(2-6) place unfolding minixfs_create_inode_for_path_def parent_def by (simp add: Let_def)
  also have "\<dots> = OK (Some inum, set_inode i ?p fs1)"
    using fs1(1) ino(2) by (simp add: write_entry_def init(1) Let_def)
  finally have run: "minixfs_create_inode_for_path e (Some path) fs = OK (Some inum, set_inode i ?p fs1)" .
  have "file_bytes e fs1 ?p N = file_bytes e fs1 parent N" by (rule file_at_cong) simp_all
  then show ?thesis using run fs1(3) ino(1) by (intro exI [of _ "set_inode i ?p fs1"]) simp
qed

text \<open>
  A directory whose entries exactly fill its direct blocks so far gets no new block: the entry
  would go to the next direct block, whose number is still -1.
\<close>

theorem create_inode_in_missing_block:
  fixes e fs i
  defines "parent \<equiv> inodes fs i"
  assumes "parent_directory e fs path = (Some i, name)" "valid_filename e name" "\<not> is_file e parent"
    "get_inode e fs path = None" "first_unused_inode e fs = int inum"
    and "isize parent = k * block_size e" "0 < k" "256 \<le> block_size e" "k < length (direct parent)" "direct parent ! k = -1"
    and "dirent e inum name \<noteq> []"
  shows "minixfs_create_inode_for_path e (Some path) fs = Fault Out_Of_Bounds"
proof -
  have "isize parent \<noteq> 0" "isize parent div block_size e = k" using assms(7-9) by auto
  then have place: "direct_place e i fs = OK (Some (Some (-1, 0)), fs)"
    using assms(7,9-11) unfolding direct_place_def Let_def parent_def [symmetric] by (simp add: direct_at_def)
  then show ?thesis using assms(2-6,12) unfolding minixfs_create_inode_for_path_def parent_def
    by (simp add: Let_def write_entry_def poke_def)
qed

text \<open>A directory of one block of 512 bytes.\<close>

definition dir_env :: fs_env where
  "dir_env = small_env\<lparr>block_size := 512, num_direct := 2, dirent := (\<lambda>_ _. replicate 256 (CHR ''e'')),
     init_inode := (\<lambda>_ i fs. set_inode i (inodes small_fs 0) fs)\<rparr>"

definition dir_fs :: "nat \<Rightarrow> filesystem" where
  "dir_fs n = \<lparr>inodes = (\<lambda>_. (inodes small_fs 0)\<lparr>isize := n, direct := [0, -1], indirect := -1\<rparr>),
     blocks = [replicate 512 (CHR ''x'')], data_map = [1]\<rparr>"

theorem create_inode_appends_entry_witness:
  "\<exists>fs. minixfs_create_inode_for_path dir_env (Some ''g'') (dir_fs 256) = OK (Some 1, fs) \<and> isize (inodes fs 0) = 512"
proof -
  have "layout dir_env (inodes (dir_fs 256) 0) 1 (dir_fs 256)"
    by (simp add: layout_def has_block_def file_at_def direct_at_def dir_env_def dir_fs_def small_env_def)
  then show ?thesis
    using create_inode_appends_entry [of dir_env "dir_fs 256" "''g''" 0 "''g''" 1 1 "inodes small_fs 0"]
    by (auto simp: dir_env_def small_env_def dir_fs_def)
qed

theorem create_inode_in_missing_block_witness:
  "minixfs_create_inode_for_path dir_env (Some ''g'') (dir_fs 512) = Fault Out_Of_Bounds"
  using create_inode_in_missing_block [of dir_env "dir_fs 512" "''g''" 0 "''g''" 1 1]
  by (simp add: dir_env_def small_env_def dir_fs_def)

end
