(* ===== verification/Chat_Utils.thy ===== *)
theory Chat_Utils
  imports Socket
begin

text \<open>
  The transfers of the chat room, \<open>charming_chatroom/utils.c\<close>: a message is its size as four
  bytes in network order and then its bytes. What one end writes, the other end reads, however
  the bytes are cut and whatever errors come up on the way; no error ends a transfer.
\<close>

section \<open>The model\<close>

text \<open>
  The lengths are \<open>int\<close>, and so is the size that \<open>calloc\<close> gets: for a negative one it gives the
  null pointer. \<open>sprintf\<close> writes the text and its NUL.
\<close>

definition create_message :: "string \<Rightarrow> string \<Rightarrow> string res" where
  "create_message name message = (let name_len = to_int (of_nat (length name)); msg_len = to_int (of_nat (length message)) in
     bindE (c_int (msg_len + name_len)) (\<lambda>n. bindE (c_int (n + 4)) (\<lambda>n.
       if n < 0 then Fault Null_Deref
       else let msg = name @ '': '' @ message in
         if nat n < length (msg @ [NUL]) then Fault Out_Of_Bounds else OK msg)))"

text \<open>The bytes of \<open>htonl\<close> of a number on a little-endian machine, and the number \<open>ntohl\<close> gives.\<close>

definition htonl_bytes :: "size_t \<Rightarrow> string" where
  "htonl_bytes sz = rev (take 4 (size_bytes sz))"

definition ntohl_bytes :: "string \<Rightarrow> int" where
  "ntohl_bytes bs = uint (bytes_size (rev bs))"

text \<open>
  \<open>None\<close>: the call has not returned. A failed call changes nothing and is repeated, whatever
  the error was.
\<close>

function read_from :: "nat \<Rightarrow> string \<Rightarrow> socket \<Rightarrow> (int \<times> string \<times> socket) option" where
  "read_from cnt buffer s = (if length buffer < cnt then
     (case sys_read (cnt - length buffer) s of
        None \<Rightarrow> None
      | Some (Inl e, s') \<Rightarrow> if events s = [] then None else read_from cnt buffer s'
      | Some (Inr d, s') \<Rightarrow> if d = [] then Some (0, buffer, s') else read_from cnt (buffer @ d) s')
   else Some (int cnt, buffer, s))"
  by pat_completeness auto
termination
  by (relation "measure (\<lambda>(n, b, s). length (events s))")
    (auto simp: sys_read_def split: list.splits io_event.splits if_splits)

definition read_all_from_socket :: "nat \<Rightarrow> socket \<Rightarrow> (int \<times> string \<times> socket) option" where
  "read_all_from_socket cnt s = read_from cnt [] s"

function write_to :: "string \<Rightarrow> nat \<Rightarrow> socket \<Rightarrow> (int \<times> socket) option" where
  "write_to buffer offset s = (if offset < length buffer then
     (case sys_write (drop offset buffer) s of
        None \<Rightarrow> None
      | Some (Inl e, s') \<Rightarrow> if events s = [] then None else write_to buffer offset s'
      | Some (Inr n, s') \<Rightarrow> if n = 0 then Some (0, s') else write_to buffer (offset + n) s')
   else Some (int (length buffer), s))"
  by pat_completeness auto
termination
  by (relation "measure (\<lambda>(b, n, s). length (events s))")
    (auto simp: sys_write_def split: list.splits io_event.splits if_splits)

definition write_all_to_socket :: "string \<Rightarrow> socket \<Rightarrow> (int \<times> socket) option" where
  "write_all_to_socket buffer s = write_to buffer 0 s"

definition get_message_size :: "socket \<Rightarrow> (int \<times> socket) option" where
  "get_message_size s = (case read_all_from_socket 4 s of
      None \<Rightarrow> None
    | Some (read_bytes, buffer, s) \<Rightarrow>
        Some (if read_bytes = 0 \<or> read_bytes = -1 then read_bytes else ntohl_bytes buffer, s))"

definition write_message_size :: "size_t \<Rightarrow> socket \<Rightarrow> (int \<times> socket) option" where
  "write_message_size sz s = write_all_to_socket (htonl_bytes sz) s"

declare read_from.simps [simp del] write_to.simps [simp del]

section \<open>Lemmas\<close>

text \<open>A connection that moves on: no call moves nothing, but calls may fail in any way.\<close>

definition moving :: "io_event list \<Rightarrow> bool" where
  "moving es \<longleftrightarrow> (\<forall>e \<in> set es. e \<noteq> Xfer 0)"

lemma moving_simps [simp]: "moving []" "moving (e # es) \<longleftrightarrow> e \<noteq> Xfer 0 \<and> moving es"
  by (simp_all add: moving_def)

lemma create_message_OK:
  assumes "length name + length message + 4 < 2 ^ 31"
  shows "create_message name message = OK (name @ '': '' @ message)"
proof -
  have len: "to_int (of_nat n) = int n" if "n < 2 ^ 31" for n
    using that unat_of_nat_size_t [of n] to_int_small [of "of_nat n"] by simp
  have "int (length name + length message + 4) < 2 ^ 31" using assms by (simp only: of_nat_less_numeral_power_cancel_iff)
  then have "c_int (int (length message) + int (length name)) = OK (int (length message) + int (length name))"
    "c_int (int (length message) + int (length name) + 4) = OK (int (length message) + int (length name) + 4)"
    by (simp_all add: INT_MIN_def INT_MAX_def)
  moreover have "nat (int (length message) + int (length name) + 4) = length message + length name + 4" by simp
  ultimately show ?thesis using len [of "length name"] len [of "length message"] assms
    by (simp add: create_message_def)
qed

lemma read_from_moving:
  assumes "moving (events s)" "n \<le> transfers (events s)" "n \<le> length (incoming s)"
  shows "\<exists>s'. read_from (length got + n) got s = Some (int (length got + n), got @ take n (incoming s), s') \<and>
    incoming s' = drop n (incoming s) \<and> moving (events s') \<and> sent s' = sent s \<and>
    transfers (events s) \<le> transfers (events s') + n"
  using assms
proof (induction "length (events s)" arbitrary: s n got rule: less_induct)
  case less
  show ?case
  proof (cases "n = 0")
    case True
    then show ?thesis using less.prems by (subst read_from.simps) simp
  next
    case False
    then obtain e es where e: "events s = e # es" using less.prems(2) by (cases "events s") auto
    show ?thesis
    proof (cases e)
      case (Err err)
      then have "read_from (length got + n) got s = read_from (length got + n) got (s\<lparr>events := es\<rparr>)"
        using e False by (subst read_from.simps) (simp add: sys_read_def)
      then show ?thesis using less.hyps [of "s\<lparr>events := es\<rparr>" n got] less.prems e Err by simp
    next
      case (Xfer k)
      let ?m = "min k n"
      let ?d = "take ?m (incoming s)" and ?s = "s\<lparr>events := es, incoming := drop ?m (incoming s)\<rparr>"
      have "k \<noteq> 0" using less.prems(1) e Xfer by auto
      then have m: "0 < ?m" "?m \<le> n" "length ?d = ?m" using False less.prems(3) by auto
      then have d: "?d \<noteq> []" by (metis length_greater_0_conv)
      have eq: "length got + n = length (got @ ?d) + (n - ?m)" using m by simp
      have step: "read_from (length got + n) got s = read_from (length got + n) (got @ ?d) ?s"
        using e Xfer False d m(1) by (subst read_from.simps) (auto simp: sys_read_def)
      obtain s' where s': "read_from (length (got @ ?d) + (n - ?m)) (got @ ?d) ?s =
          Some (int (length (got @ ?d) + (n - ?m)), (got @ ?d) @ take (n - ?m) (incoming ?s), s')"
          "incoming s' = drop (n - ?m) (incoming ?s)" "moving (events s')" "sent s' = sent ?s"
          "transfers (events ?s) \<le> transfers (events s') + (n - ?m)"
      proof -
        have "n \<le> Suc (transfers es)" using less.prems(2) e Xfer by simp
        then have "n - ?m \<le> transfers es" using m(1) by linarith
        then have "n - ?m \<le> transfers (events ?s)" by simp
        moreover have "n - ?m \<le> length (incoming ?s)" using less.prems(3) m by simp
        moreover have "length (events ?s) < length (events s)" "moving (events ?s)" using e less.prems(1) by simp_all
        ultimately show ?thesis using less.hyps [of ?s "n - ?m" "got @ ?d"] that by blast
      qed
      have "?d @ take (n - ?m) (incoming ?s) = take n (incoming s)"
        using take_add [of ?m "n - ?m" "incoming s"] m(2) by simp
      moreover have "transfers (events s) \<le> transfers (events s') + n"
      proof -
        have "transfers (events s) = Suc (transfers es)" "transfers (events ?s) = transfers es" using e Xfer by simp_all
        then show ?thesis using s'(5) m(1,2) by linarith
      qed
      ultimately show ?thesis using s'(2-4) s'(1) unfolding step unfolding eq by auto
    qed
  qed
qed

lemma write_to_moving:
  assumes "moving (events s)" "length b \<le> transfers (events s)"
  shows "\<exists>s'. write_to (done @ b) (length done) s = Some (int (length (done @ b)), s') \<and>
    sent s' = sent s @ b \<and> moving (events s') \<and> incoming s' = incoming s \<and>
    transfers (events s) \<le> transfers (events s') + length b"
  using assms
proof (induction "length (events s)" arbitrary: s b "done" rule: less_induct)
  case less
  show ?case
  proof (cases "b = []")
    case True
    then show ?thesis by (subst write_to.simps) (use less.prems(1) in simp)
  next
    case False
    then obtain e es where e: "events s = e # es" using less.prems(2) by (cases "events s") auto
    show ?thesis
    proof (cases e)
      case (Err err)
      then have "write_to (done @ b) (length done) s = write_to (done @ b) (length done) (s\<lparr>events := es\<rparr>)"
        using e False by (subst write_to.simps) (simp add: sys_write_def)
      then show ?thesis using less.hyps [of "s\<lparr>events := es\<rparr>" b "done"] less.prems e Err by simp
    next
      case (Xfer k)
      let ?m = "min k (length b)"
      let ?s = "s\<lparr>events := es, sent := sent s @ take k b\<rparr>"
      have "k \<noteq> 0" using less.prems(1) e Xfer by auto
      then have m: "0 < ?m" "?m \<le> length b" using False by auto
      have split: "(done @ take ?m b) @ drop ?m b = done @ b" "length (done @ take ?m b) = length done + ?m" by simp_all
      have "write_to (done @ b) (length done) s = write_to (done @ b) (length done + ?m) ?s"
        using e Xfer False m(1) by (subst write_to.simps, cases "k \<le> length b") (auto simp: sys_write_def min_absorb1 min_absorb2)
      moreover obtain s' where s': "write_to ((done @ take ?m b) @ drop ?m b) (length (done @ take ?m b)) ?s =
          Some (int (length ((done @ take ?m b) @ drop ?m b)), s')" "sent s' = sent ?s @ drop ?m b"
          "moving (events s')" "incoming s' = incoming ?s" "transfers (events ?s) \<le> transfers (events s') + length (drop ?m b)"
      proof -
        have "length b \<le> Suc (transfers es)" using less.prems(2) e Xfer by simp
        then have "length b - ?m \<le> transfers es" using m(1) by linarith
        then have "length (drop ?m b) \<le> transfers (events ?s)" by simp
        then show ?thesis using less.hyps [of ?s "drop ?m b" "done @ take ?m b"] e less.prems(1) that by auto
      qed
      moreover have "take k b @ drop ?m b = b" by (cases "k \<le> length b") simp_all
      moreover have "transfers (events s) \<le> transfers (events s') + length b"
      proof -
        have "transfers (events s) = Suc (transfers es)" "transfers (events ?s) = transfers es"
          "length (drop ?m b) = length b - ?m" using e Xfer by simp_all
        then show ?thesis using s'(5) m(1,2) by linarith
      qed
      ultimately show ?thesis unfolding split by auto
    qed
  qed
qed

text \<open>A connection on which every call fails keeps the writer for ever, whatever the errors are.\<close>

lemma write_to_errors:
  "(\<forall>e \<in> set (events s). \<exists>err. e = Err err) \<Longrightarrow> blocking s \<Longrightarrow> offset < length b \<Longrightarrow> write_to b offset s = None"
proof (induction "length (events s)" arbitrary: s rule: less_induct)
  case less
  then show ?case by (subst write_to.simps) (auto simp: sys_write_def split: list.split)
qed

lemma uint_low_bytes:
  assumes "unat w < 2 ^ 32"
  shows "bytes_size (take 4 (size_bytes w)) = w"
proof -
  have "drop 4 (size_bytes w) = replicate 4 (char_of (0::nat))"
  proof (rule nth_equalityI)
    fix i assume "i < length (drop 4 (size_bytes w))"
    then have i: "i < 4" by simp
    have "unat (drop_bit (8 * (i + 4)) w) = unat w div 2 ^ (8 * (i + 4))" by (simp add: unat_drop_bit_eq drop_bit_nat_def)
    moreover have "(2::nat) ^ 32 \<le> 2 ^ (8 * (i + 4))" by (intro power_increasing) simp_all
    ultimately have "unat (drop_bit (8 * (i + 4)) w) = 0" using assms by simp
    then show "drop 4 (size_bytes w) ! i = replicate 4 (char_of (0::nat)) ! i"
      using i by (simp add: size_bytes_def add.commute)
  qed simp
  then have split: "size_bytes w = take 4 (size_bytes w) @ replicate 4 (char_of (0::nat))" by (metis append_take_drop_id)
  have zero: "(of_char (size_bytes w ! i) :: nat) = 0" if "4 \<le> i" "i < 8" for i
    using that by (subst split) (simp add: nth_append)
  have "(\<Sum>i < 8. of_char (size_bytes w ! i) * 256 ^ i :: nat) = (\<Sum>i < 4. of_char (size_bytes w ! i) * 256 ^ i)"
    by (rule sum.mono_neutral_right) (auto simp: zero)
  also have "\<dots> = (\<Sum>i < 4. of_char (take 4 (size_bytes w) ! i) * 256 ^ i)" by (rule sum.cong) simp_all
  finally have "bytes_size (size_bytes w) = bytes_size (take 4 (size_bytes w))" by (simp add: bytes_size_def)
  then show ?thesis by (simp add: bytes_size_bytes)
qed

lemma ntohl_htonl: "unat w < 2 ^ 32 \<Longrightarrow> ntohl_bytes (htonl_bytes w) = int (unat w)"
  by (simp add: ntohl_bytes_def htonl_bytes_def uint_low_bytes)

lemma length_htonl [simp]: "length (htonl_bytes w) = 4"
  by (simp add: htonl_bytes_def)

section \<open>Properties\<close>

text \<open>
  A message goes through: its size and bytes written to a connection that moves on are, at the
  other end, the size that get_message_size gives and the bytes that read_all_from_socket reads,
  with any number of failed calls on both sides, for a size of at least one byte and at most
  2^32 - 1.
\<close>

theorem chat_message_roundtrip:
  assumes "moving (events s)" "length m + 4 \<le> transfers (events s)" "moving (events t)" "length m + 4 \<le> transfers (events t)"
    and "0 < length m" "length m < 2 ^ 32"
  shows "\<exists>s1 s2 bytes. write_message_size (of_nat (length m)) s = Some (4, s1) \<and>
    write_all_to_socket m s1 = Some (int (length m), s2) \<and> sent s2 = sent s @ bytes \<and>
    (\<exists>t1 t2. get_message_size (t\<lparr>incoming := bytes @ rest\<rparr>) = Some (int (length m), t1) \<and>
       read_all_from_socket (length m) t1 = Some (int (length m), m, t2) \<and> incoming t2 = rest)"
proof -
  let ?w = "of_nat (length m) :: size_t" and ?h = "htonl_bytes (of_nat (length m))"
  have u: "unat ?w = length m" using assms(6) by (intro unat_of_nat_size_t) simp
  obtain s1 where s1: "write_to ?h 0 s = Some (4, s1)" "sent s1 = sent s @ ?h" "moving (events s1)"
    "transfers (events s) \<le> transfers (events s1) + 4"
    using write_to_moving [OF assms(1), of ?h "[]"] assms(2) by auto
  obtain s2 where s2: "write_to m 0 s1 = Some (int (length m), s2)" "sent s2 = sent s1 @ m"
    using write_to_moving [OF s1(3), of m "[]"] s1(4) assms(2) by auto
  let ?t = "t\<lparr>incoming := (?h @ m) @ rest\<rparr>"
  obtain t1 where t1: "read_from 4 [] ?t = Some (4, ?h, t1)" "incoming t1 = m @ rest" "moving (events t1)"
    "transfers (events t) \<le> transfers (events t1) + 4"
    using read_from_moving [of ?t 4 "[]"] assms(3,4) by auto
  obtain t2 where t2: "read_from (length m) [] t1 = Some (int (length m), m, t2)" "incoming t2 = rest"
    using read_from_moving [OF t1(3), of "length m" "[]"] t1(2,4) assms(4) by auto
  have "get_message_size ?t = Some (int (length m), t1)"
    using t1(1) ntohl_htonl [of ?w] u assms(6)
    by (simp add: get_message_size_def read_all_from_socket_def del: of_nat_unat)
  then show ?thesis using s1(1,2) s2 t2
    unfolding write_message_size_def write_all_to_socket_def read_all_from_socket_def
    by (metis append.assoc)
qed

theorem chat_message_roundtrip_witness:
  "\<exists>s bytes t. write_message_size 2 \<lparr>blocking = True, events = Err EPIPE # replicate 6 (Xfer 9), incoming = [], sent = []\<rparr> = Some (4, s) \<and>
    get_message_size \<lparr>blocking = True, events = Err EOTHER # replicate 6 (Xfer 9), incoming = bytes @ [], sent = []\<rparr> = Some (2, t)"
proof -
  let ?s = "\<lparr>blocking = True, events = Err EPIPE # replicate 6 (Xfer 9), incoming = [], sent = []\<rparr>"
  let ?t = "\<lparr>blocking = True, events = Err EOTHER # replicate 6 (Xfer 9), incoming = [], sent = []\<rparr>"
  have "moving (events ?s)" "moving (events ?t)" by (simp_all add: moving_def)
  then show ?thesis using chat_message_roundtrip [of ?s "''hi''" ?t "[]"] by auto
qed

end
