(* ===== verification/Chat_Server.thy ===== *)
theory Chat_Server
  imports Chat_Utils
begin

text \<open>
  The server of the chat room, \<open>charming_chatroom/server.c\<close>: the main thread accepts
  connections into eight slots, a thread per client reads messages and writes each of them to
  every slot under one mutex. The count of clients is the number of taken slots, every thread
  has a slot of its own, and a new client always finds one. A client that leaves closes its
  descriptor before it gives its slot up, and what a broadcast does in between is shown too.
\<close>

section \<open>The model\<close>

type_synonym thread = nat

text \<open>Where the main thread is: the test of its loop, \<open>accept\<close>, the two parts of adding a client, \<open>cleanup\<close>.\<close>

datatype main_phase = Testing | Accepting | Adding int | Starting int | Cleaning nat | Exited

text \<open>Where a thread in \<open>process_client\<close> is; \<open>Sending m i\<close> is in \<open>write_to_clients\<close>, at slot \<open>i\<close>.\<close>

datatype handler_phase = Looping | Reading | Got string | Sending string nat | Closed

text \<open>
  \<open>conn\<close> gives the connection of an open descriptor, connections numbered as they were
  accepted, and \<open>received\<close> the messages written to a connection.
\<close>

record server =
  clients :: "int list"
  clientsCount :: int
  endSession :: bool
  mutex :: "thread option"
  main :: main_phase
  handlers :: "thread \<rightharpoonup> int \<times> handler_phase"
  conn :: "int \<rightharpoonup> nat"
  joined :: nat
  received :: "nat \<Rightarrow> string list"

definition MAX_CLIENTS :: nat where
  "MAX_CLIENTS = 8"

definition run_server_init :: server where
  "run_server_init = \<lparr>clients = replicate MAX_CLIENTS (- 1), clientsCount = 0, endSession = False,
     mutex = None, main = Testing, handlers = Map.empty, conn = Map.empty, joined = 0,
     received = (\<lambda>_. [])\<rparr>"

definition close_fd :: "int \<Rightarrow> server \<Rightarrow> server" where
  "close_fd fd s = s\<lparr>conn := (conn s)(fd := None)\<rparr>"

text \<open>A new connection on the descriptor \<open>fd\<close>, and what the loop does with it.\<close>

definition connect :: "int \<Rightarrow> server \<Rightarrow> server" where
  "connect fd s = s\<lparr>conn := (conn s)(fd \<mapsto> joined s), joined := joined s + 1\<rparr>"

definition accepted :: "int \<Rightarrow> server \<Rightarrow> server" where
  "accepted fd s = (let s = connect fd s in
     if endSession s then s\<lparr>main := Cleaning 0\<rparr>
     else if clientsCount s \<ge> int MAX_CLIENTS then close_fd fd (s\<lparr>main := Testing\<rparr>)
     else s\<lparr>main := Adding fd\<rparr>)"

text \<open>The first free slot from \<open>i\<close> on, or \<open>-1\<close>; then the new client's critical section.\<close>

fun first_free :: "int list \<Rightarrow> int \<Rightarrow> int" where
  "first_free [] i = - 1"
| "first_free (c # cs) i = (if c = - 1 then i else first_free cs (i + 1))"

definition add_client :: "int \<Rightarrow> server \<Rightarrow> server" where
  "add_client fd s = (let p = first_free (clients s) 0 in
     s\<lparr>clients := (if p = - 1 then clients s else (clients s)[nat p := fd]),
       clientsCount := clientsCount s + 1, main := Starting p\<rparr>)"

text \<open>One round of the loop of \<open>cleanup\<close>.\<close>

definition cleanup_slot :: "nat \<Rightarrow> server \<Rightarrow> server" where
  "cleanup_slot i s = (let s = (if clients s ! i \<noteq> - 1 then close_fd (clients s ! i) s else s) in
     s\<lparr>main := Cleaning (i + 1)\<rparr>)"

definition set_phase :: "thread \<Rightarrow> int \<Rightarrow> handler_phase \<Rightarrow> server \<Rightarrow> server" where
  "set_phase t p ph s = s\<lparr>handlers := (handlers s)(t \<mapsto> (p, ph))\<rparr>"

text \<open>The end of \<open>process_client\<close>: the descriptor is closed, and later the slot is given up.\<close>

definition leave :: "thread \<Rightarrow> int \<Rightarrow> server \<Rightarrow> server" where
  "leave t p s = set_phase t p Closed (close_fd (clients s ! nat p) s)"

definition give_up_slot :: "thread \<Rightarrow> int \<Rightarrow> server \<Rightarrow> server" where
  "give_up_slot t p s = s\<lparr>clients := (clients s)[nat p := - 1], clientsCount := clientsCount s - 1,
     handlers := (handlers s)(t := None)\<rparr>"

text \<open>
  One round of the loop of \<open>write_to_clients\<close>. A write to a descriptor that is not open fails
  and is repeated for ever, so that the round does not end: \<open>None\<close>.
\<close>

definition write_slot :: "string \<Rightarrow> nat \<Rightarrow> server \<Rightarrow> server option" where
  "write_slot m i s = (if clients s ! i = - 1 then Some s
     else (case conn s (clients s ! i) of
        None \<Rightarrow> None
      | Some c \<Rightarrow> Some (s\<lparr>received := (received s)(c := received s c @ [m])\<rparr>)))"

text \<open>
  The steps. Sections under the mutex that write to no socket are one step each. \<open>Signal\<close> is
  the handler of \<open>SIGINT\<close>, which also interrupts a waiting \<open>accept\<close>; another failure of
  \<open>accept\<close> ends the process. When \<open>pthread_create\<close> fails only a message is printed.
\<close>

inductive chat_step :: "server \<Rightarrow> server \<Rightarrow> bool" where
  Signal: "chat_step s (s\<lparr>endSession := True\<rparr>)"
| Test: "main s = Testing \<Longrightarrow> chat_step s (s\<lparr>main := (if endSession s then Cleaning 0 else Accepting)\<rparr>)"
| Interrupted: "main s = Accepting \<Longrightarrow> endSession s \<Longrightarrow> chat_step s (s\<lparr>main := Cleaning 0\<rparr>)"
| Accept_Fails: "main s = Accepting \<Longrightarrow> \<not> endSession s \<Longrightarrow>
    chat_step s (s\<lparr>main := Exited, handlers := Map.empty, mutex := None\<rparr>)"
| Accept: "main s = Accepting \<Longrightarrow> 0 \<le> fd \<Longrightarrow> conn s fd = None \<Longrightarrow> chat_step s (accepted fd s)"
| Add: "main s = Adding fd \<Longrightarrow> mutex s = None \<Longrightarrow> chat_step s (add_client fd s)"
| Start: "main s = Starting p \<Longrightarrow> handlers s t = None \<Longrightarrow>
    chat_step s (set_phase t p Looping (s\<lparr>main := Testing\<rparr>))"
| Start_Fails: "main s = Starting p \<Longrightarrow> chat_step s (s\<lparr>main := Testing\<rparr>)"
| Clean: "main s = Cleaning i \<Longrightarrow> i < MAX_CLIENTS \<Longrightarrow> chat_step s (cleanup_slot i s)"
| Cleaned: "main s = Cleaning i \<Longrightarrow> i \<ge> MAX_CLIENTS \<Longrightarrow> chat_step s (s\<lparr>main := Exited\<rparr>)"
| Loop: "handlers s t = Some (p, Looping) \<Longrightarrow>
    chat_step s (if endSession s then leave t p s else set_phase t p Reading s)"
| Message: "handlers s t = Some (p, Reading) \<Longrightarrow> conn s (clients s ! nat p) \<noteq> None \<Longrightarrow> m \<noteq> [] \<Longrightarrow>
    chat_step s (set_phase t p (Got m) s)"
| Hang_Up: "handlers s t = Some (p, Reading) \<Longrightarrow> chat_step s (leave t p s)"
| Lock: "handlers s t = Some (p, Got m) \<Longrightarrow> mutex s = None \<Longrightarrow>
    chat_step s (set_phase t p (Sending m 0) (s\<lparr>mutex := Some t\<rparr>))"
| Write: "handlers s t = Some (p, Sending m i) \<Longrightarrow> i < MAX_CLIENTS \<Longrightarrow> write_slot m i s = Some s' \<Longrightarrow>
    chat_step s (set_phase t p (Sending m (i + 1)) s')"
| Unlock: "handlers s t = Some (p, Sending m i) \<Longrightarrow> i \<ge> MAX_CLIENTS \<Longrightarrow>
    chat_step s (set_phase t p Looping (s\<lparr>mutex := None\<rparr>))"
| Give_Up: "handlers s t = Some (p, Closed) \<Longrightarrow> mutex s = None \<Longrightarrow> chat_step s (give_up_slot t p s)"

abbreviation chat_reachable :: "server \<Rightarrow> bool" where
  "chat_reachable s \<equiv> chat_step\<^sup>*\<^sup>* run_server_init s"

section \<open>Specification\<close>

definition occupied :: "server \<Rightarrow> nat set" where
  "occupied s = {i. i < MAX_CLIENTS \<and> clients s ! i \<noteq> - 1}"

text \<open>The slots whose descriptor was not closed by their own thread.\<close>

definition live :: "server \<Rightarrow> nat set" where
  "live s = {i \<in> occupied s. \<forall>t p. handlers s t = Some (p, Closed) \<longrightarrow> nat p \<noteq> i}"

fun is_sending :: "handler_phase \<Rightarrow> bool" where
  "is_sending (Sending m i) = True"
| "is_sending ph = False"

definition slots_inv :: "server \<Rightarrow> bool" where
  "slots_inv s \<longleftrightarrow> length (clients s) = MAX_CLIENTS \<and> clientsCount s = int (card (occupied s)) \<and>
     (\<forall>fd. main s = Adding fd \<longrightarrow> 0 \<le> fd \<and> card (occupied s) < MAX_CLIENTS)"

text \<open>A thread that serves or is about to be started has a taken slot, and no other has the same.\<close>

definition owners_inv :: "server \<Rightarrow> bool" where
  "owners_inv s \<longleftrightarrow>
     (\<forall>t p ph. handlers s t = Some (p, ph) \<longrightarrow> 0 \<le> p \<and> nat p \<in> occupied s \<and> (is_sending ph \<longleftrightarrow> mutex s = Some t)) \<and>
     (\<forall>t. mutex s = Some t \<longrightarrow> handlers s t \<noteq> None) \<and>
     (\<forall>t t' p ph ph'. handlers s t = Some (p, ph) \<longrightarrow> handlers s t' = Some (p, ph') \<longrightarrow> t = t') \<and>
     (\<forall>p. main s = Starting p \<longrightarrow> 0 \<le> p \<and> nat p \<in> occupied s \<and> (\<forall>t ph. handlers s t \<noteq> Some (p, ph)))"

fun serving :: "main_phase \<Rightarrow> bool" where
  "serving (Cleaning i) = False"
| "serving Exited = False"
| "serving ph = True"

text \<open>As long as the server runs, two live slots never have the same descriptor, and all are open.\<close>

definition conns_inv :: "server \<Rightarrow> bool" where
  "conns_inv s \<longleftrightarrow> (serving (main s) \<longrightarrow>
     (\<forall>i \<in> live s. conn s (clients s ! i) \<noteq> None) \<and> inj_on (\<lambda>i. clients s ! i) (live s) \<and>
     (\<forall>fd. main s = Adding fd \<longrightarrow> conn s fd \<noteq> None \<and> (\<forall>i \<in> live s. clients s ! i \<noteq> fd)))"

definition chat_inv :: "server \<Rightarrow> bool" where
  "chat_inv s \<longleftrightarrow> slots_inv s \<and> owners_inv s \<and> conns_inv s"

section \<open>Lemmas\<close>

lemma first_free_eq:
  "(\<exists>i < length cs. cs ! i = - 1) \<Longrightarrow> \<exists>i < length cs. first_free cs b = b + int i \<and> cs ! i = - 1"
proof (induction cs arbitrary: b)
  case (Cons c cs)
  show ?case
  proof (cases "c = - 1")
    case False
    then have "\<exists>i < length cs. cs ! i = - 1" using Cons.prems by (auto simp: less_Suc_eq_0_disj)
    from Cons.IH [OF this, of "b + 1"] show ?thesis using False by fastforce
  qed fastforce
qed simp

lemma occupied_less [dest]: "i \<in> occupied s \<Longrightarrow> i < MAX_CLIENTS"
  by (simp add: occupied_def)

lemma finite_occupied [simp]: "finite (occupied s)"
  by (simp add: occupied_def)

lemma occupied_update [simp]:
  "occupied (s\<lparr>main := v\<rparr>) = occupied s" "occupied (s\<lparr>endSession := e\<rparr>) = occupied s"
  "occupied (s\<lparr>handlers := h\<rparr>) = occupied s" "occupied (s\<lparr>mutex := x\<rparr>) = occupied s"
  "occupied (s\<lparr>conn := c\<rparr>) = occupied s" "occupied (s\<lparr>joined := j\<rparr>) = occupied s"
  "occupied (s\<lparr>received := r\<rparr>) = occupied s" "occupied (s\<lparr>clientsCount := k\<rparr>) = occupied s"
  by (simp_all add: occupied_def)

lemma occupied_clients:
  "length (clients s) = MAX_CLIENTS \<Longrightarrow> i < MAX_CLIENTS \<Longrightarrow>
   occupied (s\<lparr>clients := (clients s)[i := fd]\<rparr>) = (if fd = - 1 then occupied s - {i} else insert i (occupied s))"
  by (auto simp: occupied_def nth_list_update)

lemma card_occupied_le: "card (occupied s) \<le> MAX_CLIENTS"
  using card_mono [of "{..< MAX_CLIENTS}" "occupied s"] by (auto simp: occupied_def)

lemma free_slot:
  assumes "slots_inv s" "main s = Adding fd"
  obtains i where "first_free (clients s) 0 = int i" "i < MAX_CLIENTS" "clients s ! i = - 1" "i \<notin> occupied s"
proof -
  have "length (clients s) = MAX_CLIENTS" "card (occupied s) < MAX_CLIENTS" using assms by (simp_all add: slots_inv_def)
  moreover from this(2) have "occupied s \<noteq> {..< MAX_CLIENTS}" by (metis card_lessThan less_irrefl)
  moreover have "occupied s \<subseteq> {..< MAX_CLIENTS}" by auto
  ultimately have "\<exists>i < length (clients s). clients s ! i = - 1" by (auto simp: occupied_def)
  from first_free_eq [OF this, of 0] obtain i where i: "i < length (clients s)" "first_free (clients s) 0 = int i" "clients s ! i = - 1"
    by auto
  then have "i \<notin> occupied s" by (simp add: occupied_def)
  with i \<open>length (clients s) = MAX_CLIENTS\<close> show ?thesis using that by simp
qed

lemma close_fd_fields [simp]:
  "clients (close_fd fd s) = clients s" "clientsCount (close_fd fd s) = clientsCount s"
  "mutex (close_fd fd s) = mutex s" "main (close_fd fd s) = main s" "handlers (close_fd fd s) = handlers s"
  "conn (close_fd fd s) = (conn s)(fd := None)" "occupied (close_fd fd s) = occupied s"
  by (simp_all add: close_fd_def)

lemma set_phase_fields [simp]:
  "clients (set_phase t p ph s) = clients s" "clientsCount (set_phase t p ph s) = clientsCount s"
  "mutex (set_phase t p ph s) = mutex s" "main (set_phase t p ph s) = main s"
  "handlers (set_phase t p ph s) = (handlers s)(t \<mapsto> (p, ph))"
  "conn (set_phase t p ph s) = conn s" "occupied (set_phase t p ph s) = occupied s"
  by (simp_all add: set_phase_def)

lemma accepted_fields [simp]:
  "clients (accepted fd s) = clients s" "clientsCount (accepted fd s) = clientsCount s"
  "mutex (accepted fd s) = mutex s" "handlers (accepted fd s) = handlers s" "occupied (accepted fd s) = occupied s"
  by (simp_all add: accepted_def connect_def Let_def)

lemma write_slot_fields:
  assumes "write_slot m i s = Some s'"
  shows "clients s' = clients s" "clientsCount s' = clientsCount s" "mutex s' = mutex s" "main s' = main s"
    "handlers s' = handlers s" "conn s' = conn s" "occupied s' = occupied s"
  using assms by (auto simp: write_slot_def split: if_splits option.splits)

lemma live_eq:
  "occupied s' = occupied s \<Longrightarrow> handlers s' = handlers s \<Longrightarrow> live s' = live s"
  by (simp add: live_def)

lemma slots_inv_step: "chat_step s s' \<Longrightarrow> slots_inv s \<Longrightarrow> owners_inv s \<Longrightarrow> slots_inv s'"
proof (induction rule: chat_step.induct)
  case (Accept s fd)
  then show ?case by (auto simp: slots_inv_def accepted_def connect_def Let_def)
next
  case (Add s fd)
  then have l: "length (clients s) = MAX_CLIENTS" "0 \<le> fd" by (simp_all add: slots_inv_def)
  obtain i where i: "first_free (clients s) 0 = int i" "i < MAX_CLIENTS" "i \<notin> occupied s"
    using free_slot [OF Add.prems(1) Add.hyps(1)] by metis
  have "occupied (add_client fd s) = insert i (occupied s)"
    using i l by (simp add: add_client_def Let_def occupied_clients)
  with i l Add.prems(1) show ?case by (simp add: slots_inv_def add_client_def Let_def)
next
  case (Give_Up s t p)
  then have p: "0 \<le> p" "nat p \<in> occupied s" by (auto simp: owners_inv_def)
  have l: "length (clients s) = MAX_CLIENTS" using Give_Up.prems by (simp add: slots_inv_def)
  have "occupied (give_up_slot t p s) = occupied s - {nat p}"
    using p l by (simp add: give_up_slot_def occupied_clients occupied_less)
  moreover have "Suc (card (occupied s - {nat p})) = card (occupied s)" using p by (intro card_Suc_Diff1) simp_all
  ultimately show ?case using Give_Up.prems by (auto simp: slots_inv_def give_up_slot_def)
qed (auto simp: slots_inv_def cleanup_slot_def leave_def Let_def write_slot_fields)

lemma owners_inv_cong:
  "owners_inv s \<Longrightarrow> handlers s' = handlers s \<Longrightarrow> occupied s' = occupied s \<Longrightarrow> mutex s' = mutex s \<Longrightarrow>
   (\<forall>p. main s' = Starting p \<longrightarrow> main s = Starting p) \<Longrightarrow> owners_inv s'"
  by (simp add: owners_inv_def)

text \<open>A thread moves on in its slot; it takes the mutex, keeps it, or gives it back.\<close>

lemma owners_inv_phase:
  assumes "owners_inv s" "handlers s t = Some (p, ph)" "occupied s' = occupied s" "main s' = main s"
    and "handlers s' = (handlers s)(t \<mapsto> (p, ph'))" "is_sending ph' \<longleftrightarrow> mutex s' = Some t"
    and "mutex s' = mutex s \<or> mutex s = None \<and> mutex s' = Some t \<or> mutex s = Some t \<and> mutex s' = None"
  shows "owners_inv s'"
  using assms unfolding owners_inv_def
  by (intro conjI allI impI) (auto split: if_splits)

lemma owner_alone:
  assumes "owners_inv s" "handlers s t = Some (p, ph)"
  shows "0 \<le> p" "nat p \<in> occupied s" "is_sending ph \<longleftrightarrow> mutex s = Some t"
    "handlers s u = Some (q, ph') \<Longrightarrow> u \<noteq> t \<Longrightarrow> nat q \<noteq> nat p" "main s = Starting q \<Longrightarrow> nat q \<noteq> nat p"
proof -
  show p: "0 \<le> p" "nat p \<in> occupied s" "is_sending ph \<longleftrightarrow> mutex s = Some t"
    using assms by (simp_all add: owners_inv_def)
  assume "handlers s u = Some (q, ph')" "u \<noteq> t"
  moreover from this assms have "0 \<le> q" "q \<noteq> p" unfolding owners_inv_def by blast+
  ultimately show "nat q \<noteq> nat p" using p by (simp add: eq_nat_nat_iff)
next
  assume "main s = Starting q"
  moreover from this assms have "0 \<le> q" "q \<noteq> p" "0 \<le> p" unfolding owners_inv_def by blast+
  ultimately show "nat q \<noteq> nat p" by (simp add: eq_nat_nat_iff)
qed

lemma owners_inv_step: "chat_step s s' \<Longrightarrow> slots_inv s \<Longrightarrow> owners_inv s \<Longrightarrow> owners_inv s'"
proof (induction rule: chat_step.induct)
  case (Add s fd)
  then have l: "length (clients s) = MAX_CLIENTS" "0 \<le> fd" by (simp_all add: slots_inv_def)
  obtain i where i: "first_free (clients s) 0 = int i" "i < MAX_CLIENTS" "i \<notin> occupied s"
    using free_slot [OF Add.prems(1) Add.hyps(1)] by metis
  have "occupied (add_client fd s) = insert i (occupied s)"
    using i l by (simp add: add_client_def Let_def occupied_clients)
  moreover have "main (add_client fd s) = Starting (int i)" "handlers (add_client fd s) = handlers s"
    "mutex (add_client fd s) = mutex s" using i by (simp_all add: add_client_def Let_def)
  moreover have "nat p \<noteq> i" if "handlers s t = Some (p, ph)" for t p ph
    using Add.prems(2) i(3) that by (auto simp: owners_inv_def)
  ultimately show ?case using Add.prems(2) unfolding owners_inv_def by fastforce
next
  case (Give_Up s t p)
  then have l: "length (clients s) = MAX_CLIENTS" by (simp add: slots_inv_def)
  have p: "0 \<le> p" "nat p \<in> occupied s" using Give_Up by (auto simp: owners_inv_def)
  have "occupied (give_up_slot t p s) = occupied s - {nat p}"
    using p l by (simp add: give_up_slot_def occupied_clients occupied_less)
  then show ?case using Give_Up.prems(2) Give_Up.hyps(2) owner_alone(4,5) [OF Give_Up.prems(2) Give_Up.hyps(1)]
    unfolding owners_inv_def by (simp add: give_up_slot_def)
next
  case (Start s p t)
  then show ?case unfolding owners_inv_def by (auto split: if_splits)
next
  case (Start_Fails s p)
  then show ?case by (intro owners_inv_cong [OF Start_Fails.prems(2)]) simp_all
next
  case (Accept s fd)
  show ?case by (rule owners_inv_cong [OF Accept.prems(2)]) (simp_all, simp add: accepted_def Let_def)
next
  case (Accept_Fails s)
  then show ?case by (simp add: owners_inv_def)
next
  case (Clean s i)
  show ?case by (rule owners_inv_cong [OF Clean.prems(2)]) (simp_all add: cleanup_slot_def Let_def)
next
  case (Loop s t p)
  then have "\<not> is_sending Looping \<longrightarrow> mutex s \<noteq> Some t" unfolding owners_inv_def by blast
  then show ?case using owners_inv_phase [OF Loop.prems(2) Loop.hyps(1), where ph' = Reading]
    owners_inv_phase [OF Loop.prems(2) Loop.hyps(1), where ph' = Closed] by (simp add: leave_def)
next
  case (Message s t p m)
  show ?case by (rule owners_inv_phase [OF Message.prems(2) Message.hyps(1), where ph' = "Got m"])
    (use owner_alone(3) [OF Message.prems(2) Message.hyps(1)] in simp_all)
next
  case (Hang_Up s t p)
  show ?case by (rule owners_inv_phase [OF Hang_Up.prems(2) Hang_Up.hyps(1), where ph' = Closed])
    (use owner_alone(3) [OF Hang_Up.prems(2) Hang_Up.hyps(1)] in \<open>simp_all add: leave_def\<close>)
next
  case (Lock s t p m)
  show ?case by (rule owners_inv_phase [OF Lock.prems(2) Lock.hyps(1), where ph' = "Sending m 0"])
    (simp_all add: Lock.hyps(2))
next
  case (Write s t p m i s')
  note f = write_slot_fields [OF Write.hyps(3)]
  show ?case by (rule owners_inv_phase [OF Write.prems(2) Write.hyps(1), where ph' = "Sending m (i + 1)"])
    (use owner_alone(3) [OF Write.prems(2) Write.hyps(1)] f in simp_all)
next
  case (Unlock s t p m i)
  show ?case by (rule owners_inv_phase [OF Unlock.prems(2) Unlock.hyps(1), where ph' = Looping])
    (use owner_alone(3) [OF Unlock.prems(2) Unlock.hyps(1)] in simp_all)
qed (auto simp: owners_inv_def)

lemma conns_inv_cong:
  assumes "conns_inv s" "live s' = live s" "conn s' = conn s" "\<forall>i \<in> live s. clients s' ! i = clients s ! i"
    and "serving (main s') \<longrightarrow> serving (main s) \<and> (\<forall>fd. main s' = Adding fd \<longrightarrow> main s = Adding fd)"
  shows "conns_inv s'"
  using assms by (auto simp: conns_inv_def inj_on_def)

lemma live_phase:
  assumes "handlers s t = Some (p, ph)" "ph \<noteq> Closed" "ph' \<noteq> Closed" "handlers s' = (handlers s)(t \<mapsto> (p, ph'))"
    and "occupied s' = occupied s"
  shows "live s' = live s"
proof -
  have "handlers s' u = Some (q, Closed) \<longleftrightarrow> handlers s u = Some (q, Closed)" for u q using assms(1-4) by simp
  then show ?thesis using assms(5) by (simp add: live_def)
qed

lemma conns_inv_phase:
  assumes "conns_inv s" "handlers s t = Some (p, ph)" "ph \<noteq> Closed" "ph' \<noteq> Closed"
    and "handlers s' = (handlers s)(t \<mapsto> (p, ph'))" "clients s' = clients s" "occupied s' = occupied s" "conn s' = conn s" "main s' = main s"
  shows "conns_inv s'"
  by (rule conns_inv_cong [OF assms(1) live_phase [OF assms(2-5,7)] assms(8)]) (simp_all add: assms)

lemma owner_live:
  assumes "owners_inv s" "handlers s t = Some (p, ph)" "ph \<noteq> Closed"
  shows "nat p \<in> live s"
proof -
  have "nat q \<noteq> nat p" if "handlers s u = Some (q, Closed)" for u q
    using owner_alone(4) [OF assms(1,2) that] that assms(2,3) by fastforce
  then show ?thesis using owner_alone(2) [OF assms(1,2)] by (simp add: live_def)
qed

lemma conns_inv_leave:
  assumes "owners_inv s" "conns_inv s" "handlers s t = Some (p, ph)" "ph \<noteq> Closed"
  shows "conns_inv (leave t p s)"
proof -
  have p: "nat p \<in> live s" by (rule owner_live [OF assms(1,3,4)])
  have "handlers (leave t p s) u = Some (q, Closed) \<longleftrightarrow> u = t \<and> q = p \<or> handlers s u = Some (q, Closed)" for u q
    using assms(3,4) by (auto simp: leave_def)
  then have l: "live (leave t p s) = live s - {nat p}" by (auto simp: live_def) (simp_all add: leave_def)
  show ?thesis using assms(2) p unfolding conns_inv_def l
    by (auto simp: leave_def inj_on_def)
qed

lemma conns_inv_step: "chat_step s s' \<Longrightarrow> slots_inv s \<Longrightarrow> owners_inv s \<Longrightarrow> conns_inv s \<Longrightarrow> conns_inv s'"
proof (induction rule: chat_step.induct)
  case (Signal s)
  show ?case by (rule conns_inv_cong [OF Signal.prems(3)]) (simp_all add: live_def)
next
  case (Test s)
  show ?case by (rule conns_inv_cong [OF Test.prems(3)]) (simp_all add: live_def Test.hyps)
next
  case (Accept s fd)
  have l: "live (accepted fd s) = live s" by (rule live_eq) simp_all
  have "clients s ! i \<noteq> fd" if "i \<in> live s" for i using Accept that by (auto simp: conns_inv_def)
  with Accept show ?case unfolding conns_inv_def l by (auto simp: accepted_def connect_def Let_def fun_upd_idem_iff)
next
  case (Add s fd)
  then have k: "length (clients s) = MAX_CLIENTS" "0 \<le> fd" by (simp_all add: slots_inv_def)
  obtain i where i: "first_free (clients s) 0 = int i" "i < MAX_CLIENTS" "i \<notin> occupied s"
    using free_slot [OF Add.prems(1) Add.hyps(1)] by metis
  have o: "occupied (add_client fd s) = insert i (occupied s)"
    using i k by (simp add: add_client_def Let_def occupied_clients)
  have h: "handlers (add_client fd s) = handlers s" by (simp add: add_client_def Let_def)
  have "nat p \<noteq> i" if "handlers s t = Some (p, ph)" for t p ph
    using Add.prems(2) i(3) that by (auto simp: owners_inv_def)
  then have l: "live (add_client fd s) = insert i (live s)" "i \<notin> live s" using i unfolding live_def o h by auto
  have c: "clients (add_client fd s) = (clients s)[i := fd]" "conn (add_client fd s) = conn s" "main (add_client fd s) = Starting (int i)"
    using i(1) by (simp_all add: add_client_def Let_def)
  have "clients s ! j \<noteq> fd" "conn s (clients s ! j) \<noteq> None" if "j \<in> live s" for j
    using Add.prems(3) Add.hyps that by (simp_all add: conns_inv_def)
  moreover have "inj_on (\<lambda>i. clients s ! i) (live s)" "conn s fd \<noteq> None" using Add.prems(3) Add.hyps by (simp_all add: conns_inv_def)
  ultimately show ?case using l(2) i(2) k unfolding conns_inv_def c l(1) by (auto simp: nth_list_update inj_on_def)
next
  case (Start s p t)
  have "handlers (set_phase t p Looping s) u = Some (q, Closed) \<longleftrightarrow> handlers s u = Some (q, Closed)" for u q
    using Start.hyps by simp
  then have "live (set_phase t p Looping (s\<lparr>main := Testing\<rparr>)) = live s" by (simp add: live_def)
  then show ?case by (rule conns_inv_cong [OF Start.prems(3)]) (simp_all add: Start.hyps)
next
  case (Start_Fails s p)
  show ?case by (rule conns_inv_cong [OF Start_Fails.prems(3)]) (simp_all add: live_def Start_Fails.hyps)
next
  case (Loop s t p)
  then show ?case using conns_inv_leave [OF Loop.prems(2,3) Loop.hyps(1)]
    by (auto intro: conns_inv_phase [OF Loop.prems(3) Loop.hyps(1)])
next
  case (Message s t p m)
  show ?case by (rule conns_inv_phase [OF Message.prems(3) Message.hyps(1), where ph' = "Got m"]) simp_all
next
  case (Hang_Up s t p)
  show ?case by (rule conns_inv_leave [OF Hang_Up.prems(2,3) Hang_Up.hyps(1)]) simp
next
  case (Lock s t p m)
  show ?case by (rule conns_inv_phase [OF Lock.prems(3) Lock.hyps(1), where ph' = "Sending m 0"]) simp_all
next
  case (Write s t p m i s')
  show ?case by (rule conns_inv_phase [OF Write.prems(3) Write.hyps(1), where ph' = "Sending m (i + 1)"])
    (simp_all add: write_slot_fields [OF Write.hyps(3)])
next
  case (Unlock s t p m i)
  show ?case by (rule conns_inv_phase [OF Unlock.prems(3) Unlock.hyps(1), where ph' = Looping]) simp_all
next
  case (Give_Up s t p)
  have k: "length (clients s) = MAX_CLIENTS" using Give_Up.prems by (simp add: slots_inv_def)
  have p: "nat p \<in> occupied s" "nat p \<notin> live s"
    using owner_alone(2) [OF Give_Up.prems(2) Give_Up.hyps(1)] Give_Up.hyps(1) by (auto simp: live_def)
  have o: "occupied (give_up_slot t p s) = occupied s - {nat p}"
    using p k by (simp add: give_up_slot_def occupied_clients occupied_less)
  have h: "handlers (give_up_slot t p s) u = Some (q, Closed) \<longleftrightarrow> u \<noteq> t \<and> handlers s u = Some (q, Closed)" for u q
    by (simp add: give_up_slot_def)
  have "(\<forall>u q. u \<noteq> t \<and> handlers s u = Some (q, Closed) \<longrightarrow> nat q \<noteq> i) \<longleftrightarrow>
      (\<forall>u q. handlers s u = Some (q, Closed) \<longrightarrow> nat q \<noteq> i)" if "i \<noteq> nat p" for i
    using Give_Up.hyps(1) that by (metis Pair_inject option.inject)
  then have "live (give_up_slot t p s) = live s" using p(2) unfolding live_def o h by blast
  moreover have "(clients s)[nat p := - 1] ! i = clients s ! i" if "i \<in> live s" for i
    using p(2) that by (metis nth_list_update_neq)
  ultimately show ?case by (intro conns_inv_cong [OF Give_Up.prems(3)]) (use p in \<open>auto simp: give_up_slot_def nth_list_update_neq\<close>)
qed (auto simp: conns_inv_def cleanup_slot_def Let_def)

lemma chat_inv_reachable: "chat_reachable s \<Longrightarrow> chat_inv s"
proof (induction rule: rtranclp_induct)
  case base
  have "occupied run_server_init = {}" "live run_server_init = {}" by (auto simp: run_server_init_def occupied_def live_def)
  then show ?case by (simp add: chat_inv_def slots_inv_def owners_inv_def conns_inv_def) (simp add: run_server_init_def)
next
  case (step s s')
  then show ?case unfolding chat_inv_def using slots_inv_step owners_inv_step conns_inv_step by blast
qed

text \<open>A client joins in five steps, and a handler comes to its broadcast in three.\<close>

lemma join_steps:
  assumes "main s = Testing" "\<not> endSession s" "clientsCount s < 8" "mutex s = None" "0 \<le> fd" "conn s fd = None"
    and "handlers s t = None" "first_free (clients s) 0 = int i"
  shows "chat_step\<^sup>*\<^sup>* s (s\<lparr>clients := (clients s)[i := fd], clientsCount := clientsCount s + 1,
    conn := (conn s)(fd \<mapsto> joined s), joined := joined s + 1, handlers := (handlers s)(t \<mapsto> (int i, Looping)), main := Testing\<rparr>)"
proof -
  let ?a = "s\<lparr>main := Accepting\<rparr>" and ?b = "s\<lparr>conn := (conn s)(fd \<mapsto> joined s), joined := joined s + 1, main := Adding fd\<rparr>"
  let ?c = "?b\<lparr>clients := (clients s)[i := fd], clientsCount := clientsCount s + 1, main := Starting (int i)\<rparr>"
  have 1: "chat_step s ?a" using chat_step.Test [of s] assms by simp
  have 2: "chat_step ?a ?b" using chat_step.Accept [of ?a fd] assms by (simp add: accepted_def connect_def Let_def MAX_CLIENTS_def)
  have 3: "chat_step ?b ?c" using chat_step.Add [of ?b fd] assms by (simp add: add_client_def Let_def)
  have 4: "chat_step ?c (set_phase t (int i) Looping (?c\<lparr>main := Testing\<rparr>))"
    using chat_step.Start [of ?c "int i" t] assms by simp
  have "chat_step\<^sup>*\<^sup>* s (set_phase t (int i) Looping (?c\<lparr>main := Testing\<rparr>))"
    using 1 2 3 4 by (meson rtranclp.rtrancl_into_rtrancl rtranclp.rtrancl_refl)
  moreover have "set_phase t (int i) Looping (?c\<lparr>main := Testing\<rparr>) = s\<lparr>clients := (clients s)[i := fd], clientsCount := clientsCount s + 1,
    conn := (conn s)(fd \<mapsto> joined s), joined := joined s + 1, handlers := (handlers s)(t \<mapsto> (int i, Looping)), main := Testing\<rparr>"
    by (rule server.equality) (simp_all add: set_phase_def)
  ultimately show ?thesis by simp
qed

lemma send_steps:
  assumes "handlers s t = Some (p, Looping)" "\<not> endSession s" "mutex s = None" "conn s (clients s ! nat p) \<noteq> None" "m \<noteq> []"
  shows "chat_step\<^sup>*\<^sup>* s (s\<lparr>handlers := (handlers s)(t \<mapsto> (p, Sending m 0)), mutex := Some t\<rparr>)"
proof -
  let ?a = "set_phase t p Reading s"
  have 1: "chat_step s ?a" using chat_step.Loop [of s t p] assms by simp
  have 2: "chat_step ?a (set_phase t p (Got m) s)" using chat_step.Message [of ?a t p m] assms by (simp add: set_phase_def)
  have 3: "chat_step (set_phase t p (Got m) s) (set_phase t p (Sending m 0) (s\<lparr>mutex := Some t\<rparr>))"
    using chat_step.Lock [of "set_phase t p (Got m) s" t p m] assms by (simp add: set_phase_def)
  have "set_phase t p (Sending m 0) (s\<lparr>mutex := Some t\<rparr>) = s\<lparr>handlers := (handlers s)(t \<mapsto> (p, Sending m 0)), mutex := Some t\<rparr>"
    by (rule server.equality) (simp_all add: set_phase_def)
  then show ?thesis using 1 2 3 by (metis converse_rtranclp_into_rtranclp rtranclp.rtrancl_refl)
qed

text \<open>Two clients have joined, on the descriptors 5 and 6, and the first has left but for its slot.\<close>

definition half_left :: server where
  "half_left = \<lparr>clients = [5, 6, - 1, - 1, - 1, - 1, - 1, - 1], clientsCount = 2, endSession = False, mutex = None,
     main = Testing, handlers = [0 \<mapsto> (0, Closed), 1 \<mapsto> (1, Looping)], conn = [6 \<mapsto> 1], joined = 2, received = (\<lambda>_. [])\<rparr>"

lemma half_left_reachable: "chat_reachable half_left"
proof -
  let ?a = "run_server_init\<lparr>clients := [5, - 1, - 1, - 1, - 1, - 1, - 1, - 1], clientsCount := 1, conn := [5 \<mapsto> 0], joined := 1,
     handlers := [0 \<mapsto> (0, Looping)]\<rparr>"
  let ?b = "?a\<lparr>clients := [5, 6, - 1, - 1, - 1, - 1, - 1, - 1], clientsCount := 2, conn := [5 \<mapsto> 0, 6 \<mapsto> 1], joined := 2,
     handlers := [0 \<mapsto> (0, Looping), 1 \<mapsto> (1, Looping)]\<rparr>"
  have 1: "chat_step\<^sup>*\<^sup>* run_server_init ?a" using join_steps [of run_server_init 5 0 0]
    by (simp add: run_server_init_def MAX_CLIENTS_def eval_nat_numeral)
  have 2: "chat_step\<^sup>*\<^sup>* ?a ?b" using join_steps [of ?a 6 1 1]
    by (simp add: run_server_init_def numeral_2_eq_2)
  have 3: "chat_step ?b (set_phase 0 0 Reading ?b)" using chat_step.Loop [of ?b 0 0] by (simp add: run_server_init_def)
  have 4: "chat_step (set_phase 0 0 Reading ?b) (leave 0 0 (set_phase 0 0 Reading ?b))"
    by (rule chat_step.Hang_Up) (simp add: set_phase_def)
  have "leave 0 0 (set_phase 0 0 Reading ?b) = half_left"
    by (simp add: half_left_def leave_def set_phase_def close_fd_def run_server_init_def fun_eq_iff)
  with 4 have 4: "chat_step (set_phase 0 0 Reading ?b) half_left" by (simp only:)
  have "chat_reachable ?b" by (rule rtranclp_trans [OF 1 2])
  then have "chat_reachable (set_phase 0 0 Reading ?b)" using 3 by (rule rtranclp.rtrancl_into_rtrancl)
  then show ?thesis using 4 by (rule rtranclp.rtrancl_into_rtrancl)
qed

text \<open>What a broadcast at a closed descriptor keeps, as long as no client joins.\<close>

lemma stuck_step:
  assumes "chat_step s s'" "handlers s t = Some (p, Sending m i)" "mutex s = Some t" "clients s ! i = fd" "fd \<noteq> - 1" "conn s fd = None"
    and "i < MAX_CLIENTS" "owners_inv s"
  shows "joined s' > joined s \<or> (handlers s' t = None \<and> main s' = Exited) \<or>
    handlers s' t = Some (p, Sending m i) \<and> mutex s' = Some t \<and> clients s' ! i = fd \<and> conn s' fd = None"
proof -
  have only: "\<forall>u q m' j. u \<noteq> t \<longrightarrow> handlers s u \<noteq> Some (q, Sending m' j)"
    using owner_alone(3) [OF assms(8)] assms(3) by fastforce
  from assms(1-7) only show ?thesis
  proof (induction rule: chat_step.induct)
    case (Accept s fd)
    then show ?case by (simp add: accepted_def connect_def close_fd_def Let_def)
  next
    case (Write s u q m' j s')
    then have "u = t" by blast
    with Write show ?case by (cases "j = i") (auto simp: write_slot_def)
  next
    case (Unlock s u q m' j)
    then have "u = t" by blast
    with Unlock show ?case by simp
  qed (auto simp: cleanup_slot_def leave_def set_phase_def close_fd_def Let_def)
qed

lemma exited_step:
  "chat_step s s' \<Longrightarrow> handlers s t = None \<Longrightarrow> main s = Exited \<Longrightarrow> handlers s' t = None \<and> main s' = Exited"
  by (induction rule: chat_step.induct)
    (auto simp: leave_def set_phase_def close_fd_def write_slot_def give_up_slot_def split: if_splits option.splits)

lemma joined_mono: "chat_step s s' \<Longrightarrow> joined s \<le> joined s'"
  by (induction rule: chat_step.induct)
    (auto simp: accepted_def connect_def close_fd_def add_client_def set_phase_def cleanup_slot_def leave_def write_slot_def
      give_up_slot_def Let_def split: if_splits option.splits)

section \<open>Properties\<close>

text \<open>
  C20: At every moment of every run the count of clients is the number of taken slots, at most
  eight; every thread has a taken slot of its own, which is never the slot -1; one that is
  broadcasting has the mutex; and as long as the server runs, every slot whose thread has not
  closed it has an open descriptor that no other such slot has.
\<close>

theorem chat_server_invariant:
  assumes "chat_reachable s"
  shows "chat_inv s \<and> clientsCount s \<le> 8"
  using chat_inv_reachable [OF assms] card_occupied_le [of s] by (simp add: chat_inv_def slots_inv_def MAX_CLIENTS_def)

theorem chat_server_invariant_witness: "chat_inv half_left \<and> clientsCount half_left \<le> 8"
  by (rule chat_server_invariant [OF half_left_reachable])

text \<open>
  A broadcast that comes to a slot whose descriptor was closed, because the client's thread
  closes it before it takes the mutex to give the slot up, never gets past that slot and never
  gives the mutex back, so that the slot is not given up either: in every later state with no
  newly accepted connection, the thread, if the process lives, is still at the same slot.
\<close>

theorem chat_broadcast_stuck:
  assumes "chat_reachable s" "handlers s t = Some (p, Sending m i)" "i < MAX_CLIENTS"
    and "clients s ! i \<noteq> - 1" "conn s (clients s ! i) = None"
    and "chat_step\<^sup>*\<^sup>* s s'" "joined s' = joined s" "handlers s' t \<noteq> None"
  shows "handlers s' t = Some (p, Sending m i) \<and> mutex s' = Some t"
proof -
  let ?stuck = "\<lambda>s'. handlers s' t = Some (p, Sending m i) \<and> mutex s' = Some t \<and> clients s' ! i = clients s ! i \<and>
    conn s' (clients s ! i) = None"
  have "mutex s = Some t"
    using owner_alone(3) [of s t p "Sending m i"] chat_inv_reachable [OF assms(1)] assms(2) by (simp add: chat_inv_def)
  with assms(2,5) have start: "?stuck s" by simp
  from assms(6) have "joined s' > joined s \<or> (handlers s' t = None \<and> main s' = Exited) \<or> ?stuck s'"
  proof (induction rule: rtranclp_induct)
    case base
    show ?case using start by simp
  next
    case (step u v)
    from step.IH consider "joined u > joined s" | "handlers u t = None \<and> main u = Exited" | "?stuck u" by blast
    then show ?case
    proof cases
      case 1
      then show ?thesis using joined_mono [OF step.hyps(2)] by simp
    next
      case 2
      then show ?thesis using exited_step [OF step.hyps(2)] by blast
    next
      case 3
      moreover have "joined s \<le> joined u" using step.hyps(1) by (induction rule: rtranclp_induct) (auto dest: joined_mono)
      ultimately show ?thesis using stuck_step [OF step.hyps(2), of t p m i "clients s ! i"] assms(3,4)
          chat_inv_reachable [OF rtranclp_trans [OF assms(1) step.hyps(1)]] unfolding chat_inv_def by fastforce
    qed
  qed
  with assms(7,8) show ?thesis by auto
qed

theorem chat_broadcast_stuck_witness:
  "\<exists>s. chat_reachable s \<and> handlers s 1 = Some (1, Sending ''hi'' 0) \<and> mutex s = Some 1 \<and>
     (\<forall>s'. chat_step\<^sup>*\<^sup>* s s' \<and> joined s' = 2 \<and> handlers s' 1 \<noteq> None \<longrightarrow> handlers s' 1 = Some (1, Sending ''hi'' 0) \<and> mutex s' = Some 1)"
proof -
  let ?s = "half_left\<lparr>handlers := (handlers half_left)(1 \<mapsto> (1, Sending ''hi'' 0)), mutex := Some 1\<rparr>"
  have "chat_step\<^sup>*\<^sup>* half_left ?s" by (rule send_steps) (simp_all add: half_left_def)
  then have r: "chat_reachable ?s" using half_left_reachable by (rule rtranclp_trans [rotated])
  have "handlers s' 1 = Some (1, Sending ''hi'' 0) \<and> mutex s' = Some 1"
    if "chat_step\<^sup>*\<^sup>* ?s s'" "joined s' = 2" "handlers s' 1 \<noteq> None" for s'
    by (rule chat_broadcast_stuck [OF r _ _ _ _ that(1) _ that(3)]) (simp_all add: that(2) half_left_def MAX_CLIENTS_def)
  then show ?thesis using r by (intro exI [of _ ?s]) (simp add: half_left_def)
qed

text \<open>
  A new client can be accepted on the descriptor that was closed while the old slot still has
  it; then the eight rounds of one broadcast write the message to the new client twice.
\<close>

theorem chat_message_twice:
  "\<exists>s s' m. chat_reachable s \<and> handlers s 1 = Some (1, Sending m 0) \<and> received s 2 = [] \<and>
     (chat_step ^^ 8) s s' \<and> handlers s' 1 = Some (1, Sending m 8) \<and> received s' 1 = [m] \<and> received s' 2 = [m, m]"
proof -
  let ?m = "''hi''"
  let ?a = "half_left\<lparr>clients := [5, 6, 5, - 1, - 1, - 1, - 1, - 1], clientsCount := 3, conn := [6 \<mapsto> 1, 5 \<mapsto> 2], joined := 3,
     handlers := [0 \<mapsto> (0, Closed), 1 \<mapsto> (1, Looping), 2 \<mapsto> (2, Looping)]\<rparr>"
  let ?s = "\<lambda>i r. ?a\<lparr>handlers := (handlers ?a)(1 \<mapsto> (1, Sending ?m i)), mutex := Some 1, received := r\<rparr>"
  let ?r = "\<lambda>_. []"
  have "chat_step\<^sup>*\<^sup>* half_left ?a" using join_steps [of half_left 5 2 2] by (simp add: half_left_def numeral_3_eq_3 numeral_2_eq_2)
  moreover have "chat_step\<^sup>*\<^sup>* ?a (?s 0 ?r)" using send_steps [of ?a 1 1 ?m] by (simp add: half_left_def)
  ultimately have r: "chat_reachable (?s 0 ?r)" using rtranclp_trans [OF half_left_reachable rtranclp_trans] by blast
  have w: "chat_step (?s i r) (?s (Suc i) r')" if "i < 8" "write_slot ?m i (?s i r) = Some (?s i r')" for i r r'
  proof -
    have "chat_step (?s i r) (set_phase 1 1 (Sending ?m (i + 1)) (?s i r'))"
      by (rule chat_step.Write [of _ 1 1 ?m i]) (use that in \<open>simp_all add: MAX_CLIENTS_def\<close>)
    moreover have "set_phase 1 1 (Sending ?m (i + 1)) (?s i r') = ?s (Suc i) r'"
      by (rule server.equality) (simp_all add: set_phase_def)
    ultimately show ?thesis by (simp only:)
  qed
  have e: "chat_step (?s i r) (?s (Suc i) r)" if "i \<in> {3, 4, 5, 6, 7}" for i r
    using that by (intro w) (auto simp: write_slot_def half_left_def)
  let ?r1 = "?r(2 := [?m])" and ?r2 = "?r(2 := [?m], 1 := [?m])" and ?r3 = "?r(1 := [?m], 2 := [?m, ?m])"
  have "chat_step (?s 0 ?r) (?s 1 ?r1)" using w [of 0 ?r ?r1] by (simp add: write_slot_def half_left_def)
  moreover have "chat_step (?s 1 ?r1) (?s 2 ?r2)" using w [of 1 ?r1 ?r2] by (simp add: write_slot_def half_left_def numeral_2_eq_2)
  moreover have "chat_step (?s 2 ?r2) (?s 3 ?r3)" using w [of 2 ?r2 ?r3]
    by (simp add: write_slot_def half_left_def numeral_3_eq_3 numeral_2_eq_2 fun_upd_twist)
  moreover have "chat_step (?s 3 ?r3) (?s 4 ?r3)" "chat_step (?s 4 ?r3) (?s 5 ?r3)" "chat_step (?s 5 ?r3) (?s 6 ?r3)"
    "chat_step (?s 6 ?r3) (?s 7 ?r3)" "chat_step (?s 7 ?r3) (?s 8 ?r3)"
    using e [of 3 ?r3] e [of 4 ?r3] e [of 5 ?r3] e [of 6 ?r3] e [of 7 ?r3] by (simp_all add: eval_nat_numeral)
  ultimately have "(chat_step ^^ Suc (Suc (Suc (Suc (Suc (Suc (Suc (Suc 0)))))))) (?s 0 ?r) (?s 8 ?r3)"
    by (blast intro: relpowp_Suc_I2 relpowp_0_I)
  then have "(chat_step ^^ 8) (?s 0 ?r) (?s 8 ?r3)" by (simp only: eval_nat_numeral BitM.simps)
  with r show ?thesis by (intro exI [of _ "?s 0 ?r"] exI [of _ "?s 8 ?r3"] exI [of _ ?m]) simp
qed

end
