(* ===== verification/Shell.thy ===== *)
theory Shell
  imports C_String Decimal
begin

text \<open>
  The shell of \<open>shell/shell.c\<close>: splitting a command, the operators \<open>&&\<close>, \<open>||\<close> and \<open>;\<close>, the
  built-in commands, the history with its file, and the processes in the background. The calls
  of the operating system are an infinite sequence of answers, one for each call in the order
  of the calls, and what the shell prints and asks for is a list of events.
\<close>

section \<open>The model\<close>

record process =
  command :: string
  status :: string
  pid :: int

datatype signal = SIGTERM | SIGTSTP | SIGCONT

text \<open>
  \<open>Exec args cmd\<close> is the child after \<open>fork\<close>: it prints its number, and when \<open>execvp\<close> of the
  arguments fails, that \<open>cmd\<close> was not found. A message with the null pointer has \<open>None\<close>.
\<close>

datatype event = Usage | Script_File_Error | History_File_Error | Command string
  | No_Directory string | Fork_Failed | Wait_Failed | Setpgid_Failed | Invalid_Command string
  | Process_Info string int string | No_Process_Found int | Killed int "string option"
  | Stopped int "string option" | History_Line nat string | Invalid_Index | No_History_Match
  | Chdir string | Kill int signal | Exec "string list" string

record shell =
  hist :: "string list"
  bkgd :: "process list"
  files :: "string \<rightharpoonup> string"
  stdin :: string
  eof :: bool
  answers :: "nat \<Rightarrow> int"
  trace :: "event list"

type_synonym 'a outcome = "'a res \<times> shell"

definition andS :: "'a outcome \<Rightarrow> ('a \<Rightarrow> shell \<Rightarrow> 'b outcome) \<Rightarrow> 'b outcome" where
  "andS r f = (case r of (Inl e, s) \<Rightarrow> (Inl e, s) | (Inr x, s) \<Rightarrow> f x s)"

primrec forS :: "'i list \<Rightarrow> ('i \<Rightarrow> shell \<Rightarrow> unit outcome) \<Rightarrow> shell \<Rightarrow> unit outcome" where
  "forS [] body s = (OK (), s)"
| "forS (i # is) body s = andS (body i s) (\<lambda>_. forS is body)"

text \<open>The answer of the next call, and a printed line or a call without a used answer.\<close>

definition ask :: "shell \<Rightarrow> int outcome" where
  "ask s = (OK (answers s 0), s\<lparr>answers := (\<lambda>i. answers s (Suc i))\<rparr>)"

definition emit :: "event \<Rightarrow> shell \<Rightarrow> shell" where
  "emit e s = s\<lparr>trace := trace s @ [e]\<rparr>"

text \<open>An element of a vector, with its check of the index, and the removal of the last element.\<close>

definition vec_at :: "'a list \<Rightarrow> nat \<Rightarrow> shell \<Rightarrow> 'a outcome" where
  "vec_at v i s = (if i < length v then (OK (v ! i), s) else (Fault Assert_Fail, s))"

definition pop_hist :: "shell \<Rightarrow> unit outcome" where
  "pop_hist s = (if hist s = [] then (Fault Out_Of_Bounds, s) else (OK (), s\<lparr>hist := butlast (hist s)\<rparr>))"

definition push_hist :: "string \<Rightarrow> shell \<Rightarrow> shell" where
  "push_hist c s = s\<lparr>hist := hist s @ [c]\<rparr>"

text \<open>
  \<open>for (i = 0; i < vector_size(v); i++) if (P) vector_erase(v, i);\<close> after an erasure the
  element that moved to \<open>i\<close> is not looked at.
\<close>

fun erase_each :: "('a \<Rightarrow> bool) \<Rightarrow> 'a list \<Rightarrow> 'a list" where
  "erase_each P [] = []"
| "erase_each P [x] = (if P x then [] else [x])"
| "erase_each P (x # y # xs) = (if P x then y # erase_each P xs else x # erase_each P (y # xs))"

definition read_commands_from_history :: "string option \<Rightarrow> shell \<Rightarrow> unit outcome" where
  "read_commands_from_history path_to_file s = (case path_to_file of
      None \<Rightarrow> (Fault (Exit 0), emit History_File_Error s)
    | Some path \<Rightarrow> if path = ''/'' then (Fault (Exit 0), emit Usage s)
      else andS (ask s) (\<lambda>fp s. if fp = - 1 then (Fault (Exit 0), emit Usage s)
        else (let content = (case files s path of None \<Rightarrow> [] | Some c \<Rightarrow> c)
          in (OK (), s\<lparr>files := (files s)(path \<mapsto> content), hist := hist s @ map chomp (getlines content)\<rparr>))))"

definition update_history :: "string \<Rightarrow> shell \<Rightarrow> unit outcome" where
  "update_history path_to_file s = andS (ask s) (\<lambda>fp s.
     if fp = - 1 then (Fault (Exit 0), emit History_File_Error s)
     else (OK (), s\<lparr>files := (files s)(path_to_file \<mapsto> concat (map (\<lambda>l. l @ [NL]) (hist s)))\<rparr>))"

definition split :: "string \<Rightarrow> string list" where
  "split cmd = erase_each (\<lambda>w. w = []) (strsep_all CHR '' '' cmd)"

text \<open>\<open>strsep\<close> takes its second argument as a set of characters, so \<open>"||"\<close> is one delimiter.\<close>

definition process_logical_operation :: "string \<Rightarrow> string list option" where
  "process_logical_operation input =
     (if strstr input ''||'' \<noteq> None then Some (erase_each (\<lambda>w. w = []) (''||'' # strsep_all CHR ''|'' input))
      else if strstr input ''&&'' \<noteq> None then Some (erase_each (\<lambda>w. w = []) (''&&'' # strsep_all CHR ''&'' input))
      else if strstr input '';'' \<noteq> None then Some (erase_each (\<lambda>w. w = []) ('';'' # strsep_all CHR '';'' input))
      else None)"

definition rm_process :: "int \<Rightarrow> shell \<Rightarrow> shell" where
  "rm_process p s = s\<lparr>bkgd := erase_each (\<lambda>q. pid q = p) (bkgd s)\<rparr>"

definition get_process :: "int \<Rightarrow> shell \<Rightarrow> string option" where
  "get_process p s = map_option command (find (\<lambda>q. pid q = p) (bkgd s))"

definition ch_process :: "int \<Rightarrow> string \<Rightarrow> shell \<Rightarrow> shell" where
  "ch_process p st s = s\<lparr>bkgd := map (\<lambda>q. if pid q = p then q\<lparr>status := st\<rparr> else q) (bkgd s)\<rparr>"

text \<open>The answer is the number of the child, 0 if none has ended, or -1.\<close>

definition sigchld_handler :: "shell \<Rightarrow> unit outcome" where
  "sigchld_handler s = andS (ask s) (\<lambda>p s. (OK (), if p \<noteq> - 1 then rm_process p s else s))"

text \<open>A call of \<open>kill\<close>; its answer is -1 when it fails.\<close>

definition sys_kill :: "int \<Rightarrow> signal \<Rightarrow> shell \<Rightarrow> int outcome" where
  "sys_kill p sig s = ask (emit (Kill p sig) s)"

definition kill_zombies :: "shell \<Rightarrow> unit outcome" where
  "kill_zombies s = forS (drop 1 (bkgd s)) (\<lambda>p s. andS (sys_kill (pid p) SIGTERM s) (\<lambda>_ s. (OK (), s))) s"

text \<open>The number of a command \<open>kill\<close>, \<open>stop\<close> or \<open>cont\<close>, and a message about the command.\<close>

definition pid_of :: "string list \<Rightarrow> shell \<Rightarrow> int outcome" where
  "pid_of vec s = (atoi (last vec), s)"

text \<open>\<open>split\<close> has put a NUL into \<open>cmd\<close> at its first space when it is printed.\<close>

definition first_field :: "string \<Rightarrow> string" where
  "first_field cmd = takeWhile (\<lambda>c. c \<noteq> CHR '' '') cmd"

text \<open>The last of the first \<open>n\<close> commands that starts with \<open>p\<close>, or -1.\<close>

primrec find_back :: "string \<Rightarrow> string list \<Rightarrow> nat \<Rightarrow> int" where
  "find_back p h 0 = - 1"
| "find_back p h (Suc i) = (if take (length p) (h ! i) = p then int i else find_back p h i)"

definition print_history :: "nat \<Rightarrow> shell \<Rightarrow> unit outcome" where
  "print_history n s = forS [0..<n] (\<lambda>i s. andS (vec_at (hist s) i s) (\<lambda>c s. (OK (), emit (History_Line i c) s))) s"

text \<open>
  \<open>run\<close> is the call of \<open>logic_exec\<close>. The results are 0 for done, 1 for failed and 2 for a
  command that is not built in.
\<close>

definition exec_buildin :: "(string \<Rightarrow> shell \<Rightarrow> unit outcome) \<Rightarrow> string \<Rightarrow> shell \<Rightarrow> int outcome" where
  "exec_buildin run cmd s = (let vec = split cmd; sz = length vec; szh = length (hist s) in
     andS (vec_at vec 0 s) (\<lambda>front s.
     if front = ''cd'' then
       (if sz \<noteq> 2 then (OK 1, emit (No_Directory []) s)
        else andS (ask (emit (Chdir (vec ! 1)) s)) (\<lambda>f s.
          if f = - 1 then (OK 1, emit (No_Directory (vec ! 1)) s) else (OK 0, s)))
     else if front = ''!history'' then
       andS (pop_hist s) (\<lambda>_ s.
       if sz \<noteq> 1 then (OK 0, emit (Invalid_Command (first_field cmd)) s)
       else andS (print_history (szh - 1) s) (\<lambda>_ s. (OK 0, s)))
     else if sz = 1 \<and> front \<noteq> [] \<and> hd front = CHR ''#'' then
       andS (pop_hist s) (\<lambda>_ s. andS (atoi (tl front), s) (\<lambda>num s.
       if num < 0 then (Fault Assert_Fail, s)
       else if num \<ge> int szh - 1 then (OK 0, emit Invalid_Index s)
       else andS (vec_at (hist s) (nat num) s) (\<lambda>c s. andS (run c s) (\<lambda>_ s. (OK 0, s)))))
     else if cmd \<noteq> [] \<and> hd cmd = CHR ''!'' then
       andS (pop_hist s) (\<lambda>_ s. let p = tl cmd;
         idx = (if p = [] then int szh - 2 else find_back p (hist s) (szh - 1)) in
       if idx = - 1 then (OK 0, emit No_History_Match s)
       else andS (vec_at (hist s) (nat idx) s) (\<lambda>c s. andS (run c s) (\<lambda>_ s. (OK 0, s))))
     else if front = ''ps'' then
       (OK 0, s\<lparr>trace := trace s @ map (\<lambda>t. Process_Info (status t) (pid t) (command t)) (bkgd s)\<rparr>)
     else if front = ''kill'' then
       (if sz \<noteq> 2 then (OK 1, emit (Invalid_Command (first_field cmd)) s)
        else andS (pid_of vec s) (\<lambda>p s. andS (sys_kill p SIGTERM s) (\<lambda>f s.
          if f = - 1 then (OK 1, emit (No_Process_Found p) s)
          else (OK 0, emit (Killed p (get_process p s)) (rm_process p s)))))
     else if front = ''stop'' then
       (if sz \<noteq> 2 then (OK 1, emit (Invalid_Command (first_field cmd)) s)
        else andS (pid_of vec s) (\<lambda>p s. andS (sys_kill p SIGTSTP s) (\<lambda>f s.
          if f = - 1 then (OK 1, emit (No_Process_Found p) s)
          else (OK 0, emit (Stopped p (get_process p s)) (ch_process p ''Stopped'' s)))))
     else if front = ''cont'' then
       (if sz \<noteq> 2 then (OK 1, emit (Invalid_Command (first_field cmd)) s)
        else andS (pid_of vec s) (\<lambda>p s. andS (sys_kill p SIGCONT s) (\<lambda>f s.
          if f = - 1 then (OK 1, emit (No_Process_Found p) s)
          else (OK 0, ch_process p ''Running'' s))))
     else (OK 2, s)))"

text \<open>Whether a command is for the background, and its words without the sign for it.\<close>

definition is_backgrounding :: "string list \<Rightarrow> shell \<Rightarrow> (bool \<times> string list) outcome" where
  "is_backgrounding v s = (if v = [] then (Fault Out_Of_Bounds, s) else let w = last v in
     if w = [] then (Fault Out_Of_Bounds, s)
     else if hd w = CHR ''&'' then (OK (True, butlast v), s)
     else if last w = CHR ''&'' then (OK (True, butlast v @ [butlast w]), s)
     else (OK (False, v), s))"

definition leave_shell :: "string option \<Rightarrow> shell \<Rightarrow> int outcome" where
  "leave_shell hfile s = andS (case hfile of None \<Rightarrow> (OK (), s) | Some path \<Rightarrow> update_history path s) (\<lambda>_ s.
     andS (kill_zombies s) (\<lambda>_ s. (Fault (Exit 0), s)))"

text \<open>
  The second half of \<open>exec_cmd\<close>. The answer of the waiting is -1 for a failure, -2 when the
  child was killed, and the exit status otherwise.
\<close>

definition exec_external :: "string \<Rightarrow> shell \<Rightarrow> int outcome" where
  "exec_external cmd s = andS (is_backgrounding (split cmd) s) (\<lambda>(bck, args) s.
     andS (ask s) (\<lambda>child s.
     if child = - 1 then (Fault (Exit 1), emit Fork_Failed s)
     else let s = emit (Exec args cmd) s in
       if bck then andS (ask s) (\<lambda>r s. if r = - 1 then (Fault (Exit 1), emit Setpgid_Failed s)
         else (OK 0, s\<lparr>bkgd := bkgd s @ [\<lparr>command = cmd, status = ''Running'', pid = child\<rparr>]\<rparr>))
       else andS (ask s) (\<lambda>st s. if st = - 1 then (Fault (Exit 1), emit Wait_Failed s)
         else (OK (if 0 < st then 1 else 0), s))))"

definition exec_cmd :: "(string \<Rightarrow> shell \<Rightarrow> unit outcome) \<Rightarrow> string option \<Rightarrow> string \<Rightarrow> bool \<Rightarrow> shell \<Rightarrow> int outcome" where
  "exec_cmd run hfile cmd logic s = (if cmd = [] then (OK 1, s)
     else andS (vec_at (split cmd) 0 s) (\<lambda>front s.
       if front = ''exit'' then leave_shell hfile s
       else if eof s then leave_shell hfile s
       else let s = (if logic then s else push_hist cmd s) in
         andS (exec_buildin run cmd s) (\<lambda>flag s.
           if flag = 0 then (OK 0, s) else if flag = 1 then (OK 1, s) else exec_external cmd s)))"

text \<open>\<open>logic_exec\<close>, first over its call of itself by a command of the history, then with fuel for these calls.\<close>

definition logic_body :: "(string \<Rightarrow> shell \<Rightarrow> unit outcome) \<Rightarrow> string option \<Rightarrow> string \<Rightarrow> shell \<Rightarrow> unit outcome" where
  "logic_body run hfile cmd s = (case process_logical_operation cmd of
      None \<Rightarrow> andS (exec_cmd run hfile cmd False s) (\<lambda>_ s. (OK (), s))
    | Some logicv \<Rightarrow>
        andS (vec_at logicv 0 (push_hist cmd s)) (\<lambda>log s. andS (vec_at logicv 1 s) (\<lambda>cmd1 s.
        andS (vec_at logicv 2 s) (\<lambda>cmd2 s. andS (exec_cmd run hfile cmd1 True s) (\<lambda>success s.
        if log = ''&&'' \<and> success \<noteq> 0 \<or> log = ''||'' \<and> success = 0 then (OK (), s)
        else andS (exec_cmd run hfile cmd2 True s) (\<lambda>_ s. (OK (), s)))))))"

primrec logic_exec :: "nat \<Rightarrow> string option \<Rightarrow> string \<Rightarrow> shell \<Rightarrow> unit outcome" where
  "logic_exec 0 hfile cmd s = (Fault Nonterminating, s)"
| "logic_exec (Suc n) hfile cmd s = logic_body (logic_exec n hfile) hfile cmd s"

text \<open>
  \<open>fgets(str, 999, stdin)\<close> with its newline removed. At the end of the input \<open>str\<close> is not
  written, and is read all the same.
\<close>

definition read_command_from_stdin :: "shell \<Rightarrow> string outcome" where
  "read_command_from_stdin s = (case getline (stdin s) of
      None \<Rightarrow> (Fault Uninit_Read, s\<lparr>eof := True\<rparr>)
    | Some (l, rest) \<Rightarrow> let str = take 998 l in
        (OK (chomp str), s\<lparr>stdin := drop (length str) (stdin s), eof := (last str \<noteq> NL \<and> length str < 998)\<rparr>))"

text \<open>The loop over the commands of the user, at most \<open>n\<close> of them, and the loop over a script.\<close>

primrec interactive :: "nat \<Rightarrow> nat \<Rightarrow> string option \<Rightarrow> shell \<Rightarrow> unit outcome" where
  "interactive fuel 0 hfile s = (Fault Nonterminating, s)"
| "interactive fuel (Suc n) hfile s = andS (read_command_from_stdin s) (\<lambda>c s.
     andS (logic_exec fuel hfile c s) (\<lambda>_. interactive fuel n hfile))"

definition run_script :: "nat \<Rightarrow> string option \<Rightarrow> string \<Rightarrow> shell \<Rightarrow> int outcome" where
  "run_script fuel hfile script s =
     andS (forS (getlines script) (\<lambda>line s. let l = cstr (butlast line) in logic_exec fuel hfile l (emit (Command l) s)) s)
       (\<lambda>_ s. andS (case hfile of None \<Rightarrow> (OK (), s) | Some path \<Rightarrow> update_history path s)
       (\<lambda>_ s. andS (kill_zombies s) (\<lambda>_ s. (OK 0, s))))"

text \<open>
  \<open>shell\<close>, over what \<open>getopt\<close> gives: the files of \<open>-f\<close> and of \<open>-h\<close> in their order, and whether there
  was another option. \<open>full_path\<close> is \<open>get_full_path\<close>, and the number of the process is \<open>self\<close>.
\<close>

definition shell_main :: "nat \<Rightarrow> nat \<Rightarrow> (string \<Rightarrow> string) \<Rightarrow> int \<Rightarrow> nat \<Rightarrow> string list \<Rightarrow> string list \<Rightarrow> bool \<Rightarrow> shell \<Rightarrow> int outcome" where
  "shell_main fuel n full_path self argc fs hs bad s =
     (if argc \<noteq> 5 \<and> argc \<noteq> 3 \<and> argc \<noteq> 1 then (Fault (Exit 0), emit Usage s)
      else if eof s then (Fault (Exit 0), s)
      else if bad \<or> length fs > 1 \<or> length hs > 1 then (Fault (Exit 0), emit Usage s)
      else let hfile = (if hs = [] then None else Some (full_path (last hs)));
          s = s\<lparr>bkgd := [\<lparr>command = ''./shell'', status = ''Running'', pid = self\<rparr>], hist := []\<rparr> in
        andS (if hs = [] then (OK (), s) else read_commands_from_history hfile s) (\<lambda>_ s.
        if fs = [] then andS (interactive fuel n hfile s) (\<lambda>_ s. (OK 0, s))
        else andS (ask s) (\<lambda>fp s. case files s (last fs) of
            None \<Rightarrow> (OK 0, emit Script_File_Error s)
          | Some script \<Rightarrow> if fp = - 1 then (OK 0, emit Script_File_Error s) else run_script fuel hfile script s)))"

declare logic_exec.simps(2) [simp del]

section \<open>Lemmas\<close>

lemma andS_simps [simp]: "andS (Inl e, s) f = (Inl e, s)" "andS (Inr x, s) f = f x s"
  by (simp_all add: andS_def)

lemma andS_assoc: "andS (andS r f) g = andS r (\<lambda>x s. andS (f x s) g)"
  by (simp add: andS_def split: prod.split sum.split)

lemma erase_each_eq_filter:
  "erase_each P xs = filter (\<lambda>x. \<not> P x) xs \<longleftrightarrow> successively (\<lambda>x y. \<not> (P x \<and> P y)) xs"
proof (induction P xs rule: erase_each.induct)
  case (3 P x y xs)
  have 1: "successively (\<lambda>x y. \<not> (P x \<and> P y)) (y # xs) \<longleftrightarrow> successively (\<lambda>x y. \<not> (P x \<and> P y)) xs" if "\<not> P y"
    using that by (cases xs) simp_all
  have 2: "y # zs \<noteq> filter (\<lambda>x. \<not> P x) xs" if "P y" for zs using that by (metis filter_eq_ConsD)
  show ?case using 3 1 2 by (cases "P x"; cases "P y") (auto simp del: filter.simps simp: filter.simps(2))
qed simp_all

lemma erase_each_set: "set (erase_each P xs) \<subseteq> set xs"
  by (induction P xs rule: erase_each.induct) auto

lemma erase_each_keeps_first: "\<not> P x \<Longrightarrow> erase_each P (x # xs) = x # erase_each P xs"
  by (cases xs) simp_all

lemma strsep_all_cases:
  obtains "d \<notin> set s" "strsep_all d s = [s]"
  | f rest where "s = f @ d # rest" "d \<notin> set f" "strsep_all d s = f # strsep_all d rest"
proof (cases "d \<in> set s")
  case True
  then obtain f rest where "s = f @ d # rest" "d \<notin> set f" by (metis split_list_first)
  with that(2) show thesis by (simp add: strsep_all_step)
next
  case False
  with that(1) show thesis by (simp add: strsep_all_nodelim)
qed

lemma strtok_all_filter: "strtok_all d s = filter (\<lambda>w. w \<noteq> []) (strsep_all d s)"
proof (induction "length s" arbitrary: s rule: less_induct)
  case less
  show ?case
  proof (cases d s rule: strsep_all_cases)
    case 1
    then show ?thesis by (cases "s = []") (simp_all add: strtok_all_step)
  next
    case (2 f rest)
    then have "strtok_all d rest = filter (\<lambda>w. w \<noteq> []) (strsep_all d rest)" by (intro less) simp
    with 2 show ?thesis by (cases "f = []") (simp_all add: strtok_all_step strtok_all_delim)
  qed
qed

lemma strsep_all_set: "w \<in> set (strsep_all d s) \<Longrightarrow> set w \<subseteq> set s - {d}"
proof (induction "length s" arbitrary: s rule: less_induct)
  case less
  show ?case
  proof (cases d s rule: strsep_all_cases)
    case 1
    with less.prems show ?thesis by auto
  next
    case (2 f rest)
    with less.prems less.hyps [of rest] show ?thesis by auto
  qed
qed

lemma split_set: "w \<in> set (split cmd) \<Longrightarrow> set w \<subseteq> set cmd"
  using erase_each_set strsep_all_set by (fastforce simp: split_def)

lemma split_first:
  assumes "c \<noteq> CHR '' ''"
  shows "split (c # cs) = (takeWhile (\<lambda>x. x \<noteq> CHR '' '') (c # cs)) # tl (split (c # cs))"
proof (cases "CHR '' ''" "c # cs" rule: strsep_all_cases)
  case 1
  then show ?thesis using assms by (auto simp: split_def takeWhile_eq_all_conv [THEN iffD2])
next
  case (2 f rest)
  then have "f \<noteq> []" using assms by auto
  with 2 show ?thesis by (simp add: split_def erase_each_keeps_first)
qed

lemma split_Nil [simp]: "split [] = []"
  by (simp add: split_def strsep_all_nodelim)

lemma split_word: "w \<noteq> [] \<Longrightarrow> CHR '' '' \<notin> set w \<Longrightarrow> split w = [w]"
  by (simp add: split_def strsep_all_nodelim)

text \<open>A command of the history is popped and run in its place.\<close>

lemma logic_none:
  "process_logical_operation cmd = None \<Longrightarrow>
   logic_exec (Suc n) hfile cmd s = andS (exec_cmd (logic_exec n hfile) hfile cmd False s) (\<lambda>_ s. (OK (), s))"
  by (simp add: logic_exec.simps(2) logic_body_def)

lemma strstr_absent: "c \<in> set t \<Longrightarrow> c \<notin> set s \<Longrightarrow> strstr s t = None"
proof (induction s)
  case (Cons x s)
  have "take (length t) (x # s) \<noteq> t" using Cons.prems by (metis in_set_takeD)
  then show ?case using Cons by simp
qed auto

lemma no_logic: "CHR ''|'' \<notin> set c \<Longrightarrow> CHR ''&'' \<notin> set c \<Longrightarrow> CHR '';'' \<notin> set c \<Longrightarrow> process_logical_operation c = None"
  by (simp add: process_logical_operation_def strstr_absent)

lemma rerun_in_place:
  assumes "exec_buildin run cmd (push_hist cmd s) = andS (run c s) (\<lambda>_ s. (OK 0, s))"
    and "cmd \<noteq> []" "hd (split cmd) \<noteq> ''exit''" "split cmd \<noteq> []" "\<not> eof s"
  shows "andS (exec_cmd run hfile cmd False s) (\<lambda>_ s. (OK (), s)) = run c s"
proof -
  have "andS (run c s) (\<lambda>_ s. (OK (), s)) = run c s" by (cases "run c s"; cases "fst (run c s)") auto
  then show ?thesis using assms by (simp add: exec_cmd_def vec_at_def hd_conv_nth andS_assoc)
qed

lemma atoi_show_nat: "int n \<le> INT_MAX \<Longrightarrow> atoi (show_nat n) = OK (int n)"
  using read_int_show_int [of "int n"] by (simp add: atoi_def show_int_def INT_MIN_def)

lemma show_nat_chars: "c \<in> set (show_nat n) \<Longrightarrow> 48 \<le> (of_char c :: nat) \<and> (of_char c :: nat) \<le> 57"
  using show_nat_digits [of c n] by (simp add: is_digit_def)

lemma hash_buildin:
  assumes "n < length (hist s)" "int n \<le> INT_MAX"
  shows "exec_buildin run (CHR ''#'' # show_nat n) (push_hist cmd s) = andS (run (hist s ! n) s) (\<lambda>_ s. (OK 0, s))"
proof -
  have "CHR '' '' \<notin> set (show_nat n)" using show_nat_chars [of "CHR '' ''" n] by auto
  then have "split (CHR ''#'' # show_nat n) = [CHR ''#'' # show_nat n]" by (intro split_word) simp_all
  then show ?thesis using assms
    by (simp add: exec_buildin_def vec_at_def pop_hist_def push_hist_def atoi_show_nat Let_def)
qed

lemma find_back_last:
  assumes "i < n" "take (length p) (h ! i) = p" "\<And>j. i < j \<Longrightarrow> j < n \<Longrightarrow> take (length p) (h ! j) \<noteq> p"
  shows "find_back p h n = int i"
  using assms
proof (induction n)
  case (Suc n)
  show ?case
  proof (cases "i = n")
    case False
    then have "i < n" using Suc.prems(1) by simp
    then show ?thesis using Suc by auto
  qed (use Suc.prems in simp)
qed simp

lemma bang_buildin:
  assumes "p \<noteq> []" "hd (split (CHR ''!'' # p)) \<noteq> ''!history''" "i < length (hist s)" "take (length p) (hist s ! i) = p"
    and "\<And>j. i < j \<Longrightarrow> j < length (hist s) \<Longrightarrow> take (length p) (hist s ! j) \<noteq> p"
  shows "exec_buildin run (CHR ''!'' # p) (push_hist cmd s) = andS (run (hist s ! i) s) (\<lambda>_ s. (OK 0, s))"
proof -
  obtain w ws where w: "split (CHR ''!'' # p) = (CHR ''!'' # w) # ws"
    using split_first [of "CHR ''!''" p] by simp
  moreover have "find_back p (hist s) (length (hist s)) = int i" by (rule find_back_last) (use assms in auto)
  ultimately show ?thesis using assms
    by (simp add: exec_buildin_def vec_at_def pop_hist_def push_hist_def Let_def)
qed

section \<open>Plain commands\<close>

text \<open>A command without \<open>#\<close> and \<open>!\<close> runs no other command of the history.\<close>

definition plain :: "string \<Rightarrow> bool" where
  "plain c \<longleftrightarrow> CHR ''#'' \<notin> set c \<and> CHR ''!'' \<notin> set c"

definition plain_hist :: "string list \<Rightarrow> bool" where
  "plain_hist h \<longleftrightarrow> (\<forall>c \<in> set h. plain c)"

definition never_stuck :: "'a outcome \<Rightarrow> bool" where
  "never_stuck r \<longleftrightarrow> fst r \<noteq> Fault Nonterminating"

text \<open>A step that ends and satisfies \<open>Q\<close> afterwards.\<close>

definition ends :: "(shell \<Rightarrow> bool) \<Rightarrow> 'a outcome \<Rightarrow> bool" where
  "ends Q r \<longleftrightarrow> fst r \<noteq> Fault Nonterminating \<and> (\<forall>x. fst r = Inr x \<longrightarrow> Q (snd r))"

lemma ends_andS: "ends Q r \<Longrightarrow> (\<And>x s. r = (Inr x, s) \<Longrightarrow> Q s \<Longrightarrow> ends R (f x s)) \<Longrightarrow> ends R (andS r f)"
  by (cases r; cases "fst r") (auto simp: ends_def)

lemma ends_mono: "ends Q r \<Longrightarrow> (\<And>s. Q s \<Longrightarrow> R s) \<Longrightarrow> ends R r"
  by (auto simp: ends_def)

lemma ends_pure [simp]: "ends Q (Inr x, s) \<longleftrightarrow> Q s" "ends Q (Inl e, s) \<longleftrightarrow> e \<noteq> Nonterminating"
  by (auto simp: ends_def)

lemma ends_prims:
  "Q (s\<lparr>answers := (\<lambda>i. answers s (Suc i))\<rparr>) \<Longrightarrow> ends Q (ask s)"
  "Q s \<Longrightarrow> ends Q (vec_at v i s)"
  "Q s \<Longrightarrow> ends Q (pid_of v s)"
  by (simp_all add: ask_def vec_at_def pid_of_def atoi_def c_int_def ends_def)

lemma hist_simps [simp]:
  "hist (emit e s) = hist s" "hist (rm_process p s) = hist s" "hist (ch_process p st s) = hist s"
  by (simp_all add: emit_def rm_process_def ch_process_def)

lemma ends_forS:
  "Q s \<Longrightarrow> (\<And>i s. Q s \<Longrightarrow> ends Q (body i s)) \<Longrightarrow> ends Q (forS is body s)"
  by (induction "is" arbitrary: s) (auto intro: ends_andS)

lemma ends_sys_kill: "ends (\<lambda>s'. hist s' = hist s) (sys_kill p sig s)"
  by (simp add: sys_kill_def ends_prims)

lemma ends_is_backgrounding: "ends (\<lambda>s'. s' = s) (is_backgrounding v s)"
  by (simp add: is_backgrounding_def Let_def)

lemma ends_exec_external: "ends (\<lambda>s'. hist s' = hist s) (exec_external cmd s)"
  unfolding exec_external_def Let_def
  by (rule ends_andS [OF ends_is_backgrounding])
    (auto simp: ask_def emit_def split: prod.split)

lemma ends_kill_zombies: "ends (\<lambda>_. True) (kill_zombies s)"
  unfolding kill_zombies_def
  by (intro ends_forS) (auto intro!: ends_andS [where Q = "\<lambda>_. True"] simp: sys_kill_def ask_def)

lemma ends_leave_shell: "ends Q (leave_shell hfile s)"
proof -
  have "ends (\<lambda>_. True) (case hfile of None \<Rightarrow> (OK (), s) | Some path \<Rightarrow> update_history path s)"
    by (cases hfile) (simp_all add: update_history_def ask_def)
  then show ?thesis unfolding leave_shell_def
    by (rule ends_andS) (rule ends_andS [OF ends_kill_zombies], simp)
qed

lemma ends_pop_hist: "ends (\<lambda>s'. hist s' = butlast (hist s)) (pop_hist s)"
  by (simp add: pop_hist_def)

lemma ends_print_history: "ends (\<lambda>s'. hist s' = hist s) (print_history n s)"
  unfolding print_history_def
  by (rule ends_forS) (auto intro!: ends_andS [where Q = "\<lambda>s'. hist s' = hist s"] simp: ends_prims)

lemma find_back_bounds: "- 1 \<le> find_back p h n \<and> find_back p h n < int n"
  by (induction n) auto

lemma ends_exec_buildin:
  assumes keep: "R (hist s)" and pop: "\<not> plain cmd \<Longrightarrow> R (butlast (hist s))"
    and run: "\<And>c s'. \<not> plain cmd \<Longrightarrow> c \<in> set (butlast (hist s)) \<Longrightarrow> hist s' = butlast (hist s) \<Longrightarrow> ends (\<lambda>s. R (hist s)) (run c s')"
  shows "ends (\<lambda>s. R (hist s)) (exec_buildin run cmd s)"
proof -
  let ?v = "split cmd" and ?R = "\<lambda>s. R (hist s)" and ?pop = "\<lambda>s'. hist s' = butlast (hist s)" and ?same = "\<lambda>s'. hist s' = hist s"
  have chars: "set (?v ! 0) \<subseteq> set cmd" if "0 < length ?v" using that by (intro split_set nth_mem)
  have plain: "\<not> plain cmd" if "?v ! 0 = ''!history'' \<or> ?v ! 0 \<noteq> [] \<and> hd (?v ! 0) = CHR ''#'' \<or> cmd \<noteq> [] \<and> hd cmd = CHR ''!''" "0 < length ?v"
    using that chars by (cases "?v ! 0"; cases cmd) (auto simp: plain_def)
  have hash: "ends ?R (andS (pop_hist s) (\<lambda>_ s'. andS (atoi t, s') (\<lambda>num s'. if num < 0 then (Fault Assert_Fail, s')
      else if num \<ge> int (length (hist s)) - 1 then (OK 0, emit Invalid_Index s')
      else andS (vec_at (hist s') (nat num) s') (\<lambda>c s'. andS (run c s') (\<lambda>_ s'. (OK 0, s'))))))" if "\<not> plain cmd" for t
  proof (rule ends_andS [OF ends_pop_hist])
    fix s' :: shell assume s': "hist s' = butlast (hist s)"
    show "ends ?R (andS (atoi t, s') (\<lambda>num s'. if num < 0 then (Fault Assert_Fail, s')
      else if num \<ge> int (length (hist s)) - 1 then (OK 0, emit Invalid_Index s')
      else andS (vec_at (hist s') (nat num) s') (\<lambda>c s'. andS (run c s') (\<lambda>_ s'. (OK 0, s')))))"
      by (rule ends_andS [where Q = "\<lambda>u. u = s'"])
        (auto simp: atoi_def c_int_def ends_def [of "\<lambda>u. u = s'"] vec_at_def s' pop that intro!: ends_andS [OF run])
  qed
  have bang: "ends ?R (andS (pop_hist s) (\<lambda>_ s'. if idx s' = - 1 then (OK 0, emit No_History_Match s')
      else andS (vec_at (hist s') (nat (idx s')) s') (\<lambda>c s'. andS (run c s') (\<lambda>_ s'. (OK 0, s')))))" if "\<not> plain cmd" for idx
    by (rule ends_andS [OF ends_pop_hist]) (auto simp: vec_at_def pop that intro!: ends_andS [OF run])
  have history: "ends ?R (andS (pop_hist s) (\<lambda>_ s'. if b then (OK 0, emit e s') else andS (print_history n s') (\<lambda>_ s'. (OK 0, s'))))"
    if "\<not> plain cmd" for b e n
    by (rule ends_andS [OF ends_pop_hist]) (auto simp: pop that intro!: ends_andS [OF ends_print_history])
  have kill: "ends ?R (andS (pid_of ?v s) (\<lambda>p s'. andS (sys_kill p sig s') (\<lambda>f s'. if f = - 1 then (OK 1, emit (No_Process_Found p) s')
      else (OK 0, g p s'))))" if "\<And>p s'. hist (g p s') = hist s'" for sig g
    by (rule ends_andS [where Q = ?same], simp add: ends_prims, rule ends_andS [OF ends_sys_kill]) (simp add: keep that)
  have cd: "ends ?R (andS (ask (emit e s)) (\<lambda>f s'. if f = - 1 then (OK 1, emit e' s') else (OK 0, s')))" for e e'
    by (simp add: ask_def keep)
  have front: "u = s \<and> front = ?v ! 0 \<and> 0 < length ?v" if "vec_at ?v 0 s = (Inr front, u)" for front u
    using that by (auto simp: vec_at_def split: if_splits)
  show ?thesis unfolding exec_buildin_def Let_def
    apply (rule ends_andS [where Q = "\<lambda>u. u = s"], simp add: ends_prims)
    subgoal premises prems for w u
      using front [OF prems(1)] plain by (auto simp: keep cd kill history hash bang)
    done
qed

lemma ends_exec_cmd:
  assumes keep: "R (hist s)" and push: "\<not> logic \<Longrightarrow> R (hist s @ [cmd])"
    and pop: "\<not> plain cmd \<Longrightarrow> R (butlast (hist s @ (if logic then [] else [cmd])))"
    and run: "\<And>c s'. \<not> plain cmd \<Longrightarrow> c \<in> set (butlast (hist s @ (if logic then [] else [cmd]))) \<Longrightarrow>
      hist s' = butlast (hist s @ (if logic then [] else [cmd])) \<Longrightarrow> ends (\<lambda>s. R (hist s)) (run c s')"
  shows "ends (\<lambda>s. R (hist s)) (exec_cmd run hfile cmd logic s)"
proof -
  let ?s = "if logic then s else push_hist cmd s"
  have h: "hist ?s = hist s @ (if logic then [] else [cmd])" by (simp add: push_hist_def)
  have "ends (\<lambda>s. R (hist s)) (exec_buildin run cmd ?s)"
    by (rule ends_exec_buildin) (use keep push pop run in \<open>auto simp: h split: if_splits\<close>)
  then have "ends (\<lambda>s. R (hist s)) (andS (exec_buildin run cmd ?s) (\<lambda>flag s.
      if flag = 0 then (OK 0, s) else if flag = 1 then (OK 1, s) else exec_external cmd s))"
    by (rule ends_andS) (auto intro: ends_mono [OF ends_exec_external])
  then show ?thesis using keep unfolding exec_cmd_def Let_def
    by (auto intro!: ends_andS [where Q = "\<lambda>u. u = s"] simp: ends_prims ends_leave_shell vec_at_def)
qed

text \<open>A plain command only adds plain commands to the history, and ends whatever \<open>run\<close> is.\<close>

lemma plain_parts:
  assumes "process_logical_operation cmd = Some v" "0 < i" "i < length v"
  shows "set (v ! i) \<subseteq> set cmd"
proof -
  obtain d opr where v: "v = erase_each (\<lambda>w. w = []) (opr # strsep_all d cmd)" "opr \<noteq> []"
    using assms(1) by (auto simp: process_logical_operation_def split: if_splits)
  then have e: "v = opr # erase_each (\<lambda>w. w = []) (strsep_all d cmd)" by (simp add: erase_each_keeps_first)
  obtain j where j: "i = Suc j" using assms(2) by (cases i) simp_all
  have "v ! i \<in> set (erase_each (\<lambda>w. w = []) (strsep_all d cmd))" using assms(3) unfolding e j by (simp add: nth_mem)
  then show ?thesis using erase_each_set strsep_all_set by fastforce
qed

lemma plain_hist_simps [simp]:
  "plain_hist (h @ [c]) \<longleftrightarrow> plain_hist h \<and> plain c" "plain_hist h \<Longrightarrow> plain_hist (butlast h)"
  by (auto simp: plain_hist_def dest: in_set_butlastD)

lemma plain_part: "process_logical_operation cmd = Some v \<Longrightarrow> plain cmd \<Longrightarrow> 0 < i \<Longrightarrow> i < length v \<Longrightarrow> plain (v ! i)"
  using plain_parts [of cmd v i] by (auto simp: plain_def)

text \<open>Both parts of a command with an operator, when the first part keeps \<open>R\<close> and the second part then \<open>Q\<close>.\<close>

lemma ends_logic_body:
  assumes "process_logical_operation cmd = Some v"
    and "\<And>c. 1 < length v \<Longrightarrow> c = v ! 1 \<Longrightarrow> ends R (exec_cmd run hfile c True (push_hist cmd s))"
    and "\<And>c s'. 2 < length v \<Longrightarrow> c = v ! 2 \<Longrightarrow> R s' \<Longrightarrow> ends Q (exec_cmd run hfile c True s')"
    and "\<And>s'. R s' \<Longrightarrow> Q s'"
  shows "ends Q (logic_body run hfile cmd s)"
proof (cases "2 < length v")
  case True
  have "ends Q (andS (exec_cmd run hfile (v ! 1) True (push_hist cmd s)) (\<lambda>success s.
      if v ! 0 = ''&&'' \<and> success \<noteq> 0 \<or> v ! 0 = ''||'' \<and> success = 0 then (OK (), s)
      else andS (exec_cmd run hfile (v ! 2) True s) (\<lambda>_ s. (OK (), s))))"
  proof (rule ends_andS [where Q = R])
    show "ends R (exec_cmd run hfile (v ! 1) True (push_hist cmd s))" using assms(2) True by simp
  next
    fix success s' assume s': "R s'"
    then have "ends Q (exec_cmd run hfile (v ! 2) True s')" using assms(3) True by simp
    then have "ends Q (andS (exec_cmd run hfile (v ! 2) True s') (\<lambda>_ s. (OK (), s)))" by (rule ends_andS) simp
    then show "ends Q (if v ! 0 = ''&&'' \<and> success \<noteq> 0 \<or> v ! 0 = ''||'' \<and> success = 0 then (OK (), s')
      else andS (exec_cmd run hfile (v ! 2) True s') (\<lambda>_ s. (OK (), s)))" using s' assms(4) by simp
  qed
  then show ?thesis using True assms(1) by (simp add: logic_body_def vec_at_def)
next
  case False
  then show ?thesis using assms(1) by (simp add: logic_body_def vec_at_def)
qed

lemma ends_logic_plain:
  assumes "plain cmd" "plain_hist (hist s)"
  shows "ends (\<lambda>s. plain_hist (hist s)) (logic_body run hfile cmd s)"
proof (cases "process_logical_operation cmd")
  case None
  have "ends (\<lambda>s. plain_hist (hist s)) (exec_cmd run hfile cmd False s)"
    by (rule ends_exec_cmd) (use assms in simp_all)
  then show ?thesis using None by (auto simp: logic_body_def intro: ends_andS)
next
  case (Some v)
  show ?thesis
  proof (rule ends_logic_body [OF Some, where R = "\<lambda>s. plain_hist (hist s)"])
    fix c assume "1 < length v" "c = v ! 1"
    then have "plain c" using plain_part [OF Some assms(1)] by simp
    then show "ends (\<lambda>s. plain_hist (hist s)) (exec_cmd run hfile c True (push_hist cmd s))"
      by (intro ends_exec_cmd) (use assms in \<open>simp_all add: push_hist_def\<close>)
  next
    fix c and s' :: shell assume "2 < length v" "c = v ! 2" and s': "plain_hist (hist s')"
    then have "plain c" using plain_part [OF Some assms(1)] by simp
    then show "ends (\<lambda>s. plain_hist (hist s)) (exec_cmd run hfile c True s')"
      using s' by (intro ends_exec_cmd) simp_all
  qed
qed

lemma ends_logic:
  assumes "plain_hist (hist s)"
  shows "ends (\<lambda>_. True) (logic_exec (Suc (Suc n)) hfile cmd s)"
proof -
  let ?run = "logic_exec (Suc n) hfile"
  have run: "ends (\<lambda>s. plain_hist (hist s)) (?run c s')" if "plain c" "plain_hist (hist s')" for c s'
    using ends_logic_plain [OF that] by (simp add: logic_exec.simps(2))
  show ?thesis
  proof (cases "process_logical_operation cmd")
    case None
    have "ends (\<lambda>_. True) (exec_cmd ?run hfile cmd False s)"
      by (rule ends_exec_cmd) (use assms in \<open>auto intro!: ends_mono [OF run] simp: plain_hist_def\<close>)
    then show ?thesis using None by (auto simp: logic_body_def logic_exec.simps(2) [of "Suc n"] intro: ends_andS)
  next
    case (Some v)
    have "ends (\<lambda>_. True) (logic_body ?run hfile cmd s)"
    proof (rule ends_logic_body [OF Some, where R = "\<lambda>s. plain_hist (butlast (hist s))"])
      fix c
      show "ends (\<lambda>s. plain_hist (butlast (hist s))) (exec_cmd ?run hfile c True (push_hist cmd s))"
        by (rule ends_exec_cmd)
          (use assms in \<open>auto intro!: ends_mono [OF run] simp: push_hist_def plain_hist_def dest: in_set_butlastD\<close>)
    next
      fix c and s' :: shell assume s': "plain_hist (butlast (hist s'))"
      show "ends (\<lambda>_. True) (exec_cmd ?run hfile c True s')"
        by (rule ends_exec_cmd) (use s' in \<open>auto intro!: ends_mono [OF run] simp: plain_hist_def\<close>)
    qed simp
    then show ?thesis by (simp add: logic_exec.simps(2) [of "Suc n"])
  qed
qed

lemma kill_zombies_files: "\<exists>s'. kill_zombies s = (OK (), s') \<and> files s' = files s"
proof -
  have "\<exists>s'. forS ps (\<lambda>p s. andS (sys_kill (pid p) SIGTERM s) (\<lambda>_ s. (OK (), s))) s = (OK (), s') \<and> files s' = files s" for ps
  proof (induction ps arbitrary: s)
    case (Cons p ps)
    show ?case using Cons.IH [of "snd (sys_kill (pid p) SIGTERM s)"] by (simp add: sys_kill_def ask_def emit_def)
  qed simp
  then show ?thesis by (simp add: kill_zombies_def)
qed

lemma strstr_append: "strstr (a @ t @ b) t \<noteq> None"
proof -
  have "take (length t) (drop (length a) (a @ t @ b)) = t" by simp
  then show ?thesis unfolding strstr_None_iff by (metis le_add1 length_append)
qed

lemma logic_parts:
  assumes "opr \<in> {''&&'', ''||'', '';''}" "a \<noteq> []" "b \<noteq> []" "set a \<inter> set ''&|;'' = {}" "set b \<inter> set ''&|;'' = {}"
  shows "process_logical_operation (a @ opr @ b) = Some [opr, a, b]"
proof -
  let ?c = "a @ opr @ b"
  have ab: "CHR ''&'' \<notin> set a" "CHR ''|'' \<notin> set a" "CHR '';'' \<notin> set a" "CHR ''&'' \<notin> set b" "CHR ''|'' \<notin> set b" "CHR '';'' \<notin> set b"
    using assms(4,5) by auto
  have two: "erase_each (\<lambda>w. w = []) (opr # strsep_all d ?c) = [opr, a, b]" if "opr = [d, d]" "d \<notin> set a" "d \<notin> set b" for d
    using that assms(2,3) strsep_all_step [of d a "d # b"] strsep_all_step [of d "[]" b] by (simp add: strsep_all_nodelim)
  have one: "erase_each (\<lambda>w. w = []) (opr # strsep_all d ?c) = [opr, a, b]" if "opr = [d]" "d \<notin> set a" "d \<notin> set b" for d
    using that assms(2,3) strsep_all_step [of d a b] by (simp add: strsep_all_nodelim)
  consider "opr = ''||''" | "opr = ''&&''" | "opr = '';''" using assms(1) by auto
  then show ?thesis
  proof cases
    case 1
    then show ?thesis using strstr_append [of a opr b] two ab by (simp add: process_logical_operation_def)
  next
    case 2
    then have "strstr ?c ''||'' = None" using ab by (intro strstr_absent [of "CHR ''|''"]) simp_all
    then show ?thesis using 2 strstr_append [of a opr b] two ab by (simp add: process_logical_operation_def)
  next
    case 3
    then have "strstr ?c ''||'' = None" "strstr ?c ''&&'' = None"
      using ab strstr_absent [of "CHR ''|''" "''||''" ?c] strstr_absent [of "CHR ''&''" "''&&''" ?c] by simp_all
    then show ?thesis using 3 strstr_append [of a opr b] one ab by (simp add: process_logical_operation_def)
  qed
qed

section \<open>Properties\<close>

text \<open>
  The words of a command are its blank-separated words exactly when no two of the fields
  between its blanks that stand side by side are empty; three blanks in a row, or two at an
  end, leave an empty word.
\<close>

theorem split_words:
  "split cmd = strtok_all CHR '' '' cmd \<longleftrightarrow>
     successively (\<lambda>v w. \<not> (v = [] \<and> w = [])) (strsep_all CHR '' '' cmd)"
  using erase_each_eq_filter [of "\<lambda>w. w = []" "strsep_all CHR '' '' cmd"] by (simp add: split_def strtok_all_filter)

text \<open>
  C21: The command \<open>exit\<close> of a shell with a history file leaves in the file what a next shell on
  that file reads back as the same commands, when no command has a newline or a NUL.
\<close>

theorem shell_history_roundtrip:
  assumes "logic_exec (Suc n) (Some path) ''exit'' s = (r, s1)" "answers s 0 \<noteq> - 1"
    and "\<forall>c \<in> set (hist s). NL \<notin> set c \<and> NUL \<notin> set c"
    and "files t = files s1" "path \<noteq> ''/''" "answers t 0 \<noteq> - 1"
  shows "\<exists>t1. r = Fault (Exit 0) \<and> read_commands_from_history (Some path) t = (OK (), t1) \<and> hist t1 = hist t @ hist s"
proof -
  have "split ''exit'' = [''exit'']" "process_logical_operation ''exit'' = None"
    by (simp_all add: split_word no_logic)
  then have "andS (leave_shell (Some path) s) (\<lambda>_ s. (OK (), s)) = (r, s1)"
    using assms(1) by (simp add: logic_none exec_cmd_def vec_at_def)
  then have r: "r = Fault (Exit 0) \<and> files s1 path = Some (concat (map (\<lambda>l. l @ [NL]) (hist s)))"
  proof -
    let ?f = "(files s)(path \<mapsto> concat (map (\<lambda>l. l @ [NL]) (hist s)))"
    let ?u = "s\<lparr>files := ?f, answers := (\<lambda>i. answers s (Suc i))\<rparr>"
    obtain s' where s': "kill_zombies ?u = (OK (), s')" "files s' = files ?u" using kill_zombies_files by blast
    have "update_history path s = (OK (), ?u)" using assms(2) by (simp add: update_history_def ask_def)
    with s' \<open>andS (leave_shell (Some path) s) (\<lambda>_ s. (OK (), s)) = (r, s1)\<close> show ?thesis by (auto simp: leave_shell_def)
  qed
  have "map chomp (getlines (concat (map (\<lambda>l. l @ [NL]) (hist s)))) = hist s"
    using assms(3) by (subst getlines_concat) (auto simp: chomp_line intro!: map_idI)
  then show ?thesis using r assms(4-6) by (simp add: read_commands_from_history_def ask_def)
qed

theorem shell_history_roundtrip_witness:
  "\<exists>s1 t1. logic_exec 1 (Some ''h'') ''exit'' \<lparr>hist = [''ls'', ''cd x'', ''pwd''], bkgd = [], files = Map.empty, stdin = [], eof = False, answers = (\<lambda>_. 0), trace = []\<rparr> = (Fault (Exit 0), s1) \<and>
     read_commands_from_history (Some ''h'') (\<lparr>hist = [''ls'', ''cd x'', ''pwd''], bkgd = [], files = Map.empty, stdin = [], eof = False, answers = (\<lambda>_. 0), trace = []\<rparr>\<lparr>hist := [], files := files s1\<rparr>) = (OK (), t1) \<and>
     hist t1 = [''ls'', ''cd x'', ''pwd'']"
proof -
  let ?s = "\<lparr>hist = [''ls'', ''cd x'', ''pwd''], bkgd = [], files = Map.empty, stdin = [], eof = False, answers = (\<lambda>_. 0), trace = []\<rparr>"
  obtain r s1 where r: "logic_exec (Suc 0) (Some ''h'') ''exit'' ?s = (r, s1)" by (metis surj_pair)
  from shell_history_roundtrip [OF r, of "?s\<lparr>hist := [], files := files s1\<rparr>"]
  show ?thesis using r by (auto simp: NL_def NUL_def)
qed

text \<open>
  \<open>#n\<close> does exactly what the command number \<open>n\<close> of the history does when it is typed, and
  leaves no trace of itself.
\<close>

theorem rerun_by_number:
  assumes "n < length (hist s)" "int n \<le> INT_MAX" "\<not> eof s"
  shows "logic_exec (Suc k) hfile (CHR ''#'' # show_nat n) s = logic_exec k hfile (hist s ! n) s"
proof -
  let ?c = "CHR ''#'' # show_nat n"
  have chars: "CHR ''|'' \<notin> set (show_nat n)" "CHR ''&'' \<notin> set (show_nat n)" "CHR '';'' \<notin> set (show_nat n)" "CHR '' '' \<notin> set (show_nat n)"
    using show_nat_chars [of "CHR ''|''" n] show_nat_chars [of "CHR ''&''" n] show_nat_chars [of "CHR '';''" n]
      show_nat_chars [of "CHR '' ''" n] by auto
  then have "process_logical_operation ?c = None" by (intro no_logic) simp_all
  moreover have "split ?c = [?c]" using chars by (intro split_word) simp_all
  moreover have "exec_buildin run ?c (push_hist ?c s) = andS (run (hist s ! n) s) (\<lambda>_ s. (OK 0, s))" for run
    by (rule hash_buildin [OF assms(1,2)])
  ultimately show ?thesis using rerun_in_place [of "logic_exec k hfile" ?c s "hist s ! n" hfile]
    using assms(3) by (simp add: logic_none)
qed

theorem rerun_by_number_witness:
  "logic_exec (Suc 5) None (CHR ''#'' # show_nat 1) \<lparr>hist = [''ls'', ''cd x'', ''pwd''], bkgd = [], files = Map.empty, stdin = [], eof = False, answers = (\<lambda>_. 0), trace = []\<rparr> = logic_exec 5 None ''cd x'' \<lparr>hist = [''ls'', ''cd x'', ''pwd''], bkgd = [], files = Map.empty, stdin = [], eof = False, answers = (\<lambda>_. 0), trace = []\<rparr>"
  by (subst rerun_by_number) (simp_all add: INT_MAX_def)

text \<open>
  \<open>!p\<close> with a non-empty \<open>p\<close> does exactly what the last command of the history that starts
  with \<open>p\<close> does, and leaves no trace of itself.
\<close>

theorem rerun_by_prefix:
  assumes "p \<noteq> []" "hd (split (CHR ''!'' # p)) \<noteq> ''!history''" "process_logical_operation (CHR ''!'' # p) = None"
    and "i < length (hist s)" "take (length p) (hist s ! i) = p"
    and "\<And>j. i < j \<Longrightarrow> j < length (hist s) \<Longrightarrow> take (length p) (hist s ! j) \<noteq> p" and "\<not> eof s"
  shows "logic_exec (Suc k) hfile (CHR ''!'' # p) s = logic_exec k hfile (hist s ! i) s"
proof -
  obtain w ws where "split (CHR ''!'' # p) = (CHR ''!'' # w) # ws" using split_first [of "CHR ''!''" p] by simp
  moreover have "exec_buildin (logic_exec k hfile) (CHR ''!'' # p) (push_hist (CHR ''!'' # p) s) =
      andS (logic_exec k hfile (hist s ! i) s) (\<lambda>_ s. (OK 0, s))"
    by (rule bang_buildin [OF assms(1,2,4,5)]) (use assms(6) in simp)
  ultimately show ?thesis using assms(3,7) rerun_in_place [of "logic_exec k hfile" "CHR ''!'' # p" s "hist s ! i" hfile]
    by (simp add: logic_none)
qed

theorem rerun_by_prefix_witness:
  "logic_exec (Suc 5) None ''!cd'' \<lparr>hist = [''ls'', ''cd x'', ''pwd''], bkgd = [], files = Map.empty, stdin = [], eof = False, answers = (\<lambda>_. 0), trace = []\<rparr> = logic_exec 5 None ''cd x'' \<lparr>hist = [''ls'', ''cd x'', ''pwd''], bkgd = [], files = Map.empty, stdin = [], eof = False, answers = (\<lambda>_. 0), trace = []\<rparr>"
proof -
  have j: "j = 2" if "1 < j" "j < 3" for j :: nat using that by simp
  show ?thesis
    by (subst rerun_by_prefix [of "''cd''" 1]) (auto simp: split_word no_logic dest: j)
qed

text \<open>
  With \<open>&&\<close> the second command is run exactly when the result of the first is 0, with \<open>||\<close>
  exactly when it is not 0, and with \<open>;\<close> always; the whole line is one entry of the history.
\<close>

theorem logic_operators:
  assumes "opr \<in> {''&&'', ''||'', '';''}" "a \<noteq> []" "b \<noteq> []" "set a \<inter> set ''&|;'' = {}" "set b \<inter> set ''&|;'' = {}"
  shows "logic_exec (Suc n) hfile (a @ opr @ b) s =
    andS (exec_cmd (logic_exec n hfile) hfile a True (push_hist (a @ opr @ b) s)) (\<lambda>success s.
      if opr = ''&&'' \<and> success \<noteq> 0 \<or> opr = ''||'' \<and> success = 0 then (OK (), s)
      else andS (exec_cmd (logic_exec n hfile) hfile b True s) (\<lambda>_ s. (OK (), s)))"
proof -
  have "process_logical_operation (a @ opr @ b) = Some [opr, a, b]" using assms by (rule logic_parts)
  then show ?thesis by (simp add: logic_exec.simps(2) logic_body_def vec_at_def)
qed

theorem logic_operators_witness:
  "logic_exec (Suc 5) None (''ls '' @ ''&&'' @ '' pwd'') \<lparr>hist = [''ls'', ''cd x'', ''pwd''], bkgd = [], files = Map.empty, stdin = [], eof = False, answers = (\<lambda>_. 0), trace = []\<rparr> =
    andS (exec_cmd (logic_exec 5 None) None ''ls '' True (push_hist ''ls && pwd'' \<lparr>hist = [''ls'', ''cd x'', ''pwd''], bkgd = [], files = Map.empty, stdin = [], eof = False, answers = (\<lambda>_. 0), trace = []\<rparr>)) (\<lambda>success s.
      if success \<noteq> 0 then (OK (), s) else andS (exec_cmd (logic_exec 5 None) None '' pwd'' True s) (\<lambda>_ s. (OK (), s)))"
  by (subst logic_operators) simp_all

text \<open>
  C22: As long as no command of the history has a \<open>#\<close> or a \<open>!\<close> in it, every command comes to its
  end, whatever the system answers: its call of a command of the history is the only one.
\<close>

theorem shell_command_ends:
  assumes "\<forall>c \<in> set (hist s). CHR ''#'' \<notin> set c \<and> CHR ''!'' \<notin> set c"
  shows "fst (logic_exec (Suc (Suc n)) hfile cmd s) \<noteq> Fault Nonterminating"
  using ends_logic [of s n hfile cmd] assms by (simp add: ends_def plain_hist_def plain_def)

theorem shell_command_ends_witness:
  "fst (logic_exec (Suc (Suc 0)) None ''!p'' \<lparr>hist = [''ls'', ''cd x'', ''pwd''], bkgd = [], files = Map.empty, stdin = [], eof = False, answers = (\<lambda>_. 0), trace = []\<rparr>) \<noteq> Fault Nonterminating"
  by (rule shell_command_ends) auto

text \<open>A history file can have an entry that runs itself for ever.\<close>

lemma shell_history_loops:
  assumes "hist s \<noteq> []" "hist s ! 0 = ''#0;a''" "\<not> eof s"
  shows "fst (logic_exec n hfile ''#0;a'' s) = Fault Nonterminating"
proof (induction n)
  case (Suc n)
  have s0: "CHR ''#'' # show_nat 0 = ''#0''" by (simp add: show_nat.simps digit_def char_of_eq_iff)
  have "''#0;a'' = ''#0'' @ '';'' @ ''a''" by simp
  then have "process_logical_operation ''#0;a'' = Some ['';'', ''#0'', ''a'']" using logic_parts [of "'';''" "''#0''" "''a''"] by simp
  moreover have "exec_buildin (logic_exec n hfile) ''#0'' (push_hist ''#0;a'' s) = andS (logic_exec n hfile ''#0;a'' s) (\<lambda>_ s. (OK 0, s))"
    using hash_buildin [of 0 s "logic_exec n hfile" "''#0;a''"] assms by (simp add: s0 INT_MAX_def)
  moreover have "eof (push_hist c s) = eof s" for c by (simp add: push_hist_def)
  moreover obtain s' where "logic_exec n hfile ''#0;a'' s = (Fault Nonterminating, s')" using Suc by (metis fst_conv surj_pair)
  ultimately show ?case using assms(3) by (simp add: logic_exec.simps(2) logic_body_def vec_at_def exec_cmd_def split_word)
qed simp

end
