(* ===== verification/Scheduler.thy ===== *)
theory Scheduler
  imports Prelude
begin

text \<open>
  The scheduler of \<open>savvy_scheduler/libscheduler.c\<close>: six schemes that differ in the order of
  the waiting jobs and in whether a running job can be taken off. The times are of any ordered
  type with any operations of addition and subtraction, so that the model holds for the
  rounded arithmetic of \<open>double\<close> too. The priority queue is not in the repository; its
  operations are a parameter, and \<open>priqueue_ok\<close> says what the scheduler relies on.
\<close>

section \<open>The model\<close>

datatype scheme = FCFS | PRI | PPRI | PSRTF | RR | SJF | Other_Scheme

record 't job_info =
  job_id :: int
  priority :: int
  runtime :: 't
  arrival_time :: 't
  start_time :: 't
  end_time :: 't
  rr_time :: 't
  used_time :: 't

type_synonym 't comparer = "'t job_info \<Rightarrow> 't job_info \<Rightarrow> int"

text \<open>The operations of \<open>libpriqueue.h\<close> that the scheduler calls.\<close>

record ('t, 'q) priqueue_ops =
  priqueue_init :: "'t comparer \<Rightarrow> 'q"
  priqueue_offer :: "'q \<Rightarrow> 't job_info \<Rightarrow> 'q"
  priqueue_poll :: "'q \<Rightarrow> 't job_info option \<times> 'q"

record ('t, 'q) scheduler =
  pqueue :: 'q
  pqueue_scheme :: scheme
  job_count :: int
  total_wait_time :: 't
  total_turnaround_time :: 't
  total_response_time :: 't

definition comparer_fcfs :: "('t :: linorder) comparer" where
  "comparer_fcfs a b = (if arrival_time a < arrival_time b then - 1
     else if arrival_time b < arrival_time a then 1 else 0)"

definition break_tie :: "('t :: linorder) comparer" where
  "break_tie a b = comparer_fcfs a b"

definition comparer_pri :: "('t :: linorder) comparer" where
  "comparer_pri a b = (if priority a < priority b then - 1
     else if priority a > priority b then 1 else break_tie a b)"

definition comparer_ppri :: "('t :: linorder) comparer" where
  "comparer_ppri a b = comparer_pri a b"

definition comparer_psrtf :: "('t :: {linorder, minus}) comparer" where
  "comparer_psrtf a b = (let remain_a = runtime a - used_time a; remain_b = runtime b - used_time b in
     if remain_a < remain_b then - 1 else if remain_a > remain_b then 1 else break_tie a b)"

definition comparer_rr :: "('t :: linorder) comparer" where
  "comparer_rr a b = (if rr_time a < rr_time b then - 1 else if rr_time a > rr_time b then 1 else 0)"

definition comparer_sjf :: "('t :: linorder) comparer" where
  "comparer_sjf a b = (if runtime a < runtime b then - 1
     else if runtime b < runtime a then 1 else break_tie a b)"

fun comparision_func :: "scheme \<Rightarrow> ('t :: {linorder, minus}) comparer option" where
  "comparision_func FCFS = Some comparer_fcfs"
| "comparision_func PRI = Some comparer_pri"
| "comparision_func PPRI = Some comparer_ppri"
| "comparision_func PSRTF = Some comparer_psrtf"
| "comparision_func RR = Some comparer_rr"
| "comparision_func SJF = Some comparer_sjf"
| "comparision_func Other_Scheme = None"

definition scheduler_start_up :: "('t :: {linorder, minus, zero}, 'q) priqueue_ops \<Rightarrow> scheme \<Rightarrow> ('t, 'q) scheduler res" where
  "scheduler_start_up Q s = (case comparision_func s of
      None \<Rightarrow> Fault (Exit 1)
    | Some cmp \<Rightarrow> OK \<lparr>pqueue = priqueue_init Q cmp, pqueue_scheme = s, job_count = 0,
        total_wait_time = 0, total_turnaround_time = 0, total_response_time = 0\<rparr>)"

definition scheduler_new_job :: "('t :: zero, 'q) priqueue_ops \<Rightarrow> int \<Rightarrow> 't \<Rightarrow> int \<Rightarrow> 't \<Rightarrow> ('t, 'q) scheduler \<Rightarrow> ('t, 'q) scheduler" where
  "scheduler_new_job Q job_number time prio running_time s = (let jobinfo =
       \<lparr>job_id = job_number, priority = prio, runtime = running_time, arrival_time = time,
        start_time = 0, end_time = 0, rr_time = 0, used_time = 0\<rparr>
     in s\<lparr>pqueue := priqueue_offer Q (pqueue s) jobinfo\<rparr>)"

text \<open>The next job is taken from the queue and gets its times.\<close>

definition dispatch :: "'t :: zero \<Rightarrow> 't job_info \<Rightarrow> 't job_info" where
  "dispatch time j = (let j = (if used_time j = 0 then j\<lparr>start_time := time\<rparr> else j) in j\<lparr>rr_time := time\<rparr>)"

definition next_job :: "('t :: zero, 'q) priqueue_ops \<Rightarrow> 't \<Rightarrow> ('t, 'q) scheduler \<Rightarrow> 't job_info option \<times> ('t, 'q) scheduler" where
  "next_job Q time s = (let (j, q) = priqueue_poll Q (pqueue s) in (map_option (dispatch time) j, s\<lparr>pqueue := q\<rparr>))"

text \<open>The time of the slice that ends is added to what the job has used.\<close>

definition charge :: "'t :: {plus, minus} \<Rightarrow> 't job_info \<Rightarrow> 't job_info" where
  "charge time j = j\<lparr>used_time := used_time j + (time - rr_time j)\<rparr>"

fun preemptive :: "scheme \<Rightarrow> bool" where
  "preemptive PPRI = True"
| "preemptive PSRTF = True"
| "preemptive RR = True"
| "preemptive s = False"

definition scheduler_quantum_expired :: "('t :: {plus, minus, zero}, 'q) priqueue_ops \<Rightarrow> 't job_info option \<Rightarrow> 't \<Rightarrow>
    ('t, 'q) scheduler \<Rightarrow> 't job_info option \<times> ('t, 'q) scheduler" where
  "scheduler_quantum_expired Q job_evicted time s =
     (if preemptive (pqueue_scheme s)
      then next_job Q time (case job_evicted of None \<Rightarrow> s
        | Some j \<Rightarrow> s\<lparr>pqueue := priqueue_offer Q (pqueue s) (charge time j)\<rparr>)
      else (case job_evicted of None \<Rightarrow> next_job Q time s | Some j \<Rightarrow> (Some j, s)))"

definition scheduler_job_finished :: "'t job_info \<Rightarrow> 't :: {plus, minus} \<Rightarrow> ('t, 'q) scheduler \<Rightarrow> ('t, 'q) scheduler" where
  "scheduler_job_finished job_done time s = (let info = charge time (job_done\<lparr>end_time := time\<rparr>) in
     s\<lparr>total_response_time := total_response_time s + (start_time info - arrival_time info),
       total_turnaround_time := total_turnaround_time s + (end_time info - arrival_time info),
       total_wait_time := total_wait_time s + (end_time info - arrival_time info - runtime info),
       job_count := job_count s + 1\<rparr>)"

text \<open>\<open>to_double\<close> is the conversion of the number of jobs.\<close>

definition scheduler_average_waiting_time :: "(int \<Rightarrow> 't) \<Rightarrow> ('t :: inverse, 'q) scheduler \<Rightarrow> 't" where
  "scheduler_average_waiting_time to_double s = total_wait_time s / to_double (job_count s)"

definition scheduler_average_turnaround_time :: "(int \<Rightarrow> 't) \<Rightarrow> ('t :: inverse, 'q) scheduler \<Rightarrow> 't" where
  "scheduler_average_turnaround_time to_double s = total_turnaround_time s / to_double (job_count s)"

definition scheduler_average_response_time :: "(int \<Rightarrow> 't) \<Rightarrow> ('t :: inverse, 'q) scheduler \<Rightarrow> 't" where
  "scheduler_average_response_time to_double s = total_response_time s / to_double (job_count s)"

text \<open>
  The program around the scheduler: jobs arrive, a quantum ends, and the running job finishes.
  \<open>arrived\<close> and \<open>finished\<close> are the numbers of the jobs so far, and \<open>now\<close> is the clock.
\<close>

record ('t, 'q) machine =
  sched :: "('t, 'q) scheduler"
  running :: "'t job_info option"
  now :: 't
  arrived :: "int list"
  finished :: "'t job_info list"

inductive machine_step :: "('t :: {linorder, plus, minus, zero}, 'q) priqueue_ops \<Rightarrow> ('t, 'q) machine \<Rightarrow> ('t, 'q) machine \<Rightarrow> bool" for Q where
  Arrive: "now m \<le> t \<Longrightarrow> machine_step Q m (m\<lparr>now := t, arrived := arrived m @ [n],
    sched := scheduler_new_job Q n t prio rt (sched m)\<rparr>)"
| Quantum: "now m \<le> t \<Longrightarrow> scheduler_quantum_expired Q (running m) t (sched m) = (j, s) \<Longrightarrow>
    machine_step Q m (m\<lparr>now := t, running := j, sched := s\<rparr>)"
| Finish: "now m \<le> t \<Longrightarrow> running m = Some j \<Longrightarrow>
    machine_step Q m (m\<lparr>now := t, running := None, finished := finished m @ [j\<lparr>end_time := t\<rparr>],
      sched := scheduler_job_finished j t (sched m)\<rparr>)"

section \<open>Specification\<close>

text \<open>
  What a comparer must be for a priority queue to make sense: the two directions agree, and
  being not behind is transitive.
\<close>

definition consistent :: "'t comparer \<Rightarrow> bool" where
  "consistent cmp \<longleftrightarrow> (\<forall>a b. sgn (cmp a b) = - sgn (cmp b a)) \<and>
     (\<forall>a b c. cmp a b \<le> 0 \<longrightarrow> cmp b c \<le> 0 \<longrightarrow> cmp a c \<le> 0)"

text \<open>The documented behaviour of the queue; \<open>cmp_of\<close> is the comparer it was made with.\<close>

definition priqueue_ok :: "('t, 'q) priqueue_ops \<Rightarrow> ('q \<Rightarrow> 't job_info multiset) \<Rightarrow> ('q \<Rightarrow> 't comparer) \<Rightarrow> bool" where
  "priqueue_ok Q contents cmp_of \<longleftrightarrow>
     (\<forall>cmp. contents (priqueue_init Q cmp) = {#} \<and> cmp_of (priqueue_init Q cmp) = cmp) \<and>
     (\<forall>q j. contents (priqueue_offer Q q j) = add_mset j (contents q) \<and> cmp_of (priqueue_offer Q q j) = cmp_of q) \<and>
     (\<forall>q. contents q = {#} \<longrightarrow> priqueue_poll Q q = (None, q)) \<and>
     (\<forall>q. contents q \<noteq> {#} \<longrightarrow> consistent (cmp_of q) \<longrightarrow> (\<exists>j q'. priqueue_poll Q q = (Some j, q') \<and>
        contents q = add_mset j (contents q') \<and> cmp_of q' = cmp_of q \<and> (\<forall>i \<in># contents q'. cmp_of q j i \<le> 0)))"

definition sched_ok :: "('q \<Rightarrow> ('t :: {linorder, minus}) comparer) \<Rightarrow> ('t, 'q) scheduler \<Rightarrow> bool" where
  "sched_ok cmp_of s \<longleftrightarrow> comparision_func (pqueue_scheme s) = Some (cmp_of (pqueue s))"

text \<open>
  Every job that has arrived waits, runs or is finished, and the totals are those of the
  finished jobs in their order. A job was started no earlier than it arrived.
\<close>

definition jobs :: "('q \<Rightarrow> 't job_info multiset) \<Rightarrow> ('t, 'q) machine \<Rightarrow> 't job_info multiset" where
  "jobs contents m = contents (pqueue (sched m)) + (case running m of None \<Rightarrow> {#} | Some j \<Rightarrow> {#j#}) + mset (finished m)"

definition totals_ok :: "('t :: {plus, minus, zero}, 'q) machine \<Rightarrow> bool" where
  "totals_ok m \<longleftrightarrow> job_count (sched m) = int (length (finished m)) \<and>
     total_turnaround_time (sched m) = foldl (\<lambda>x j. x + (end_time j - arrival_time j)) 0 (finished m) \<and>
     total_wait_time (sched m) = foldl (\<lambda>x j. x + (end_time j - arrival_time j - runtime j)) 0 (finished m) \<and>
     total_response_time (sched m) = foldl (\<lambda>x j. x + (start_time j - arrival_time j)) 0 (finished m)"

definition waiting_times :: "'t :: {linorder, zero} \<Rightarrow> 't job_info \<Rightarrow> bool" where
  "waiting_times t j \<longleftrightarrow> arrival_time j \<le> t \<and> (used_time j \<noteq> 0 \<longrightarrow> arrival_time j \<le> start_time j \<and> start_time j \<le> t)"

definition running_times :: "'t :: linorder \<Rightarrow> 't job_info \<Rightarrow> bool" where
  "running_times t j \<longleftrightarrow> arrival_time j \<le> start_time j \<and> start_time j \<le> t"

definition machine_inv :: "('q \<Rightarrow> 't job_info multiset) \<Rightarrow> ('q \<Rightarrow> ('t :: {linorder, plus, minus, zero}) comparer) \<Rightarrow> ('t, 'q) machine \<Rightarrow> bool" where
  "machine_inv contents cmp_of m \<longleftrightarrow> sched_ok cmp_of (sched m) \<and>
     image_mset job_id (jobs contents m) = mset (arrived m) \<and> totals_ok m \<and>
     (\<forall>j \<in># contents (pqueue (sched m)). waiting_times (now m) j) \<and>
     (\<forall>j. running m = Some j \<longrightarrow> running_times (now m) j) \<and>
     (\<forall>j \<in> set (finished m). arrival_time j \<le> start_time j \<and> start_time j \<le> end_time j)"

section \<open>Lemmas\<close>

lemma consistent_fcfs: "consistent (comparer_fcfs :: ('t :: linorder) comparer)"
  unfolding consistent_def comparer_fcfs_def by (auto split: if_splits)

lemma consistent_rr: "consistent (comparer_rr :: ('t :: linorder) comparer)"
  unfolding consistent_def comparer_rr_def by (auto split: if_splits)

text \<open>A comparison by a key, with ties broken by the arrival.\<close>

lemma consistent_key:
  fixes cmp :: "('t :: linorder) comparer" and k :: "'t job_info \<Rightarrow> 'k :: linorder"
  assumes "\<And>a b. cmp a b = (if k a < k b then - 1 else if k b < k a then 1 else comparer_fcfs a b)"
  shows "consistent cmp"
  unfolding consistent_def assms comparer_fcfs_def by (auto split: if_splits)

lemma consistent_comparers:
  "comparision_func s = Some (cmp :: ('t :: {linorder, minus}) comparer) \<Longrightarrow> consistent cmp"
  by (cases s)
    (auto simp: consistent_fcfs consistent_rr comparer_pri_def comparer_ppri_def comparer_psrtf_def comparer_sjf_def break_tie_def Let_def
      intro: consistent_key [of _ priority] consistent_key [of _ runtime] consistent_key [of _ "\<lambda>j. runtime j - used_time j"])

lemma consistent_refl: "consistent cmp \<Longrightarrow> cmp a a = 0"
proof -
  assume "consistent cmp"
  then have "sgn (cmp a a) = - sgn (cmp a a)" unfolding consistent_def by blast
  then show ?thesis by (simp add: sgn_if split: if_splits)
qed

lemma poll_ok:
  assumes "priqueue_ok Q contents cmp_of" "sched_ok cmp_of s" "next_job Q t s = (r, s')"
  shows "(contents (pqueue s) = {#} \<and> r = None \<and> s' = s) \<or>
    (\<exists>j q. r = Some (dispatch t j) \<and> s' = s\<lparr>pqueue := q\<rparr> \<and> contents (pqueue s) = add_mset j (contents q) \<and> cmp_of q = cmp_of (pqueue s) \<and>
       (\<forall>i \<in># contents (pqueue s). cmp_of (pqueue s) j i \<le> 0))"
proof (cases "contents (pqueue s) = {#}")
  case True
  then have "priqueue_poll Q (pqueue s) = (None, pqueue s)" using assms(1) by (simp add: priqueue_ok_def)
  then show ?thesis using assms(3) True by (auto simp: next_job_def)
next
  case False
  have c: "consistent (cmp_of (pqueue s))" using assms(2) consistent_comparers by (auto simp: sched_ok_def)
  with False assms(1) obtain j q where "priqueue_poll Q (pqueue s) = (Some j, q)" "contents (pqueue s) = add_mset j (contents q)"
    "cmp_of q = cmp_of (pqueue s)" "\<forall>i \<in># contents q. cmp_of (pqueue s) j i \<le> 0"
    unfolding priqueue_ok_def by metis
  then show ?thesis using assms(3) consistent_refl [OF c, of j]
    by (intro disjI2 exI [of _ j] exI [of _ q]) (auto simp: next_job_def)
qed

lemma dispatch_fields [simp]:
  "job_id (dispatch t j) = job_id j" "arrival_time (dispatch t j) = arrival_time j" "runtime (dispatch t j) = runtime j"
  "start_time (dispatch t j) = (if used_time j = 0 then t else start_time j)"
  by (simp_all add: dispatch_def Let_def)

lemma charge_fields [simp]:
  "job_id (charge t j) = job_id j" "arrival_time (charge t j) = arrival_time j" "runtime (charge t j) = runtime j"
  "start_time (charge t j) = start_time j" "end_time (charge t j) = end_time j"
  by (simp_all add: charge_def)

lemma offer_ok:
  assumes "priqueue_ok Q contents cmp_of"
  shows "contents (priqueue_offer Q q j) = add_mset j (contents q)" "cmp_of (priqueue_offer Q q j) = cmp_of q"
  using assms by (simp_all add: priqueue_ok_def)

lemma waiting_times_mono: "t \<le> t' \<Longrightarrow> waiting_times t j \<Longrightarrow> waiting_times t' j"
  by (auto simp: waiting_times_def)

lemma running_times_mono: "t \<le> t' \<Longrightarrow> running_times t j \<Longrightarrow> running_times t' j"
  by (auto simp: running_times_def)

lemma dispatch_times: "waiting_times t j \<Longrightarrow> running_times t (dispatch t j)"
  by (auto simp: waiting_times_def running_times_def)

lemma charge_times: "running_times t j \<Longrightarrow> waiting_times t (charge t' j)"
  by (auto simp: waiting_times_def running_times_def)

lemma next_job_inv:
  assumes q: "priqueue_ok Q contents cmp_of" and s: "sched_ok cmp_of s" "next_job Q t s = (r, s')"
    and w: "\<forall>j \<in># contents (pqueue s). waiting_times t j"
  shows "sched_ok cmp_of s' \<and> (\<exists>q. s' = s\<lparr>pqueue := q\<rparr>) \<and>
    image_mset job_id (contents (pqueue s)) = image_mset job_id (contents (pqueue s') + (case r of None \<Rightarrow> {#} | Some j \<Rightarrow> {#j#})) \<and>
    (\<forall>j \<in># contents (pqueue s'). waiting_times t j) \<and> (\<forall>j. r = Some j \<longrightarrow> running_times t j)"
  using poll_ok [OF q s] s(1) w by (auto simp: sched_ok_def intro: dispatch_times exI [of _ "pqueue s"])

lemma quantum_inv:
  assumes q: "priqueue_ok Q contents cmp_of" and s: "sched_ok cmp_of s" "scheduler_quantum_expired Q e t s = (r, s')"
    and w: "\<forall>j \<in># contents (pqueue s). waiting_times t j" and e: "\<forall>j. e = Some j \<longrightarrow> running_times t j"
  shows "sched_ok cmp_of s' \<and> (\<exists>q. s' = s\<lparr>pqueue := q\<rparr>) \<and>
    image_mset job_id (contents (pqueue s) + (case e of None \<Rightarrow> {#} | Some j \<Rightarrow> {#j#})) =
    image_mset job_id (contents (pqueue s') + (case r of None \<Rightarrow> {#} | Some j \<Rightarrow> {#j#})) \<and>
    (\<forall>j \<in># contents (pqueue s'). waiting_times t j) \<and> (\<forall>j. r = Some j \<longrightarrow> running_times t j)"
proof (cases e)
  case None
  then have "next_job Q t s = (r, s')" using s(2) by (simp add: scheduler_quantum_expired_def split: if_splits)
  with next_job_inv [OF q s(1) this w] None show ?thesis by simp
next
  case (Some j)
  show ?thesis
  proof (cases "preemptive (pqueue_scheme s)")
    case True
    let ?s = "s\<lparr>pqueue := priqueue_offer Q (pqueue s) (charge t j)\<rparr>"
    have "sched_ok cmp_of ?s" using s(1) by (simp add: sched_ok_def offer_ok [OF q])
    moreover have "next_job Q t ?s = (r, s')" using s(2) True Some by (simp add: scheduler_quantum_expired_def)
    moreover have "\<forall>j \<in># contents (pqueue ?s). waiting_times t j" using w e Some by (auto simp: offer_ok [OF q] intro: charge_times)
    ultimately have "sched_ok cmp_of s' \<and> (\<exists>q. s' = ?s\<lparr>pqueue := q\<rparr>) \<and>
      image_mset job_id (contents (pqueue ?s)) = image_mset job_id (contents (pqueue s') + (case r of None \<Rightarrow> {#} | Some j \<Rightarrow> {#j#})) \<and>
      (\<forall>j \<in># contents (pqueue s'). waiting_times t j) \<and> (\<forall>j. r = Some j \<longrightarrow> running_times t j)"
      by (rule next_job_inv [OF q])
    then show ?thesis using Some by (auto simp: offer_ok [OF q])
  next
    case False
    then have "r = Some j" "s' = s" using s(2) Some by (simp_all add: scheduler_quantum_expired_def)
    then show ?thesis using s(1) w e Some by (auto intro: exI [of _ "pqueue s"])
  qed
qed

lemma machine_inv_step:
  assumes q: "priqueue_ok Q contents cmp_of"
  shows "machine_step Q m m' \<Longrightarrow> machine_inv contents cmp_of m \<Longrightarrow> machine_inv contents cmp_of m'"
proof (induction rule: machine_step.induct)
  case (Arrive m t n prio rt)
  have "\<forall>j \<in># contents (pqueue (sched m)). waiting_times t j" "\<forall>j. running m = Some j \<longrightarrow> running_times t j"
    using Arrive waiting_times_mono running_times_mono unfolding machine_inv_def by blast+
  then show ?case using Arrive
    by (auto simp: machine_inv_def scheduler_new_job_def Let_def offer_ok [OF q] sched_ok_def jobs_def totals_ok_def waiting_times_def)
next
  case (Quantum m t j s)
  have w: "\<forall>j \<in># contents (pqueue (sched m)). waiting_times t j" "\<forall>j. running m = Some j \<longrightarrow> running_times t j"
    using Quantum waiting_times_mono running_times_mono unfolding machine_inv_def by blast+
  have "sched_ok cmp_of (sched m)" using Quantum.prems by (simp add: machine_inv_def)
  from quantum_inv [OF q this Quantum.hyps(2) w] Quantum.prems
  show ?case by (auto simp: machine_inv_def jobs_def totals_ok_def)
next
  case (Finish m t j)
  have w: "\<forall>j \<in># contents (pqueue (sched m)). waiting_times t j" "running_times t j"
    using Finish waiting_times_mono running_times_mono unfolding machine_inv_def by blast+
  then show ?case using Finish
    by (auto simp: machine_inv_def scheduler_job_finished_def Let_def sched_ok_def jobs_def totals_ok_def running_times_def)
qed

text \<open>The machine at its start.\<close>

definition machine_start :: "('t, 'q) scheduler \<Rightarrow> 't \<Rightarrow> ('t, 'q) machine" where
  "machine_start s t = \<lparr>sched = s, running = None, now = t, arrived = [], finished = []\<rparr>"

lemma machine_inv_reachable:
  assumes q: "priqueue_ok Q contents cmp_of" and "scheduler_start_up Q sch = OK s"
    and "(machine_step Q)\<^sup>*\<^sup>* (machine_start s t) m"
  shows "machine_inv contents cmp_of m"
  using assms(3)
proof (induction rule: rtranclp_induct)
  case base
  have "contents (priqueue_init Q cmp) = {#}" "cmp_of (priqueue_init Q cmp) = cmp" for cmp using q by (simp_all add: priqueue_ok_def)
  then show ?case using assms(2)
    by (auto simp: machine_start_def machine_inv_def sched_ok_def jobs_def totals_ok_def scheduler_start_up_def split: option.splits)
next
  case (step m m')
  then show ?case using machine_inv_step [OF q] by blast
qed

section \<open>A queue\<close>

text \<open>A queue with the documented behaviour: a list from which the first of the smallest jobs is taken.\<close>

definition list_queue :: "('t, 't comparer \<times> 't job_info list) priqueue_ops" where
  "list_queue = \<lparr>priqueue_init = (\<lambda>cmp. (cmp, [])), priqueue_offer = (\<lambda>(cmp, js) j. (cmp, js @ [j])),
     priqueue_poll = (\<lambda>(cmp, js). case filter (\<lambda>j. list_all (\<lambda>i. cmp j i \<le> 0) js) js of
        [] \<Rightarrow> (None, (cmp, js))
      | j # _ \<Rightarrow> (Some j, (cmp, remove1 j js)))\<rparr>"

lemma consistent_minimum: "consistent cmp \<Longrightarrow> js \<noteq> [] \<Longrightarrow> \<exists>j \<in> set js. \<forall>i \<in> set js. cmp j i \<le> 0"
proof (induction js)
  case (Cons a js)
  show ?case
  proof (cases "js = []")
    case True
    then show ?thesis using Cons.prems by (simp add: consistent_refl)
  next
    case False
    with Cons obtain j where j: "j \<in> set js" "\<forall>i \<in> set js. cmp j i \<le> 0" by blast
    have t: "cmp x z \<le> 0" if "cmp x y \<le> 0" "cmp y z \<le> 0" for x y z using Cons.prems that unfolding consistent_def by blast
    have "sgn (cmp a j) = - sgn (cmp j a)" using Cons.prems unfolding consistent_def by blast
    then consider "cmp j a \<le> 0" | "cmp a j \<le> 0" by (auto simp: sgn_if split: if_splits)
    then show ?thesis
    proof cases
      case 1
      with j show ?thesis by auto
    next
      case 2
      with j t consistent_refl [OF Cons.prems(1), of a] show ?thesis by (intro bexI [of _ a]) auto
    qed
  qed
qed simp

lemma list_queue_ok: "priqueue_ok (list_queue :: ('t, 't comparer \<times> 't job_info list) priqueue_ops) (\<lambda>(cmp, js). mset js) fst"
proof -
  have p: "\<exists>j q'. priqueue_poll list_queue (cmp, js) = (Some j, q') \<and> mset js = add_mset j (mset (snd q')) \<and> fst q' = cmp \<and>
      (\<forall>i \<in># mset (snd q'). cmp j i \<le> 0)" if c: "consistent cmp" "js \<noteq> []" for cmp js
  proof -
    have "filter (\<lambda>j. list_all (\<lambda>i. cmp j i \<le> 0) js) js \<noteq> []"
      using consistent_minimum [OF c] by (auto simp: filter_empty_conv list_all_iff)
    then obtain j rest where f: "filter (\<lambda>j. list_all (\<lambda>i. cmp j i \<le> 0) js) js = j # rest" by (metis neq_Nil_conv)
    then have j: "j \<in> set js" "\<forall>i \<in> set js. cmp j i \<le> 0" by (auto simp: filter_eq_Cons_iff list_all_iff)
    have "\<forall>i \<in> set (remove1 j js). cmp j i \<le> 0" using j(2) set_remove1_subset [of j js] by blast
    with f j show ?thesis by (simp add: list_queue_def)
  qed
  have 4: "\<exists>j q'. priqueue_poll list_queue q = (Some j, q') \<and> mset (snd q) = add_mset j (mset (snd q')) \<and> fst q' = fst q \<and>
      (\<forall>i \<in># mset (snd q'). fst q j i \<le> 0)" if "consistent (fst q)" "mset (snd q) \<noteq> {#}" for q :: "'t comparer \<times> 't job_info list"
    using p [of "fst q" "snd q"] that by (simp del: split_paired_Ex)
  have 1: "mset (snd (priqueue_init list_queue cmp)) = {#}" "fst (priqueue_init list_queue cmp) = cmp" for cmp :: "'t comparer"
    by (simp_all add: list_queue_def)
  have 2: "mset (snd (priqueue_offer list_queue q j)) = add_mset j (mset (snd q))" "fst (priqueue_offer list_queue q j) = fst q"
    for q :: "'t comparer \<times> 't job_info list" and j
    by (simp_all add: list_queue_def split_beta)
  have 3: "priqueue_poll list_queue q = (None, q)" if "mset (snd q) = {#}" for q :: "'t comparer \<times> 't job_info list"
    using that by (cases q) (simp add: list_queue_def)
  show ?thesis unfolding priqueue_ok_def split_beta
    by (intro conjI allI impI) (rule 1 2 3 4; assumption)+
qed

section \<open>Properties\<close>

text \<open>
  C23: At the end of a quantum a scheme that cannot take a job off leaves the running job alone.
  Otherwise the job that runs next is one that no waiting job comes before in the order of the
  scheme, the job taken off with its new time included, and no job is lost; when nobody waits,
  nobody runs.
\<close>

theorem scheduler_picks_first:
  assumes "priqueue_ok Q contents cmp_of" "sched_ok cmp_of s" "scheduler_quantum_expired Q e t s = (r, s')"
    and "comparision_func (pqueue_scheme s) = Some cmp"
    and "waiting = contents (pqueue s) + (case e of None \<Rightarrow> {#} | Some j \<Rightarrow> {#charge t j#})"
  shows "if \<not> preemptive (pqueue_scheme s) \<and> e \<noteq> None then r = e \<and> s' = s
    else if waiting = {#} then r = None
    else \<exists>j. r = Some (dispatch t j) \<and> waiting = add_mset j (contents (pqueue s')) \<and> (\<forall>i \<in># waiting. cmp j i \<le> 0)"
proof -
  let ?s = "case e of None \<Rightarrow> s | Some j \<Rightarrow> s\<lparr>pqueue := priqueue_offer Q (pqueue s) (charge t j)\<rparr>"
  have 1: "sched_ok cmp_of ?s" "waiting = contents (pqueue ?s)" "cmp_of (pqueue ?s) = cmp"
    using assms(2,4,5) by (auto simp: sched_ok_def offer_ok [OF assms(1)] split: option.split)
  have "next_job Q t ?s = (r, s')" if "preemptive (pqueue_scheme s) \<or> e = None"
    using assms(3) that by (cases e; cases "preemptive (pqueue_scheme s)") (simp_all add: scheduler_quantum_expired_def)
  from poll_ok [OF assms(1) 1(1) this] 1(2,3) show ?thesis
    using assms(3) by (auto simp: scheduler_quantum_expired_def)
qed

definition two_jobs :: "(int, int comparer \<times> int job_info list) scheduler" where
  "two_jobs = \<lparr>pqueue = (comparer_sjf,
     [\<lparr>job_id = 1, priority = 0, runtime = 7, arrival_time = 1, start_time = 0, end_time = 0, rr_time = 0, used_time = 0\<rparr>,
      \<lparr>job_id = 2, priority = 0, runtime = 3, arrival_time = 2, start_time = 0, end_time = 0, rr_time = 0, used_time = 0\<rparr>]),
     pqueue_scheme = SJF, job_count = 0, total_wait_time = 0, total_turnaround_time = 0, total_response_time = 0\<rparr>"

theorem scheduler_picks_first_witness:
  "\<exists>j s'. scheduler_quantum_expired list_queue None 9 two_jobs = (Some (dispatch 9 j), s') \<and>
     (\<forall>i \<in># mset (snd (pqueue two_jobs)). comparer_sjf j i \<le> 0)"
proof -
  obtain r s' where r: "scheduler_quantum_expired list_queue None 9 two_jobs = (r, s')" by (metis surj_pair)
  have "sched_ok fst two_jobs" "comparision_func (pqueue_scheme two_jobs) = Some comparer_sjf" "pqueue_scheme two_jobs = SJF"
    by (simp_all add: sched_ok_def two_jobs_def)
  from scheduler_picks_first [OF list_queue_ok this(1) r this(2) refl] this(3)
  show ?thesis using r by (auto simp: two_jobs_def)
qed

text \<open>
  C24: In every run each job that arrived waits, runs or is finished, and is so once; the number of
  jobs and the three totals are those of the finished jobs, added up in the order they finished.
\<close>

theorem scheduler_accounts:
  assumes "priqueue_ok Q contents cmp_of" "scheduler_start_up Q sch = OK s" "(machine_step Q)\<^sup>*\<^sup>* (machine_start s t) m"
  shows "image_mset job_id (jobs contents m) = mset (arrived m) \<and> totals_ok m"
  using machine_inv_reachable [OF assms] by (simp add: machine_inv_def)

text \<open>One job that arrives at time 1, is started at 4 and finishes at 6.\<close>

definition one_run :: "(int, int comparer \<times> int job_info list) machine" where
  "one_run = \<lparr>sched = \<lparr>pqueue = (comparer_fcfs, []), pqueue_scheme = FCFS, job_count = 1,
       total_wait_time = 3, total_turnaround_time = 5, total_response_time = 3\<rparr>,
     running = None, now = 6, arrived = [7],
     finished = [\<lparr>job_id = 7, priority = 0, runtime = 2, arrival_time = 1, start_time = 4, end_time = 6, rr_time = 4, used_time = 0\<rparr>]\<rparr>"

lemma one_run_reachable:
  "\<exists>s. scheduler_start_up list_queue FCFS = OK s \<and> (machine_step list_queue)\<^sup>*\<^sup>* (machine_start s 0) one_run"
proof -
  let ?q = "\<lambda>js. \<lparr>pqueue = (comparer_fcfs :: int comparer, js), pqueue_scheme = FCFS, job_count = 0,
    total_wait_time = 0, total_turnaround_time = 0, total_response_time = 0\<rparr>"
  let ?j = "\<lambda>s r. \<lparr>job_id = 7, priority = 0, runtime = 2, arrival_time = 1, start_time = s, end_time = 0, rr_time = r, used_time = (0 :: int)\<rparr>"
  let ?m0 = "machine_start (?q []) 0" and ?m1 = "\<lparr>sched = ?q [?j 0 0], running = None, now = 1, arrived = [7], finished = []\<rparr>"
  let ?m2 = "\<lparr>sched = ?q [], running = Some (?j 4 4), now = 4, arrived = [7], finished = []\<rparr>"
  have "machine_step list_queue ?m0 ?m1"
    using machine_step.Arrive [of ?m0 1 list_queue 7 0 2]
    by (simp add: machine_start_def scheduler_new_job_def list_queue_def)
  moreover have "machine_step list_queue ?m1 ?m2"
    using machine_step.Quantum [of ?m1 4 list_queue "Some (?j 4 4)" "?q []"]
    by (simp add: scheduler_quantum_expired_def next_job_def list_queue_def dispatch_def comparer_fcfs_def)
  moreover have "machine_step list_queue ?m2 one_run"
    using machine_step.Finish [of ?m2 6 "?j 4 4" list_queue]
    by (simp add: one_run_def scheduler_job_finished_def charge_def)
  ultimately have "(machine_step list_queue)\<^sup>*\<^sup>* ?m0 one_run"
    by (meson converse_rtranclp_into_rtranclp rtranclp.rtrancl_refl)
  then show ?thesis by (simp add: scheduler_start_up_def list_queue_def)
qed

theorem scheduler_accounts_witness:
  "image_mset job_id (jobs (\<lambda>(cmp, js). mset js) one_run) = mset [7] \<and> totals_ok one_run"
proof -
  obtain s where "scheduler_start_up list_queue FCFS = OK s" "(machine_step list_queue)\<^sup>*\<^sup>* (machine_start s 0) one_run"
    using one_run_reachable by blast
  from scheduler_accounts [OF list_queue_ok this] show ?thesis by (simp add: one_run_def)
qed

text \<open>A finished job was started no earlier than it arrived, and ended no earlier than it was started.\<close>

theorem scheduler_times:
  assumes "priqueue_ok Q contents cmp_of" "scheduler_start_up Q sch = OK s" "(machine_step Q)\<^sup>*\<^sup>* (machine_start s t) m"
    and "j \<in> set (finished m)"
  shows "arrival_time j \<le> start_time j \<and> start_time j \<le> end_time j"
  using machine_inv_reachable [OF assms(1-3)] assms(4) by (simp add: machine_inv_def)

theorem scheduler_times_witness:
  "\<exists>j \<in> set (finished one_run). arrival_time j \<le> start_time j \<and> start_time j \<le> end_time j"
proof -
  obtain s where "scheduler_start_up list_queue FCFS = OK s" "(machine_step list_queue)\<^sup>*\<^sup>* (machine_start s 0) one_run"
    using one_run_reachable by blast
  from scheduler_times [OF list_queue_ok this, of "hd (finished one_run)"] show ?thesis
    by (intro bexI [of _ "hd (finished one_run)"]) (simp_all add: one_run_def)
qed

end
