(* ===== verification/Cracker.thy ===== *)
theory Cracker
  imports C_String
begin

text \<open>
  The first password cracker, \<open>password_cracker/cracker1.c\<close>: a thread takes a task from the
  queue and tries every completion of the known part of the password in alphabetical order.
  \<open>crypt_r\<close> and the functions of \<open>utils.h\<close>, which is not in the repository, are parameters.
\<close>

section \<open>The model\<close>

record task =
  username :: string
  hash :: string
  part_pwd :: string

text \<open>
  The functions of other files: \<open>crypt\<close> hashes with the salt \<open>xx\<close>, \<open>incr\<close> is
  \<open>incrementString\<close> with its result, and \<open>prefix_length\<close> is \<open>getPrefixLength\<close>.
\<close>

record cracker_utils =
  crypt :: "string \<Rightarrow> string"
  incr :: "string \<Rightarrow> string \<times> int"
  prefix_length :: "string \<Rightarrow> nat"

text \<open>A task from a line of the input; the arrays of a task have 9, 14 and 9 characters.\<close>

definition field :: "nat \<Rightarrow> string option \<Rightarrow> string res" where
  "field sz f = (case f of None \<Rightarrow> Fault Null_Deref
     | Some w \<Rightarrow> if length w < sz then OK w else Fault Out_Of_Bounds)"

definition read_task :: "string \<Rightarrow> task res" where
  "read_task line = (let t1 = strtok CHR '' '' (cstr (butlast line));
       t2 = (case t1 of None \<Rightarrow> None | Some (_, rest) \<Rightarrow> strtok CHR '' '' rest);
       t3 = (case t2 of None \<Rightarrow> None | Some (_, rest) \<Rightarrow> strtok CHR '' '' rest) in
     bindE (field 9 (map_option fst t1)) (\<lambda>u. bindE (field 14 (map_option fst t2)) (\<lambda>v.
     bindE (field 9 (map_option fst t3)) (\<lambda>p. OK \<lparr>username = u, hash = v, part_pwd = p\<rparr>))))"

text \<open>
  The \<open>do\<close> loop: the password or the null pointer, and the number of hashes, an \<open>int\<close> that is
  counted up behind each call of \<open>crypt_r\<close>.
\<close>

partial_function (option) search ::
    "cracker_utils \<Rightarrow> string \<Rightarrow> string \<Rightarrow> string \<Rightarrow> int \<Rightarrow> (string option \<times> int) res option" where
  "search u hashed_value final raw n = (if n = INT_MAX then Some (Fault Int_Overflow) else let n = n + 1 in
     if crypt u raw = hashed_value then Some (OK (Some raw, n))
     else if raw = final then Some (OK (None, n))
     else if snd (incr u raw) = 0 then Some (OK (None, n))
     else search u hashed_value final (fst (incr u raw)) n)"

definition fill_from :: "nat \<Rightarrow> char \<Rightarrow> string \<Rightarrow> string" where
  "fill_from prefix c s = take prefix s @ replicate (length s - prefix) c"

definition crack :: "cracker_utils \<Rightarrow> task \<Rightarrow> (string option \<times> int) res option" where
  "crack u t = (let prefix = prefix_length u (part_pwd t) in
     search u (hash t) (fill_from prefix CHR ''z'' (part_pwd t)) (fill_from prefix CHR ''a'' (part_pwd t)) 0)"

text \<open>
  The threads. \<open>Passing\<close> has taken the null pointer and not yet put it back. The lists of the
  results are in the order of the threads' ends of a task; \<open>finished\<close> collects these tasks.
\<close>

datatype worker = Pulling | Cracking task | Passing | Stopped

record pool =
  input :: "task list"
  closed :: bool
  work :: "task option list"
  workers :: "worker list"
  num_success :: "nat list"
  num_fail :: "nat list"
  finished :: "task list"

definition start_pool :: "nat \<Rightarrow> task list \<Rightarrow> pool" where
  "start_pool thread_count tasks = \<lparr>input = tasks, closed = False, work = [],
     workers = replicate thread_count Pulling, num_success = replicate thread_count 0,
     num_fail = replicate thread_count 0, finished = []\<rparr>"

definition pulled :: "nat \<Rightarrow> task option \<Rightarrow> task option list \<Rightarrow> pool \<Rightarrow> pool" where
  "pulled i w rest p = p\<lparr>work := rest,
     workers := (workers p)[i := (case w of None \<Rightarrow> Passing | Some t \<Rightarrow> Cracking t)]\<rparr>"

definition cracked :: "nat \<Rightarrow> task \<Rightarrow> string option \<Rightarrow> pool \<Rightarrow> pool" where
  "cracked i t password p = (let p = p\<lparr>workers := (workers p)[i := Pulling], finished := finished p @ [t]\<rparr> in
     if password = None then p\<lparr>num_fail := (num_fail p)[i := num_fail p ! i + 1]\<rparr>
     else p\<lparr>num_success := (num_success p)[i := num_success p ! i + 1]\<rparr>)"

inductive pool_step :: "cracker_utils \<Rightarrow> pool \<Rightarrow> pool \<Rightarrow> bool" for u where
  Read: "input p = t # ts \<Longrightarrow> pool_step u p (p\<lparr>input := ts, work := work p @ [Some t]\<rparr>)"
| Close: "input p = [] \<Longrightarrow> \<not> closed p \<Longrightarrow> pool_step u p (p\<lparr>closed := True, work := work p @ [None]\<rparr>)"
| Pull: "i < length (workers p) \<Longrightarrow> workers p ! i = Pulling \<Longrightarrow> work p = w # rest \<Longrightarrow> pool_step u p (pulled i w rest p)"
| Crack: "i < length (workers p) \<Longrightarrow> workers p ! i = Cracking t \<Longrightarrow> crack u t = Some (OK (password, n)) \<Longrightarrow>
    pool_step u p (cracked i t password p)"
| Pass: "i < length (workers p) \<Longrightarrow> workers p ! i = Passing \<Longrightarrow>
    pool_step u p (p\<lparr>work := work p @ [None], workers := (workers p)[i := Stopped]\<rparr>)"

text \<open>What \<open>start\<close> prints after it has joined all threads.\<close>

definition summary :: "pool \<Rightarrow> nat \<times> nat" where
  "summary p = (sum_list (num_success p), sum_list (num_fail p))"

section \<open>Specification\<close>

text \<open>The words of \<open>n\<close> small letters in alphabetical order.\<close>

primrec letters :: "nat \<Rightarrow> nat \<Rightarrow> string" where
  "letters 0 k = []"
| "letters (Suc n) k = char_of (97 + k div 26 ^ n) # letters n (k mod 26 ^ n)"

text \<open>
  The documented behaviour: \<open>getPrefixLength\<close> counts the characters before the first dot, and
  \<open>incrementString\<close> goes on to the next word.
\<close>

definition utils_ok :: "cracker_utils \<Rightarrow> bool" where
  "utils_ok u \<longleftrightarrow> (\<forall>s. prefix_length u s = length (takeWhile (\<lambda>c. c \<noteq> CHR ''.'') s)) \<and>
     (\<forall>p n k. Suc k < 26 ^ n \<longrightarrow> fst (incr u (p @ letters n k)) = p @ letters n (Suc k) \<and> snd (incr u (p @ letters n k)) \<noteq> 0)"

definition known :: "task \<Rightarrow> string" where
  "known t = takeWhile (\<lambda>c. c \<noteq> CHR ''.'') (part_pwd t)"

definition unknown :: "task \<Rightarrow> nat" where
  "unknown t = length (part_pwd t) - length (known t)"

text \<open>The candidates that can be hashed before the count overflows.\<close>

definition tries :: "task \<Rightarrow> nat" where
  "tries t = min (26 ^ unknown t) (nat INT_MAX)"

definition candidate :: "task \<Rightarrow> nat \<Rightarrow> string" where
  "candidate t k = known t @ letters (unknown t) k"

section \<open>Lemmas\<close>

lemma length_letters [simp]: "length (letters n k) = n"
  by (induction n arbitrary: k) simp_all

lemma letters_0: "letters n 0 = replicate n CHR ''a''"
  by (induction n) (simp_all add: char_of_eq_iff)

lemma letters_last: "letters n (26 ^ n - 1) = replicate n CHR ''z''"
proof (induction n)
  case (Suc n)
  define N :: nat where "N = 26 ^ n"
  have p: "0 < N" "26 ^ Suc n - 1 = N - 1 + 25 * N" by (simp_all add: N_def)
  have "(N - 1 + 25 * N) div N = 25" by (rule div_nat_eqI) (use p(1) in \<open>cases N; simp\<close>)+
  moreover have "(N - 1 + 25 * N) mod N = N - 1" by (subst mod_mult_self1) (use p(1) in simp)
  ultimately have "letters (Suc n) (26 ^ Suc n - 1) = char_of (122 :: nat) # letters n (N - 1)"
    unfolding p(2) by (simp add: N_def)
  then show ?case using Suc by (simp add: N_def char_of_eq_iff)
qed simp

lemma letters_inj: "j < 26 ^ n \<Longrightarrow> k < 26 ^ n \<Longrightarrow> letters n j = letters n k \<Longrightarrow> j = k"
proof (induction n arbitrary: j k)
  case (Suc n)
  have p: "(0 :: nat) < 26 ^ n" by simp
  have d: "i div 26 ^ n < 26" if "i < 26 ^ Suc n" for i :: nat using that by (simp add: less_mult_imp_div_less)
  have "of_char (char_of (97 + j div 26 ^ n)) = (of_char (char_of (97 + k div 26 ^ n)) :: nat)"
    using Suc.prems(3) by simp
  then have q: "j div 26 ^ n = k div 26 ^ n" using d [OF Suc.prems(1)] d [OF Suc.prems(2)] by simp
  have "j mod 26 ^ n = k mod 26 ^ n" by (rule Suc.IH) (use Suc.prems(3) p in simp_all)
  with q show ?case by (metis div_mult_mod_eq)
qed simp

lemma length_known: "length (known t) \<le> length (part_pwd t)"
  by (simp add: known_def length_takeWhile_le)

lemma fill_known:
  assumes "utils_ok u"
  shows "fill_from (prefix_length u (part_pwd t)) c (part_pwd t) = known t @ replicate (unknown t) c"
proof -
  have "prefix_length u (part_pwd t) = length (known t)" using assms by (simp add: utils_ok_def known_def)
  moreover have "take (length (known t)) (part_pwd t) = known t" by (metis known_def takeWhile_eq_take)
  ultimately show ?thesis by (simp add: fill_from_def unknown_def)
qed

lemma of_nat_INT_MAX: "int n \<le> INT_MAX \<longleftrightarrow> n \<le> nat INT_MAX" "int (nat INT_MAX) = INT_MAX"
  by (simp_all add: INT_MAX_def)

lemma search_from:
  assumes u: "utils_ok u" and "k < 26 ^ unknown t" "k \<le> nat INT_MAX" "\<forall>j < k. crypt u (candidate t j) \<noteq> h"
  shows "\<exists>j. search u h (candidate t (26 ^ unknown t - 1)) (candidate t k) (int k) =
      Some (if j < tries t then OK (Some (candidate t j), int j + 1)
        else if 26 ^ unknown t \<le> nat INT_MAX then OK (None, 26 ^ unknown t) else Fault Int_Overflow) \<and>
    (\<forall>i < min j (tries t). crypt u (candidate t i) \<noteq> h) \<and> (j < tries t \<longrightarrow> crypt u (candidate t j) = h)"
  using assms(2-4)
proof (induction "26 ^ unknown t - k" arbitrary: k rule: less_induct)
  case less
  let ?N = "26 ^ unknown t :: nat"
  have max: "int k = INT_MAX \<longleftrightarrow> k = nat INT_MAX" using of_nat_INT_MAX(2) by auto
  consider "k = nat INT_MAX" | "k < nat INT_MAX" "crypt u (candidate t k) = h"
    | "k < nat INT_MAX" "crypt u (candidate t k) \<noteq> h" "Suc k = ?N" | "k < nat INT_MAX" "crypt u (candidate t k) \<noteq> h" "Suc k < ?N"
    using less.prems(1,2) by linarith
  then show ?case
  proof cases
    case 1
    then have "search u h (candidate t (?N - 1)) (candidate t k) (int k) = Some (Fault Int_Overflow)"
      using of_nat_INT_MAX(2) by (subst search.simps) simp
    then show ?thesis using 1 less.prems by (intro exI [of _ k]) (simp add: tries_def)
  next
    case 2
    then have "search u h (candidate t (?N - 1)) (candidate t k) (int k) = Some (OK (Some (candidate t k), int k + 1))"
      by (subst search.simps) (simp add: max Let_def)
    then show ?thesis using 2 less.prems by (intro exI [of _ k]) (simp add: tries_def)
  next
    case 3
    then have "candidate t k = candidate t (?N - 1)" by (metis diff_Suc_1)
    moreover have "\<forall>i < ?N. crypt u (candidate t i) \<noteq> h" using 3 less.prems(3) by (metis less_Suc_eq)
    moreover have "int k + 1 = int ?N" using 3 by linarith
    moreover have "search u h (candidate t (?N - 1)) (candidate t k) (int k) = Some (OK (None, int k + 1))"
      using 3 calculation(1) by (subst search.simps) (simp add: max Let_def)
    ultimately show ?thesis using 3 by (intro exI [of _ ?N]) (simp add: tries_def)
  next
    case 4
    have "candidate t k \<noteq> candidate t (?N - 1)" using 4 letters_inj [of k "unknown t" "?N - 1"] by (auto simp: candidate_def)
    moreover have "fst (incr u (candidate t k)) = candidate t (Suc k)" "snd (incr u (candidate t k)) \<noteq> 0"
      using u 4 by (simp_all add: utils_ok_def candidate_def)
    ultimately have e: "search u h (candidate t (?N - 1)) (candidate t k) (int k) =
        search u h (candidate t (?N - 1)) (candidate t (Suc k)) (int (Suc k))"
      using 4 by (subst search.simps) (simp add: max Let_def add.commute)
    have "?N - Suc k < ?N - k" using less.prems(1) by simp
    moreover have "\<forall>j < Suc k. crypt u (candidate t j) \<noteq> h" using 4 less.prems(3) by (metis less_Suc_eq)
    ultimately show ?thesis unfolding e using 4 by (intro less.hyps) simp_all
  qed
qed

section \<open>The threads\<close>

fun doing :: "worker \<Rightarrow> task list" where
  "doing (Cracking t) = [t]"
| "doing w = []"

fun tasks_of :: "task option list \<Rightarrow> task list" where
  "tasks_of [] = []"
| "tasks_of (Some t # ws) = t # tasks_of ws"
| "tasks_of (None # ws) = tasks_of ws"

definition found :: "cracker_utils \<Rightarrow> task \<Rightarrow> bool" where
  "found u t \<longleftrightarrow> (\<exists>k < 26 ^ unknown t. crypt u (candidate t k) = hash t)"

definition counts_ok :: "cracker_utils \<Rightarrow> pool \<Rightarrow> bool" where
  "counts_ok u p \<longleftrightarrow> length (num_success p) = length (workers p) \<and> length (num_fail p) = length (workers p) \<and>
     sum_list (num_success p) = length (filter (found u) (finished p)) \<and>
     sum_list (num_fail p) = length (filter (\<lambda>t. \<not> found u t) (finished p))"

text \<open>
  The null pointer is in the queue behind all tasks, or with one thread that passes it on; a
  thread has stopped only when there are no tasks any more.
\<close>

definition null_ok :: "pool \<Rightarrow> bool" where
  "null_ok p \<longleftrightarrow> (if \<not> closed p then None \<notin> set (work p) \<and> Passing \<notin> set (workers p) \<and> Stopped \<notin> set (workers p)
     else input p = [] \<and>
       (Passing \<notin> set (workers p) \<and> (\<exists>ts. work p = map Some ts @ [None] \<and> (Stopped \<in> set (workers p) \<longrightarrow> ts = [])) \<or>
        work p = [] \<and> (\<exists>i < length (workers p). workers p ! i = Passing \<and> (\<forall>j < length (workers p). j \<noteq> i \<longrightarrow> workers p ! j \<noteq> Passing))))"

definition pool_inv :: "cracker_utils \<Rightarrow> task list \<Rightarrow> nat \<Rightarrow> pool \<Rightarrow> bool" where
  "pool_inv u tasks n p \<longleftrightarrow> length (workers p) = n \<and>
     mset tasks = mset (input p) + mset (tasks_of (work p)) + mset (concat (map doing (workers p))) + mset (finished p) \<and>
     counts_ok u p \<and> null_ok p"

lemma tasks_of_append [simp]: "tasks_of (ws @ vs) = tasks_of ws @ tasks_of vs"
  by (induction ws rule: tasks_of.induct) simp_all

lemma tasks_of_map_Some [simp]: "tasks_of (map Some ts) = ts"
  by (induction ts) simp_all

lemma doing_update:
  assumes "i < length ws"
  shows "mset (concat (map doing (ws[i := w]))) + mset (doing (ws ! i)) = mset (concat (map doing ws)) + mset (doing w)"
  using assms
proof (induction ws arbitrary: i)
  case (Cons v ws)
  then show ?case by (cases i) simp_all
qed simp

lemma sum_list_incr: "i < length ns \<Longrightarrow> sum_list (ns[i := ns ! i + 1]) = sum_list ns + (1 :: nat)"
proof (induction ns arbitrary: i)
  case (Cons n ns)
  then show ?case by (cases i) simp_all
qed simp

lemma set_update_mem: "i < length xs \<Longrightarrow> y \<in> set (xs[i := x]) \<longleftrightarrow> y = x \<or> (\<exists>j < length xs. j \<noteq> i \<and> xs ! j = y)"
  by (auto simp: in_set_conv_nth nth_list_update)

lemma no_null: "None \<notin> set ws \<Longrightarrow> ws = map Some (tasks_of ws)"
  by (induction ws rule: tasks_of.induct) simp_all

lemma first_null: "map Some ts @ [None] = w # rest \<longleftrightarrow>
    ts = [] \<and> w = None \<and> rest = [] \<or> (\<exists>t ts'. ts = t # ts' \<and> w = Some t \<and> rest = map Some ts' @ [None])"
  by (cases ts) auto

lemma null_ok_step: "pool_step u p p' \<Longrightarrow> null_ok p \<Longrightarrow> null_ok p'"
proof (induction rule: pool_step.induct)
  case (Read p t ts)
  then show ?case by (auto simp: null_ok_def split: if_splits)
next
  case (Close p)
  then have n: "None \<notin> set (work p)" "Passing \<notin> set (workers p)" "Stopped \<notin> set (workers p)" by (auto simp: null_ok_def)
  from no_null [OF n(1)] n(2,3) Close.hyps show ?case by (auto simp: null_ok_def)
next
  case (Pull i p w rest)
  show ?case
  proof (cases "closed p")
    case False
    then obtain t where "w = Some t" using Pull by (cases w) (auto simp: null_ok_def)
    with False Pull show ?thesis by (auto simp: null_ok_def pulled_def in_set_conv_nth nth_list_update split: option.splits if_splits)
  next
    case True
    then obtain ts where ts: "Passing \<notin> set (workers p)" "map Some ts @ [None] = w # rest" "Stopped \<in> set (workers p) \<longrightarrow> ts = []" "input p = []"
      using Pull by (auto simp: null_ok_def)
    from ts(2) [unfolded first_null] show ?thesis
    proof (elim disjE exE conjE)
      assume "ts = []" "w = None" "rest = []"
      with True ts Pull.hyps show ?thesis
        by (auto simp: null_ok_def pulled_def in_set_conv_nth nth_list_update intro!: exI [of _ i])
    next
      fix t ts' assume "ts = t # ts'" "w = Some t" "rest = map Some ts' @ [None]"
      with True ts Pull.hyps show ?thesis by (auto simp: null_ok_def pulled_def in_set_conv_nth nth_list_update split: if_splits)
    qed
  qed
next
  case (Crack i p t password n)
  let ?ws = "(workers p)[i := Pulling]"
  have n: "?ws ! j = x \<longleftrightarrow> workers p ! j = x" if "x = Passing \<or> x = Stopped" for j x
    using Crack.hyps that by (cases "j = i") auto
  then have s: "x \<in> set ?ws \<longleftrightarrow> x \<in> set (workers p)" if "x = Passing \<or> x = Stopped" for x
    using that by (simp add: in_set_conv_nth)
  have "null_ok (p\<lparr>workers := ?ws\<rparr>)" using Crack.prems by (auto simp: null_ok_def s n)
  then show ?case by (auto simp: null_ok_def cracked_def Let_def)
next
  case (Pass i p)
  then have "Passing \<in> set (workers p)" by (metis nth_mem)
  with Pass obtain k where k: "closed p" "input p = []" "work p = []" "k < length (workers p)"
    "\<forall>j < length (workers p). j \<noteq> k \<longrightarrow> workers p ! j \<noteq> Passing" by (auto simp: null_ok_def split: if_splits)
  then have "k = i" using Pass.hyps by auto
  with k Pass.hyps show ?case by (auto simp: null_ok_def set_update_mem)
qed

lemma find_eq_candidates:
  assumes "utils_ok u"
  shows "crack u t = Some (case find (\<lambda>k. crypt u (candidate t k) = hash t) [0..<tries t] of
      Some k \<Rightarrow> OK (Some (candidate t k), int k + 1)
    | None \<Rightarrow> if 26 ^ unknown t \<le> nat INT_MAX then OK (None, 26 ^ unknown t) else Fault Int_Overflow)"
proof -
  let ?N = "26 ^ unknown t :: nat" and ?P = "\<lambda>k. crypt u (candidate t k) = hash t"
  have ends: "candidate t 0 = known t @ replicate (unknown t) CHR ''a''" "candidate t (?N - 1) = known t @ replicate (unknown t) CHR ''z''"
    by (simp_all only: candidate_def letters_0 letters_last)
  obtain j where j: "search u (hash t) (candidate t (?N - 1)) (candidate t 0) 0 =
      Some (if j < tries t then OK (Some (candidate t j), int j + 1)
        else if ?N \<le> nat INT_MAX then OK (None, 26 ^ unknown t) else Fault Int_Overflow)"
    "\<forall>i < min j (tries t). \<not> ?P i" "j < tries t \<longrightarrow> ?P j"
    using search_from [OF assms, of 0 t "hash t"] by auto
  have c: "crack u t = search u (hash t) (candidate t (?N - 1)) (candidate t 0) 0"
    unfolding ends by (simp add: crack_def Let_def fill_known [OF assms])
  have "find ?P [0..<tries t] = (if j < tries t then Some j else None)"
    using j(2,3) by (auto simp: find_Some_iff find_None_iff intro!: exI [of _ j])
  then show ?thesis unfolding c j(1) by simp
qed

lemma crack_found:
  assumes "utils_ok u" "crack u t = Some (OK (password, n))"
  shows "password = None \<longleftrightarrow> \<not> found u t"
proof (cases "find (\<lambda>k. crypt u (candidate t k) = hash t) [0..<tries t]")
  case None
  then have "26 ^ unknown t \<le> nat INT_MAX" "password = None"
    using assms(2) by (auto simp: find_eq_candidates [OF assms(1)] split: if_splits)
  then show ?thesis using None by (auto simp: find_None_iff found_def tries_def)
next
  case (Some k)
  then have "password = Some (candidate t k)" using assms(2) by (simp add: find_eq_candidates [OF assms(1)])
  moreover have "found u t" using Some by (auto simp: find_Some_iff found_def tries_def)
  ultimately show ?thesis by simp
qed

lemma pool_inv_step:
  assumes u: "utils_ok u"
  shows "pool_step u p p' \<Longrightarrow> pool_inv u tasks n p \<Longrightarrow> pool_inv u tasks n p'"
proof -
  assume step: "pool_step u p p'" and inv: "pool_inv u tasks n p"
  have "null_ok p'" using null_ok_step [OF step] inv by (simp add: pool_inv_def)
  moreover have "length (workers p') = n \<and> counts_ok u p' \<and>
    mset tasks = mset (input p') + mset (tasks_of (work p')) + mset (concat (map doing (workers p'))) + mset (finished p')"
    using step inv
  proof (induction rule: pool_step.induct)
    case (Pull i p w rest)
    then show ?case
      using doing_update [of i "workers p" Passing] doing_update [of i "workers p" "Cracking (the w)"]
      by (cases w) (auto simp: pool_inv_def pulled_def counts_ok_def)
  next
    case (Crack i p t password k)
    then show ?case using doing_update [of i "workers p" Pulling] crack_found [OF u Crack.hyps(3)]
        sum_list_incr [of i "num_success p"] sum_list_incr [of i "num_fail p"]
      by (auto simp: pool_inv_def cracked_def counts_ok_def Let_def)
  next
    case (Pass i p)
    then show ?case using doing_update [of i "workers p" Stopped] by (auto simp: pool_inv_def counts_ok_def)
  qed (auto simp: pool_inv_def counts_ok_def)
  ultimately show ?thesis by (simp add: pool_inv_def)
qed

lemma pool_inv_reachable:
  assumes "utils_ok u" "(pool_step u)\<^sup>*\<^sup>* (start_pool n tasks) p"
  shows "pool_inv u tasks n p"
  using assms(2)
proof (induction rule: rtranclp_induct)
  case base
  have "concat (map doing (replicate n Pulling)) = []" by (induction n) simp_all
  then show ?case by (auto simp: start_pool_def pool_inv_def counts_ok_def null_ok_def sum_list_replicate)
next
  case (step p p')
  then show ?case using pool_inv_step [OF assms(1)] by blast
qed

section \<open>An instance\<close>

text \<open>Functions with the documented behaviour: the next word, with carries, and no encryption at all.\<close>

fun next_rev :: "string \<Rightarrow> string \<times> int" where
  "next_rev [] = ([], 0)"
| "next_rev (c # cs) = (if c = CHR ''z'' then (CHR ''a'' # fst (next_rev cs), snd (next_rev cs))
     else (char_of (of_char c + 1 :: nat) # cs, 1))"

definition plain_utils :: cracker_utils where
  "plain_utils = \<lparr>crypt = (\<lambda>s. s), incr = (\<lambda>s. (rev (fst (next_rev (rev s))), snd (next_rev (rev s)))),
     prefix_length = (\<lambda>s. length (takeWhile (\<lambda>c. c \<noteq> CHR ''.'') s))\<rparr>"

lemma letters_snoc: "k < 26 ^ Suc n \<Longrightarrow> letters (Suc n) k = letters n (k div 26) @ [char_of (97 + k mod 26)]"
proof (induction n arbitrary: k)
  case (Suc n)
  define N :: nat where "N = 26 ^ n"
  have N: "0 < N" "26 ^ Suc n = 26 * N" by (simp_all add: N_def)
  have k: "k < 26 * (26 * N)" using Suc.prems by (simp add: N_def)
  have 1: "k mod (26 * N) mod 26 = k mod 26" "k mod (26 * N) div 26 = k div 26 mod N" "k div (26 * N) = k div 26 div N"
    by (simp_all add: mod_mult2_eq div_mult2_eq mod_mod_cancel)
  have A: "letters (Suc (Suc n)) k = char_of (97 + k div (26 * N)) # letters (Suc n) (k mod (26 * N))"
    by (simp only: letters.simps(2) [of "Suc n" k] N(2))
  have B: "letters (Suc n) (k mod (26 * N)) = letters n (k mod (26 * N) div 26) @ [char_of (97 + k mod (26 * N) mod 26)]"
    by (rule Suc.IH) (simp only: N(2), use N(1) in simp)
  have C: "letters (Suc n) (k div 26) = char_of (97 + k div 26 div N) # letters n (k div 26 mod N)"
    by (simp only: letters.simps(2) N_def)
  show ?case by (simp only: A B C 1 append_Cons)
qed simp

lemma char_a: "char_of (97 :: nat) = CHR ''a''" and char_z: "char_of (122 :: nat) = CHR ''z''"
  by (simp_all add: char_of_eq_iff)

lemma next_letters: "Suc k < 26 ^ n \<Longrightarrow> next_rev (rev (letters n k) @ p) = (rev (letters n (Suc k)) @ p, 1)"
proof (induction n arbitrary: k)
  case (Suc n)
  have k: "letters (Suc n) k = letters n (k div 26) @ [char_of (97 + k mod 26)]"
    "letters (Suc n) (Suc k) = letters n (Suc k div 26) @ [char_of (97 + Suc k mod 26)]"
    using Suc.prems by (simp_all only: letters_snoc Suc_lessD)
  have m: "k mod 26 < 26" by simp
  show ?case
  proof (cases "k mod 26 = 25")
    case True
    then have d: "Suc k div 26 = Suc (k div 26)" "Suc k mod 26 = 0" by (simp_all add: div_Suc mod_Suc)
    have "Suc (k div 26) < 26 ^ n" using Suc.prems d(1) by (metis less_mult_imp_div_less mult.commute power_Suc)
    from Suc.IH [OF this] show ?thesis unfolding k using True d by (simp add: char_a char_z del: letters.simps)
  next
    case False
    then have d: "Suc k div 26 = k div 26" "Suc k mod 26 = Suc (k mod 26)" by (simp_all add: div_Suc mod_Suc)
    have o: "(of_char (char_of (97 + k mod 26) :: char) :: nat) = 97 + k mod 26" using m by simp
    have "char_of (97 + k mod 26) \<noteq> CHR ''z''"
    proof
      assume "char_of (97 + k mod 26) = CHR ''z''"
      then have "(of_char (char_of (97 + k mod 26) :: char) :: nat) = of_char (CHR ''z'')" by (simp only:)
      then show False using False unfolding o by simp
    qed
    with o show ?thesis unfolding k using d by (simp del: letters.simps)
  qed
qed simp

lemma plain_utils_ok: "utils_ok plain_utils"
  using next_letters [of _ _ "rev _"] by (auto simp: utils_ok_def plain_utils_def)

definition one_task :: task where
  "one_task = \<lparr>username = ''ann'', hash = ''xc'', part_pwd = ''x.''\<rparr>"

section \<open>Properties\<close>

text \<open>
  C26: A task gives the first of the completions in alphabetical order whose hash is that of the
  task, and the number of hashes that were computed up to it, or after all completions the null
  pointer; so the search always comes to an end. Only the first $2^{31} - 1$ completions are hashed:
  where there are more of them and none of these has the hash, the count of the hashes overflows.
\<close>

theorem crack_finds_first:
  assumes "utils_ok u"
  shows "crack u t = Some (case find (\<lambda>k. crypt u (candidate t k) = hash t) [0..<tries t] of
      Some k \<Rightarrow> OK (Some (candidate t k), int k + 1)
    | None \<Rightarrow> if 26 ^ unknown t \<le> nat INT_MAX then OK (None, 26 ^ unknown t) else Fault Int_Overflow)"
  by (rule find_eq_candidates [OF assms])

theorem crack_finds_first_witness: "crack plain_utils one_task = Some (OK (Some ''xc'', 3))"
proof -
  have c: "known one_task = ''x''" "unknown one_task = 1" and e: "hash one_task = ''xc''" "crypt plain_utils w = w" for w
    by (simp_all add: known_def unknown_def one_task_def plain_utils_def)
  have "tries one_task = 26" by (simp add: tries_def c INT_MAX_def)
  then have "find (\<lambda>k. crypt plain_utils (candidate one_task k) = hash one_task) [0..<tries one_task] = Some 2"
    unfolding find_Some_iff c candidate_def by (intro exI [of _ 2]) (auto simp: e char_of_eq_iff less_2_cases_iff)
  then show ?thesis using crack_finds_first [OF plain_utils_ok, of one_task]
    by (simp add: candidate_def c char_of_eq_iff)
qed

text \<open>With seven unknown letters there are more completions than the count can have.\<close>

lemma seven_letters_overflow:
  assumes "utils_ok u" "7 \<le> unknown t" "\<forall>k < 26 ^ unknown t. crypt u (candidate t k) \<noteq> hash t"
  shows "crack u t = Some (Fault Int_Overflow)"
proof -
  have "(26 :: nat) ^ 7 \<le> 26 ^ unknown t" using assms(2) by (intro power_increasing) simp_all
  then have "\<not> 26 ^ unknown t \<le> nat INT_MAX" by (simp add: INT_MAX_def)
  moreover have "find (\<lambda>k. crypt u (candidate t k) = hash t) [0..<tries t] = None"
    using assms(3) by (simp add: find_None_iff tries_def)
  ultimately show ?thesis by (simp add: find_eq_candidates [OF assms(1)])
qed

text \<open>
  When no thread of the cracker can go on, all have stopped, every task of the input was worked
  on once, and the two numbers of the summary are those of the tasks with and without a password,
  if no task has more completions than can be counted.
\<close>

theorem cracker_pool_ends:
  assumes "utils_ok u" "(pool_step u)\<^sup>*\<^sup>* (start_pool n tasks) p" "0 < n" "\<And>p'. \<not> pool_step u p p'"
    and "\<And>t. t \<in> set tasks \<Longrightarrow> 26 ^ unknown t \<le> nat INT_MAX"
  shows "set (workers p) = {Stopped} \<and> mset (finished p) = mset tasks \<and>
    summary p = (length (filter (found u) tasks), length (filter (\<lambda>t. \<not> found u t) tasks))"
proof -
  have inv: "pool_inv u tasks n p" by (rule pool_inv_reachable [OF assms(1,2)])
  have inp: "input p = []" using assms(4) pool_step.Read [of p _ _ u] by (cases "input p") blast+
  then have cl: "closed p" using assms(4) pool_step.Close by blast
  have "w = Stopped \<or> w = Pulling \<and> work p = []" if "w \<in> set (workers p)" for w
  proof -
    from that obtain i where i: "i < length (workers p)" "workers p ! i = w" by (auto simp: in_set_conv_nth)
    show ?thesis
    proof (cases w)
      case Pulling
      then show ?thesis using assms(4) pool_step.Pull [of i p _ _ u] i by (cases "work p") blast+
    next
      case (Cracking t)
      have "Cracking t \<in> set (workers p)" using i Cracking by (metis nth_mem)
      then have "t \<in> set (concat (map doing (workers p)))" by force
      then have "t \<in># mset tasks" using inv unfolding pool_inv_def by simp
      then have "26 ^ unknown t \<le> nat INT_MAX" using assms(5) by simp
      then obtain r where "crack u t = Some (OK r)"
        using find_eq_candidates [OF assms(1), of t] by (simp split: option.splits)
      then obtain password k where "crack u t = Some (OK (password, k))" by (cases r) simp
      then show ?thesis using assms(4) pool_step.Crack [of i p t u password k] i Cracking by blast
    next
      case Passing
      then show ?thesis using assms(4) pool_step.Pass i by blast
    qed simp
  qed
  moreover from this have "Passing \<notin> set (workers p)" by blast
  with inv cl obtain ts where ts: "work p = map Some ts @ [None]" "Stopped \<in> set (workers p) \<longrightarrow> ts = []"
    by (auto simp: pool_inv_def null_ok_def dest: nth_mem)
  ultimately have "\<forall>w \<in> set (workers p). w = Stopped" by auto
  moreover have "workers p \<noteq> []" using inv assms(3) by (auto simp: pool_inv_def)
  ultimately have st: "set (workers p) = {Stopped}" using last_in_set by fastforce
  then have w: "work p = [None]" using ts by simp
  have "concat (map doing (workers p)) = []" using st by auto
  then have fin: "mset tasks = mset (finished p)" using inv inp w by (simp add: pool_inv_def)
  have "length (filter P (finished p)) = length (filter P tasks)" for P
    using fin by (metis mset_filter size_mset)
  then show ?thesis using st fin inv by (simp add: summary_def pool_inv_def counts_ok_def)
qed

theorem cracker_pool_ends_witness:
  "\<exists>p. (pool_step plain_utils)\<^sup>*\<^sup>* (start_pool 1 []) p \<and> set (workers p) = {Stopped} \<and> mset (finished p) = mset [] \<and> summary p = (0, 0)"
proof -
  let ?p = "\<lambda>c w v. \<lparr>input = [], closed = c, work = w, workers = [v], num_success = [0], num_fail = [0], finished = []\<rparr>"
  have "pool_step plain_utils (?p False [] Pulling) (?p True [None] Pulling)"
    using pool_step.Close [of "?p False [] Pulling"] by simp
  moreover have "pool_step plain_utils (?p True [None] Pulling) (?p True [] Passing)"
    using pool_step.Pull [of 0 "?p True [None] Pulling" None "[]"] by (simp add: pulled_def)
  moreover have "pool_step plain_utils (?p True [] Passing) (?p True [None] Stopped)"
    using pool_step.Pass [of 0 "?p True [] Passing"] by simp
  ultimately have r: "(pool_step plain_utils)\<^sup>*\<^sup>* (start_pool 1 []) (?p True [None] Stopped)"
    unfolding start_pool_def by (simp add: converse_rtranclp_into_rtranclp)
  have "\<not> pool_step plain_utils (?p True [None] Stopped) p'" for p' by (auto elim: pool_step.cases)
  from cracker_pool_ends [OF plain_utils_ok r _ this] have "set (workers (?p True [None] Stopped)) = {Stopped} \<and>
      mset (finished (?p True [None] Stopped)) = mset [] \<and> summary (?p True [None] Stopped) = (0, 0)" by simp
  then show ?thesis using r by (intro exI [of _ "?p True [None] Stopped"]) simp
qed

end
