(* ===== verification/Cracker2.thy ===== *)
theory Cracker2
  imports Cracker
begin

text \<open>
  The second password cracker, \<open>password_cracker/cracker2.c\<close>: all threads work on one user,
  each on a range of the completions, until one of them finds the password. A round lies between
  the two barriers that all threads and the main thread pass.
\<close>

section \<open>The model\<close>

text \<open>
  The remaining functions of \<open>utils.h\<close>: \<open>setStringPosition\<close> gives the word at a position, and
  \<open>getSubrange\<close> the first position and the number of positions of a thread, counted from 1.
\<close>

record range_utils = cracker_utils +
  set_position :: "string \<Rightarrow> int \<Rightarrow> string"
  subrange :: "nat \<Rightarrow> nat \<Rightarrow> nat \<Rightarrow> int \<times> int"

text \<open>
  Where a thread is: at the test of \<open>find\<close> for its candidate number \<open>i\<close>, at its hash, at the
  section that stores the password, or at the second barrier with its \<open>flag\<close>.
\<close>

datatype phase = Checking int | Hashing int | Storing | Ended int

record job =
  raw :: string
  counted :: int
  hash_count :: int
  phase :: phase

record round =
  find_flag :: bool
  password :: "string option"
  jobs :: "job list"

text \<open>The bound of the loop is \<open>(int) t->count\<close>.\<close>

definition start_job :: "range_utils \<Rightarrow> task \<Rightarrow> nat \<Rightarrow> nat \<Rightarrow> job" where
  "start_job u t thread_count i = (let pwd = part_pwd t; prefix = prefix_length u pwd;
       (start_index, cnt) = subrange u (length pwd - prefix) thread_count (i + 1) in
     \<lparr>raw = take prefix pwd @ set_position u (drop prefix pwd) start_index, counted = to_int (word_of_int cnt),
      hash_count = 0, phase = Checking 0\<rparr>)"

definition start_round :: "range_utils \<Rightarrow> task \<Rightarrow> nat \<Rightarrow> round" where
  "start_round u t thread_count = \<lparr>find_flag = False, password = None,
     jobs = map (start_job u t thread_count) [0..<thread_count]\<rparr>"

text \<open>One step of a thread: the section under the mutex, or the hash of its candidate.\<close>

definition check_find :: "int \<Rightarrow> bool \<Rightarrow> job \<Rightarrow> job" where
  "check_find i fnd j = (if i < counted j then (if fnd then j\<lparr>phase := Ended 1\<rparr> else j\<lparr>phase := Hashing i\<rparr>)
     else j\<lparr>phase := Ended 2\<rparr>)"

definition try_hash :: "range_utils \<Rightarrow> task \<Rightarrow> int \<Rightarrow> job \<Rightarrow> job" where
  "try_hash u t i j = (let j = j\<lparr>hash_count := hash_count j + 1\<rparr> in
     if crypt u (raw j) = hash t then j\<lparr>phase := Storing\<rparr>
     else j\<lparr>raw := fst (incr u (raw j)), phase := Checking (i + 1)\<rparr>)"

inductive round_step :: "range_utils \<Rightarrow> task \<Rightarrow> round \<Rightarrow> round \<Rightarrow> bool" for u t where
  Check: "k < length (jobs r) \<Longrightarrow> phase (jobs r ! k) = Checking i \<Longrightarrow>
    round_step u t r (r\<lparr>jobs := (jobs r)[k := check_find i (find_flag r) (jobs r ! k)]\<rparr>)"
| Hash: "k < length (jobs r) \<Longrightarrow> phase (jobs r ! k) = Hashing i \<Longrightarrow>
    round_step u t r (r\<lparr>jobs := (jobs r)[k := try_hash u t i (jobs r ! k)]\<rparr>)"
| Store: "k < length (jobs r) \<Longrightarrow> phase (jobs r ! k) = Storing \<Longrightarrow>
    round_step u t r (r\<lparr>find_flag := True, password := Some (raw (jobs r ! k)), jobs := (jobs r)[k := (jobs r ! k)\<lparr>phase := Ended 0\<rparr>]\<rparr>)"

text \<open>
  What the main thread prints: the password, the number of hashes, an \<open>int\<close> that the counts of the
  threads are added to, and whether there was no password.
\<close>

definition total_hashes :: "job list \<Rightarrow> int res" where
  "total_hashes js = forE js (\<lambda>j totalHash. c_int (totalHash + hash_count j)) 0"

definition round_summary :: "round \<Rightarrow> (string option \<times> int \<times> bool) res" where
  "round_summary r = bindE (total_hashes (jobs r)) (\<lambda>totalHash. OK (password r, totalHash, \<not> find_flag r))"

section \<open>Specification\<close>

text \<open>
  The documented behaviour: the ranges of the threads are parts of the positions and cover them
  all, and together have as many as there are.
\<close>

definition ranges_ok :: "range_utils \<Rightarrow> nat \<Rightarrow> nat \<Rightarrow> bool" where
  "ranges_ok u n thread_count \<longleftrightarrow>
     (\<forall>i \<in> {1..thread_count}. 0 \<le> fst (subrange u n thread_count i) \<and> 0 \<le> snd (subrange u n thread_count i) \<and>
        fst (subrange u n thread_count i) + snd (subrange u n thread_count i) \<le> 26 ^ n) \<and>
     (\<Sum>i = 1..thread_count. snd (subrange u n thread_count i)) = 26 ^ n \<and>
     (\<forall>k < 26 ^ n. \<exists>i \<in> {1..thread_count}. fst (subrange u n thread_count i) \<le> int k \<and>
        int k < fst (subrange u n thread_count i) + snd (subrange u n thread_count i))"

definition range_utils_ok :: "range_utils \<Rightarrow> bool" where
  "range_utils_ok u \<longleftrightarrow> utils_ok (cracker_utils.truncate u) \<and>
     (\<forall>w k. k < 26 ^ length w \<longrightarrow> set_position u w (int k) = letters (length w) k)"

text \<open>What thread \<open>k\<close> knows: it has tried its candidates before the present one, without success.\<close>

definition tried :: "range_utils \<Rightarrow> task \<Rightarrow> int \<Rightarrow> int \<Rightarrow> bool" where
  "tried u t a b \<longleftrightarrow> (\<forall>k < 26 ^ unknown t. a \<le> int k \<longrightarrow> int k < b \<longrightarrow> crypt u (candidate t k) \<noteq> hash t)"

definition at_candidate :: "task \<Rightarrow> int \<Rightarrow> int \<Rightarrow> job \<Rightarrow> bool" where
  "at_candidate t a i j \<longleftrightarrow> 0 \<le> i \<and> (i < counted j \<longrightarrow> raw j = candidate t (nat (a + i)))"

fun job_inv :: "range_utils \<Rightarrow> task \<Rightarrow> bool \<Rightarrow> int \<Rightarrow> job \<Rightarrow> phase \<Rightarrow> bool" where
  "job_inv u t fnd a j (Checking i) \<longleftrightarrow> at_candidate t a i j \<and> tried u t a (a + i) \<and> hash_count j = i \<and> i \<le> counted j"
| "job_inv u t fnd a j (Hashing i) \<longleftrightarrow> at_candidate t a i j \<and> tried u t a (a + i) \<and> hash_count j = i \<and> i < counted j"
| "job_inv u t fnd a j Storing \<longleftrightarrow> (\<exists>k < 26 ^ unknown t. raw j = candidate t k \<and> crypt u (candidate t k) = hash t) \<and>
     0 \<le> hash_count j \<and> hash_count j \<le> counted j"
| "job_inv u t fnd a j (Ended flag) \<longleftrightarrow> (fnd \<or> tried u t a (a + counted j)) \<and> 0 \<le> hash_count j \<and> hash_count j \<le> counted j"

definition round_inv :: "range_utils \<Rightarrow> task \<Rightarrow> nat \<Rightarrow> round \<Rightarrow> bool" where
  "round_inv u t n r \<longleftrightarrow> length (jobs r) = n \<and>
     (\<forall>k < n. counted (jobs r ! k) = snd (subrange u (unknown t) n (k + 1)) \<and>
        job_inv u t (find_flag r) (fst (subrange u (unknown t) n (k + 1))) (jobs r ! k) (phase (jobs r ! k))) \<and>
     (find_flag r \<longrightarrow> (\<exists>k < 26 ^ unknown t. password r = Some (candidate t k) \<and> crypt u (candidate t k) = hash t))"

section \<open>Lemmas\<close>

lemma to_int_of_count: "0 \<le> c \<Longrightarrow> c < 2 ^ 31 \<Longrightarrow> to_int (word_of_int c) = c"
proof -
  assume c: "0 \<le> c" "c < 2 ^ 31"
  then have "c mod 18446744073709551616 = c" by (intro mod_pos_pos_trivial) simp_all
  then have "ucast (word_of_int c :: 64 word) = (word_of_int c :: 32 word)" by (simp add: unsigned_ucast_eq ucast_eq uint_word_of_int)
  then show ?thesis using c by (simp add: to_int_def int_word_sint)
qed

lemma prefix_known:
  assumes "range_utils_ok u"
  shows "prefix_length u (part_pwd t) = length (known t)" "take (length (known t)) (part_pwd t) = known t"
    "length (drop (length (known t)) (part_pwd t)) = unknown t"
proof -
  show "prefix_length u (part_pwd t) = length (known t)"
    using assms by (simp add: range_utils_ok_def utils_ok_def known_def cracker_utils.defs)
  show "take (length (known t)) (part_pwd t) = known t" by (metis known_def takeWhile_eq_take)
qed (simp add: unknown_def)

lemma incr_candidate:
  "range_utils_ok u \<Longrightarrow> Suc k < 26 ^ unknown t \<Longrightarrow> fst (incr u (candidate t k)) = candidate t (Suc k)"
  by (simp add: range_utils_ok_def utils_ok_def candidate_def cracker_utils.defs)

lemma job_inv_found: "job_inv u t fnd a j ph \<Longrightarrow> job_inv u t True a j ph"
  by (cases ph) auto

lemma subrange_bounds:
  assumes "ranges_ok u n thread_count" "k < thread_count"
  shows "0 \<le> fst (subrange u n thread_count (k + 1))" "0 \<le> snd (subrange u n thread_count (k + 1))"
    "fst (subrange u n thread_count (k + 1)) + snd (subrange u n thread_count (k + 1)) \<le> 26 ^ n"
  using assms unfolding ranges_ok_def by auto

text \<open>A task with few unknown letters: with six of them there are 308915776 completions.\<close>

definition few_unknown :: "task \<Rightarrow> bool" where
  "few_unknown t \<longleftrightarrow> unknown t \<le> 6"

lemma few_completions: "few_unknown t \<Longrightarrow> (26 :: int) ^ unknown t < 2 ^ 31"
proof -
  assume "few_unknown t"
  then have "(26 :: int) ^ unknown t \<le> 26 ^ 6" unfolding few_unknown_def by (intro power_increasing) simp_all
  then show ?thesis by simp
qed

lemma start_job_inv:
  assumes u: "range_utils_ok u" and r: "ranges_ok u (unknown t) n" "k < n" and few: "few_unknown t"
  shows "counted (start_job u t n k) = snd (subrange u (unknown t) n (k + 1)) \<and>
    job_inv u t False (fst (subrange u (unknown t) n (k + 1))) (start_job u t n k) (phase (start_job u t n k))"
proof -
  obtain a c where ac: "subrange u (unknown t) n (Suc k) = (a, c)" by (metis surj_pair)
  have b: "0 \<le> a" "0 \<le> c" "a + c \<le> 26 ^ unknown t" "c < 2 ^ 31"
    using subrange_bounds [OF r] ac few_completions [OF few] by simp_all
  have j: "start_job u t n k = \<lparr>raw = known t @ set_position u (drop (length (known t)) (part_pwd t)) a, counted = c,
      hash_count = 0, phase = Checking 0\<rparr>"
    using prefix_known [OF u, of t] ac b by (simp add: start_job_def Let_def to_int_of_count unknown_def)
  have "set_position u (drop (length (known t)) (part_pwd t)) a = letters (unknown t) (nat a)" if "0 < c"
  proof -
    have "int (nat a) < int (26 ^ unknown t)" using b that by simp
    then have "nat a < 26 ^ unknown t" by (simp only: of_nat_less_iff)
    then show ?thesis using u prefix_known(3) [OF u, of t] b(1) unfolding range_utils_ok_def by (metis nat_0_le)
  qed
  then show ?thesis using b by (simp add: j ac at_candidate_def candidate_def tried_def)
qed

lemma try_hash_inv:
  assumes u: "range_utils_ok u" and "0 \<le> a" "a + counted j \<le> 26 ^ unknown t" "job_inv u t fnd a j (Hashing i)"
  shows "job_inv u t fnd a (try_hash u t i j) (phase (try_hash u t i j))"
proof -
  have i: "0 \<le> i" "i < counted j" "raw j = candidate t (nat (a + i))" "tried u t a (a + i)" "hash_count j = i"
    using assms(4) by (simp_all add: at_candidate_def)
  have k: "nat (a + i) < 26 ^ unknown t"
  proof -
    have "int (nat (a + i)) < int (26 ^ unknown t)" using assms(2,3) i(1,2) by simp
    then show ?thesis by (simp only: of_nat_less_iff)
  qed
  show ?thesis
  proof (cases "crypt u (raw j) = hash t")
    case True
    then have "\<exists>m < 26 ^ unknown t. raw j = candidate t m \<and> crypt u (candidate t m) = hash t" using i(3) k by metis
    then show ?thesis using i True by (simp add: try_hash_def Let_def)
  next
    case False
    have "tried u t a (a + (i + 1))"
    proof -
      have "crypt u (candidate t m) \<noteq> hash t" if "m < 26 ^ unknown t" "a \<le> int m" "int m < a + (i + 1)" for m
      proof (cases "int m < a + i")
        case True
        with that i(4) show ?thesis by (simp add: tried_def)
      next
        case False
        with that have "m = nat (a + i)" by simp
        with \<open>crypt u (raw j) \<noteq> hash t\<close> i(3) show ?thesis by simp
      qed
      then show ?thesis by (simp add: tried_def)
    qed
    moreover have "fst (incr u (raw j)) = candidate t (nat (a + (i + 1)))" if "i + 1 < counted j"
    proof -
      have "int (Suc (nat (a + i))) < int (26 ^ unknown t)" using assms(2,3) i(1) that by simp
      then have "Suc (nat (a + i)) < 26 ^ unknown t" by (simp only: of_nat_less_iff)
      moreover have "nat (a + (i + 1)) = Suc (nat (a + i))" using assms(2) i(1) by simp
      ultimately show ?thesis using incr_candidate [OF u] i(3) by simp
    qed
    ultimately show ?thesis using False i by (simp add: try_hash_def Let_def at_candidate_def)
  qed
qed

lemma round_inv_update:
  assumes "round_inv u t n r" "k < n" "counted j = counted (jobs r ! k)"
    and "job_inv u t fnd (fst (subrange u (unknown t) n (k + 1))) j (phase j)" "fnd = find_flag r \<or> fnd"
    and "fnd \<longrightarrow> (\<exists>k < 26 ^ unknown t. pw = Some (candidate t k) \<and> crypt u (candidate t k) = hash t)"
  shows "round_inv u t n (r\<lparr>find_flag := fnd, password := pw, jobs := (jobs r)[k := j]\<rparr>)"
  using assms unfolding round_inv_def by (auto simp: nth_list_update job_inv_found)

lemma round_inv_step:
  assumes u: "range_utils_ok u" and rng: "ranges_ok u (unknown t) n"
  shows "round_step u t r r' \<Longrightarrow> round_inv u t n r \<Longrightarrow> round_inv u t n r'"
proof (induction rule: round_step.induct)
  case (Check k r i)
  let ?j = "check_find i (find_flag r) (jobs r ! k)" and ?a = "fst (subrange u (unknown t) n (k + 1))"
  have k: "k < n" using Check by (simp add: round_inv_def)
  have old: "job_inv u t (find_flag r) ?a (jobs r ! k) (Checking i)" using Check k by (auto simp: round_inv_def)
  have "job_inv u t (find_flag r) ?a ?j (phase ?j)" using old by (auto simp: check_find_def at_candidate_def)
  from round_inv_update [OF Check.prems k _ this, of "password r"] Check.prems show ?case by (simp add: check_find_def round_inv_def)
next
  case (Hash k r i)
  let ?j = "try_hash u t i (jobs r ! k)" and ?a = "fst (subrange u (unknown t) n (k + 1))"
  have k: "k < n" using Hash by (simp add: round_inv_def)
  have old: "job_inv u t (find_flag r) ?a (jobs r ! k) (Hashing i)" and c: "counted (jobs r ! k) = snd (subrange u (unknown t) n (k + 1))"
    using Hash k by (auto simp: round_inv_def)
  have "job_inv u t (find_flag r) ?a ?j (phase ?j)"
    by (rule try_hash_inv [OF u _ _ old]) (use subrange_bounds [OF rng k] c in simp_all)
  from round_inv_update [OF Hash.prems k _ this, of "password r"] Hash.prems show ?case by (simp add: try_hash_def Let_def round_inv_def)
next
  case (Store k r)
  let ?j = "(jobs r ! k)\<lparr>phase := Ended 0\<rparr>" and ?a = "fst (subrange u (unknown t) n (k + 1))"
  have k: "k < n" using Store by (simp add: round_inv_def)
  have old: "job_inv u t (find_flag r) ?a (jobs r ! k) Storing" using Store k by (auto simp: round_inv_def)
  have "job_inv u t True ?a ?j (phase ?j)" using old by simp
  from round_inv_update [OF Store.prems k _ this, of "Some (raw (jobs r ! k))"] old show ?case by simp
qed

lemma round_inv_reachable:
  assumes "range_utils_ok u" "ranges_ok u (unknown t) n" "few_unknown t" "(round_step u t)\<^sup>*\<^sup>* (start_round u t n) r"
  shows "round_inv u t n r"
  using assms(4)
proof (induction rule: rtranclp_induct)
  case base
  show ?case using start_job_inv [OF assms(1,2) _ assms(3)] by (simp add: start_round_def round_inv_def)
next
  case (step r r')
  then show ?case using round_inv_step [OF assms(1,2)] by blast
qed

text \<open>The sum of the hashes at the end, which the number of the completions bounds.\<close>

lemma sum_prefix_le:
  assumes "\<And>j. j \<in> set js \<Longrightarrow> 0 \<le> (f j :: int)" "k \<le> length js"
  shows "0 \<le> sum_list (map f (take k js))" "sum_list (map f (take k js)) \<le> sum_list (map f js)"
proof -
  show "0 \<le> sum_list (map f (take k js))"
    by (rule sum_list_nonneg) (use assms(1) in \<open>auto dest: in_set_takeD\<close>)
  have "0 \<le> sum_list (map f (drop k js))"
    by (rule sum_list_nonneg) (use assms(1) in \<open>auto dest: in_set_dropD\<close>)
  moreover have "sum_list (map f js) = sum_list (map f (take k js)) + sum_list (map f (drop k js))"
    by (metis append_take_drop_id map_append sum_list_append)
  ultimately show "sum_list (map f (take k js)) \<le> sum_list (map f js)" by simp
qed

lemma total_hashes_sum:
  assumes "\<And>j. j \<in> set js \<Longrightarrow> 0 \<le> hash_count j" "sum_list (map hash_count js) \<le> INT_MAX"
  shows "total_hashes js = OK (sum_list (map hash_count js))"
proof -
  have "\<exists>s. total_hashes js = OK s \<and> s = sum_list (map hash_count (take (length js) js))"
    unfolding total_hashes_def
  proof (rule forE_rule [where P = "\<lambda>k s. s = sum_list (map hash_count (take k js))"])
    fix k s assume k: "k < length js" and s: "s = sum_list (map hash_count (take k js))"
    have t: "sum_list (map hash_count (take (Suc k) js)) = s + hash_count (js ! k)"
      using k s by (simp add: take_Suc_conv_app_nth)
    have "0 \<le> s + hash_count (js ! k)" "s + hash_count (js ! k) \<le> INT_MAX"
      using sum_prefix_le [of js hash_count "Suc k", OF assms(1)] k assms(2) unfolding t by simp_all
    then show "\<exists>s'. c_int (s + hash_count (js ! k)) = OK s' \<and> s' = sum_list (map hash_count (take (Suc k) js))"
      using t by (simp add: INT_MIN_def)
  qed simp
  then show ?thesis by simp
qed

lemma ranges_sum:
  assumes "ranges_ok u n m"
  shows "(\<Sum>k \<leftarrow> [0..<m]. snd (subrange u n m (k + 1))) = 26 ^ n"
proof -
  have "(\<Sum>k \<leftarrow> [0..<m]. snd (subrange u n m (k + 1))) = (\<Sum>k \<in> {0..<m}. snd (subrange u n m (Suc k)))"
    by (simp add: interv_sum_list_conv_sum_set_nat)
  also have "\<dots> = (\<Sum>i \<in> {1..m}. snd (subrange u n m i))"
    using sum.shift_bounds_Suc_ivl [of "\<lambda>i. snd (subrange u n m i)" 0 m] by (simp add: atLeastLessThanSuc_atLeastAtMost)
  finally show ?thesis using assms by (simp add: ranges_ok_def)
qed

lemma round_hashes:
  assumes rng: "ranges_ok u (unknown t) n" and inv: "round_inv u t n r" and few: "few_unknown t"
    and ended: "\<And>j. j \<in> set (jobs r) \<Longrightarrow> 0 \<le> hash_count j \<and> hash_count j \<le> counted j"
  shows "total_hashes (jobs r) = OK (sum_list (map hash_count (jobs r)))" "sum_list (map hash_count (jobs r)) \<le> 26 ^ unknown t"
proof -
  have "map counted (jobs r) = map (\<lambda>k. snd (subrange u (unknown t) n (k + 1))) [0..<n]"
    using inv by (intro nth_equalityI) (simp_all add: round_inv_def)
  then have "sum_list (map counted (jobs r)) = 26 ^ unknown t" using ranges_sum [OF rng] by (simp only:)
  moreover have "sum_list (map hash_count (jobs r)) \<le> sum_list (map counted (jobs r))"
    using ended by (intro sum_list_mono) simp
  ultimately show le: "sum_list (map hash_count (jobs r)) \<le> 26 ^ unknown t" by simp
  show "total_hashes (jobs r) = OK (sum_list (map hash_count (jobs r)))"
    by (rule total_hashes_sum) (use ended le few_completions [OF few] in \<open>simp_all add: INT_MAX_def\<close>)
qed

section \<open>Properties\<close>

text \<open>
  When no thread can go on before the second barrier, all threads are there, and the main
  thread prints a password exactly when some completion has the hash of the task; what it prints
  is then such a completion, and no thread has hashed more than the candidates of its range. This is
  for tasks with up to six unknown letters.
\<close>

theorem round_finds_password:
  assumes "range_utils_ok u" "ranges_ok u (unknown t) n" "few_unknown t" "(round_step u t)\<^sup>*\<^sup>* (start_round u t n) r"
    and "\<And>r'. \<not> round_step u t r r'"
  shows "(\<forall>j \<in> set (jobs r). (\<exists>flag. phase j = Ended flag) \<and> hash_count j \<le> counted j) \<and>
    (find_flag r \<longleftrightarrow> (\<exists>k < 26 ^ unknown t. crypt u (candidate t k) = hash t)) \<and>
    (find_flag r \<longrightarrow> (\<exists>k < 26 ^ unknown t. password r = Some (candidate t k) \<and> crypt u (candidate t k) = hash t))"
proof -
  have inv: "round_inv u t n r" by (rule round_inv_reachable [OF assms(1-4)])
  have e: "\<exists>flag. phase (jobs r ! k) = Ended flag" if "k < n" for k
  proof -
    have "k < length (jobs r)" using inv that by (simp add: round_inv_def)
    then show ?thesis using assms(5) round_step.intros [of k r] by (cases "phase (jobs r ! k)") blast+
  qed
  have t: "find_flag r \<or> tried u t (fst (subrange u (unknown t) n (k + 1))) (fst (subrange u (unknown t) n (k + 1)) + snd (subrange u (unknown t) n (k + 1)))"
    "hash_count (jobs r ! k) \<le> counted (jobs r ! k)" if "k < n" for k
    using inv e [OF that] that by (auto simp: round_inv_def)
  have "find_flag r" if "m < 26 ^ unknown t" "crypt u (candidate t m) = hash t" for m
  proof -
    from that(1) assms(2) obtain i where i: "i \<in> {1..n}" "fst (subrange u (unknown t) n i) \<le> int m"
      "int m < fst (subrange u (unknown t) n i) + snd (subrange u (unknown t) n i)"
      unfolding ranges_ok_def by blast
    moreover from i have "i - 1 < n" "i - 1 + 1 = i" by auto
    ultimately show ?thesis using t(1) [of "i - 1"] that unfolding tried_def by auto
  qed
  moreover have "find_flag r \<Longrightarrow> \<exists>k < 26 ^ unknown t. password r = Some (candidate t k) \<and> crypt u (candidate t k) = hash t"
    using inv by (simp add: round_inv_def)
  moreover have "(\<exists>flag. phase j = Ended flag) \<and> hash_count j \<le> counted j" if "j \<in> set (jobs r)" for j
    using that e t(2) inv by (auto simp: in_set_conv_nth round_inv_def)
  ultimately show ?thesis by blast
qed

text \<open>One thread that has every position, and a password without unknown characters.\<close>

definition one_range :: range_utils where
  "one_range = \<lparr>crypt = crypt plain_utils, incr = incr plain_utils, prefix_length = prefix_length plain_utils,
     set_position = (\<lambda>w k. letters (length w) (nat k)), subrange = (\<lambda>n thread_count i. (0, 26 ^ n))\<rparr>"

definition full_task :: task where
  "full_task = \<lparr>username = ''ann'', hash = ''x'', part_pwd = ''x''\<rparr>"

theorem round_finds_password_witness:
  "\<exists>r. (round_step one_range full_task)\<^sup>*\<^sup>* (start_round one_range full_task 1) r \<and> find_flag r \<and> password r = Some ''x''"
proof -
  have t: "known full_task = ''x''" "unknown full_task = 0" "part_pwd full_task = ''x''" "hash full_task = ''x''"
    by (simp_all add: known_def unknown_def full_task_def)
  have u: "cracker_utils.truncate one_range = plain_utils" by (simp add: one_range_def cracker_utils.defs plain_utils_def)
  then have ok: "range_utils_ok one_range" "ranges_ok one_range (unknown full_task) 1" "few_unknown full_task"
    using plain_utils_ok by (simp_all add: range_utils_ok_def ranges_ok_def few_unknown_def t) (simp_all add: one_range_def)
  let ?r = "\<lambda>f pw h ph. \<lparr>find_flag = f, password = pw, jobs = [\<lparr>raw = ''x'', counted = 1, hash_count = h, phase = ph\<rparr>]\<rparr>"
  have s: "start_round one_range full_task 1 = ?r False None 0 (Checking 0)"
    by (simp add: start_round_def start_job_def t one_range_def plain_utils_def Let_def to_int_def)
  have 1: "round_step one_range full_task (?r False None 0 (Checking 0)) (?r False None 0 (Hashing 0))"
    using round_step.Check [of 0 "?r False None 0 (Checking 0)" 0] by (simp add: check_find_def)
  have 2: "round_step one_range full_task (?r False None 0 (Hashing 0)) (?r False None 1 Storing)"
    using round_step.Hash [of 0 "?r False None 0 (Hashing 0)" 0 one_range full_task]
    by (simp add: try_hash_def Let_def t one_range_def plain_utils_def)
  have 3: "round_step one_range full_task (?r False None 1 Storing) (?r True (Some ''x'') 1 (Ended 0))"
    using round_step.Store [of 0 "?r False None 1 Storing"] by simp
  have r: "(round_step one_range full_task)\<^sup>*\<^sup>* (start_round one_range full_task 1) (?r True (Some ''x'') 1 (Ended 0))"
    unfolding s using 1 2 3 by (meson converse_rtranclp_into_rtranclp rtranclp.rtrancl_refl)
  have "\<not> round_step one_range full_task (?r True (Some ''x'') 1 (Ended 0)) r'" for r' by (auto elim: round_step.cases)
  from round_finds_password [OF ok r this] show ?thesis
    using r by (intro exI [of _ "?r True (Some ''x'') 1 (Ended 0)"]) simp
qed

text \<open>A range of $2^{31}$ positions or more becomes a negative bound, and is not searched at all.\<close>

lemma large_range_skipped:
  "check_find 0 fnd \<lparr>raw = w, counted = to_int (word_of_int (2 ^ 31)), hash_count = 0, phase = Checking 0\<rparr> =
     \<lparr>raw = w, counted = - (2 ^ 31), hash_count = 0, phase = Ended 2\<rparr>"
  by (simp add: check_find_def to_int_def)

end
