(* ===== verification/Lookup.thy ===== *)
theory Lookup
  imports C_String "HOL-Library.Tree"
begin

text \<open>
  The two lookups of \<open>mad_mad_access_patterns/\<close> in a search tree that is stored in a file:
  \<open>lookup1.c\<close> reads node after node from the file, \<open>lookup2.c\<close> has the file in memory. The
  layout of a node is in \<open>tree.h\<close>, which is not in the repository; it is a parameter.
\<close>

section \<open>The model\<close>

record 'p node =
  left_child :: nat
  right_child :: nat
  count :: nat
  price :: 'p

text \<open>
  \<open>sizeof(BinaryTreeNode)\<close>, the offset of its member \<open>word\<close>, and the fields in its bytes.
\<close>

record 'p layout =
  node_size :: nat
  word_at :: nat
  decode :: "string \<Rightarrow> 'p node"

datatype 'p answer = Found string nat 'p | Not_Found string
  | Usage | Open_Fail | Format_Fail | Mmap_Fail

text \<open>\<open>strcmp\<close> compares the bytes as unsigned numbers.\<close>

fun strcmp :: "string \<Rightarrow> string \<Rightarrow> int" where
  "strcmp [] [] = 0"
| "strcmp [] (b # t) = - 1"
| "strcmp (a # s) [] = 1"
| "strcmp (a # s) (b # t) = (if (of_char a :: nat) < of_char b then - 1
     else if (of_char b :: nat) < of_char a then 1 else strcmp s t)"






text \<open>
  \<open>search\<close> of \<open>lookup2.c\<close>: the word is read where it lies. Its parameter \<open>off\<close> is an \<open>int\<close>, to which
  the offset of a child is converted. Reading before the beginning of the file or behind its end is
  out of bounds.
\<close>

primrec search :: "nat \<Rightarrow> 'p layout \<Rightarrow> string \<Rightarrow> int \<Rightarrow> string \<Rightarrow> 'p answer res" where
  "search 0 L data off word = Fault Nonterminating"
| "search (Suc n) L data off word = (if off = 0 then OK (Not_Found word)
     else if off < 0 \<or> length data < nat off + node_size L \<or> NUL \<notin> set (drop (nat off + word_at L) data) then Fault Out_Of_Bounds
     else let node = decode L (take (node_size L) (drop (nat off) data));
         cmp = strcmp word (cstr (drop (nat off + word_at L) data)) in
       if cmp = 0 then OK (Found word (count node) (price node))
       else if cmp < 0 then search n L data (to_int (of_nat (left_child node))) word
       else search n L data (to_int (of_nat (right_child node))) word)"


section \<open>Specification\<close>



definition entry_of :: "(string \<times> nat \<times> 'p) tree \<Rightarrow> string \<Rightarrow> 'p answer" where
  "entry_of t w = (case map_of (inorder t) w of None \<Rightarrow> Not_Found w | Some (n, p) \<Rightarrow> Found w n p)"

section \<open>Lemmas\<close>


lemma strcmp_range: "strcmp s t = - 1 \<or> strcmp s t = 0 \<or> strcmp s t = 1"
  by (induction s t rule: strcmp.induct) simp_all









lemma entry_of_Leaf [simp]: "entry_of Leaf w = Not_Found w"
  by (simp add: entry_of_def)





text \<open>A child at $2^{31}$ is looked for before the beginning of the file.\<close>

lemma far_child_not_reached: "search (Suc n) L data (to_int (of_nat (2 ^ 31))) word = Fault Out_Of_Bounds"
proof -
  have "to_int (of_nat (2 ^ 31)) = - (2 ^ 31)" by (simp add: to_int_def)
  then show ?thesis by simp
qed

section \<open>Properties\<close>



end
