(* ===== verification/Mmu.thy ===== *)
theory Mmu
  imports Prelude
begin

text \<open>
  The memory management unit of \<open>ideal_indirection/mmu.c\<close>: page directories and page tables in
  simulated physical memory, the segments of each process, and a translation buffer. The kernel
  (\<open>kernel.h\<close>), the buffer (\<open>tlb.h\<close>), the lookup of segments and the layout of an entry are not in
  the repository; they are the fields of the parameter \<open>machine\<close>.
\<close>

unbundle bit_operations_syntax

section \<open>The model\<close>

text \<open>The fields of a page directory entry or page table entry that the file uses.\<close>

record entry =
  base_addr :: "32 word"
  present :: bool
  read_write :: bool
  user_supervisor :: bool
  accessed :: bool
  dirty :: bool

text \<open>
  A frame has a number and holds 4096 bytes; a pointer to an entry is the frame of its table with
  its index there. The kernel acts on its own state and on the memory.
\<close>

type_synonym frame = "32 word"
type_synonym ref = "frame \<times> nat"
type_synonym 'k world = "'k \<times> (frame \<Rightarrow> string)"

datatype seg_name = STACK | MMAP | HEAP | BSS | DATA | TEXT | TESTING

record segment =
  seg_start :: "32 word"
  seg_end :: "32 word"
  permissions :: "32 word"
  grows_down :: bool

type_synonym segments = "seg_name \<Rightarrow> segment"

record ('k, 't) machine =
  MAX_PROCESS_ID :: nat
  NUM_PHYSICAL_PAGES :: nat
  P_READ :: "32 word"
  P_WRITE :: "32 word"
  P_EXEC :: "32 word"
  ask_kernel :: "ref option \<Rightarrow> 'k world \<Rightarrow> 32 word \<times> 'k world"
  read_page :: "ref \<Rightarrow> 'k world \<Rightarrow> 'k world"
  return_frame :: "frame \<Rightarrow> 'k world \<Rightarrow> 'k world"
  remove_swap :: "ref \<Rightarrow> 'k world \<Rightarrow> 'k world"
  remove_swaps :: "'k world \<Rightarrow> 'k world"
  tlb_new :: 't
  tlb_flush :: "'t \<Rightarrow> 't"
  tlb_get :: "'t \<Rightarrow> 32 word \<Rightarrow> ref option \<times> 't"
  tlb_add :: "'t \<Rightarrow> 32 word \<Rightarrow> ref \<Rightarrow> 't"
  in_segments :: "segments \<Rightarrow> 32 word \<Rightarrow> bool"
  find_segment :: "segments \<Rightarrow> 32 word \<Rightarrow> segment option"
  decode_entry :: "string \<Rightarrow> entry"
  encode_entry :: "entry \<Rightarrow> string"

record ('k, 't) mmu =
  tlb :: 't
  curr_pid :: nat
  page_directories :: "nat \<Rightarrow> frame option"
  segmentations :: "nat \<Rightarrow> segments option"
  num_tlb_misses :: nat
  num_page_faults :: nat
  num_segmentation_faults :: nat
  world :: "'k world"

definition PAGE_SIZE :: nat where "PAGE_SIZE = 4096"
definition NUM_ENTRIES :: nat where "NUM_ENTRIES = 1024"

definition BASE_ADDR :: "32 word \<Rightarrow> 32 word" where "BASE_ADDR addr = drop_bit 12 addr"
definition VPN0 :: "32 word \<Rightarrow> nat" where "VPN0 base = unat (drop_bit 10 base)"
definition VPN1 :: "32 word \<Rightarrow> nat" where "VPN1 base = unat (base AND 0x3FF)"

text \<open>Reading and writing an entry in memory; its four bytes are at four times its index.\<close>

definition get_entry :: "('k, 't) machine \<Rightarrow> 'k world \<Rightarrow> ref \<Rightarrow> entry" where
  "get_entry M w r = decode_entry M (take 4 (drop (4 * snd r) (snd w (fst r))))"

definition put_entry :: "('k, 't) machine \<Rightarrow> ref \<Rightarrow> entry \<Rightarrow> 'k world \<Rightarrow> 'k world" where
  "put_entry M r e w = (fst w, (snd w)(fst r := take (4 * snd r) (snd w (fst r)) @ encode_entry M e @
     drop (4 * snd r + 4) (snd w (fst r))))"

definition upd_entry :: "('k, 't) machine \<Rightarrow> ref \<Rightarrow> (entry \<Rightarrow> entry) \<Rightarrow> 'k world \<Rightarrow> 'k world" where
  "upd_entry M r g w = put_entry M r (g (get_entry M w r)) w"

text \<open>\<open>memcpy\<close> of the first \<open>n\<close> bytes of a buffer to the beginning of a frame, and back.\<close>

definition copy_to_frame :: "frame \<Rightarrow> string \<Rightarrow> nat \<Rightarrow> 'k world \<Rightarrow> 'k world res" where
  "copy_to_frame f buf n w = (if n \<le> length buf \<and> n \<le> PAGE_SIZE
     then OK (fst w, (snd w)(f := take n buf @ drop n (snd w f))) else Fault Out_Of_Bounds)"

definition copy_from_frame :: "frame \<Rightarrow> nat \<Rightarrow> 'k world \<Rightarrow> string res" where
  "copy_from_frame f n w = (if n \<le> PAGE_SIZE then OK (take n (snd w f)) else Fault Out_Of_Bounds)"

definition mmu_create :: "('k, 't) machine \<Rightarrow> 'k world \<Rightarrow> ('k, 't) mmu" where
  "mmu_create M w = \<lparr>tlb = tlb_new M, curr_pid = 0, page_directories = (\<lambda>_. None), segmentations = (\<lambda>_. None),
     num_tlb_misses = 0, num_page_faults = 0, num_segmentation_faults = 0, world = w\<rparr>"

definition mmu_tlb_miss :: "('k, 't) mmu \<Rightarrow> ('k, 't) mmu" where
  "mmu_tlb_miss m = m\<lparr>num_tlb_misses := num_tlb_misses m + 1\<rparr>"

definition mmu_raise_page_fault :: "('k, 't) mmu \<Rightarrow> ('k, 't) mmu" where
  "mmu_raise_page_fault m = m\<lparr>num_page_faults := num_page_faults m + 1\<rparr>"

definition mmu_raise_segmentation_fault :: "('k, 't) mmu \<Rightarrow> ('k, 't) mmu" where
  "mmu_raise_segmentation_fault m = m\<lparr>num_segmentation_faults := num_segmentation_faults m + 1\<rparr>"

text \<open>A frame from the kernel is entered, what was swapped out is read into it, and the entry is present.\<close>

definition load_frame :: "('k, 't) machine \<Rightarrow> ref \<Rightarrow> 'k world \<Rightarrow> 'k world" where
  "load_frame M r w = (let (a, w) = ask_kernel M (Some r) w;
     w = upd_entry M r (base_addr_update (\<lambda>_. BASE_ADDR a)) w;
     w = read_page M r w
     in upd_entry M r (present_update (\<lambda>_. True)) w)"

definition page_in :: "('k, 't) machine \<Rightarrow> segments \<Rightarrow> 32 word \<Rightarrow> ref \<Rightarrow> 'k world \<Rightarrow> 'k world res" where
  "page_in M segs va r w = (let w = load_frame M r w in
     case find_segment M segs va of None \<Rightarrow> Fault Null_Deref
     | Some seg \<Rightarrow> OK (upd_entry M r (\<lambda>e. e\<lparr>read_write := (permissions seg AND 0x2 \<noteq> 0), user_supervisor := True\<rparr>) w))"

text \<open>The first lines of a read and a write: the \<open>size_t\<close> sum of the assertion can wrap around.\<close>

definition mmu_asserts :: "('k, 't) machine \<Rightarrow> 32 word \<Rightarrow> nat \<Rightarrow> size_t \<Rightarrow> unit res" where
  "mmu_asserts M va pid n = assertE (pid < MAX_PROCESS_ID M \<and> unat (n + ucast (va mod 4096)) \<le> PAGE_SIZE)"

definition switch_process :: "('k, 't) machine \<Rightarrow> nat \<Rightarrow> ('k, 't) mmu \<Rightarrow> ('k, 't) mmu" where
  "switch_process M pid m = (if curr_pid m \<noteq> pid then m\<lparr>curr_pid := pid, tlb := tlb_flush M (tlb m)\<rparr> else m)"

text \<open>
  Lines 47 to 75 of a read: the entry of the page. After a miss in the buffer with no page table
  the null pointer \<open>myentry\<close> is written to.
\<close>

definition read_entry :: "('k, 't) machine \<Rightarrow> frame \<Rightarrow> segments \<Rightarrow> 32 word \<Rightarrow> ('k, 't) mmu \<Rightarrow> (('k, 't) mmu \<times> ref) res" where
  "read_entry M pd segs va m = (let base = BASE_ADDR va; (r, t) = tlb_get M (tlb m) base; m = m\<lparr>tlb := t\<rparr> in
     case r of
       Some r \<Rightarrow> if present (get_entry M (world m) r) then OK (m, r)
         else bindE (page_in M segs va r (world m)) (\<lambda>w. OK ((mmu_raise_page_fault m)\<lparr>world := w\<rparr>, r))
     | None \<Rightarrow> let m = mmu_tlb_miss m; pde = get_entry M (world m) (pd, VPN0 base) in
         if \<not> present pde then Fault Null_Deref
         else let r = (base_addr pde, VPN1 base) in OK (m\<lparr>tlb := tlb_add M (tlb m) base r\<rparr>, r))"

definition mmu_read_from_virtual_address ::
    "('k, 't) machine \<Rightarrow> ('k, 't) mmu \<Rightarrow> 32 word \<Rightarrow> nat \<Rightarrow> size_t \<Rightarrow> (('k, 't) mmu \<times> string option) res" where
  "mmu_read_from_virtual_address M m va pid n = bindE (mmu_asserts M va pid n) (\<lambda>_.
     case page_directories m pid of None \<Rightarrow> OK (m, None)
     | Some pd \<Rightarrow> (let m = switch_process M pid m in
         case segmentations m pid of None \<Rightarrow> Fault Null_Deref
         | Some segs \<Rightarrow>
             if \<not> in_segments M segs va then OK (mmu_raise_segmentation_fault m, None)
             else bindE (read_entry M pd segs va m) (\<lambda>(m, r).
               let w = upd_entry M r (accessed_update (\<lambda>_. True)) (world m) in
               bindE (copy_from_frame (base_addr (get_entry M w r)) (unat n) w) (\<lambda>bytes.
               OK (m\<lparr>world := w\<rparr>, Some bytes)))))"

text \<open>Lines 102 to 131 of a write.\<close>

definition find_pte :: "('k, 't) machine \<Rightarrow> frame \<Rightarrow> 32 word \<Rightarrow> ('k, 't) mmu \<Rightarrow> ('k, 't) mmu \<times> ref" where
  "find_pte M pd base m = (let (r, t) = tlb_get M (tlb m) base; m = m\<lparr>tlb := t\<rparr> in
     case r of
       Some r \<Rightarrow> (m, r)
     | None \<Rightarrow> let m = mmu_tlb_miss m; d = (pd, VPN0 base);
         m = (if present (get_entry M (world m) d) then m
              else (mmu_raise_page_fault m)\<lparr>world := upd_entry M d (\<lambda>e. e\<lparr>read_write := True, user_supervisor := True\<rparr>)
                (load_frame M d (world m))\<rparr>)
         in (m, (base_addr (get_entry M (world m) d), VPN1 base)))"

definition write_entry :: "('k, 't) machine \<Rightarrow> frame \<Rightarrow> segments \<Rightarrow> 32 word \<Rightarrow> ('k, 't) mmu \<Rightarrow> (('k, 't) mmu \<times> ref) res" where
  "write_entry M pd segs va m = (let base = BASE_ADDR va; (m, r) = find_pte M pd base m;
       m = m\<lparr>tlb := tlb_add M (tlb m) base r\<rparr> in
     if present (get_entry M (world m) r) then OK (m, r)
     else bindE (page_in M segs va r (world m)) (\<lambda>w. OK ((mmu_raise_page_fault m)\<lparr>world := w\<rparr>, r)))"

definition mmu_write_to_virtual_address ::
    "('k, 't) machine \<Rightarrow> ('k, 't) mmu \<Rightarrow> 32 word \<Rightarrow> nat \<Rightarrow> string \<Rightarrow> size_t \<Rightarrow> ('k, 't) mmu res" where
  "mmu_write_to_virtual_address M m va pid buf n = bindE (mmu_asserts M va pid n) (\<lambda>_.
     case page_directories m pid of None \<Rightarrow> OK m
     | Some pd \<Rightarrow> (let m = switch_process M pid m in
         case segmentations m pid of None \<Rightarrow> Fault Null_Deref
         | Some segs \<Rightarrow>
             if \<not> in_segments M segs va then OK (mmu_raise_segmentation_fault m)
             else bindE (write_entry M pd segs va m) (\<lambda>(m, r).
               if \<not> read_write (get_entry M (world m) r) then OK (mmu_raise_segmentation_fault m)
               else let w = upd_entry M r (\<lambda>e. e\<lparr>dirty := True, accessed := True\<rparr>) (world m) in
               bindE (copy_to_frame (base_addr (get_entry M w r)) buf (unat n) w) (\<lambda>w. OK (m\<lparr>world := w\<rparr>)))))"

definition default_segments :: "('k, 't) machine \<Rightarrow> segments" where
  "default_segments M s = (case s of
     STACK \<Rightarrow> \<lparr>seg_start = 0xBFFFE000, seg_end = 0xC07FE000, permissions = P_READ M OR P_WRITE M, grows_down = True\<rparr>
   | MMAP \<Rightarrow> \<lparr>seg_start = 0xC07FE000, seg_end = 0xC07FE000, permissions = P_READ M OR P_EXEC M OR P_WRITE M, grows_down = True\<rparr>
   | HEAP \<Rightarrow> \<lparr>seg_start = 0x08072000, seg_end = 0x08072000, permissions = P_READ M OR P_WRITE M, grows_down = False\<rparr>
   | BSS \<Rightarrow> \<lparr>seg_start = 0x0805A000, seg_end = 0x08072000, permissions = P_READ M OR P_WRITE M, grows_down = False\<rparr>
   | DATA \<Rightarrow> \<lparr>seg_start = 0x08052000, seg_end = 0x0805A000, permissions = P_READ M OR P_WRITE M, grows_down = False\<rparr>
   | TEXT \<Rightarrow> \<lparr>seg_start = 0x08048000, seg_end = 0x08052000, permissions = P_READ M OR P_EXEC M, grows_down = False\<rparr>
   | TESTING \<Rightarrow> \<lparr>seg_start = 0x1000, seg_end = 0x3000, permissions = P_READ M OR P_WRITE M, grows_down = False\<rparr>)"

text \<open>An entry for a new frame; the flags are set after the frame is entered.\<close>

definition map_frame :: "('k, 't) machine \<Rightarrow> ref option \<Rightarrow> ref \<Rightarrow> 'k world \<Rightarrow> 'k world" where
  "map_frame M owner r w = (let (a, w) = ask_kernel M owner w in
     upd_entry M r (\<lambda>e. e\<lparr>base_addr := BASE_ADDR a, present := True, read_write := True, user_supervisor := True\<rparr>) w)"

definition mmu_add_process :: "('k, 't) machine \<Rightarrow> nat \<Rightarrow> ('k, 't) mmu \<Rightarrow> ('k, 't) mmu res" where
  "mmu_add_process M pid m = bindE (assertE (pid < MAX_PROCESS_ID M)) (\<lambda>_.
     let (a, w) = ask_kernel M None (world m); pd = BASE_ADDR a; pde = (pd, 0);
       w = map_frame M None pde w;
       w = foldl (\<lambda>w i. let r = (base_addr (get_entry M w pde), i) in map_frame M (Some r) r w) w [1..<3]
     in OK (m\<lparr>page_directories := (page_directories m)(pid := Some pd),
          segmentations := (segmentations m)(pid := Some (default_segments M)), world := w\<rparr>))"

definition remove_entry :: "('k, 't) machine \<Rightarrow> frame \<Rightarrow> 'k world \<Rightarrow> nat \<Rightarrow> 'k world" where
  "remove_entry M pt w vpn2 = (let pte = get_entry M w (pt, vpn2) in
     remove_swap M (pt, vpn2) (if present pte then return_frame M (base_addr pte) w else w))"

definition remove_table :: "('k, 't) machine \<Rightarrow> frame \<Rightarrow> 'k world \<Rightarrow> nat \<Rightarrow> 'k world" where
  "remove_table M pd w vpn1 = (let pde = get_entry M w (pd, vpn1) in
     if present pde then return_frame M (base_addr pde) (foldl (remove_entry M (base_addr pde)) w [0..<NUM_ENTRIES]) else w)"

definition mmu_remove_process :: "('k, 't) machine \<Rightarrow> nat \<Rightarrow> ('k, 't) mmu \<Rightarrow> ('k, 't) mmu res" where
  "mmu_remove_process M pid m = bindE (assertE (pid < MAX_PROCESS_ID M)) (\<lambda>_.
     let w = (case page_directories m pid of None \<Rightarrow> world m
         | Some pd \<Rightarrow> return_frame M pd (foldl (remove_table M pd) (world m) [0..<NUM_ENTRIES]));
       t = (if curr_pid m = pid then tlb_flush M (tlb m) else tlb m)
     in OK (m\<lparr>page_directories := (page_directories m)(pid := None), segmentations := (segmentations m)(pid := None),
          world := w, tlb := t\<rparr>))"

definition mmu_delete :: "('k, 't) machine \<Rightarrow> ('k, 't) mmu \<Rightarrow> 'k world res" where
  "mmu_delete M m = bindE (forE [0..<MAX_PROCESS_ID M] (mmu_remove_process M) m) (\<lambda>m. OK (remove_swaps M (world m)))"

text \<open>A state the unit can get into: the calls of its client, as long as the kernel has four frames left.\<close>

inductive reachable :: "('k, 't) machine \<Rightarrow> ('k \<Rightarrow> frame set) \<Rightarrow> ('k, 't) mmu \<Rightarrow> bool" for M owned where
  create: "reachable M owned (mmu_create M w)"
| add: "reachable M owned m \<Longrightarrow> card (owned (fst (world m))) + 4 \<le> NUM_PHYSICAL_PAGES M \<Longrightarrow> page_directories m pid = None \<Longrightarrow>
    mmu_add_process M pid m = OK m' \<Longrightarrow> reachable M owned m'"
| remove: "reachable M owned m \<Longrightarrow> mmu_remove_process M pid m = OK m' \<Longrightarrow> reachable M owned m'"
| read_va: "reachable M owned m \<Longrightarrow> card (owned (fst (world m))) + 4 \<le> NUM_PHYSICAL_PAGES M \<Longrightarrow>
    mmu_read_from_virtual_address M m va pid n = OK (m', bytes) \<Longrightarrow> reachable M owned m'"
| write_va: "reachable M owned m \<Longrightarrow> card (owned (fst (world m))) + 4 \<le> NUM_PHYSICAL_PAGES M \<Longrightarrow>
    mmu_write_to_virtual_address M m va pid buf n = OK m' \<Longrightarrow> reachable M owned m'"

section \<open>Specification\<close>

text \<open>
  What is relied on of the kernel as long as it has frames left. \<open>owned\<close> are the frames it has given
  away; of a kernel that has written a page to the disk to take its frame back they are all frames,
  whose number is more than \<open>NUM_PHYSICAL_PAGES\<close>. With less than \<open>NUM_PHYSICAL_PAGES\<close> of them given
  away the kernel gives a fresh one full of zeros. Reading a page from the disk does nothing as long
  as nothing was written there. Giving a frame back and removing a swap file leave the memory and
  the other frames alone.
\<close>

definition kernel_ok :: "('k, 't) machine \<Rightarrow> ('k \<Rightarrow> frame set) \<Rightarrow> bool" where
  "kernel_ok M owned \<longleftrightarrow>
     (\<forall>r k p. card (owned k) < NUM_PHYSICAL_PAGES M \<longrightarrow> (case ask_kernel M r (k, p) of (a, k', p') \<Rightarrow> BASE_ADDR a \<notin> owned k \<and>
        owned k' = insert (BASE_ADDR a) (owned k) \<and> p' = p(BASE_ADDR a := replicate 4096 (CHR 0x00)))) \<and>
     (\<forall>r k p. card (owned k) \<le> NUM_PHYSICAL_PAGES M \<longrightarrow>
        owned (fst (read_page M r (k, p))) = owned k \<and> snd (read_page M r (k, p)) = p) \<and>
     (\<forall>f k p. owned k - {f} \<subseteq> owned (fst (return_frame M f (k, p))) \<and> snd (return_frame M f (k, p)) = p) \<and>
     (\<forall>r k p. owned (fst (remove_swap M r (k, p))) = owned k \<and> snd (remove_swap M r (k, p)) = p)"

text \<open>A buffer of a bounded number of translations: it may forget old ones.\<close>

definition tlb_ok :: "('k, 't) machine \<Rightarrow> ('t \<Rightarrow> 32 word \<Rightarrow> ref option) \<Rightarrow> bool" where
  "tlb_ok M look \<longleftrightarrow> (\<forall>v. look (tlb_new M) v = None) \<and> (\<forall>t v. look (tlb_flush M t) v = None) \<and>
     (\<forall>t v. fst (tlb_get M t v) = look t v \<and> look (snd (tlb_get M t v)) = look t) \<and>
     (\<forall>t v r. look (tlb_add M t v r) v = Some r \<and>
        (\<forall>u. u \<noteq> v \<longrightarrow> look (tlb_add M t v r) u = None \<or> look (tlb_add M t v r) u = look t u))"

definition layout_ok :: "('k, 't) machine \<Rightarrow> bool" where
  "layout_ok M \<longleftrightarrow> (\<forall>e. base_addr e < 2 ^ 20 \<longrightarrow> decode_entry M (encode_entry M e) = e) \<and>
     (\<forall>s. base_addr (decode_entry M s) < 2 ^ 20) \<and> (\<forall>e. length (encode_entry M e) = 4) \<and> \<not> present (decode_entry M (replicate 4 (CHR 0x00)))"

text \<open>The frame of a page, by the directory and the table of the process, and its content.\<close>

definition frame_of :: "('k, 't) machine \<Rightarrow> ('k, 't) mmu \<Rightarrow> nat \<Rightarrow> 32 word \<Rightarrow> frame option" where
  "frame_of M m pid va = (case page_directories m pid of None \<Rightarrow> None
     | Some pd \<Rightarrow> let pde = get_entry M (world m) (pd, VPN0 (BASE_ADDR va));
         pte = get_entry M (world m) (base_addr pde, VPN1 (BASE_ADDR va)) in
       if present pde \<and> present pte then Some (base_addr pte) else None)"

definition page_of :: "('k, 't) machine \<Rightarrow> ('k, 't) mmu \<Rightarrow> nat \<Rightarrow> 32 word \<Rightarrow> string option" where
  "page_of M m pid va = map_option (snd (world m)) (frame_of M m pid va)"

section \<open>Entries in memory\<close>

lemma BASE_ADDR_less: "BASE_ADDR a < 2 ^ 20"
proof -
  have "unat a < 2 ^ LENGTH(32)" by (rule unsigned_less)
  then show ?thesis
    by (simp add: BASE_ADDR_def word_less_nat_alt unat_drop_bit_eq drop_bit_nat_def less_mult_imp_div_less)
qed

lemma VPN0_eq: "VPN0 v = unat v div 1024"
  by (simp add: VPN0_def unat_drop_bit_eq drop_bit_nat_def)

lemma VPN0_less: "v < 2 ^ 20 \<Longrightarrow> VPN0 v < 1024"
  by (simp add: VPN0_eq word_less_nat_alt less_mult_imp_div_less)

lemma VPN1_eq: "VPN1 v = unat v mod 1024"
proof -
  have "(0x3FF :: 32 word) = mask 10" by (simp add: mask_eq_exp_minus_1)
  then have "VPN1 v = unat (take_bit 10 v)" unfolding VPN1_def take_bit_eq_mask by (rule arg_cong)
  also have "\<dots> = take_bit 10 (unat v)" by (rule unsigned_take_bit_eq)
  finally show ?thesis by (simp add: take_bit_nat_def)
qed

lemma VPN1_less: "VPN1 v < 1024"
  by (simp add: VPN1_eq)

lemma VPN_inj: "VPN0 u = VPN0 v \<Longrightarrow> VPN1 u = VPN1 v \<Longrightarrow> u = v"
proof -
  assume "VPN0 u = VPN0 v" "VPN1 u = VPN1 v"
  then have "unat u div 1024 = unat v div 1024" "unat u mod 1024 = unat v mod 1024"
    by (simp_all only: VPN0_eq VPN1_eq)
  then have "unat u = unat v" by (metis div_mult_mod_eq)
  then show "u = v" by (simp only: unsigned_word_eqI)
qed

lemma layout_okD:
  assumes "layout_ok M"
  shows "base_addr e < 2 ^ 20 \<Longrightarrow> decode_entry M (encode_entry M e) = e" "base_addr (decode_entry M s) < 2 ^ 20"
    "length (encode_entry M e) = 4" "\<not> present (decode_entry M (replicate 4 (CHR 0x00)))"
  using assms by (simp_all add: layout_ok_def)

lemma base_addr_less: "layout_ok M \<Longrightarrow> base_addr (get_entry M w r) < 2 ^ 20"
  unfolding get_entry_def by (rule layout_okD(2))

lemma get_put_same:
  assumes "layout_ok M" "base_addr e < 2 ^ 20" "length (snd w t) = 4096" "i < 1024"
  shows "get_entry M (put_entry M (t, i) e w) (t, i) = e"
  using assms by (simp add: get_entry_def put_entry_def layout_okD min_def)

lemma get_put_frame: "g \<noteq> t \<Longrightarrow> get_entry M (put_entry M (t, i) e w) (g, j) = get_entry M w (g, j)"
  by (simp add: get_entry_def put_entry_def)

lemma get_put_index:
  assumes "layout_ok M" "length (snd w t) = 4096" "i < 1024" "j < 1024" "i \<noteq> j"
  shows "get_entry M (put_entry M (t, i) e w) (t, j) = get_entry M w (t, j)"
proof -
  let ?s = "snd w t" and ?e = "encode_entry M e"
  have e: "length ?e = 4" by (rule layout_okD(3) [OF assms(1)])
  have "take 4 (drop (4 * j) (take (4 * i) ?s @ ?e @ drop (4 * i + 4) ?s)) = take 4 (drop (4 * j) ?s)"
  proof (cases "j < i")
    case True
    then have "4 * j + 4 \<le> 4 * i" "4 \<le> 4 * i - 4 * j" by simp_all
    then show ?thesis using assms(2,3) e by (simp add: drop_take min_def)
  next
    case False
    then have "4 * i + 4 \<le> 4 * j" using assms(5) by simp
    moreover from this have "4 * j - 4 * i - 4 + (4 * i + 4) = 4 * j" by simp
    ultimately show ?thesis using assms(2-4) e by (simp add: min_def add.commute)
  qed
  then show ?thesis by (simp add: get_entry_def put_entry_def)
qed

lemma put_put: "layout_ok M \<Longrightarrow> length (snd w t) = 4096 \<Longrightarrow> i < 1024 \<Longrightarrow>
    put_entry M (t, i) e (put_entry M (t, i) e' w) = put_entry M (t, i) e w"
  by (simp add: put_entry_def layout_okD min_def)

lemma length_put: "layout_ok M \<Longrightarrow> length (snd w t) = 4096 \<Longrightarrow> i < 1024 \<Longrightarrow> length (snd (put_entry M (t, i) e w) t) = 4096"
  by (simp add: put_entry_def layout_okD)

lemma snd_put: "g \<noteq> t \<Longrightarrow> snd (put_entry M (t, i) e w) g = snd w g"
  by (simp add: put_entry_def)

lemma fst_put [simp]: "fst (put_entry M r e w) = fst w"
  by (simp add: put_entry_def)

lemma get_entry_zeros:
  assumes "layout_ok M" "snd w f = replicate 4096 (CHR 0x00)" "i < 1024"
  shows "\<not> present (get_entry M w (f, i))"
proof -
  have "take 4 (drop (4 * i) (replicate 4096 (CHR 0x00))) = replicate 4 (CHR 0x00)"
    using assms(3) by (simp add: min_def)
  then show ?thesis using layout_okD(4) [OF assms(1)] assms(2) by (simp add: get_entry_def)
qed

section \<open>What each frame is for\<close>

text \<open>
  Each frame in use is the directory of a process, the table of one of its directory entries, or a
  page of one of these tables. An entry that is present leads to the frame of its place.
\<close>

datatype role = Dir nat | Tab nat nat | Page nat nat nat

primrec sub :: "role \<Rightarrow> nat \<Rightarrow> role option" where
  "sub (Dir p) i = Some (Tab p i)"
| "sub (Tab p i) j = Some (Page p i j)"
| "sub (Page p i j) k = None"

definition wok :: "('k, 't) machine \<Rightarrow> ('k \<Rightarrow> frame set) \<Rightarrow> (frame \<Rightarrow> role option) \<Rightarrow> 'k world \<Rightarrow> bool" where
  "wok M owned R w \<longleftrightarrow> (\<forall>f r. R f = Some r \<longrightarrow> f \<in> owned (fst w) \<and> length (snd w f) = 4096) \<and>
     (\<forall>f r i c. R f = Some r \<longrightarrow> sub r i = Some c \<longrightarrow> i < 1024 \<longrightarrow> present (get_entry M w (f, i)) \<longrightarrow>
        R (base_addr (get_entry M w (f, i))) = Some c)"

lemma wokD:
  assumes "wok M owned R w" "R f = Some r"
  shows "f \<in> owned (fst w)" "length (snd w f) = 4096"
    "sub r i = Some c \<Longrightarrow> i < 1024 \<Longrightarrow> present (get_entry M w (f, i)) \<Longrightarrow> R (base_addr (get_entry M w (f, i))) = Some c"
  using assms by (simp_all add: wok_def)

text \<open>A fresh frame of zeros that is entered.\<close>

definition link :: "('k, 't) machine \<Rightarrow> ref \<Rightarrow> entry \<Rightarrow> 'k \<Rightarrow> 'k world \<Rightarrow> 'k world" where
  "link M r e k w = put_entry M r e (k, (snd w)(base_addr e := replicate 4096 (CHR 0x00)))"

lemma fst_link [simp]: "fst (link M r e k w) = k"
  by (simp add: link_def)

lemma snd_link: "g \<noteq> t \<Longrightarrow> snd (link M (t, i) e k w) g = (if g = base_addr e then replicate 4096 (CHR 0x00) else snd w g)"
  by (simp add: link_def snd_put)

lemma get_link:
  assumes lay: "layout_ok M"
    and "wok M owned R w" "R (base_addr e) = None" "R t = Some r" "i < 1024" "j < 1024" "R g = Some r'" "base_addr e < 2 ^ 20"
  shows "get_entry M (link M (t, i) e k w) (g, j) = (if (g, j) = (t, i) then e else get_entry M w (g, j))"
proof -
  have g: "g \<noteq> base_addr e" "t \<noteq> base_addr e" using assms(3,4,7) by auto
  have l: "length (snd (k, (snd w)(base_addr e := replicate 4096 (CHR 0x00))) t) = 4096"
    using wokD(2) [OF assms(2,4)] g by simp
  have same: "get_entry M (k, (snd w)(base_addr e := replicate 4096 (CHR 0x00))) (g, j) = get_entry M w (g, j)"
    using g by (simp add: get_entry_def)
  consider "g \<noteq> t" | "g = t" "j \<noteq> i" | "g = t" "j = i" by blast
  then show ?thesis
  proof cases
    case 1
    then show ?thesis by (simp add: link_def get_put_frame same)
  next
    case 2
    then show ?thesis using get_put_index [OF lay l assms(5,6), of e] same by (simp add: link_def)
  next
    case 3
    then show ?thesis using get_put_same [OF lay assms(8) l assms(5)] by (simp add: link_def)
  qed
qed

lemma get_link_new:
  assumes lay: "layout_ok M" and "R (base_addr e) = None" "R t = Some r" "j < 1024"
  shows "\<not> present (get_entry M (link M (t, i) e k w) (base_addr e, j))"
proof -
  have "base_addr e \<noteq> t" using assms by auto
  then show ?thesis using get_entry_zeros [OF lay _ assms(4)] by (simp add: snd_link)
qed

lemma wok_link:
  assumes lay: "layout_ok M" and w: "wok M owned R w" and f: "R (base_addr e) = None" "base_addr e < 2 ^ 20" and t: "R t = Some r" "sub r i = Some c" "i < 1024"
    and o: "insert (base_addr e) (owned (fst w)) \<subseteq> owned k"
  shows "wok M owned (R(base_addr e \<mapsto> c)) (link M (t, i) e k w)"
proof -
  let ?R = "R(base_addr e \<mapsto> c)" and ?w = "link M (t, i) e k w"
  have te: "t \<noteq> base_addr e" using f t by auto
  have "g \<in> owned k \<and> length (snd ?w g) = 4096" if "?R g = Some r'" for g r'
  proof (cases "g = base_addr e")
    case True
    then show ?thesis using te o by (simp add: snd_link)
  next
    case False
    then have g: "R g = Some r'" using that by simp
    have "length (snd (k, (snd w)(base_addr e := replicate 4096 (CHR 0x00))) t) = 4096"
      using wokD(2) [OF w t(1)] te by simp
    from length_put [OF lay this t(3)] have "length (snd ?w t) = 4096" by (simp add: link_def)
    moreover have "length (snd ?w g) = 4096" if "g \<noteq> t" using that False wokD(2) [OF w g] by (simp add: snd_link)
    ultimately show ?thesis using wokD(1) [OF w g] o by blast
  qed
  moreover have "?R (base_addr (get_entry M ?w (g, j))) = Some c'"
    if "?R g = Some r'" "sub r' j = Some c'" "j < 1024" "present (get_entry M ?w (g, j))" for g r' j c'
  proof (cases "g = base_addr e")
    case True
    then show ?thesis using get_link_new [OF lay f(1) t(1) that(3)] that(4) by simp
  next
    case False
    then have g: "R g = Some r'" using that(1) by simp
    note get = get_link [OF lay w f(1) t(1,3) that(3) g f(2), of k]
    show ?thesis
    proof (cases "(g, j) = (t, i)")
      case True
      then show ?thesis using get t g that(2) by simp
    next
      case ne: False
      then have "R (base_addr (get_entry M w (g, j))) = Some c'"
        using wokD(3) [OF w g that(2,3)] that(4) get by auto
      then show ?thesis using ne get f(1) by auto
    qed
  qed
  ultimately show ?thesis by (simp add: wok_def)
qed

text \<open>A change of the flags of an entry.\<close>

lemma get_touch:
  assumes lay: "layout_ok M" and "wok M owned R w" "R t = Some r" "i < 1024" "base_addr e < 2 ^ 20" "j < 1024"
  shows "get_entry M (put_entry M (t, i) e w) (g, j) = (if (g, j) = (t, i) then e else get_entry M w (g, j))"
  using get_put_same [OF lay assms(5) wokD(2) [OF assms(2,3)] assms(4)] get_put_frame [of g t M i e w j]
    get_put_index [OF lay wokD(2) [OF assms(2,3)] assms(4,6)] by auto

lemma wok_touch:
  assumes lay: "layout_ok M" and w: "wok M owned R w" and t: "R t = Some r" "i < 1024" and e: "base_addr e < 2 ^ 20"
    and c: "\<And>c. present e \<Longrightarrow> sub r i = Some c \<Longrightarrow> R (base_addr e) = Some c"
  shows "wok M owned R (put_entry M (t, i) e w)"
proof -
  have "length (snd (put_entry M (t, i) e w) f) = 4096" if "R f = Some r'" for f r'
    using length_put [OF lay wokD(2) [OF w t(1)] t(2)] wokD(2) [OF w that] snd_put [of f t M i e w] by (cases "f = t") simp_all
  moreover have "R (base_addr (get_entry M (put_entry M (t, i) e w) (f, j))) = Some d"
    if "R f = Some q" "sub q j = Some d" "j < 1024" "present (get_entry M (put_entry M (t, i) e w) (f, j))" for f q j d
    using that c t(1) wokD(3) [OF w that(1-3)] get_touch [OF lay w t e that(3), of f] by (auto split: if_splits)
  ultimately show ?thesis using wokD(1) [OF w] unfolding wok_def by simp
qed

section \<open>Frames from the kernel\<close>

lemma kernel_okD:
  assumes "kernel_ok M owned"
  shows "card (owned (fst w)) < NUM_PHYSICAL_PAGES M \<Longrightarrow> ask_kernel M r w = (a, w') \<Longrightarrow> BASE_ADDR a \<notin> owned (fst w) \<and>
      owned (fst w') = insert (BASE_ADDR a) (owned (fst w)) \<and> snd w' = (snd w)(BASE_ADDR a := replicate 4096 (CHR 0x00))"
    "card (owned (fst w)) \<le> NUM_PHYSICAL_PAGES M \<Longrightarrow> owned (fst (read_page M r' w)) = owned (fst w) \<and> snd (read_page M r' w) = snd w"
    "owned (fst w) - {f} \<subseteq> owned (fst (return_frame M f w))" "snd (return_frame M f w) = snd w"
    "owned (fst (remove_swap M r' w)) = owned (fst w)" "snd (remove_swap M r' w) = snd w"
proof -
  obtain k p where w: "w = (k, p)" by (cases w)
  note ok = assms [unfolded kernel_ok_def]
  from ok [THEN conjunct1, rule_format, of k p r]
  show "card (owned (fst w)) < NUM_PHYSICAL_PAGES M \<Longrightarrow> ask_kernel M r w = (a, w') \<Longrightarrow> BASE_ADDR a \<notin> owned (fst w) \<and>
      owned (fst w') = insert (BASE_ADDR a) (owned (fst w)) \<and> snd w' = (snd w)(BASE_ADDR a := replicate 4096 (CHR 0x00))"
    by (cases w') (simp add: w)
  from ok [THEN conjunct2, THEN conjunct1, rule_format, of k r' p]
  show "card (owned (fst w)) \<le> NUM_PHYSICAL_PAGES M \<Longrightarrow> owned (fst (read_page M r' w)) = owned (fst w) \<and> snd (read_page M r' w) = snd w"
    by (simp add: w)
  from ok [THEN conjunct2, THEN conjunct2, THEN conjunct1, rule_format, of k f p]
  show "owned (fst w) - {f} \<subseteq> owned (fst (return_frame M f w))" "snd (return_frame M f w) = snd w" by (simp_all add: w)
  from ok [THEN conjunct2, THEN conjunct2, THEN conjunct2, rule_format, of r' k p]
  show "owned (fst (remove_swap M r' w)) = owned (fst w)" "snd (remove_swap M r' w) = snd w" by (simp_all add: w)
qed

lemma upd_link:
  assumes "layout_ok M" "wok M owned R w" "R (base_addr e) = None" "base_addr e < 2 ^ 20" "R t = Some r" "i < 1024" "base_addr (g e) = base_addr e"
  shows "upd_entry M (t, i) g (link M (t, i) e k w) = link M (t, i) (g e) k w"
proof -
  have "t \<noteq> base_addr e" using assms(3,5) by auto
  then have l: "length (snd (k, (snd w)(base_addr e := replicate 4096 (CHR 0x00))) t) = 4096"
    using wokD(2) [OF assms(2,5)] by simp
  show ?thesis using get_put_same [OF assms(1,4) l assms(6)] put_put [OF assms(1) l assms(6)] assms(7)
    by (simp add: upd_entry_def link_def)
qed

text \<open>A frame that \<open>f\<close> is fresh for the roles, and the kernel that has given it.\<close>

definition fresh :: "('k \<Rightarrow> frame set) \<Rightarrow> (frame \<Rightarrow> role option) \<Rightarrow> 'k world \<Rightarrow> frame \<Rightarrow> 'k \<Rightarrow> bool" where
  "fresh owned R w f k \<longleftrightarrow> R f = None \<and> f < 2 ^ 20 \<and> f \<notin> owned (fst w) \<and> owned k = insert f (owned (fst w))"

lemma fresh_card: "fresh owned R w f k \<Longrightarrow> card (owned k) = Suc (card (owned (fst w)))"
  by (simp add: fresh_def card_insert_disjoint)

lemma ask_fresh:
  assumes "kernel_ok M owned" "wok M owned R w" "card (owned (fst w)) < NUM_PHYSICAL_PAGES M" "ask_kernel M r w = (a, w')"
  shows "fresh owned R w (BASE_ADDR a) (fst w')" "snd w' = (snd w)(BASE_ADDR a := replicate 4096 (CHR 0x00))"
  using kernel_okD(1) [OF assms(1,3,4)] wokD(1) [OF assms(2)] BASE_ADDR_less [of a]
  by (auto simp: fresh_def simp del: not_None_eq split: option.splits) (metis not_None_eq)

lemma map_frame_link:
  assumes "kernel_ok M owned" "layout_ok M" "wok M owned R w" "card (owned (fst w)) < NUM_PHYSICAL_PAGES M" "R t = Some r" "i < 1024"
  shows "\<exists>f k. fresh owned R w f k \<and> map_frame M own (t, i) w = link M (t, i)
    ((get_entry M w (t, i))\<lparr>base_addr := f, present := True, read_write := True, user_supervisor := True\<rparr>) k w"
proof -
  obtain a w' where a: "ask_kernel M own w = (a, w')" by (cases "ask_kernel M own w")
  note f = ask_fresh [OF assms(1,3,4) a]
  have "t \<noteq> BASE_ADDR a" using f(1) assms(5) by (auto simp: fresh_def)
  then have "get_entry M w' (t, i) = get_entry M w (t, i)" by (simp add: get_entry_def f(2))
  moreover have "w' = (fst w', (snd w)(BASE_ADDR a := replicate 4096 (CHR 0x00)))" using f(2) by (metis prod.collapse)
  ultimately have "map_frame M own (t, i) w = link M (t, i)
    ((get_entry M w (t, i))\<lparr>base_addr := BASE_ADDR a, present := True, read_write := True, user_supervisor := True\<rparr>) (fst w') w"
    by (simp add: map_frame_def a upd_entry_def link_def)
  then show ?thesis using f(1) by blast
qed

lemma load_frame_link:
  assumes "kernel_ok M owned" "layout_ok M" "wok M owned R w" "card (owned (fst w)) < NUM_PHYSICAL_PAGES M" "R t = Some r" "i < 1024"
  shows "\<exists>f k. fresh owned R w f k \<and>
    load_frame M (t, i) w = link M (t, i) ((get_entry M w (t, i))\<lparr>base_addr := f, present := True\<rparr>) k w"
proof -
  obtain a w' where a: "ask_kernel M (Some (t, i)) w = (a, w')" by (cases "ask_kernel M (Some (t, i)) w")
  note f = ask_fresh [OF assms(1,3,4) a]
  let ?e = "(get_entry M w (t, i))\<lparr>base_addr := BASE_ADDR a\<rparr>"
  have t: "t \<noteq> BASE_ADDR a" using f(1) assms(5) by (auto simp: fresh_def)
  then have "get_entry M w' (t, i) = get_entry M w (t, i)" by (simp add: get_entry_def f(2))
  then have u: "upd_entry M (t, i) (base_addr_update (\<lambda>_. BASE_ADDR a)) w' = put_entry M (t, i) ?e w'"
    by (simp add: upd_entry_def)
  define w2 where "w2 = read_page M (t, i) (put_entry M (t, i) ?e w')"
  have "card (owned (fst (put_entry M (t, i) ?e w'))) \<le> NUM_PHYSICAL_PAGES M"
    using fresh_card [OF f(1)] assms(4) by simp
  from kernel_okD(2) [OF assms(1) this, of "(t, i)"]
  have w2: "owned (fst w2) = owned (fst w')" "snd w2 = snd (put_entry M (t, i) ?e w')"
    by (simp_all add: w2_def)
  then have w2': "w2 = link M (t, i) ?e (fst w2) w"
    by (simp add: link_def put_entry_def f(2) prod_eq_iff)
  have "fresh owned R w (BASE_ADDR a) (fst w2)" using f(1) w2(1) by (simp add: fresh_def)
  moreover have "load_frame M (t, i) w = upd_entry M (t, i) (present_update (\<lambda>_. True)) w2"
    by (simp add: load_frame_def a u w2_def)
  moreover have "\<dots> = link M (t, i) (?e\<lparr>present := True\<rparr>) (fst w2) w"
    using upd_link [OF assms(2,3), of ?e t r i "present_update (\<lambda>_. True)" "fst w2"] f(1) assms(5,6) w2'
    by (simp add: fresh_def)
  ultimately show ?thesis by auto
qed

section \<open>The invariant\<close>

text \<open>
  Besides the roles: the directories are those of their processes, and the translation buffer holds
  what the directory and the tables of the current process say.
\<close>

definition mmu_inv :: "('k, 't) machine \<Rightarrow> ('k \<Rightarrow> frame set) \<Rightarrow> ('t \<Rightarrow> 32 word \<Rightarrow> ref option) \<Rightarrow> (frame \<Rightarrow> role option) \<Rightarrow> ('k, 't) mmu \<Rightarrow> bool" where
  "mmu_inv M owned look R m \<longleftrightarrow> wok M owned R (world m) \<and>
     (\<forall>p d. page_directories m p = Some d \<longrightarrow> R d = Some (Dir p) \<and> segmentations m p \<noteq> None) \<and>
     (\<forall>v r. look (tlb m) v = Some r \<longrightarrow> v < 2 ^ 20 \<and> (\<exists>d. page_directories m (curr_pid m) = Some d \<and>
        present (get_entry M (world m) (d, VPN0 v)) \<and> r = (base_addr (get_entry M (world m) (d, VPN0 v)), VPN1 v)))"

lemma invD:
  assumes "mmu_inv M owned look R m"
  shows "wok M owned R (world m)" "page_directories m p = Some d \<Longrightarrow> R d = Some (Dir p)"
    "page_directories m p = Some d \<Longrightarrow> segmentations m p \<noteq> None"
    "look (tlb m) v = Some r \<Longrightarrow> v < 2 ^ 20 \<and> (\<exists>d. page_directories m (curr_pid m) = Some d \<and>
        present (get_entry M (world m) (d, VPN0 v)) \<and> r = (base_addr (get_entry M (world m) (d, VPN0 v)), VPN1 v))"
  using assms unfolding mmu_inv_def by blast+

lemma inv_table:
  assumes "mmu_inv M owned look R m" "page_directories m p = Some d" "i < 1024" "present (get_entry M (world m) (d, i))"
  shows "R (base_addr (get_entry M (world m) (d, i))) = Some (Tab p i)"
  using wokD(3) [OF invD(1) [OF assms(1)] invD(2) [OF assms(1,2)] _ assms(3,4)] by simp

lemma inv_page:
  assumes "mmu_inv M owned look R m" "R t = Some (Tab p i)" "j < 1024" "present (get_entry M (world m) (t, j))"
  shows "R (base_addr (get_entry M (world m) (t, j))) = Some (Page p i j)"
  using wokD(3) [OF invD(1) [OF assms(1)] assms(2) _ assms(3,4)] by simp

lemma frame_of_role:
  assumes "mmu_inv M owned look R m" "frame_of M m p va = Some f"
  shows "R f = Some (Page p (VPN0 (BASE_ADDR va)) (VPN1 (BASE_ADDR va)))"
proof -
  obtain d where d: "page_directories m p = Some d" using assms(2) by (auto simp: frame_of_def split: option.splits)
  note b = VPN0_less [OF BASE_ADDR_less [of va]] VPN1_less [of "BASE_ADDR va"]
  show ?thesis using assms(2) inv_page [OF assms(1) inv_table [OF assms(1) d b(1)] b(2)]
    by (auto simp: frame_of_def d Let_def split: if_splits)
qed

lemma inv_simps [simp]:
  "mmu_inv M owned look R (mmu_tlb_miss m) = mmu_inv M owned look R m" "mmu_inv M owned look R (mmu_raise_page_fault m) = mmu_inv M owned look R m"
  "mmu_inv M owned look R (mmu_raise_segmentation_fault m) = mmu_inv M owned look R m"
  by (simp_all add: mmu_inv_def mmu_tlb_miss_def mmu_raise_page_fault_def mmu_raise_segmentation_fault_def)

lemma page_of_cong: "page_directories m' = page_directories m \<Longrightarrow> world m' = world m \<Longrightarrow> page_of M m' = page_of M m"
  by (rule ext)+ (simp add: page_of_def frame_of_def split: option.split)

lemma same_pages [simp]:
  "page_of M (mmu_tlb_miss m) = page_of M m" "page_of M (mmu_raise_page_fault m) = page_of M m"
  "page_of M (mmu_raise_segmentation_fault m) = page_of M m" "page_of M (m\<lparr>tlb := t\<rparr>) = page_of M m"
  "page_of M (switch_process M p m) = page_of M m"
  by (rule page_of_cong; simp add: mmu_tlb_miss_def mmu_raise_page_fault_def mmu_raise_segmentation_fault_def switch_process_def)+

lemma field_simps_mmu [simp]:
  "page_directories (mmu_tlb_miss m) = page_directories m" "page_directories (mmu_raise_page_fault m) = page_directories m"
  "page_directories (mmu_raise_segmentation_fault m) = page_directories m" "page_directories (switch_process M p m) = page_directories m"
  "segmentations (mmu_tlb_miss m) = segmentations m" "segmentations (mmu_raise_page_fault m) = segmentations m"
  "segmentations (mmu_raise_segmentation_fault m) = segmentations m" "segmentations (switch_process M p m) = segmentations m"
  "world (mmu_tlb_miss m) = world m" "world (mmu_raise_page_fault m) = world m"
  "world (mmu_raise_segmentation_fault m) = world m" "world (switch_process M p m) = world m"
  "curr_pid (mmu_tlb_miss m) = curr_pid m" "curr_pid (mmu_raise_page_fault m) = curr_pid m"
  "curr_pid (mmu_raise_segmentation_fault m) = curr_pid m" "curr_pid (switch_process M p m) = p"
  "tlb (mmu_tlb_miss m) = tlb m" "tlb (mmu_raise_page_fault m) = tlb m" "tlb (mmu_raise_segmentation_fault m) = tlb m"
  "num_segmentation_faults (mmu_tlb_miss m) = num_segmentation_faults m" "num_segmentation_faults (mmu_raise_page_fault m) = num_segmentation_faults m"
  "num_segmentation_faults (mmu_raise_segmentation_fault m) = num_segmentation_faults m + 1" "num_segmentation_faults (switch_process M p m) = num_segmentation_faults m"
  by (simp_all add: mmu_tlb_miss_def mmu_raise_page_fault_def mmu_raise_segmentation_fault_def switch_process_def)

section \<open>Linking a frame\<close>

lemma inv_link:
  assumes lay: "layout_ok M" and i: "mmu_inv M owned look R m" and f: "fresh owned R (world m) (base_addr e) k"
    and t: "R t = Some r" "sub r i = Some c" "i < 1024" "\<not> present (get_entry M (world m) (t, i))"
  shows "mmu_inv M owned look (R(base_addr e \<mapsto> c)) (m\<lparr>world := link M (t, i) e k (world m)\<rparr>)"
proof -
  have f': "R (base_addr e) = None" "base_addr e < 2 ^ 20" "insert (base_addr e) (owned (fst (world m))) \<subseteq> owned k"
    using f by (auto simp: fresh_def)
  have same: "get_entry M (link M (t, i) e k (world m)) (d, VPN0 v) = get_entry M (world m) (d, VPN0 v)"
    if "page_directories m p = Some d" "v < 2 ^ 20" "present (get_entry M (world m) (d, VPN0 v))" for p d v
    using get_link [OF lay invD(1) [OF i] f'(1) t(1,3) VPN0_less [OF that(2)] invD(2) [OF i that(1)] f'(2), of k] that(3) t(4) by auto
  have "look (tlb m) v = Some q \<longrightarrow> v < 2 ^ 20 \<and> (\<exists>d. page_directories m (curr_pid m) = Some d \<and>
      present (get_entry M (link M (t, i) e k (world m)) (d, VPN0 v)) \<and>
      q = (base_addr (get_entry M (link M (t, i) e k (world m)) (d, VPN0 v)), VPN1 v))" for v q
    using invD(4) [OF i] same by metis
  then show ?thesis using wok_link [OF lay invD(1) [OF i] f'(1,2) t(1-3) f'(3)] invD(2,3) [OF i] f'(1)
    unfolding mmu_inv_def by auto
qed

lemma page_of_unmapped: "page_directories m p = None \<Longrightarrow> page_of M m p v = None"
  by (simp add: page_of_def frame_of_def)

lemma page_of_eq:
  assumes "page_directories m p = Some d"
  shows "page_of M m p v = (let pde = get_entry M (world m) (d, VPN0 (BASE_ADDR v));
      pte = get_entry M (world m) (base_addr pde, VPN1 (BASE_ADDR v)) in
    if present pde \<and> present pte then Some (snd (world m) (base_addr pte)) else None)"
  using assms by (simp add: page_of_def frame_of_def Let_def)

text \<open>A new table has no pages, and a new page is full of zeros.\<close>

lemma page_of_link_table:
  assumes lay: "layout_ok M" and i: "mmu_inv M owned look R m" and f: "fresh owned R (world m) (base_addr e) k"
    and t: "page_directories m p = Some d" "i < 1024" "\<not> present (get_entry M (world m) (d, i))"
  shows "page_of M (m\<lparr>world := link M (d, i) e k (world m)\<rparr>) q v = page_of M m q v"
proof (cases "page_directories m q")
  case None
  then show ?thesis by (simp add: page_of_unmapped)
next
  case (Some dq)
  let ?w = "world m" and ?w' = "link M (d, i) e k (world m)" and ?i = "VPN0 (BASE_ADDR v)" and ?j = "VPN1 (BASE_ADDR v)"
  have f': "R (base_addr e) = None" "base_addr e < 2 ^ 20" using f by (auto simp: fresh_def)
  note w = invD(1) [OF i] and d = invD(2) [OF i t(1)] and dq = invD(2) [OF i Some] and b = VPN0_less [OF BASE_ADDR_less [of v]] VPN1_less [of "BASE_ADDR v"]
  have g: "get_entry M ?w' (g, j) = (if (g, j) = (d, i) then e else get_entry M ?w (g, j))" if "R g = Some r" "j < 1024" for g r j
    by (rule get_link [OF lay w f'(1) d t(2) that(2,1) f'(2)])
  show ?thesis
  proof (cases "(dq, ?i) = (d, i)")
    case True
    then show ?thesis using get_link_new [OF lay f'(1) d b(2), of i k ?w] g [OF dq b(1)] t(3)
      by (simp add: page_of_eq [where d = dq] Some Let_def)
  next
    case False
    note pde = g [OF dq b(1), unfolded if_not_P [OF False]]
    have "R (base_addr (get_entry M ?w (dq, ?i))) = Some (Tab q ?i)" if "present (get_entry M ?w (dq, ?i))"
      by (rule inv_table [OF i Some b(1) that])
    moreover have "R (base_addr (get_entry M ?w (tq, ?j))) = Some (Page q ?i ?j)" if "R tq = Some (Tab q ?i)" "present (get_entry M ?w (tq, ?j))" for tq
      by (rule inv_page [OF i that(1) b(2) that(2)])
    moreover have "snd ?w' h = snd ?w h" if "R h = Some (Page q ?i ?j)" for h
      using that f'(1) d by (subst snd_link) auto
    moreover have "get_entry M ?w' (tq, ?j) = get_entry M ?w (tq, ?j)" if "R tq = Some (Tab q ?i)" for tq
      using g [OF that b(2)] that d by auto
    ultimately show ?thesis
      by (cases "present (get_entry M ?w (dq, ?i))") (auto simp: page_of_eq [where d = dq] Some Let_def pde)
  qed
qed

lemma page_of_link_page:
  assumes lay: "layout_ok M" and i: "mmu_inv M owned look R m" and f: "fresh owned R (world m) (base_addr e) k" and e: "present e"
    and t: "page_directories m p = Some d" "i < 1024" "present (get_entry M (world m) (d, i))" "t = base_addr (get_entry M (world m) (d, i))"
      "j < 1024"
  shows "page_of M (m\<lparr>world := link M (t, j) e k (world m)\<rparr>) q v =
    (if q = p \<and> VPN0 (BASE_ADDR v) = i \<and> VPN1 (BASE_ADDR v) = j then Some (replicate 4096 (CHR 0x00)) else page_of M m q v)"
proof (cases "page_directories m q")
  case None
  then show ?thesis using t(1) by (auto simp: page_of_unmapped)
next
  case (Some dq)
  let ?w = "world m" and ?w' = "link M (t, j) e k (world m)" and ?i = "VPN0 (BASE_ADDR v)" and ?j = "VPN1 (BASE_ADDR v)"
  have f': "R (base_addr e) = None" "base_addr e < 2 ^ 20" using f by (auto simp: fresh_def)
  note w = invD(1) [OF i] and dq = invD(2) [OF i Some] and b = VPN0_less [OF BASE_ADDR_less [of v]] VPN1_less [of "BASE_ADDR v"]
  have T: "R t = Some (Tab p i)" unfolding t(4) by (rule inv_table [OF i t(1-3)])
  have g: "get_entry M ?w' (g, l) = (if (g, l) = (t, j) then e else get_entry M ?w (g, l))" if "R g = Some r" "l < 1024" for g r l
    by (rule get_link [OF lay w f'(1) T t(5) that(2,1) f'(2)])
  have "dq \<noteq> t" using dq T by auto
  then have pde: "get_entry M ?w' (dq, ?i) = get_entry M ?w (dq, ?i)" using g [OF dq b(1)] by simp
  show ?thesis
  proof (cases "present (get_entry M ?w (dq, ?i))")
    case False
    then have "\<not> (q = p \<and> ?i = i)" using t(1,3) Some by auto
    then show ?thesis using False pde by (auto simp: page_of_eq [where d = dq] Some Let_def)
  next
    case True
    note tq = inv_table [OF i Some b(1) True]
    let ?tq = "base_addr (get_entry M ?w (dq, ?i))"
    show ?thesis
    proof (cases "(?tq, ?j) = (t, j)")
      case eq: True
      then have "q = p" "?i = i" using tq T by auto
      moreover have "snd ?w' (base_addr e) = replicate 4096 (CHR 0x00)" using f'(1) T by (subst snd_link) auto
      ultimately show ?thesis using eq pde True g [OF tq b(2)] e Some by (auto simp: page_of_eq [where d = dq] Let_def)
    next
      case ne: False
      then have n: "\<not> (q = p \<and> ?i = i \<and> ?j = j)" using t(1,4) Some by auto
      have "get_entry M ?w' (?tq, ?j) = get_entry M ?w (?tq, ?j)" using g [OF tq b(2)] ne by (simp only: if_False)
      moreover have "snd ?w' (base_addr (get_entry M ?w (?tq, ?j))) = snd ?w (base_addr (get_entry M ?w (?tq, ?j)))"
        if "present (get_entry M ?w (?tq, ?j))"
        using inv_page [OF i tq b(2) that] f'(1) T by (subst snd_link) auto
      ultimately show ?thesis using n pde True
        by (cases "present (get_entry M ?w (?tq, ?j))") (auto simp: page_of_eq [where d = dq] Some Let_def)
    qed
  qed
qed

text \<open>Setting flags of an entry of a table, and writing into a page.\<close>

lemma get_touch_same:
  assumes "layout_ok M" "wok M owned R w" "R t = Some r" "j < 1024" "base_addr e = base_addr (get_entry M w (t, j))"
    "present e = present (get_entry M w (t, j))" "l < 1024"
  shows "base_addr (get_entry M (put_entry M (t, j) e w) (g, l)) = base_addr (get_entry M w (g, l))"
    "present (get_entry M (put_entry M (t, j) e w) (g, l)) = present (get_entry M w (g, l))"
  using get_touch [OF assms(1-4) _ assms(7), of e g] base_addr_less [OF assms(1), of w "(t, j)"] assms(5,6) by simp_all

lemma frame_of_touch:
  assumes "layout_ok M" "mmu_inv M owned look R m" "R t = Some r" "j < 1024" "base_addr e = base_addr (get_entry M (world m) (t, j))"
    "present e = present (get_entry M (world m) (t, j))"
  shows "frame_of M (m\<lparr>world := put_entry M (t, j) e (world m)\<rparr>) = frame_of M m"
proof -
  note same = get_touch_same [OF assms(1) invD(1) [OF assms(2)] assms(3-6)]
  have "frame_of M (m\<lparr>world := put_entry M (t, j) e (world m)\<rparr>) q v = frame_of M m q v" for q v
    using VPN0_less [OF BASE_ADDR_less [of v]] VPN1_less [of "BASE_ADDR v"]
    by (cases "page_directories m q") (simp_all add: frame_of_def Let_def same)
  then show ?thesis by blast
qed

lemma inv_touch:
  assumes lay: "layout_ok M" and i: "mmu_inv M owned look R m" and t: "R t = Some (Tab p i)" "j < 1024"
    and e: "base_addr e = base_addr (get_entry M (world m) (t, j))" "present e = present (get_entry M (world m) (t, j))"
  shows "mmu_inv M owned look R (m\<lparr>world := put_entry M (t, j) e (world m)\<rparr>) \<and>
    page_of M (m\<lparr>world := put_entry M (t, j) e (world m)\<rparr>) = page_of M m"
proof -
  let ?w = "world m" and ?w' = "put_entry M (t, j) e (world m)"
  note w = invD(1) [OF i]
  note same = get_touch_same [OF lay w t e]
  have "wok M owned R ?w'"
    by (rule wok_touch [OF lay w t]) (use e base_addr_less [OF lay] wokD(3) [OF w t(1)] t(2) in \<open>auto simp del: sub.simps\<close>)
  moreover have "look (tlb m) v = Some r \<longrightarrow> v < 2 ^ 20 \<and> (\<exists>d. page_directories m (curr_pid m) = Some d \<and>
      present (get_entry M ?w' (d, VPN0 v)) \<and> r = (base_addr (get_entry M ?w' (d, VPN0 v)), VPN1 v))" for v r
    using invD(4) [OF i, of v r] same VPN0_less by auto
  moreover have "page_of M (m\<lparr>world := ?w'\<rparr>) q v = page_of M m q v" for q v
  proof (cases "frame_of M m q v")
    case (Some f)
    then have "snd ?w' f = snd ?w f" using frame_of_role [OF i Some] t(1) by (intro snd_put) auto
    then show ?thesis by (simp add: page_of_def frame_of_touch [OF lay i t e] Some)
  qed (simp add: page_of_def frame_of_touch [OF lay i t e])
  ultimately show ?thesis using invD(2,3) [OF i] unfolding mmu_inv_def by (auto intro!: ext)
qed

lemma inv_copy:
  assumes i: "mmu_inv M owned look R m" and f: "R f = Some (Page p i j)" and s: "length s = 4096"
  shows "mmu_inv M owned look R (m\<lparr>world := (fst (world m), (snd (world m))(f := s))\<rparr>) \<and>
    page_of M (m\<lparr>world := (fst (world m), (snd (world m))(f := s))\<rparr>) q v =
      (if frame_of M m q v = Some f then Some s else page_of M m q v)"
proof -
  let ?w = "world m" and ?w' = "(fst (world m), (snd (world m))(f := s))"
  note w = invD(1) [OF i]
  have same: "get_entry M ?w' (g, l) = get_entry M ?w (g, l)" if "R g = Some (Dir r) \<or> R g = Some (Tab r n)" for g l r n
    using that f by (auto simp: get_entry_def)
  have "wok M owned R ?w'" unfolding wok_def
  proof (intro conjI allI impI)
    fix g r j c assume a: "R g = Some r" "sub r j = Some c" "j < 1024" "present (get_entry M ?w' (g, j))"
    have "g \<noteq> f" using a(1,2) f by (cases r) auto
    then have "get_entry M ?w' (g, j) = get_entry M ?w (g, j)" by (simp add: get_entry_def)
    then show "R (base_addr (get_entry M ?w' (g, j))) = Some c" using wokD(3) [OF w a(1-3)] a(4) by simp
  qed (use wokD(1,2) [OF w] s in auto)
  moreover have "look (tlb m) v = Some r \<longrightarrow> v < 2 ^ 20 \<and> (\<exists>d. page_directories m (curr_pid m) = Some d \<and>
      present (get_entry M ?w' (d, VPN0 v)) \<and> r = (base_addr (get_entry M ?w' (d, VPN0 v)), VPN1 v))" for v r
    using invD(4) [OF i, of v r] same invD(2) [OF i] by metis
  moreover have "frame_of M (m\<lparr>world := ?w'\<rparr>) q v = frame_of M m q v"
  proof (cases "page_directories m q")
    case None
    then show ?thesis by (simp add: frame_of_def)
  next
    case (Some dq)
    have "get_entry M ?w' (dq, VPN0 (BASE_ADDR v)) = get_entry M ?w (dq, VPN0 (BASE_ADDR v))"
      using same invD(2) [OF i Some] by blast
    moreover have "get_entry M ?w' (base_addr (get_entry M ?w (dq, VPN0 (BASE_ADDR v))), l) =
        get_entry M ?w (base_addr (get_entry M ?w (dq, VPN0 (BASE_ADDR v))), l)" if "present (get_entry M ?w (dq, VPN0 (BASE_ADDR v)))" for l
      using same inv_table [OF i Some VPN0_less [OF BASE_ADDR_less] that] by blast
    ultimately show ?thesis by (auto simp: frame_of_def Some Let_def)
  qed
  ultimately show ?thesis using invD(2,3) [OF i] unfolding mmu_inv_def
    by (cases "frame_of M m q v") (auto simp: page_of_def)
qed

section \<open>The entry of a page\<close>

text \<open>The pointer \<open>r\<close> is to the entry of the page, in a table that is there.\<close>

definition mapped :: "('k, 't) machine \<Rightarrow> ('k, 't) mmu \<Rightarrow> nat \<Rightarrow> 32 word \<Rightarrow> ref \<Rightarrow> bool" where
  "mapped M m p va r \<longleftrightarrow> (\<exists>d. page_directories m p = Some d \<and> present (get_entry M (world m) (d, VPN0 (BASE_ADDR va))) \<and>
     r = (base_addr (get_entry M (world m) (d, VPN0 (BASE_ADDR va))), VPN1 (BASE_ADDR va)))"

lemma mapped_role:
  "mmu_inv M owned look R m \<Longrightarrow> mapped M m p va r \<Longrightarrow> R (fst r) = Some (Tab p (VPN0 (BASE_ADDR va)))"
  unfolding mapped_def using inv_table [OF _ _ VPN0_less [OF BASE_ADDR_less]] by auto

lemma frame_of_cong: "BASE_ADDR v = BASE_ADDR u \<Longrightarrow> frame_of M m p v = frame_of M m p u"
  by (cases "page_directories m p") (simp_all add: frame_of_def)

lemma mapped_frame:
  "mapped M m p va r \<Longrightarrow> frame_of M m p va = (if present (get_entry M (world m) r) then Some (base_addr (get_entry M (world m) r)) else None)"
  by (auto simp: mapped_def frame_of_def Let_def)

lemma VPN_eq: "VPN0 (BASE_ADDR v) = VPN0 (BASE_ADDR u) \<and> VPN1 (BASE_ADDR v) = VPN1 (BASE_ADDR u) \<longleftrightarrow> BASE_ADDR v = BASE_ADDR u"
  using VPN_inj by auto

lemma page_in_ok:
  assumes ker: "kernel_ok M owned" and lay: "layout_ok M" and i: "mmu_inv M owned look R m" and r: "mapped M m p va r"
    and n: "\<not> present (get_entry M (world m) r)" "card (owned (fst (world m))) < NUM_PHYSICAL_PAGES M" and ok: "page_in M segs va r (world m) = OK w"
  shows "\<exists>R'. mmu_inv M owned look R' (m\<lparr>world := w\<rparr>) \<and> mapped M (m\<lparr>world := w\<rparr>) p va r \<and> present (get_entry M w r) \<and>
    (\<forall>q v. page_of M (m\<lparr>world := w\<rparr>) q v = (if q = p \<and> BASE_ADDR v = BASE_ADDR va then Some (replicate 4096 (CHR 0x00)) else page_of M m q v))"
proof -
  obtain d where d: "page_directories m p = Some d" "present (get_entry M (world m) (d, VPN0 (BASE_ADDR va)))"
    "r = (base_addr (get_entry M (world m) (d, VPN0 (BASE_ADDR va))), VPN1 (BASE_ADDR va))"
    using r by (auto simp: mapped_def)
  define t j where tj: "t = base_addr (get_entry M (world m) (d, VPN0 (BASE_ADDR va)))" "j = VPN1 (BASE_ADDR va)"
  note rr = d(3) [folded tj] and w = invD(1) [OF i] and b0 = VPN0_less [OF BASE_ADDR_less [of va]]
  have j: "j < 1024" by (simp add: tj VPN1_less)
  have T: "R t = Some (Tab p (VPN0 (BASE_ADDR va)))" using mapped_role [OF i r] by (simp add: rr)
  obtain f k where f: "fresh owned R (world m) f k"
    "load_frame M (t, j) (world m) = link M (t, j) ((get_entry M (world m) (t, j))\<lparr>base_addr := f, present := True\<rparr>) k (world m)"
    using load_frame_link [OF ker lay w n(2) T j] by blast
  obtain e where e: "w = link M (t, j) e k (world m)" "base_addr e = f" "present e"
    using ok f upd_link [OF lay w _ _ T j, of "(get_entry M (world m) (t, j))\<lparr>base_addr := f, present := True\<rparr>"]
    by (auto simp: page_in_def rr Let_def fresh_def split: option.splits)
  have fe: "fresh owned R (world m) (base_addr e) k" using f(1) e(2) by simp
  then have fr: "R (base_addr e) = None" "base_addr e < 2 ^ 20" by (simp_all add: fresh_def)
  have "\<not> present (get_entry M (world m) (t, j))" using n(1) by (simp add: rr)
  note inv' = inv_link [OF lay i fe T sub.simps(2) j this, folded e(1)]
  have "page_of M (m\<lparr>world := w\<rparr>) q v = (if q = p \<and> BASE_ADDR v = BASE_ADDR va then Some (replicate 4096 (CHR 0x00)) else page_of M m q v)" for q v
    using page_of_link_page [OF lay i fe e(3) d(1) b0 d(2) tj(1) j, of q v] VPN_eq [of v va] by (simp add: e(1) tj(2))
  moreover have "get_entry M w (t, j) = e" using get_link [OF lay w fr(1) T j j T fr(2), of k] by (simp add: e(1))
  moreover have "get_entry M w (d, VPN0 (BASE_ADDR va)) = get_entry M (world m) (d, VPN0 (BASE_ADDR va))"
    using get_link [OF lay w fr(1) T j b0 invD(2) [OF i d(1)] fr(2), of k] T invD(2) [OF i d(1)] by (auto simp: e(1))
  ultimately show ?thesis using inv' e(3) d(1,2) unfolding rr by (auto simp: mapped_def tj)
qed

lemma tlb_okD:
  assumes "tlb_ok M look"
  shows "look (tlb_new M) v = None" "look (tlb_flush M t) v = None" "tlb_get M t v = (r, t') \<Longrightarrow> r = look t v \<and> look t' = look t"
    "look (tlb_add M t v q) v = Some q" "look (tlb_add M t v q) u = Some x \<Longrightarrow> u \<noteq> v \<Longrightarrow> look t u = Some x"
proof -
  note ok = assms [unfolded tlb_ok_def]
  show "look (tlb_new M) v = None" "look (tlb_flush M t) v = None" using ok by simp_all
  from ok [THEN conjunct2, THEN conjunct2, THEN conjunct1, rule_format, of t v]
  show "tlb_get M t v = (r, t') \<Longrightarrow> r = look t v \<and> look t' = look t" by auto
  from ok [THEN conjunct2, THEN conjunct2, THEN conjunct2, rule_format, of t v q]
  show "look (tlb_add M t v q) v = Some q" "look (tlb_add M t v q) u = Some x \<Longrightarrow> u \<noteq> v \<Longrightarrow> look t u = Some x"
    by (simp, metis option.distinct(1))
qed

lemma inv_get: "mmu_inv M owned look R m \<Longrightarrow> look t = look (tlb m) \<Longrightarrow> mmu_inv M owned look R (m\<lparr>tlb := t\<rparr>)"
  by (simp add: mmu_inv_def)

lemma inv_add:
  assumes "tlb_ok M look" "mmu_inv M owned look R m" "mapped M m (curr_pid m) va r"
  shows "mmu_inv M owned look R (m\<lparr>tlb := tlb_add M (tlb m) (BASE_ADDR va) r\<rparr>)"
proof -
  have "v < 2 ^ 20 \<and> (\<exists>d. page_directories m (curr_pid m) = Some d \<and> present (get_entry M (world m) (d, VPN0 v)) \<and>
        q = (base_addr (get_entry M (world m) (d, VPN0 v)), VPN1 v))" if "look (tlb_add M (tlb m) (BASE_ADDR va) r) v = Some q" for v q
  proof (cases "v = BASE_ADDR va")
    case True
    then show ?thesis using that assms(3) tlb_okD(4) [OF assms(1)] BASE_ADDR_less [of va] by (auto simp: mapped_def)
  next
    case False
    then show ?thesis using invD(4) [OF assms(2)] tlb_okD(5) [OF assms(1) that] by blast
  qed
  then show ?thesis using invD(1-3) [OF assms(2)] unfolding mmu_inv_def by simp
qed

lemma inv_switch:
  assumes "tlb_ok M look" "mmu_inv M owned look R m"
  shows "mmu_inv M owned look R (switch_process M p m)"
  using invD(1-3) [OF assms(2)] assms(2) tlb_okD(2) [OF assms(1)] unfolding switch_process_def
  by (cases "curr_pid m = p") (simp_all add: mmu_inv_def [of M owned look R "m\<lparr>curr_pid := p, tlb := tlb_flush M (tlb m)\<rparr>"])

lemma mapped_look:
  assumes "mmu_inv M owned look R m" "look (tlb m) (BASE_ADDR va) = Some r" "curr_pid m = p"
  shows "mapped M m p va r"
  using invD(4) [OF assms(1,2)] assms(3) by (auto simp: mapped_def)

lemma mapped_simps [simp]:
  "mapped M (mmu_raise_page_fault m) p va r = mapped M m p va r" "mapped M (m\<lparr>tlb := t\<rparr>) p va r = mapped M m p va r"
  "mapped M ((mmu_raise_page_fault m)\<lparr>world := w\<rparr>) p va r = mapped M (m\<lparr>world := w\<rparr>) p va r"
  by (simp_all add: mapped_def)

lemma find_pte_ok:
  assumes ker: "kernel_ok M owned" and lay: "layout_ok M" and t: "tlb_ok M look" and i: "mmu_inv M owned look R m"
    and d: "page_directories m p = Some d" "curr_pid m = p" and n: "card (owned (fst (world m))) < NUM_PHYSICAL_PAGES M"
    and f: "find_pte M d (BASE_ADDR va) m = (m', r)"
  shows "\<exists>R'. mmu_inv M owned look R' m' \<and> mapped M m' p va r \<and> page_of M m' = page_of M m \<and>
    card (owned (fst (world m'))) \<le> Suc (card (owned (fst (world m)))) \<and> page_directories m' = page_directories m \<and>
    segmentations m' = segmentations m \<and> curr_pid m' = p \<and> num_segmentation_faults m' = num_segmentation_faults m"
proof -
  obtain q tb where g: "tlb_get M (tlb m) (BASE_ADDR va) = (q, tb)" by (cases "tlb_get M (tlb m) (BASE_ADDR va)")
  note q = tlb_okD(3) [OF t g]
  have i1: "mmu_inv M owned look R (m\<lparr>tlb := tb\<rparr>)" using inv_get [OF i] q by simp
  show ?thesis
  proof (cases q)
    case (Some x)
    then have "m' = m\<lparr>tlb := tb\<rparr>" "r = x" using f by (simp_all add: find_pte_def g)
    then show ?thesis using i1 mapped_look [OF i _ d(2), of va r] q Some d(2) by auto
  next
    case None
    define X where "X = mmu_tlb_miss (m\<lparr>tlb := tb\<rparr>)"
    let ?i = "VPN0 (BASE_ADDR va)"
    have b: "?i < 1024" by (rule VPN0_less [OF BASE_ADDR_less])
    show ?thesis
    proof (cases "present (get_entry M (world m) (d, ?i))")
      case True
      then have "m' = X" "r = (base_addr (get_entry M (world m) (d, ?i)), VPN1 (BASE_ADDR va))"
        using f None by (simp_all add: find_pte_def g X_def Let_def)
      then show ?thesis using i1 True d by (auto simp: X_def mapped_def)
    next
      case False
      note w = invD(1) [OF i] and D = invD(2) [OF i d(1)]
      obtain fr k where fr: "fresh owned R (world m) fr k"
        "load_frame M (d, ?i) (world m) = link M (d, ?i) ((get_entry M (world m) (d, ?i))\<lparr>base_addr := fr, present := True\<rparr>) k (world m)"
        using load_frame_link [OF ker lay w n D b] by blast
      define e where "e = (get_entry M (world m) (d, ?i))\<lparr>base_addr := fr, present := True, read_write := True, user_supervisor := True\<rparr>"
      have up: "upd_entry M (d, ?i) (\<lambda>e. e\<lparr>read_write := True, user_supervisor := True\<rparr>) (load_frame M (d, ?i) (world m)) =
          link M (d, ?i) e k (world m)"
        using fr upd_link [OF lay w _ _ D b, of "(get_entry M (world m) (d, ?i))\<lparr>base_addr := fr, present := True\<rparr>"] by (simp add: fresh_def e_def)
      have fe: "fresh owned R (world m) (base_addr e) k" using fr(1) by (simp add: e_def)
      then have fe': "R (base_addr e) = None" "base_addr e < 2 ^ 20" by (simp_all add: fresh_def)
      define Y where "Y = mmu_raise_page_fault X"
      have m': "m' = Y\<lparr>world := link M (d, ?i) e k (world m)\<rparr>" "r = (base_addr (get_entry M (world m') (d, ?i)), VPN1 (BASE_ADDR va))"
        using f None False up by (auto simp: find_pte_def g X_def Y_def Let_def)
      have Y: "mmu_inv M owned look R Y" "world Y = world m" "page_directories Y = page_directories m" "page_of M Y = page_of M m"
        "segmentations Y = segmentations m" "curr_pid Y = curr_pid m" "num_segmentation_faults Y = num_segmentation_faults m"
        using i1 by (simp_all add: Y_def X_def)
      have "mmu_inv M owned look (R(base_addr e \<mapsto> Tab p ?i)) m'"
        using inv_link [OF lay Y(1), of e k d _ ?i "Tab p ?i"] fe D b False by (simp add: Y(2) m'(1))
      moreover have "page_of M m' = page_of M m"
        using page_of_link_table [OF lay Y(1), of e k p d ?i] fe d b False by (intro ext) (simp add: Y m'(1))
      moreover have "get_entry M (world m') (d, ?i) = e"
        using get_link [OF lay w fe'(1) D b b D fe'(2), of k] by (simp add: m'(1))
      ultimately show ?thesis using fresh_card [OF fe] d m'(2) Y by (auto simp: mapped_def m'(1) e_def)
    qed
  qed
qed

lemma write_entry_ok:
  assumes ker: "kernel_ok M owned" and lay: "layout_ok M" and t: "tlb_ok M look" and i: "mmu_inv M owned look R m"
    and d: "page_directories m p = Some d" "curr_pid m = p" and n: "card (owned (fst (world m))) + 2 \<le> NUM_PHYSICAL_PAGES M"
    and ok: "write_entry M d segs va m = OK (m', r)"
  shows "\<exists>R'. mmu_inv M owned look R' m' \<and> mapped M m' p va r \<and> present (get_entry M (world m') r) \<and>
    (\<forall>q v. page_of M m' q v = (if q = p \<and> BASE_ADDR v = BASE_ADDR va \<and> page_of M m q v = None then Some (replicate 4096 (CHR 0x00)) else page_of M m q v)) \<and>
    page_directories m' = page_directories m \<and> segmentations m' = segmentations m \<and> curr_pid m' = p \<and>
    num_segmentation_faults m' = num_segmentation_faults m"
proof -
  obtain m1 r1 where f: "find_pte M d (BASE_ADDR va) m = (m1, r1)" by (cases "find_pte M d (BASE_ADDR va) m")
  obtain R1 where R1: "mmu_inv M owned look R1 m1" "mapped M m1 p va r1" "page_of M m1 = page_of M m"
    "card (owned (fst (world m1))) \<le> Suc (card (owned (fst (world m))))" "page_directories m1 = page_directories m"
    "segmentations m1 = segmentations m" "curr_pid m1 = p" "num_segmentation_faults m1 = num_segmentation_faults m"
    using find_pte_ok [OF ker lay t i d _ f] n by auto
  define m2 where "m2 = m1\<lparr>tlb := tlb_add M (tlb m1) (BASE_ADDR va) r1\<rparr>"
  have m2: "mmu_inv M owned look R1 m2" using inv_add [OF t R1(1), of va r1] R1(2,7) by (simp add: m2_def)
  have mp: "mapped M m2 p va r1" using R1(2) by (simp add: m2_def)
  show ?thesis
  proof (cases "present (get_entry M (world m1) r1)")
    case True
    then have "m' = m2" "r = r1" using ok by (auto simp: write_entry_def f m2_def Let_def)
    moreover have "\<exists>s. page_of M m p v = Some s" if "BASE_ADDR v = BASE_ADDR va" for v
    proof -
      have "frame_of M m1 p v = frame_of M m1 p va" by (rule frame_of_cong [OF that])
      then have "page_of M m1 p v \<noteq> None" using mapped_frame [OF R1(2)] True by (simp add: page_of_def)
      then show ?thesis by (auto simp: R1(3))
    qed
    ultimately show ?thesis using m2 mp True R1 by (auto simp: m2_def)
  next
    case False
    then obtain w where w: "page_in M segs va r1 (world m2) = OK w" "m' = (mmu_raise_page_fault m2)\<lparr>world := w\<rparr>" "r = r1"
      using ok by (auto simp: write_entry_def f m2_def Let_def bindE_eq_OK)
    have c: "\<not> present (get_entry M (world m2) r1)" "card (owned (fst (world m2))) < NUM_PHYSICAL_PAGES M"
      using False R1(4) n by (simp_all add: m2_def)
    obtain R' where R': "mmu_inv M owned look R' (m2\<lparr>world := w\<rparr>)" "mapped M (m2\<lparr>world := w\<rparr>) p va r1" "present (get_entry M w r1)"
      "\<forall>q v. page_of M (m2\<lparr>world := w\<rparr>) q v = (if q = p \<and> BASE_ADDR v = BASE_ADDR va then Some (replicate 4096 (CHR 0x00)) else page_of M m2 q v)"
      using page_in_ok [OF ker lay m2 mp c w(1)] by blast
    have none: "page_of M m p v = None" if "BASE_ADDR v = BASE_ADDR va" for v
    proof -
      have "page_of M m1 p va = None" using mapped_frame [OF R1(2)] False by (simp add: page_of_def)
      then show ?thesis using frame_of_cong [OF that, of M m p] by (simp add: R1(3) page_of_def)
    qed
    have "mmu_inv M owned look R' m'" using R'(1) by (simp add: w(2) mmu_inv_def mmu_raise_page_fault_def)
    moreover have "page_of M m' = page_of M (m2\<lparr>world := w\<rparr>)" by (rule page_of_cong) (simp_all add: w(2))
    moreover have "page_of M m2 = page_of M m" using R1(3) by (simp add: m2_def)
    ultimately show ?thesis using R' none R1(5-8) w(2,3) by (auto simp: m2_def)
  qed
qed

section \<open>Reads and writes\<close>

lemma touch_entry:
  assumes "layout_ok M" "mmu_inv M owned look R m" "mapped M m p va r" "\<And>e. base_addr (g e) = base_addr e" "\<And>e. present (g e) = present e"
  shows "mmu_inv M owned look R (m\<lparr>world := upd_entry M r g (world m)\<rparr>)" "page_of M (m\<lparr>world := upd_entry M r g (world m)\<rparr>) = page_of M m"
    "base_addr (get_entry M (upd_entry M r g (world m)) r) = base_addr (get_entry M (world m) r)"
    "frame_of M (m\<lparr>world := upd_entry M r g (world m)\<rparr>) = frame_of M m"
proof -
  note T = mapped_role [OF assms(2,3)]
  have j: "snd r < 1024" using assms(3) VPN1_less by (auto simp: mapped_def)
  have e: "base_addr (g (get_entry M (world m) r)) = base_addr (get_entry M (world m) (fst r, snd r))"
    "present (g (get_entry M (world m) r)) = present (get_entry M (world m) (fst r, snd r))" by (simp_all add: assms(4,5))
  have up: "upd_entry M r g (world m) = put_entry M (fst r, snd r) (g (get_entry M (world m) r)) (world m)" by (simp add: upd_entry_def)
  show "mmu_inv M owned look R (m\<lparr>world := upd_entry M r g (world m)\<rparr>)" "page_of M (m\<lparr>world := upd_entry M r g (world m)\<rparr>) = page_of M m"
    using inv_touch [OF assms(1,2) T j e] by (simp_all add: up)
  show "base_addr (get_entry M (upd_entry M r g (world m)) r) = base_addr (get_entry M (world m) r)"
    using get_touch_same(1) [OF assms(1) invD(1) [OF assms(2)] T j e j, of "fst r"] by (simp add: up)
  show "frame_of M (m\<lparr>world := upd_entry M r g (world m)\<rparr>) = frame_of M m"
    using frame_of_touch [OF assms(1,2) T j e] by (simp add: up)
qed

text \<open>
  The effect of a write on the pages: no other page changes; when it returns without a segmentation
  fault the page begins with the bytes written.
\<close>

lemma write_pages:
  assumes ker: "kernel_ok M owned" and lay: "layout_ok M" and t: "tlb_ok M look" and i: "mmu_inv M owned look R m"
    and n: "card (owned (fst (world m))) + 2 \<le> NUM_PHYSICAL_PAGES M" and ok: "mmu_write_to_virtual_address M m va pid buf n' = OK m'"
  shows "\<exists>R'. mmu_inv M owned look R' m' \<and>
    (\<forall>q v. q \<noteq> pid \<or> BASE_ADDR v \<noteq> BASE_ADDR va \<longrightarrow> page_of M m' q v = page_of M m q v) \<and>
    (page_directories m pid \<noteq> None \<and> num_segmentation_faults m' = num_segmentation_faults m \<longrightarrow>
      page_of M m' pid va = Some (take (unat n') buf @ drop (unat n') (case page_of M m pid va of None \<Rightarrow> replicate 4096 (CHR 0x00) | Some s \<Rightarrow> s)))"
proof (cases "page_directories m pid")
  case None
  then show ?thesis using ok i by (auto simp: mmu_write_to_virtual_address_def bindE_eq_OK)
next
  case (Some d)
  obtain segs where segs: "segmentations m pid = Some segs" using invD(3) [OF i Some] by auto
  let ?m = "switch_process M pid m"
  have i1: "mmu_inv M owned look R ?m" by (rule inv_switch [OF t i])
  show ?thesis
  proof (cases "in_segments M segs va")
    case False
    then have "m' = mmu_raise_segmentation_fault ?m" using ok Some segs by (auto simp: mmu_write_to_virtual_address_def bindE_eq_OK)
    then show ?thesis using i1 by auto
  next
    case True
    obtain m1 r where m1: "write_entry M d segs va ?m = OK (m1, r)"
      "(if \<not> read_write (get_entry M (world m1) r) then OK (mmu_raise_segmentation_fault m1)
        else let w = upd_entry M r (\<lambda>e. e\<lparr>dirty := True, accessed := True\<rparr>) (world m1) in
          bindE (copy_to_frame (base_addr (get_entry M w r)) buf (unat n') w) (\<lambda>w. OK (m1\<lparr>world := w\<rparr>))) = OK m'"
      using ok Some segs True by (auto simp: mmu_write_to_virtual_address_def bindE_eq_OK)
    obtain R' where R': "mmu_inv M owned look R' m1" "mapped M m1 pid va r" "present (get_entry M (world m1) r)"
      "\<forall>q v. page_of M m1 q v = (if q = pid \<and> BASE_ADDR v = BASE_ADDR va \<and> page_of M m q v = None then Some (replicate 4096 (CHR 0x00)) else page_of M m q v)"
      "num_segmentation_faults m1 = num_segmentation_faults m"
      using write_entry_ok [OF ker lay t i1 _ _ _ m1(1), unfolded same_pages field_simps_mmu, OF Some refl n] by blast
    show ?thesis
    proof (cases "read_write (get_entry M (world m1) r)")
      case False
      then have "m' = mmu_raise_segmentation_fault m1" using m1(2) by simp
      then show ?thesis using R' by auto
    next
      case True
      define w where "w = upd_entry M r (\<lambda>e. e\<lparr>dirty := True, accessed := True\<rparr>) (world m1)"
      define f where "f = base_addr (get_entry M (world m1) r)"
      have w: "mmu_inv M owned look R' (m1\<lparr>world := w\<rparr>)" "page_of M (m1\<lparr>world := w\<rparr>) = page_of M m1" "base_addr (get_entry M w r) = f"
        "frame_of M (m1\<lparr>world := w\<rparr>) = frame_of M m1"
        unfolding w_def f_def by (rule touch_entry [OF lay R'(1,2)]; simp)+
      have m': "m' = m1\<lparr>world := (fst w, (snd w)(f := take (unat n') buf @ drop (unat n') (snd w f)))\<rparr>" "unat n' \<le> length buf" "unat n' \<le> 4096"
        using m1(2) True w(3) by (auto simp: w_def [symmetric] Let_def copy_to_frame_def PAGE_SIZE_def split: if_splits)
      have f: "frame_of M m1 pid va = Some f" using mapped_frame [OF R'(2)] R'(3) by (simp add: f_def)
      note role = frame_of_role [OF R'(1) this]
      let ?s = "take (unat n') buf @ drop (unat n') (snd w f)"
      have "length ?s = 4096" using wokD(2) [OF invD(1) [OF w(1)] role] m'(2,3) by simp
      note c = inv_copy [OF w(1) role this, unfolded w(2,4), simplified]
      have "frame_of M m1 q v \<noteq> Some f" if "q \<noteq> pid \<or> BASE_ADDR v \<noteq> BASE_ADDR va" for q v
        using frame_of_role [OF R'(1), of q v f] role that VPN_eq [of v va] by auto
      then have others: "page_of M m' q v = page_of M m q v" if "q \<noteq> pid \<or> BASE_ADDR v \<noteq> BASE_ADDR va" for q v
        using c [of q v] R'(4) that by (auto simp: m'(1))
      have "page_of M (m1\<lparr>world := w\<rparr>) pid va = Some (snd w f)" using f by (simp add: page_of_def w(4))
      then have "Some (snd w f) = page_of M m1 pid va" by (simp add: w(2))
      also have "\<dots> = Some (case page_of M m pid va of None \<Rightarrow> replicate 4096 (CHR 0x00) | Some s \<Rightarrow> s)"
        using R'(4) by (cases "page_of M m pid va") simp_all
      finally show ?thesis using c [of pid va] others f by (auto simp: m'(1))
    qed
  qed
qed

lemma read_entry_ok:
  assumes ker: "kernel_ok M owned" and lay: "layout_ok M" and t: "tlb_ok M look" and i: "mmu_inv M owned look R m"
    and d: "page_directories m p = Some d" "curr_pid m = p" and n: "card (owned (fst (world m))) < NUM_PHYSICAL_PAGES M"
    and ok: "read_entry M d segs va m = OK (m', r)"
  shows "\<exists>R'. mmu_inv M owned look R' m' \<and> mapped M m' p va r \<and>
    (\<forall>q v. page_of M m' q v = page_of M m q v \<or> q = p \<and> BASE_ADDR v = BASE_ADDR va \<and> page_of M m q v = None)"
proof -
  obtain q tb where g: "tlb_get M (tlb m) (BASE_ADDR va) = (q, tb)" by (cases "tlb_get M (tlb m) (BASE_ADDR va)")
  note q = tlb_okD(3) [OF t g]
  have i1: "mmu_inv M owned look R (m\<lparr>tlb := tb\<rparr>)" using inv_get [OF i] q by simp
  show ?thesis
  proof (cases q)
    case None
    define X where "X = mmu_tlb_miss (m\<lparr>tlb := tb\<rparr>)"
    have m': "m' = X\<lparr>tlb := tlb_add M (tlb X) (BASE_ADDR va) r\<rparr>" "r = (base_addr (get_entry M (world m) (d, VPN0 (BASE_ADDR va))), VPN1 (BASE_ADDR va))"
      "present (get_entry M (world m) (d, VPN0 (BASE_ADDR va)))"
      using ok None by (auto simp: read_entry_def g X_def Let_def split: if_splits)
    have "mapped M X (curr_pid X) va r" using m'(2,3) d by (simp add: mapped_def X_def)
    moreover have "mmu_inv M owned look R X" using i1 by (simp add: X_def)
    ultimately have "mmu_inv M owned look R m'" "mapped M X p va r" using inv_add [OF t, of owned R X va r] d by (simp_all add: m'(1), simp add: X_def)
    then have "mmu_inv M owned look R m'" "mapped M m' p va r" by (simp_all add: m'(1))
    moreover have "page_of M m' = page_of M m" by (simp add: m'(1) X_def)
    ultimately show ?thesis by auto
  next
    case (Some x)
    have mp: "mapped M m p va x" using mapped_look [OF i _ d(2)] q Some by simp
    show ?thesis
    proof (cases "present (get_entry M (world m) x)")
      case True
      then have "m' = m\<lparr>tlb := tb\<rparr>" "r = x" using ok Some by (auto simp: read_entry_def g)
      then show ?thesis using i1 mp by auto
    next
      case False
      then obtain w where w: "page_in M segs va x (world m) = OK w" "m' = (mmu_raise_page_fault (m\<lparr>tlb := tb\<rparr>))\<lparr>world := w\<rparr>" "r = x"
        using ok Some by (auto simp: read_entry_def g bindE_eq_OK)
      obtain R' where R': "mmu_inv M owned look R' (m\<lparr>tlb := tb, world := w\<rparr>)" "mapped M (m\<lparr>tlb := tb, world := w\<rparr>) p va x"
        "\<forall>q v. page_of M (m\<lparr>tlb := tb, world := w\<rparr>) q v = (if q = p \<and> BASE_ADDR v = BASE_ADDR va then Some (replicate 4096 (CHR 0x00)) else page_of M m q v)"
        using page_in_ok [OF ker lay i1, of p va x segs w] mp False n w(1) by (auto simp: if_distrib [of "(=) _"] cong: if_cong)
      have none: "page_of M m p v = None" if "BASE_ADDR v = BASE_ADDR va" for v
        using mapped_frame [OF mp] False frame_of_cong [OF that, of M m p] by (simp add: page_of_def)
      have "mmu_inv M owned look R' m'" using R'(1) by (simp add: w(2) mmu_inv_def mmu_raise_page_fault_def)
      moreover have "page_of M m' = page_of M (m\<lparr>tlb := tb, world := w\<rparr>)" by (rule page_of_cong) (simp_all add: w(2))
      ultimately show ?thesis using R' none w(2,3) by auto
    qed
  qed
qed

lemma read_pages:
  assumes ker: "kernel_ok M owned" and lay: "layout_ok M" and t: "tlb_ok M look" and i: "mmu_inv M owned look R m"
    and n: "card (owned (fst (world m))) < NUM_PHYSICAL_PAGES M" and ok: "mmu_read_from_virtual_address M m va pid n' = OK (m', bytes)"
  shows "\<exists>R'. mmu_inv M owned look R' m' \<and>
    (\<forall>q v. page_of M m' q v = page_of M m q v \<or> q = pid \<and> BASE_ADDR v = BASE_ADDR va \<and> page_of M m q v = None)"
proof (cases "page_directories m pid")
  case None
  then show ?thesis using ok i by (auto simp: mmu_read_from_virtual_address_def bindE_eq_OK)
next
  case (Some d)
  obtain segs where segs: "segmentations m pid = Some segs" using invD(3) [OF i Some] by auto
  let ?m = "switch_process M pid m"
  have i1: "mmu_inv M owned look R ?m" by (rule inv_switch [OF t i])
  show ?thesis
  proof (cases "in_segments M segs va")
    case False
    then have "m' = mmu_raise_segmentation_fault ?m" using ok Some segs by (auto simp: mmu_read_from_virtual_address_def bindE_eq_OK)
    then show ?thesis using i1 by auto
  next
    case True
    obtain m1 r where m1: "read_entry M d segs va ?m = OK (m1, r)" "m' = m1\<lparr>world := upd_entry M r (accessed_update (\<lambda>_. True)) (world m1)\<rparr>"
      using ok Some segs True by (auto simp: mmu_read_from_virtual_address_def bindE_eq_OK Let_def)
    obtain R' where R': "mmu_inv M owned look R' m1" "mapped M m1 pid va r"
      "\<forall>q v. page_of M m1 q v = page_of M m q v \<or> q = pid \<and> BASE_ADDR v = BASE_ADDR va \<and> page_of M m q v = None"
      using read_entry_ok [OF ker lay t i1 _ _ _ m1(1), unfolded same_pages field_simps_mmu, OF Some refl n] by blast
    show ?thesis using touch_entry(1,2) [OF lay R'(1,2), of "accessed_update (\<lambda>_. True)"] R'(3) by (auto simp: m1(2))
  qed
qed

text \<open>A page that is there is read from its beginning, whatever the offset of the address.\<close>

lemma read_present:
  assumes lay: "layout_ok M" and t: "tlb_ok M look" and i: "mmu_inv M owned look R m"
    and s: "page_of M m pid va = Some s" and segs: "segmentations m pid = Some segs" "in_segments M segs va"
    and n: "mmu_asserts M va pid n = OK ()" "unat n \<le> 4096"
  shows "\<exists>m'. mmu_read_from_virtual_address M m va pid n = OK (m', Some (take (unat n) s)) \<and> page_of M m' = page_of M m"
proof -
  obtain d where d: "page_directories m pid = Some d" using s by (auto simp: page_of_def frame_of_def split: option.splits)
  obtain f where f: "frame_of M m pid va = Some f" "s = snd (world m) f" using s by (auto simp: page_of_def)
  let ?m = "switch_process M pid m" and ?b = "BASE_ADDR va"
  have i1: "mmu_inv M owned look R ?m" by (rule inv_switch [OF t i])
  obtain q tb where g: "tlb_get M (tlb ?m) ?b = (q, tb)" by (cases "tlb_get M (tlb ?m) ?b")
  note q = tlb_okD(3) [OF t g]
  have pde: "present (get_entry M (world m) (d, VPN0 ?b))"
    "present (get_entry M (world m) (base_addr (get_entry M (world m) (d, VPN0 ?b)), VPN1 ?b))"
    using f(1) by (auto simp: frame_of_def d Let_def split: if_splits)
  define r where "r = (base_addr (get_entry M (world m) (d, VPN0 ?b)), VPN1 ?b)"
  have mp: "mapped M ?m pid va r" using pde(1) d by (simp add: mapped_def r_def)
  have re: "\<exists>t'. read_entry M d segs va ?m = OK ((if q = None then mmu_tlb_miss ?m else ?m)\<lparr>tlb := t'\<rparr>, r)"
  proof (cases q)
    case None
    then show ?thesis using pde by (auto simp: read_entry_def g r_def Let_def mmu_tlb_miss_def)
  next
    case (Some x)
    then have "mapped M ?m pid va x" using mapped_look [OF i1] q by simp
    then have "x = r" using d by (auto simp: mapped_def r_def)
    then show ?thesis using pde Some by (auto simp: read_entry_def g r_def Let_def)
  qed
  then obtain t' where re: "read_entry M d segs va ?m = OK ((if q = None then mmu_tlb_miss ?m else ?m)\<lparr>tlb := t'\<rparr>, r)" by blast
  define w where "w = upd_entry M r (accessed_update (\<lambda>_. True)) (world m)"
  have w: "page_of M (?m\<lparr>world := w\<rparr>) = page_of M ?m" "base_addr (get_entry M w r) = base_addr (get_entry M (world m) r)"
    "frame_of M (?m\<lparr>world := w\<rparr>) = frame_of M ?m"
    using touch_entry(2-4) [OF lay i1 mp, of "accessed_update (\<lambda>_. True)"] by (simp_all add: w_def)
  have "frame_of M ?m pid va = Some f" using f(1) d by (simp add: frame_of_def)
  then have "base_addr (get_entry M (world m) r) = f" "page_of M (?m\<lparr>world := w\<rparr>) pid va = Some (snd w f)"
    using mapped_frame [OF mp] pde(2) w(3) by (simp_all add: r_def page_of_def)
  moreover from this have "snd w f = s" using w(1) s by simp
  ultimately have "mmu_read_from_virtual_address M m va pid n = OK ((if q = None then mmu_tlb_miss ?m else ?m)\<lparr>tlb := t', world := w\<rparr>, Some (take (unat n) s))"
    using n segs d re w(2) by (simp add: mmu_read_from_virtual_address_def w_def Let_def copy_from_frame_def PAGE_SIZE_def)
  moreover have "page_of M ((if q = None then mmu_tlb_miss ?m else ?m)\<lparr>tlb := t', world := w\<rparr>) = page_of M (?m\<lparr>world := w\<rparr>)"
    by (rule page_of_cong) simp_all
  ultimately show ?thesis using w(1) by auto
qed

section \<open>Processes come and go\<close>

lemma wok_new:
  assumes lay: "layout_ok M" and w: "wok M owned R w" and f: "fresh owned R w f k"
  shows "wok M owned (R(f \<mapsto> c)) (k, (snd w)(f := replicate 4096 (CHR 0x00)))"
  unfolding wok_def
proof (intro conjI allI impI)
  let ?w = "(k, (snd w)(f := replicate 4096 (CHR 0x00)))"
  fix g r j c' assume a: "(R(f \<mapsto> c)) g = Some r" "sub r j = Some c'" "j < 1024" "present (get_entry M ?w (g, j))"
  have "g \<noteq> f" using a(3,4) get_entry_zeros [OF lay, of ?w f j] by auto
  then have g: "R g = Some r" "get_entry M ?w (g, j) = get_entry M w (g, j)" using a(1) by (simp_all add: get_entry_def)
  then have "R (base_addr (get_entry M w (g, j))) = Some c'" using wokD(3) [OF w g(1) a(2,3)] a(4) by simp
  then show "(R(f \<mapsto> c)) (base_addr (get_entry M ?w (g, j))) = Some c'" using f g(2) by (auto simp: fresh_def)
qed (use wokD(1,2) [OF w] f in \<open>auto simp: fresh_def split: if_splits\<close>)

lemma new_directory:
  assumes ker: "kernel_ok M owned" and lay: "layout_ok M" and i: "mmu_inv M owned look R m" and p: "page_directories m p = None"
    and n: "card (owned (fst (world m))) < NUM_PHYSICAL_PAGES M" and a: "ask_kernel M None (world m) = (a, w)"
    and m': "m' = m\<lparr>page_directories := (page_directories m)(p \<mapsto> BASE_ADDR a), segmentations := (segmentations m)(p \<mapsto> segs), world := w\<rparr>"
  shows "\<exists>R'. mmu_inv M owned look R' m' \<and> page_of M m' = page_of M m \<and> (\<forall>j < 1024. \<not> present (get_entry M w (BASE_ADDR a, j))) \<and>
    card (owned (fst w)) = Suc (card (owned (fst (world m))))"
proof -
  let ?d = "BASE_ADDR a"
  note f = ask_fresh [OF ker invD(1) [OF i] n a]
  have w: "w = (fst w, (snd (world m))(?d := replicate 4096 (CHR 0x00)))" using f(2) by (metis prod.collapse)
  have dz: "\<forall>j < 1024. \<not> present (get_entry M w (?d, j))" using get_entry_zeros [OF lay, of w ?d] f(2) by simp
  have Rd: "R ?d = None" using f(1) by (simp add: fresh_def)
  have get: "get_entry M w (g, j) = get_entry M (world m) (g, j)" if "R g = Some r" for g j r
    using that Rd f(2) by (auto simp: get_entry_def)
  have wk: "wok M owned (R(?d \<mapsto> Dir p)) w" using wok_new [OF lay invD(1) [OF i] f(1)] w by metis
  have "v < 2 ^ 20 \<and> (\<exists>d. page_directories m' (curr_pid m') = Some d \<and> present (get_entry M (world m') (d, VPN0 v)) \<and>
      r = (base_addr (get_entry M (world m') (d, VPN0 v)), VPN1 v))" if "look (tlb m') v = Some r" for v r
    using invD(4) [OF i, of v r] that p get invD(2) [OF i] by (cases "curr_pid m = p") (auto simp: m')
  moreover have "(\<forall>q d. page_directories m' q = Some d \<longrightarrow> (R(?d \<mapsto> Dir p)) d = Some (Dir q) \<and> segmentations m' q \<noteq> None)"
    using invD(2,3) [OF i] Rd by (auto simp: m')
  ultimately have I: "mmu_inv M owned look (R(?d \<mapsto> Dir p)) m'" using wk unfolding mmu_inv_def by (auto simp: m')
  have "page_of M m' q v = page_of M m q v" for q v
  proof (cases "q = p")
    case True
    then show ?thesis using p dz VPN0_less [OF BASE_ADDR_less] by (simp add: page_of_def frame_of_def m' Let_def)
  next
    case False
    have "frame_of M m' q v = frame_of M m q v"
    proof (cases "page_directories m q")
      case (Some d)
      have "get_entry M w (base_addr (get_entry M (world m) (d, VPN0 (BASE_ADDR v))), l) = get_entry M (world m) (base_addr (get_entry M (world m) (d, VPN0 (BASE_ADDR v))), l)"
        if "present (get_entry M (world m) (d, VPN0 (BASE_ADDR v)))" for l
        using get inv_table [OF i Some VPN0_less [OF BASE_ADDR_less] that] by blast
      then show ?thesis using get [OF invD(2) [OF i Some]] False by (auto simp: frame_of_def m' Some Let_def)
    qed (simp add: frame_of_def m' False)
    moreover have "snd w g = snd (world m) g" if "frame_of M m q v = Some g" for g
      using frame_of_role [OF i that] Rd f(2) by auto
    ultimately show ?thesis by (cases "frame_of M m q v") (simp_all add: page_of_def m')
  qed
  then show ?thesis using I dz fresh_card [OF f(1)] by blast
qed

lemma map_table:
  assumes ker: "kernel_ok M owned" and lay: "layout_ok M" and i: "mmu_inv M owned look R m" and d: "page_directories m p = Some d"
    and n: "card (owned (fst (world m))) < NUM_PHYSICAL_PAGES M" "i < 1024" "\<not> present (get_entry M (world m) (d, i))"
    and w: "w = map_frame M own (d, i) (world m)"
  shows "\<exists>R'. mmu_inv M owned look R' (m\<lparr>world := w\<rparr>) \<and> page_of M (m\<lparr>world := w\<rparr>) = page_of M m \<and> present (get_entry M w (d, i)) \<and>
    (\<forall>j < 1024. \<not> present (get_entry M w (base_addr (get_entry M w (d, i)), j))) \<and> card (owned (fst w)) = Suc (card (owned (fst (world m))))"
proof -
  note D = invD(2) [OF i d] and wk = invD(1) [OF i]
  obtain f k where f: "fresh owned R (world m) f k" "w = link M (d, i)
      ((get_entry M (world m) (d, i))\<lparr>base_addr := f, present := True, read_write := True, user_supervisor := True\<rparr>) k (world m)"
    using map_frame_link [OF ker lay wk n(1) D n(2), of own] by (auto simp: w)
  define e where "e = (get_entry M (world m) (d, i))\<lparr>base_addr := f, present := True, read_write := True, user_supervisor := True\<rparr>"
  have fe: "fresh owned R (world m) (base_addr e) k" using f(1) by (simp add: e_def)
  then have fe': "R (base_addr e) = None" "base_addr e < 2 ^ 20" by (simp_all add: fresh_def)
  have w': "w = link M (d, i) e k (world m)" using f(2) by (simp add: e_def)
  have g: "get_entry M w (d, i) = e" using get_link [OF lay wk fe'(1) D n(2,2) D fe'(2)] by (simp add: w')
  have "page_of M (m\<lparr>world := w\<rparr>) = page_of M m"
    using page_of_link_table [OF lay i fe d n(2,3)] by (intro ext) (simp add: w')
  then show ?thesis using inv_link [OF lay i fe D _ n(2,3)] get_link_new [OF lay fe'(1) D] g fresh_card [OF fe]
    by (auto simp: w' e_def)
qed

lemma set_world: "world (m\<lparr>world := w\<rparr>) = w" "m\<lparr>world := w, world := w'\<rparr> = m\<lparr>world := w'\<rparr>"
  by simp_all

lemma map_page:
  assumes ker: "kernel_ok M owned" and lay: "layout_ok M" and i: "mmu_inv M owned look R m"
    and d: "page_directories m p = Some d" "present (get_entry M (world m) (d, i))" "t = base_addr (get_entry M (world m) (d, i))"
    and n: "card (owned (fst (world m))) < NUM_PHYSICAL_PAGES M" "i < 1024" "j < 1024" "\<not> present (get_entry M (world m) (t, j))"
    and w: "w = map_frame M own (t, j) (world m)"
  shows "\<exists>R'. mmu_inv M owned look R' (m\<lparr>world := w\<rparr>) \<and> get_entry M w (d, i) = get_entry M (world m) (d, i) \<and>
    (\<forall>l < 1024. l \<noteq> j \<longrightarrow> get_entry M w (t, l) = get_entry M (world m) (t, l)) \<and> read_write (get_entry M w (t, j)) \<and>
    (\<forall>q v. page_of M (m\<lparr>world := w\<rparr>) q v = (if q = p \<and> VPN0 (BASE_ADDR v) = i \<and> VPN1 (BASE_ADDR v) = j
      then Some (replicate 4096 (CHR 0x00)) else page_of M m q v)) \<and> card (owned (fst w)) = Suc (card (owned (fst (world m))))"
proof -
  note D = invD(2) [OF i d(1)] and wk = invD(1) [OF i]
  have T: "R t = Some (Tab p i)" unfolding d(3) by (rule inv_table [OF i d(1) n(2) d(2)])
  obtain f k where f: "fresh owned R (world m) f k" "w = link M (t, j)
      ((get_entry M (world m) (t, j))\<lparr>base_addr := f, present := True, read_write := True, user_supervisor := True\<rparr>) k (world m)"
    using map_frame_link [OF ker lay wk n(1) T n(3), of own] by (auto simp: w)
  define e where "e = (get_entry M (world m) (t, j))\<lparr>base_addr := f, present := True, read_write := True, user_supervisor := True\<rparr>"
  have fe: "fresh owned R (world m) (base_addr e) k" and e: "present e" using f(1) by (simp_all add: e_def)
  then have fe': "R (base_addr e) = None" "base_addr e < 2 ^ 20" by (simp_all add: fresh_def)
  have w': "w = link M (t, j) e k (world m)" using f(2) by (simp add: e_def)
  have "get_entry M w (d, i) = get_entry M (world m) (d, i)"
    using get_link [OF lay wk fe'(1) T n(3,2) D fe'(2)] D T by (auto simp: w')
  moreover have "get_entry M w (t, l) = get_entry M (world m) (t, l)" if "l < 1024" "l \<noteq> j" for l
    using get_link [OF lay wk fe'(1) T n(3) that(1) T fe'(2)] that(2) by (simp add: w')
  moreover have "read_write (get_entry M w (t, j))"
    using get_link [OF lay wk fe'(1) T n(3,3) T fe'(2)] by (simp add: w' e_def)
  moreover have "mmu_inv M owned look (R(base_addr e \<mapsto> Page p i j)) (m\<lparr>world := w\<rparr>)"
    unfolding w' by (rule inv_link [OF lay i fe T _ n(3,4)]) simp
  ultimately show ?thesis using page_of_link_page [OF lay i fe e d(1) n(2) d(2,3) n(3)] fresh_card [OF fe]
    by (auto simp: w')
qed

text \<open>The entry of the page allows writing.\<close>

definition writable :: "('k, 't) machine \<Rightarrow> ('k, 't) mmu \<Rightarrow> nat \<Rightarrow> 32 word \<Rightarrow> bool" where
  "writable M m p va \<longleftrightarrow> (\<exists>r. mapped M m p va r \<and> read_write (get_entry M (world m) r))"

lemma add_pages:
  assumes ker: "kernel_ok M owned" and lay: "layout_ok M" and i: "mmu_inv M owned look R m"
    and n: "card (owned (fst (world m))) + 4 \<le> NUM_PHYSICAL_PAGES M" and p: "page_directories m p = None" and ok: "mmu_add_process M p m = OK m'"
  shows "\<exists>R'. mmu_inv M owned look R' m' \<and> segmentations m' p = Some (default_segments M) \<and>
    (\<forall>q v. page_of M m' q v = (if q = p \<and> VPN0 (BASE_ADDR v) = 0 \<and> VPN1 (BASE_ADDR v) \<in> {1, 2}
      then Some (replicate 4096 (CHR 0x00)) else page_of M m q v)) \<and>
    (\<forall>v. VPN0 (BASE_ADDR v) = 0 \<and> VPN1 (BASE_ADDR v) \<in> {1, 2} \<longrightarrow> writable M m' p v)"
proof -
  obtain a w0 where a: "ask_kernel M None (world m) = (a, w0)" by (cases "ask_kernel M None (world m)")
  define pd where "pd = BASE_ADDR a"
  define w1 where "w1 = map_frame M None (pd, 0) w0"
  define t where "t = base_addr (get_entry M w1 (pd, 0))"
  define w2 where "w2 = map_frame M (Some (t, 1)) (t, 1) w1"
  define t' where "t' = base_addr (get_entry M w2 (pd, 0))"
  define w3 where "w3 = map_frame M (Some (t', 2)) (t', 2) w2"
  define m0 where "m0 = m\<lparr>page_directories := (page_directories m)(p \<mapsto> pd), segmentations := (segmentations m)(p \<mapsto> default_segments M), world := w0\<rparr>"
  have up: "[Suc 0..<3] = [Suc 0, 2]" by (simp add: upt_rec)
  have m': "m' = m0\<lparr>world := w3\<rparr>"
  proof -
    from ok have "p < MAX_PROCESS_ID M" by (auto simp: mmu_add_process_def bindE_eq_OK assertE_def split: if_splits)
    then have "mmu_add_process M p m = OK (m0\<lparr>world := w3\<rparr>)"
      by (simp add: mmu_add_process_def a up Let_def m0_def w3_def t'_def w2_def t_def w1_def pd_def)
    then show ?thesis using ok by simp
  qed
  obtain R0 where R0: "mmu_inv M owned look R0 m0" "page_of M m0 = page_of M m" "\<forall>j < 1024. \<not> present (get_entry M w0 (pd, j))"
    "card (owned (fst w0)) = Suc (card (owned (fst (world m))))"
    using new_directory [OF ker lay i p _ a m0_def [unfolded pd_def]] n by (auto simp: pd_def)
  have d: "page_directories (m0\<lparr>world := w\<rparr>) p = Some pd" for w by (simp add: m0_def)
  have m0w: "world m0 = w0" by (simp add: m0_def)
  obtain R1 where R1: "mmu_inv M owned look R1 (m0\<lparr>world := w1\<rparr>)" "page_of M (m0\<lparr>world := w1\<rparr>) = page_of M m"
    "present (get_entry M w1 (pd, 0))" "\<forall>j < 1024. \<not> present (get_entry M w1 (t, j))" "card (owned (fst w1)) = Suc (card (owned (fst w0)))"
  proof -
    have d0: "page_directories m0 p = Some pd" by (simp add: m0_def)
    have c0: "card (owned (fst (world m0))) < NUM_PHYSICAL_PAGES M" using R0(4) n by (simp add: m0w)
    have z: "\<not> present (get_entry M (world m0) (pd, 0))" using R0(3) by (simp add: m0w)
    have "w1 = map_frame M None (pd, 0) (world m0)" by (simp add: w1_def m0w)
    from map_table [OF ker lay R0(1) d0 c0 _ z this] have "\<exists>R'. mmu_inv M owned look R' (m0\<lparr>world := w1\<rparr>) \<and> page_of M (m0\<lparr>world := w1\<rparr>) = page_of M m0 \<and>
        present (get_entry M w1 (pd, 0)) \<and> (\<forall>j < 1024. \<not> present (get_entry M w1 (t, j))) \<and> card (owned (fst w1)) = Suc (card (owned (fst w0)))"
      by (simp add: t_def m0w)
    then show thesis
      unfolding R0(2) using that by blast
  qed
  obtain R2 where R2: "mmu_inv M owned look R2 (m0\<lparr>world := w2\<rparr>)" "get_entry M w2 (pd, 0) = get_entry M w1 (pd, 0)"
    "\<forall>l < 1024. l \<noteq> 1 \<longrightarrow> get_entry M w2 (t, l) = get_entry M w1 (t, l)" "read_write (get_entry M w2 (t, 1))"
    "\<forall>q v. page_of M (m0\<lparr>world := w2\<rparr>) q v = (if q = p \<and> VPN0 (BASE_ADDR v) = 0 \<and> VPN1 (BASE_ADDR v) = 1
      then Some (replicate 4096 (CHR 0x00)) else page_of M m q v)" "card (owned (fst w2)) = Suc (card (owned (fst w1)))"
  proof -
    have w: "present (get_entry M (world (m0\<lparr>world := w1\<rparr>)) (pd, 0))" "t = base_addr (get_entry M (world (m0\<lparr>world := w1\<rparr>)) (pd, 0))"
      "card (owned (fst (world (m0\<lparr>world := w1\<rparr>)))) < NUM_PHYSICAL_PAGES M" "\<not> present (get_entry M (world (m0\<lparr>world := w1\<rparr>)) (t, 1))"
      "w2 = map_frame M (Some (t, 1)) (t, 1) (world (m0\<lparr>world := w1\<rparr>))"
      using R0(4) R1(3-5) n by (simp_all add: t_def w2_def)
    have "(0 :: nat) < 1024" "(1 :: nat) < 1024" by simp_all
    from map_page [OF ker lay R1(1) d w(1-3) this w(4,5)] show thesis
      unfolding R1(2) set_world by (elim exE conjE) (rule that)
  qed
  have t': "t' = t" using R2(2) by (simp add: t'_def t_def)
  obtain R3 where R3: "mmu_inv M owned look R3 (m0\<lparr>world := w3\<rparr>)" "get_entry M w3 (pd, 0) = get_entry M w2 (pd, 0)"
    "\<forall>l < 1024. l \<noteq> 2 \<longrightarrow> get_entry M w3 (t, l) = get_entry M w2 (t, l)" "read_write (get_entry M w3 (t, 2))"
    "\<forall>q v. page_of M (m0\<lparr>world := w3\<rparr>) q v = (if q = p \<and> VPN0 (BASE_ADDR v) = 0 \<and> VPN1 (BASE_ADDR v) = 2
      then Some (replicate 4096 (CHR 0x00)) else page_of M (m0\<lparr>world := w2\<rparr>) q v)"
  proof -
    have w: "present (get_entry M (world (m0\<lparr>world := w2\<rparr>)) (pd, 0))" "t = base_addr (get_entry M (world (m0\<lparr>world := w2\<rparr>)) (pd, 0))"
      "card (owned (fst (world (m0\<lparr>world := w2\<rparr>)))) < NUM_PHYSICAL_PAGES M" "\<not> present (get_entry M (world (m0\<lparr>world := w2\<rparr>)) (t, 2))"
      "w3 = map_frame M (Some (t', 2)) (t, 2) (world (m0\<lparr>world := w2\<rparr>))"
      using R0(4) R1(3-5) R2(2,3,6) n by (simp_all add: t_def w3_def t'_def)
    have "(0 :: nat) < 1024" "(2 :: nat) < 1024" by simp_all
    from map_page [OF ker lay R2(1) d w(1-3) this w(4,5)] show thesis
      unfolding set_world by (elim exE conjE) (rule that)
  qed
  have "page_of M m' q v = (if q = p \<and> VPN0 (BASE_ADDR v) = 0 \<and> VPN1 (BASE_ADDR v) \<in> {1, 2}
      then Some (replicate 4096 (CHR 0x00)) else page_of M m q v)" for q v
    using R2(5) R3(5) by (auto simp: m')
  moreover have "writable M m' p v" if "VPN0 (BASE_ADDR v) = 0" "VPN1 (BASE_ADDR v) \<in> {1, 2}" for v
  proof -
    have "mapped M m' p v (t, VPN1 (BASE_ADDR v))"
      using that(1) R1(3) R2(2) R3(2) d [of w3] by (auto simp: mapped_def m' t_def)
    moreover
    have "read_write (get_entry M w3 (t, 1))" "read_write (get_entry M w3 (t, 2))" using R2(4) R3(3,4) by simp_all
    then have "read_write (get_entry M (world m') (t, VPN1 (BASE_ADDR v)))" using that(2) by (auto simp: m')
    ultimately show ?thesis unfolding writable_def by blast
  qed
  moreover have "segmentations m' p = Some (default_segments M)" by (simp add: m' m0_def)
  ultimately show ?thesis using R3(1) by (auto simp: m')
qed

primrec owner :: "role \<Rightarrow> nat" where
  "owner (Dir p) = p"
| "owner (Tab p i) = p"
| "owner (Page p i j) = p"

lemma sub_owner: "sub r i = Some c \<Longrightarrow> owner c = owner r"
  by (cases r) auto

lemma remove_entry_keeps:
  assumes ker: "kernel_ok M owned" and w: "wok M owned R w0" and T: "R t = Some (Tab p i)" and j: "j < 1024"
    and k: "snd w = snd w0" "{f. \<exists>r. R f = Some r \<and> owner r \<noteq> p} \<subseteq> owned (fst w)"
  shows "snd (remove_entry M t w j) = snd w0 \<and> {f. \<exists>r. R f = Some r \<and> owner r \<noteq> p} \<subseteq> owned (fst (remove_entry M t w j))"
proof -
  have e: "get_entry M w (t, j) = get_entry M w0 (t, j)" using k(1) by (simp add: get_entry_def)
  have "R (base_addr (get_entry M w (t, j))) = Some (Page p i j)" if "present (get_entry M w (t, j))"
    using wokD(3) [OF w T sub.simps(2) j] that by (simp add: e)
  then have n: "base_addr (get_entry M w (t, j)) \<notin> {f. \<exists>r. R f = Some r \<and> owner r \<noteq> p}" if "present (get_entry M w (t, j))"
    using that by simp
  note ret = kernel_okD(3) [OF ker, of w "base_addr (get_entry M w (t, j))"] kernel_okD(4) [OF ker, of "base_addr (get_entry M w (t, j))" w]
  have "{f. \<exists>r. R f = Some r \<and> owner r \<noteq> p} \<subseteq> owned (fst (return_frame M (base_addr (get_entry M w (t, j))) w))"
    if "present (get_entry M w (t, j))" using n [OF that] k(2) ret(1) by blast
  then show ?thesis using k ret(2) kernel_okD(5,6) [OF ker] by (simp add: remove_entry_def Let_def)
qed

lemma remove_table_keeps:
  assumes ker: "kernel_ok M owned" and w: "wok M owned R w0" and D: "R d = Some (Dir p)" and i: "i < 1024"
    and k: "snd w = snd w0" "{f. \<exists>r. R f = Some r \<and> owner r \<noteq> p} \<subseteq> owned (fst w)"
  shows "snd (remove_table M d w i) = snd w0 \<and> {f. \<exists>r. R f = Some r \<and> owner r \<noteq> p} \<subseteq> owned (fst (remove_table M d w i))"
proof (cases "present (get_entry M w (d, i))")
  case True
  let ?O = "{f. \<exists>r. R f = Some r \<and> owner r \<noteq> p}"
  have e: "get_entry M w (d, i) = get_entry M w0 (d, i)" using k(1) by (simp add: get_entry_def)
  then have T: "R (base_addr (get_entry M w (d, i))) = Some (Tab p i)" using wokD(3) [OF w D sub.simps(1) i] True by simp
  let ?t = "base_addr (get_entry M w (d, i))"
  have "snd (foldl (remove_entry M ?t) w js) = snd w0 \<and>
      {f. \<exists>r. R f = Some r \<and> owner r \<noteq> p} \<subseteq> owned (fst (foldl (remove_entry M ?t) w js))" if "\<forall>j \<in> set js. j < 1024" for js
    using that
  proof (induction js rule: rev_induct)
    case (snoc j js)
    then show ?case using remove_entry_keeps [OF ker w T, of j "foldl (remove_entry M ?t) w js"] by simp
  qed (use k in simp)
  from this [of "[0..<NUM_ENTRIES]"]
  have l: "snd (foldl (remove_entry M ?t) w [0..<NUM_ENTRIES]) = snd w0"
    "{f. \<exists>r. R f = Some r \<and> owner r \<noteq> p} \<subseteq> owned (fst (foldl (remove_entry M ?t) w [0..<NUM_ENTRIES]))" by (simp_all add: NUM_ENTRIES_def)
  have "?t \<notin> {f. \<exists>r. R f = Some r \<and> owner r \<noteq> p}" using T by simp
  then have "?O \<subseteq> owned (fst (return_frame M ?t (foldl (remove_entry M ?t) w [0..<NUM_ENTRIES])))"
    using l(2) kernel_okD(3) [OF ker, of "foldl (remove_entry M ?t) w [0..<NUM_ENTRIES]" ?t] by blast
  then show ?thesis using True l(1) kernel_okD(4) [OF ker] by (simp add: remove_table_def Let_def)
qed (use k in \<open>simp add: remove_table_def\<close>)

lemma remove_pages:
  assumes ker: "kernel_ok M owned" and lay: "layout_ok M" and t: "tlb_ok M look" and i: "mmu_inv M owned look R m"
    and ok: "mmu_remove_process M p m = OK m'"
  shows "\<exists>R'. mmu_inv M owned look R' m' \<and> (\<forall>q v. page_of M m' q v = (if q = p then None else page_of M m q v))"
proof -
  let ?O = "{f. \<exists>r. R f = Some r \<and> owner r \<noteq> p}"
  let ?R = "\<lambda>f. case R f of None \<Rightarrow> None | Some r \<Rightarrow> if owner r = p then None else Some r"
  note wk = invD(1) [OF i]
  define w where "w = (case page_directories m p of None \<Rightarrow> world m
    | Some pd \<Rightarrow> return_frame M pd (foldl (remove_table M pd) (world m) [0..<NUM_ENTRIES]))"
  have O: "?O \<subseteq> owned (fst (world m))" using wokD(1) [OF wk] by auto
  have w: "snd w = snd (world m) \<and> ?O \<subseteq> owned (fst w)"
  proof (cases "page_directories m p")
    case (Some d)
    note D = invD(2) [OF i Some]
    have "snd (foldl (remove_table M d) (world m) js) = snd (world m) \<and> ?O \<subseteq> owned (fst (foldl (remove_table M d) (world m) js))"
      if "\<forall>j \<in> set js. j < 1024" for js
      using that
    proof (induction js rule: rev_induct)
      case (snoc j js)
      then show ?case using remove_table_keeps [OF ker wk D, of j "foldl (remove_table M d) (world m) js"] by simp
    qed (use O in simp)
    from this [of "[0..<NUM_ENTRIES]"]
    have l: "snd (foldl (remove_table M d) (world m) [0..<NUM_ENTRIES]) = snd (world m)"
      "?O \<subseteq> owned (fst (foldl (remove_table M d) (world m) [0..<NUM_ENTRIES]))" by (simp_all add: NUM_ENTRIES_def)
    have "d \<notin> ?O" using D by simp
    then have "?O \<subseteq> owned (fst (return_frame M d (foldl (remove_table M d) (world m) [0..<NUM_ENTRIES])))"
      using l(2) kernel_okD(3) [OF ker, of "foldl (remove_table M d) (world m) [0..<NUM_ENTRIES]" d] by blast
    then show ?thesis using l(1) kernel_okD(4) [OF ker] Some by (simp add: w_def)
  qed (use O in \<open>simp add: w_def\<close>)
  have m': "m' = m\<lparr>page_directories := (page_directories m)(p := None), segmentations := (segmentations m)(p := None),
      world := w, tlb := (if curr_pid m = p then tlb_flush M (tlb m) else tlb m)\<rparr>"
    using ok by (auto simp: mmu_remove_process_def bindE_eq_OK w_def Let_def)
  have get: "get_entry M w r = get_entry M (world m) r" for r using w by (simp add: get_entry_def)
  have R: "?R f = Some r \<longleftrightarrow> R f = Some r \<and> owner r \<noteq> p" for f r by (auto split: option.splits)
  have "wok M owned ?R w" unfolding wok_def R
  proof (intro conjI allI impI)
    fix f r j c assume a: "R f = Some r \<and> owner r \<noteq> p" "sub r j = Some c" "j < 1024" "present (get_entry M w (f, j))"
    show "R (base_addr (get_entry M w (f, j))) = Some c" using wokD(3) [OF wk _ a(2,3)] a(1,4) by (simp add: get)
    show "owner c \<noteq> p" using sub_owner [OF a(2)] a(1) by simp
  next
    fix f r assume a: "R f = Some r \<and> owner r \<noteq> p"
    then show "f \<in> owned (fst w)" using w by blast
    show "length (snd w f) = 4096" using wokD(2) [OF wk] a w by simp
  qed
  moreover have "?R d = Some (Dir q) \<and> segmentations m' q \<noteq> None" if "page_directories m' q = Some d" for q d
    using that invD(2,3) [OF i, of q d] by (auto simp: m' split: if_splits)
  moreover have "v < 2 ^ 20 \<and> (\<exists>d. page_directories m' (curr_pid m') = Some d \<and> present (get_entry M (world m') (d, VPN0 v)) \<and>
      r = (base_addr (get_entry M (world m') (d, VPN0 v)), VPN1 v))" if "look (tlb m') v = Some r" for v r
    using invD(4) [OF i, of v r] that tlb_okD(2) [OF t] by (cases "curr_pid m = p") (auto simp: m' get)
  ultimately have "mmu_inv M owned look ?R m'" unfolding mmu_inv_def by (simp add: m')
  moreover have "page_of M m' q v = (if q = p then None else page_of M m q v)" for q v
    using w by (cases "page_directories m q") (simp_all add: page_of_def frame_of_def m' get)
  ultimately show ?thesis by blast
qed

text \<open>A write to a page that is there and allows it returns.\<close>

lemma write_present:
  assumes t: "tlb_ok M look" and i: "mmu_inv M owned look R m" and lay: "layout_ok M"
    and s: "page_of M m pid va \<noteq> None" "writable M m pid va" and segs: "segmentations m pid = Some segs" "in_segments M segs va"
    and n: "mmu_asserts M va pid n = OK ()" "unat n \<le> length buf" "unat n \<le> 4096"
  shows "\<exists>m'. mmu_write_to_virtual_address M m va pid buf n = OK m' \<and> segmentations m' = segmentations m \<and>
    num_segmentation_faults m' = num_segmentation_faults m"
proof -
  obtain r where r: "mapped M m pid va r" "read_write (get_entry M (world m) r)" using s(2) by (auto simp: writable_def)
  then obtain d where d: "page_directories m pid = Some d" "present (get_entry M (world m) (d, VPN0 (BASE_ADDR va)))"
    "r = (base_addr (get_entry M (world m) (d, VPN0 (BASE_ADDR va))), VPN1 (BASE_ADDR va))" by (auto simp: mapped_def)
  have p: "present (get_entry M (world m) r)" using s(1) mapped_frame [OF r(1)] by (auto simp: page_of_def split: if_splits)
  let ?m = "switch_process M pid m" and ?b = "BASE_ADDR va"
  have i1: "mmu_inv M owned look R ?m" by (rule inv_switch [OF t i])
  obtain q tb where g: "tlb_get M (tlb ?m) ?b = (q, tb)" by (cases "tlb_get M (tlb ?m) ?b")
  note q = tlb_okD(3) [OF t g]
  have "\<exists>X. find_pte M d ?b ?m = (X, r) \<and> world X = world m \<and> segmentations X = segmentations m \<and> num_segmentation_faults X = num_segmentation_faults m"
  proof (cases q)
    case None
    then show ?thesis using d by (simp add: find_pte_def g Let_def)
  next
    case (Some x)
    then have "mapped M ?m pid va x" using mapped_look [OF i1] q by simp
    then have "x = r" using d by (auto simp: mapped_def)
    then show ?thesis using Some by (simp add: find_pte_def g)
  qed
  then obtain X where X: "find_pte M d ?b ?m = (X, r)" "world X = world m" "segmentations X = segmentations m"
    "num_segmentation_faults X = num_segmentation_faults m" by blast
  have "write_entry M d segs va ?m = OK (X\<lparr>tlb := tlb_add M (tlb X) ?b r\<rparr>, r)"
    using p by (simp add: write_entry_def X(1,2) Let_def)
  then show ?thesis using n d(1) segs r(2) X(2-4)
    by (simp add: mmu_write_to_virtual_address_def Let_def copy_to_frame_def PAGE_SIZE_def)
qed

section \<open>Properties\<close>

lemma mmu_reachable_inv:
  assumes "kernel_ok M owned" "layout_ok M" "tlb_ok M look" "reachable M owned m"
  shows "\<exists>R. mmu_inv M owned look R m"
  using assms(4)
proof induction
  case (create w)
  have "mmu_inv M owned look (\<lambda>_. None) (mmu_create M w)"
    using tlb_okD(1) [OF assms(3)] by (simp add: mmu_inv_def mmu_create_def wok_def)
  then show ?case by blast
next
  case (add m pid m')
  then show ?case using add_pages [OF assms(1,2)] by blast
next
  case (remove m pid m')
  then show ?case using remove_pages [OF assms(1-3)] by blast
next
  case (read_va m va pid n m' bytes)
  from read_va(2) have "card (owned (fst (world m))) < NUM_PHYSICAL_PAGES M" by simp
  then show ?case using read_va(4) read_va(3) read_pages [OF assms(1-3)] by blast
next
  case (write_va m va pid buf n m')
  from write_va(2) have "card (owned (fst (world m))) + 2 \<le> NUM_PHYSICAL_PAGES M" by simp
  then show ?case using write_va(4) write_va(3) write_pages [OF assms(1-3)] by blast
qed

text \<open>
  A read that misses in the buffer and finds no page table writes through the null pointer, though
  a write would get a table from the kernel.
\<close>

lemma mmu_read_missing_table:
  assumes "page_directories m pid = Some d" "segmentations m pid = Some segs" "in_segments M segs va" "mmu_asserts M va pid n = OK ()"
    and "curr_pid m = pid" "tlb_get M (tlb m) (BASE_ADDR va) = (None, t)" "\<not> present (get_entry M (world m) (d, VPN0 (BASE_ADDR va)))"
  shows "mmu_read_from_virtual_address M m va pid n = Fault Null_Deref"
  using assms by (simp add: mmu_read_from_virtual_address_def switch_process_def read_entry_def Let_def)

text \<open>
  C19: As long as the kernel has frames left, whatever calls were made, no frame is a page of two
  processes or of two addresses of different pages, and a translation in the buffer is the entry
  that the directory and the table of the current process have for the page.
\<close>

theorem mmu_no_sharing:
  assumes "kernel_ok M owned" "layout_ok M" "tlb_ok M look" "reachable M owned m"
  shows "(frame_of M m p u = Some f \<and> frame_of M m q v = Some f \<longrightarrow> p = q \<and> BASE_ADDR u = BASE_ADDR v) \<and>
    (look (tlb m) (BASE_ADDR u) = Some r \<longrightarrow> mapped M m (curr_pid m) u r)"
proof -
  obtain R where R: "mmu_inv M owned look R m" using mmu_reachable_inv [OF assms] by blast
  show ?thesis using frame_of_role [OF R, of p u f] frame_of_role [OF R, of q v f] mapped_look [OF R] VPN_eq [of u v] by auto
qed

text \<open>
  C17: As long as the kernel has frames left, so that it takes none back from a process, what one
  process does, coming and going included, changes no page of another one.
\<close>

theorem mmu_isolation:
  assumes "kernel_ok M owned" "layout_ok M" "tlb_ok M look" "reachable M owned m" "card (owned (fst (world m))) + 4 \<le> NUM_PHYSICAL_PAGES M"
    and "mmu_add_process M p m = OK m' \<and> page_directories m p = None \<or> mmu_remove_process M p m = OK m' \<or>
      mmu_read_from_virtual_address M m va p n = OK (m', bytes) \<or> mmu_write_to_virtual_address M m va p buf n = OK m'"
    and "q \<noteq> p"
  shows "page_of M m' q v = page_of M m q v"
proof -
  obtain R where R: "mmu_inv M owned look R m" using mmu_reachable_inv [OF assms(1-4)] by blast
  have c: "card (owned (fst (world m))) < NUM_PHYSICAL_PAGES M" "card (owned (fst (world m))) + 2 \<le> NUM_PHYSICAL_PAGES M" using assms(5) by simp_all
  show ?thesis using assms(6,7) add_pages [OF assms(1,2) R assms(5), of p m'] remove_pages [OF assms(1-3) R, of p m']
      read_pages [OF assms(1-3) R c(1), of va p n m' bytes] write_pages [OF assms(1-3) R c(2), of va p buf n m']
    by (elim disjE) fastforce+
qed

text \<open>
  The offset of the address is not used: what a process writes at any address of a page that is
  there and allows it goes to the beginning of the page, and a read at any address of the page
  starts at its beginning.
\<close>

lemma mmu_offset_ignored:
  assumes "kernel_ok M owned" "layout_ok M" "tlb_ok M look" "reachable M owned m" "card (owned (fst (world m))) + 4 \<le> NUM_PHYSICAL_PAGES M"
    and "page_of M m pid va = Some old" "writable M m pid va" "segmentations m pid = Some segs" "in_segments M segs va"
    and "mmu_asserts M va pid n = OK ()" "unat n \<le> length buf" "unat n \<le> 4096"
    and "BASE_ADDR va' = BASE_ADDR va" "in_segments M segs va'" "mmu_asserts M va' pid n' = OK ()" "unat n' \<le> 4096"
  shows "\<exists>m' m''. mmu_write_to_virtual_address M m va pid buf n = OK m' \<and>
    mmu_read_from_virtual_address M m' va' pid n' = OK (m'', Some (take (unat n') (take (unat n) buf @ drop (unat n) old)))"
proof -
  obtain R where R: "mmu_inv M owned look R m" using mmu_reachable_inv [OF assms(1-4)] by blast
  have p: "page_of M m pid va \<noteq> None" using assms(6) by simp
  obtain m' where m': "mmu_write_to_virtual_address M m va pid buf n = OK m'" "segmentations m' = segmentations m"
    "num_segmentation_faults m' = num_segmentation_faults m" using write_present [OF assms(3) R assms(2) p assms(7-12)] by blast
  have d: "page_directories m pid \<noteq> None"
  proof
    assume "page_directories m pid = None"
    then have "page_of M m pid va = None" by (rule page_of_unmapped)
    then show False using p by simp
  qed
  have c: "card (owned (fst (world m))) + 2 \<le> NUM_PHYSICAL_PAGES M" using assms(5) by simp
  obtain R' where R': "mmu_inv M owned look R' m'" "page_of M m' pid va = Some (take (unat n) buf @ drop (unat n) old)"
    using write_pages [OF assms(1-3) R c m'(1)] d m'(3) assms(6) by auto
  have "page_of M m' pid va' = Some (take (unat n) buf @ drop (unat n) old)"
    using R'(2) frame_of_cong [OF assms(13), of M m' pid] by (simp add: page_of_def)
  from read_present [OF assms(2,3) R'(1) this _ assms(14,15)] m'(2) assms(8,16)
  show ?thesis using m'(1) by auto
qed

text \<open>
  A read of a page that is not in memory, after a miss in the buffer, does not ask the kernel for
  it: it returns the frame with the number in the entry that is not present.
\<close>

lemma mmu_read_swapped_out:
  assumes "page_directories m pid = Some d" "segmentations m pid = Some segs" "in_segments M segs va" "mmu_asserts M va pid n = OK ()"
    and "curr_pid m = pid" "tlb_get M (tlb m) (BASE_ADDR va) = (None, t)" "present (get_entry M (world m) (d, VPN0 (BASE_ADDR va)))"
    and "r = (base_addr (get_entry M (world m) (d, VPN0 (BASE_ADDR va))), VPN1 (BASE_ADDR va))" "\<not> present (get_entry M (world m) r)"
    and "unat n \<le> 4096"
  shows "\<exists>m'. mmu_read_from_virtual_address M m va pid n = OK (m', Some (take (unat n)
    (snd (upd_entry M r (accessed_update (\<lambda>_. True)) (world m))
      (base_addr (get_entry M (upd_entry M r (accessed_update (\<lambda>_. True)) (world m)) r)))))"
  using assms by (simp add: mmu_read_from_virtual_address_def switch_process_def read_entry_def Let_def copy_from_frame_def PAGE_SIZE_def)

text \<open>
  C18: What a process writes at the beginning of a page of its own that is in memory and allows
  it is what it then reads back from there; behind the bytes written the page is what it was.
\<close>

theorem mmu_write_then_read:
  assumes "kernel_ok M owned" "layout_ok M" "tlb_ok M look" "reachable M owned m" "card (owned (fst (world m))) + 4 \<le> NUM_PHYSICAL_PAGES M"
    and "page_of M m pid va = Some old" "writable M m pid va" "segmentations m pid = Some segs" "in_segments M segs va"
    and "va mod 4096 = 0" "pid < MAX_PROCESS_ID M" "unat n \<le> length buf" "unat n \<le> 4096" "unat n' \<le> 4096"
  shows "\<exists>m' m''. mmu_write_to_virtual_address M m va pid buf n = OK m' \<and>
    mmu_read_from_virtual_address M m' va pid n' = OK (m'', Some (take (unat n') (take (unat n) buf @ drop (unat n) old)))"
proof -
  have "mmu_asserts M va pid k = OK ()" if "unat k \<le> 4096" for k
    using that assms(10,11) by (simp add: mmu_asserts_def PAGE_SIZE_def)
  then show ?thesis
    using mmu_offset_ignored [OF assms(1-9) _ assms(12,13) refl assms(9) _ assms(14)] assms(13,14) by blast
qed

section \<open>Witnesses\<close>

text \<open>
  A kernel that counts the frames it has given away, an unbounded translation buffer, and entries
  with the number of the frame in three bytes and the flags in the fourth.
\<close>

definition small_decode :: "string \<Rightarrow> entry" where
  "small_decode s = (let b = (\<lambda>i. if i < length s then of_char (s ! i) else 0 :: nat); fl = b 3 in
     \<lparr>base_addr = of_nat ((b 0 + 256 * b 1 + 65536 * b 2) mod 2 ^ 20), present = odd fl, read_write = odd (fl div 2),
      user_supervisor = odd (fl div 4), accessed = odd (fl div 8), dirty = odd (fl div 16)\<rparr>)"

definition small_encode :: "entry \<Rightarrow> string" where
  "small_encode e = [char_of (unat (base_addr e) mod 256), char_of (unat (base_addr e) div 256 mod 256), char_of (unat (base_addr e) div 65536),
     char_of (of_bool (present e) + 2 * of_bool (read_write e) + 4 * of_bool (user_supervisor e) + 8 * of_bool (accessed e) + 16 * of_bool (dirty e) :: nat)]"

definition all_segments :: "seg_name list" where "all_segments = [STACK, MMAP, HEAP, BSS, DATA, TEXT, TESTING]"

definition small_machine :: "(nat, 32 word \<Rightarrow> ref option) machine" where
  "small_machine = \<lparr>MAX_PROCESS_ID = 2, NUM_PHYSICAL_PAGES = 2 ^ 20, P_READ = 4, P_WRITE = 2, P_EXEC = 1,
     ask_kernel = (\<lambda>_ (k, p). (push_bit 12 (of_nat k), Suc k, p(of_nat k := replicate 4096 (CHR 0x00)))),
     read_page = (\<lambda>_ w. w), return_frame = (\<lambda>_ w. w), remove_swap = (\<lambda>_ w. w), remove_swaps = (\<lambda>w. w),
     tlb_new = (\<lambda>_. None), tlb_flush = (\<lambda>_ _. None), tlb_get = (\<lambda>t v. (t v, t)), tlb_add = (\<lambda>t v r. t(v \<mapsto> r)),
     in_segments = (\<lambda>segs va. \<exists>s \<in> set all_segments. seg_start (segs s) \<le> va \<and> va < seg_end (segs s)),
     find_segment = (\<lambda>segs va. map_option segs (find (\<lambda>s. seg_start (segs s) \<le> va \<and> va < seg_end (segs s)) all_segments)),
     decode_entry = small_decode, encode_entry = small_encode\<rparr>"

definition small_owned :: "nat \<Rightarrow> frame set" where "small_owned k = of_nat ` {..<k}"

definition small_mmu :: "(nat, 32 word \<Rightarrow> ref option) mmu" where
  "small_mmu = (case mmu_add_process small_machine 0 (mmu_create small_machine (0, \<lambda>_. [])) of
     Inr m \<Rightarrow> m | Inl _ \<Rightarrow> mmu_create small_machine (0, \<lambda>_. []))"

lemma of_nat_inj_20:
  assumes "k < 2 ^ 20" "l < 2 ^ 20" "(of_nat k :: 32 word) = of_nat l"
  shows "k = l"
proof -
  have "unat (of_nat k :: 32 word) = k" "unat (of_nat l :: 32 word) = l"
    using assms(1,2) by (simp_all add: unat_of_nat)
  then show ?thesis using assms(3) by metis
qed

lemma small_frames [simp]: "NUM_PHYSICAL_PAGES small_machine = 2 ^ 20"
  by (simp add: small_machine_def)

lemma card_small_owned: "k \<le> 2 ^ 20 \<Longrightarrow> card (small_owned k) = k"
proof -
  assume k: "k \<le> 2 ^ 20"
  have "inj_on (of_nat :: nat \<Rightarrow> 32 word) {..<k}"
    by (rule inj_onI) (use k of_nat_inj_20 in auto)
  then show ?thesis by (simp add: small_owned_def card_image)
qed

lemma small_decode_encode:
  assumes "base_addr e < 2 ^ 20"
  shows "small_decode (small_encode e) = e"
proof -
  define n where "n = unat (base_addr e)"
  have n: "n < 2 ^ 20" using assms by (simp add: word_less_nat_alt n_def)
  have m: "n mod 256 + 256 * (n div 256 mod 256) + 65536 * (n div 65536) = n"
  proof -
    have "n div 65536 = n div 256 div 256" using div_mult2_eq [of n 256 256] by simp
    then show ?thesis using div_mult_mod_eq [of n 256] div_mult_mod_eq [of "n div 256" 256] by linarith
  qed
  have d: "n div 65536 mod 256 = n div 65536" using n by simp
  have "base_addr (small_decode (small_encode e)) = of_nat ((n mod 256 + 256 * (n div 256 mod 256) + 65536 * (n div 65536)) mod 2 ^ 20)"
    by (simp add: small_decode_def small_encode_def Let_def of_char_of n_def [symmetric] d)
  then have b: "base_addr (small_decode (small_encode e)) = base_addr e" using n by (simp add: m) (simp add: n_def)
  define fl where "fl = of_bool (present e) + 2 * of_bool (read_write e) + 4 * of_bool (user_supervisor e) + 8 * of_bool (accessed e) + 16 * of_bool (dirty e :: bool) + (0 :: nat)"
  have fl: "fl mod 256 = fl" by (simp add: fl_def of_bool_def)
  have "odd fl = present e" "odd (fl div 2) = read_write e" "odd (fl div 4) = user_supervisor e"
    "odd (fl div 8) = accessed e" "odd (fl div 16) = dirty e"
    unfolding fl_def by (cases "present e"; cases "read_write e"; cases "user_supervisor e"; cases "accessed e"; cases "dirty e"; simp)+
  then have "present (small_decode (small_encode e)) = present e" "read_write (small_decode (small_encode e)) = read_write e"
    "user_supervisor (small_decode (small_encode e)) = user_supervisor e" "accessed (small_decode (small_encode e)) = accessed e"
    "dirty (small_decode (small_encode e)) = dirty e"
    using fl by (simp_all add: small_decode_def small_encode_def Let_def of_char_of fl_def)
  then show ?thesis using b by (intro entry.equality) simp_all
qed

lemma small_ok: "kernel_ok small_machine small_owned" "layout_ok small_machine" "tlb_ok small_machine (\<lambda>t. t)"
proof -
  have "of_nat k \<notin> small_owned k \<and> BASE_ADDR (push_bit 12 (of_nat k)) = of_nat k" if "card (small_owned k) < 2 ^ 20" for k
  proof -
    have k: "k < 2 ^ 20"
    proof (rule ccontr)
      assume "\<not> k < 2 ^ 20"
      then have "small_owned (2 ^ 20) \<subseteq> small_owned k" by (auto simp: small_owned_def)
      then have "2 ^ 20 \<le> card (small_owned k)" using card_mono [of "small_owned k" "small_owned (2 ^ 20)"] card_small_owned [of "2 ^ 20"]
        by (simp add: small_owned_def)
      then show False using that by simp
    qed
    have notin: "of_nat k \<notin> small_owned k"
    proof
      assume "of_nat k \<in> small_owned k"
      then obtain l where l: "l < k" "(of_nat k :: 32 word) = of_nat l" unfolding small_owned_def by blast
      then show False using of_nat_inj_20 [OF k _ l(2)] k by simp
    qed
    have u: "unat (of_nat k :: 32 word) = k" using k by (simp add: unat_of_nat)
    have "unat (push_bit 12 (of_nat k :: 32 word)) = k * 2 ^ 12"
      using k by (simp add: push_bit_eq_mult unat_word_ariths u)
    moreover have "unat (drop_bit 12 x) = unat x div 2 ^ 12" for x :: "32 word"
      by (simp add: unat_drop_bit_eq drop_bit_nat_def)
    ultimately have "unat (drop_bit 12 (push_bit 12 (of_nat k :: 32 word))) = k" by (simp only: nonzero_mult_div_cancel_right) simp
    then have "unat (drop_bit 12 (push_bit 12 (of_nat k :: 32 word))) = unat (of_nat k :: 32 word)" by (simp only: u)
    then have "BASE_ADDR (push_bit 12 (of_nat k)) = of_nat k" unfolding BASE_ADDR_def by (simp only: unsigned_word_eqI)
    then show ?thesis using notin by blast
  qed
  note F = this
  have S: "small_owned (Suc k) = insert (of_nat k) (small_owned k)" for k by (simp add: small_owned_def lessThan_Suc)
  show "kernel_ok small_machine small_owned" unfolding kernel_ok_def
  proof (intro conjI allI impI)
    fix r k p assume "card (small_owned k) < NUM_PHYSICAL_PAGES small_machine"
    then have "card (small_owned k) < 2 ^ 20" by (simp only: small_frames)
    note F = F [OF this]
    have "ask_kernel small_machine r (k, p) = (push_bit 12 (of_nat k), Suc k, p(of_nat k := replicate 4096 (CHR 0x00)))"
      by (simp add: small_machine_def)
    then show "case ask_kernel small_machine r (k, p) of (a, k', p') \<Rightarrow> BASE_ADDR a \<notin> small_owned k \<and>
        small_owned k' = insert (BASE_ADDR a) (small_owned k) \<and> p' = p(BASE_ADDR a := replicate 4096 (CHR 0x00))"
      using F by (simp only: prod.case S simp_thms)
  qed (simp_all add: small_machine_def)
  have "base_addr (small_decode s) < 2 ^ 20" for s
    by (simp add: small_decode_def Let_def word_less_nat_alt unat_of_nat)
  moreover have "replicate 4 (CHR 0x00) = [CHR 0x00, CHR 0x00, CHR 0x00, CHR 0x00]" by (simp add: numeral_eq_Suc)
  then have "\<not> present (small_decode (replicate 4 (CHR 0x00)))" by (simp add: small_decode_def)
  ultimately show "layout_ok small_machine"
    using small_decode_encode by (simp add: layout_ok_def small_machine_def small_encode_def)
  show "tlb_ok small_machine (\<lambda>t. t)" by (auto simp: tlb_ok_def small_machine_def)
qed

lemma add_returns: "p < MAX_PROCESS_ID M \<Longrightarrow> \<exists>m'. mmu_add_process M p m = OK m'"
  by (cases "ask_kernel M None (world m)") (simp add: mmu_add_process_def Let_def)

lemma small_mmu:
  "mmu_add_process small_machine 0 (mmu_create small_machine (0, \<lambda>_. [])) = OK small_mmu"
  "reachable small_machine small_owned small_mmu" "page_directories small_mmu 1 = None" "card (small_owned (fst (world small_mmu))) + 4 \<le> NUM_PHYSICAL_PAGES small_machine"
proof -
  let ?m = "mmu_create small_machine (0, \<lambda>_. [])"
  have "\<exists>m. mmu_add_process small_machine 0 ?m = OK m" by (rule add_returns) (simp add: small_machine_def)
  then obtain m where m: "mmu_add_process small_machine 0 ?m = OK m" by blast
  then have m': "small_mmu = m" by (simp add: small_mmu_def)
  show add: "mmu_add_process small_machine 0 ?m = OK small_mmu" using m m' by simp
  show "reachable small_machine small_owned small_mmu"
    by (rule reachable.add [OF reachable.create _ _ add]) (simp_all add: mmu_create_def small_owned_def)
  have ask: "fst (map_frame small_machine own r w) = Suc (fst w)" for own r w
    by (cases w) (simp add: map_frame_def small_machine_def upd_entry_def)
  have up: "[Suc 0..<3] = [Suc 0, 2]" by (simp add: upt_rec)
  have "ask_kernel small_machine None (0, \<lambda>_. []) = (push_bit 12 0, 1, (\<lambda>_. [])(0 := replicate 4096 (CHR 0x00)))"
    by (simp add: small_machine_def)
  then have "fst (world m) = 4" "page_directories m 1 = None"
    using m by (auto simp: mmu_add_process_def bindE_eq_OK up ask mmu_create_def Let_def)
  then show "page_directories small_mmu 1 = None" "card (small_owned (fst (world small_mmu))) + 4 \<le> NUM_PHYSICAL_PAGES small_machine" using card_small_owned [of 4] by (simp_all add: m')
qed

lemma small_pages:
  assumes "VPN0 (BASE_ADDR va) = 0" "VPN1 (BASE_ADDR va) = 1"
  shows "segmentations small_mmu 0 = Some (default_segments small_machine)" "page_of small_machine small_mmu 0 va \<noteq> None"
    "writable small_machine small_mmu 0 va"
proof -
  let ?m = "mmu_create small_machine (0, \<lambda>_. [])"
  obtain R where "mmu_inv small_machine small_owned (\<lambda>t. t) R ?m" using mmu_reachable_inv [OF small_ok reachable.create] by blast
  from add_pages [OF small_ok(1,2) this _ _ small_mmu(1)] assms
  show "segmentations small_mmu 0 = Some (default_segments small_machine)" "page_of small_machine small_mmu 0 va \<noteq> None"
    "writable small_machine small_mmu 0 va"
    by (auto simp: mmu_create_def small_owned_def)
qed

lemma small_address:
  "VPN0 (BASE_ADDR 0x1000) = 0" "VPN1 (BASE_ADDR 0x1000) = 1"
  "in_segments small_machine (default_segments small_machine) 0x1000" "(0x1000 :: 32 word) mod 4096 = 0"
  by (simp_all add: VPN0_eq VPN1_eq BASE_ADDR_def drop_bit_eq_div small_machine_def all_segments_def default_segments_def)

lemma mmu_no_sharing_witness:
  "frame_of small_machine small_mmu 0 0x1000 \<noteq> frame_of small_machine small_mmu 0 0x2000"
proof -
  obtain f where "frame_of small_machine small_mmu 0 0x1000 = Some f"
    using small_pages(2) [OF small_address(1,2)] by (auto simp: page_of_def)
  then show ?thesis using mmu_no_sharing [OF small_ok small_mmu(2), of 0 "0x1000" f 0 "0x2000"]
    by (auto simp: BASE_ADDR_def drop_bit_eq_div)
qed

lemma mmu_isolation_witness:
  "\<exists>m'. mmu_add_process small_machine 1 small_mmu = OK m' \<and> page_of small_machine m' 0 0x1000 = page_of small_machine small_mmu 0 0x1000"
proof -
  have "\<exists>m'. mmu_add_process small_machine 1 small_mmu = OK m'" by (rule add_returns) (simp add: small_machine_def)
  then obtain m' where m': "mmu_add_process small_machine 1 small_mmu = OK m'" by blast
  then show ?thesis using mmu_isolation [OF small_ok small_mmu(2,4) disjI1, of 1 m' 0 "0x1000"] small_mmu(3) by simp
qed

lemma mmu_write_then_read_witness:
  "\<exists>m' m''. mmu_write_to_virtual_address small_machine small_mmu 0x1000 0 ''hi'' 2 = OK m' \<and>
    mmu_read_from_virtual_address small_machine m' 0x1000 0 1 = OK (m'', Some ''h'')"
proof -
  obtain old where old: "page_of small_machine small_mmu 0 0x1000 = Some old"
    using small_pages(2) [OF small_address(1,2)] by blast
  have "0 < MAX_PROCESS_ID small_machine" by (simp add: small_machine_def)
  from mmu_write_then_read [OF small_ok small_mmu(2,4) old small_pages(3) [OF small_address(1,2)] small_pages(1) [OF small_address(1,2)]
    small_address(3,4) this, of 2 "''hi''" 1]
  show ?thesis by simp
qed

end
