(* ===== verification/Know_Tools.thy ===== *)
theory Know_Tools
  imports C_String
begin

text \<open>
  The secure move of \<open>know_your_tools/\<close>: \<open>read_wrap.c\<close> reads a file into lines of at most 80
  characters, \<open>shred.c\<close> overwrites it with random strings, and \<open>secure_move.c\<close> writes the lines to
  another file with the functions of \<open>utils.c\<close>.
\<close>

section \<open>The model\<close>

subsection \<open>\<open>read_wrap.c\<close>\<close>

text \<open>The cells of the array \<open>lines\<close>; a cell that was not written yet is \<open>None\<close>.\<close>

record wrapped =
  num_lines :: nat
  cells :: "string option list"

definition new_file :: "nat \<Rightarrow> wrapped" where
  "new_file capacity = \<lparr>num_lines = 0, cells = replicate capacity None\<rparr>"

text \<open>\<open>realloc\<close> of the array to \<open>n\<close> cells.\<close>

definition resize_cells :: "nat \<Rightarrow> wrapped \<Rightarrow> wrapped" where
  "resize_cells n f = f\<lparr>cells := take n (cells f) @ replicate (n - length (cells f)) None\<rparr>"

definition add_line :: "wrapped \<Rightarrow> nat \<Rightarrow> string \<Rightarrow> (wrapped \<times> nat) res" where
  "add_line input capacity line = (let (input, capacity) =
       (if num_lines input = capacity then (resize_cells (2 * capacity) input, 2 * capacity) else (input, capacity)) in
     if num_lines input < length (cells input)
     then OK (input\<lparr>cells := (cells input)[num_lines input := Some (cstr line)], num_lines := num_lines input + 1\<rparr>, capacity)
     else Fault Out_Of_Bounds)"

text \<open>The loop \<open>while (read > limit)\<close> and the test behind it; the third component counts the lines.\<close>

type_synonym reading = "wrapped \<times> nat \<times> nat"

definition count_line :: "reading \<Rightarrow> string \<Rightarrow> reading res" where
  "count_line st line = (case st of (output, capacity, lines) \<Rightarrow>
     bindE (add_line output capacity line) (\<lambda>(output, capacity). OK (output, capacity, lines + 1)))"

function wrap_loop :: "string \<Rightarrow> nat \<Rightarrow> reading \<Rightarrow> reading res" where
  "wrap_loop wrapped_string n st = (if 80 < n
     then bindE (count_line st (take 80 wrapped_string)) (wrap_loop (drop 80 wrapped_string) (n - 80))
     else if 0 < n then count_line st wrapped_string else OK st)"
  by pat_completeness auto
termination by (relation "measure (\<lambda>(w, n, st). n)") auto

declare wrap_loop.simps [simp del]

text \<open>\<open>strchr\<close> looks for the newline before the first NUL.\<close>

definition read_line :: "string \<Rightarrow> reading \<Rightarrow> reading res" where
  "read_line file_buf st = (if NL \<in> set (cstr file_buf)
     then wrap_loop (takeWhile (\<lambda>c. c \<noteq> NL) file_buf) (length file_buf - 1) st
     else wrap_loop file_buf (length file_buf) st)"

definition read_wrap :: "(string \<Rightarrow> string option) \<Rightarrow> string \<Rightarrow> wrapped option res" where
  "read_wrap fs filename = (case fs filename of None \<Rightarrow> OK None
     | Some content \<Rightarrow> bindE (forE (getlines content) read_line (new_file 10, 10, 0)) (\<lambda>(output, capacity, lines).
         OK (Some (resize_cells lines output))))"

subsection \<open>\<open>shred.c\<close>\<close>

text \<open>
  The files of the system, those that can be opened for writing, and those that can be created.
  \<open>/dev/urandom\<close> is a stream of bytes; a state of it is the number of bytes that were read.
\<close>

record disk =
  contents :: "string \<Rightarrow> string option"
  writable :: "string \<Rightarrow> bool"
  creatable :: "string \<Rightarrow> bool"

definition random_string :: "(nat \<Rightarrow> char) \<Rightarrow> nat \<Rightarrow> nat \<Rightarrow> string \<times> nat" where
  "random_string rnd pos n = (map rnd [pos..<pos + n] @ [NUL], pos + n)"

definition write_at :: "nat \<Rightarrow> string \<Rightarrow> string \<Rightarrow> string" where
  "write_at off buf c = take off c @ buf @ drop (off + length buf) c"

text \<open>The loop of \<open>write_random\<close>, with the position in the file.\<close>

function write_random_loop :: "(nat \<Rightarrow> char) \<Rightarrow> nat \<Rightarrow> nat \<Rightarrow> nat \<Rightarrow> string \<Rightarrow> string \<times> nat" where
  "write_random_loop rnd num_bytes pos off c = (if num_bytes = 0 then (c, pos)
     else let string_size = (if 4096 < num_bytes + 1 then 4096 else num_bytes + 1);
         (buffer, pos) = random_string rnd pos string_size
       in write_random_loop rnd (num_bytes - 4096) pos (off + (string_size + 1)) (write_at off buffer c))"
  by pat_completeness auto
termination by (relation "measure (\<lambda>(r, n, p, o', c). n)") auto

declare write_random_loop.simps [simp del]

definition write_random :: "(nat \<Rightarrow> char) \<Rightarrow> nat \<Rightarrow> string \<times> nat \<Rightarrow> string \<times> nat" where
  "write_random rnd num_bytes st = write_random_loop rnd num_bytes (snd st) 0 (fst st)"

definition shred :: "(nat \<Rightarrow> char) option \<Rightarrow> string \<Rightarrow> disk \<Rightarrow> (disk \<times> int) res" where
  "shred urandom filename d = (if \<not> writable d filename then OK (d, - 1)
     else case contents d filename of
         None \<Rightarrow> OK (d, - 1)
       | Some c \<Rightarrow> if c = [] then OK (d, - 1)
           else case urandom of None \<Rightarrow> Fault (Exit 1)
             | Some rnd \<Rightarrow> let c' = fst ((write_random rnd (length c) ^^ 3) (c, 0))
                 in OK (d\<lparr>contents := (contents d)(filename \<mapsto> c')\<rparr>, 1))"

subsection \<open>\<open>utils.c\<close> and \<open>secure_move.c\<close>\<close>

definition NUM_LINES_HEAD :: nat where "NUM_LINES_HEAD = 5"
definition NUM_LINES_TAIL :: nat where "NUM_LINES_TAIL = 5"

text \<open>What \<open>dprintf\<close> appends; a cell that was not written is read uninitialised.\<close>

definition print_line :: "wrapped \<Rightarrow> nat \<Rightarrow> string \<Rightarrow> string res" where
  "print_line input i out = (if i < length (cells input)
     then (case cells input ! i of None \<Rightarrow> Fault Uninit_Read | Some l \<Rightarrow> OK (out @ l @ [NL]))
     else Fault Out_Of_Bounds)"

definition print_head :: "wrapped \<Rightarrow> string \<Rightarrow> string res" where
  "print_head input out = bindE (forE [0..<NUM_LINES_HEAD] (print_line input) out) (\<lambda>out. OK (out @ [NL]))"

definition print_tail :: "wrapped \<Rightarrow> string \<Rightarrow> string res" where
  "print_tail input out = bindE (forE [num_lines input - NUM_LINES_TAIL..<num_lines input] (print_line input) out) (\<lambda>out. OK (out @ [NL]))"

definition print_entire_file :: "wrapped \<Rightarrow> string \<Rightarrow> string res" where
  "print_entire_file input out = forE [0..<num_lines input] (print_line input) out"

text \<open>
  \<open>main\<close> with its exit status. The test \<open>fd < -1\<close> is never true: when the destination cannot be
  opened every \<open>dprintf\<close> fails, and nothing is written.
\<close>

definition move_file :: "(nat \<Rightarrow> char) option \<Rightarrow> string \<Rightarrow> string \<Rightarrow> disk \<Rightarrow> (disk \<times> int) res" where
  "move_file urandom file_name dest d = bindE (read_wrap (contents d) file_name) (\<lambda>input. case input of
     None \<Rightarrow> OK (d, 1)
   | Some input_file \<Rightarrow> bindE (shred urandom file_name d) (\<lambda>(d, _).
       bindE (if num_lines input_file > 10 then bindE (print_head input_file []) (print_tail input_file) else OK []) (\<lambda>out.
       bindE (print_entire_file input_file out) (\<lambda>out.
       OK (if creatable d dest then d\<lparr>contents := (contents d)(dest \<mapsto> out)\<rparr> else d, 0)))))"

definition secure_move_main :: "(nat \<Rightarrow> char) option \<Rightarrow> string list \<Rightarrow> disk \<Rightarrow> (disk \<times> int) res" where
  "secure_move_main urandom argv d = (if length argv \<noteq> 3 then OK (d, 1) else move_file urandom (argv ! 1) (argv ! 2) d)"

section \<open>Specification\<close>

text \<open>A line cut into pieces of 80 characters; the lines of a text; what is printed of them.\<close>

function wrap :: "string \<Rightarrow> string list" where
  "wrap w = (if w = [] then [] else take 80 w # wrap (drop 80 w))"
  by pat_completeness auto
termination by (relation "measure length") auto

declare wrap.simps [simp del]

lemma wrap_Nil [simp]: "wrap [] = []"
  by (simp add: wrap.simps)

definition wrapped_lines :: "string \<Rightarrow> string list" where
  "wrapped_lines content = concat (map (\<lambda>l. wrap (takeWhile (\<lambda>c. c \<noteq> NL) l)) (getlines content))"

definition print_lines :: "string list \<Rightarrow> string" where
  "print_lines ls = concat (map (\<lambda>l. l @ [NL]) ls)"

definition moved_text :: "string list \<Rightarrow> string" where
  "moved_text ls = (if length ls > 10
     then print_lines (take 5 ls) @ [NL] @ print_lines (drop (length ls - 5) ls) @ [NL] else []) @ print_lines ls"

section \<open>Lemmas on the lines\<close>

definition ok_lines :: "wrapped \<Rightarrow> nat \<Rightarrow> string list \<Rightarrow> bool" where
  "ok_lines f capacity ls \<longleftrightarrow> num_lines f = length ls \<and> length (cells f) = capacity \<and> length ls \<le> capacity \<and> 0 < capacity \<and>
     take (length ls) (cells f) = map Some ls"

lemma add_line_ok:
  assumes "ok_lines f capacity ls" "NUL \<notin> set l"
  shows "\<exists>f' capacity'. add_line f capacity l = OK (f', capacity') \<and> ok_lines f' capacity' (ls @ [l])"
proof -
  define p where "p = (if num_lines f = capacity then (resize_cells (2 * capacity) f, 2 * capacity) else (f, capacity))"
  have p: "ok_lines (fst p) (snd p) ls" "length ls < snd p"
    using assms(1) by (auto simp: p_def ok_lines_def resize_cells_def)
  then have n: "num_lines (fst p) = length ls" "length ls < length (cells (fst p))" by (simp_all add: ok_lines_def)
  have "add_line f capacity l = OK ((fst p)\<lparr>cells := (cells (fst p))[length ls := Some l], num_lines := length ls + 1\<rparr>, snd p)"
    unfolding add_line_def p_def [symmetric] using n by (simp add: case_prod_beta cstr_id assms(2))
  moreover have "take (Suc (length ls)) ((cells (fst p))[length ls := Some l]) = map Some (ls @ [l])"
    using n p(1) by (simp add: take_Suc_conv_app_nth ok_lines_def)
  ultimately show ?thesis using p by (auto simp: ok_lines_def)
qed

lemma count_line_ok:
  assumes "ok_lines f c ls" "NUL \<notin> set l" "n = length ls"
  shows "\<exists>f' c'. count_line (f, c, n) l = OK (f', c', n + 1) \<and> ok_lines f' c' (ls @ [l])"
  using add_line_ok [OF assms(1,2)] assms(3) by (auto simp: count_line_def)

lemma wrap_loop_ok:
  assumes "ok_lines f c ls" "NUL \<notin> set w" "n = length w"
  shows "\<exists>f' c'. wrap_loop w n (f, c, length ls) = OK (f', c', length (ls @ wrap w)) \<and> ok_lines f' c' (ls @ wrap w)"
  using assms
proof (induction w arbitrary: f c ls n rule: wrap.induct)
  case (1 w)
  consider "w = []" | "w \<noteq> []" "n \<le> 80" | "80 < n" by linarith
  then show ?case
  proof cases
    case 1
    then show ?thesis using "1.prems" by (simp add: wrap_loop.simps wrap.simps)
  next
    case 2
    then have "wrap w = [w]" using "1.prems"(3) by (simp add: wrap.simps [of w])
    then show ?thesis using 2 count_line_ok [OF "1.prems"(1,2) refl] "1.prems"(3) by (simp add: wrap_loop.simps)
  next
    case 3
    then have w: "w \<noteq> []" using "1.prems"(3) by auto
    have t: "NUL \<notin> set (take 80 w)" "NUL \<notin> set (drop 80 w)" using "1.prems"(2) by (auto dest: in_set_takeD in_set_dropD)
    obtain f' c' where f': "count_line (f, c, length ls) (take 80 w) = OK (f', c', length ls + 1)" "ok_lines f' c' (ls @ [take 80 w])"
      using count_line_ok [OF "1.prems"(1) t(1) refl] by blast
    have "n - 80 = length (drop 80 w)" using "1.prems"(3) by simp
    from "1.IH" [OF w f'(2) t(2) this]
    show ?thesis using 3 f'(1) w by (simp add: wrap_loop.simps [of w n] wrap.simps [of w])
  qed
qed

lemma getline_line:
  assumes "getline content = Some (l, rest)"
  shows "content = l @ rest" "l \<noteq> []" "NL \<in> set l \<Longrightarrow> l = takeWhile (\<lambda>c. c \<noteq> NL) l @ [NL]"
    "NL \<notin> set l \<Longrightarrow> takeWhile (\<lambda>c. c \<noteq> NL) l = l" "filter (\<lambda>c. c \<noteq> NL) l = takeWhile (\<lambda>c. c \<noteq> NL) l"
proof -
  have f: "filter (\<lambda>c. c \<noteq> NL) (takeWhile (\<lambda>c. c \<noteq> NL) s) = takeWhile (\<lambda>c. c \<noteq> NL) s" for s
    by (metis (no_types, lifting) filter_True set_takeWhileD)
  have "content = l @ rest \<and> l \<noteq> [] \<and> (NL \<in> set l \<longrightarrow> l = takeWhile (\<lambda>c. c \<noteq> NL) l @ [NL]) \<and>
      (NL \<notin> set l \<longrightarrow> takeWhile (\<lambda>c. c \<noteq> NL) l = l)"
  proof (cases "dropWhile (\<lambda>c. c \<noteq> NL) content")
    case Nil
    then have "NL \<notin> set content" by (auto simp: dropWhile_eq_Nil_conv)
    then show ?thesis using assms Nil by (auto simp: getline_def takeWhile_eq_all_conv split: if_splits)
  next
    case (Cons c cs)
    then have "c = NL" using hd_dropWhile [of "\<lambda>c. c \<noteq> NL" content] by simp
    then have c: "content = takeWhile (\<lambda>c. c \<noteq> NL) content @ NL # cs" using Cons by (metis takeWhile_dropWhile_id)
    have l: "l = takeWhile (\<lambda>c. c \<noteq> NL) content @ [NL]" "rest = cs"
      using assms Cons by (auto simp: getline_def split: if_splits)
    have "NL \<notin> set (takeWhile (\<lambda>c. c \<noteq> NL) content)" by (auto dest: set_takeWhileD)
    then have "takeWhile (\<lambda>c. c \<noteq> NL) l = takeWhile (\<lambda>c. c \<noteq> NL) content" by (simp add: l(1))
    then show ?thesis using l c by simp
  qed
  then show "content = l @ rest" "l \<noteq> []" "NL \<in> set l \<Longrightarrow> l = takeWhile (\<lambda>c. c \<noteq> NL) l @ [NL]"
    "NL \<notin> set l \<Longrightarrow> takeWhile (\<lambda>c. c \<noteq> NL) l = l" by blast+
  note g = this
  show "filter (\<lambda>c. c \<noteq> NL) l = takeWhile (\<lambda>c. c \<noteq> NL) l"
  proof (cases "NL \<in> set l")
    case True
    then have "l = takeWhile (\<lambda>c. c \<noteq> NL) l @ [NL]" using g by blast
    then have "filter (\<lambda>c. c \<noteq> NL) l = filter (\<lambda>c. c \<noteq> NL) (takeWhile (\<lambda>c. c \<noteq> NL) l @ [NL])" by (rule arg_cong)
    then show ?thesis using f [of l] by simp
  next
    case False
    then show ?thesis using f [of l] g by simp
  qed
qed

lemma read_line_ok:
  assumes "ok_lines f c ls" "getline content = Some (l, rest)" "NUL \<notin> set content"
  shows "\<exists>f' c'. read_line l (f, c, length ls) = OK (f', c', length (ls @ wrap (takeWhile (\<lambda>c. c \<noteq> NL) l))) \<and>
    ok_lines f' c' (ls @ wrap (takeWhile (\<lambda>c. c \<noteq> NL) l))"
proof -
  note g = getline_line [OF assms(2)]
  have n: "NUL \<notin> set l" using assms(3) g(1) by auto
  then have n': "NUL \<notin> set (takeWhile (\<lambda>c. c \<noteq> NL) l)" by (auto dest: set_takeWhileD)
  have "length (takeWhile (\<lambda>c. c \<noteq> NL) l) = (if NL \<in> set l then length l - 1 else length l)"
    using g(3,4) by (metis One_nat_def diff_add_inverse2 length_append length_append_singleton list.size(3,4) Suc_eq_plus1 diff_Suc_1)
  then show ?thesis using wrap_loop_ok [OF assms(1) n' refl] g(4) by (auto simp: read_line_def cstr_id n)
qed

lemma read_lines_ok:
  assumes "ok_lines f c ls" "NUL \<notin> set content"
  shows "\<exists>f' c'. forE (getlines content) read_line (f, c, length ls) = OK (f', c', length (ls @ wrapped_lines content)) \<and>
    ok_lines f' c' (ls @ wrapped_lines content)"
  using assms
proof (induction content arbitrary: f c ls rule: getlines.induct)
  case (1 content)
  show ?case
  proof (cases "getline content")
    case None
    then show ?thesis using "1.prems" by (simp add: getlines.simps [of content] wrapped_lines_def)
  next
    case (Some p)
    obtain l rest where p: "p = (l, rest)" by (cases p)
    note g = Some [unfolded p]
    let ?ls = "ls @ wrap (takeWhile (\<lambda>c. c \<noteq> NL) l)"
    obtain f' c' where f': "read_line l (f, c, length ls) = OK (f', c', length ?ls)" "ok_lines f' c' ?ls"
      using read_line_ok [OF "1.prems"(1) g "1.prems"(2)] by blast
    have "NUL \<notin> set rest" using getline_line(1) [OF g] "1.prems"(2) by simp
    from "1.IH" [OF Some p [symmetric] f'(2) this] f'(1)
    show ?thesis by (simp add: getlines.simps [of content] wrapped_lines_def g)
  qed
qed

lemma wrap_pieces: "l \<in> set (wrap w) \<Longrightarrow> l \<noteq> [] \<and> length l \<le> 80" and concat_wrap: "concat (wrap w) = w"
proof (induction w rule: wrap.induct)
  case (1 w)
  { case 1 then show ?case using "1.IH"(1) by (cases "w = []") (auto simp: wrap.simps [of w]) }
  { case 2 then show ?case using "1.IH"(2) by (cases "w = []") (simp_all add: wrap.simps [of w]) }
qed

lemma concat_wrapped_lines: "concat (wrapped_lines content) = filter (\<lambda>c. c \<noteq> NL) content"
proof (induction content rule: getlines.induct)
  case (1 content)
  show ?case
  proof (cases "getline content")
    case None
    then have "content = []" by (auto simp: getline_def split: if_splits list.splits)
    then show ?thesis using None by (simp add: getlines.simps [of content] wrapped_lines_def)
  next
    case (Some p)
    obtain l rest where p: "p = (l, rest)" by (cases p)
    note g = Some [unfolded p]
    have "filter (\<lambda>c. c \<noteq> NL) content = filter (\<lambda>c. c \<noteq> NL) l @ filter (\<lambda>c. c \<noteq> NL) rest"
      by (subst getline_line(1) [OF g]) simp
    then show ?thesis using "1.IH" [OF Some p [symmetric]] getline_line(5) [OF g]
      by (simp add: getlines.simps [of content] wrapped_lines_def g concat_wrap)
  qed
qed

lemma read_wrap_ok:
  assumes "fs name = Some content" "NUL \<notin> set content"
  shows "read_wrap fs name = OK (Some \<lparr>num_lines = length (wrapped_lines content), cells = map Some (wrapped_lines content)\<rparr>)"
proof -
  have "ok_lines (new_file 10) 10 []" by (simp add: ok_lines_def new_file_def)
  from read_lines_ok [OF this assms(2)]
  obtain f c where f: "forE (getlines content) read_line (new_file 10, 10, 0) = OK (f, c, length (wrapped_lines content))"
    "ok_lines f c (wrapped_lines content)" by auto
  have "resize_cells (length (wrapped_lines content)) f = \<lparr>num_lines = length (wrapped_lines content), cells = map Some (wrapped_lines content)\<rparr>"
    using f(2) by (intro wrapped.equality) (simp_all add: resize_cells_def ok_lines_def)
  then show ?thesis using f(1) assms(1) by (simp add: read_wrap_def)
qed

lemma print_lines_append: "print_lines (a @ b) = print_lines a @ print_lines b"
  by (simp add: print_lines_def)

lemma print_range:
  assumes "cells f = map Some ls" "j \<le> length ls" "i \<le> j"
  shows "forE [i..<j] (print_line f) out = OK (out @ print_lines (take (j - i) (drop i ls)))"
  using assms(3,2)
proof (induction j rule: dec_induct)
  case base
  then show ?case by (simp add: print_lines_def)
next
  case (step j)
  have "take (Suc j - i) (drop i ls) = take (j - i) (drop i ls) @ [ls ! j]"
    using step by (simp add: Suc_diff_le take_Suc_conv_app_nth)
  then show ?case using step assms(1) by (simp add: forE_append print_lines_append print_line_def print_lines_def)
qed

section \<open>Lemmas on shredding\<close>

text \<open>What one pass writes, and the position in the stream of random bytes after it.\<close>

function noise :: "(nat \<Rightarrow> char) \<Rightarrow> nat \<Rightarrow> nat \<Rightarrow> string \<times> nat" where
  "noise rnd n pos = (if n = 0 then ([], pos)
     else let k = min 4096 (n + 1) in (map rnd [pos..<pos + k] @ [NUL] @ fst (noise rnd (n - 4096) (pos + k)), snd (noise rnd (n - 4096) (pos + k))))"
  by pat_completeness auto
termination by (relation "measure (\<lambda>(r, n, p). n)") auto

declare noise.simps [simp del]

lemma noise_0 [simp]: "noise rnd 0 pos = ([], pos)"
  by (simp add: noise.simps)

fun noise_length :: "nat \<Rightarrow> nat" where
  "noise_length n = (if n = 0 then 0 else min 4096 (n + 1) + 1 + noise_length (n - 4096))"

declare noise_length.simps [simp del]

lemma noise_length_0 [simp]: "noise_length 0 = 0"
  by (simp add: noise_length.simps)

lemma length_noise: "length (fst (noise rnd n pos)) = noise_length n"
proof (induction rnd n pos rule: noise.induct)
  case (1 rnd n pos)
  then show ?case by (cases "n = 0") (simp_all add: noise.simps [of rnd n] noise_length.simps [of n] Let_def)
qed

lemma noise_length_greater: "0 < n \<Longrightarrow> n < noise_length n"
proof (induction n rule: noise_length.induct)
  case (1 n)
  then show ?case by (cases "n - 4096 = 0") (auto simp: noise_length.simps [of n] noise_length.simps [of 0])
qed

lemma write_random_noise:
  assumes "off \<le> length c"
  shows "write_random_loop rnd n pos off c =
    (take off c @ fst (noise rnd n pos) @ drop (off + noise_length n) c, snd (noise rnd n pos))"
  using assms
proof (induction rnd n pos off c rule: write_random_loop.induct)
  case (1 rnd n pos off c)
  show ?case
  proof (cases "n = 0")
    case True
    then show ?thesis by (simp add: write_random_loop.simps noise.simps noise_length.simps)
  next
    case False
    define k where "k = min 4096 (n + 1)"
    define buf where "buf = map rnd [pos..<pos + k] @ [NUL]"
    have k: "(if 4096 < n + 1 then 4096 else n + 1) = k" by (simp add: k_def)
    have r: "random_string rnd pos k = (buf, pos + k)" by (simp add: random_string_def buf_def)
    have b: "length buf = k + 1" by (simp add: buf_def)
    let ?c = "write_at off buf c"
    have c: "off + (k + 1) \<le> length ?c" "take (off + (k + 1)) ?c = take off c @ buf" "drop (off + (k + 1) + j) ?c = drop (off + (k + 1) + j) c" for j
      using "1.prems" b by (simp_all add: write_at_def min_def ac_simps)
    have "write_random_loop rnd (n - 4096) (pos + k) (off + (k + 1)) ?c =
        (take (off + (k + 1)) ?c @ fst (noise rnd (n - 4096) (pos + k)) @ drop (off + (k + 1) + noise_length (n - 4096)) ?c, snd (noise rnd (n - 4096) (pos + k)))"
      by (rule "1.IH" [OF False refl, unfolded k, OF r [symmetric] refl c(1)])
    note IH = this
    have L: "write_random_loop rnd n pos off c = write_random_loop rnd (n - 4096) (pos + k) (off + (k + 1)) ?c"
      by (subst write_random_loop.simps) (simp only: False if_False Let_def k r prod.case)
    have N: "noise rnd n pos = (buf @ fst (noise rnd (n - 4096) (pos + k)), snd (noise rnd (n - 4096) (pos + k)))"
      by (subst noise.simps) (simp only: False if_False Let_def k_def [symmetric] buf_def append_assoc)
    have "off + noise_length n = off + (k + 1) + noise_length (n - 4096)"
      using False by (simp add: noise_length.simps [of n] k_def)
    then show ?thesis unfolding L IH N fst_conv snd_conv c(2) by (simp only: c(3) append_assoc)
  qed
qed

text \<open>Three passes leave what the last one wrote, whatever was in the file.\<close>

definition noise3 :: "(nat \<Rightarrow> char) \<Rightarrow> nat \<Rightarrow> string" where
  "noise3 rnd n = fst (noise rnd n (snd (noise rnd n (snd (noise rnd n 0)))))"

lemma write_random_pass:
  assumes "0 < n" "length c \<le> noise_length n"
  shows "write_random rnd n (c, pos) = noise rnd n pos"
  using write_random_noise [of 0 c rnd n pos] assms(2) by (simp add: write_random_def)

lemma shred_passes:
  assumes "c \<noteq> []"
  shows "fst ((write_random rnd (length c) ^^ 3) (c, 0)) = noise3 rnd (length c)"
proof -
  have n: "0 < length c" "length c \<le> noise_length (length c)" using assms noise_length_greater [of "length c"] by auto
  have "write_random rnd (length c) (fst p, snd p) = noise rnd (length c) (snd p)" if "length (fst p) \<le> noise_length (length c)" for p
    by (rule write_random_pass [OF n(1) that])
  then show ?thesis
    using n(2) length_noise [of rnd "length c"] by (simp add: numeral_3_eq_3 noise3_def)
qed

lemma move_file_result:
  assumes "contents d src = Some c" "c \<noteq> []" "NUL \<notin> set c" "writable d src"
  shows "move_file (Some rnd) src dest d = (let d' = d\<lparr>contents := (contents d)(src \<mapsto> noise3 rnd (length c))\<rparr> in
    OK (if creatable d dest then d'\<lparr>contents := (contents d')(dest \<mapsto> moved_text (wrapped_lines c))\<rparr> else d', 0))"
proof -
  let ?L = "wrapped_lines c" and ?d = "d\<lparr>contents := (contents d)(src \<mapsto> noise3 rnd (length c))\<rparr>"
  define f where "f = \<lparr>num_lines = length ?L, cells = map Some ?L\<rparr>"
  have f: "read_wrap (contents d) src = OK (Some f)" "cells f = map Some ?L" "num_lines f = length ?L"
    using read_wrap_ok [of "contents d", OF assms(1,3)] by (simp_all add: f_def)
  have s: "shred (Some rnd) src d = OK (?d, 1)"
    using assms(1,2,4) shred_passes [OF assms(2)] by (simp add: shred_def Let_def)
  note pr = print_range [OF f(2)]
  have "(if num_lines f > 10 then bindE (print_head f []) (print_tail f) else OK []) = OK (if length ?L > 10
      then print_lines (take 5 ?L) @ [NL] @ print_lines (drop (length ?L - 5) ?L) @ [NL] else [])"
    using pr [of 5 0 "[]"] pr [of "length ?L" "length ?L - 5"]
    by (simp add: f(3) print_head_def print_tail_def NUM_LINES_HEAD_def NUM_LINES_TAIL_def)
  moreover have "print_entire_file f out = OK (out @ print_lines ?L)" for out
    using pr [of "length ?L" 0 out] by (simp add: print_entire_file_def f(3))
  ultimately show ?thesis by (simp add: move_file_def f(1) s moved_text_def)
qed

section \<open>Properties\<close>

text \<open>
  C29: A file without NUL is read into lines of 1 to 80 characters that together are its text
  without the newlines, the lines of the file cut into pieces of 80 characters; the array of lines
  never overflows.
\<close>

theorem read_wrap_lines:
  assumes "fs name = Some content" "NUL \<notin> set content"
  shows "read_wrap fs name = OK (Some \<lparr>num_lines = length (wrapped_lines content), cells = map Some (wrapped_lines content)\<rparr>) \<and>
    concat (wrapped_lines content) = filter (\<lambda>c. c \<noteq> NL) content \<and> (\<forall>l \<in> set (wrapped_lines content). l \<noteq> [] \<and> length l \<le> 80)"
  using read_wrap_ok [of fs, OF assms] concat_wrapped_lines wrap_pieces by (auto simp: wrapped_lines_def)

lemma read_wrap_lines_witness:
  "read_wrap [''f'' \<mapsto> ''ab'' @ [NL] @ [NL] @ ''c''] ''f'' = OK (Some \<lparr>num_lines = 2, cells = [Some ''ab'', Some ''c'']\<rparr>)"
proof -
  have n: "NUL \<noteq> NL" "CHR ''a'' \<noteq> NL" "CHR ''b'' \<noteq> NL" "CHR ''c'' \<noteq> NL" by (simp_all add: NUL_def NL_def)
  have "wrapped_lines (''ab'' @ [NL] @ [NL] @ ''c'') = [''ab'', ''c'']"
    using n by (simp add: wrapped_lines_def getlines.simps getline_def wrap.simps)
  moreover have "NUL \<notin> set (''ab'' @ [NL] @ [NL] @ ''c'')" by (simp add: NUL_def NL_def)
  ultimately show ?thesis using read_wrap_lines [of "[''f'' \<mapsto> ''ab'' @ [NL] @ [NL] @ ''c'']" "''f''"] by simp
qed

text \<open>
  Moving a file writes its wrapped lines to the destination, after the first and the last
  five of them if there are more than ten, and leaves of the source bytes that depend on its length
  alone, more than it had: the random strings of three passes, each piece with its NUL; no other
  file changes.
\<close>

theorem secure_move_moves:
  assumes "contents d src = Some c" "c \<noteq> []" "NUL \<notin> set c" "writable d src" "creatable d dest" "src \<noteq> dest"
  shows "\<exists>d'. secure_move_main (Some rnd) [prog, src, dest] d = OK (d', 0) \<and>
    contents d' dest = Some (moved_text (wrapped_lines c)) \<and>
    contents d' src = Some (noise3 rnd (length c)) \<and> length c < length (noise3 rnd (length c)) \<and>
    (\<forall>f. f \<noteq> src \<and> f \<noteq> dest \<longrightarrow> contents d' f = contents d f)"
  using assms(2,5,6) noise_length_greater [of "length c"] move_file_result [OF assms(1-4)]
  by (auto simp: secure_move_main_def noise3_def length_noise Let_def)

lemma secure_move_moves_witness:
  "\<exists>d'. secure_move_main (Some (\<lambda>i. CHR ''x'')) [''p'', ''a'', ''b''] \<lparr>contents = [''a'' \<mapsto> ''hi'', ''c'' \<mapsto> ''y''], writable = (\<lambda>f. True), creatable = (\<lambda>f. True)\<rparr> =
    OK (d', 0) \<and> contents d' ''b'' = Some (''hi'' @ [NL]) \<and> contents d' ''c'' = Some ''y''"
proof -
  let ?d = "\<lparr>contents = [''a'' \<mapsto> ''hi'', ''c'' \<mapsto> ''y''], writable = (\<lambda>f. True), creatable = (\<lambda>f. True)\<rparr>"
  have "CHR ''h'' \<noteq> NL" "CHR ''i'' \<noteq> NL" by (simp_all add: NL_def)
  then have L: "wrapped_lines ''hi'' = [''hi'']" by (simp add: wrapped_lines_def getlines.simps getline_def wrap.simps)
  have N: "NUL \<notin> set ''hi''" by (simp add: NUL_def)
  have "\<exists>d'. secure_move_main (Some (\<lambda>i. CHR ''x'')) [''p'', ''a'', ''b''] ?d = OK (d', 0) \<and>
      contents d' ''b'' = Some (moved_text (wrapped_lines ''hi'')) \<and> contents d' ''a'' = Some (noise3 (\<lambda>i. CHR ''x'') (length ''hi'')) \<and>
      length ''hi'' < length (noise3 (\<lambda>i. CHR ''x'') (length ''hi'')) \<and> (\<forall>f. f \<noteq> ''a'' \<and> f \<noteq> ''b'' \<longrightarrow> contents d' f = contents ?d f)"
    by (rule secure_move_moves [OF _ _ N]) simp_all
  then obtain d' where d': "secure_move_main (Some (\<lambda>i. CHR ''x'')) [''p'', ''a'', ''b''] ?d = OK (d', 0)"
    "contents d' ''b'' = Some (moved_text (wrapped_lines ''hi''))" "\<forall>f. f \<noteq> ''a'' \<and> f \<noteq> ''b'' \<longrightarrow> contents d' f = contents ?d f" by blast
  have c: "contents d' ''c'' = Some ''y''" using d'(3) [rule_format, of "''c''"] by simp
  have "moved_text (wrapped_lines ''hi'') = ''hi'' @ [NL]" by (simp add: L moved_text_def print_lines_def)
  then have b: "contents d' ''b'' = Some (''hi'' @ [NL])" using d'(2) by (simp only:)
  show ?thesis by (intro exI conjI) (rule d'(1), rule b, rule c)
qed

text \<open>When the destination cannot be created the source is shredded all the same, and the program reports success.\<close>

lemma secure_move_loses:
  assumes "contents d src = Some c" "c \<noteq> []" "NUL \<notin> set c" "writable d src" "\<not> creatable d dest"
  shows "\<exists>d'. secure_move_main (Some rnd) [prog, src, dest] d = OK (d', 0) \<and> contents d' = (contents d)(src \<mapsto> noise3 rnd (length c))"
  using assms(5) move_file_result [OF assms(1-4)] by (simp add: secure_move_main_def Let_def)

end
