(* ===== verification/Par_Reduce.thy ===== *)
theory Par_Reduce
  imports Prelude
begin

text \<open>
  The parallel reduction of \<open>teaching_threads/par_reduce.c\<close>: each thread takes the next part of the
  list with an unprotected \<open>thread_part++\<close>. The sequential \<open>reduce\<close> with its reducer and base case
  is in a header that is not in the repository; it is the parameter \<open>R\<close>.
\<close>

section \<open>The model\<close>

record reduce_task =
  tnum :: nat
  lst :: "int list"

text \<open>
  What a thread has done: \<open>thread_part++\<close> is a load and a store, and other threads can run
  between them. A thread that has returned has the result of its part.
\<close>

datatype pc = Start | Loaded nat | Stored nat | Returned nat int

record par_state =
  thread_part :: nat
  pcs :: "nat \<Rightarrow> pc"

text \<open>The part of the list with number \<open>tp\<close>: the last one has the rest.\<close>

definition part :: "reduce_task \<Rightarrow> nat \<Rightarrow> int list" where
  "part p tp = (let skip = length (lst p) div tnum p;
     len = (if tp = tnum p - 1 then length (lst p) - skip * (tnum p - 1) else skip)
   in take len (drop (tp * skip) (lst p)))"

text \<open>The next step of \<open>myfunc\<close> in the thread \<open>t\<close>.\<close>

definition myfunc_step :: "(int list \<Rightarrow> int) \<Rightarrow> reduce_task \<Rightarrow> nat \<Rightarrow> par_state \<Rightarrow> par_state option" where
  "myfunc_step R p t s = (if tnum p \<le> t then None else case pcs s t of
       Start \<Rightarrow> Some (s\<lparr>pcs := (pcs s)(t := Loaded (thread_part s))\<rparr>)
     | Loaded tp \<Rightarrow> Some (s\<lparr>thread_part := tp + 1, pcs := (pcs s)(t := Stored tp)\<rparr>)
     | Stored tp \<Rightarrow> Some (s\<lparr>pcs := (pcs s)(t := Returned tp (R (part p tp)))\<rparr>)
     | Returned _ _ \<Rightarrow> None)"

text \<open>The threads take their steps in the order of a schedule.\<close>

primrec run_schedule :: "(int list \<Rightarrow> int) \<Rightarrow> reduce_task \<Rightarrow> nat list \<Rightarrow> par_state \<Rightarrow> par_state option" where
  "run_schedule R p [] s = Some s"
| "run_schedule R p (t # ts) s = (case myfunc_step R p t s of None \<Rightarrow> None | Some s' \<Rightarrow> run_schedule R p ts s')"

definition result :: "pc \<Rightarrow> int option" where
  "result c = (case c of Returned _ r \<Rightarrow> Some r | _ \<Rightarrow> None)"

text \<open>
  The main thread: a short list is reduced at once; otherwise it joins the threads in order and
  reduces their results. \<open>None\<close> is a schedule after which it still waits.
\<close>

definition par_reduce :: "(int list \<Rightarrow> int) \<Rightarrow> int list option \<Rightarrow> nat \<Rightarrow> nat list \<Rightarrow> int option" where
  "par_reduce R list num_threads schedule = (case list of None \<Rightarrow> Some 0
   | Some xs \<Rightarrow> if xs = [] then Some 0
       else if length xs \<le> num_threads then Some (R xs)
       else case run_schedule R \<lparr>tnum = num_threads, lst = xs\<rparr> schedule \<lparr>thread_part = 0, pcs = (\<lambda>_. Start)\<rparr> of
           None \<Rightarrow> None
         | Some s \<Rightarrow> if \<forall>t \<in> set [0..<num_threads]. result (pcs s t) \<noteq> None
             then Some (R (map (\<lambda>t. the (result (pcs s t))) [0..<num_threads])) else None)"

section \<open>Specification\<close>

text \<open>The schedules in which no thread loads the counter between the load and the store of another.\<close>

definition is_loaded :: "pc \<Rightarrow> bool" where
  "is_loaded c = (case c of Loaded _ \<Rightarrow> True | _ \<Rightarrow> False)"

primrec no_race :: "(int list \<Rightarrow> int) \<Rightarrow> reduce_task \<Rightarrow> nat list \<Rightarrow> par_state \<Rightarrow> bool" where
  "no_race R p [] s \<longleftrightarrow> True"
| "no_race R p (t # ts) s \<longleftrightarrow> (pcs s t = Start \<longrightarrow> (\<forall>u \<in> set [0..<tnum p]. \<not> is_loaded (pcs s u))) \<and>
     (case myfunc_step R p t s of None \<Rightarrow> True | Some s' \<Rightarrow> no_race R p ts s')"

section \<open>The parts make up the list\<close>

lemma concat_parts:
  assumes "0 < tnum p"
  shows "concat (map (part p) [0..<tnum p]) = lst p"
proof -
  let ?k = "length (lst p) div tnum p"
  have pre: "concat (map (part p) [0..<m]) = take (m * ?k) (lst p)" if "m \<le> tnum p - 1" for m
    using that
  proof (induction m)
    case (Suc m)
    then have "part p m = take ?k (drop (m * ?k) (lst p))" by (simp add: part_def Let_def)
    moreover have "take (Suc m * ?k) (lst p) = take (m * ?k) (lst p) @ take ?k (drop (m * ?k) (lst p))"
      by (simp add: take_add [symmetric] add.commute)
    ultimately show ?case using Suc by simp
  qed simp
  obtain n where n: "tnum p = Suc n" using assms by (cases "tnum p") simp_all
  have "part p n = drop (n * ?k) (lst p)" by (simp add: part_def Let_def n mult.commute)
  then show ?thesis using pre [of n] by (simp add: n)
qed

text \<open>A reducer that is associative and commutative, with its base case as neutral element.\<close>

definition reducer :: "(int \<Rightarrow> int \<Rightarrow> int) \<Rightarrow> int \<Rightarrow> bool" where
  "reducer f b \<longleftrightarrow> (\<forall>x y z. f (f x y) z = f x (f y z)) \<and> (\<forall>x y. f x y = f y x) \<and> (\<forall>x. f b x = x)"

lemma foldr_start: "reducer f b \<Longrightarrow> foldr f xs z = f (foldr f xs b) z"
proof (induction xs)
  case (Cons x xs)
  have "f (f x y) z = f x (f y z)" for y using Cons.prems unfolding reducer_def by blast
  then show ?case using Cons by simp
qed (simp add: reducer_def)

lemma foldr_concat: "reducer f b \<Longrightarrow> foldr f (concat xss) b = foldr f (map (\<lambda>xs. foldr f xs b) xss) b"
proof (induction xss)
  case (Cons xs xss)
  then show ?case using foldr_start [of f b xs "foldr f (concat xss) b"] by simp
qed simp

lemma foldr_mset:
  assumes "reducer f b" "mset xs = mset ys"
  shows "foldr f xs b = foldr f ys b"
proof -
  have "f x \<circ> f y = f y \<circ> f x" for x y using assms(1) unfolding reducer_def by (intro ext) (metis comp_apply)
  then have "foldr f xs = fold f xs" "foldr f ys = fold f ys" "fold f xs = fold f ys"
    using assms(2) by (simp_all add: foldr_fold) (rule fold_multiset_equiv, simp_all)
  then show ?thesis by simp
qed

section \<open>Every part is taken by one thread\<close>

definition number :: "pc \<Rightarrow> nat option" where
  "number c = (case c of Start \<Rightarrow> None | Loaded tp \<Rightarrow> Some tp | Stored tp \<Rightarrow> Some tp | Returned tp _ \<Rightarrow> Some tp)"

definition fair :: "(int list \<Rightarrow> int) \<Rightarrow> reduce_task \<Rightarrow> par_state \<Rightarrow> bool" where
  "fair R p s \<longleftrightarrow> (\<forall>t \<ge> tnum p. pcs s t = Start) \<and>
     (\<forall>t u tp. number (pcs s t) = Some tp \<and> number (pcs s u) = Some tp \<longrightarrow> t = u) \<and>
     (\<forall>t tp. number (pcs s t) = Some tp \<longrightarrow> (if is_loaded (pcs s t) then tp = thread_part s else tp < thread_part s)) \<and>
     (\<forall>tp < thread_part s. \<exists>t. number (pcs s t) = Some tp) \<and>
     (\<forall>t tp r. pcs s t = Returned tp r \<longrightarrow> r = R (part p tp))"

lemma fairD:
  assumes "fair R p s"
  shows "tnum p \<le> t \<Longrightarrow> pcs s t = Start" "number (pcs s t) = Some tp \<Longrightarrow> number (pcs s u) = Some tp \<Longrightarrow> t = u"
    "number (pcs s t) = Some tp \<Longrightarrow> is_loaded (pcs s t) \<Longrightarrow> tp = thread_part s"
    "number (pcs s t) = Some tp \<Longrightarrow> \<not> is_loaded (pcs s t) \<Longrightarrow> tp < thread_part s"
    "tp < thread_part s \<Longrightarrow> \<exists>t. number (pcs s t) = Some tp" "pcs s t = Returned tp r \<Longrightarrow> r = R (part p tp)"
  using assms unfolding fair_def by (blast, blast, metis, metis, blast, blast)

lemma fair_step:
  assumes i: "fair R p s" and m: "myfunc_step R p t s = Some s'"
    and q: "pcs s t = Start \<longrightarrow> (\<forall>u \<in> set [0..<tnum p]. \<not> is_loaded (pcs s u))"
  shows "fair R p s'"
proof -
  note D = fairD [OF i]
  have t: "t < tnum p" using m by (simp add: myfunc_step_def split: if_splits)
  show ?thesis
  proof (cases "pcs s t")
    case Start
    have s': "s' = s\<lparr>pcs := (pcs s)(t := Loaded (thread_part s))\<rparr>" using m t Start by (simp add: myfunc_step_def)
    have "\<not> is_loaded (pcs s u)" for u using q Start D(1) [of u] by (cases "u < tnum p") (auto simp: is_loaded_def)
    then have less: "tp < thread_part s" if "number (pcs s u) = Some tp" for u tp using D(4) that by blast
    have new: "number (pcs s u) \<noteq> Some (thread_part s)" for u using less by blast
    have "\<exists>u. number (pcs s' u) = Some tp" if tp: "tp < thread_part s" for tp
    proof -
      obtain u where "number (pcs s u) = Some tp" using D(5) [OF tp] by blast
      moreover from this have "u \<noteq> t" using Start by (auto simp: number_def)
      ultimately show ?thesis by (auto simp: s')
    qed
    then show ?thesis using D(1,2,6) less new t \<open>\<And>u. \<not> is_loaded (pcs s u)\<close> unfolding fair_def
      by (auto simp: s' number_def [of "Loaded _"] is_loaded_def [of "Loaded _"])
  next
    case (Loaded tp)
    have tp: "tp = thread_part s" using D(3) [of t tp] Loaded by (simp add: number_def is_loaded_def)
    have s': "s' = s\<lparr>thread_part := tp + 1, pcs := (pcs s)(t := Stored tp)\<rparr>" using m t Loaded by (simp add: myfunc_step_def)
    have nn: "number (pcs s' u) = number (pcs s u)" for u using Loaded by (simp add: s' number_def)
    have ll: "\<not> is_loaded (pcs s' u)" for u
    proof (cases "u = t")
      case False
      have "\<not> is_loaded (pcs s u)"
      proof
        assume l: "is_loaded (pcs s u)"
        then obtain tq where "number (pcs s u) = Some tq" by (cases "pcs s u") (simp_all add: is_loaded_def number_def)
        then have "number (pcs s u) = Some tp" using D(3) l tp by blast
        then show False using D(2) [of u tp t] False Loaded by (simp add: number_def)
      qed
      then show ?thesis using False by (simp add: s')
    qed (simp add: s' is_loaded_def)
    have "v < thread_part s'" if "number (pcs s u) = Some v" for u v
      using D(3,4) [OF that] tp by (cases "is_loaded (pcs s u)") (simp_all add: s')
    moreover have "\<exists>u. number (pcs s u) = Some v" if "v < thread_part s'" for v
    proof (cases "v = tp")
      case True
      then show ?thesis using Loaded by (intro exI [of _ t]) (simp add: number_def)
    next
      case False
      then show ?thesis using that D(5) tp by (simp add: s')
    qed
    ultimately show ?thesis using D(1,2,6) t ll unfolding fair_def nn by (auto simp: s')
  next
    case (Stored tp)
    have s': "s' = s\<lparr>pcs := (pcs s)(t := Returned tp (R (part p tp)))\<rparr>" using m t Stored by (simp add: myfunc_step_def)
    have nn: "number (pcs s' u) = number (pcs s u)" "is_loaded (pcs s' u) = is_loaded (pcs s u)" for u
      using Stored by (simp_all add: s' number_def is_loaded_def)
    show ?thesis using i t unfolding fair_def nn by (simp add: s')
  next
    case (Returned tp r)
    then show ?thesis using m t by (simp add: myfunc_step_def)
  qed
qed

lemma fair_run: "run_schedule R p ts s = Some s' \<Longrightarrow> no_race R p ts s \<Longrightarrow> fair R p s \<Longrightarrow> fair R p s'"
proof (induction ts arbitrary: s)
  case (Cons t ts)
  then show ?case using fair_step by (auto split: option.splits)
qed simp

lemma fair_results:
  assumes i: "fair R p s" and r: "\<forall>t \<in> set [0..<tnum p]. result (pcs s t) \<noteq> None"
  shows "mset (map (\<lambda>t. the (result (pcs s t))) [0..<tnum p]) = mset (map (\<lambda>tp. R (part p tp)) [0..<tnum p])"
proof -
  note D = fairD [OF i]
  define g where "g t = the (number (pcs s t))" for t
  have ret: "pcs s t = Returned (g t) (R (part p (g t)))" if "t < tnum p" for t
  proof -
    have "result (pcs s t) \<noteq> None" using r that by simp
    then show ?thesis using D(6) [of t] by (cases "pcs s t") (auto simp: result_def g_def number_def)
  qed
  have num: "number (pcs s t) = Some (g t)" if "t < tnum p" for t using ret [OF that] by (simp add: number_def)
  have inj: "inj_on g {..<tnum p}"
  proof (rule inj_onI)
    fix t u assume a: "t \<in> {..<tnum p}" "u \<in> {..<tnum p}" "g t = g u"
    show "t = u" using D(2) [of t "g t" u] num [of t] num [of u] a by simp
  qed
  have "g ` {..<tnum p} = {..<thread_part s}"
  proof
    show "g ` {..<tnum p} \<subseteq> {..<thread_part s}"
    proof clarsimp
      fix t assume "t < tnum p"
      then show "g t < thread_part s" using D(4) [OF num] ret by (simp add: is_loaded_def)
    qed
    show "{..<thread_part s} \<subseteq> g ` {..<tnum p}"
    proof
      fix tp assume "tp \<in> {..<thread_part s}"
      then obtain t where t: "number (pcs s t) = Some tp" using D(5) by blast
      then have "t < tnum p" using D(1) [of t] by (cases "t < tnum p") (simp_all add: number_def)
      then show "tp \<in> g ` {..<tnum p}" using num t by force
    qed
  qed
  moreover from this have "thread_part s = tnum p" using card_image [OF inj] by simp
  ultimately have im: "g ` {..<tnum p} = {..<tnum p}" by simp
  have "image_mset g (mset [0..<tnum p]) = mset [0..<tnum p]"
    using image_mset_mset_set [OF inj] im by (simp add: lessThan_atLeast0 [symmetric] mset_upt)
  then have "image_mset (\<lambda>tp. R (part p tp)) (image_mset g (mset [0..<tnum p])) = image_mset (\<lambda>tp. R (part p tp)) (mset [0..<tnum p])"
    by simp
  moreover have "map (\<lambda>t. the (result (pcs s t))) [0..<tnum p] = map (\<lambda>t. R (part p (g t))) [0..<tnum p]"
    using ret by (simp add: result_def)
  moreover have "mset (map (\<lambda>t. R (part p (g t))) [0..<tnum p]) = image_mset (\<lambda>tp. R (part p tp)) (image_mset g (mset [0..<tnum p]))"
    by (simp only: mset_map multiset.map_comp comp_def)
  ultimately show ?thesis by (simp only: mset_map)
qed

section \<open>Properties\<close>

text \<open>
  C28: If no thread loads the counter between the load and the store of another one, the threads
  reduce the list as one thread would, in whatever order they come and finish, for a reducer that
  is associative and commutative and has the base case as its neutral element.
\<close>

theorem par_reduce_correct:
  assumes "reducer f b" "R = (\<lambda>xs. foldr f xs b)" "xs \<noteq> []" "0 < n"
    and "length xs \<le> n \<or> no_race R \<lparr>tnum = n, lst = xs\<rparr> sched \<lparr>thread_part = 0, pcs = (\<lambda>_. Start)\<rparr>"
    and "par_reduce R (Some xs) n sched = Some r"
  shows "r = R xs"
proof (cases "length xs \<le> n")
  case True
  then show ?thesis using assms(3,6) by (simp add: par_reduce_def)
next
  case False
  let ?p = "\<lparr>tnum = n, lst = xs\<rparr>" and ?s = "\<lparr>thread_part = 0, pcs = (\<lambda>_. Start)\<rparr>"
  obtain s where s: "run_schedule R ?p sched ?s = Some s" "\<forall>t \<in> set [0..<n]. result (pcs s t) \<noteq> None"
    "r = R (map (\<lambda>t. the (result (pcs s t))) [0..<n])"
    using assms(3,6) False by (auto simp: par_reduce_def split: option.splits if_splits)
  have "fair R ?p ?s" by (simp add: fair_def number_def)
  then have "fair R ?p s" using fair_run [OF s(1)] assms(5) False by blast
  have "mset (map (\<lambda>t. the (result (pcs s t))) [0..<n]) = mset (map (\<lambda>tp. R (part ?p tp)) [0..<n])"
    using fair_results [OF \<open>fair R ?p s\<close>] s(2) by (simp only: reduce_task.select_convs)
  from foldr_mset [OF assms(1) this] have "r = foldr f (map (\<lambda>tp. R (part ?p tp)) [0..<n]) b"
    unfolding s(3) by (simp only: assms(2))
  also have "\<dots> = foldr f (concat (map (part ?p) [0..<n])) b"
    using foldr_concat [OF assms(1), of "map (part ?p) [0..<n]"] assms(2) by (simp add: comp_def)
  also have "concat (map (part ?p) [0..<n]) = xs" using concat_parts [of ?p] assms(4) by simp
  finally show ?thesis by (simp add: assms(2))
qed

lemma upt_2: "[0..<2] = [0, 1 :: nat]"
  by (simp add: numeral_2_eq_2)

lemma par_reduce_correct_witness:
  "par_reduce (\<lambda>xs. foldr (+) xs 0) (Some [1, 2, 3]) 2 [0, 0, 1, 1, 1, 0] = Some 6 \<and> (6 :: int) = foldr (+) [1, 2, 3] 0"
proof -
  have "par_reduce (\<lambda>xs. foldr (+) xs 0) (Some [1, 2, 3]) 2 [0, 0, 1, 1, 1, 0] = Some 6"
    by (simp add: par_reduce_def myfunc_step_def result_def part_def Let_def upt_2)
  moreover have "reducer (+) 0" by (simp add: reducer_def)
  moreover have "no_race (\<lambda>xs. foldr (+) xs 0) \<lparr>tnum = 2, lst = [1, 2, 3]\<rparr> [0, 0, 1, 1, 1, 0] \<lparr>thread_part = 0, pcs = (\<lambda>_. Start)\<rparr>"
    by (simp add: myfunc_step_def is_loaded_def)
  ultimately show ?thesis
    using par_reduce_correct [of "(+)" 0 "\<lambda>xs. foldr (+) xs 0" "[1, 2, 3]" 2 "[0, 0, 1, 1, 1, 0]" 6] by simp
qed

text \<open>
  The race: when both threads load the counter before one stores it, both reduce the first part and
  the rest of the list is left out.
\<close>

lemma par_reduce_race:
  "par_reduce (\<lambda>xs. foldr (+) xs 0) (Some [1, 2, 3]) 2 [0, 1, 0, 1, 0, 1] = Some 2"
  by (simp add: par_reduce_def myfunc_step_def result_def part_def Let_def upt_2)

text \<open>Without threads the result is that of the empty list.\<close>

lemma par_reduce_no_threads: "xs \<noteq> [] \<Longrightarrow> par_reduce R (Some xs) 0 [] = Some (R [])"
  by (simp add: par_reduce_def)

end
