(* ===== verification/Env.thy ===== *)
theory Env
  imports Ctype C_String
begin

text \<open>
  The program \<open>env\<close> of \<open>utilities_unleashed/env.c\<close>: it runs a command \<open>n\<close> times, each time with
  the next values of the given variables. \<open>print_env_usage\<close>, which prints and ends the program,
  is in a file that is not in the repository.
\<close>

section \<open>The model\<close>

abbreviation usage :: "'a res" where "usage \<equiv> Fault (Exit 1)"

text \<open>The index of the first argument \<open>--\<close>, or 0.\<close>

definition find_split :: "string list \<Rightarrow> nat" where
  "find_split argv = (if ''--'' \<in> set argv then length (takeWhile (\<lambda>a. a \<noteq> ''--'') argv) else 0)"

definition name_char :: "char \<Rightarrow> bool" where
  "name_char c \<longleftrightarrow> isalpha c \<or> is_digit c \<or> c = CHR ''_''"

definition value_char :: "char \<Rightarrow> bool" where
  "value_char c \<longleftrightarrow> isalnum c \<or> c = CHR ''_''"

text \<open>The name and the values of an argument; what follows a second \<open>=\<close> is dropped.\<close>

definition read_assignment :: "string \<Rightarrow> (string \<times> string) res" where
  "read_assignment arg = (case strtok (CHR ''='') arg of
     None \<Rightarrow> usage
   | Some (name, rest) \<Rightarrow> if \<not> list_all name_char name then usage
       else (case strtok (CHR ''='') rest of None \<Rightarrow> usage | Some (vars, _) \<Rightarrow> OK (name, vars)))"

primrec read_assignments :: "string list \<Rightarrow> (string \<times> string) list res" where
  "read_assignments [] = OK []"
| "read_assignments (arg # args) = bindE (read_assignment arg) (\<lambda>a. bindE (read_assignments args) (\<lambda>as. OK (a # as)))"

text \<open>
  The values of one variable for the \<open>num\<close> runs. \<open>strtok\<close> puts a NUL behind each value, so the
  string \<open>vars\<close> that fills up the missing ones ends with the first value; of commas alone it is
  left as it is.
\<close>

definition good_value :: "string \<Rightarrow> bool" where
  "good_value token = list_all value_char (case token of c # cs \<Rightarrow> if c = CHR ''%'' then cs else token | [] \<Rightarrow> token)"

definition split_values :: "nat \<Rightarrow> string \<Rightarrow> string list res" where
  "split_values num vars = (let tokens = take num (strtok_all (CHR '','') vars);
       fill = takeWhile (\<lambda>c. c = CHR '','') vars @ (case strtok (CHR '','') vars of None \<Rightarrow> [] | Some (t, _) \<Rightarrow> t)
     in if list_all good_value tokens then OK (tokens @ replicate (num - length tokens) fill) else usage)"

primrec split_all :: "nat \<Rightarrow> (string \<times> string) list \<Rightarrow> (string \<times> string list) list res" where
  "split_all num [] = OK []"
| "split_all num (a # as) = bindE (split_values num (snd a)) (\<lambda>vs. bindE (split_all num as) (\<lambda>rest. OK ((fst a, vs) # rest)))"

text \<open>
  The loop over the variables in the child of run \<open>i\<close>: \<open>done\<close> are the names and the values of the
  variables before. A value with \<open>%\<close> is replaced by that of the last of them with the name behind it.
\<close>

type_synonym env = "string \<Rightarrow> string option"

definition resolve :: "(string \<times> string) list \<Rightarrow> string \<Rightarrow> string" where
  "resolve done v = (case strstr v ''%'' of None \<Rightarrow> v
     | Some k \<Rightarrow> foldl (\<lambda>res (n, w). if drop (k + 1) v = n then w else res) [] done)"

fun set_variables :: "nat \<Rightarrow> (string \<times> string list) list \<Rightarrow> (string \<times> string) list \<Rightarrow> env \<Rightarrow> env" where
  "set_variables i [] done e = e"
| "set_variables i ((n, vs) # rest) done e = (let v = resolve done (vs ! i) in
     set_variables i rest (done @ [(n, v)]) (e(n \<mapsto> v)))"

text \<open>
  The runs one after the other: \<open>child\<close> is the exit status of the command in an environment. The
  environments of the runs, and the exit status of the program.
\<close>

primrec run_children :: "(env \<Rightarrow> string list \<Rightarrow> int) \<Rightarrow> string list \<Rightarrow> (string \<times> string list) list \<Rightarrow> env \<Rightarrow> nat list \<Rightarrow> env list \<times> int" where
  "run_children child command vars e [] = ([], 0)"
| "run_children child command vars e (i # is) = (let e' = set_variables i vars [] e in
     if child e' command \<noteq> 0 then ([e'], 1)
     else let (es, r) = run_children child command vars e is in (e' # es, r))"

text \<open>An array with a negative size is undefined behaviour.\<close>

definition env_main :: "(env \<Rightarrow> string list \<Rightarrow> int) \<Rightarrow> string list \<Rightarrow> env \<Rightarrow> (env list \<times> int) res" where
  "env_main child argv e = (if length argv < 3 then usage else
     let split = find_split argv in
     if split = 0 \<or> split + 1 = length argv then usage else
     bindE (if argv ! 1 = ''-n'' then bindE (atoi (argv ! 2)) (\<lambda>num. OK (num, 3)) else OK (1, 1)) (\<lambda>(num, f).
     if split < f \<or> num < 0 then Fault Out_Of_Bounds else
     bindE (read_assignments (take (split - f) (drop f argv))) (\<lambda>as.
     bindE (split_all (nat num) as) (\<lambda>vars.
     OK (run_children child (drop (split + 1) argv) vars e [0..<nat num])))))"

section \<open>Specification\<close>

text \<open>
  An assignment of the command line: a name and its values; a value is a text or a reference to an
  earlier variable. In a run the missing values are the first one, and a reference to a name that
  was not assigned before is empty.
\<close>

datatype setting = Text string | Ref string

definition show_setting :: "setting \<Rightarrow> string" where
  "show_setting s = (case s of Text t \<Rightarrow> t | Ref n \<Rightarrow> CHR ''%'' # n)"

definition join_values :: "string list \<Rightarrow> string" where
  "join_values vs = hd vs @ concat (map (\<lambda>v. CHR '','' # v) (tl vs))"

definition show_assignment :: "string \<times> setting list \<Rightarrow> string" where
  "show_assignment a = fst a @ CHR ''='' # join_values (map show_setting (snd a))"

definition setting_of :: "nat \<Rightarrow> setting list \<Rightarrow> setting" where
  "setting_of i vs = (if i < length vs then vs ! i else hd vs)"

fun assigned :: "nat \<Rightarrow> (string \<times> setting list) list \<Rightarrow> env \<Rightarrow> env" where
  "assigned i [] m = m"
| "assigned i ((n, vs) # as) m = assigned i as (m(n \<mapsto> (case setting_of i vs of Text t \<Rightarrow> t
     | Ref r \<Rightarrow> (case m r of None \<Rightarrow> [] | Some v \<Rightarrow> v))))"

definition good_setting :: "setting \<Rightarrow> bool" where
  "good_setting s \<longleftrightarrow> (case s of Text t \<Rightarrow> t \<noteq> [] \<and> list_all value_char t | Ref n \<Rightarrow> n \<noteq> [] \<and> list_all value_char n)"

definition good_assignment :: "nat \<Rightarrow> string \<times> setting list \<Rightarrow> bool" where
  "good_assignment num a \<longleftrightarrow> fst a \<noteq> [] \<and> list_all name_char (fst a) \<and> snd a \<noteq> [] \<and> length (snd a) \<le> num \<and> list_all good_setting (snd a)"

text \<open>All runs, up to the first that fails.\<close>

primrec all_runs :: "(env \<Rightarrow> string list \<Rightarrow> int) \<Rightarrow> string list \<Rightarrow> env list \<Rightarrow> env list \<times> int" where
  "all_runs child command [] = ([], 0)"
| "all_runs child command (e # es) = (if child e command \<noteq> 0 then ([e], 1)
     else let (es', r) = all_runs child command es in (e # es', r))"

section \<open>Lemmas\<close>

lemma value_char_plain: "value_char c \<Longrightarrow> c \<noteq> CHR ''='' \<and> c \<noteq> CHR '','' \<and> c \<noteq> CHR ''%''"
  by (auto simp: value_char_def isalnum_def isalpha_def is_digit_def char_eq_code)

lemma name_char_value: "name_char c = value_char c"
  by (auto simp: name_char_def value_char_def isalnum_def isalpha_def is_digit_def)

lemma show_setting_plain:
  assumes "good_setting s"
  shows "show_setting s \<noteq> []" "CHR ''='' \<notin> set (show_setting s)" "CHR '','' \<notin> set (show_setting s)" "good_value (show_setting s)"
proof -
  have "CHR ''='' \<notin> set t \<and> CHR '','' \<notin> set t \<and> CHR ''%'' \<notin> set t" if "list_all value_char t" for t
    using that value_char_plain by (auto simp: list_all_iff)
  then show "show_setting s \<noteq> []" "CHR ''='' \<notin> set (show_setting s)" "CHR '','' \<notin> set (show_setting s)" "good_value (show_setting s)"
    using assms by (cases s; auto simp: good_setting_def show_setting_def good_value_def split: list.splits)+
qed

lemma join_values_Cons: "join_values (v # vs) = (if vs = [] then v else v @ CHR '','' # join_values vs)"
  by (cases vs) (simp_all add: join_values_def)

lemma tokens_of_join: "vs \<noteq> [] \<Longrightarrow> \<forall>v \<in> set vs. v \<noteq> [] \<and> CHR '','' \<notin> set v \<Longrightarrow> strtok_all (CHR '','') (join_values vs) = vs"
proof (induction vs)
  case (Cons v vs)
  then show ?case using strtok_all_step [of v "CHR '',''"] by (simp add: join_values_Cons)
qed simp

lemma strtok_join:
  assumes "v \<noteq> []" "CHR '','' \<notin> set v"
  shows "\<exists>rest. strtok (CHR '','') (join_values (v # vs)) = Some (v, rest)"
  using strtok_step [OF assms] by (simp add: join_values_Cons)

lemma takeWhile_join: "v \<noteq> [] \<Longrightarrow> CHR '','' \<notin> set v \<Longrightarrow> takeWhile (\<lambda>c. c = CHR '','') (join_values (v # vs)) = []"
  by (cases v) (auto simp: join_values_Cons)

lemma split_values_ok:
  assumes "vs \<noteq> []" "length vs \<le> num" "list_all good_setting vs"
  shows "split_values num (join_values (map show_setting vs)) = OK (map (\<lambda>i. show_setting (setting_of i vs)) [0..<num])"
proof -
  obtain v us where vs: "vs = v # us" using assms(1) by (cases vs) simp_all
  have p: "\<forall>u \<in> set (map show_setting vs). u \<noteq> [] \<and> CHR '','' \<notin> set u" "list_all good_value (map show_setting vs)"
    using assms(3) show_setting_plain by (auto simp: list_all_iff)
  have all: "strtok_all (CHR '','') (join_values (map show_setting vs)) = map show_setting vs"
    by (rule tokens_of_join) (use assms(1) p(1) in simp_all)
  have v: "show_setting v \<noteq> []" "CHR '','' \<notin> set (show_setting v)" using p(1) vs by simp_all
  obtain rest where "strtok (CHR '','') (join_values (map show_setting vs)) = Some (show_setting v, rest)"
    using strtok_join [OF v, of "map show_setting us"] vs by auto
  moreover have "takeWhile (\<lambda>c. c = CHR '','') (join_values (map show_setting vs)) = []" using takeWhile_join [OF v] vs by simp
  moreover have "map show_setting vs @ replicate (num - length vs) (show_setting (hd vs)) = map (\<lambda>i. show_setting (setting_of i vs)) [0..<num]"
    by (rule nth_equalityI) (use assms(2) in \<open>simp_all add: nth_append setting_of_def\<close>)
  ultimately show ?thesis using p(2) assms(2) by (simp add: split_values_def Let_def all) (simp add: vs)
qed

lemma join_plain: "vs \<noteq> [] \<Longrightarrow> \<forall>v \<in> set vs. v \<noteq> [] \<and> CHR ''='' \<notin> set v \<Longrightarrow> join_values vs \<noteq> [] \<and> CHR ''='' \<notin> set (join_values vs)"
  by (induction vs) (auto simp: join_values_Cons)

lemma read_assignment_ok:
  assumes "good_assignment num a"
  shows "read_assignment (show_assignment a) = OK (fst a, join_values (map show_setting (snd a)))"
proof -
  have n: "fst a \<noteq> []" "CHR ''='' \<notin> set (fst a)" using assms value_char_plain by (auto simp: good_assignment_def list_all_iff name_char_value)
  have "join_values (map show_setting (snd a)) \<noteq> [] \<and> CHR ''='' \<notin> set (join_values (map show_setting (snd a)))"
    by (rule join_plain) (use assms show_setting_plain in \<open>auto simp: good_assignment_def list_all_iff\<close>)
  then have v: "join_values (map show_setting (snd a)) \<noteq> []" "CHR ''='' \<notin> set (join_values (map show_setting (snd a)))" by simp_all
  show ?thesis using assms strtok_step(1) [OF n] strtok_step(2) [OF v]
    by (simp add: read_assignment_def show_assignment_def good_assignment_def)
qed

lemma read_assignments_ok:
  "list_all (good_assignment num) as \<Longrightarrow> read_assignments (map show_assignment as) = OK (map (\<lambda>a. (fst a, join_values (map show_setting (snd a)))) as)"
  by (induction as) (auto simp: read_assignment_ok)

lemma split_all_ok:
  "list_all (good_assignment num) as \<Longrightarrow> split_all num (map (\<lambda>a. (fst a, join_values (map show_setting (snd a)))) as) =
    OK (map (\<lambda>a. (fst a, map (\<lambda>i. show_setting (setting_of i (snd a))) [0..<num])) as)"
  by (induction as) (simp_all add: split_values_ok good_assignment_def)

text \<open>The list of the variables before is a map.\<close>

definition looked_up :: "(string \<times> string) list \<Rightarrow> string \<Rightarrow> string" where
  "looked_up done r = foldl (\<lambda>res (n, w). if r = n then w else res) [] done"

lemma resolve_show:
  assumes "good_setting s"
  shows "resolve done (show_setting s) = (case s of Text t \<Rightarrow> t | Ref r \<Rightarrow> looked_up done r)"
proof (cases s)
  case (Text t)
  then have "CHR ''%'' \<notin> set t" using assms value_char_plain by (auto simp: good_setting_def list_all_iff)
  then have "strstr t ''%'' = None"
    by (induction t) auto
  then show ?thesis by (simp add: resolve_def show_setting_def Text)
next
  case (Ref r)
  then show ?thesis by (simp add: resolve_def show_setting_def looked_up_def)
qed

lemma set_variables_ok:
  assumes "list_all (good_assignment num) as" "i < num" "\<forall>r. looked_up done r = (case m r of None \<Rightarrow> [] | Some v \<Rightarrow> v)"
  shows "set_variables i (map (\<lambda>a. (fst a, map (\<lambda>i. show_setting (setting_of i (snd a))) [0..<num])) as) done (e ++ m) = e ++ assigned i as m"
  using assms
proof (induction as arbitrary: "done" m)
  case (Cons a as)
  obtain n vs where a: "a = (n, vs)" by (cases a)
  have g: "good_setting (setting_of i vs)"
    using Cons.prems(1) by (auto simp: a good_assignment_def setting_of_def list_all_iff)
  define v where "v = (case setting_of i vs of Text t \<Rightarrow> t | Ref r \<Rightarrow> (case m r of None \<Rightarrow> [] | Some v \<Rightarrow> v))"
  have v: "resolve done (show_setting (setting_of i vs)) = v"
    using resolve_show [OF g] Cons.prems(3) by (simp add: v_def split: setting.split)
  have "\<forall>r. looked_up (done @ [(n, v)]) r = (case (m(n \<mapsto> v)) r of None \<Rightarrow> [] | Some v \<Rightarrow> v)"
    using Cons.prems(3) by (simp add: looked_up_def)
  note IH = Cons.IH [OF _ Cons.prems(2) this]
  have "(map (\<lambda>i. show_setting (setting_of i vs)) [0..<num]) ! i = show_setting (setting_of i vs)" using Cons.prems(2) by simp
  then show ?case using IH Cons.prems(1)
    by (simp only: a list.map fst_conv snd_conv set_variables.simps assigned.simps Let_def v v_def [symmetric] map_add_upd list.pred_inject simp_thms)
qed simp

lemma run_children_ok: "run_children child command vars e is = all_runs child command (map (\<lambda>i. set_variables i vars [] e) is)"
  by (induction "is") (simp_all add: Let_def)

section \<open>Properties\<close>

text \<open>
  C30: For assignments with at most \<open>num\<close> values each, written to the command line, the command
  runs \<open>num\<close> times, up to the first run that fails, each time in the old environment with the
  variables assigned from left to right: a missing value is the first one, and a reference has
  the value that the variable with this name has got before in the same run, or is empty.
\<close>

theorem env_runs:
  assumes "list_all (good_assignment num) as" "int num \<le> INT_MAX" "command \<noteq> []" "prog \<noteq> ''--''"
  shows "env_main child (prog # ''-n'' # show_int (int num) # map show_assignment as @ ''--'' # command) e =
    OK (all_runs child command (map (\<lambda>i. e ++ assigned i as Map.empty) [0..<num]))"
proof -
  let ?args = "map show_assignment as" and ?n = "show_int (int num)"
  let ?argv = "prog # ''-n'' # ?n # ?args @ ''--'' # command"
  have "CHR ''='' \<in> set (show_assignment a)" for a by (simp add: show_assignment_def)
  then have "show_assignment a \<noteq> ''--''" for a
  proof -
    have "CHR ''='' \<notin> set ''--''" by simp
    then show ?thesis using \<open>\<And>a. CHR ''='' \<in> set (show_assignment a)\<close> by metis
  qed
  moreover have "?n \<noteq> ''--''"
  proof
    assume "?n = ''--''"
    moreover have "read_int ''--'' = 0" by (simp add: read_int_def digits_val_def is_space_def is_digit_def)
    ultimately have "num = 0" using read_int_show_int [of "int num"] by simp
    then show False using \<open>?n = ''--''\<close> show_int_chars [of "CHR ''0''" 0] by (simp add: show_int_def show_nat.simps digit_def)
  qed
  moreover from calculation(1) have T: "takeWhile (\<lambda>a. a \<noteq> ''--'') (map show_assignment as) = map show_assignment as"
    by (simp add: takeWhile_eq_all_conv)
  ultimately have split: "find_split ?argv = 3 + length as"
    using assms(4) by (simp add: find_split_def takeWhile_append2 takeWhile_tail T)
  have "set_variables i (map (\<lambda>a. (fst a, map (\<lambda>i. show_setting (setting_of i (snd a))) [0..<num])) as) [] e = e ++ assigned i as Map.empty"
    if "i < num" for i
    using set_variables_ok [OF assms(1) that, of "[]" Map.empty e] by (simp add: looked_up_def)
  then have M: "map (\<lambda>i. set_variables i (map (\<lambda>a. (fst a, map (\<lambda>i. show_setting (setting_of i (snd a))) [0..<num])) as) [] e) [0..<num] =
      map (\<lambda>i. e ++ assigned i as Map.empty) [0..<num]" by simp
  moreover have "atoi ?n = OK (int num)" using assms(2) by (intro atoi_show_int) (simp_all add: INT_MIN_def)
  moreover have "4 + length as = Suc (Suc (Suc (Suc (length as))))" by simp
  then have "drop (4 + length as) ?argv = command" by (simp only: drop_Suc_Cons) simp
  ultimately show ?thesis using assms(3)
    by (simp add: M env_main_def split Let_def read_assignments_ok [OF assms(1)] split_all_ok [OF assms(1)] run_children_ok)
qed

lemma env_runs_witness:
  "env_main (\<lambda>e c. 0) [''p'', ''-n'', ''2'', ''A=x,y'', ''B=%A'', ''--'', ''c''] Map.empty =
    OK ([[''A'' \<mapsto> ''x'', ''B'' \<mapsto> ''x''], [''A'' \<mapsto> ''y'', ''B'' \<mapsto> ''y'']], 0)"
proof -
  let ?as = "[(''A'', [Text ''x'', Text ''y'']), (''B'', [Ref ''A''])]"
  have g: "list_all (good_assignment 2) ?as"
    by (simp add: good_assignment_def good_setting_def name_char_def value_char_def isalnum_def isalpha_def)
  have s: "show_int (int 2) = ''2''" by (simp add: show_int_def show_nat.simps digit_def char_of_eq_iff)
  have u: "[0..<2] = [0, 1 :: nat]" by (simp add: numeral_2_eq_2)
  have m: "show_assignment (''A'', [Text ''x'', Text ''y'']) = ''A=x,y''" "show_assignment (''B'', [Ref ''A'']) = ''B=%A''"
    by (simp_all add: show_assignment_def join_values_def show_setting_def)
  from env_runs [OF g _ _ _, of "[''c'']" "''p''" "\<lambda>e c. 0" Map.empty]
  show ?thesis using s by (simp add: u m setting_of_def INT_MAX_def)
qed

end
