(* ===== verification/Chat_Client.thy ===== *)
theory Chat_Client
  imports Chat_Utils
begin

text \<open>
  The two threads of the chat client, \<open>charming_chatroom/client.c\<close>: one sends what the user types,
  the other prints what comes from the server. The first one leaves the frames of the messages on
  its connection, the second prints the texts of the frames that come.
\<close>

section \<open>The model\<close>

text \<open>
  \<open>write_to_server\<close>: \<open>lines\<close> are the texts that \<open>read_message_from_screen\<close> gives before it gives
  the null pointer. \<open>None\<close>: a call has not returned.
\<close>

fun write_to_server :: "string \<Rightarrow> string list \<Rightarrow> socket \<Rightarrow> socket res option" where
  "write_to_server name [] s = Some (OK s)"
| "write_to_server name (buffer # lines) s = (case create_message name buffer of
     Inl e \<Rightarrow> Some (Fault e)
   | Inr msg \<Rightarrow> let len = of_nat (length msg + 1) in
     case write_message_size len s of
       None \<Rightarrow> None
     | Some (retval, s) \<Rightarrow> if retval \<le> 0 then Some (OK s)
         else (case write_all_to_socket (msg @ [NUL]) s of
             None \<Rightarrow> None
           | Some (retval, s) \<Rightarrow> if retval \<le> 0 then Some (OK s) else write_to_server name lines s))"

text \<open>How the other thread ends: it still waits, the transfers ended, or it printed an array without a NUL.\<close>

datatype reader_end = Waiting | Finished | Unterminated

lemma read_from_events: "read_from cnt b s = Some (r, d, s') \<Longrightarrow> length (events s') \<le> length (events s)"
proof (induction cnt b s rule: read_from.induct)
  case (1 cnt b s)
  show ?case
  proof (cases "length b < cnt")
    case False
    then show ?thesis using "1.prems" by (simp add: read_from.simps [of cnt b s])
  next
    case True
    obtain q where q: "sys_read (cnt - length b) s = Some q"
      using "1.prems" True by (cases "sys_read (cnt - length b) s") (simp_all add: read_from.simps [of cnt b s])
    obtain p s1 where p: "q = (p, s1)" by (cases q)
    have le: "length (events s1) \<le> length (events s)" using sys_events_le(1) q p by simp
    show ?thesis
    proof (cases p)
      case (Inl e)
      then have "events s \<noteq> []" "read_from cnt b s1 = Some (r, d, s')"
        using "1.prems" True q p by (auto simp: read_from.simps [of cnt b s] split: if_splits)
      then show ?thesis using "1.IH"(1) [OF True q p [symmetric] Inl] le by simp
    next
      case (Inr dd)
      then show ?thesis using "1.prems" "1.IH"(2) [OF True q p [symmetric] Inr] True q p le
        by (cases "dd = []") (auto simp: read_from.simps [of cnt b s])
    qed
  qed
qed

lemma get_message_size_events:
  "get_message_size s = Some (n, s') \<Longrightarrow> 0 < n \<Longrightarrow> length (events s') < length (events s)"
proof -
  assume a: "get_message_size s = Some (n, s')" "0 < n"
  obtain r b where r: "read_from 4 [] s = Some (r, b, s')" "r \<noteq> 0"
    using a by (auto simp: get_message_size_def read_all_from_socket_def split: option.splits if_splits)
  show ?thesis
  proof (cases "events s")
    case Nil
    then show ?thesis using r by (auto simp: read_from.simps [of 4 "[]" s] sys_read_def split: if_splits)
  next
    case (Cons e es)
    show ?thesis
    proof (cases e)
      case (Err err)
      then have "read_from 4 [] (s\<lparr>events := es\<rparr>) = Some (r, b, s')"
        using r(1) Cons by (simp add: read_from.simps [of 4 "[]" s] sys_read_def)
      from read_from_events [OF this] show ?thesis using Cons by simp
    next
      case (Xfer k)
      let ?s = "s\<lparr>events := es, incoming := drop (min k 4) (incoming s)\<rparr>"
      have "read_from 4 (take (min k 4) (incoming s)) ?s = Some (r, b, s')"
        using r Cons Xfer by (auto simp: read_from.simps [of 4 "[]" s] sys_read_def split: if_splits)
      from read_from_events [OF this] show ?thesis using Cons by simp
    qed
  qed
qed

function read_from_server :: "socket \<Rightarrow> string list \<times> reader_end" where
  "read_from_server s = (case get_message_size s of
     None \<Rightarrow> ([], Waiting)
   | Some (retval, s1) \<Rightarrow> if retval \<le> 0 then ([], Finished)
       else (case read_all_from_socket (nat retval) s1 of
           None \<Rightarrow> ([], Waiting)
         | Some (retval, buffer, s2) \<Rightarrow> if retval \<le> 0 then ([], Finished)
             else if NUL \<notin> set buffer then ([], Unterminated)
             else (let (screen, e) = read_from_server s2 in (cstr buffer # screen, e))))"
  by pat_completeness auto
termination
proof (relation "measure (\<lambda>s. length (events s))")
  fix s x2 retval s1 x2a retval' y buffer s2
  assume a: "get_message_size s = Some x2" "(retval, s1) = x2" "\<not> retval \<le> 0"
    "read_all_from_socket (nat retval) s1 = Some x2a" "(retval', y) = x2a" "(buffer, s2) = y"
  then have "length (events s1) < length (events s)" by (auto intro: get_message_size_events)
  moreover have "length (events s2) \<le> length (events s1)"
    using a by (auto simp: read_all_from_socket_def intro: read_from_events)
  ultimately show "(s2, s) \<in> measure (\<lambda>s. length (events s))" by simp
qed simp

declare read_from_server.simps [simp del]

section \<open>Specification\<close>

text \<open>The text of a message, which the client can make up if its length is small enough for an \<open>int\<close>.\<close>

definition message_text :: "string \<Rightarrow> string \<Rightarrow> string" where
  "message_text name t = name @ '': '' @ t"

definition sendable :: "string \<Rightarrow> string \<Rightarrow> bool" where
  "sendable name t \<longleftrightarrow> NUL \<notin> set name \<and> NUL \<notin> set t \<and> length name + length t + 4 < 2 ^ 31"

text \<open>A message on its way: its size with the NUL, then its bytes.\<close>

definition frame :: "string \<Rightarrow> string" where
  "frame m = htonl_bytes (of_nat (length m + 1)) @ m @ [NUL]"

section \<open>Lemmas\<close>

lemma length_frame: "length (frame m) = length m + 5"
  by (simp add: frame_def)

lemma write_all_moving:
  assumes "moving (events s)" "length b \<le> transfers (events s)"
  shows "\<exists>s'. write_all_to_socket b s = Some (int (length b), s') \<and> sent s' = sent s @ b \<and> moving (events s') \<and>
    transfers (events s) \<le> transfers (events s') + length b"
  using write_to_moving [OF assms, of "[]"] by (auto simp: write_all_to_socket_def)

lemma write_frame:
  assumes "moving (events s)" "length m + 5 \<le> transfers (events s)"
  shows "\<exists>s1 s2. write_message_size (of_nat (length m + 1)) s = Some (4, s1) \<and>
    write_all_to_socket (m @ [NUL]) s1 = Some (int (length m + 1), s2) \<and> sent s2 = sent s @ frame m \<and> moving (events s2) \<and>
    transfers (events s) \<le> transfers (events s2) + (length m + 5)"
proof -
  obtain s1 where s1: "write_message_size (of_nat (length m + 1)) s = Some (4, s1)" "sent s1 = sent s @ htonl_bytes (of_nat (length m + 1))"
    "moving (events s1)" "transfers (events s) \<le> transfers (events s1) + 4"
    using write_all_moving [OF assms(1), of "htonl_bytes (of_nat (length m + 1))"] assms(2) by (auto simp: write_message_size_def)
  have "length (m @ [NUL]) \<le> transfers (events s1)" using s1(4) assms(2) by simp
  from write_all_moving [OF s1(3) this] s1 show ?thesis by (auto simp: frame_def)
qed

lemma sendable_message:
  assumes "sendable name t"
  shows "create_message name t = OK (message_text name t)" "NUL \<notin> set (message_text name t)" "length (message_text name t) + 1 < 2 ^ 31"
  using assms create_message_OK [of name t] by (simp_all add: sendable_def message_text_def NUL_def)

lemma write_to_server_sends:
  "moving (events s) \<Longrightarrow> length (concat (map (\<lambda>t. frame (message_text name t)) lines)) \<le> transfers (events s) \<Longrightarrow>
   \<forall>t \<in> set lines. sendable name t \<Longrightarrow>
   \<exists>s'. write_to_server name lines s = Some (OK s') \<and> sent s' = sent s @ concat (map (\<lambda>t. frame (message_text name t)) lines)"
proof (induction lines arbitrary: s)
  case (Cons t lines)
  let ?m = "message_text name t"
  have m: "create_message name t = OK ?m" using Cons.prems(3) by (intro sendable_message) simp
  have "length ?m + 5 \<le> transfers (events s)" using Cons.prems(2) by (simp add: length_frame)
  from write_frame [OF Cons.prems(1) this] obtain s1 s2 where s: "write_message_size (of_nat (length ?m + 1)) s = Some (4, s1)"
    "write_all_to_socket (?m @ [NUL]) s1 = Some (int (length ?m + 1), s2)" "sent s2 = sent s @ frame ?m" "moving (events s2)"
    "transfers (events s) \<le> transfers (events s2) + (length ?m + 5)" by blast
  have "length (concat (map (\<lambda>t. frame (message_text name t)) lines)) \<le> transfers (events s2)"
    using Cons.prems(2) s(5) by (simp add: length_frame)
  from Cons.IH [OF s(4) this] Cons.prems(3) s(3) show ?case using s(1,2) m by (auto simp: Let_def)
qed simp

lemma read_frame:
  assumes "moving (events s)" "length m + 5 \<le> transfers (events s)" "incoming s = frame m @ rest" "length m + 1 < 2 ^ 32"
  shows "\<exists>s1 s2. get_message_size s = Some (int (length m + 1), s1) \<and>
    read_all_from_socket (length m + 1) s1 = Some (int (length m + 1), m @ [NUL], s2) \<and> incoming s2 = rest \<and> sent s2 = sent s \<and> moving (events s2) \<and>
    transfers (events s) \<le> transfers (events s2) + (length m + 5)"
proof -
  let ?h = "htonl_bytes (of_nat (length m + 1))"
  have u: "unat (of_nat (length m + 1) :: size_t) = length m + 1" using assms(4) by (intro unat_of_nat_size_t) simp
  obtain s1 where s1: "read_from 4 [] s = Some (4, ?h, s1)" "incoming s1 = (m @ [NUL]) @ rest" "moving (events s1)" "sent s1 = sent s"
    "transfers (events s) \<le> transfers (events s1) + 4"
    using read_from_moving [OF assms(1), of 4 "[]"] assms(2,3) by (auto simp: frame_def)
  obtain s2 where s2: "read_from (length m + 1) [] s1 = Some (int (length m + 1), m @ [NUL], s2)" "incoming s2 = rest" "moving (events s2)" "sent s2 = sent s1"
    "transfers (events s1) \<le> transfers (events s2) + (length m + 1)"
    using read_from_moving [OF s1(3), of "length m + 1" "[]"] s1(2,4,5) assms(2) by auto
  have "get_message_size s = Some (int (length m + 1), s1)"
    using s1(1) ntohl_htonl [of "of_nat (length m + 1)"] u assms(4)
    by (simp add: get_message_size_def read_all_from_socket_def del: of_nat_unat of_nat_add of_nat_Suc)
  then show ?thesis using s2 s1(4,5) by (auto simp: read_all_from_socket_def)
qed

text \<open>When nothing is left the reader waits or sees the end.\<close>

lemma read_from_nothing: "incoming s = [] \<Longrightarrow> length b < cnt \<Longrightarrow> read_from cnt b s = None \<or> (\<exists>d s'. read_from cnt b s = Some (0, d, s'))"
proof (induction "length (events s)" arbitrary: s rule: less_induct)
  case less
  show ?case
  proof (cases "events s")
    case Nil
    then show ?thesis using less.prems by (simp add: read_from.simps [of cnt b s] sys_read_def)
  next
    case (Cons e es)
    then show ?thesis using less.prems less.hyps [of "s\<lparr>events := es\<rparr>"]
      by (cases e) (simp_all add: read_from.simps [of cnt b s] sys_read_def)
  qed
qed

lemma read_from_server_nothing: "incoming s = [] \<Longrightarrow> fst (read_from_server s) = []"
  using read_from_nothing [of s "[]" 4]
  by (auto simp: read_from_server.simps [of s] get_message_size_def read_all_from_socket_def)

lemma read_from_server_prints:
  "moving (events s) \<Longrightarrow> incoming s = concat (map frame ms) \<Longrightarrow> length (incoming s) \<le> transfers (events s) \<Longrightarrow>
   \<forall>m \<in> set ms. NUL \<notin> set m \<and> length m + 1 < 2 ^ 32 \<Longrightarrow> fst (read_from_server s) = ms"
proof (induction ms arbitrary: s)
  case Nil
  then show ?case by (simp add: read_from_server_nothing)
next
  case (Cons m ms)
  have "length m + 5 \<le> transfers (events s)" using Cons.prems(2,3) by (simp add: length_frame)
  moreover have "incoming s = frame m @ concat (map frame ms)" using Cons.prems(2) by simp
  moreover have "length m + 1 < 2 ^ 32" using Cons.prems(4) by simp
  ultimately obtain s1 s2 where s: "get_message_size s = Some (int (length m + 1), s1)"
    "read_all_from_socket (length m + 1) s1 = Some (int (length m + 1), m @ [NUL], s2)" "incoming s2 = concat (map frame ms)"
    "moving (events s2)" "transfers (events s) \<le> transfers (events s2) + (length m + 5)"
    using read_frame [OF Cons.prems(1)] by blast
  have "length (incoming s2) \<le> transfers (events s2)" using Cons.prems(2,3) s(3,5) by (simp add: length_frame)
  from Cons.IH [OF s(4,3) this] have "fst (read_from_server s2) = ms" using Cons.prems(4) by simp
  moreover have "nat (int (length m + 1)) = length m + 1" by simp
  moreover have "cstr (m @ [NUL]) = m" using Cons.prems(4) by (simp add: cstr_def takeWhile_append2)
  ultimately show ?case using s(1,2) by (subst read_from_server.simps) (simp add: case_prod_beta Let_def)
qed

end
