(* ===== verification/Chat_Relay.thy ===== *)
theory Chat_Relay
  imports Chat_Client
begin

text \<open>
  The way of a message through the server of the chat room, byte by byte: \<open>process_client\<close> and
  \<open>write_to_clients\<close> of \<open>charming_chatroom/server.c\<close> on the connections of the eight slots. The
  threads of the server as they interleave, and how slots are taken and given up, are in the
  theory of the server; here one user writes to all who are connected.
\<close>

section \<open>The model\<close>

text \<open>The connections of the slots; a slot with \<open>-1\<close> has none.\<close>

type_synonym slots = "socket option list"

text \<open>The loop over the slots. The results of the writes are only printed. \<open>None\<close>: a call has not returned.\<close>

definition write_to_slot :: "string \<Rightarrow> socket \<Rightarrow> socket option" where
  "write_to_slot message s = (case write_message_size (of_nat (length message)) s of
     None \<Rightarrow> None
   | Some (retval, s) \<Rightarrow> if retval > 0 then map_option snd (write_all_to_socket message s) else Some s)"

primrec write_to_clients :: "string \<Rightarrow> slots \<Rightarrow> slots option" where
  "write_to_clients message [] = Some []"
| "write_to_clients message (c # cs) = (case c of
     None \<Rightarrow> map_option (Cons None) (write_to_clients message cs)
   | Some s \<Rightarrow> (case write_to_slot message s of
       None \<Rightarrow> None
     | Some s \<Rightarrow> map_option (Cons (Some s)) (write_to_clients message cs)))"

text \<open>
  The loop of \<open>process_client\<close>, of the client in slot \<open>i\<close>; \<open>n\<close> is how many times \<open>endSession\<close> is
  found to be zero. The connections at its end, or where it waits for the client; \<open>None\<close> when a
  write has not returned, or when the slot has no connection: a read from the descriptor \<open>-1\<close>
  fails, and is repeated, for ever.
\<close>

datatype relay_end = Left | Reading

primrec process_client :: "nat \<Rightarrow> nat \<Rightarrow> slots \<Rightarrow> (slots \<times> relay_end) option" where
  "process_client 0 i cs = Some (cs, Left)"
| "process_client (Suc n) i cs = (case cs ! i of
     None \<Rightarrow> None
   | Some s \<Rightarrow> (case get_message_size s of
       None \<Rightarrow> Some (cs, Reading)
     | Some (retval, s) \<Rightarrow> if retval \<le> 0 then Some (cs[i := Some s], Left)
         else (case read_all_from_socket (nat retval) s of
             None \<Rightarrow> Some (cs, Reading)
           | Some (retval, buffer, s) \<Rightarrow> if retval \<le> 0 then Some (cs[i := Some s], Left)
               else (case write_to_clients buffer (cs[i := Some s]) of
                   None \<Rightarrow> None
                 | Some cs \<Rightarrow> process_client n i cs))))"

section \<open>Lemmas\<close>

lemma write_to_incoming: "write_to b k s = Some (r, s') \<Longrightarrow> incoming s' = incoming s"
proof (induction b k s rule: write_to.induct)
  case (1 b k s)
  show ?case
  proof (cases "k < length b")
    case True
    then obtain p s1 where p: "sys_write (drop k b) s = Some (p, s1)"
      using "1.prems" by (cases "sys_write (drop k b) s") (auto simp: write_to.simps [of b k s])
    then have inc: "incoming s1 = incoming s" using sys_write_data sys_write_err by (cases p) auto
    show ?thesis
    proof (cases p)
      case (Inl e)
      then have "events s \<noteq> []" "write_to b k s1 = Some (r, s')"
        using "1.prems" True p by (auto simp: write_to.simps [of b k s] split: if_splits)
      then show ?thesis using "1.IH"(1) [OF True p refl Inl] inc by simp
    next
      case (Inr n)
      then show ?thesis using "1.prems" "1.IH"(2) [OF True p refl Inr] True p inc
        by (cases "n = 0") (auto simp: write_to.simps [of b k s])
    qed
  qed (use "1.prems" in \<open>simp add: write_to.simps [of b k s]\<close>)
qed

lemma write_to_slot_frame:
  assumes "moving (events s)" "length m + 5 \<le> transfers (events s)"
  shows "\<exists>s'. write_to_slot (m @ [NUL]) s = Some s' \<and> sent s' = sent s @ frame m \<and> incoming s' = incoming s \<and>
    moving (events s') \<and> transfers (events s) \<le> transfers (events s') + (length m + 5)"
proof -
  obtain s1 s2 where s: "write_message_size (of_nat (length m + 1)) s = Some (4, s1)"
    "write_all_to_socket (m @ [NUL]) s1 = Some (int (length m + 1), s2)" "sent s2 = sent s @ frame m" "moving (events s2)"
    "transfers (events s) \<le> transfers (events s2) + (length m + 5)" using write_frame [OF assms] by blast
  then have "incoming s2 = incoming s"
    using write_to_incoming by (metis write_all_to_socket_def write_message_size_def)
  moreover have "write_to_slot (m @ [NUL]) s = Some s2"
    using s(1,2) by (simp add: write_to_slot_def)
  ultimately show ?thesis using s(3-5) by blast
qed

text \<open>A slot before and after the frames \<open>f\<close> were written to it.\<close>

definition ready :: "nat \<Rightarrow> socket option \<Rightarrow> bool" where
  "ready k c \<longleftrightarrow> (\<forall>s. c = Some s \<longrightarrow> moving (events s) \<and> k \<le> transfers (events s))"

definition got :: "string \<Rightarrow> nat \<Rightarrow> socket option \<Rightarrow> socket option \<Rightarrow> bool" where
  "got f k c c' \<longleftrightarrow> (case c of None \<Rightarrow> c' = None
     | Some s \<Rightarrow> \<exists>s'. c' = Some s' \<and> sent s' = sent s @ f \<and> incoming s' = incoming s \<and> moving (events s') \<and>
         transfers (events s) \<le> transfers (events s') + k)"

lemma got_simps [simp]:
  "got f k None c' \<longleftrightarrow> c' = None"
  "got f k (Some s) c' \<longleftrightarrow> (\<exists>s'. c' = Some s' \<and> sent s' = sent s @ f \<and> incoming s' = incoming s \<and> moving (events s') \<and>
     transfers (events s) \<le> transfers (events s') + k)"
  by (simp_all add: got_def)

lemma write_to_clients_frame:
  "\<forall>c \<in> set cs. ready (length m + 5) c \<Longrightarrow>
   \<exists>cs'. write_to_clients (m @ [NUL]) cs = Some cs' \<and> list_all2 (got (frame m) (length m + 5)) cs cs'"
proof (induction cs)
  case (Cons c cs)
  then obtain cs' where IH: "write_to_clients (m @ [NUL]) cs = Some cs'" "list_all2 (got (frame m) (length m + 5)) cs cs'"
    by auto
  show ?case
  proof (cases c)
    case (Some s)
    then have "moving (events s)" "length m + 5 \<le> transfers (events s)" using Cons.prems by (simp_all add: ready_def)
    from write_to_slot_frame [OF this] IH Some show ?thesis by auto
  qed (use IH in simp)
qed simp

text \<open>One message of the client in slot \<open>i\<close>; the others may have more left to move than it needs.\<close>

lemma relay_one:
  assumes "i < length cs" "cs ! i = Some s" "moving (events s)" "length m + 5 + (length m + 5) \<le> transfers (events s)"
    and "incoming s = frame m @ rest" "length m + 1 < 2 ^ 32" "\<forall>c \<in> set cs. ready (length m + 5) c"
  shows "\<exists>cs'. process_client (Suc n) i cs = process_client n i cs' \<and> length cs' = length cs \<and>
    (\<forall>j < length cs. j \<noteq> i \<longrightarrow> got (frame m) (length m + 5) (cs ! j) (cs' ! j)) \<and>
    got (frame m) (length m + 5 + (length m + 5)) (Some (s\<lparr>incoming := rest\<rparr>)) (cs' ! i)"
proof -
  obtain s1 s2 where s: "get_message_size s = Some (int (length m + 1), s1)"
    "read_all_from_socket (length m + 1) s1 = Some (int (length m + 1), m @ [NUL], s2)" "incoming s2 = rest" "sent s2 = sent s"
    "moving (events s2)" "transfers (events s) \<le> transfers (events s2) + (length m + 5)"
    using read_frame [OF assms(3) _ assms(5,6)] assms(4) by auto
  have "ready (length m + 5) c" if "c \<in> set (cs[i := Some s2])" for c
    using set_update_subset_insert [of cs i "Some s2"] that assms(4,7) s(5,6) by (auto simp: ready_def)
  then obtain cs' where cs': "write_to_clients (m @ [NUL]) (cs[i := Some s2]) = Some cs'"
    "list_all2 (got (frame m) (length m + 5)) (cs[i := Some s2]) cs'"
    using write_to_clients_frame [of "cs[i := Some s2]" m] by blast
  have nth: "got (frame m) (length m + 5) (cs[i := Some s2] ! j) (cs' ! j)" if "j < length cs" for j
    using list_all2_nthD [OF cs'(2), of j] that by simp
  have step: "process_client (Suc n) i cs = process_client n i cs'"
    using assms(1,2) s(1,2) cs'(1) by (simp add: nat_add_distrib)
  have "got (frame m) (length m + 5) (Some s2) (cs' ! i)" using nth [of i] assms(1) by simp
  then have own: "got (frame m) (length m + 5 + (length m + 5)) (Some (s\<lparr>incoming := rest\<rparr>)) (cs' ! i)"
    using s(3,4,6) by auto
  have others: "\<forall>j < length cs. j \<noteq> i \<longrightarrow> got (frame m) (length m + 5) (cs ! j) (cs' ! j)"
    using nth by (metis nth_list_update_neq)
  show ?thesis using step own others list_all2_lengthD [OF cs'(2)] by (intro exI [of _ cs']) simp
qed

text \<open>When nothing more comes from the client, its thread waits or ends, and no slot gets anything.\<close>

lemma read_from_sent: "read_from cnt b s = Some (r, d, s') \<Longrightarrow> sent s' = sent s"
proof (induction cnt b s rule: read_from.induct)
  case (1 cnt b s)
  show ?case
  proof (cases "length b < cnt")
    case True
    then obtain p s1 where p: "sys_read (cnt - length b) s = Some (p, s1)"
      using "1.prems" by (cases "sys_read (cnt - length b) s") (auto simp: read_from.simps [of cnt b s])
    then have same: "sent s1 = sent s" using sys_read_data sys_read_err by (cases p) auto
    show ?thesis
    proof (cases p)
      case (Inl e)
      then have "events s \<noteq> []" "read_from cnt b s1 = Some (r, d, s')"
        using "1.prems" True p by (auto simp: read_from.simps [of cnt b s] split: if_splits)
      then show ?thesis using "1.IH"(1) [OF True p refl Inl] same by simp
    next
      case (Inr dd)
      then show ?thesis using "1.prems" "1.IH"(2) [OF True p refl Inr] True p same
        by (cases "dd = []") (auto simp: read_from.simps [of cnt b s])
    qed
  qed (use "1.prems" in \<open>simp add: read_from.simps [of cnt b s]\<close>)
qed

lemma relay_nothing:
  assumes "i < length cs" "cs ! i = Some s" "incoming s = []"
  shows "\<exists>cs' e. process_client n i cs = Some (cs', e) \<and> length cs' = length cs \<and>
    (\<forall>j < length cs. map_option sent (cs' ! j) = map_option sent (cs ! j))"
proof (cases n)
  case (Suc k)
  consider "get_message_size s = None" | s' where "get_message_size s = Some (0, s')" "sent s' = sent s"
    using read_from_nothing [OF assms(3), of "[]" 4] read_from_sent
    by (fastforce simp: get_message_size_def read_all_from_socket_def)
  then show ?thesis
  proof cases
    case 2
    then have "process_client n i cs = Some (cs[i := Some s'], Left)" using Suc assms(2) by simp
    moreover have "map_option sent (cs[i := Some s'] ! j) = map_option sent (cs ! j)" if "j < length cs" for j
      using that assms(2) 2(2) by (cases "j = i") simp_all
    ultimately show ?thesis by simp
  qed (use Suc assms(2) in simp)
qed simp

definition frames :: "string list \<Rightarrow> string" where
  "frames ms = concat (map frame ms)"

lemma frames_simps [simp]: "frames [] = []" "frames (m # ms) = frame m @ frames ms"
  by (simp_all add: frames_def)

lemma ready_got: "got f k c c' \<Longrightarrow> ready (k + n) c \<Longrightarrow> ready n c'"
  by (auto simp: got_def ready_def split: option.splits)

lemma relay_all:
  "i < length cs \<Longrightarrow> cs ! i = Some s \<Longrightarrow> moving (events s) \<Longrightarrow> 2 * length (frames ms) \<le> transfers (events s) \<Longrightarrow>
   incoming s = frames ms \<Longrightarrow> \<forall>m \<in> set ms. length m + 1 < 2 ^ 32 \<Longrightarrow>
   \<forall>j < length cs. j \<noteq> i \<longrightarrow> ready (length (frames ms)) (cs ! j) \<Longrightarrow> length ms \<le> n \<Longrightarrow>
   \<exists>cs' e. process_client n i cs = Some (cs', e) \<and> length cs' = length cs \<and>
     (\<forall>j < length cs. map_option sent (cs' ! j) = map_option (\<lambda>c. sent c @ frames ms) (cs ! j))"
proof (induction ms arbitrary: n cs s)
  case Nil
  then show ?case using relay_nothing [of i cs s n] by simp
next
  case (Cons m ms)
  obtain k where k: "n = Suc k" "length ms \<le> k" using Cons.prems(8) by (cases n) simp_all
  have len: "length (frames (m # ms)) = length m + 5 + length (frames ms)" by (simp add: length_frame)
  have tr: "length m + 5 + (length m + 5) \<le> transfers (events s)" using Cons.prems(4) len by simp
  have "ready (length m + 5) c" if "c \<in> set cs" for c
  proof -
    from that obtain j where j: "j < length cs" "c = cs ! j" by (auto simp: in_set_conv_nth)
    show ?thesis using j Cons.prems(2,3,7) tr len by (cases "j = i") (auto simp: ready_def)
  qed
  then obtain cs' where cs': "process_client (Suc k) i cs = process_client k i cs'" "length cs' = length cs"
    "\<forall>j < length cs. j \<noteq> i \<longrightarrow> got (frame m) (length m + 5) (cs ! j) (cs' ! j)"
    "got (frame m) (length m + 5 + (length m + 5)) (Some (s\<lparr>incoming := frames ms\<rparr>)) (cs' ! i)"
    using relay_one [OF Cons.prems(1-3) tr, of "frames ms" k] Cons.prems(5,6) by auto
  obtain s' where s': "cs' ! i = Some s'" "sent s' = sent s @ frame m" "incoming s' = frames ms" "moving (events s')"
    "transfers (events s) \<le> transfers (events s') + (length m + 5 + (length m + 5))"
    using cs'(4) by auto
  have "2 * length (frames ms) \<le> transfers (events s')" using Cons.prems(4) s'(5) len by simp
  moreover have "\<forall>j < length cs'. j \<noteq> i \<longrightarrow> ready (length (frames ms)) (cs' ! j)"
    using cs'(2,3) Cons.prems(7) len ready_got by metis
  ultimately obtain ds e where ds: "process_client k i cs' = Some (ds, e)" "length ds = length cs'"
    "\<forall>j < length cs'. map_option sent (ds ! j) = map_option (\<lambda>c. sent c @ frames ms) (cs' ! j)"
    using Cons.IH [of cs' s' k] Cons.prems(1,6) cs'(2) s'(1,3,4) k(2) by auto
  have "map_option (\<lambda>c. sent c @ frames ms) (cs' ! j) = map_option (\<lambda>c. sent c @ frames (m # ms)) (cs ! j)"
    if "j < length cs" for j
  proof (cases "j = i")
    case True
    then show ?thesis using s'(1,2) Cons.prems(2) by simp
  next
    case False
    then have "got (frame m) (length m + 5) (cs ! j) (cs' ! j)" using cs'(3) that by simp
    then show ?thesis by (cases "cs ! j") auto
  qed
  then show ?case using ds cs'(1,2) k(1) by auto
qed

section \<open>Properties\<close>

text \<open>
  C32: What one user types is what all connected users see, name and all, message for message, in
  order and once each: what the client of the user sends is read by its thread of the server
  and written to all slots, and the client of every slot prints it. This holds with any number of
  failed calls on the way and whatever the pieces of the transfers, for texts without a NUL
  that with the name are shorter than $2^{31} - 4$, while nobody else writes, joins or leaves, each
  slot has a connection of its own and the session goes on.
\<close>

theorem chat_conversation:
  assumes "\<forall>t \<in> set lines. sendable name t" "F = frames (map (message_text name) lines)"
    and "moving (events s)" "sent s = []" "length F \<le> transfers (events s)"
    and "i < length cs" "cs ! i = Some c" "moving (events c)" "2 * length F \<le> transfers (events c)"
    and "\<forall>j < length cs. j \<noteq> i \<longrightarrow> ready (length F) (cs ! j)" "\<forall>d. Some d \<in> set cs \<longrightarrow> sent d = []"
    and "length lines \<le> n"
  shows "\<exists>s' cs' e. write_to_server name lines s = Some (OK s') \<and>
    process_client n i (cs[i := Some (c\<lparr>incoming := sent s'\<rparr>)]) = Some (cs', e) \<and>
    (\<forall>j < length cs. \<forall>r d. cs' ! j = Some d \<and> moving (events r) \<and> length F \<le> transfers (events r) \<longrightarrow>
      fst (read_from_server (r\<lparr>incoming := sent d\<rparr>)) = map (\<lambda>t. name @ '': '' @ t) lines) \<and>
    (\<forall>j < length cs. cs' ! j = None \<longleftrightarrow> cs ! j = None)"
proof -
  let ?ms = "map (message_text name) lines"
  obtain s' where s': "write_to_server name lines s = Some (OK s')" "sent s' = F"
    using write_to_server_sends [OF assms(3), of name lines] assms(1,2,4,5) by (auto simp: frames_def comp_def)
  have len: "\<forall>m \<in> set ?ms. NUL \<notin> set m \<and> length m + 1 < 2 ^ 32"
    using assms(1) sendable_message(2,3) by fastforce
  let ?c = "c\<lparr>incoming := sent s'\<rparr>" and ?cs = "cs[i := Some (c\<lparr>incoming := sent s'\<rparr>)]"
  obtain cs' e where cs': "process_client n i ?cs = Some (cs', e)" "length cs' = length cs"
    "\<forall>j < length cs. map_option sent (cs' ! j) = map_option (\<lambda>c. sent c @ F) (?cs ! j)"
    using relay_all [of i ?cs ?c ?ms n] assms(2,6,8-10,12) s'(2) len by auto
  have same: "map_option sent (?cs ! j) = map_option sent (cs ! j)" if "j < length cs" for j
    using that assms(7) by (cases "j = i") simp_all
  have none: "cs' ! j = None \<longleftrightarrow> cs ! j = None" if "j < length cs" for j
    using cs'(3) same [OF that] that by (cases "cs' ! j"; cases "cs ! j"; cases "?cs ! j") auto
  have "sent d = F" if j: "j < length cs" and d: "cs' ! j = Some d" for j d
  proof -
    obtain b where b: "cs ! j = Some b" using none [OF j] d by (cases "cs ! j") simp_all
    then have "sent b = []" using assms(11) j by (metis nth_mem)
    then show ?thesis using cs'(3) same [OF j] j d b by (cases "?cs ! j") auto
  qed
  moreover have "fst (read_from_server (r\<lparr>incoming := F\<rparr>)) = ?ms" if "moving (events r)" "length F \<le> transfers (events r)" for r
    using read_from_server_prints [of "r\<lparr>incoming := F\<rparr>" ?ms] that len assms(2) by (simp add: frames_def)
  moreover have "?ms = map (\<lambda>t. name @ '': '' @ t) lines" by (simp add: message_text_def)
  ultimately show ?thesis using s'(1) cs'(1) none by metis
qed

lemma chat_conversation_witness:
  "\<exists>s' cs' e d. write_to_server ''Al'' [''hi'', ''bye''] \<lparr>blocking = True, events = Err EINTR # replicate 30 (Xfer 3), incoming = [], sent = []\<rparr> = Some (OK s') \<and>
    process_client 5 0 [Some \<lparr>blocking = True, events = Err EPIPE # replicate 60 (Xfer 2), incoming = sent s', sent = []\<rparr>, None,
      Some \<lparr>blocking = True, events = replicate 60 (Xfer 2), incoming = [], sent = []\<rparr>] = Some (cs', e) \<and> cs' ! 2 = Some d \<and>
    fst (read_from_server \<lparr>blocking = True, events = Err EOTHER # replicate 30 (Xfer 2), incoming = sent d, sent = []\<rparr>) =
      [''Al: hi'', ''Al: bye'']"
proof -
  let ?s = "\<lparr>blocking = True, events = Err EINTR # replicate 30 (Xfer 3), incoming = [], sent = []\<rparr>"
  let ?r = "\<lparr>blocking = True, events = Err EOTHER # replicate 30 (Xfer 2), incoming = [], sent = []\<rparr>"
  let ?c = "\<lparr>blocking = True, events = Err EPIPE # replicate 60 (Xfer 2), incoming = [], sent = []\<rparr>"
  let ?d = "\<lparr>blocking = True, events = replicate 60 (Xfer 2), incoming = [], sent = []\<rparr>"
  let ?cs = "[Some ?c, None, Some ?d]" and ?F = "frames (map (message_text ''Al'') [''hi'', ''bye''])"
  have F: "length ?F = 23" by (simp add: length_frame message_text_def)
  have tr: "transfers (replicate n (Xfer k)) = n" for n k by (induction n) simp_all
  have m: "moving (events ?s)" "moving (events ?c)" "moving (events ?d)" "moving (events ?r)" by (simp_all add: moving_def)
  have t: "length ?F \<le> transfers (events ?s)" "2 * length ?F \<le> transfers (events ?c)" "length ?F \<le> transfers (events ?d)"
    "length ?F \<le> transfers (events ?r)" unfolding F by (simp_all add: tr)
  have "ready (length ?F) (Some ?d)" "ready (length ?F) None" using m(3) t(3) by (simp_all add: ready_def)
  then have others: "\<forall>j < length ?cs. j \<noteq> 0 \<longrightarrow> ready (length ?F) (?cs ! j)" by (auto simp: less_Suc_eq)
  have "\<forall>t \<in> set [''hi'', ''bye'']. sendable ''Al'' t" by (simp add: sendable_def NUL_def)
  from chat_conversation [OF this refl m(1) _ t(1) _ _ m(2) t(2) others, of 5]
  obtain s' cs' e where w: "write_to_server ''Al'' [''hi'', ''bye''] ?s = Some (OK s')"
    "process_client 5 0 (?cs[0 := Some (?c\<lparr>incoming := sent s'\<rparr>)]) = Some (cs', e)"
    "\<forall>j < length ?cs. \<forall>r d. cs' ! j = Some d \<and> moving (events r) \<and> length ?F \<le> transfers (events r) \<longrightarrow>
      fst (read_from_server (r\<lparr>incoming := sent d\<rparr>)) = map (\<lambda>t. ''Al'' @ '': '' @ t) [''hi'', ''bye'']"
    "\<forall>j < length ?cs. cs' ! j = None \<longleftrightarrow> ?cs ! j = None" by (auto simp del: process_client.simps write_to_server.simps)
  from w(4) have "cs' ! 2 \<noteq> None" by (simp add: numeral_2_eq_2)
  then obtain d where d: "cs' ! 2 = Some d" by blast
  have "fst (read_from_server (?r\<lparr>incoming := sent d\<rparr>)) = [''Al: hi'', ''Al: bye'']"
    using w(3) [rule_format, of 2 d ?r, OF _ conjI [OF d conjI [OF m(4) t(4)]]] by simp
  then show ?thesis using w(1,2) d by (intro exI conjI) simp_all
qed

end
