(* ===== verification/Pointers.thy ===== *)
theory Pointers
  imports Decimal C_String "HOL-Library.Signed_Division"
begin

text \<open>
  The exercises of \<open>perilous_pointers/part1-functions.c\<close> that compute with integers and strings. A
  function that prints returns what it prints.
\<close>

unbundle bit_operations_syntax

section \<open>The model\<close>

definition three :: "int option \<Rightarrow> int option \<Rightarrow> string res" where
  "three x y = (case (x, y) of
     (Some x, Some y) \<Rightarrow> OK (if x = y then ''x and y are equal.'' @ [NL] else ''x and y are different.'' @ [NL])
   | _ \<Rightarrow> Fault Null_Deref)"

text \<open>The first character of the string, the NUL of an empty one included.\<close>

definition five :: "string \<Rightarrow> string" where
  "five a = (let c = of_char (hd (a @ [NUL])) :: nat in
     if 65 \<le> c \<and> c \<le> 90 \<or> c \<le> 122 \<and> 97 \<le> c then ''a is a letter.'' @ [NL] else ''a is not a letter.'' @ [NL])"

text \<open>\<open>strcat\<close> behind the six characters of an array of seven.\<close>

definition six :: "string \<Rightarrow> string res" where
  "six str = (if 6 + length str + 1 \<le> 7 then OK (''Hello '' @ str @ [NL]) else Fault Out_Of_Bounds)"

text \<open>The two loops of \<open>eight\<close>, over the cells of the array, and what it prints.\<close>

definition eight_fill :: "int \<Rightarrow> int list list res" where
  "eight_fill a = forE [0..<10] (\<lambda>i values. forE [0..<10] (\<lambda>j values.
     bindE (c_int (int i * int j)) (\<lambda>ij. bindE (c_int (ij * a)) (\<lambda>x.
     OK (values[i := (values ! i)[j := x]])))) values) (replicate 10 (replicate 10 0))"

definition eight :: "int \<Rightarrow> string res" where
  "eight a = bindE (eight_fill a) (\<lambda>values.
     OK (concat (map (\<lambda>i. show_int (values ! i ! i) @ '' '') [0..<10]) @ [NL]))"

definition nine :: "string \<Rightarrow> string" where
  "nine s = (if s = ''blue'' then ''Orange and BLUE!'' @ [NL]
     else if s = ''orange'' then ''ORANGE and blue!'' @ [NL] else ''orange and blue!'' @ [NL])"

text \<open>
  The loop of \<open>clear_bits\<close>: \<open>value\<close> and \<open>flag\<close> are of type \<open>long\<close>, \<open>multiplier\<close> of type \<open>int\<close>;
  division is towards zero.
\<close>

function clear_loop :: "int \<Rightarrow> int \<Rightarrow> int \<Rightarrow> int \<Rightarrow> int res" where
  "clear_loop val flag out multiplier = (if 0 < val then
     (let v = val smod 2; f = flag smod 2;
        c = (if v AND f \<noteq> 0 then 0 else if v = 1 \<and> f = 0 then 1 else 0) in
      bindE (c_int (multiplier * c)) (\<lambda>x. bindE (c_int (multiplier * 2)) (\<lambda>multiplier.
      clear_loop (val sdiv 2) (flag sdiv 2) (out + x) multiplier)))
   else OK out)"
  by pat_completeness auto
termination
  by (relation "measure (\<lambda>(v, f, a, m). nat v)") (auto simp: signed_divide_int_def)

declare clear_loop.simps [simp del]

definition clear_bits :: "int \<Rightarrow> int \<Rightarrow> int res" where
  "clear_bits val flag = clear_loop val flag 0 1"

function automaton_loop :: "(int \<Rightarrow> char \<Rightarrow> int) \<Rightarrow> string \<Rightarrow> nat \<Rightarrow> int \<Rightarrow> int" where
  "automaton_loop transition input_string i state = (if i < length input_string
     then automaton_loop transition input_string (i + 1) (transition state (input_string ! i)) else state)"
  by pat_completeness auto
termination by (relation "measure (\<lambda>(t, s, i, q). length s - i)") auto

declare automaton_loop.simps [simp del]

definition little_automaton :: "(int \<Rightarrow> char \<Rightarrow> int) \<Rightarrow> string \<Rightarrow> int" where
  "little_automaton transition input_string = automaton_loop transition input_string 0 0"

section \<open>Lemmas\<close>

lemma and_not_rec: "(x AND NOT y) = of_bool (odd x \<and> even y) + 2 * (x div 2 AND NOT (y div 2))" for x y :: int
  by (subst and_int_rec) (simp add: not_int_div_2)

lemma clear_step:
  assumes "0 < v" "0 \<le> f" "0 < m" "m \<le> 2 ^ 30"
  shows "clear_loop v f out m = (if m * 2 \<le> INT_MAX then clear_loop (v div 2) (f div 2) (out + m * of_bool (odd v \<and> even f)) (m * 2)
    else Fault Int_Overflow)"
proof -
  have d: "v smod 2 = v mod 2" "f smod 2 = f mod 2" "v sdiv 2 = v div 2" "f sdiv 2 = f div 2"
    using assms by (simp_all add: signed_divide_int_def signed_modulo_int_def sgn_if)
  have c: "(if (v mod 2) AND (f mod 2) \<noteq> 0 then 0 else if v mod 2 = 1 \<and> f mod 2 = 0 then 1 else 0) = (of_bool (odd v \<and> even f) :: int)"
    by (cases "odd v"; cases "odd f") (simp_all add: odd_iff_mod_2_eq_one even_iff_mod_2_eq_zero)
  have "INT_MIN \<le> m * of_bool (odd v \<and> even f) \<and> m * of_bool (odd v \<and> even f) \<le> INT_MAX" "INT_MIN \<le> m * 2"
    using assms(3,4) by (auto simp: INT_MIN_def INT_MAX_def of_bool_def)
  then show ?thesis using assms(1)
    by (subst clear_loop.simps) (simp add: Let_def d c c_int_def)
qed

lemma clear_loop_ok:
  "0 \<le> v \<Longrightarrow> 0 \<le> f \<Longrightarrow> k \<le> 30 \<Longrightarrow> v * 2 ^ k < 2 ^ 30 \<Longrightarrow> clear_loop v f out (2 ^ k) = OK (out + 2 ^ k * (v AND NOT f))"
proof (induction "nat v" arbitrary: v f k out rule: less_induct)
  case less
  show ?case
  proof (cases "v = 0")
    case True
    then show ?thesis by (simp add: clear_loop.simps)
  next
    case False
    then have v: "0 < v" using less.prems(1) by simp
    have "(2 :: int) ^ k \<le> v * 2 ^ k" using v by simp
    then have "(2 :: int) ^ k < 2 ^ 30" using less.prems(4) by linarith
    then have k: "k < 30" by (rule power_less_imp_less_exp [rotated]) simp
    then have "(2 :: int) ^ Suc k \<le> 2 ^ 30" by (intro power_increasing) simp_all
    then have m: "(2 :: int) ^ k * 2 \<le> INT_MAX" by (simp add: INT_MAX_def mult.commute)
    have "v div 2 * 2 ^ Suc k \<le> v * 2 ^ k" by simp
    then have "v div 2 * 2 ^ Suc k < 2 ^ 30" using less.prems(4) by linarith
    then have IH: "clear_loop (v div 2) (f div 2) out' (2 ^ Suc k) = OK (out' + 2 ^ Suc k * (v div 2 AND NOT (f div 2)))" for out'
      using less.hyps [of "v div 2" "f div 2" "Suc k" out'] v less.prems(2) k by simp
    have "(2 :: int) ^ k \<le> 2 ^ 30" using k by (intro power_increasing) simp_all
    from clear_step [OF v less.prems(2) _ this] m
    have "clear_loop v f out (2 ^ k) = clear_loop (v div 2) (f div 2) (out + 2 ^ k * of_bool (odd v \<and> even f)) (2 ^ Suc k)"
      by (simp add: mult.commute)
    also have "\<dots> = OK (out + 2 ^ k * of_bool (odd v \<and> even f) + 2 ^ Suc k * (v div 2 AND NOT (f div 2)))" by (rule IH)
    finally show ?thesis by (subst and_not_rec) (simp add: algebra_simps)
  qed
qed

lemma clear_loop_overflow:
  "0 < v \<Longrightarrow> 0 \<le> f \<Longrightarrow> k \<le> 30 \<Longrightarrow> 2 ^ 30 \<le> v * 2 ^ k \<Longrightarrow> clear_loop v f out (2 ^ k) = Fault Int_Overflow"
proof (induction "30 - k" arbitrary: v f k out)
  case 0
  then have "k = 30" by simp
  then show ?case using clear_step [of v f "2 ^ 30" out] "0.prems" by (simp add: INT_MAX_def)
next
  case (Suc n)
  then have k: "k < 30" by simp
  then have "29 - k + Suc k = 30" by simp
  then have p: "(2 :: int) ^ 30 = 2 ^ (29 - k) * 2 ^ Suc k" by (simp only: power_add [symmetric])
  then have "2 * 2 ^ (29 - k) * 2 ^ k \<le> v * 2 ^ k" using Suc.prems(4) by (simp only: power_Suc mult_ac)
  then have "2 * 2 ^ (29 - k) \<le> v" by (rule mult_right_le_imp_le) simp
  then have h: "2 ^ (29 - k) \<le> v div 2" by simp
  then have "2 ^ 30 \<le> v div 2 * 2 ^ Suc k" unfolding p by (rule mult_right_mono) simp
  moreover have "0 < v div 2" using h by (meson order_less_le_trans zero_less_numeral zero_less_power)
  ultimately have IH: "clear_loop (v div 2) (f div 2) out' (2 ^ Suc k) = Fault Int_Overflow" for out'
    using Suc.hyps(1) [of "Suc k" "v div 2" "f div 2" out'] Suc.hyps(2) Suc.prems(2) k by simp
  have "(2 :: int) ^ k \<le> 2 ^ 30" using k by (intro power_increasing) simp_all
  from clear_step [OF Suc.prems(1,2) _ this] show ?case using IH by (simp add: mult.commute)
qed

lemma automaton_loop_foldl: "automaton_loop t s i q = foldl t q (drop i s)"
proof (induction t s i q rule: automaton_loop.induct)
  case (1 t s i q)
  then show ?case
    by (cases "i < length s") (simp_all add: automaton_loop.simps [of t s i] Cons_nth_drop_Suc [symmetric])
qed

lemma little_automaton_foldl: "little_automaton transition s = foldl transition 0 s"
  by (simp add: little_automaton_def automaton_loop_foldl)

lemma six_overflows: "six str = (if str = [] then OK (''Hello '' @ [NL]) else Fault Out_Of_Bounds)"
  by (cases str) (simp_all add: six_def)

section \<open>Properties\<close>

text \<open>
  For a flag that is not negative, \<open>clear_bits\<close> clears its bits in values below $2^{30}$; from
  there on the multiplier overflows, and a negative value gives 0.
\<close>

theorem clear_bits_result:
  assumes "0 \<le> flag"
  shows "clear_bits val flag = (if val < 0 then OK 0 else if val < 2 ^ 30 then OK (val AND NOT flag) else Fault Int_Overflow)"
proof -
  consider "val < 0" | "0 \<le> val" "val < 2 ^ 30" | "2 ^ 30 \<le> val" by linarith
  then show ?thesis
  proof cases
    case 1
    then show ?thesis by (simp add: clear_bits_def clear_loop.simps)
  next
    case 2
    then show ?thesis using clear_loop_ok [of val flag 0 0] assms by (simp add: clear_bits_def)
  next
    case 3
    then show ?thesis using clear_loop_overflow [of val flag 0 0] assms by (simp add: clear_bits_def)
  qed
qed

lemma clear_bits_result_witness: "clear_bits 0xFF 0x55 = OK 0xAA \<and> clear_bits (2 ^ 40) 0 = Fault Int_Overflow"
  using clear_bits_result [of "0x55" "0xFF"] clear_bits_result [of 0 "2 ^ 40"] by simp

text \<open>A negative flag loses its high bits: only some of the bits of the value are cleared.\<close>

lemma clear_bits_negative_flag: "clear_bits 7 (- 2) = OK 5 \<and> (7 AND NOT (- 2)) = (1 :: int)"
  by (simp add: clear_bits_def clear_loop.simps c_int_def INT_MIN_def INT_MAX_def signed_divide_int_def signed_modulo_int_def Let_def)

end
