(* ===== verification/Rendezvous.thy ===== *)
theory Rendezvous
  imports C_String "HOL-Library.Multiset"
begin

text \<open>
  The rendezvous of \<open>critical_concurrency/rendezvous.c\<close>: two threads decode a quotation each, in
  place, and then print the one of the other; two semaphores keep them from printing too early.
  \<open>rendezvous_sol.c\<close> is the same program with other names.
\<close>

section \<open>The model\<close>

text \<open>The arrays with their NUL, and the semaphores.\<close>

record rendezvous =
  quote_A :: "char list"
  quote_B :: "char list"
  s1 :: nat
  s2 :: nat

text \<open>
  Where a thread is: about to test the character \<open>quote[i]\<close>, to decrement it, to call \<open>sem_post\<close>, to
  return from \<open>sem_wait\<close>, to print, or at its end.
\<close>

datatype place = Test nat | Decrement nat | Post | Wait | Print | Ended

text \<open>\<open>quote[i]--\<close> on one character.\<close>

definition decrement :: "char \<Rightarrow> char" where
  "decrement c = char_of ((of_char c + 255 :: nat) mod 256)"

text \<open>
  One step of each thread, with what it prints; \<open>None\<close> when it waits or has ended.
\<close>

fun modifyA_printB :: "place \<Rightarrow> rendezvous \<Rightarrow> (place \<times> rendezvous \<times> string list) option" where
  "modifyA_printB (Test i) s = Some (if quote_A s ! i \<noteq> NUL then Decrement i else Post, s, [])"
| "modifyA_printB (Decrement i) s = Some (Test (i + 1), s\<lparr>quote_A := (quote_A s)[i := decrement (quote_A s ! i)]\<rparr>, [])"
| "modifyA_printB Post s = Some (Wait, s\<lparr>s1 := s1 s + 1\<rparr>, [])"
| "modifyA_printB Wait s = (if s2 s = 0 then None else Some (Print, s\<lparr>s2 := s2 s - 1\<rparr>, []))"
| "modifyA_printB Print s = Some (Ended, s, [''quote_B:'' @ [CHR 0x09] @ cstr (quote_B s) @ [NL]])"
| "modifyA_printB Ended s = None"

fun modifyB_printA :: "place \<Rightarrow> rendezvous \<Rightarrow> (place \<times> rendezvous \<times> string list) option" where
  "modifyB_printA (Test i) s = Some (if quote_B s ! i \<noteq> NUL then Decrement i else Post, s, [])"
| "modifyB_printA (Decrement i) s = Some (Test (i + 1), s\<lparr>quote_B := (quote_B s)[i := decrement (quote_B s ! i)]\<rparr>, [])"
| "modifyB_printA Post s = Some (Wait, s\<lparr>s2 := s2 s + 1\<rparr>, [])"
| "modifyB_printA Wait s = (if s1 s = 0 then None else Some (Print, s\<lparr>s1 := s1 s - 1\<rparr>, []))"
| "modifyB_printA Print s = Some (Ended, s, [''quote_A:'' @ [CHR 0x09] @ cstr (quote_A s) @ [NL]])"
| "modifyB_printA Ended s = None"

record meeting =
  place_A :: place
  place_B :: place
  shared :: rendezvous
  printed :: "string list"

text \<open>\<open>main\<close> starts both threads on its two quotations and joins them.\<close>

definition start :: "string \<Rightarrow> string \<Rightarrow> meeting" where
  "start a b = \<lparr>place_A = Test 0, place_B = Test 0,
     shared = \<lparr>quote_A = a @ [NUL], quote_B = b @ [NUL], s1 = 0, s2 = 0\<rparr>, printed = []\<rparr>"

inductive meets :: "meeting \<Rightarrow> meeting \<Rightarrow> bool" where
  step_A: "modifyA_printB (place_A m) (shared m) = Some (p, s, out) \<Longrightarrow>
    meets m (m\<lparr>place_A := p, shared := s, printed := printed m @ out\<rparr>)"
| step_B: "modifyB_printA (place_B m) (shared m) = Some (p, s, out) \<Longrightarrow>
    meets m (m\<lparr>place_B := p, shared := s, printed := printed m @ out\<rparr>)"

section \<open>Specification\<close>

definition line_of :: "string \<Rightarrow> string \<Rightarrow> string" where
  "line_of label a = label @ [CHR 0x09] @ cstr (map decrement a) @ [NL]"

text \<open>What of a quotation a thread at a place has decoded.\<close>

definition decoding :: "string \<Rightarrow> place \<Rightarrow> char list \<Rightarrow> bool" where
  "decoding a p q = (case p of
     Test i \<Rightarrow> i \<le> length a \<and> q = map decrement (take i a) @ drop i a @ [NUL]
   | Decrement i \<Rightarrow> i < length a \<and> q = map decrement (take i a) @ drop i a @ [NUL]
   | _ \<Rightarrow> q = map decrement a @ [NUL])"

definition posted :: "place \<Rightarrow> nat" where
  "posted p = (case p of Wait \<Rightarrow> 1 | Print \<Rightarrow> 1 | Ended \<Rightarrow> 1 | _ \<Rightarrow> 0)"

definition passed :: "place \<Rightarrow> nat" where
  "passed p = (case p of Print \<Rightarrow> 1 | Ended \<Rightarrow> 1 | _ \<Rightarrow> 0)"

definition lines_due :: "string \<Rightarrow> string \<Rightarrow> meeting \<Rightarrow> string multiset" where
  "lines_due a b m = (if place_A m = Ended then {#line_of ''quote_B:'' b#} else {#}) +
     (if place_B m = Ended then {#line_of ''quote_A:'' a#} else {#})"

definition meeting_inv :: "string \<Rightarrow> string \<Rightarrow> meeting \<Rightarrow> bool" where
  "meeting_inv a b m \<longleftrightarrow> decoding a (place_A m) (quote_A (shared m)) \<and> decoding b (place_B m) (quote_B (shared m)) \<and>
     s1 (shared m) + passed (place_B m) = posted (place_A m) \<and>
     s2 (shared m) + passed (place_A m) = posted (place_B m) \<and> mset (printed m) = lines_due a b m"

text \<open>The steps a thread at a place still has to take.\<close>

definition steps_left :: "nat \<Rightarrow> place \<Rightarrow> nat" where
  "steps_left n p = (case p of Test i \<Rightarrow> 2 * (n - i) + 4 | Decrement i \<Rightarrow> 2 * (n - i) + 3
     | Post \<Rightarrow> 3 | Wait \<Rightarrow> 2 | Print \<Rightarrow> 1 | Ended \<Rightarrow> 0)"

section \<open>Lemmas\<close>

lemma decoding_test:
  assumes "NUL \<notin> set a" "decoding a (Test i) q"
  shows "decoding a (if q ! i \<noteq> NUL then Decrement i else Post) q"
    and "steps_left (length a) (if q ! i \<noteq> NUL then Decrement i else Post) < steps_left (length a) (Test i)"
proof -
  have q: "i \<le> length a" "q = map decrement (take i a) @ drop i a @ [NUL]" using assms(2) by (simp_all add: decoding_def)
  have "q ! i = (a @ [NUL]) ! i" using q by (simp add: nth_append)
  then have "q ! i \<noteq> NUL \<longleftrightarrow> i < length a"
    using q(1) assms(1) by (auto simp: nth_append dest: nth_mem)
  then show "decoding a (if q ! i \<noteq> NUL then Decrement i else Post) q"
    "steps_left (length a) (if q ! i \<noteq> NUL then Decrement i else Post) < steps_left (length a) (Test i)"
    using q by (auto simp: decoding_def steps_left_def)
qed

lemma decoding_decrement:
  assumes "decoding a (Decrement i) q"
  shows "decoding a (Test (i + 1)) (q[i := decrement (q ! i)])"
    and "steps_left (length a) (Test (i + 1)) < steps_left (length a) (Decrement i)"
proof -
  have q: "i < length a" "q = map decrement (take i a) @ drop i a @ [NUL]" using assms by (simp_all add: decoding_def)
  then have "q = map decrement (take i a) @ (a ! i) # drop (Suc i) a @ [NUL]" by (simp add: Cons_nth_drop_Suc)
  then have "q[i := decrement (q ! i)] = map decrement (take i a) @ decrement (a ! i) # drop (Suc i) a @ [NUL]"
    using q(1) by (simp add: nth_append list_update_append)
  then show "decoding a (Test (i + 1)) (q[i := decrement (q ! i)])" using q(1)
    by (simp add: decoding_def take_Suc_conv_app_nth)
  show "steps_left (length a) (Test (i + 1)) < steps_left (length a) (Decrement i)"
    using q(1) by (simp add: steps_left_def)
qed

lemma decoded_after_post: "1 \<le> posted p \<Longrightarrow> decoding a p q \<Longrightarrow> cstr q = cstr (map decrement a)"
  using takeWhile_tail [of "\<lambda>c. c \<noteq> NUL" NUL "map decrement a" "[]"]
  by (cases p) (simp_all add: decoding_def posted_def cstr_def)

lemma decoding_later: "p \<in> {Post, Wait, Print, Ended} \<Longrightarrow> decoding a p q \<longleftrightarrow> q = map decrement a @ [NUL]"
  by (auto simp: decoding_def)

lemmas counting = posted_def passed_def lines_due_def

lemma meeting_inv_A:
  assumes "NUL \<notin> set a" "meeting_inv a b m" "modifyA_printB (place_A m) (shared m) = Some (p, s, out)"
  shows "meeting_inv a b (m\<lparr>place_A := p, shared := s, printed := printed m @ out\<rparr>)"
    and "steps_left (length a) p < steps_left (length a) (place_A m)"
proof -
  have i: "decoding a (place_A m) (quote_A (shared m))" "decoding b (place_B m) (quote_B (shared m))"
    "s1 (shared m) + passed (place_B m) = posted (place_A m)" "s2 (shared m) + passed (place_A m) = posted (place_B m)"
    "mset (printed m) = lines_due a b m"
    using assms(2) by (simp_all add: meeting_inv_def)
  have "meeting_inv a b (m\<lparr>place_A := p, shared := s, printed := printed m @ out\<rparr>) \<and>
    steps_left (length a) p < steps_left (length a) (place_A m)"
  proof (cases "place_A m")
    case (Test i)
    then show ?thesis using i assms(3) decoding_test [OF assms(1), of i "quote_A (shared m)"]
      by (cases "quote_A (shared m) ! i = NUL") (auto simp: meeting_inv_def counting)
  next
    case (Decrement i)
    then show ?thesis using i assms(3) decoding_decrement [of a i "quote_A (shared m)"]
      by (auto simp: meeting_inv_def counting)
  next
    case Print
    then have "1 \<le> posted (place_B m)" using i(4) by (simp add: passed_def)
    then show ?thesis using Print i assms(3) decoded_after_post [OF _ i(2)]
      by (auto simp: meeting_inv_def counting decoding_later steps_left_def line_of_def)
  qed (use i assms(3) in \<open>auto simp: meeting_inv_def counting decoding_later steps_left_def split: if_splits\<close>)
  then show "meeting_inv a b (m\<lparr>place_A := p, shared := s, printed := printed m @ out\<rparr>)"
    "steps_left (length a) p < steps_left (length a) (place_A m)" by simp_all
qed

lemma meeting_inv_B:
  assumes "NUL \<notin> set b" "meeting_inv a b m" "modifyB_printA (place_B m) (shared m) = Some (p, s, out)"
  shows "meeting_inv a b (m\<lparr>place_B := p, shared := s, printed := printed m @ out\<rparr>)"
    and "steps_left (length b) p < steps_left (length b) (place_B m)"
proof -
  have i: "decoding a (place_A m) (quote_A (shared m))" "decoding b (place_B m) (quote_B (shared m))"
    "s1 (shared m) + passed (place_B m) = posted (place_A m)" "s2 (shared m) + passed (place_A m) = posted (place_B m)"
    "mset (printed m) = lines_due a b m"
    using assms(2) by (simp_all add: meeting_inv_def)
  have "meeting_inv a b (m\<lparr>place_B := p, shared := s, printed := printed m @ out\<rparr>) \<and>
    steps_left (length b) p < steps_left (length b) (place_B m)"
  proof (cases "place_B m")
    case (Test i)
    then show ?thesis using i assms(3) decoding_test [OF assms(1), of i "quote_B (shared m)"]
      by (cases "quote_B (shared m) ! i = NUL") (auto simp: meeting_inv_def counting)
  next
    case (Decrement i)
    then show ?thesis using i assms(3) decoding_decrement [of b i "quote_B (shared m)"]
      by (auto simp: meeting_inv_def counting)
  next
    case Print
    then have "1 \<le> posted (place_A m)" using i(3) by (simp add: passed_def)
    then show ?thesis using Print i assms(3) decoded_after_post [OF _ i(1)]
      by (auto simp: meeting_inv_def counting decoding_later steps_left_def line_of_def)
  qed (use i assms(3) in \<open>auto simp: meeting_inv_def counting decoding_later steps_left_def split: if_splits\<close>)
  then show "meeting_inv a b (m\<lparr>place_B := p, shared := s, printed := printed m @ out\<rparr>)"
    "steps_left (length b) p < steps_left (length b) (place_B m)" by simp_all
qed

lemma meeting_steps:
  "(meets ^^ n) (start a b) m \<Longrightarrow> NUL \<notin> set a \<Longrightarrow> NUL \<notin> set b \<Longrightarrow>
   meeting_inv a b m \<and> n + steps_left (length a) (place_A m) + steps_left (length b) (place_B m) \<le> 2 * (length a + length b) + 8"
proof (induction n arbitrary: m)
  case 0
  then have "m = start a b" by simp
  then show ?case by (simp add: start_def meeting_inv_def decoding_def counting steps_left_def)
next
  case (Suc n)
  then obtain m' where m': "(meets ^^ n) (start a b) m'" "meets m' m" by auto
  note IH = Suc.IH [OF m'(1) Suc.prems(2,3)]
  from m'(2) show ?case
  proof cases
    case (step_A p s out)
    then show ?thesis using IH meeting_inv_A [OF Suc.prems(2) _ step_A(2), of b] by simp
  next
    case (step_B p s out)
    then show ?thesis using IH meeting_inv_B [OF Suc.prems(3) _ step_B(2), of a] by simp
  qed
qed

lemma meeting_stuck:
  assumes "meeting_inv a b m" "\<not> (\<exists>m'. meets m m')"
  shows "place_A m = Ended \<and> place_B m = Ended"
proof -
  have "modifyA_printB (place_A m) (shared m) = None" "modifyB_printA (place_B m) (shared m) = None"
    using assms(2) meets.intros [of m] by (metis not_Some_eq prod_cases3)+
  then have "place_A m = Ended \<or> place_A m = Wait \<and> s2 (shared m) = 0" "place_B m = Ended \<or> place_B m = Wait \<and> s1 (shared m) = 0"
    by (cases "place_A m"; simp split: if_splits; cases "place_B m"; simp split: if_splits)+
  then show ?thesis using assms(1) by (auto simp: meeting_inv_def counting)
qed

section \<open>Properties\<close>

text \<open>
  Whatever the order of the two threads, they take a bounded number of steps, never print
  anything but the decoded quotations, and are stuck only when each has printed the one of the other.
\<close>

theorem rendezvous_prints_decoded:
  assumes "NUL \<notin> set a" "NUL \<notin> set b" "(meets ^^ n) (start a b) m"
  shows "n \<le> 2 * (length a + length b) + 8 \<and> mset (printed m) \<subseteq># {#line_of ''quote_A:'' a, line_of ''quote_B:'' b#} \<and>
    ((\<exists>m'. meets m m') \<or> mset (printed m) = {#line_of ''quote_A:'' a, line_of ''quote_B:'' b#})"
proof (intro conjI)
  have i: "meeting_inv a b m" and n: "n \<le> 2 * (length a + length b) + 8" using meeting_steps [OF assms(3,1,2)] by simp_all
  then have p: "mset (printed m) = lines_due a b m" by (simp add: meeting_inv_def)
  show "n \<le> 2 * (length a + length b) + 8" by (rule n)
  show "mset (printed m) \<subseteq># {#line_of ''quote_A:'' a, line_of ''quote_B:'' b#}"
    unfolding p lines_due_def by simp
  show "(\<exists>m'. meets m m') \<or> mset (printed m) = {#line_of ''quote_A:'' a, line_of ''quote_B:'' b#}"
    using meeting_stuck [OF i] unfolding p by (cases "\<exists>m'. meets m m'") (simp_all add: lines_due_def)
qed

lemma rendezvous_prints_decoded_witness:
  "mset (printed ((start ''J'' ''U'')\<lparr>place_A := Decrement 0\<rparr>)) \<subseteq># {#line_of ''quote_A:'' ''J'', line_of ''quote_B:'' ''U''#}"
proof -
  have "meets (start ''J'' ''U'') ((start ''J'' ''U'')\<lparr>place_A := Decrement 0, shared := shared (start ''J'' ''U''),
    printed := printed (start ''J'' ''U'') @ []\<rparr>)"
    by (rule step_A) (simp add: start_def NUL_def)
  then have "(meets ^^ 1) (start ''J'' ''U'') ((start ''J'' ''U'')\<lparr>place_A := Decrement 0\<rparr>)"
    by (simp only: relpowp_1) (simp add: start_def)
  from rendezvous_prints_decoded [OF _ _ this] show ?thesis by (simp add: NUL_def)
qed

end
