(* ===== verification/Name_Server.thy ===== *)
theory Name_Server
  imports C_String Decimal
begin

text \<open>
  The resolution of host names by a remote procedure call: the client in
  \<open>rpc/dns_query_clnt_impl.c\<close> and the service in \<open>rpc/dns_query_svc_impl.c\<close>, which asks a name
  server by a datagram. The caches, the generated stubs and the network are parameters.
\<close>

section \<open>The model\<close>

record host_address =
  host :: string
  host_ipv4_address :: string

record response =
  success :: bool
  address :: host_address

subsection \<open>The service\<close>

text \<open>
  What a call of \<open>recvfrom\<close> gives: a datagram, the error \<open>EAGAIN\<close>, or another error. The first
  call asks for \<open>MAX_BYTES_IPV4\<close> bytes, a constant of a header that is not in the repository, and
  each later one for 16.
\<close>

datatype reception = Datagram string | Again | Failed

text \<open>The result is \<open>None\<close> while the loop goes on, and the null pointer or the bytes in the array when it ends.\<close>

fun receive_loop :: "nat \<Rightarrow> reception list \<Rightarrow> string option option" where
  "receive_loop cnt [] = None"
| "receive_loop cnt (Datagram d # rs) = Some (Some (take cnt d))"
| "receive_loop cnt (Again # rs) = receive_loop 16 rs"
| "receive_loop cnt (Failed # rs) = Some None"

text \<open>The address in the array: every colon is overwritten by a NUL.\<close>

definition read_address :: "nat \<Rightarrow> string \<Rightarrow> string option res" where
  "read_address max_bytes d = (if max_bytes < length d then Fault Out_Of_Bounds
     else let ipaddr = map (\<lambda>c. if c = CHR '':'' then NUL else c) (d @ replicate (max_bytes - length d) NUL) in
       if NUL \<notin> set ipaddr then Fault Out_Of_Bounds
       else OK (if cstr ipaddr = ''-1.-1.-1.-1'' then None else Some (cstr ipaddr)))"

text \<open>
  \<open>network\<close>: for an address and a port, whether \<open>sendto\<close> succeeds with this text, and what is
  received then.
\<close>

type_synonym network = "string \<Rightarrow> 16 word \<Rightarrow> string \<Rightarrow> bool \<times> reception list"

definition contact_nameserver :: "nat \<Rightarrow> network \<Rightarrow> string \<Rightarrow> string \<Rightarrow> int \<Rightarrow> string option res option" where
  "contact_nameserver max_bytes network query_host server port = (case network server (word_of_int port) query_host of
     (sent, rs) \<Rightarrow> if \<not> sent then Some (OK None)
       else (case receive_loop max_bytes rs of
           None \<Rightarrow> None
         | Some None \<Rightarrow> Some (OK None)
         | Some (Some d) \<Rightarrow> Some (read_address max_bytes d)))"

definition create_response :: "string \<Rightarrow> string option \<Rightarrow> response" where
  "create_response query_host ipv4_address = (case ipv4_address of
     Some ip \<Rightarrow> \<lparr>success = True, address = \<lparr>host = query_host, host_ipv4_address = ip\<rparr>\<rparr>
   | None \<Rightarrow> \<lparr>success = False, address = \<lparr>host = query_host, host_ipv4_address = ''hahaha''\<rparr>\<rparr>)"

text \<open>
  What the service has from its surroundings: its cache, the environment, the size of the array,
  and the network.
\<close>

record service =
  check_cache :: "string \<Rightarrow> string option"
  getenv :: "string \<Rightarrow> string option"
  max_bytes_ipv4 :: nat
  net :: network

text \<open>\<open>int port = strtol(s, NULL, 10)\<close>: a \<open>long\<close>, the nearest one if the number is none, becomes an \<open>int\<close>.\<close>

definition read_port :: "string \<Rightarrow> int" where
  "read_port s = to_int (word_of_int (max (- (2 ^ 63)) (min (2 ^ 63 - 1) (read_int s))))"

text \<open>What the service prints and its response; \<open>None\<close> while it waits for the name server.\<close>

definition dns_query_1_svc :: "service \<Rightarrow> string \<Rightarrow> (string \<times> response) res option" where
  "dns_query_1_svc sv query_host = (let out = ''Resolving query...'' @ [NL] in case check_cache sv query_host of
     Some ip \<Rightarrow> Some (OK (out @ ''Domain found in server's cache!'' @ [NL], create_response query_host (Some ip)))
   | None \<Rightarrow> (let out = out @ ''Domain not found in server's cache. Contacting authoritative servers...'' @ [NL] in
       case (getenv sv ''NAMESERVER_HOST'', getenv sv ''NAMESERVER_PORT'') of
         (Some server, Some port) \<Rightarrow>
           (case contact_nameserver (max_bytes_ipv4 sv) (net sv) query_host server (read_port port) of
             None \<Rightarrow> None
           | Some r \<Rightarrow> Some (bindE r (\<lambda>ip. OK (out, create_response query_host ip))))
       | _ \<Rightarrow> Some (Fault Null_Deref)))"

subsection \<open>The client\<close>

text \<open>
  A function of the client gives what it prints to the standard output, and either the status of
  \<open>exit\<close> or its result.
\<close>

type_synonym 'a client = "string \<times> (int + 'a)"

definition print_failure :: string where
  "print_failure = ''Domain name resolution failed.'' @ [NL]"

definition print_ipv4_address :: "string \<Rightarrow> string \<Rightarrow> string" where
  "print_ipv4_address name ipv4_address = name @ '' has ipv4 address '' @ ipv4_address @ [NL]"

definition print_ipv4_address_in_cache :: "string \<Rightarrow> string \<Rightarrow> string" where
  "print_ipv4_address_in_cache name ipv4_address =
     ''Found domain's IP in local cache! No need to send an RPC to the server.'' @ [NL] @ print_ipv4_address name ipv4_address"

text \<open>The generated stubs: \<open>clnt_create\<close>, and \<open>dns_query_1\<close> with the query.\<close>

definition create_client_stub :: "(string \<Rightarrow> 'clnt option) \<Rightarrow> string \<Rightarrow> 'clnt client" where
  "create_client_stub clnt_create server_host = (case clnt_create server_host of None \<Rightarrow> ([], Inl 1) | Some clnt \<Rightarrow> ([], Inr clnt))"

definition send_query ::
  "(string \<Rightarrow> 'clnt option) \<Rightarrow> (string \<Rightarrow> 'clnt \<Rightarrow> response option) \<Rightarrow> string \<Rightarrow> string \<Rightarrow> response option client" where
  "send_query clnt_create dns_query_1 q to_server = (case create_client_stub clnt_create to_server of
     (out, Inl status) \<Rightarrow> (out, Inl status)
   | (out, Inr clnt) \<Rightarrow> (case dns_query_1 q clnt of
         None \<Rightarrow> (out @ ''Call failed'' @ [NL], Inr None)
       | Some result \<Rightarrow> (out, Inr (Some result))))"

definition resolve_hostname ::
  "(string \<Rightarrow> string option) \<Rightarrow> (string \<Rightarrow> 'clnt option) \<Rightarrow> (string \<Rightarrow> 'clnt \<Rightarrow> response option) \<Rightarrow> string \<Rightarrow> string \<Rightarrow> unit client" where
  "resolve_hostname cache clnt_create dns_query_1 server_host host_to_resolve = (case cache host_to_resolve of
     Some ret \<Rightarrow> (print_ipv4_address_in_cache host_to_resolve ret, Inl 0)
   | None \<Rightarrow> (case send_query clnt_create dns_query_1 host_to_resolve server_host of
         (out, Inl status) \<Rightarrow> (out, Inl status)
       | (out, Inr None) \<Rightarrow> (out, Inl 1)
       | (out, Inr (Some res)) \<Rightarrow> if \<not> success res then (out @ print_failure, Inl 1)
           else (out @ print_ipv4_address (host (address res)) (host_ipv4_address (address res)), Inr ())))"

text \<open>The program: what it prints and its exit status.\<close>

definition resolver_main ::
  "(string \<Rightarrow> string option) \<Rightarrow> (string \<Rightarrow> 'clnt option) \<Rightarrow> (string \<Rightarrow> 'clnt \<Rightarrow> response option) \<Rightarrow> string \<Rightarrow> string list \<Rightarrow> string \<times> int" where
  "resolver_main cache clnt_create dns_query_1 program args = (case args of
     server_host # host_to_resolve # _ \<Rightarrow>
       (case resolve_hostname cache clnt_create dns_query_1 server_host host_to_resolve of
          (out, Inl status) \<Rightarrow> (out, status) | (out, Inr _) \<Rightarrow> (out, 0))
   | _ \<Rightarrow> (''Usage: '' @ program @ '' server_host host_to_resolve'' @ [NL], 1))"

section \<open>Specification\<close>

text \<open>
  What the documentation of the library says of a stub: it gives the response of the service, and
  the null pointer when none comes in time. Of a service whose behaviour is undefined nothing is
  known: it may answer anything.
\<close>

definition stub_ok :: "service \<Rightarrow> (string \<Rightarrow> 'clnt \<Rightarrow> response option) \<Rightarrow> 'clnt \<Rightarrow> bool" where
  "stub_ok sv dns_query_1 clnt \<longleftrightarrow>
     (\<forall>q. case dns_query_1_svc sv q of Some (Inr (_, res)) \<Rightarrow> dns_query_1 q clnt = Some res
       | None \<Rightarrow> dns_query_1 q clnt = None | Some (Inl _) \<Rightarrow> True)"

datatype resolution = Address string | Unknown | No_Answer | Undefined

text \<open>
  The resolution of a name: the cache of the service, or the part of the answer of the name server
  before a colon, where \<open>-1.-1.-1.-1\<close> says that the name is not known. It is undefined when this
  part does not fit the array with its NUL, or the environment does not name the name server.
\<close>

definition nameserver_answer :: "bool \<times> reception list \<Rightarrow> resolution" where
  "nameserver_answer r = (case r of (sent, rs) \<Rightarrow> if \<not> sent then Unknown
     else (case dropWhile (\<lambda>r. r = Again) rs of
         Datagram d # _ \<Rightarrow> let ip = takeWhile (\<lambda>c. c \<noteq> CHR '':'' \<and> c \<noteq> NUL) d in
           if 16 \<le> length ip then Undefined else if ip = ''-1.-1.-1.-1'' then Unknown else Address ip
       | Failed # _ \<Rightarrow> Unknown
       | _ \<Rightarrow> No_Answer))"

definition resolution :: "service \<Rightarrow> string \<Rightarrow> resolution" where
  "resolution sv name = (case check_cache sv name of
     Some ip \<Rightarrow> Address ip
   | None \<Rightarrow> (case (getenv sv ''NAMESERVER_HOST'', getenv sv ''NAMESERVER_PORT'') of
         (Some server, Some port) \<Rightarrow> nameserver_answer (net sv server (word_of_int (read_port port)) name)
       | _ \<Rightarrow> Undefined))"

section \<open>Lemmas\<close>

lemma cstr_colons: "cstr (map (\<lambda>c. if c = CHR '':'' then NUL else c) s) = takeWhile (\<lambda>c. c \<noteq> CHR '':'' \<and> c \<noteq> NUL) s"
  by (induction s) (auto simp: cstr_def)

lemma receive_loop_16: "receive_loop 16 rs = (case dropWhile (\<lambda>r. r = Again) rs of
    [] \<Rightarrow> None | Datagram d # _ \<Rightarrow> Some (Some (take 16 d)) | Failed # _ \<Rightarrow> Some None | Again # _ \<Rightarrow> None)"
  by (induction "16 :: nat" rs rule: receive_loop.induct) simp_all

lemma takeWhile_take: "takeWhile P (take n xs) = take n (takeWhile P xs)"
  by (induction xs arbitrary: n) (auto simp: take_Cons')

text \<open>The array holds the address if it fits with its NUL.\<close>

lemma read_address_16:
  defines "stop \<equiv> \<lambda>c. c \<noteq> CHR '':'' \<and> c \<noteq> NUL"
  shows "read_address 16 (take 16 d) = (if 16 \<le> length (takeWhile stop d) then Fault Out_Of_Bounds
    else OK (if takeWhile stop d = ''-1.-1.-1.-1'' then None else Some (takeWhile stop d)))"
proof (cases "16 \<le> length (takeWhile stop d)")
  case True
  then have "take 16 d = take 16 (takeWhile stop d)" by (metis takeWhile_eq_take take_take min.absorb1)
  then have s: "\<forall>c \<in> set (take 16 d). stop c" by (metis in_set_takeD set_takeWhileD)
  have "length d \<ge> 16" using True length_takeWhile_le [of stop d] by linarith
  then have "NUL \<notin> set (map (\<lambda>c. if c = CHR '':'' then NUL else c) (take 16 d @ replicate (16 - length (take 16 d)) NUL))"
    using s by (auto simp: stop_def)
  then show ?thesis using True by (simp add: read_address_def Let_def)
next
  case False
  let ?ip = "takeWhile stop d" and ?a = "map (\<lambda>c. if c = CHR '':'' then NUL else c) (take 16 d @ replicate (16 - length (take 16 d)) NUL)"
  have n: "length ?ip < length (take 16 d @ replicate (16 - length (take 16 d)) NUL)" using False by simp
  have "takeWhile stop (take 16 d) = ?ip" using False by (simp add: takeWhile_take)
  moreover have "takeWhile stop (replicate k NUL) = []" for k by (cases k) (simp_all add: stop_def)
  ultimately have "takeWhile stop (take 16 d @ replicate (16 - length (take 16 d)) NUL) = ?ip"
    by (metis append_Nil2 takeWhile_append takeWhile_eq_all_conv)
  then have "cstr ?a = ?ip" by (simp only: cstr_colons stop_def)
  moreover have "NUL \<in> set ?a"
  proof (rule ccontr)
    assume "NUL \<notin> set ?a"
    then have "cstr ?a = ?a" by (rule cstr_id)
    then have "length ?ip = length ?a" using \<open>cstr ?a = ?ip\<close> by (simp only:)
    then show False using n by (simp only: length_map)
  qed
  ultimately show ?thesis using False by (simp add: read_address_def Let_def)
qed

lemma contact_resolution:
  "contact_nameserver 16 network name server port = (case nameserver_answer (network server (word_of_int port) name) of
     Address ip \<Rightarrow> Some (OK (Some ip)) | Unknown \<Rightarrow> Some (OK None)
   | No_Answer \<Rightarrow> None | Undefined \<Rightarrow> Some (Fault Out_Of_Bounds))"
proof -
  obtain sent rs where n: "network server (word_of_int port) name = (sent, rs)" by fastforce
  have a: "rs' = [] \<or> hd rs' \<noteq> Again" if "rs' = dropWhile (\<lambda>r. r = Again) rs" for rs'
    using that hd_dropWhile [of "\<lambda>r. r = Again" rs] by blast
  show ?thesis
  proof (cases "dropWhile (\<lambda>r. r = Again) rs")
    case Nil
    then show ?thesis by (simp add: contact_nameserver_def nameserver_answer_def n receive_loop_16 del: dropWhile_eq_Nil_conv)
  next
    case (Cons r rs')
    with a [OF refl] have "r \<noteq> Again" by simp
    with Cons show ?thesis
      by (cases r) (simp_all add: contact_nameserver_def nameserver_answer_def n receive_loop_16 read_address_16 Let_def)
  qed
qed

text \<open>The service answers by the resolution of the name, and its behaviour is undefined where that is.\<close>

lemma service_resolution:
  assumes "max_bytes_ipv4 sv = 16"
  shows "case resolution sv name of
     Address ip \<Rightarrow> \<exists>out. dns_query_1_svc sv name = Some (OK (out, create_response name (Some ip)))
   | Unknown \<Rightarrow> \<exists>out. dns_query_1_svc sv name = Some (OK (out, create_response name None))
   | No_Answer \<Rightarrow> dns_query_1_svc sv name = None
   | Undefined \<Rightarrow> \<exists>e. dns_query_1_svc sv name = Some (Fault e)"
  unfolding dns_query_1_svc_def resolution_def assms contact_resolution Let_def
  by (auto split: option.splits resolution.splits)

lemma stub_resolution:
  assumes "max_bytes_ipv4 sv = 16" "stub_ok sv dns_query_1 clnt" "resolution sv name \<noteq> Undefined"
  shows "dns_query_1 name clnt = (case resolution sv name of
     Address ip \<Rightarrow> Some (create_response name (Some ip)) | Unknown \<Rightarrow> Some (create_response name None) | _ \<Rightarrow> None)"
proof -
  have "case dns_query_1_svc sv name of Some (Inr (_, res)) \<Rightarrow> dns_query_1 name clnt = Some res
      | None \<Rightarrow> dns_query_1 name clnt = None | Some (Inl _) \<Rightarrow> True"
    using assms(2) by (simp add: stub_ok_def)
  then show ?thesis using service_resolution [OF assms(1), of name] assms(3)
    by (cases "resolution sv name") auto
qed

section \<open>Properties\<close>

text \<open>
  C25: The resolution of a name from end to end: the address in the cache of the client, else the one
  in the cache of the service, else the one in the answer of the name server after any number of failed
  calls; the exit status is 1, and no address is printed, when there is none of them. This is as long
  as the service does nothing undefined: its environment names the name server, whose answer
  fits the array with its NUL.
\<close>

theorem resolver_end_to_end:
  assumes "max_bytes_ipv4 sv = 16" "clnt_create server_host = Some clnt" "stub_ok sv dns_query_1 clnt"
    and "resolution sv name \<noteq> Undefined"
  shows "resolver_main cache clnt_create dns_query_1 program (server_host # name # rest) = (case cache name of
     Some ip \<Rightarrow> (''Found domain's IP in local cache! No need to send an RPC to the server.'' @ [NL] @
       name @ '' has ipv4 address '' @ ip @ [NL], 0)
   | None \<Rightarrow> (case resolution sv name of
       Address ip \<Rightarrow> (name @ '' has ipv4 address '' @ ip @ [NL], 0)
     | Unknown \<Rightarrow> (''Domain name resolution failed.'' @ [NL], 1)
     | _ \<Rightarrow> (''Call failed'' @ [NL], 1)))"
  using stub_resolution [OF assms(1,3,4)] assms(2,4)
  by (auto simp: resolver_main_def resolve_hostname_def send_query_def create_client_stub_def create_response_def
      print_ipv4_address_in_cache_def print_ipv4_address_def print_failure_def split: option.splits resolution.splits)

text \<open>A service without a cache, and a name server whose answer comes at the second call.\<close>

definition plain_service :: service where
  "plain_service = \<lparr>check_cache = (\<lambda>_. None), getenv = (\<lambda>v. if v = ''NAMESERVER_HOST'' then Some ''10.0.0.2'' else Some ''53''),
     max_bytes_ipv4 = 16, net = (\<lambda>server port q. (True, [Again, Datagram ''10.0.0.1:80'']))\<rparr>"

lemma resolver_end_to_end_witness:
  "resolver_main (\<lambda>_. None) (\<lambda>_. Some ()) (\<lambda>q _. case dns_query_1_svc plain_service q of Some (Inr (_, res)) \<Rightarrow> Some res | _ \<Rightarrow> None)
     ''client'' [''localhost'', ''a.b''] = (''a.b has ipv4 address 10.0.0.1'' @ [NL], 0)"
proof -
  have "resolution plain_service ''a.b'' = Address ''10.0.0.1''"
    by (simp add: resolution_def plain_service_def nameserver_answer_def Let_def NUL_def)
  then show ?thesis
    using resolver_end_to_end [of plain_service "\<lambda>_. Some ()" "''localhost''" "()"
      "\<lambda>q _. case dns_query_1_svc plain_service q of Some (Inr (_, res)) \<Rightarrow> Some res | _ \<Rightarrow> None" "''a.b''" "\<lambda>_. None" "''client''" "[]"]
    by (auto simp: stub_ok_def plain_service_def split: option.splits sum.splits)
qed

text \<open>A datagram that fills the array leaves no NUL: the address is then read behind it.\<close>

lemma full_datagram_overruns: "read_address 16 (replicate 16 CHR ''1'') = Fault Out_Of_Bounds"
  by (simp add: read_address_def NUL_def)

end
