(* ===== verification/Cracker2_Users.thy ===== *)
theory Cracker2_Users
  imports Cracker2
begin

text \<open>
  The loop of \<open>password_cracker/cracker2.c\<close> over the users of the input: a round for each of them,
  between two meetings of all threads at the barriers.
\<close>

section \<open>The model\<close>

text \<open>
  One line of the input. A missing field is a null pointer, and \<open>strlen(pwd)\<close> follows it before the
  first round, since the last field is missing when any is.
\<close>

definition read_user :: "string \<Rightarrow> task res" where
  "read_user line = (let t1 = strtok CHR '' '' (chomp line);
       t2 = (case t1 of None \<Rightarrow> None | Some (_, rest) \<Rightarrow> strtok CHR '' '' rest);
       t3 = (case t2 of None \<Rightarrow> None | Some (_, rest) \<Rightarrow> strtok CHR '' '' rest) in
     case (t1, t2, t3) of
       (Some (u, _), Some (v, _), Some (p, _)) \<Rightarrow> OK \<lparr>username = u, hash = v, part_pwd = p\<rparr>
     | _ \<Rightarrow> Fault Null_Deref)"

text \<open>What comes of a round: \<open>strcpy\<close> has stored the password in an array of nine characters.\<close>

definition round_result :: "round \<Rightarrow> (string option \<times> int \<times> bool) res" where
  "round_result r = (case password r of
     Some w \<Rightarrow> if length w < 9 then round_summary r else Fault Out_Of_Bounds
   | None \<Rightarrow> round_summary r)"

text \<open>
  What \<open>start\<close> prints for an input, with at least one thread and any interleaving of each round:
  the second barrier lets the threads go when none of them can go on before it.
\<close>

inductive cracks :: "range_utils \<Rightarrow> nat \<Rightarrow> string \<Rightarrow> (string \<times> string option \<times> int \<times> bool) list res \<Rightarrow> bool" for u n where
  At_End: "getline content = None \<Longrightarrow> cracks u n content (OK [])"
| Bad_Line: "getline content = Some (line, rest) \<Longrightarrow> read_user line = Inl e \<Longrightarrow> cracks u n content (Inl e)"
| User: "getline content = Some (line, rest) \<Longrightarrow> read_user line = OK t \<Longrightarrow>
    (round_step u t)\<^sup>*\<^sup>* (start_round u t n) r \<Longrightarrow> \<not> (\<exists>r'. round_step u t r r') \<Longrightarrow> cracks u n rest out \<Longrightarrow>
    cracks u n content (bindE (round_result r) (\<lambda>s. bindE out (\<lambda>ss. OK ((username t, s) # ss))))"

section \<open>Specification\<close>

definition word_ok :: "string \<Rightarrow> bool" where
  "word_ok w \<longleftrightarrow> w \<noteq> [] \<and> CHR '' '' \<notin> set w \<and> NL \<notin> set w \<and> NUL \<notin> set w"

definition task_ok :: "task \<Rightarrow> bool" where
  "task_ok t \<longleftrightarrow> word_ok (username t) \<and> word_ok (hash t) \<and> word_ok (part_pwd t) \<and> length (part_pwd t) < 9"

definition task_line :: "task \<Rightarrow> string" where
  "task_line t = username t @ CHR '' '' # hash t @ CHR '' '' # part_pwd t"

text \<open>
  The right answer for a task: a completion with its hash, or that there is none, and not more
  hashes than there are completions.
\<close>

fun answers :: "range_utils \<Rightarrow> task \<Rightarrow> string \<times> string option \<times> int \<times> bool \<Rightarrow> bool" where
  "answers u t (name, pw, hashes, failed) \<longleftrightarrow> name = username t \<and> 0 \<le> hashes \<and> hashes \<le> 26 ^ unknown t \<and>
     (failed \<longleftrightarrow> (\<forall>k < 26 ^ unknown t. crypt u (candidate t k) \<noteq> hash t)) \<and>
     (\<not> failed \<longrightarrow> (\<exists>k < 26 ^ unknown t. pw = Some (candidate t k) \<and> crypt u (candidate t k) = hash t))"

text \<open>The steps a thread has left.\<close>

definition job_measure :: "job \<Rightarrow> nat" where
  "job_measure j = (case phase j of Checking i \<Rightarrow> 2 * nat (counted j - i) + 2 | Hashing i \<Rightarrow> 2 * nat (counted j - i) + 1
     | Storing \<Rightarrow> 1 | Ended _ \<Rightarrow> 0)"

section \<open>Lemmas\<close>

lemma read_task_line: "task_ok t \<Longrightarrow> read_user (task_line t @ [NL]) = OK t"
proof -
  assume t: "task_ok t"
  then have "NUL \<notin> set (task_line t)" by (auto simp: task_ok_def word_ok_def task_line_def NUL_def)
  then have "chomp (task_line t @ [NL]) = task_line t" by (rule chomp_line)
  then show ?thesis using t by (simp add: read_user_def task_ok_def word_ok_def task_line_def strtok_step Let_def)
qed

lemma getline_task: "task_ok t \<Longrightarrow> getline (task_line t @ NL # rest) = Some (task_line t @ [NL], rest)"
proof -
  assume "task_ok t"
  then have "NL \<notin> set (task_line t)" by (auto simp: task_ok_def word_ok_def task_line_def NL_def)
  then show ?thesis by (simp add: getline_def)
qed

lemma sum_list_less: "k < length xs \<Longrightarrow> f x < f (xs ! k) \<Longrightarrow> sum_list (map f (xs[k := x])) < (sum_list (map f xs) :: nat)"
proof (induction xs arbitrary: k)
  case (Cons y xs)
  then show ?case by (cases k) auto
qed simp

lemma round_step_measure:
  assumes "round_inv u t n r" "round_step u t r r'"
  shows "sum_list (map job_measure (jobs r')) < sum_list (map job_measure (jobs r))"
  using assms(2)
proof cases
  case (Check k i)
  have "job_measure (check_find i (find_flag r) (jobs r ! k)) < job_measure (jobs r ! k)"
    using Check(3) by (auto simp: job_measure_def check_find_def)
  then show ?thesis using Check sum_list_less [of k "jobs r" job_measure] by simp
next
  case (Hash k i)
  have "i < counted (jobs r ! k)" using assms(1) Hash(2,3) by (auto simp: round_inv_def)
  then have "job_measure (try_hash u t i (jobs r ! k)) < job_measure (jobs r ! k)"
    using Hash(3) by (auto simp: job_measure_def try_hash_def Let_def)
  then show ?thesis using Hash sum_list_less [of k "jobs r" job_measure] by simp
next
  case (Store k)
  have "job_measure ((jobs r ! k)\<lparr>phase := Ended 0\<rparr>) < job_measure (jobs r ! k)"
    using Store(3) by (simp add: job_measure_def)
  then show ?thesis using Store sum_list_less [of k "jobs r" job_measure] by simp
qed

text \<open>Every interleaving of a round comes to its end.\<close>

lemma round_ends:
  assumes "range_utils_ok u" "ranges_ok u (unknown t) n"
  shows "round_inv u t n r \<Longrightarrow> \<exists>r'. (round_step u t)\<^sup>*\<^sup>* r r' \<and> \<not> (\<exists>r''. round_step u t r' r'')"
proof (induction "sum_list (map job_measure (jobs r))" arbitrary: r rule: less_induct)
  case less
  show ?case
  proof (cases "\<exists>r''. round_step u t r r''")
    case True
    then obtain q where q: "round_step u t r q" by blast
    from less.hyps [OF round_step_measure [OF less.prems q] round_inv_step [OF assms q less.prems]]
    show ?thesis using q by (meson converse_rtranclp_into_rtranclp)
  qed blast
qed

text \<open>No interleaving of a round has more steps than its threads have together at its beginning.\<close>

lemma round_run_measure:
  assumes "range_utils_ok u" "ranges_ok u (unknown t) n"
  shows "(round_step u t ^^ m) r r' \<Longrightarrow> round_inv u t n r \<Longrightarrow>
    round_inv u t n r' \<and> m + sum_list (map job_measure (jobs r')) \<le> sum_list (map job_measure (jobs r))"
proof (induction m arbitrary: r')
  case (Suc m)
  then obtain q where q: "(round_step u t ^^ m) r q" "round_step u t q r'" by auto
  from Suc.IH [OF q(1) Suc.prems(2)] round_step_measure [of u t n q r'] q(2) round_inv_step [OF assms q(2)]
  show ?case by auto
qed simp

lemma int_sum_list: "int (sum_list ns) = sum_list (map int ns)"
  by (induction ns) simp_all

lemma start_measure:
  assumes "range_utils_ok u" "ranges_ok u (unknown t) n" "few_unknown t"
  shows "sum_list (map job_measure (jobs (start_round u t n))) = 2 * 26 ^ unknown t + 2 * n"
proof -
  let ?c = "\<lambda>k. snd (subrange u (unknown t) n (k + 1))"
  have c: "counted (start_job u t n k) = ?c k" "0 \<le> ?c k" "phase (start_job u t n k) = Checking 0" if "k < n" for k
    using start_job_inv [OF assms(1,2) that assms(3)] subrange_bounds(2) [OF assms(2) that]
    by (simp_all add: start_job_def Let_def split: prod.splits)
  have "map job_measure (jobs (start_round u t n)) = map (\<lambda>k. 2 * nat (?c k) + 2) [0..<n]"
    using c by (intro nth_equalityI) (simp_all add: start_round_def job_measure_def)
  then have "int (sum_list (map job_measure (jobs (start_round u t n)))) = (\<Sum>k \<leftarrow> [0..<n]. int (2 * nat (?c k) + 2))"
    by (simp only: int_sum_list map_map comp_def)
  also have "map (\<lambda>k. int (2 * nat (?c k) + 2)) [0..<n] = map (\<lambda>k. 2 * ?c k + 2) [0..<n]"
    using c(2) by (intro map_cong) auto
  also have "(\<Sum>k \<leftarrow> [0..<n]. 2 * ?c k + 2) = 2 * (\<Sum>k \<leftarrow> [0..<n]. ?c k) + 2 * int n"
    by (simp add: sum_list_addf sum_list_const_mult sum_list_triv)
  also have "\<dots> = int (2 * 26 ^ unknown t + 2 * n)" using ranges_sum [OF assms(2)] by simp
  finally show ?thesis by (simp only: of_nat_eq_iff)
qed

lemma round_steps_bounded:
  assumes "range_utils_ok u" "ranges_ok u (unknown t) n" "few_unknown t" "(round_step u t ^^ m) (start_round u t n) r"
  shows "m \<le> 2 * 26 ^ unknown t + 2 * n"
  using round_run_measure [OF assms(1,2,4) round_inv_reachable [OF assms(1-3)]] start_measure [OF assms(1-3)] by simp

lemma no_password: "(round_step u t)\<^sup>*\<^sup>* (start_round u t n) r \<Longrightarrow> \<not> find_flag r \<Longrightarrow> password r = None"
proof (induction rule: rtranclp_induct)
  case base
  show ?case by (simp add: start_round_def)
next
  case (step r r')
  from step.hyps(2) show ?case by cases (use step in auto)
qed

lemma round_answers:
  assumes "range_utils_ok u" "ranges_ok u (unknown t) n" "few_unknown t" "task_ok t"
    and "(round_step u t)\<^sup>*\<^sup>* (start_round u t n) r" "\<not> (\<exists>r'. round_step u t r r')"
  shows "\<exists>s. round_result r = OK s \<and> answers u t (username t, s)"
proof -
  have inv: "round_inv u t n r" by (rule round_inv_reachable [OF assms(1-3,5)])
  have f: "\<forall>j \<in> set (jobs r). (\<exists>flag. phase j = Ended flag)"
    "find_flag r \<longleftrightarrow> (\<exists>k < 26 ^ unknown t. crypt u (candidate t k) = hash t)"
    "find_flag r \<longrightarrow> (\<exists>k < 26 ^ unknown t. password r = Some (candidate t k) \<and> crypt u (candidate t k) = hash t)"
    using round_finds_password [OF assms(1-3,5)] assms(6) by blast+
  have h: "0 \<le> hash_count j \<and> hash_count j \<le> counted j" if "j \<in> set (jobs r)" for j
  proof -
    from that obtain k where k: "k < n" "j = jobs r ! k" using inv by (auto simp: in_set_conv_nth round_inv_def)
    from bspec [OF f(1) that] obtain flag where "phase (jobs r ! k) = Ended flag" unfolding k(2) by (elim exE)
    moreover have "job_inv u t (find_flag r) (fst (subrange u (unknown t) n (k + 1))) (jobs r ! k) (phase (jobs r ! k))"
      using inv k(1) by (simp only: round_inv_def)
    ultimately show ?thesis by (simp add: k(2))
  qed
  note total = round_hashes [OF assms(2) inv assms(3) h]
  have sum: "0 \<le> sum_list (map hash_count (jobs r))" by (rule sum_list_nonneg) (use h in auto)
  have short: "length (candidate t k) < 9" for k
    using assms(4) length_known [of t] by (simp add: candidate_def unknown_def task_ok_def)
  have "round_result r = round_summary r"
  proof (cases "password r")
    case (Some w)
    then obtain k where "w = candidate t k" using f(3) no_password [OF assms(5)] by auto
    then show ?thesis using Some short [of k] by (simp add: round_result_def)
  qed (simp add: round_result_def)
  also have "\<dots> = OK (password r, sum_list (map hash_count (jobs r)), \<not> find_flag r)"
    by (simp only: round_summary_def total(1) bindE_simps)
  finally have "round_result r = OK (password r, sum_list (map hash_count (jobs r)), \<not> find_flag r)" .
  moreover have "answers u t (username t, password r, sum_list (map hash_count (jobs r)), \<not> find_flag r)"
    unfolding answers.simps not_not using sum total(2) f(2,3) by blast
  ultimately show ?thesis by blast
qed

lemma cracks_task:
  assumes "range_utils_ok u" "ranges_ok u (unknown t) n" "few_unknown t" "task_ok t" "cracks u n (task_line t @ NL # rest) out"
  shows "\<exists>s out'. cracks u n rest out' \<and> answers u t (username t, s) \<and> out = bindE out' (\<lambda>ss. OK ((username t, s) # ss))"
  using assms(5)
proof cases
  case (User line rest' t' r out')
  then have "t' = t" "rest' = rest" using getline_task [OF assms(4), of rest] read_task_line [OF assms(4)] by auto
  with User round_answers [OF assms(1-4), of r] show ?thesis by (metis bindE_simps(2))
qed (use getline_task [OF assms(4), of rest] read_task_line [OF assms(4)] in auto)

lemma users_answers:
  assumes "range_utils_ok u" "\<forall>t \<in> set ts. task_ok t \<and> ranges_ok u (unknown t) n \<and> few_unknown t"
  shows "(\<exists>out. cracks u n (concat (map (\<lambda>t. task_line t @ [NL]) ts)) out) \<and>
    (\<forall>out. cracks u n (concat (map (\<lambda>t. task_line t @ [NL]) ts)) out \<longrightarrow> (\<exists>ss. out = OK ss \<and> list_all2 (answers u) ts ss))"
  using assms(2)
proof (induction ts)
  case Nil
  have "cracks u n [] out \<longleftrightarrow> out = OK []" for out
    by (auto simp: getline_def elim: cracks.cases intro: At_End)
  then show ?case by simp
next
  case (Cons t ts)
  let ?rest = "concat (map (\<lambda>t. task_line t @ [NL]) ts)"
  have t: "task_ok t" "ranges_ok u (unknown t) n" "few_unknown t" using Cons.prems by simp_all
  have IH: "\<exists>out. cracks u n ?rest out" "cracks u n ?rest out \<Longrightarrow> \<exists>ss. out = OK ss \<and> list_all2 (answers u) ts ss" for out
    using Cons by simp_all
  have "round_inv u t n (start_round u t n)" by (rule round_inv_reachable [OF assms(1) t(2,3)]) simp
  from round_ends [OF assms(1) t(2) this] obtain r where
    "(round_step u t)\<^sup>*\<^sup>* (start_round u t n) r" "\<not> (\<exists>r'. round_step u t r r')" by blast
  with IH(1) have "\<exists>out. cracks u n (task_line t @ NL # ?rest) out"
    using User [OF getline_task [OF t(1)] read_task_line [OF t(1)]] by blast
  moreover have "\<exists>ss. out = OK ss \<and> list_all2 (answers u) (t # ts) ss" if "cracks u n (task_line t @ NL # ?rest) out" for out
  proof -
    from cracks_task [OF assms(1) t(2,3,1) that] obtain s out' where s: "cracks u n ?rest out'" "answers u t (username t, s)"
      "out = bindE out' (\<lambda>ss. OK ((username t, s) # ss))" by blast
    from IH(2) [OF s(1)] s(2,3) show ?thesis by auto
  qed
  ultimately show ?case by simp
qed

section \<open>Properties\<close>

text \<open>
  C27: For every list of users whose passwords have up to six unknown letters the second cracker
  prints for each user in turn a completion that has the hash, or that there is none when there is
  none, whatever the interleaving of the threads, and never more hashes than there are completions;
  no interleaving of a round has more steps than twice the completions and twice the threads.
\<close>

theorem cracker2_answers:
  assumes "range_utils_ok u" "\<forall>t \<in> set ts. task_ok t \<and> ranges_ok u (unknown t) n \<and> few_unknown t"
  shows "(\<exists>out. cracks u n (concat (map (\<lambda>t. task_line t @ [NL]) ts)) out) \<and>
    (\<forall>out. cracks u n (concat (map (\<lambda>t. task_line t @ [NL]) ts)) out \<longrightarrow> (\<exists>ss. out = OK ss \<and> list_all2 (answers u) ts ss)) \<and>
    (\<forall>t \<in> set ts. \<forall>m r. (round_step u t ^^ m) (start_round u t n) r \<longrightarrow> m \<le> 2 * 26 ^ unknown t + 2 * n)"
  using users_answers [OF assms] round_steps_bounded [OF assms(1)] assms(2) by blast

lemma cracker2_answers_witness:
  "\<exists>ss. cracks one_range 1 (task_line full_task @ [NL]) (OK ss) \<and> list_all2 (answers one_range) [full_task] ss"
proof -
  have t: "known full_task = ''x''" "unknown full_task = 0" by (simp_all add: known_def unknown_def full_task_def)
  have u: "cracker_utils.truncate one_range = plain_utils" by (simp add: one_range_def cracker_utils.defs plain_utils_def)
  then have "range_utils_ok one_range" "ranges_ok one_range (unknown full_task) 1" "few_unknown full_task"
    using plain_utils_ok by (simp_all add: range_utils_ok_def ranges_ok_def few_unknown_def t) (simp_all add: one_range_def)
  moreover have "task_ok full_task" by (simp add: task_ok_def word_ok_def full_task_def NL_def NUL_def)
  ultimately have "(\<exists>out. cracks one_range 1 (task_line full_task @ [NL]) out) \<and>
      (\<forall>out. cracks one_range 1 (task_line full_task @ [NL]) out \<longrightarrow> (\<exists>ss. out = OK ss \<and> list_all2 (answers one_range) [full_task] ss))"
    using cracker2_answers [of one_range "[full_task]" 1] by simp
  then show ?thesis by blast
qed

end
