(* ===== verification/Parmake.thy ===== *)
theory Parmake
  imports Make_Build Make_Parser "HOL-Library.Char_ord" "HOL-Library.List_Lexorder"
begin

text \<open>
  The program \<open>parmake\<close> of \<open>parallel_make/parmake.c\<close> as a whole: the parser, the removal of the goals
  that have a cycle below them and of the rules that no goal needs, and the build. The graph library
  of \<open>includes/graph.h\<close> has no source in the repository and is a parameter.
\<close>

section \<open>The model\<close>

text \<open>
  What \<open>parmake\<close> asks of a graph, given as the list of its edges in the order they were added; the
  library chooses the order of its answers.
\<close>

type_synonym edge_list = "(target \<times> target) list"

record graph_lib =
  graph_neighbors :: "edge_list \<Rightarrow> target \<Rightarrow> target list"
  graph_antineighbors :: "edge_list \<Rightarrow> target \<Rightarrow> target list"
  graph_vertices :: "target set \<Rightarrow> target list"

text \<open>The loop over the goals; the last list is what \<open>print_cycle_failure\<close> reports.\<close>

primrec drop_cyclic :: "graph_lib \<Rightarrow> target list \<Rightarrow> edge_list \<Rightarrow> target list \<Rightarrow> (edge_list \<times> target list) option" where
  "drop_cyclic gl [] es failures = Some (es, failures)"
| "drop_cyclic gl (v # vs) es failures = (case detectCycle (graph_neighbors gl es) v of
     None \<Rightarrow> None
   | Some c \<Rightarrow> if c then drop_cyclic gl vs (filter (\<lambda>e. e \<noteq> ([], v)) es) (failures @ [v])
       else drop_cyclic gl vs es failures)"

text \<open>What remains of the parsed makefile for the build, the states of the rules, and the failures.\<close>

definition parmake_graph :: "graph_lib \<Rightarrow> parser \<Rightarrow> (makefile \<times> (target \<Rightarrow> int) \<times> target list) option" where
  "parmake_graph gl g = (case drop_cyclic gl (graph_neighbors gl (edges g) []) (edges g) [] of
     None \<Rightarrow> None
   | Some (es, failures) \<Rightarrow>
       (case find_useful_nodes (graph_neighbors gl es) (graph_vertices gl (dom (rules g)))
           (\<lambda>v. case rules g v of None \<Rightarrow> 0 | Some r \<Rightarrow> rule_state r) of
         None \<Rightarrow> None
       | Some (removed, sts) \<Rightarrow>
           let es = filter (\<lambda>(v, w). v \<notin> set removed \<and> w \<notin> set removed) es in
           Some (\<lparr>vertices = graph_vertices gl (dom (rules g) - set removed), dependencies = graph_neighbors gl es,
             antineighbors = graph_antineighbors gl es,
             commands = (\<lambda>v. case rules g v of None \<Rightarrow> [] | Some r \<Rightarrow> rule_commands r)\<rparr>, sts, failures)))"

section \<open>Specification\<close>

text \<open>The documentation of \<open>graph.h\<close>: the adjacent vertices in some order.\<close>

definition graph_lib_ok :: "graph_lib \<Rightarrow> bool" where
  "graph_lib_ok gl \<longleftrightarrow>
     (\<forall>es v. distinct (graph_neighbors gl es v) \<and> set (graph_neighbors gl es v) = {w. (v, w) \<in> set es}) \<and>
     (\<forall>es w. distinct (graph_antineighbors gl es w) \<and> set (graph_antineighbors gl es w) = {v. (v, w) \<in> set es}) \<and>
     (\<forall>V. finite V \<longrightarrow> distinct (graph_vertices gl V) \<and> set (graph_vertices gl V) = V)"

definition graph_ok :: "parser \<Rightarrow> bool" where
  "graph_ok g \<longleftrightarrow> finite (dom (rules g)) \<and> [] \<in> dom (rules g) \<and>
     (\<forall>(v, w) \<in> set (edges g). v \<in> dom (rules g) \<and> w \<in> dom (rules g) \<and> (w = [] \<longrightarrow> v = []))"

text \<open>A target from which a cycle of dependencies can be reached.\<close>

definition above_cycle :: "edge_list \<Rightarrow> target \<Rightarrow> bool" where
  "above_cycle es v \<longleftrightarrow> (\<exists>w. (v, w) \<in> (set es)\<^sup>* \<and> (w, w) \<in> (set es)\<^sup>+)"

section \<open>The parser gives a graph\<close>

lemma forE_keeps:
  assumes "\<And>i s s'. body i s = OK s' \<Longrightarrow> P s \<Longrightarrow> P s'"
  shows "forE is body s = OK s' \<Longrightarrow> P s \<Longrightarrow> P s'"
proof (induction "is" arbitrary: s)
  case (Cons i "is")
  then show ?case using assms by (auto simp: bindE_eq_OK)
qed simp

lemma graph_ok_vertex: "graph_ok g \<Longrightarrow> graph_ok (graph_set_vertex_value v g) \<and> v \<in> dom (rules (graph_set_vertex_value v g))"
  by (auto simp: graph_ok_def graph_set_vertex_value_def)

lemma graph_ok_cong: "rules g' = rules g \<Longrightarrow> edges g' = edges g \<Longrightarrow> graph_ok g' \<longleftrightarrow> graph_ok g"
  by (simp add: graph_ok_def)

lemma add_dependencies_ok:
  "graph_ok g \<Longrightarrow> line \<in> dom (rules g) \<Longrightarrow> [] \<notin> set ds \<Longrightarrow> graph_ok (add_dependencies line ds g)"
proof (induction ds arbitrary: g)
  case (Cons d ds)
  let ?g = "if rules g d = None then graph_set_vertex_value d g else g"
  have "graph_ok ?g" "line \<in> dom (rules ?g)" "d \<in> dom (rules ?g)"
    using Cons.prems graph_ok_vertex [of g d] by (auto simp: graph_set_vertex_value_def)
  then show ?case using Cons.prems(3) Cons.IH [of "?g\<lparr>edges := edges ?g @ [(line, d)]\<rparr>"]
    by (auto simp: Let_def graph_ok_def)
qed simp

lemma rule_line_ok: "rule_line line g = OK g' \<Longrightarrow> graph_ok g \<Longrightarrow> graph_ok g'"
proof -
  assume a: "rule_line line g = OK g'" "graph_ok g"
  then obtain n where n: "strstr line '':'' = Some n" by (auto simp: rule_line_def Let_def split: option.splits)
  let ?line = "terminate_whitespace (take n line)" and ?ds = "split_line_on_spaces (drop (Suc n) line)"
  define h where "h = (if rules g ?line = None then (graph_set_vertex_value ?line (g\<lparr>in_command_block := False, curr_rule := None\<rparr>))
       \<lparr>first_target := (case first_target g of None \<Rightarrow> Some ?line | Some t \<Rightarrow> Some t)\<rparr>
     else g\<lparr>in_command_block := False, curr_rule := None\<rparr>)"
  have g': "g' = add_dependencies ?line ?ds (h\<lparr>curr_rule := Some ?line\<rparr>)"
    using a(1) n by (cases "rules g ?line") (simp_all add: rule_line_def Let_def h_def graph_set_vertex_value_def eq_commute [of g'])
  have "graph_ok h" "?line \<in> dom (rules h)"
    using a(2) by (auto simp: h_def graph_ok_def graph_set_vertex_value_def)
  moreover have "[] \<notin> set ?ds" using strtok_all_tokens by (auto simp: split_line_on_spaces_def)
  ultimately show ?thesis unfolding g' by (intro add_dependencies_ok) (simp_all add: graph_ok_def)
qed

lemma recipe_line_ok: "recipe_line line g = OK g' \<Longrightarrow> graph_ok g \<Longrightarrow> graph_ok g'"
proof -
  assume a: "recipe_line line g = OK g'" "graph_ok g"
  then have "dom (rules g') = dom (rules g) \<and> edges g' = edges g"
    by (auto simp: recipe_line_def Let_def split: option.splits prod.splits if_splits)
  then show ?thesis using a(2) by (simp add: graph_ok_def)
qed

lemma parse_line_ok: "parse_line lineBuf g = OK g' \<Longrightarrow> graph_ok g \<Longrightarrow> graph_ok g'"
proof -
  assume a: "parse_line lineBuf g = OK g'" "graph_ok g"
  let ?g = "g\<lparr>line_number := line_number g + 1\<rparr>"
  have "graph_ok ?g" using a(2) by (simp add: graph_ok_def)
  then show ?thesis using a(1) recipe_line_ok [of _ ?g g'] rule_line_ok [of _ ?g g']
    by (auto simp: parse_line_def Let_def split: if_splits)
qed

lemma add_goals_ok: "add_goals ts g = OK g' \<Longrightarrow> graph_ok g \<Longrightarrow> graph_ok g'"
proof (induction ts arbitrary: g)
  case (Cons t ts)
  then have "rules g t \<noteq> None" "add_goals ts (g\<lparr>edges := edges g @ [([], t)]\<rparr>) = OK g'" by (simp_all split: if_splits)
  then show ?case using Cons.IH [of "g\<lparr>edges := edges g @ [([], t)]\<rparr>"] Cons.prems(2) by (auto simp: graph_ok_def)
qed simp

lemma parser_graph_ok:
  assumes "parser_parse_makefile fs file targets = OK g"
  shows "graph_ok g"
proof -
  obtain f g1 gs g2 where p: "forE (getlines f) parse_line (graph_set_vertex_value [] empty_parser) = OK g1"
    "add_goals gs g1 = OK g2" "g = zero_out_states g2"
    using assms by (auto simp: parser_parse_makefile_def bindE_eq_OK)
  have "graph_ok (graph_set_vertex_value [] empty_parser)"
    by (simp add: graph_ok_def graph_set_vertex_value_def empty_parser_def)
  then have "graph_ok g1" using forE_keeps [where P = graph_ok, OF parse_line_ok p(1)] by simp
  then have "graph_ok g2" by (rule add_goals_ok [OF p(2)])
  moreover have "dom (rules (zero_out_states g2)) = dom (rules g2)" by (auto simp: zero_out_states_def)
  ultimately show ?thesis unfolding p(3) by (simp add: graph_ok_def) (simp add: zero_out_states_def)
qed

section \<open>The removal of cyclic goals and useless rules\<close>

text \<open>What is left of the edges when some from the sentinel have been removed.\<close>

definition cut :: "edge_list \<Rightarrow> edge_list \<Rightarrow> bool" where
  "cut es0 es \<longleftrightarrow> set es \<subseteq> set es0 \<and> (\<forall>v w. (v, w) \<in> set es0 \<longrightarrow> (v, w) \<in> set es \<or> v = []) \<and>
     (\<forall>v. (v, []) \<in> set es0 \<longrightarrow> v = [])"

lemma depends_edges: "graph_lib_ok gl \<Longrightarrow> depends (graph_neighbors gl es) = set es"
  by (auto simp: depends_def graph_lib_ok_def)

lemma needed_edges: "graph_lib_ok gl \<Longrightarrow> needed (graph_neighbors gl es) v = (set es)\<^sup>* `` {v}"
  by (simp add: needed_def depends_edges)

lemma finite_needed: "finite ((set es)\<^sup>* `` {v})"
proof (rule finite_subset)
  show "(set es)\<^sup>* `` {v} \<subseteq> insert v (snd ` set es)"
  proof
    fix x assume "x \<in> (set es)\<^sup>* `` {v}"
    then have "(v, x) \<in> (set es)\<^sup>*" by simp
    then show "x \<in> insert v (snd ` set es)" by (cases rule: rtranclE) (auto intro: rev_image_eqI)
  qed
qed simp

lemma detectCycle_edges: "graph_lib_ok gl \<Longrightarrow> detectCycle (graph_neighbors gl es) v = Some (above_cycle es v)"
  using detectCycle_correct [of "graph_neighbors gl es" v] finite_needed [of es v]
  by (simp add: needed_edges cycle_below_def depends_edges above_cycle_def)

lemma cut_path: "cut es0 es \<Longrightarrow> v \<noteq> [] \<Longrightarrow> (v, w) \<in> (set es0)\<^sup>* \<Longrightarrow> (v, w) \<in> (set es)\<^sup>* \<and> w \<noteq> []"
proof -
  assume a: "cut es0 es" "v \<noteq> []" and "(v, w) \<in> (set es0)\<^sup>*"
  from this(3) show ?thesis
  proof (induction rule: rtrancl_induct)
    case base
    show ?case using a(2) by simp
  next
    case (step x y)
    then have "(x, y) \<in> set es" "y \<noteq> []" using a(1) unfolding cut_def by blast+
    with step.IH show ?case by (meson rtrancl.rtrancl_into_rtrancl)
  qed
qed

lemma cut_paths: "cut es0 es \<Longrightarrow> v \<noteq> [] \<Longrightarrow> (v, w) \<in> (set es0)\<^sup>* \<longleftrightarrow> (v, w) \<in> (set es)\<^sup>*"
  using cut_path [of es0 es v w] rtrancl_mono [of "set es" "set es0"] unfolding cut_def by blast

lemma above_cycle_mono: "above_cycle es v \<Longrightarrow> set es \<subseteq> set es0 \<Longrightarrow> above_cycle es0 v"
  unfolding above_cycle_def using rtrancl_mono [of "set es" "set es0"] trancl_mono_subset [of "set es" "set es0"] by blast

lemma cut_cycle:
  assumes "cut es0 es" "v \<noteq> []"
  shows "above_cycle es v \<longleftrightarrow> above_cycle es0 v"
proof
  assume "above_cycle es v"
  then show "above_cycle es0 v" by (rule above_cycle_mono) (use assms(1) in \<open>auto simp: cut_def\<close>)
next
  assume "above_cycle es0 v"
  then obtain w where w: "(v, w) \<in> (set es0)\<^sup>*" "(w, w) \<in> (set es0)\<^sup>+" by (auto simp: above_cycle_def)
  then have v: "(v, w) \<in> (set es)\<^sup>*" "w \<noteq> []" using cut_path [OF assms] by blast+
  obtain x where "(w, x) \<in> set es0" "(x, w) \<in> (set es0)\<^sup>*" using w(2) by (meson tranclD)
  moreover from this v(2) have "(w, x) \<in> set es" "x \<noteq> []" using assms(1) unfolding cut_def by blast+
  ultimately have "(w, w) \<in> (set es)\<^sup>+" using cut_path [OF assms(1), of x w] by (meson rtrancl_into_trancl2)
  then show "above_cycle es v" using v(1) by (auto simp: above_cycle_def)
qed

lemma drop_cyclic_ok:
  assumes "graph_lib_ok gl"
  shows "cut es0 es \<Longrightarrow> distinct vs \<Longrightarrow> (\<forall>v \<in> set vs. ([], v) \<in> set es) \<Longrightarrow>
    \<exists>es'. drop_cyclic gl vs es fs = Some (es', fs @ filter (above_cycle es0) vs) \<and> cut es0 es' \<and>
      set es' = set es - {([], v) | v. v \<in> set vs \<and> above_cycle es0 v}"
proof (induction vs arbitrary: es fs)
  case (Cons v vs)
  have c: "above_cycle es v \<longleftrightarrow> above_cycle es0 v"
  proof (cases "v = []")
    case True
    then have "([], []) \<in> set es" "([], []) \<in> set es0" using Cons.prems by (auto simp: cut_def)
    then show ?thesis using True by (auto simp: above_cycle_def)
  next
    case False
    then show ?thesis by (rule cut_cycle [OF Cons.prems(1)])
  qed
  show ?case
  proof (cases "above_cycle es0 v")
    case True
    let ?es = "filter (\<lambda>e. e \<noteq> ([], v)) es"
    have "cut es0 ?es" "\<forall>u \<in> set vs. ([], u) \<in> set ?es" using Cons.prems by (auto simp: cut_def)
    then obtain es' where "drop_cyclic gl vs ?es (fs @ [v]) = Some (es', (fs @ [v]) @ filter (above_cycle es0) vs)" "cut es0 es'"
      "set es' = set ?es - {([], v) | v. v \<in> set vs \<and> above_cycle es0 v}"
      using Cons.IH [of ?es "fs @ [v]"] Cons.prems(2) by auto
    then show ?thesis using True c by (auto simp: detectCycle_edges [OF assms])
  next
    case False
    then obtain es' where "drop_cyclic gl vs es fs = Some (es', fs @ filter (above_cycle es0) vs)" "cut es0 es'"
      "set es' = set es - {([], v) | v. v \<in> set vs \<and> above_cycle es0 v}"
      using Cons.IH [of es fs] Cons.prems by auto
    then show ?thesis using False c by (auto simp: detectCycle_edges [OF assms])
  qed
qed simp

lemma parmake_graph_ok:
  assumes gl: "graph_lib_ok gl" and g: "graph_ok g"
  defines "E \<equiv> set (edges g)" and "goals \<equiv> {v. ([], v) \<in> set (edges g) \<and> \<not> above_cycle (edges g) v}"
  shows "\<exists>mk sts. parmake_graph gl g = Some (mk, sts, filter (above_cycle (edges g)) (graph_neighbors gl (edges g) [])) \<and>
    wf_makefile mk \<and> (\<forall>v. (v, v) \<notin> (depends (dependencies mk))\<^sup>+) \<and> set (vertices mk) = insert [] (E\<^sup>* `` goals) \<and>
    (\<forall>t \<in> set (vertices mk) - {[]}. set (dependencies mk t) = E `` {t})"
proof -
  let ?vs = "graph_neighbors gl (edges g) []" and ?V = "dom (rules g)"
  have vs: "distinct ?vs" "set ?vs = {v. ([], v) \<in> E}" using gl by (simp_all add: graph_lib_ok_def E_def)
  have E: "finite ?V" "[] \<in> ?V" "\<And>v w. (v, w) \<in> E \<Longrightarrow> v \<in> ?V \<and> w \<in> ?V \<and> (w = [] \<longrightarrow> v = [])"
    using g unfolding graph_ok_def E_def by blast+
  have "cut (edges g) (edges g)" using E(3) by (auto simp: cut_def E_def)
  from drop_cyclic_ok [OF gl this vs(1), of "[]"] obtain es where
    es: "drop_cyclic gl ?vs (edges g) [] = Some (es, filter (above_cycle (edges g)) ?vs)" "cut (edges g) es"
    "set es = E - {([], v) | v. v \<in> set ?vs \<and> above_cycle (edges g) v}"
    using vs(2) by (auto simp: E_def)
  let ?N = "(set es)\<^sup>* `` {[]}"
  have goal: "([], u) \<in> set es \<longleftrightarrow> u \<in> goals" for u using es(3) vs(2) by (auto simp: goals_def E_def)
  have out: "(t, w) \<in> set es \<longleftrightarrow> (t, w) \<in> E" if "t \<noteq> []" for t w using es(3) that by auto
  have N_V: "?N \<subseteq> ?V"
  proof
    fix w assume "w \<in> ?N"
    then have "([], w) \<in> (set es)\<^sup>*" by simp
    then show "w \<in> ?V" by (cases rule: rtranclE) (use E es(3) in auto)
  qed
  have vx: "distinct (graph_vertices gl U)" "set (graph_vertices gl U) = U" if "U \<subseteq> ?V" for U
    using gl finite_subset [OF that E(1)] by (simp_all add: graph_lib_ok_def)
  obtain sts where sts: "find_useful_nodes (graph_neighbors gl es) (graph_vertices gl ?V)
      (\<lambda>v. case rules g v of None \<Rightarrow> 0 | Some r \<Rightarrow> rule_state r) = Some (filter (\<lambda>v. v \<notin> ?N) (graph_vertices gl ?V), sts)"
    using find_useful_nodes_removes [of "graph_neighbors gl es" "graph_vertices gl ?V", unfolded needed_edges [OF gl], OF finite_needed]
      N_V vx(2) [of ?V] by blast
  define es2 where "es2 = filter (\<lambda>(v, w). v \<notin> ?V - ?N \<and> w \<notin> ?V - ?N) es"
  have es2: "(v, w) \<in> set es2 \<longleftrightarrow> (v, w) \<in> set es \<and> v \<in> ?N" for v w
    using E(3) es(3) by (auto simp: es2_def intro: rtrancl_into_rtrancl)
  define mk where "mk = \<lparr>vertices = graph_vertices gl ?N, dependencies = graph_neighbors gl es2,
    antineighbors = graph_antineighbors gl es2, commands = (\<lambda>v. case rules g v of None \<Rightarrow> [] | Some r \<Rightarrow> rule_commands r)\<rparr>"
  have removed: "set (filter (\<lambda>v. v \<notin> ?N) (graph_vertices gl ?V)) = ?V - ?N" using vx(2) [of ?V] by auto
  have "?V - (?V - ?N) = ?N" using N_V by blast
  then have run: "parmake_graph gl g = Some (mk, sts, filter (above_cycle (edges g)) ?vs)"
    unfolding parmake_graph_def es(1) option.case prod.case sts removed Let_def by (simp only: mk_def es2_def)
  have deps: "set (dependencies mk v) = {w. (v, w) \<in> set es2}" "distinct (dependencies mk v)" for v
    using gl by (simp_all add: mk_def graph_lib_ok_def)
  have V: "set (vertices mk) = ?N" "distinct (vertices mk)" using vx [OF N_V] by (simp_all add: mk_def)
  have "wf_makefile mk"
    using gl V deps es2 by (auto simp: wf_makefile_def mk_def graph_lib_ok_def intro: rtrancl_into_rtrancl)
  moreover have "(v, v) \<notin> (depends (dependencies mk))\<^sup>+" for v
  proof
    assume "(v, v) \<in> (depends (dependencies mk))\<^sup>+"
    then have v: "(v, v) \<in> (set es2)\<^sup>+" by (simp add: depends_def deps)
    then have "v \<in> ?N" using es2 by (meson tranclD)
    have l: "(v, v) \<in> (set es)\<^sup>+" using v es2 by (auto intro: trancl_mono)
    then have "([], v) \<in> (set es)\<^sup>+" using \<open>v \<in> ?N\<close> by (auto intro: rtrancl_trancl_trancl)
    then obtain u where u: "([], u) \<in> set es" "(u, v) \<in> (set es)\<^sup>*" by (meson tranclD)
    have "above_cycle es u" using u(2) l unfolding above_cycle_def by blast
    then have "above_cycle (edges g) u" by (rule above_cycle_mono) (use es(2) in \<open>auto simp: cut_def\<close>)
    then show False using u(1) goal by (simp add: goals_def)
  qed
  moreover have "?N = insert [] (E\<^sup>* `` goals)"
  proof -
    have "u \<noteq> []" if "u \<in> goals" for u using that by (auto simp: goals_def above_cycle_def)
    then have p: "(u, w) \<in> E\<^sup>* \<longleftrightarrow> (u, w) \<in> (set es)\<^sup>*" if "u \<in> goals" for u w using that cut_paths [OF es(2)] by (simp add: E_def)
    have "([], w) \<in> (set es)\<^sup>* \<longleftrightarrow> w = [] \<or> (\<exists>u \<in> goals. (u, w) \<in> (set es)\<^sup>*)" for w
      using goal by (metis converse_rtranclE converse_rtrancl_into_rtrancl rtrancl.rtrancl_refl)
    then show ?thesis using p by auto
  qed
  moreover have "set (dependencies mk t) = E `` {t}" if "t \<in> set (vertices mk) - {[]}" for t
    using that deps es2 out V(1) by auto
  ultimately show ?thesis using run V(1) by metis
qed

section \<open>Properties\<close>

text \<open>
  C33: From the text of a makefile to the end of the build: whatever the makefile and the goals, if it
  parses then \<open>parmake\<close> reports exactly the goals above a cycle and is left with exactly the rules that
  the other goals need, with the dependencies the makefile gives them. Each of these is run at most
  once and after its dependencies have succeeded, and the threads are stuck only when all have ended.
\<close>

theorem parmake_builds:
  assumes "graph_lib_ok gl" "parser_parse_makefile fs file targets = OK g"
  shows "\<exists>mk sts failures. parmake_graph gl g = Some (mk, sts, failures) \<and>
    set failures = {v. ([], v) \<in> set (edges g) \<and> above_cycle (edges g) v} \<and>
    set (vertices mk) = insert [] ((set (edges g))\<^sup>* `` {v. ([], v) \<in> set (edges g) \<and> \<not> above_cycle (edges g) v}) \<and>
    (\<forall>t \<in> set (vertices mk) - {[]}. set (dependencies mk t) = set (edges g) `` {t}) \<and>
    (\<forall>n st. 0 < n \<and> build_reach mk (parmake_init mk n sts) st \<longrightarrow> distinct (started st) \<and>
      (\<forall>t \<in> set (started st). \<forall>d \<in> set (dependencies mk t). d \<in> set (finished st) \<and> states st d = 0) \<and>
      ((\<exists>st'. build_step mk st st') \<or> main_at st = Join \<and> set (workers st) = {Quit}))"
proof -
  obtain mk sts where mk: "parmake_graph gl g = Some (mk, sts, filter (above_cycle (edges g)) (graph_neighbors gl (edges g) []))"
    "wf_makefile mk" "\<forall>v. (v, v) \<notin> (depends (dependencies mk))\<^sup>+"
    "set (vertices mk) = insert [] ((set (edges g))\<^sup>* `` {v. ([], v) \<in> set (edges g) \<and> \<not> above_cycle (edges g) v})"
    "\<forall>t \<in> set (vertices mk) - {[]}. set (dependencies mk t) = set (edges g) `` {t}"
    using parmake_graph_ok [OF assms(1) parser_graph_ok [OF assms(2)]] by (elim exE conjE) (rule that)
  have f: "set (filter (above_cycle (edges g)) (graph_neighbors gl (edges g) [])) = {v. ([], v) \<in> set (edges g) \<and> above_cycle (edges g) v}"
    using assms(1) by (auto simp: graph_lib_ok_def)
  have b: "\<forall>n st. 0 < n \<and> build_reach mk (parmake_init mk n sts) st \<longrightarrow> distinct (started st) \<and>
      (\<forall>t \<in> set (started st). \<forall>d \<in> set (dependencies mk t). d \<in> set (finished st) \<and> states st d = 0) \<and>
      ((\<exists>st'. build_step mk st st') \<or> main_at st = Join \<and> set (workers st) = {Quit})"
  proof (intro allI impI)
    fix n st assume a: "0 < n \<and> build_reach mk (parmake_init mk n sts) st"
    note o = build_in_order [OF mk(2) a [THEN conjunct2]]
    note d = build_not_stuck [OF mk(2) a [THEN conjunct2] a [THEN conjunct1] mk(3) [THEN spec]]
    show "distinct (started st) \<and>
      (\<forall>t \<in> set (started st). \<forall>d \<in> set (dependencies mk t). d \<in> set (finished st) \<and> states st d = 0) \<and>
      ((\<exists>st'. build_step mk st st') \<or> main_at st = Join \<and> set (workers st) = {Quit})"
      by (intro conjI) (rule o [THEN conjunct1] o [THEN conjunct2] d)+
  qed
  show ?thesis by (intro exI conjI) (rule mk(1) f mk(4) mk(5) b)+
qed

text \<open>A library that answers in the order of the edges, and in the order of the names.\<close>

definition sorted_lib :: graph_lib where
  "sorted_lib = \<lparr>graph_neighbors = (\<lambda>es v. remdups (map snd (filter (\<lambda>e. fst e = v) es))),
     graph_antineighbors = (\<lambda>es w. remdups (map fst (filter (\<lambda>e. snd e = w) es))), graph_vertices = sorted_list_of_set\<rparr>"

lemma sorted_lib_ok: "graph_lib_ok sorted_lib"
  by (force simp: graph_lib_ok_def sorted_lib_def)

lemma parse_one_rule: "\<exists>g. parser_parse_makefile (\<lambda>n. Some (''a:'' @ [NL])) (Some ''m'') [] = OK g \<and> edges g = [([], ''a'')]"
proof -
  have "(case parser_parse_makefile (\<lambda>n. Some (''a:'' @ [NL])) (Some ''m'') [] of Inl e \<Rightarrow> False | Inr g \<Rightarrow> edges g = [([], ''a'')])"
    by code_simp
  then show ?thesis by (auto split: sum.splits)
qed

lemma parmake_builds_witness:
  "\<exists>g mk sts failures. parser_parse_makefile (\<lambda>n. Some (''a:'' @ [NL])) (Some ''m'') [] = OK g \<and>
     parmake_graph sorted_lib g = Some (mk, sts, failures) \<and> failures = [] \<and> set (vertices mk) = {[], ''a''}"
proof -
  obtain g where g: "parser_parse_makefile (\<lambda>n. Some (''a:'' @ [NL])) (Some ''m'') [] = OK g" "edges g = [([], ''a'')]"
    using parse_one_rule by blast
  have a: "w = ''a''" if "(''a'', w) \<in> {([], ''a'')}\<^sup>*" for w
    using that by (induction rule: rtrancl_induct) auto
  have "\<not> above_cycle [([], ''a'')] ''a''"
  proof
    assume "above_cycle [([], ''a'')] ''a''"
    then have "(''a'', ''a'') \<in> {([], ''a'')}\<^sup>+" using a by (auto simp: above_cycle_def)
    then obtain z where "(''a'', z) \<in> {([], ''a'')}" by (meson tranclD)
    then show False by simp
  qed
  then have s: "{v. ([], v) \<in> set (edges g) \<and> above_cycle (edges g) v} = {}"
    "{v. ([], v) \<in> set (edges g) \<and> \<not> above_cycle (edges g) v} = {''a''}" using g(2) by auto
  have t: "(set (edges g))\<^sup>* `` {''a''} = {''a''}" using a g(2) by auto
  obtain mk sts failures where m: "parmake_graph sorted_lib g = Some (mk, sts, failures)"
    "set failures = {v. ([], v) \<in> set (edges g) \<and> above_cycle (edges g) v}"
    "set (vertices mk) = insert [] ((set (edges g))\<^sup>* `` {v. ([], v) \<in> set (edges g) \<and> \<not> above_cycle (edges g) v})"
    using parmake_builds [OF sorted_lib_ok g(1)] by (elim exE conjE) (rule that)
  have "failures = []" using m(2) unfolding s(1) by (simp only: set_empty)
  moreover have "set (vertices mk) = {[], ''a''}" using m(3) unfolding s(2) t .
  ultimately
  show ?thesis using g(1) m(1) by (intro exI conjI)
qed

end
