(* ===== verification/Spec2Isabelle.thy ===== *)
theory Spec2Isabelle
  imports Editor Queue Semamore Barrier MapReduce Alloc Mini_Valgrind CamelCaser Net_Client Make_Build Make_Parser
    Minixfs_Write Chat_Server Shell Scheduler Cracker2 Lookup Mmu Know_Tools Par_Reduce Env
    Chat_Client Chat_Relay Pointers Rendezvous Name_Server Cracker2_Users Parmake
begin

text \<open>
  A verification development for the system-programming laboratories under \<open>src/\<close>: C programs
  that are independent of each other but for the containers some of them share. Every program is
  translated function by function into definitions that compute, and each theory states what its
  program does and proves it of these definitions.

  \<^bold>\<open>How C is modelled.\<close> A struct is a record, a \<open>size_t\<close> is a 64-bit word, and an \<open>int\<close> an
  integer with its range checked (\<open>c_int\<close>) or its conversions written out (\<open>to_int\<close>) where they
  matter. A call that can go wrong gives a value of \<open>fault + 'a\<close>: a failed assertion, a use of the
  null pointer or of a freed block, an access out of bounds, an unwritten cell, \<open>exit\<close>. A loop that
  may run for ever is a \<open>partial_function\<close> with an optional result, or has fuel; the theorems say
  when it ends and never only what holds if it does. Heaps of linked blocks are maps from addresses
  to records, arrays are lists of cells, and strings are the characters before the NUL. The bytes of
  a file are a list. Calls of the operating system are lists of outcomes that the theorems quantify
  over; functions of files that are not in the repository are arguments, with what the code relies on
  as named hypotheses. Threads are step relations over all interleavings.

  \<^bold>\<open>Shared ground.\<close> \<open>Prelude\<close>: faults, sequencing (\<open>bindE\<close>), counted loops (\<open>forE\<close>) with their rule,
  arrays of cells, words. \<open>C_String\<close>: the functions of \<open>string.h\<close> and \<open>getline\<close>. \<open>Decimal\<close>,
  \<open>Ctype\<close>: numerals and classes of characters. \<open>Monitor\<close>: threads that share a structure under one
  mutex and one condition variable; its locales \<open>monitor_invariant\<close> and \<open>monitor_wakeup\<close> give
  invariants over all interleavings and the absence of lost wakeups to any structure whose critical
  sections satisfy a few laws. \<open>Socket\<close>: a connection as the calls of \<open>read\<close> and \<open>write\<close> see it.

  \<^bold>\<open>The vector and the text editor.\<close> \<open>Vector\<close> (\<open>vector/vector.c\<close>) models the cells of the array, the
  capacity loop with its wrap-around, and the callbacks; its interface to clients is the locale
  \<open>seq_store\<close>, and a history of operations is refined to the list operations. \<open>Sstring\<close>
  (\<open>vector/sstring.c\<close>), \<open>Document\<close> and \<open>Editor\<close> (\<open>text_editor/\<close>) are built on it.

  \<^bold>\<open>Synchronisation.\<close> \<open>Queue\<close>, \<open>Semamore\<close> and \<open>Barrier\<close> (\<open>critical_concurrency/\<close>) are programs of
  \<open>Monitor\<close>: the order of the data and the ownership of nodes, the bounds of the counter, the rounds
  of the barrier, and that threads are not stuck. \<open>Rendezvous\<close> has the two threads of
  \<open>rendezvous.c\<close> with semaphores of the system.

  \<^bold>\<open>Map-reduce.\<close> \<open>Splitter\<close> cuts a file at line ends; \<open>Datastore\<close> (\<open>core/libds.c\<close>) is a map, which the
  locale \<open>kv_store\<close> states for its clients; \<open>MapReduce\<close> has the drivers, four mappers, the reducer
  and their writes to one pipe, and shows that counting words is right for up to ten mappers, the
  most that the array for the number of a splitter allows, and every order of the writes.

  \<^bold>\<open>Memory.\<close> \<open>Alloc\<close> (\<open>malloc/alloc.c\<close>): the block list and the free list in one heap, with contents;
  \<open>malloc\<close>, \<open>calloc\<close>, \<open>free\<close>, \<open>realloc\<close>. \<open>Mini_Valgrind\<close>: the list of tracked blocks and its totals.

  \<^bold>\<open>Files and networks.\<close> \<open>Minixfs\<close>, \<open>Minixfs_Write\<close> (\<open>finding_filesystems/minixfs.c\<close>): reading and
  writing through direct and indirect blocks. \<open>Net_Common\<close>, \<open>Net_Server\<close>, \<open>Net_Put\<close>, \<open>Net_Answers\<close>,
  \<open>Net_Client\<close> (\<open>nonstop_networking/\<close>): the state machine of a connection under every cutting and
  delay of its bytes, and a transfer from end to end. \<open>Chat_Utils\<close>, \<open>Chat_Server\<close>
  (\<open>charming_chatroom/\<close>): the transfers of messages, and the server as a step relation with its slots,
  its threads and its mutex. \<open>Chat_Client\<close> sends and prints messages over these transfers, and \<open>Chat_Relay\<close>
  follows them byte by byte through the server to all users.
  \<open>Name_Server\<close> (\<open>rpc/\<close>): the resolution of a host name by client, service and name server, with the
  caches, the generated stubs and the network as parameters.

  \<^bold>\<open>Make.\<close> \<open>Make_Graph\<close>, \<open>Make_Build\<close> and \<open>Make_Parser\<close> (\<open>parallel_make/\<close>): the searches on the
  graph of rules, the threads of a build, and the parser, which is inverse to printing. \<open>Parmake\<close>
  puts them together: what is built, and in which order, from the text of a makefile on.

  \<^bold>\<open>Shell, scheduler, crackers.\<close> \<open>Shell\<close> (\<open>shell/shell.c\<close>): splitting, operators, built-in commands and
  the history. Its fuel counts how often a command of the history runs another; two are enough
  while the history has no \<open>#\<close> and \<open>!\<close> (\<open>shell_command_ends\<close>). \<open>Scheduler\<close>
  (\<open>savvy_scheduler/libscheduler.c\<close>): six schemes over any ordered type of times. \<open>Cracker\<close>,
  \<open>Cracker2\<close> and \<open>Cracker2_Users\<close> (\<open>password_cracker/\<close>): the search for a password, two ways to share
  it among threads, and the rounds of the second one for all users of an input. Their counts are
  of type \<open>int\<close>, which is enough for six unknown letters.
  \<open>CamelCaser\<close> (\<open>extreme_edge_cases/camelCaser.c\<close>): the in-place conversion against a one-pass one.

  \<^bold>\<open>Virtual memory, tools.\<close> \<open>Mmu\<close> (\<open>ideal_indirection/mmu.c\<close>): directories, tables and pages in
  simulated memory, over any kernel and translation buffer; its invariant gives each frame one role,
  and with it the isolation of processes, as long as the kernel has frames left. \<open>Know_Tools\<close> (\<open>know_your_tools/\<close>): wrapping, shredding and
  moving of a file. \<open>Par_Reduce\<close> (\<open>teaching_threads/par_reduce.c\<close>): threads with an unprotected
  counter. \<open>Env\<close> (\<open>utilities_unleashed/env.c\<close>): runs of a command with changing variables.
  \<open>Lookup\<close> (\<open>mad_mad_access_patterns/\<close>): a search tree in a file, read in two ways.
  \<open>Pointers\<close> (\<open>perilous_pointers/part1-functions.c\<close>): exercises with integers and strings.

  \<^bold>\<open>Defects.\<close> Where the code does not do what it means to, the theorem has the condition under which
  it does, and a lemma or theorem shows what happens otherwise: among others a broadcast of the chat
  server that never ends with the mutex held, the block a GET loses, the write behind the buffer in
  the file system, the capacity loop beyond $2^{63}$, and the product in \<open>calloc\<close>.

  \<^bold>\<open>Not modelled.\<close> Tests, examples and the two start files. The containers of \<open>parallel_make/libs\<close>,
  \<open>shell/libs\<close> and the headers beside them have no source here; the theories use lists and functions
  in their place. \<open>mapreduce/pi\<close> is third-party arithmetic in C++. Printing, the windows of the chat
  client, the setting up of sockets and processes and the release of memory at the end of a program
  only call libraries. The exercises of
  \<open>perilous_pointers/\<close> that are left out print constants or floating-point numbers. The option parsers
  of the shell and of make are in files that only start the programs modelled here.
\<close>

end
